(* ===== verification/Rtmap_Prelude.thy ===== *)
theory Rtmap_Prelude
  imports Main "HOL-Library.Word"
begin

text \<open>
  Shared vocabulary of the development: the machine types of the Rust sources, the integer
  operations the sources call by name (\<open>saturating_add\<close>, \<open>saturating_sub\<close>, \<open>checked_add\<close>,
  little-endian conversions), and ordered maps.

  Conventions.  A \<open>u8\<close>/\<open>u16\<close>/\<open>u32\<close>/\<open>u64\<close> is a word of that width and its arithmetic is that
  of the release profile of \<^verbatim>\<open>engine/Cargo.toml\<close> (\<open>+\<close> and \<open>-\<close> wrap).  A \<open>usize\<close> that is an
  index or a length of a container is a \<open>nat\<close>.  A \<open>BTreeMap\<close> is an association list that
  is strictly sorted by key (\<open>bt_inv\<close>); the interface its users rely on is the locale
  \<open>ordered_map\<close>, interpreted here on the list operations.
\<close>

unbundle bit_operations_syntax

type_synonym u8 = "8 word"
type_synonym u16 = "16 word"
type_synonym u32 = "32 word"
type_synonym u64 = "64 word"

named_theorems rust_arith "unsigned readings of the Rust integer operations"
named_theorems btree "functional behaviour of the ordered-map operations"


subsection \<open>Integer operations\<close>

definition sat_add :: "'a::len word \<Rightarrow> 'a word \<Rightarrow> 'a word" where
  "sat_add a b = (if a + b < a then - 1 else a + b)"

definition sat_sub :: "'a::len word \<Rightarrow> 'a word \<Rightarrow> 'a word" where
  "sat_sub a b = (if b \<le> a then a - b else 0)"

definition checked_add :: "'a::len word \<Rightarrow> 'a word \<Rightarrow> 'a word option" where
  "checked_add a b = (if a + b < a then None else Some (a + b))"

definition abs_diff :: "'a::len word \<Rightarrow> 'a word \<Rightarrow> 'a word" where
  "abs_diff a b = (if a < b then b - a else a - b)"

lemma unat_lt: "unat (w :: 'a::len word) < 2 ^ LENGTH('a)"
  by (rule unsigned_less)

lemma word_add_wraps_iff:
  fixes a b :: "'a::len word"
  shows "a + b < a \<longleftrightarrow> 2 ^ LENGTH('a) \<le> unat a + unat b"
proof -
  have "a \<le> a + b \<longleftrightarrow> unat a + unat b < 2 ^ LENGTH('a)"
    by (simp add: no_olen_add_nat)
  then show ?thesis by (auto simp: not_le [symmetric])
qed

lemma unat_max_word: "unat (- 1 :: 'a::len word) = 2 ^ LENGTH('a) - 1"
  by (simp add: unat_eq_nat_uint unsigned_minus_1_eq_mask mask_eq_exp_minus_1 nat_diff_distrib nat_power_eq)

lemma unat_sat_add [rust_arith]:
  fixes a b :: "'a::len word"
  shows "unat (sat_add a b) = min (unat a + unat b) (2 ^ LENGTH('a) - 1)"
proof (cases "a + b < a")
  case True
  then have "2 ^ LENGTH('a) \<le> unat a + unat b" by (simp add: word_add_wraps_iff)
  with True show ?thesis by (simp add: sat_add_def unat_max_word)
next
  case False
  then have "unat a + unat b < 2 ^ LENGTH('a)" by (simp add: word_add_wraps_iff)
  with False show ?thesis by (simp add: sat_add_def unat_word_ariths)
qed

lemma unat_sat_sub [rust_arith]: "unat (sat_sub a b) = unat a - unat b"
  by (simp add: sat_sub_def unat_sub word_le_nat_alt)

lemma checked_add_Some [rust_arith]:
  fixes a b :: "'a::len word"
  shows "checked_add a b = Some c \<longleftrightarrow> unat a + unat b < 2 ^ LENGTH('a) \<and> c = a + b"
  by (auto simp: checked_add_def word_add_wraps_iff not_le)

lemma checked_add_None [rust_arith]:
  fixes a b :: "'a::len word"
  shows "checked_add a b = None \<longleftrightarrow> 2 ^ LENGTH('a) \<le> unat a + unat b"
  by (simp add: checked_add_def word_add_wraps_iff)

lemma unat_add_small [rust_arith]:
  fixes a b :: "'a::len word"
  shows "unat a + unat b < 2 ^ LENGTH('a) \<Longrightarrow> unat (a + b) = unat a + unat b"
  by (simp add: unat_word_ariths)

lemma unat_ucast_widen [rust_arith]:
  fixes w :: "'a::len word"
  assumes "LENGTH('a) \<le> LENGTH('b::len)"
  shows "unat (ucast w :: 'b word) = unat w"
proof -
  have "unat w < 2 ^ LENGTH('b)"
    using unat_lt [of w] assms by (meson less_le_trans one_le_numeral power_increasing)
  then show ?thesis by (simp add: unsigned_ucast_eq take_bit_nat_eq_self)
qed

lemma sat_add_ge: "a \<le> sat_add a b"
proof -
  have "unat a < 2 ^ LENGTH('a)" for a :: "'a::len word" by (rule unsigned_less)
  then show ?thesis by (simp add: word_le_nat_alt unat_sat_add less_eq_Suc_le le_diff_conv2)
qed


subsection \<open>Little-endian conversions\<close>

definition to_le_bytes :: "nat \<Rightarrow> 'a::len word \<Rightarrow> u8 list" where
  "to_le_bytes n w = map (\<lambda>i. ucast (drop_bit (8 * i) w)) [0..<n]"

primrec from_le_bytes :: "u8 list \<Rightarrow> 'a::len word" where
  "from_le_bytes [] = 0"
| "from_le_bytes (b # bs) = ucast b OR push_bit 8 (from_le_bytes bs)"

lemma length_to_le_bytes [simp]: "length (to_le_bytes n w) = n"
  by (simp add: to_le_bytes_def)

lemma bit_from_le_bytes:
  "bit (from_le_bytes bs :: 'a::len word) k \<longleftrightarrow>
     k < LENGTH('a) \<and> k div 8 < length bs \<and> bit (bs ! (k div 8)) (k mod 8)"
proof (induction bs arbitrary: k)
  case Nil
  then show ?case by simp
next
  case (Cons b bs)
  show ?case
  proof (cases "k < 8")
    case True
    then show ?thesis by (simp add: bit_or_iff bit_push_bit_iff bit_ucast_iff)
  next
    case False
    then have "k div 8 = Suc ((k - 8) div 8)" and "(k - 8) mod 8 = k mod 8"
      by (simp_all add: le_div_geq le_mod_geq)
    moreover have "\<not> bit b k" using False bit_imp_le_length [of b k] by auto
    ultimately show ?thesis using False
      by (auto simp: bit_or_iff bit_push_bit_iff bit_ucast_iff Cons.IH)
  qed
qed

lemma from_to_le_bytes:
  fixes w :: "'a::len word"
  assumes "LENGTH('a) \<le> 8 * n"
  shows "from_le_bytes (to_le_bytes n w) = w"
proof (rule bit_word_eqI)
  fix k assume k: "k < LENGTH('a)"
  then have "k div 8 < n" using assms by simp
  then show "bit (from_le_bytes (to_le_bytes n w) :: 'a word) k = bit w k"
    using k by (simp add: bit_from_le_bytes to_le_bytes_def bit_ucast_iff bit_drop_bit_eq)
qed


subsection \<open>Ordered maps\<close>

text \<open>
  What the sources rely on of a \<open>BTreeMap\<close>: point lookup, insertion, removal, and
  \<open>range(..=k).next_back()\<close>, the entry with the greatest key that is at most \<open>k\<close>.
\<close>

locale ordered_map =
  fixes get :: "'m \<Rightarrow> 'k::linorder \<Rightarrow> 'v option"
    and ins :: "'k \<Rightarrow> 'v \<Rightarrow> 'm \<Rightarrow> 'm"
    and del :: "'k \<Rightarrow> 'm \<Rightarrow> 'm"
    and floor :: "'k \<Rightarrow> 'm \<Rightarrow> ('k \<times> 'v) option"
    and inv :: "'m \<Rightarrow> bool"
  assumes inv_ins: "inv m \<Longrightarrow> inv (ins k v m)"
    and inv_del: "inv m \<Longrightarrow> inv (del k m)"
    and get_ins: "inv m \<Longrightarrow> get (ins k v m) = (get m)(k \<mapsto> v)"
    and get_del: "inv m \<Longrightarrow> get (del k m) = (get m)(k := None)"
    and floor_eq: "inv m \<Longrightarrow> floor k m = Some (a, v) \<longleftrightarrow>
          a \<le> k \<and> get m a = Some v \<and> (\<forall>b. b \<le> k \<longrightarrow> get m b \<noteq> None \<longrightarrow> b \<le> a)"
    and floor_none: "inv m \<Longrightarrow> floor k m = None \<longleftrightarrow> (\<forall>b. b \<le> k \<longrightarrow> get m b = None)"
begin

lemma floor_exact: "inv m \<Longrightarrow> get m k = Some v \<Longrightarrow> floor k m = Some (k, v)"
  by (auto simp: floor_eq)

lemma floor_insert: "inv m \<Longrightarrow> floor k (ins k v m) = Some (k, v)"
  by (rule floor_exact) (simp_all add: inv_ins get_ins)

lemma floor_mono:
  assumes "inv m" "floor k m = Some (a, v)" "floor l m = Some (b, w)" "k \<le> l"
  shows "a \<le> b"
  using assms by (fastforce simp: floor_eq)

end

text \<open>
  An interval map stores half-open intervals \<open>[a, upper a v)\<close> by their lower end.  Where
  the stored intervals are pairwise disjoint, looking at the floor entry alone decides
  whether an address is covered; this is the argument behind every \<open>O(log n)\<close> lookup of
  the engine.
\<close>

locale interval_map = ordered_map get ins del floor inv
  for get :: "'m \<Rightarrow> 'k::linorder \<Rightarrow> 'v option"
    and ins :: "'k \<Rightarrow> 'v \<Rightarrow> 'm \<Rightarrow> 'm"
    and del :: "'k \<Rightarrow> 'm \<Rightarrow> 'm"
    and floor :: "'k \<Rightarrow> 'm \<Rightarrow> ('k \<times> 'v) option"
    and inv :: "'m \<Rightarrow> bool" +
  fixes upper :: "'k \<Rightarrow> 'v \<Rightarrow> 'k"
    and cover :: "'k \<Rightarrow> 'm \<Rightarrow> ('k \<times> 'v) option"
  assumes cover_floor: "cover k m = (case floor k m of None \<Rightarrow> None
          | Some (a, v) \<Rightarrow> if k < upper a v then Some (a, v) else None)"
begin

lemma cover_sound:
  "inv m \<Longrightarrow> cover k m = Some (a, v) \<Longrightarrow> get m a = Some v \<and> a \<le> k \<and> k < upper a v"
  by (auto simp: cover_floor floor_eq split: option.splits prod.splits if_splits)

lemma cover_complete:
  assumes m: "inv m"
    and disj: "\<And>a v b w. get m a = Some v \<Longrightarrow> get m b = Some w \<Longrightarrow> a < b \<Longrightarrow> upper a v \<le> b"
    and a: "get m a = Some v" "a \<le> k" "k < upper a v"
  shows "cover k m = Some (a, v)"
proof -
  have "\<exists>b w. floor k m = Some (b, w)"
    using floor_none [OF m, of k] a by (cases "floor k m") auto
  then obtain b w where fl: "floor k m = Some (b, w)" by blast
  with m a have b: "b \<le> k" "get m b = Some w" "a \<le> b"
    by (auto simp: floor_eq)
  have "a = b"
  proof (rule ccontr)
    assume "a \<noteq> b"
    with b(3) have "a < b" by simp
    from disj [OF a(1) b(2) this] a(3) b(1) show False by simp
  qed
  with b a fl show ?thesis by (auto simp: cover_floor)
qed

lemma cover_None:
  assumes "inv m" "cover k m = None"
    and "\<And>a v b w. get m a = Some v \<Longrightarrow> get m b = Some w \<Longrightarrow> a < b \<Longrightarrow> upper a v \<le> b"
  shows "\<not> (\<exists>a v. get m a = Some v \<and> a \<le> k \<and> k < upper a v)"
  using assms cover_complete by fastforce

end


subsubsection \<open>Sorted association lists\<close>

type_synonym ('k, 'v) btree_map = "('k \<times> 'v) list"

abbreviation bt_get :: "('k, 'v) btree_map \<Rightarrow> 'k \<Rightarrow> 'v option" where
  "bt_get \<equiv> map_of"

definition bt_inv :: "('k::linorder, 'v) btree_map \<Rightarrow> bool" where
  "bt_inv m = sorted_wrt (<) (map fst m)"

primrec bt_insert :: "'k::linorder \<Rightarrow> 'v \<Rightarrow> ('k, 'v) btree_map \<Rightarrow> ('k, 'v) btree_map" where
  "bt_insert k v [] = [(k, v)]"
| "bt_insert k v (e # m) =
     (if fst e < k then e # bt_insert k v m
      else if k < fst e then (k, v) # e # m
      else (k, v) # m)"

definition bt_remove :: "'k \<Rightarrow> ('k, 'v) btree_map \<Rightarrow> ('k, 'v) btree_map" where
  "bt_remove k m = filter (\<lambda>e. fst e \<noteq> k) m"

definition bt_floor :: "'k::linorder \<Rightarrow> ('k, 'v) btree_map \<Rightarrow> ('k \<times> 'v) option" where
  "bt_floor k m =
     (let below = filter (\<lambda>e. fst e \<le> k) m in if below = [] then None else Some (last below))"

text \<open>\<open>range(..=k).next_back()\<close> filtered by the end of the interval it starts.\<close>

definition bt_cover ::
  "('k::linorder \<Rightarrow> 'v \<Rightarrow> 'k) \<Rightarrow> 'k \<Rightarrow> ('k, 'v) btree_map \<Rightarrow> ('k \<times> 'v) option" where
  "bt_cover upper k m =
     (case bt_floor k m of None \<Rightarrow> None
      | Some (a, v) \<Rightarrow> if k < upper a v then Some (a, v) else None)"

lemma bt_inv_Nil [simp]: "bt_inv []"
  by (simp add: bt_inv_def)

lemma bt_inv_Cons: "bt_inv (e # m) \<longleftrightarrow> (\<forall>x \<in> set m. fst e < fst x) \<and> bt_inv m"
  by (auto simp: bt_inv_def)

lemma bt_inv_distinct: "bt_inv m \<Longrightarrow> distinct (map fst m)"
  by (induction m) (auto simp: bt_inv_Cons)

lemma bt_inv_filter: "bt_inv m \<Longrightarrow> bt_inv (filter P m)"
  by (induction m) (auto simp: bt_inv_Cons)

lemma keys_bt_insert [simp]: "fst ` set (bt_insert k v m) = insert k (fst ` set m)"
  by (induction m) auto

lemma bt_inv_insert: "bt_inv m \<Longrightarrow> bt_inv (bt_insert k v m)"
proof (induction m)
  case Nil
  then show ?case by (simp add: bt_inv_Cons)
next
  case (Cons e m)
  have "\<forall>x \<in> set (bt_insert k v m). fst x = k \<or> fst x \<in> fst ` set m"
    using keys_bt_insert [of k v m] by blast
  with Cons show ?case by (fastforce simp: bt_inv_Cons)
qed

lemma get_bt_insert [btree]: "bt_inv m \<Longrightarrow> bt_get (bt_insert k v m) = (bt_get m)(k \<mapsto> v)"
  by (induction m) (auto simp: bt_inv_Cons fun_eq_iff)

lemma map_of_filter_key:
  "map_of (filter (\<lambda>e. P (fst e)) m) = (\<lambda>k. if P k then map_of m k else None)"
  by (induction m) (auto simp: fun_eq_iff)

lemma get_bt_remove [btree]: "bt_get (bt_remove k m) = (bt_get m)(k := None)"
  by (auto simp: bt_remove_def map_of_filter_key [where P = "\<lambda>a. a \<noteq> k"] fun_eq_iff)

lemma get_filter:
  "bt_inv m \<Longrightarrow> bt_get (filter P m) k =
     (case bt_get m k of None \<Rightarrow> None | Some v \<Rightarrow> if P (k, v) then Some v else None)"
proof (induction m)
  case Nil
  then show ?case by simp
next
  case (Cons e m)
  have "k = fst e \<Longrightarrow> map_of m k = None"
    using Cons.prems by (force simp: bt_inv_Cons map_of_eq_None_iff)
  with Cons show ?case by (cases e) (auto simp: bt_inv_Cons split: option.splits)
qed

lemma get_in_set: "bt_inv m \<Longrightarrow> bt_get m k = Some v \<longleftrightarrow> (k, v) \<in> set m"
  by (simp add: bt_inv_distinct map_of_eq_Some_iff)

lemma bt_floor_append:
  "bt_floor k (xs @ ys) = (case bt_floor k ys of None \<Rightarrow> bt_floor k xs | Some e \<Rightarrow> Some e)"
  by (auto simp: bt_floor_def Let_def)

lemma bt_floor_set:
  assumes "bt_inv m"
  shows "bt_floor k m = Some e \<longleftrightarrow>
     e \<in> set m \<and> fst e \<le> k \<and> (\<forall>x \<in> set m. fst x \<le> k \<longrightarrow> fst x \<le> fst e)"
  using assms
proof (induction m rule: rev_induct)
  case Nil
  then show ?case by (simp add: bt_floor_def)
next
  case (snoc y m)
  from snoc.prems have m: "bt_inv m" and lt: "\<forall>x \<in> set m. fst x < fst y"
    by (auto simp: bt_inv_def sorted_wrt_append)
  show ?case
  proof (cases "fst y \<le> k")
    case True
    then have "bt_floor k (m @ [y]) = Some y" by (simp add: bt_floor_append) (simp add: bt_floor_def)
    with True lt show ?thesis by (auto simp: not_le [symmetric])
  next
    case False
    then have "bt_floor k [y] = None" by (simp add: bt_floor_def)
    with False snoc.IH [OF m] show ?thesis by (auto simp: bt_floor_append)
  qed
qed

lemma bt_floor_None: "bt_floor k m = None \<longleftrightarrow> (\<forall>x \<in> set m. \<not> fst x \<le> k)"
  by (auto simp: bt_floor_def Let_def filter_empty_conv)

interpretation bt: ordered_map bt_get bt_insert bt_remove bt_floor bt_inv
proof
  fix m :: "('k::linorder, 'v) btree_map" and k a :: 'k and v :: 'v
  assume m: "bt_inv m"
  show "bt_inv (bt_insert k v m)" using m by (rule bt_inv_insert)
  show "bt_inv (bt_remove k m)" using m by (simp add: bt_remove_def bt_inv_filter)
  show "bt_get (bt_insert k v m) = (bt_get m)(k \<mapsto> v)" using m by (rule get_bt_insert)
  show "bt_get (bt_remove k m) = (bt_get m)(k := None)" by (rule get_bt_remove)
  show "bt_floor k m = Some (a, v) \<longleftrightarrow>
     a \<le> k \<and> bt_get m a = Some v \<and> (\<forall>b. b \<le> k \<longrightarrow> bt_get m b \<noteq> None \<longrightarrow> b \<le> a)"
    unfolding bt_floor_set [OF m] get_in_set [OF m] map_of_eq_None_iff by auto
  show "bt_floor k m = None \<longleftrightarrow> (\<forall>b. b \<le> k \<longrightarrow> bt_get m b = None)"
    unfolding bt_floor_None map_of_eq_None_iff by auto
qed

interpretation btc: interval_map bt_get bt_insert bt_remove bt_floor bt_inv upper "bt_cover upper"
  for upper :: "'k::linorder \<Rightarrow> 'v \<Rightarrow> 'k"
  by unfold_locales (simp add: bt_cover_def)

end
