(* ===== verification/Ring_Protocol.thy ===== *)
theory Ring_Protocol
  imports Rtmap_Prelude
begin

text \<open>
  The wire-level part of \<^verbatim>\<open>engine/src/ring.rs\<close>: the 32-byte event and its flag accessors,
  the C layout of the shared structures and the ABI hash computed from it, the layout checks
  that are compile-time assertions in the source, and the priority Bloom filter of the
  control segment.
\<close>

definition RTMAP_MAGIC :: u64 where "RTMAP_MAGIC = 0x52544D4150425200"
definition RTMAP_CTL_MAGIC :: u64 where "RTMAP_CTL_MAGIC = 0x5254435430303032"
definition RTMAP_PROTO_VERSION :: u32 where "RTMAP_PROTO_VERSION = 3"
definition MAX_THREADS :: nat where "MAX_THREADS = 256"
definition RING_NAME_LEN :: nat where "RING_NAME_LEN = 48"
definition COMPOUND_MAX_SLOTS :: nat where "COMPOUND_MAX_SLOTS = 8"
definition EVENT_REG_SNAPSHOT :: u8 where "EVENT_REG_SNAPSHOT = 5"


subsection \<open>Structure layout (\<^verbatim>\<open>repr(C)\<close>)\<close>

text \<open>
  A field is its size and its alignment.  \<open>repr(C)\<close> places each field at the next multiple
  of its alignment and rounds the size of the structure up to its own alignment.
\<close>

type_synonym c_field = "nat \<times> nat"

definition align_up :: "nat \<Rightarrow> nat \<Rightarrow> nat" where
  "align_up n a = (n + a - 1) div a * a"

fun c_offsets :: "nat \<Rightarrow> c_field list \<Rightarrow> nat list" where
  "c_offsets pos [] = []"
| "c_offsets pos ((sz, al) # fs) = align_up pos al # c_offsets (align_up pos al + sz) fs"

fun c_end :: "nat \<Rightarrow> c_field list \<Rightarrow> nat" where
  "c_end pos [] = pos"
| "c_end pos ((sz, al) # fs) = c_end (align_up pos al + sz) fs"

definition c_size :: "nat \<Rightarrow> c_field list \<Rightarrow> nat" where
  "c_size al fs = align_up (c_end 0 fs) (fold max (map snd fs) al)"

definition c_offset :: "c_field list \<Rightarrow> nat \<Rightarrow> nat" where
  "c_offset fs i = c_offsets 0 fs ! i"

text \<open>\<open>Event\<close>: addr, size, thread_id, seq, value, kind_flags, rip_lo; \<open>align(32)\<close>.\<close>

definition event_layout :: "c_field list" where
  "event_layout = [(8, 8), (4, 4), (2, 2), (2, 2), (8, 8), (4, 4), (4, 4)]"

text \<open>
  \<open>RingHeader\<close>: magic, capacity, entry_size, flags, backpressure, proto_version, status, a pad
  to the end of the cache line, then head and tail on cache lines of their own.
\<close>

definition ring_header_layout :: "c_field list" where
  "ring_header_layout =
     [(8, 8), (4, 4), (4, 4), (8, 8), (4, 4), (4, 4), (4, 4), (64 - 36, 1),
      (8, 8), (64 - 8, 1), (8, 8), (64 - 8, 1)]"

text \<open>\<open>ScratchPadMirror\<close>: the tracer's per-thread scratch pad; \<open>align(64)\<close>.\<close>

definition scratch_pad_layout :: "c_field list" where
  "scratch_pad_layout = [(16, 8), (8, 8), (4, 4), (4, 4)] @ replicate 12 (8, 8)"


subsection \<open>The ABI hash\<close>

definition fnv_feed :: "u32 \<Rightarrow> u32 \<Rightarrow> u32" where
  "fnv_feed h v =
     fold (\<lambda>i h. (h XOR (drop_bit (i * 8) v AND 0xFF)) * 0x01000193) [0..<4] h"

definition rtmap_abi_hash :: u32 where
  "rtmap_abi_hash =
     (let h = 0x811c9dc5;
          h = fnv_feed h (of_nat (c_size 32 event_layout));
          h = fnv_feed h (of_nat (c_offset event_layout 0));
          h = fnv_feed h (of_nat (c_offset event_layout 4));
          h = fnv_feed h (of_nat (c_offset event_layout 5));
          h = fnv_feed h (of_nat (c_offset event_layout 6));
          h = fnv_feed h (of_nat (c_size 1 ring_header_layout));
          h = fnv_feed h (of_nat (c_offset ring_header_layout 8));
          h = fnv_feed h (of_nat (c_offset ring_header_layout 10));
          h = fnv_feed h (of_nat (c_offset ring_header_layout 6));
          h = fnv_feed h (of_nat (c_size 64 scratch_pad_layout));
          h = fnv_feed h (of_nat (c_offset scratch_pad_layout 3));
          h = fnv_feed h (of_nat (c_offset scratch_pad_layout 4));
          h = fnv_feed h (of_nat (c_offset scratch_pad_layout 5))
      in h)"

lemma layout_asserts:
  "c_size 32 event_layout = 32" "c_size 1 ring_header_layout = 3 * 64"
  "c_size 64 scratch_pad_layout = 128" "c_offset scratch_pad_layout 3 = 28"
  "c_offset scratch_pad_layout 4 = 32" "c_offset scratch_pad_layout 5 = 40"
  by code_simp+

text \<open>
  The ABI hash the engine computes from the layout of its own mirrors of
  the shared structures is the literal frozen from the C header, so an engine built from
  these sources attaches exactly to tracers built from that header; the compile-time layout
  assertions hold on the same layouts.
\<close>

lemma abi_hash_frozen:
  "rtmap_abi_hash = 0x8d1fdff5 \<and> c_size 32 event_layout = 32
    \<and> c_size 1 ring_header_layout = 192 \<and> c_size 64 scratch_pad_layout = 128"
  by code_simp


subsection \<open>Events\<close>

record event =
  e_addr :: u64
  e_size :: u32
  e_thread_id :: u16
  e_seq :: u16
  e_value :: u64
  e_kind_flags :: u32
  e_rip_lo :: u32

definition event_zero :: event where
  "event_zero = \<lparr>e_addr = 0, e_size = 0, e_thread_id = 0, e_seq = 0, e_value = 0,
                 e_kind_flags = 0, e_rip_lo = 0\<rparr>"

definition kind :: "event \<Rightarrow> u8" where
  "kind ev = ucast (e_kind_flags ev AND 0xFF)"

definition flags :: "event \<Rightarrow> u8" where
  "flags ev = ucast (drop_bit 8 (e_kind_flags ev) AND 0xFF)"

definition is_truncated :: "event \<Rightarrow> bool" where
  "is_truncated ev = (flags ev AND 0x80 \<noteq> 0)"

definition is_compound :: "event \<Rightarrow> bool" where
  "is_compound ev = (flags ev AND 0x40 \<noteq> 0)"

definition is_continuation :: "event \<Rightarrow> bool" where
  "is_continuation ev = (flags ev AND 0x20 \<noteq> 0)"

definition compound_slots :: "event \<Rightarrow> nat" where
  "compound_slots ev =
     (if \<not> is_compound ev then 1
      else min ((unat (e_size ev) + 7) div 8) COMPOUND_MAX_SLOTS)"

definition seq32 :: "event \<Rightarrow> u32" where
  "seq32 ev = push_bit 16 (drop_bit 16 (e_kind_flags ev)) OR ucast (e_seq ev)"

lemma compound_slots_le: "compound_slots ev \<le> 8"
  by (simp add: compound_slots_def COMPOUND_MAX_SLOTS_def)

lemma compound_slots_pos: "0 < e_size ev \<Longrightarrow> 1 \<le> compound_slots ev"
  by (auto simp: compound_slots_def COMPOUND_MAX_SLOTS_def word_less_nat_alt)

text \<open>
  The packing of kind, flags and the upper sequence half into \<open>kind_flags\<close>: each accessor
  reads back its own part.
\<close>

definition pack_kind_flags :: "u8 \<Rightarrow> u8 \<Rightarrow> u16 \<Rightarrow> u32" where
  "pack_kind_flags k f hi = push_bit 16 (ucast hi) OR push_bit 8 (ucast f) OR ucast k"

lemma bit_pack_kind_flags:
  "bit (pack_kind_flags k f hi) n \<longleftrightarrow>
     (if n < 8 then bit k n else if n < 16 then bit f (n - 8) else n < 32 \<and> bit hi (n - 16))"
  by (auto simp: pack_kind_flags_def bit_or_iff bit_push_bit_iff bit_ucast_iff
           dest: bit_imp_le_length)

lemma ucast_low_byte: "ucast ((w :: u32) AND 0xFF) = (ucast w :: u8)"
proof (rule bit_word_eqI)
  fix n assume n: "n < LENGTH(8)"
  have "(0xFF :: u32) = mask 8" by (simp add: mask_eq_exp_minus_1)
  then have "bit (ucast (w AND 0xFF) :: u8) n = (bit w n \<and> bit (mask 8 :: u32) n)"
    using n by (metis bit_and_iff bit_ucast_iff)
  then show "bit (ucast (w AND 0xFF) :: u8) n = bit (ucast w :: u8) n"
    using n by (simp add: bit_ucast_iff bit_mask_iff)
qed

text \<open>
  For every kind, flag byte and 32-bit sequence number, an event whose
  \<open>kind_flags\<close> word packs the kind, the flags and the upper half of the sequence number, and
  whose \<open>seq\<close> holds the lower half, is read back exactly by the accessors.
\<close>

theorem event_accessors_roundtrip:
  assumes kf: "e_kind_flags ev = pack_kind_flags k f (ucast (drop_bit 16 sq))"
    and lo: "e_seq ev = ucast sq"
  shows "kind ev = k \<and> flags ev = f \<and> seq32 ev = sq"
proof -
  have "kind ev = k"
    by (rule bit_word_eqI) (simp add: kind_def ucast_low_byte kf bit_ucast_iff bit_pack_kind_flags)
  moreover have "flags ev = f"
    by (rule bit_word_eqI)
       (simp add: flags_def ucast_low_byte kf bit_ucast_iff bit_drop_bit_eq bit_pack_kind_flags)
  moreover have "seq32 ev = sq"
  proof (rule bit_word_eqI)
    fix n assume "n < LENGTH(32)"
    then show "bit (seq32 ev) n = bit sq n"
      by (cases "n < 16") (auto simp: seq32_def kf lo bit_or_iff bit_push_bit_iff bit_drop_bit_eq
          bit_ucast_iff bit_pack_kind_flags dest: bit_imp_le_length)
  qed
  ultimately show ?thesis by blast
qed

theorem event_accessors_roundtrip_witness:
  "kind (event_zero\<lparr>e_kind_flags := 0x00074009, e_seq := 0x1234\<rparr>) = 9
   \<and> flags (event_zero\<lparr>e_kind_flags := 0x00074009, e_seq := 0x1234\<rparr>) = 0x40
   \<and> seq32 (event_zero\<lparr>e_kind_flags := 0x00074009, e_seq := 0x1234\<rparr>) = 0x00071234"
proof -
  have "pack_kind_flags 9 0x40 (ucast (drop_bit 16 0x00071234 :: u32)) = 0x00074009"
    by code_simp
  then show ?thesis
    by (intro event_accessors_roundtrip) (simp_all add: event_zero_def)
qed


subsection \<open>The priority Bloom filter\<close>

definition BLOOM_U64S :: nat where "BLOOM_U64S = 512"
definition BLOOM_BITS :: u32 where "BLOOM_BITS = of_nat BLOOM_U64S * 64"

definition bloom_mix :: "u32 \<Rightarrow> u32 \<Rightarrow> u64 \<Rightarrow> u32" where
  "bloom_mix seed prime a =
     fold (\<lambda>i h. (h XOR ucast (drop_bit (i * 8) a AND 0xFF)) * prime) [0..<8] seed"

definition bloom_h1 :: "u64 \<Rightarrow> u32" where
  "bloom_h1 a = bloom_mix 0x811c9dc5 0x01000193 a mod BLOOM_BITS"

definition bloom_h2 :: "u64 \<Rightarrow> u32" where
  "bloom_h2 a = bloom_mix 0x01000193 0x811c9dc5 a mod BLOOM_BITS"

definition bloom_set :: "nat \<Rightarrow> u64 list \<Rightarrow> u64 list" where
  "bloom_set b bl = bl[b div 64 := (bl ! (b div 64)) OR push_bit (b mod 64) 1]"

definition bloom_insert_bits :: "u64 list \<Rightarrow> u64 \<Rightarrow> u64 list" where
  "bloom_insert_bits bl a = bloom_set (unat (bloom_h2 a)) (bloom_set (unat (bloom_h1 a)) bl)"

text \<open>The query of the tracer side (\<^verbatim>\<open>rtmap_bloom_query\<close>), against which insertion is judged.\<close>

definition bloom_test :: "nat \<Rightarrow> u64 list \<Rightarrow> bool" where
  "bloom_test b bl = bit (bl ! (b div 64)) (b mod 64)"

definition bloom_query :: "u64 list \<Rightarrow> u64 \<Rightarrow> bool" where
  "bloom_query bl a = (bloom_test (unat (bloom_h1 a)) bl \<and> bloom_test (unat (bloom_h2 a)) bl)"

lemma bloom_index_bound: "unat (h mod BLOOM_BITS) div 64 < BLOOM_U64S"
proof -
  have "unat (h mod BLOOM_BITS) < 32768"
    by (simp add: unat_mod BLOOM_BITS_def BLOOM_U64S_def)
  then show ?thesis by (simp add: BLOOM_U64S_def)
qed

lemma bloom_h_bound [simp]:
  "unat (bloom_h1 a) div 64 < BLOOM_U64S" "unat (bloom_h2 a) div 64 < BLOOM_U64S"
  by (simp_all add: bloom_h1_def bloom_h2_def bloom_index_bound)

lemma length_bloom_set [simp]: "length (bloom_set b bl) = length bl"
  by (simp add: bloom_set_def)

lemma length_bloom_insert [simp]: "length (bloom_insert_bits bl a) = length bl"
  by (simp add: bloom_insert_bits_def)

lemma bloom_test_set:
  assumes "b div 64 < length bl"
  shows "bloom_test c (bloom_set b bl) \<longleftrightarrow> c = b \<or> bloom_test c bl"
proof (cases "c div 64 = b div 64")
  case True
  moreover have "c = b \<longleftrightarrow> c mod 64 = b mod 64" using True by (metis div_mult_mod_eq)
  moreover have "c mod 64 < 64" "b mod 64 < 64" by simp_all
  ultimately show ?thesis using assms
    by (auto simp: bloom_test_def bloom_set_def bit_or_iff bit_exp_iff)
next
  case False
  then show ?thesis using assms by (auto simp: bloom_test_def bloom_set_def)
qed

text \<open>
  Inserting an address into a full-sized filter makes the tracer's query accept
  it, keeps every address accepted before, and never writes outside the 512 words: the filter
  has no false negative, so a stamped allocation's writes survive load shedding.
\<close>

theorem bloom_no_false_negative:
  assumes "length bl = BLOOM_U64S"
  shows "bloom_query (bloom_insert_bits bl a) a
     \<and> (bloom_query bl b \<longrightarrow> bloom_query (bloom_insert_bits bl a) b)
     \<and> length (bloom_insert_bits bl a) = BLOOM_U64S"
  using assms by (simp add: bloom_query_def bloom_insert_bits_def bloom_test_set)

theorem bloom_no_false_negative_witness:
  "bloom_query (bloom_insert_bits (replicate 512 0) 0x7b6201c00320) 0x7b6201c00320"
  using bloom_no_false_negative [of "replicate 512 0" "0x7b6201c00320" 0]
  by (simp add: BLOOM_U64S_def)

end
