(* ===== verification/Ring.thy ===== *)
theory Ring
  imports Ring_Protocol
begin

text \<open>
  The consumer side of \<^verbatim>\<open>engine/src/ring.rs\<close>: validation of a mapped ring, \<open>consume_batch\<close>
  with its lap and torn-read handling, and the orchestrator that discovers rings, drains them
  round-robin and drives backpressure.

  A ring lives in memory shared with a producer that never stops.  What the consumer reads from
  it during one call is therefore an input of the model: an \<open>observation\<close> holds the two
  loads of \<open>head\<close>, the value each volatile slot read returns (by its number in the batch and the
  slot it addresses), and the loads of the retirement check.  \<open>quiet_obs\<close> is the observation of a
  ring whose producer does not move during the call.  \<open>stream_obs\<close> constrains an observation to
  one that a running producer can cause, and the exactness theorems are stated over it.
\<close>

subsection \<open>State\<close>

definition MV_STATUS_TERMINAL :: u32 where "MV_STATUS_TERMINAL = 1"
definition BP_TIER_SHED_READS :: u32 where "BP_TIER_SHED_READS = 1"
definition BP_TIER_SHED_WRITES :: u32 where "BP_TIER_SHED_WRITES = 2"

text \<open>The header of a mapped segment, before any of it is trusted.\<close>

record ring_header =
  h_magic :: u64
  h_capacity :: u32
  h_entry_size :: u32
  h_proto_version :: u32
  h_status :: u32
  h_backpressure :: u32
  h_head :: u64
  h_tail :: u64

record mapped_shm =
  shm_len :: nat
  shm_hdr :: ring_header
  shm_slots :: "event list"

record thread_ring =
  r_shm :: mapped_shm
  r_thread_id :: u16
  r_alive :: bool
  r_lapped_events :: u64
  r_lap_episodes :: u64

definition header :: "thread_ring \<Rightarrow> ring_header" where
  "header r = shm_hdr (r_shm r)"

definition set_tail :: "u64 \<Rightarrow> thread_ring \<Rightarrow> thread_ring" where
  "set_tail t r = r\<lparr>r_shm := (r_shm r)\<lparr>shm_hdr := (header r)\<lparr>h_tail := t\<rparr>\<rparr>\<rparr>"

definition set_backpressure :: "u32 \<Rightarrow> thread_ring \<Rightarrow> thread_ring" where
  "set_backpressure b r = r\<lparr>r_shm := (r_shm r)\<lparr>shm_hdr := (header r)\<lparr>h_backpressure := b\<rparr>\<rparr>\<rparr>"

lemma header_set_tail [simp]: "header (set_tail t r) = (header r)\<lparr>h_tail := t\<rparr>"
  by (simp add: set_tail_def header_def)

lemma header_set_backpressure [simp]:
  "header (set_backpressure b r) = (header r)\<lparr>h_backpressure := b\<rparr>"
  by (simp add: set_backpressure_def header_def)


subsection \<open>Attaching a ring\<close>

definition is_power_of_two :: "'a::len word \<Rightarrow> bool" where
  "is_power_of_two w = (w \<noteq> 0 \<and> w AND (w - 1) = 0)"

definition from_shm :: "mapped_shm \<Rightarrow> u16 \<Rightarrow> thread_ring option" where
  "from_shm shm tid =
     (let hdr = shm_hdr shm in
      if shm_len shm < c_size 1 ring_header_layout then None
      else if h_magic hdr \<noteq> RTMAP_MAGIC then None
      else if h_proto_version hdr \<noteq> RTMAP_PROTO_VERSION then None
      else if h_capacity hdr = 0 \<or> \<not> is_power_of_two (h_capacity hdr) then None
      else if unat (h_entry_size hdr) \<noteq> c_size 32 event_layout then None
      else if shm_len shm
             < c_size 1 ring_header_layout + unat (h_capacity hdr) * c_size 32 event_layout
      then None
      else Some \<lparr>r_shm = shm, r_thread_id = tid, r_alive = True,
                 r_lapped_events = 0, r_lap_episodes = 0\<rparr>)"

text \<open>What acceptance establishes; every later operation keeps it.\<close>

definition ring_ok :: "thread_ring \<Rightarrow> bool" where
  "ring_ok r =
     (let cap = h_capacity (header r) in
      is_power_of_two cap \<and> unat (h_entry_size (header r)) = 32 \<and>
      192 + unat cap * 32 \<le> shm_len (r_shm r))"


subsection \<open>Consuming a batch\<close>

record observation =
  o_head :: u64
  o_read :: "nat \<Rightarrow> nat \<Rightarrow> event"
  o_head2 :: u64
  o_status :: u32
  o_head3 :: u64

definition quiet_obs :: "thread_ring \<Rightarrow> observation" where
  "quiet_obs r =
     \<lparr>o_head = h_head (header r), o_read = (\<lambda>_ i. shm_slots (r_shm r) ! i),
      o_head2 = h_head (header r), o_status = h_status (header r), o_head3 = h_head (header r)\<rparr>"

definition record_lap :: "u64 \<Rightarrow> thread_ring \<Rightarrow> thread_ring" where
  "record_lap lost r =
     r\<lparr>r_lapped_events := r_lapped_events r + lost, r_lap_episodes := r_lap_episodes r + 1\<rparr>"

text \<open>
  The copy loop: \<open>n\<close> counts the slots copied, \<open>run_tail\<close> the continuation slots of the current
  run still to come.  A run (a register snapshot of 7 slots, or a compound write) is only begun
  when all of it is within \<open>cap\<close>.  \<open>slots - 1\<close> is computed in \<open>usize\<close> and cut to a byte, so a
  compound header of size 0 gives 255.
\<close>

function copy_loop :: "(nat \<Rightarrow> event) \<Rightarrow> nat \<Rightarrow> nat \<Rightarrow> u8 \<Rightarrow> event list" where
  "copy_loop rd cap n run_tail =
     (if n < cap then
        (let ev = rd n in
         if run_tail = 0 then
           (if kind ev = EVENT_REG_SNAPSHOT then
              (if n + 7 > cap then [] else ev # copy_loop rd cap (n + 1) 6)
            else if is_compound ev then
              (let slots = compound_slots ev in
               if n + slots > cap then []
               else ev # copy_loop rd cap (n + 1) (of_nat slots - 1))
            else ev # copy_loop rd cap (n + 1) 0)
         else ev # copy_loop rd cap (n + 1) (sat_sub run_tail 1))
      else [])"
  by pat_completeness auto
termination
  by (relation "measure (\<lambda>(rd, cap, n, run_tail). cap - n)") auto

declare copy_loop.simps [simp del]

definition slot_index :: "u32 \<Rightarrow> u64 \<Rightarrow> nat \<Rightarrow> nat" where
  "slot_index cap t n = unat ((t + of_nat n) AND (ucast cap - 1))"

definition consume_batch :: "observation \<Rightarrow> nat \<Rightarrow> thread_ring \<Rightarrow> thread_ring \<times> event list" where
  "consume_batch obs out_len r =
     (let ring_cap = ucast (h_capacity (header r)) :: u64;
          t0 = h_tail (header r);
          h = o_head obs;
          lapped = sat_sub h t0 > ring_cap;
          r1 = (if lapped then record_lap (h - ring_cap - t0) r else r);
          t = (if lapped then h - ring_cap else t0);
          avail = unat (sat_sub h t);
          cap = min avail out_len
      in if cap = 0 then (r1, [])
         else
           (let out = copy_loop (\<lambda>n. o_read obs n (slot_index (h_capacity (header r)) t n)) cap 0 0;
                h2 = o_head2 obs
            in if sat_sub h2 t > ring_cap
               then (let resync = h2 - ring_cap
                     in (set_tail resync (record_lap (resync - t) r1), []))
               else (set_tail (t + of_nat (length out)) r1, out)))"

lemma header_record_lap [simp]: "header (record_lap l r) = header r"
  by (simp add: record_lap_def header_def)

lemma consume_batch_header:
  "consume_batch obs n r = (r', out) \<Longrightarrow> (header r')\<lparr>h_tail := t\<rparr> = (header r)\<lparr>h_tail := t\<rparr>"
  by (auto simp: consume_batch_def Let_def split: if_splits)

subsection \<open>Slot addressing\<close>

lemma power_of_two_exp:
  fixes w :: "'a::len word"
  assumes "is_power_of_two w"
  obtains k where "k < LENGTH('a)" "w = 2 ^ k" "unat w = 2 ^ k"
proof -
  from assms have nz: "w \<noteq> 0" and clr: "w AND (w - 1) = 0" by (simp_all add: is_power_of_two_def)
  from nz have "1 \<le> unat w" by (simp add: Suc_le_eq unat_gt_0)
  then obtain k where k: "2 ^ k \<le> unat w" "unat w < 2 ^ (k + 1)"
    using ex_power_ivl1 [of 2 "unat w"] by auto
  have "2 ^ k < (2 ^ LENGTH('a) :: nat)" using k(1) unsigned_less [of w] by (rule le_less_trans)
  then have kl: "k < LENGTH('a)" by simp
  have u1: "unat (w - 1) = unat w - 1" using nz by (simp add: unat_minus_one)
  have uw: "unat w = 2 ^ k"
  proof (rule ccontr)
    assume "unat w \<noteq> 2 ^ k"
    with k have "2 ^ k \<le> unat w - 1" "unat w - 1 < 2 ^ (k + 1)" by simp_all
    then have "unat w div 2 ^ k = 1" "(unat w - 1) div 2 ^ k = 1"
      using k by (auto intro!: div_nat_eqI)
    then have "bit (unat w) k" "bit (unat (w - 1)) k" by (simp_all add: bit_iff_odd u1)
    then have "bit (w AND (w - 1)) k" by (simp add: bit_and_iff bit_unsigned_iff)
    then show False by (simp add: clr)
  qed
  have "w = of_nat (unat w)" by simp
  also have "\<dots> = 2 ^ k" unfolding uw by simp
  finally show ?thesis using kl uw that by blast
qed

lemma and_power_of_two_minus_1:
  fixes x w :: "'a::len word"
  assumes "is_power_of_two w"
  shows "unat (x AND (w - 1)) = unat x mod unat w"
proof -
  obtain k where k: "w = 2 ^ k" "unat w = 2 ^ k" using assms by (rule power_of_two_exp)
  have "w - 1 = mask k" by (simp add: k mask_eq_exp_minus_1)
  then have "x AND (w - 1) = take_bit k x" by (simp add: take_bit_eq_mask)
  then show ?thesis by (simp add: k take_bit_eq_mod unat_mod)
qed

lemma ucast_power_of_two:
  assumes "is_power_of_two (c :: u32)"
  shows "is_power_of_two (ucast c :: u64)" "unat (ucast c :: u64) = unat c"
proof -
  obtain k where k: "k < 32" "c = 2 ^ k" using power_of_two_exp [OF assms] by auto
  have "(ucast c :: u64) = 2 ^ k"
    unfolding k(2) using k(1) by (intro bit_word_eqI) (auto simp: bit_ucast_iff bit_exp_iff)
  moreover have "(2 ^ k :: u64) - 1 = mask k" by (simp add: mask_eq_exp_minus_1)
  moreover have "(2 ^ k :: u64) AND mask k = 0"
    by (rule bit_word_eqI) (auto simp: bit_and_iff bit_exp_iff bit_mask_iff)
  moreover have "(2 ^ k :: u64) \<noteq> 0" using k(1) by simp
  ultimately show "is_power_of_two (ucast c :: u64)" by (simp add: is_power_of_two_def)
  have "unat c < 2 ^ 32" using unsigned_less [of c] by simp
  then show "unat (ucast c :: u64) = unat c" by (simp add: unsigned_ucast_eq take_bit_eq_mod)
qed

lemma slot_index_mod:
  "is_power_of_two cap \<Longrightarrow> slot_index cap t n = unat (t + of_nat n) mod unat cap"
  by (simp add: slot_index_def and_power_of_two_minus_1 ucast_power_of_two)

lemma power_of_two_pos: "is_power_of_two c \<Longrightarrow> 0 < unat c"
  by (simp add: is_power_of_two_def unat_gt_0)

lemma slot_index_less: "is_power_of_two cap \<Longrightarrow> slot_index cap t n < unat cap"
  by (simp add: slot_index_mod power_of_two_pos)


subsection \<open>The copy loop\<close>

lemma copy_loop_step:
  "copy_loop rd cap n rt = [] \<or>
   n < cap \<and> (\<exists>rt'. copy_loop rd cap n rt = rd n # copy_loop rd cap (Suc n) rt')"
  by (subst (1 2) copy_loop.simps) (auto simp: Let_def)

lemma copy_loop_done: "cap \<le> n \<Longrightarrow> copy_loop rd cap n rt = []"
  by (simp add: copy_loop.simps)

lemma copy_loop_length: "length (copy_loop rd cap n rt) \<le> cap - n"
proof (induction "cap - n" arbitrary: n rt)
  case 0
  then show ?case by (simp add: copy_loop_done)
next
  case (Suc d)
  from copy_loop_step [of rd cap n rt] show ?case
  proof (elim disjE conjE exE)
    fix rt' assume "n < cap" and eq: "copy_loop rd cap n rt = rd n # copy_loop rd cap (Suc n) rt'"
    with Suc(2) have "d = cap - Suc n" by simp
    from Suc(1) [OF this, of rt'] show ?thesis using eq \<open>n < cap\<close> by simp
  qed simp
qed

lemma copy_loop_map: "copy_loop rd cap n rt = map rd [n ..< n + length (copy_loop rd cap n rt)]"
proof (induction "cap - n" arbitrary: n rt)
  case 0
  then show ?case by (simp add: copy_loop_done)
next
  case (Suc d)
  from copy_loop_step [of rd cap n rt] show ?case
  proof (elim disjE conjE exE)
    fix rt' assume "n < cap" and eq: "copy_loop rd cap n rt = rd n # copy_loop rd cap (Suc n) rt'"
    with Suc(2) have "d = cap - Suc n" by simp
    note IH = Suc(1) [OF this, of rt']
    let ?k = "length (copy_loop rd cap (Suc n) rt')"
    have "map rd [n ..< n + Suc ?k] = rd n # map rd [Suc n ..< Suc n + ?k]"
      by (simp add: upt_rec [of n] del: upt_Suc)
    with IH eq show ?thesis by simp
  qed simp
qed

text \<open>Inside a run every slot is copied, whatever its kind.\<close>

lemma copy_loop_run:
  "n + unat k \<le> cap \<Longrightarrow>
     copy_loop rd cap n k = map rd [n ..< n + unat k] @ copy_loop rd cap (n + unat k) 0"
proof (induction "unat k" arbitrary: n k)
  case 0
  then show ?case by (simp add: unat_eq_0)
next
  case (Suc d)
  then have k: "k \<noteq> 0" "n < cap" by auto
  have k1: "unat (sat_sub k 1) = d" using Suc(2) by (simp add: unat_sat_sub)
  have "copy_loop rd cap n k = rd n # copy_loop rd cap (Suc n) (sat_sub k 1)"
    by (subst copy_loop.simps) (simp add: k Let_def)
  also have "\<dots> = rd n # map rd [Suc n ..< Suc n + d] @ copy_loop rd cap (Suc n + d) 0"
    using Suc(1) [of "sat_sub k 1" "Suc n"] Suc(2,3) k1 by simp
  also have "\<dots> = map rd [n ..< n + Suc d] @ copy_loop rd cap (n + Suc d) 0"
    by (simp add: upt_rec [of n] del: upt_Suc)
  finally show ?case using Suc(2) by simp
qed

subsection \<open>Runs are never split\<close>

text \<open>
  A batch is made of whole runs: single events, register snapshots of seven slots and
  compound writes of as many slots as their header announces.
\<close>

inductive whole_runs :: "event list \<Rightarrow> bool" where
  wr_nil: "whole_runs []"
| wr_single: "kind ev \<noteq> EVENT_REG_SNAPSHOT \<Longrightarrow> \<not> is_compound ev \<Longrightarrow> whole_runs es
     \<Longrightarrow> whole_runs (ev # es)"
| wr_snapshot: "kind ev = EVENT_REG_SNAPSHOT \<Longrightarrow> length cs = 6 \<Longrightarrow> whole_runs es
     \<Longrightarrow> whole_runs (ev # cs @ es)"
| wr_compound: "kind ev \<noteq> EVENT_REG_SNAPSHOT \<Longrightarrow> is_compound ev
     \<Longrightarrow> Suc (length cs) = compound_slots ev \<Longrightarrow> whole_runs es \<Longrightarrow> whole_runs (ev # cs @ es)"

lemma copy_loop_whole:
  assumes "\<And>i. n \<le> i \<Longrightarrow> i < cap \<Longrightarrow> is_compound (rd i) \<Longrightarrow> e_size (rd i) \<noteq> 0"
  shows "whole_runs (copy_loop rd cap n 0)"
  using assms
proof (induction "cap - n" arbitrary: n rule: less_induct)
  case less
  let ?ev = "rd n"
  show ?case
  proof (cases "n < cap")
    case False
    then show ?thesis by (simp add: copy_loop_done wr_nil)
  next
    case True
    have IH: "whole_runs (copy_loop rd cap m 0)" if "n < m" for m
      using less that True by simp
    consider (snap) "kind ?ev = EVENT_REG_SNAPSHOT"
      | (comp) "kind ?ev \<noteq> EVENT_REG_SNAPSHOT" "is_compound ?ev"
      | (one) "kind ?ev \<noteq> EVENT_REG_SNAPSHOT" "\<not> is_compound ?ev" by blast
    then show ?thesis
    proof cases
      case one
      then have "copy_loop rd cap n 0 = ?ev # copy_loop rd cap (Suc n) 0"
        using True by (subst copy_loop.simps) (simp add: Let_def)
      with one IH show ?thesis by (simp add: wr_single)
    next
      case snap
      then have "copy_loop rd cap n 0 = (if n + 7 > cap then [] else ?ev # copy_loop rd cap (Suc n) 6)"
        using True by (subst copy_loop.simps) (simp add: Let_def)
      with snap IH copy_loop_run [of "Suc n" 6 cap rd] show ?thesis
        by (auto intro!: wr_nil wr_snapshot)
    next
      case comp
      define k where "k = compound_slots ?ev"
      have k: "1 \<le> k" "k \<le> 8"
        using less.prems [of n] True comp compound_slots_pos [of ?ev]
        by (simp_all add: k_def compound_slots_le word_neq_0_conv)
      then have "k \<in> {1, 2, 3, 4, 5, 6, 7, 8}" by auto
      then have uk: "unat (of_nat k - 1 :: u8) = k - 1" by auto
      have "copy_loop rd cap n 0 =
          (if n + k > cap then [] else ?ev # copy_loop rd cap (Suc n) (of_nat k - 1))"
        using True comp by (subst copy_loop.simps) (simp add: Let_def k_def)
      moreover have "whole_runs (?ev # copy_loop rd cap (Suc n) (of_nat k - 1))" if "\<not> n + k > cap"
      proof -
        have "copy_loop rd cap (Suc n) (of_nat k - 1) =
            map rd [Suc n ..< Suc n + (k - 1)] @ copy_loop rd cap (Suc n + (k - 1)) 0"
          using copy_loop_run [of "Suc n" "of_nat k - 1" cap rd] that k uk by simp
        moreover have "Suc (length (map rd [Suc n ..< Suc n + (k - 1)])) = compound_slots ?ev"
          using k(1) by (simp add: k_def)
        ultimately show ?thesis using comp IH wr_compound by simp
      qed
      ultimately show ?thesis by (simp add: wr_nil)
    qed
  qed
qed

text \<open>
  C2 (safety).  A batch never splits a run: when no slot read is a compound header of size
  zero, the events one call returns are a sequence of whole runs, whatever the producer does
  meanwhile and however short the output buffer is.
\<close>

theorem consume_batch_whole_runs:
  assumes "ring_ok r" and "consume_batch obs out_len r = (r', out)"
    and "\<And>n i. i < unat (h_capacity (header r)) \<Longrightarrow>
           is_compound (o_read obs n i) \<Longrightarrow> e_size (o_read obs n i) \<noteq> 0"
  shows "whole_runs out"
proof -
  have "slot_index (h_capacity (header r)) t n < unat (h_capacity (header r))" for t n
    using assms(1) by (auto simp: ring_ok_def Let_def intro: slot_index_less)
  then show ?thesis using assms(2,3) copy_loop_whole
    by (auto simp: consume_batch_def Let_def wr_nil split: if_splits)
qed

text \<open>A ring of eight slots holding a register snapshot and one write.\<close>

definition snap_ev :: event where "snap_ev = event_zero\<lparr>e_kind_flags := 5\<rparr>"

definition sample_ring :: thread_ring where
  "sample_ring =
     \<lparr>r_shm = \<lparr>shm_len = 192 + 8 * 32,
               shm_hdr = \<lparr>h_magic = RTMAP_MAGIC, h_capacity = 8, h_entry_size = 32,
                          h_proto_version = 3, h_status = 0, h_backpressure = 0,
                          h_head = 8, h_tail = 0\<rparr>,
               shm_slots = replicate 7 snap_ev @ [event_zero]\<rparr>,
      r_thread_id = 1, r_alive = True, r_lapped_events = 0, r_lap_episodes = 0\<rparr>"

lemma sample_ring_batch:
  "snd (consume_batch (quiet_obs sample_ring) 8 sample_ring) = replicate 7 snap_ev @ [event_zero]"
  by code_simp

lemma sample_ring_reads:
  "i < 8 \<Longrightarrow> o_read (quiet_obs sample_ring) n i \<in> {snap_ev, event_zero}"
  by (auto simp: quiet_obs_def sample_ring_def nth_append less_Suc_eq numeral_eq_Suc)

theorem consume_batch_whole_runs_witness:
  "whole_runs (replicate 7 snap_ev @ [event_zero])"
proof -
  have ok: "ring_ok sample_ring" by code_simp
  have cap: "unat (h_capacity (header sample_ring)) = 8" by code_simp
  have "\<not> is_compound snap_ev" "\<not> is_compound event_zero" by code_simp+
  then have rd: "\<And>n i. i < unat (h_capacity (header sample_ring)) \<Longrightarrow>
      is_compound (o_read (quiet_obs sample_ring) n i) \<Longrightarrow>
      e_size (o_read (quiet_obs sample_ring) n i) \<noteq> 0"
    using sample_ring_reads unfolding cap by (metis insertE emptyE)
  show ?thesis
    using consume_batch_whole_runs [OF ok prod.collapse [symmetric] rd] sample_ring_batch by metis
qed


subsection \<open>Accounting: delivered or counted as lost\<close>

lemma lap_resync_nonzero:
  fixes h t c :: u64
  assumes "c \<noteq> 0" "c < sat_sub h t"
  shows "sat_sub h (h - c) = c"
proof -
  have "unat c < unat h - unat t" using assms(2) by (simp add: word_less_nat_alt unat_sat_sub)
  then have "c \<le> h" by (simp add: word_le_nat_alt)
  then have "unat (sat_sub h (h - c)) = unat c"
    by (simp add: unat_sat_sub unat_sub word_le_nat_alt)
  then show ?thesis by (simp add: word_unat_eq_iff)
qed

text \<open>
  C3 (invariant).  Every slot the consumer's tail passes is either delivered or counted as
  lost: over one call the tail advances by exactly the growth of the lap counter plus the
  number of events returned, through both lap paths.
\<close>

theorem consume_batch_accounting:
  assumes "consume_batch obs out_len r = (r', out)" "0 < out_len" "ring_ok r"
  shows "h_tail (header r') - h_tail (header r)
         = (r_lapped_events r' - r_lapped_events r) + of_nat (length out)"
proof -
  let ?c = "ucast (h_capacity (header r)) :: u64"
  have "is_power_of_two ?c" using assms(3) by (simp add: ring_ok_def Let_def ucast_power_of_two)
  then have nz: "?c \<noteq> 0" by (simp add: is_power_of_two_def)
  have lap: "?c < sat_sub h t \<Longrightarrow> unat (sat_sub h (h - ?c)) \<noteq> 0" for h t :: u64
    using lap_resync_nonzero [OF nz, of h t] nz by (simp add: unat_eq_0)
  show ?thesis using assms(1,2)
    by (auto simp: consume_batch_def Let_def record_lap_def header_def set_tail_def
        algebra_simps min_def dest: lap [unfolded header_def] split: if_splits)
qed

theorem consume_batch_accounting_witness:
  "h_tail (header (fst (consume_batch ((quiet_obs sample_ring)\<lparr>o_head := 11, o_head2 := 12\<rparr>) 4096 sample_ring)))
     - h_tail (header sample_ring) = 4"
proof -
  let ?obs = "(quiet_obs sample_ring)\<lparr>o_head := 11, o_head2 := 12\<rparr>"
  have ok: "ring_ok sample_ring" by code_simp
  have res: "r_lapped_events (fst (consume_batch ?obs 4096 sample_ring)) = 4"
    "snd (consume_batch ?obs 4096 sample_ring) = []" "r_lapped_events sample_ring = 0"
    by code_simp+
  from consume_batch_accounting [OF prod.collapse [symmetric] _ ok, of 4096 ?obs] show ?thesis
    by (simp add: res)
qed

subsection \<open>Exactness against a running producer\<close>

lemma mod_eq_gap:
  fixes a b c :: nat
  assumes "a mod c = b mod c" "a < b"
  shows "a + c \<le> b"
proof -
  have "c dvd b - a" using assms by (metis mod_eq_dvd_iff_nat less_imp_le)
  then have "c \<le> b - a" using assms(2) by (simp add: dvd_imp_le)
  with assms(2) show ?thesis by simp
qed

text \<open>
  The producer publishes the stream \<open>pub\<close>: it fills the slot of index \<open>p\<close> and then raises
  \<open>head\<close> to \<open>p + 1\<close> (or, for a run, fills up to \<open>w\<close> slots and then raises it past all of them).
  At position \<open>p\<close> a slot therefore shows the event of the last published index that maps to it,
  except for the slots of the indices \<open>p ..< p + w\<close>, which are being overwritten and may show
  anything.
\<close>

definition slot_shows :: "(nat \<Rightarrow> event) \<Rightarrow> nat \<Rightarrow> nat \<Rightarrow> nat \<Rightarrow> nat \<Rightarrow> event \<Rightarrow> bool" where
  "slot_shows pub cap w p i e =
     ((\<exists>j \<in> {p ..< p + w}. j mod cap = i) \<or> (\<forall>j \<in> {p - cap ..< p}. j mod cap = i \<longrightarrow> e = pub j))"

definition stream_obs :: "(nat \<Rightarrow> event) \<Rightarrow> nat \<Rightarrow> nat \<Rightarrow> observation \<Rightarrow> bool" where
  "stream_obs pub cap w obs =
     (\<exists>pos. \<forall>n i. unat (o_head obs) \<le> pos n \<and> pos n \<le> unat (o_head2 obs) \<and>
        (i < cap \<longrightarrow> slot_shows pub cap w (pos n) i (o_read obs n i)))"

lemma slot_shows_exact:
  assumes "slot_shows pub cap w p (j mod cap) e" "j < p" "p \<le> h2" "h2 + w \<le> t + cap" "t \<le> j"
  shows "e = pub j"
proof -
  have "\<not> (\<exists>k \<in> {p ..< p + w}. k mod cap = j mod cap)"
  proof
    assume "\<exists>k \<in> {p ..< p + w}. k mod cap = j mod cap"
    then obtain k where "p \<le> k" "k < p + w" "j mod cap = k mod cap" by auto
    with mod_eq_gap [of j cap k] assms show False by simp
  qed
  with assms show ?thesis by (auto simp: slot_shows_def)
qed

lemma consume_batch_start:
  assumes "consume_batch obs out_len r = (r', out)" "out \<noteq> []"
  obtains t where "out = map (\<lambda>n. o_read obs n (slot_index (h_capacity (header r)) t n)) [0 ..< length out]"
    "length out \<le> unat (o_head obs) - unat t" "h_tail (header r') = t + of_nat (length out)"
    "unat (o_head2 obs) - unat t \<le> unat (ucast (h_capacity (header r)) :: u64)"
proof -
  let ?c = "ucast (h_capacity (header r)) :: u64"
  let ?lap = "?c < sat_sub (o_head obs) (h_tail (header r))"
  let ?t = "if ?lap then o_head obs - ?c else h_tail (header r)"
  let ?rd = "\<lambda>n. o_read obs n (slot_index (h_capacity (header r)) ?t n)"
  let ?cap = "min (unat (sat_sub (o_head obs) ?t)) out_len"
  have out: "out = copy_loop ?rd ?cap 0 0" and ok: "\<not> ?c < sat_sub (o_head2 obs) ?t"
    and tail: "h_tail (header r') = ?t + of_nat (length out)"
    using assms by (auto simp: consume_batch_def Let_def split: if_splits)
  have "length out \<le> unat (sat_sub (o_head obs) ?t)"
    using copy_loop_length [of ?rd ?cap 0 0] unfolding out by simp
  moreover have "out = map ?rd [0 ..< length out]"
    using copy_loop_map [of ?rd ?cap 0 0] unfolding out by simp
  ultimately show ?thesis using that [of ?t] ok tail
    by (simp add: unat_sat_sub word_less_nat_alt not_less)
qed


text \<open>
  C4 (refinement).  Let a batch be returned that ends where the tail now stands, and let the
  second load of \<open>head\<close> leave room for the \<open>w\<close> slots the producer may be overwriting.  Then the
  events are exactly the published stream at the indices the tail passed: nothing torn,
  reordered, duplicated or stale, whatever the producer did during the copy.
\<close>

theorem consume_batch_exact:
  assumes "ring_ok r" "consume_batch obs out_len r = (r', out)" "out \<noteq> []"
    and "stream_obs pub (unat (h_capacity (header r))) w obs"
    and "unat (o_head2 obs) + w
         \<le> unat (h_tail (header r')) - length out + unat (h_capacity (header r))"
  shows "out = map pub [unat (h_tail (header r')) - length out ..< unat (h_tail (header r'))]"
proof -
  let ?cap = "unat (h_capacity (header r))"
  have p2: "is_power_of_two (h_capacity (header r))" using assms(1) by (simp add: ring_ok_def Let_def)
  obtain t where out: "out = map (\<lambda>n. o_read obs n (slot_index (h_capacity (header r)) t n)) [0 ..< length out]"
    and len: "length out \<le> unat (o_head obs) - unat t"
    and tail: "h_tail (header r') = t + of_nat (length out)"
    using assms(2,3) by (rule consume_batch_start)
  have "0 < length out" using assms(3) by simp
  have small: "unat t + k < 2 ^ 64" if "k \<le> length out" for k
  proof -
    have "unat t + k \<le> unat (o_head obs)" using that len \<open>0 < length out\<close> by linarith
    then show ?thesis using unat_lt [of "o_head obs"] by simp
  qed
  have add: "unat (t + of_nat k) = unat t + k" if "k \<le> length out" for k
  proof -
    have "unat (of_nat k :: u64) = k" using small [OF that] by (simp add: unat_of_nat take_bit_eq_mod)
    then show ?thesis using small [OF that] by (simp add: unat_add_small)
  qed
  then have end': "unat (h_tail (header r')) = unat t + length out" using tail by simp
  have slot: "slot_index (h_capacity (header r)) t k = (unat t + k) mod ?cap" if "k < length out" for k
    using that add by (simp add: slot_index_mod p2)
  have "o_read obs k ((unat t + k) mod ?cap) = pub (unat t + k)" if k: "k < length out" for k
  proof -
    obtain p where p: "unat (o_head obs) \<le> p" "p \<le> unat (o_head2 obs)"
      "slot_shows pub ?cap w p ((unat t + k) mod ?cap) (o_read obs k ((unat t + k) mod ?cap))"
    proof -
      obtain pos where "\<forall>n i. unat (o_head obs) \<le> pos n \<and> pos n \<le> unat (o_head2 obs) \<and>
          (i < ?cap \<longrightarrow> slot_shows pub ?cap w (pos n) i (o_read obs n i))"
        using assms(4) unfolding stream_obs_def by blast
      then show ?thesis using power_of_two_pos [OF p2] that [of "pos k"] by simp
    qed
    show ?thesis
      by (rule slot_shows_exact [OF p(3) _ p(2)]) (use k len p(1) assms(5) end' in auto)
  qed
  then have "out = map (\<lambda>k. pub (unat t + k)) [0 ..< length out]"
    by (subst out) (simp add: slot)
  also have "\<dots> = map pub [unat t ..< unat t + length out]"
    by (simp add: map_add_upt [of "unat t", symmetric] comp_def add.commute)
  finally show ?thesis by (simp add: end')
qed


definition tick_stream :: "nat \<Rightarrow> event" where
  "tick_stream j = event_zero\<lparr>e_addr := of_nat j\<rparr>"

text \<open>Eight slots, indices 6 to 9 published and not yet consumed.\<close>

definition tick_ring :: thread_ring where
  "tick_ring = sample_ring\<lparr>r_shm := \<lparr>shm_len = 192 + 8 * 32,
     shm_hdr = (header sample_ring)\<lparr>h_head := 10, h_tail := 6\<rparr>,
     shm_slots = map tick_stream [8, 9, 2, 3, 4, 5, 6, 7]\<rparr>\<rparr>"

lemma stream_obs_still:
  assumes "\<forall>i \<in> {0 ..< cap}. slot_shows pub cap w p i (o_read obs 0 i)"
    and "\<And>n. o_read obs n = o_read obs 0" "unat (o_head obs) = p" "unat (o_head2 obs) = p"
  shows "stream_obs pub cap w obs"
  unfolding stream_obs_def
proof (intro exI allI conjI impI)
  fix n i
  show "unat (o_head obs) \<le> p" "p \<le> unat (o_head2 obs)" using assms(3,4) by simp_all
  assume "i < cap"
  then show "slot_shows pub cap w p i (o_read obs n i)" using assms(1) assms(2) [of n] by simp
qed

lemma upto_8: "{0 ..< 8 :: nat} = {0, 1, 2, 3, 4, 5, 6, 7}"
  by auto

lemma tick_ring_stream: "stream_obs tick_stream 8 1 (quiet_obs tick_ring)"
proof (rule stream_obs_still [where p = 10])
  show "\<forall>i \<in> {0 ..< 8}. slot_shows tick_stream 8 1 10 i (o_read (quiet_obs tick_ring) 0 i)"
    unfolding upto_8 ball_simps by (intro conjI TrueI; code_simp)
  show "unat (o_head (quiet_obs tick_ring)) = 10" "unat (o_head2 (quiet_obs tick_ring)) = 10"
    by code_simp+
  show "\<And>n. o_read (quiet_obs tick_ring) n = o_read (quiet_obs tick_ring) 0"
    by (simp add: quiet_obs_def)
qed

theorem consume_batch_exact_witness:
  "snd (consume_batch (quiet_obs tick_ring) 64 tick_ring) = map tick_stream [6 ..< 10]"
proof -
  let ?res = "consume_batch (quiet_obs tick_ring) 64 tick_ring"
  have ok: "ring_ok tick_ring" by code_simp
  have facts: "unat (h_capacity (header tick_ring)) = 8" "unat (h_tail (header (fst ?res))) = 10"
    "length (snd ?res) = 4" "unat (o_head2 (quiet_obs tick_ring)) = 10"
    by code_simp+
  then have ne: "snd ?res \<noteq> []" by auto
  from consume_batch_exact [OF ok prod.collapse [symmetric] ne, of tick_stream 1] show ?thesis
    using tick_ring_stream by (simp add: facts)
qed

text \<open>
  The margin \<open>w\<close> is needed: the torn-read check of the code compares the distance to the
  capacity only.  With the ring exactly full a producer on a path without a full check is
  already overwriting the oldest slot while \<open>head\<close> still reads \<open>tail + capacity\<close>; the check
  passes and the garbage is delivered.
\<close>

definition torn_ev :: event where "torn_ev = event_zero\<lparr>e_value := 0xDEAD\<rparr>"

definition torn_obs :: observation where
  "torn_obs = (quiet_obs sample_ring)\<lparr>o_read := \<lambda>_ i. if i = 0 then torn_ev else event_zero\<rparr>"

lemma torn_obs_stream: "stream_obs (\<lambda>_. event_zero) 8 1 torn_obs"
proof (rule stream_obs_still [where p = 8])
  have "slot_shows (\<lambda>_. event_zero) 8 1 8 i (o_read torn_obs 0 i)" for i
    by (cases "i = 0") (auto simp: slot_shows_def torn_obs_def intro: bexI [of _ 8])
  then show "\<forall>i \<in> {0 ..< 8}. slot_shows (\<lambda>_. event_zero) 8 1 8 i (o_read torn_obs 0 i)" by simp
  show "unat (o_head torn_obs) = 8" "unat (o_head2 torn_obs) = 8" by code_simp+
qed (simp add: torn_obs_def)

lemma torn_slot_accepted:
  "stream_obs (\<lambda>_. event_zero) 8 1 torn_obs
   \<and> snd (consume_batch torn_obs 64 sample_ring) = torn_ev # replicate 7 event_zero
   \<and> h_tail (header (fst (consume_batch torn_obs 64 sample_ring))) = 8
   \<and> torn_ev \<noteq> event_zero"
proof (intro conjI)
  show "snd (consume_batch torn_obs 64 sample_ring) = torn_ev # replicate 7 event_zero"
    "h_tail (header (fst (consume_batch torn_obs 64 sample_ring))) = 8" "torn_ev \<noteq> event_zero"
    by code_simp+
qed (rule torn_obs_stream)

subsection \<open>Progress\<close>

lemma copy_loop_nonempty:
  assumes "n + 8 \<le> cap" shows "copy_loop rd cap n 0 \<noteq> []"
  using assms compound_slots_le [of "rd n"] by (subst copy_loop.simps) (auto simp: Let_def)

text \<open>
  C5 (liveness).  With at least eight published slots and an output buffer of at least eight,
  every call moves the tail forward, and never past the producer, however far the producer runs
  during the call: either events are returned, or a lap is recorded and the tail jumps to the
  oldest slot still there.  If the producer is not a whole ring ahead when the call ends, events
  are returned and the tail moves by their number: the atomicity of runs never starves the
  consumer.
\<close>

theorem consume_batch_progress:
  assumes "consume_batch obs out_len r = (r', out)" "8 \<le> out_len" "ring_ok r"
    and "8 \<le> unat (o_head obs) - unat (h_tail (header r))"
    and "o_head obs \<le> o_head2 obs"
  shows "h_tail (header r) < h_tail (header r') \<and> h_tail (header r') \<le> o_head2 obs \<and>
     (out \<noteq> [] \<or> r_lap_episodes r' \<noteq> r_lap_episodes r) \<and>
     (unat (o_head2 obs) - unat (h_tail (header r)) \<le> unat (h_capacity (header r)) \<longrightarrow>
        out \<noteq> [] \<and> h_tail (header r') = h_tail (header r) + of_nat (length out))"
proof -
  let ?c = "ucast (h_capacity (header r)) :: u64"
  let ?t = "h_tail (header r)"
  let ?h = "o_head obs"
  have c: "unat ?c = unat (h_capacity (header r))" "0 < unat ?c"
    using assms(3) by (simp_all add: ring_ok_def Let_def ucast_power_of_two power_of_two_pos)
  have ep: "r_lap_episodes (set_tail x q) = r_lap_episodes q"
    "header (record_lap l q) = header q" "header (set_tail x q) = (header q)\<lparr>h_tail := x\<rparr>"
    "r_lap_episodes (record_lap l q) = r_lap_episodes q + 1" for x l q
    by (simp_all add: set_tail_def record_lap_def header_def)
  have hh: "unat ?h \<le> unat (o_head2 obs)" using assms(5) by (simp add: word_le_nat_alt)
  define t1 where "t1 = (if ?c < sat_sub ?h ?t then ?h - ?c else ?t)"
  define r1 where "r1 = (if ?c < sat_sub ?h ?t then record_lap (?h - ?c - ?t) r else r)"
  have t1: "unat t1 \<le> unat ?h" "unat ?t \<le> unat t1"
    "?c < sat_sub ?h ?t \<Longrightarrow> unat t1 = unat ?h - unat ?c \<and> unat ?t < unat t1"
    "\<not> ?c < sat_sub ?h ?t \<Longrightarrow> t1 = ?t"
    using assms(4) c(2)
    by (auto simp: t1_def word_less_nat_alt unat_sat_sub unat_sub word_le_nat_alt)
  define cap where "cap = min (unat (sat_sub ?h t1)) out_len"
  define out1 where
    "out1 = copy_loop (\<lambda>n. o_read obs n (slot_index (h_capacity (header r)) t1 n)) cap 0 0"
  have cap: "cap \<noteq> 0" "cap \<le> unat ?h - unat t1"
    using assms(2,4) t1 c(2)
    by (cases "?c < sat_sub ?h ?t"; auto simp: cap_def unat_sat_sub)+
  have len: "length out1 \<le> cap" using copy_loop_length [of _ cap 0 0] by (simp add: out1_def)
  have res: "(r', out) =
    (if ?c < sat_sub (o_head2 obs) t1
     then (set_tail (o_head2 obs - ?c) (record_lap (o_head2 obs - ?c - t1) r1), [])
     else (set_tail (t1 + of_nat (length out1)) r1, out1))"
    using assms(1) cap(1)
    unfolding consume_batch_def Let_def t1_def [symmetric] r1_def [symmetric]
      cap_def [symmetric] out1_def [symmetric] by (simp split: if_splits)
  have ne: "out1 \<noteq> []" if "\<not> ?c < sat_sub ?h ?t"
    unfolding out1_def using that t1(4) assms(2,4)
    by (intro copy_loop_nonempty) (simp add: cap_def unat_sat_sub)
  have adv: "unat (t1 + of_nat (length out1)) = unat t1 + length out1"
  proof -
    have "unat t1 + length out1 < 2 ^ 64" using len cap(2) t1(1) unat_lt [of ?h] by simp
    moreover from this have "unat (of_nat (length out1) :: u64) = length out1"
      by (simp add: unsigned_of_nat take_bit_nat_eq_self)
    ultimately show ?thesis by (simp add: unat_add_small)
  qed
  show ?thesis
  proof (cases "?c < sat_sub (o_head2 obs) t1")
    case True
    then have u: "unat ?c < unat (o_head2 obs) - unat t1"
      by (simp add: word_less_nat_alt unat_sat_sub)
    then have "unat (o_head2 obs - ?c) = unat (o_head2 obs) - unat ?c"
      by (simp add: unat_sub word_le_nat_alt)
    then show ?thesis using res True u t1(2) c
      by (auto simp: word_less_nat_alt word_le_nat_alt r1_def ep)
  next
    case False
    show ?thesis
    proof (cases "?c < sat_sub ?h ?t")
      case True
      then have "unat ?c < unat (o_head2 obs) - unat ?t"
        using hh by (simp add: word_less_nat_alt unat_sat_sub)
      then show ?thesis using res False True t1(1,3) adv len cap(2) hh c
        by (auto simp: word_less_nat_alt word_le_nat_alt r1_def ep)
    next
      case nolap: False
      then show ?thesis using res False t1 ne adv len cap(2) hh
        by (auto simp: word_less_nat_alt word_le_nat_alt r1_def)
    qed
  qed
qed

theorem consume_batch_progress_witness:
  "h_tail (header sample_ring) <
     h_tail (header (fst (consume_batch (quiet_obs sample_ring) 8 sample_ring))) \<and>
   snd (consume_batch (quiet_obs sample_ring) 8 sample_ring) \<noteq> []"
proof -
  have "ring_ok sample_ring" "unat (o_head (quiet_obs sample_ring)) = 8"
    "unat (h_tail (header sample_ring)) = 0" "unat (h_capacity (header sample_ring)) = 8"
    "o_head2 (quiet_obs sample_ring) = o_head (quiet_obs sample_ring)"
    by code_simp+
  then have p: "consume_batch (quiet_obs sample_ring) 8 sample_ring = (r', out) \<Longrightarrow>
    h_tail (header sample_ring) < h_tail (header r') \<and> out \<noteq> []" for r' out
    using consume_batch_progress [of "quiet_obs sample_ring" 8 sample_ring r' out] by auto
  show ?thesis by (rule p) simp
qed

text \<open>With a buffer of six the same ring is stuck for good: nothing is returned, nothing moves.\<close>

lemma short_buffer_starves:
  "consume_batch (quiet_obs sample_ring) 6 sample_ring = (sample_ring, [])"
  by code_simp

end
