(* ===== verification/Orchestrator.thy ===== *)
theory Orchestrator
  imports Ring
begin

text \<open>
  \<open>RingOrchestrator\<close> of \<^verbatim>\<open>engine/src/ring.rs\<close>: the handshake with the tracer's control segment,
  discovery of rings from its thread table, the round-robin drain and backpressure.

  Opening a POSIX shared-memory object is the operating system's; it is the parameter
  \<open>open_shm\<close>, from the NUL-terminated name to the mapped segment, if it exists.  The control
  segment as read during one call is a value (\<open>ctl_header\<close>), and the rings' shared state during a
  drain is an observation per ring.  Log output is not modelled.
\<close>

definition THREAD_STATE_EMPTY :: u32 where "THREAD_STATE_EMPTY = 0"
definition THREAD_STATE_ACTIVE :: u32 where "THREAD_STATE_ACTIVE = 1"
definition THREAD_STATE_DEAD :: u32 where "THREAD_STATE_DEAD = 2"
definition THREAD_STATE_INITIALIZING :: u32 where "THREAD_STATE_INITIALIZING = 3"
definition BATCH_SIZE :: nat where "BATCH_SIZE = 4096"

record thread_entry =
  te_state :: u32
  te_thread_id :: u16
  te_shm_name :: "u8 list"

record ctl_header =
  c_magic :: u64
  c_proto_version :: u32
  c_thread_count :: u32
  c_build_hash :: u32
  c_target_pid :: u32
  c_parent_pid :: u32
  c_tripwire_hit :: u32
  c_priority_bloom :: "u64 list"
  c_threads :: "thread_entry list"

record ring_orchestrator =
  ro_ctl :: "ctl_header option"
  ro_rings :: "thread_ring list"
  ro_known_count :: nat
  ro_rr_idx :: nat

definition ro_new :: ring_orchestrator where
  "ro_new = \<lparr>ro_ctl = None, ro_rings = [], ro_known_count = 0, ro_rr_idx = 0\<rparr>"


subsection \<open>The handshake\<close>

definition attach_ctl_shm :: "ctl_header \<Rightarrow> ring_orchestrator \<Rightarrow> ring_orchestrator \<times> bool" where
  "attach_ctl_shm hdr ro =
     (if c_magic hdr \<noteq> RTMAP_CTL_MAGIC then (ro, False)
      else if c_proto_version hdr \<noteq> RTMAP_PROTO_VERSION then (ro, False)
      else if c_build_hash hdr \<noteq> rtmap_abi_hash then (ro, False)
      else (ro\<lparr>ro_ctl := Some hdr\<rparr>, True))"

text \<open>
  The three attach entry points differ in the names they try; \<open>by_pid\<close> is the segment
  \<open>/rtmap_ctl_<pid>\<close> and \<open>legacy\<close> the segment \<open>/rtmap_ctl\<close>.
\<close>

definition try_attach_ctl ::
  "ctl_header option \<Rightarrow> ring_orchestrator \<Rightarrow> ring_orchestrator \<times> bool" where
  "try_attach_ctl legacy ro =
     (if ro_ctl ro \<noteq> None then (ro, True)
      else case legacy of Some shm \<Rightarrow> attach_ctl_shm shm ro | None \<Rightarrow> (ro, False))"

definition try_attach_ctl_for_pid ::
  "ctl_header option \<Rightarrow> ctl_header option \<Rightarrow> ring_orchestrator \<Rightarrow> ring_orchestrator \<times> bool" where
  "try_attach_ctl_for_pid by_pid legacy ro =
     (if ro_ctl ro \<noteq> None then (ro, True)
      else case by_pid of Some shm \<Rightarrow> attach_ctl_shm shm ro
           | None \<Rightarrow> (case legacy of Some shm \<Rightarrow> attach_ctl_shm shm ro | None \<Rightarrow> (ro, False)))"

definition try_attach_ctl_pid ::
  "ctl_header option \<Rightarrow> ring_orchestrator \<Rightarrow> ring_orchestrator \<times> bool" where
  "try_attach_ctl_pid by_pid ro =
     (if ro_ctl ro \<noteq> None then (ro, True)
      else case by_pid of Some shm \<Rightarrow> attach_ctl_shm shm ro | None \<Rightarrow> (ro, False))"

definition target_pid :: "ring_orchestrator \<Rightarrow> u32 option" where
  "target_pid ro =
     (case ro_ctl ro of None \<Rightarrow> None
      | Some hdr \<Rightarrow> if c_target_pid hdr = 0 then None else Some (c_target_pid hdr))"

definition parent_pid :: "ring_orchestrator \<Rightarrow> u32 option" where
  "parent_pid ro =
     (case ro_ctl ro of None \<Rightarrow> None
      | Some hdr \<Rightarrow> if c_parent_pid hdr = 0 then None else Some (c_parent_pid hdr))"

definition tripwire_hit :: "ring_orchestrator \<Rightarrow> bool" where
  "tripwire_hit ro = (case ro_ctl ro of None \<Rightarrow> False | Some hdr \<Rightarrow> c_tripwire_hit hdr \<noteq> 0)"

definition peek_ctl_identity :: "ctl_header option \<Rightarrow> (u32 \<times> u32) option" where
  "peek_ctl_identity shm =
     (case shm of None \<Rightarrow> None
      | Some hdr \<Rightarrow>
          if c_magic hdr \<noteq> RTMAP_CTL_MAGIC \<or> c_proto_version hdr \<noteq> RTMAP_PROTO_VERSION
             \<or> c_build_hash hdr \<noteq> rtmap_abi_hash
          then None else Some (c_target_pid hdr, c_parent_pid hdr))"

definition bloom_insert :: "u64 \<Rightarrow> ring_orchestrator \<Rightarrow> ring_orchestrator" where
  "bloom_insert a ro =
     (case ro_ctl ro of None \<Rightarrow> ro
      | Some hdr \<Rightarrow>
          ro\<lparr>ro_ctl := Some (hdr\<lparr>c_priority_bloom := bloom_insert_bits (c_priority_bloom hdr) a\<rparr>)\<rparr>)"


subsection \<open>Discovery\<close>

type_synonym open_shm = "u8 list \<Rightarrow> mapped_shm option"

text \<open>The bytes before the first NUL; all of the field when it holds none.\<close>

definition name_prefix :: "u8 list \<Rightarrow> u8 list" where
  "name_prefix bs = takeWhile (\<lambda>b. b \<noteq> 0) bs"

text \<open>Open and validate the ring an entry names, and append it when it is acceptable.\<close>

definition open_ring :: "open_shm \<Rightarrow> thread_entry \<Rightarrow> thread_ring option" where
  "open_ring op e =
     (case op (name_prefix (te_shm_name e) @ [0]) of None \<Rightarrow> None
      | Some shm \<Rightarrow> from_shm shm (te_thread_id e))"

definition push_opened :: "open_shm \<Rightarrow> thread_entry \<Rightarrow> thread_ring list \<Rightarrow> thread_ring list" where
  "push_opened op e rings = rings @ (case open_ring op e of None \<Rightarrow> [] | Some r \<Rightarrow> [r])"

text \<open>Clear \<open>alive\<close> on the first ring that satisfies the predicate.\<close>

fun kill_first :: "(thread_ring \<Rightarrow> bool) \<Rightarrow> thread_ring list \<Rightarrow> thread_ring list" where
  "kill_first p [] = []"
| "kill_first p (r # rs) = (if p r then r\<lparr>r_alive := False\<rparr> # rs else r # kill_first p rs)"

text \<open>
  The first loop of \<open>poll_new_rings\<close>, over the entries not seen before; it stops at an entry
  that is still initializing.  \<open>None\<close> is the panic of indexing past the 256 entries.
\<close>

function poll_fresh ::
  "open_shm \<Rightarrow> ctl_header \<Rightarrow> nat \<Rightarrow> nat \<Rightarrow> thread_ring list \<Rightarrow> (nat \<times> thread_ring list) option" where
  "poll_fresh op hdr count known rings =
     (if known < count then
        (if known < length (c_threads hdr) then
           (let e = c_threads hdr ! known in
            if te_state e = THREAD_STATE_INITIALIZING then Some (known, rings)
            else if te_state e = THREAD_STATE_EMPTY then poll_fresh op hdr count (known + 1) rings
            else if name_prefix (te_shm_name e) = [] then poll_fresh op hdr count (known + 1) rings
            else
              (let rings1 = push_opened op e rings;
                   rings2 = (if te_state e = THREAD_STATE_DEAD
                             then kill_first (\<lambda>r. r_thread_id r = te_thread_id e) rings1
                             else rings1)
               in poll_fresh op hdr count (known + 1) rings2))
         else None)
      else Some (known, rings))"
  by pat_completeness auto
termination
  by (relation "measure (\<lambda>(op, hdr, count, known, rings). count - known)") auto

declare poll_fresh.simps [simp del]

text \<open>The second loop: entries seen before whose thread died or whose slot was reclaimed.\<close>

definition poll_entry :: "open_shm \<Rightarrow> thread_entry \<Rightarrow> thread_ring list \<Rightarrow> thread_ring list" where
  "poll_entry op e rings =
     (if te_state e = THREAD_STATE_DEAD
      then kill_first (\<lambda>r. r_thread_id r = te_thread_id e \<and> r_alive r) rings
      else if te_state e = THREAD_STATE_ACTIVE then
        (if (\<exists>r \<in> set rings. r_thread_id r = te_thread_id e \<and> r_alive r) then rings
         else if name_prefix (te_shm_name e) \<noteq> [] then push_opened op e rings
         else rings)
      else rings)"

definition poll_new_rings :: "open_shm \<Rightarrow> ring_orchestrator \<Rightarrow> ring_orchestrator option" where
  "poll_new_rings op ro =
     (case ro_ctl ro of None \<Rightarrow> Some ro
      | Some hdr \<Rightarrow>
          (let count = unat (c_thread_count hdr) in
           case poll_fresh op hdr count (ro_known_count ro) (ro_rings ro) of
             None \<Rightarrow> None
           | Some (known, rings) \<Rightarrow>
               if count \<le> length (c_threads hdr)
               then Some (ro\<lparr>ro_known_count := known,
                             ro_rings := fold (poll_entry op) (take count (c_threads hdr)) rings\<rparr>)
               else None))"


subsection \<open>Fill, backpressure, drain\<close>

definition ring_used :: "thread_ring \<Rightarrow> u64" where
  "ring_used r = sat_sub (h_head (header r)) (h_tail (header r))"

definition total_fill :: "ring_orchestrator \<Rightarrow> u64 \<times> u32" where
  "total_fill ro =
     (let used = sum_list (map ring_used (ro_rings ro));
          cap = sum_list (map (\<lambda>r. ucast (h_capacity (header r)) :: u64) (ro_rings ro));
          pct = (if cap > 0 then ucast ((used * 100) div cap) else 0)
      in (used, pct))"

definition ring_count :: "ring_orchestrator \<Rightarrow> nat" where
  "ring_count ro = length (ro_rings ro)"

definition active_count :: "ring_orchestrator \<Rightarrow> nat" where
  "active_count ro = length (filter r_alive (ro_rings ro))"

definition total_lapped :: "ring_orchestrator \<Rightarrow> u64" where
  "total_lapped ro = sum_list (map r_lapped_events (ro_rings ro))"

definition fill_eighths :: "thread_ring \<Rightarrow> u64" where
  "fill_eighths r = push_bit 3 (ring_used r) div ucast (h_capacity (header r))"

definition next_backpressure :: "u64 \<Rightarrow> u32 \<Rightarrow> u32" where
  "next_backpressure eighths bp =
     (if eighths \<ge> 7 then BP_TIER_SHED_WRITES
      else if eighths \<ge> 6 then BP_TIER_SHED_READS
      else if eighths < 3 then 0
      else bp)"

definition update_backpressure_ring :: "thread_ring \<Rightarrow> thread_ring" where
  "update_backpressure_ring r =
     (let bp = h_backpressure (header r); new_bp = next_backpressure (fill_eighths r) bp
      in if new_bp \<noteq> bp then set_backpressure new_bp r else r)"

definition update_backpressure :: "ring_orchestrator \<Rightarrow> ring_orchestrator" where
  "update_backpressure ro = ro\<lparr>ro_rings := map update_backpressure_ring (ro_rings ro)\<rparr>"

text \<open>Drain one ring and retire it when its producer has ended and nothing is left in it.\<close>

definition drain_ring :: "observation \<Rightarrow> nat \<Rightarrow> thread_ring \<Rightarrow> thread_ring \<times> event list" where
  "drain_ring obs limit r =
     (let (r1, out) = consume_batch obs limit r
      in if r_alive r1 \<and> o_status obs = MV_STATUS_TERMINAL \<and> o_head3 obs = h_tail (header r1)
         then (r1\<lparr>r_alive := False\<rparr>, out) else (r1, out))"

fun drain_from ::
  "(nat \<Rightarrow> observation) \<Rightarrow> nat \<Rightarrow> nat list \<Rightarrow> thread_ring list
     \<Rightarrow> thread_ring list \<times> (nat \<times> event) list" where
  "drain_from obs limit [] rings = (rings, [])"
| "drain_from obs limit (i # is) rings =
     (let (r, out) = drain_ring (obs i) limit (rings ! i);
          (rings', buf) = drain_from obs limit is (rings[i := r])
      in (rings', map (Pair i) out @ buf))"

definition drain_order :: "nat \<Rightarrow> nat \<Rightarrow> nat list" where
  "drain_order rr n = map (\<lambda>offset. (rr + offset) mod n) [0 ..< n]"

definition batch_drain ::
  "(nat \<Rightarrow> observation) \<Rightarrow> nat \<Rightarrow> ring_orchestrator \<Rightarrow> ring_orchestrator \<times> (nat \<times> event) list" where
  "batch_drain obs per_ring ro =
     (let n = length (ro_rings ro) in
      if n = 0 then (ro, [])
      else
        (let (rings, buf) =
               drain_from obs (min per_ring BATCH_SIZE) (drain_order (ro_rr_idx ro) n) (ro_rings ro)
         in (ro\<lparr>ro_rings := rings, ro_rr_idx := (ro_rr_idx ro + 1) mod max n 1\<rparr>, buf)))"


subsection \<open>Accepted rings stay inside their mapping\<close>

lemma layout_sizes [simp]: "c_size 32 event_layout = 32" "c_size (Suc 0) ring_header_layout = 192"
  using layout_asserts by simp_all

lemma from_shm_ok: "from_shm shm tid = Some r \<Longrightarrow> ring_ok r \<and> r_thread_id r = tid \<and> r_alive r"
  by (auto simp: from_shm_def ring_ok_def header_def Let_def split: if_splits)

text \<open>
  A ring that attachment accepts can be read at every index a consumer ever
  computes: the slot of any tail and offset, for any values of the 64-bit counters, lies
  inside the mapped segment.
\<close>

theorem accepted_ring_in_bounds:
  assumes "from_shm shm tid = Some r"
  shows "192 + (slot_index (h_capacity (header r)) t n + 1) * 32 \<le> shm_len shm"
proof -
  from from_shm_ok [OF assms] have ok: "ring_ok r" by blast
  have shm: "r_shm r = shm" using assms by (auto simp: from_shm_def Let_def split: if_splits)
  from ok have "slot_index (h_capacity (header r)) t n < unat (h_capacity (header r))"
    by (auto simp: ring_ok_def Let_def intro: slot_index_less)
  with ok shm show ?thesis by (simp add: ring_ok_def Let_def)
qed

theorem accepted_ring_in_bounds_witness:
  "192 + (slot_index 8 (2 ^ 64 - 1) 77 + 1) * 32 \<le> (448 :: nat)"
proof -
  have acc: "from_shm (r_shm sample_ring) 1 = Some sample_ring" by code_simp
  have "shm_len (r_shm sample_ring) = 448" "h_capacity (header sample_ring) = 8" by code_simp+
  with accepted_ring_in_bounds [OF acc, of "2 ^ 64 - 1" 77] show ?thesis by simp
qed

subsection \<open>The orchestrator's invariant\<close>

definition orch_ok :: "ring_orchestrator \<Rightarrow> bool" where
  "orch_ok ro = (list_all ring_ok (ro_rings ro) \<and> ro_rr_idx ro < max 1 (length (ro_rings ro)))"

lemma ring_ok_alive [simp]: "ring_ok (r\<lparr>r_alive := b\<rparr>) = ring_ok r"
  by (simp add: ring_ok_def header_def)

lemma shm_len_set_tail [simp]: "shm_len (r_shm (set_tail t r)) = shm_len (r_shm r)"
  by (simp add: set_tail_def)

lemma shm_record_lap [simp]: "r_shm (record_lap l r) = r_shm r"
  by (simp add: record_lap_def)

lemma ring_ok_set_tail [simp]: "ring_ok (set_tail t r) = ring_ok r"
  by (simp add: ring_ok_def)

lemma ring_ok_record_lap [simp]: "ring_ok (record_lap l r) = ring_ok r"
  by (simp add: ring_ok_def)

lemma ring_ok_set_backpressure [simp]: "ring_ok (set_backpressure b r) = ring_ok r"
  by (simp add: ring_ok_def) (simp add: set_backpressure_def)

lemma ring_ok_consume_batch: "ring_ok r \<Longrightarrow> ring_ok (fst (consume_batch obs n r))"
  by (simp add: consume_batch_def Let_def)

lemma ring_ok_drain_ring: "ring_ok r \<Longrightarrow> ring_ok (fst (drain_ring obs n r))"
  using ring_ok_consume_batch [of r obs n]
  by (cases "consume_batch obs n r") (simp add: drain_ring_def)

lemma kill_first_ok: "list_all ring_ok rs \<Longrightarrow> list_all ring_ok (kill_first p rs)"
  by (induction p rs rule: kill_first.induct) auto

lemma length_kill_first [simp]: "length (kill_first p rs) = length rs"
  by (induction p rs rule: kill_first.induct) auto

lemma open_ring_ok: "open_ring op e = Some r \<Longrightarrow> ring_ok r \<and> r_thread_id r = te_thread_id e \<and> r_alive r"
  by (auto simp: open_ring_def dest: from_shm_ok split: option.splits)

lemma push_opened_ok: "list_all ring_ok rs \<Longrightarrow> list_all ring_ok (push_opened op e rs)"
  by (auto simp: push_opened_def dest: open_ring_ok split: option.splits)

lemma length_push_opened: "length rs \<le> length (push_opened op e rs)"
  by (simp add: push_opened_def)

lemma poll_entry_ok: "list_all ring_ok rs \<Longrightarrow> list_all ring_ok (poll_entry op e rs)"
  by (simp add: poll_entry_def kill_first_ok push_opened_ok)

lemma fold_poll_entry_ok:
  "list_all ring_ok rs \<Longrightarrow> list_all ring_ok (fold (poll_entry op) es rs)"
  by (induction es arbitrary: rs) (simp_all add: poll_entry_ok)

lemma length_poll_entry: "length rs \<le> length (poll_entry op e rs)"
  by (simp add: poll_entry_def length_push_opened)

lemma length_fold_poll_entry: "length rs \<le> length (fold (poll_entry op) es rs)"
proof (induction es arbitrary: rs)
  case (Cons e es)
  have "length rs \<le> length (poll_entry op e rs)" by (rule length_poll_entry)
  also have "\<dots> \<le> length (fold (poll_entry op) (e # es) rs)" using Cons by simp
  finally show ?case .
qed simp

text \<open>One entry of the first loop that is neither initializing nor beyond the table.\<close>

definition poll_fresh_entry :: "open_shm \<Rightarrow> thread_entry \<Rightarrow> thread_ring list \<Rightarrow> thread_ring list" where
  "poll_fresh_entry op e rings =
     (if te_state e = THREAD_STATE_EMPTY \<or> name_prefix (te_shm_name e) = [] then rings
      else if te_state e = THREAD_STATE_DEAD
           then kill_first (\<lambda>r. r_thread_id r = te_thread_id e) (push_opened op e rings)
           else push_opened op e rings)"

lemma poll_fresh_unfold:
  "poll_fresh op hdr count known rings =
     (if known < count then
        (if known < length (c_threads hdr) then
           (if te_state (c_threads hdr ! known) = THREAD_STATE_INITIALIZING then Some (known, rings)
            else poll_fresh op hdr count (known + 1)
                   (poll_fresh_entry op (c_threads hdr ! known) rings))
         else None)
      else Some (known, rings))"
  by (subst poll_fresh.simps) (auto simp: Let_def poll_fresh_entry_def)

lemma poll_fresh_entry_ok: "list_all ring_ok rs \<Longrightarrow> list_all ring_ok (poll_fresh_entry op e rs)"
  by (simp add: poll_fresh_entry_def kill_first_ok push_opened_ok)

lemma length_poll_fresh_entry: "length rs \<le> length (poll_fresh_entry op e rs)"
  by (simp add: poll_fresh_entry_def length_push_opened)

lemma poll_fresh_inv:
  assumes "poll_fresh op hdr count known rings = Some (known', rings')"
  shows "known \<le> known' \<and> (known \<le> count \<longrightarrow> known' \<le> count) \<and> length rings \<le> length rings' \<and>
     (list_all ring_ok rings \<longrightarrow> list_all ring_ok rings')"
  using assms
proof (induction "count - known" arbitrary: known rings)
  case 0
  then show ?case by (subst (asm) poll_fresh_unfold) auto
next
  case (Suc d)
  let ?e = "c_threads hdr ! known"
  show ?case
  proof (cases "known < length (c_threads hdr) \<and> te_state ?e \<noteq> THREAD_STATE_INITIALIZING")
    case False
    with Suc(2) Suc(3) [unfolded poll_fresh_unfold [of op hdr count known rings]]
    show ?thesis by (auto split: if_splits)
  next
    case True
    then have "poll_fresh op hdr count (known + 1) (poll_fresh_entry op ?e rings) = Some (known', rings')"
      using Suc(2) Suc(3) [unfolded poll_fresh_unfold [of op hdr count known rings]]
      by (auto split: if_splits)
    moreover have "d = count - (known + 1)" using Suc(2) by simp
    ultimately have "known + 1 \<le> known' \<and> (known + 1 \<le> count \<longrightarrow> known' \<le> count)
        \<and> length (poll_fresh_entry op ?e rings) \<le> length rings'
        \<and> (list_all ring_ok (poll_fresh_entry op ?e rings) \<longrightarrow> list_all ring_ok rings')"
      using Suc(1) by blast
    with length_poll_fresh_entry [of rings op ?e] poll_fresh_entry_ok [of rings op ?e] Suc(2)
    show ?thesis by auto
  qed
qed


lemma poll_fresh_total:
  "count \<le> length (c_threads hdr) \<Longrightarrow> poll_fresh op hdr count known rings \<noteq> None"
proof (induction "count - known" arbitrary: known rings)
  case 0
  then show ?case by (subst poll_fresh_unfold) simp
next
  case (Suc d)
  then have "d = count - (known + 1)" by simp
  with Suc show ?case by (subst poll_fresh_unfold) auto
qed

lemma drain_from_frame:
  "list_all ring_ok rings \<Longrightarrow> \<forall>i \<in> set is. i < length rings \<Longrightarrow>
     list_all ring_ok (fst (drain_from obs n is rings)) \<and>
     length (fst (drain_from obs n is rings)) = length rings"
proof (induction "is" arbitrary: rings)
  case (Cons i "is")
  define r where "r = fst (drain_ring (obs i) n (rings ! i))"
  have "ring_ok (rings ! i)" using Cons.prems by (simp add: list_all_length)
  then have "ring_ok r" by (simp add: r_def ring_ok_drain_ring)
  then have "list_all ring_ok (rings[i := r])" using Cons.prems(1)
    by (auto simp: list_all_iff dest!: set_update_subset_insert [THEN subsetD])
  with Cons.IH [of "rings[i := r]"] Cons.prems(2) show ?case
    by (simp add: r_def case_prod_beta Let_def)
qed simp

lemma drain_order_bound: "i \<in> set (drain_order rr n) \<Longrightarrow> i < n"
  by (auto simp: drain_order_def)

lemma mod_max_less: "(k :: nat) mod max m (Suc 0) < max (Suc 0) m"
  by (simp add: max.commute [of m])

lemma batch_drain_ok: "orch_ok ro \<Longrightarrow> orch_ok (fst (batch_drain obs n ro))"
  using drain_from_frame [of "ro_rings ro" "drain_order (ro_rr_idx ro) (length (ro_rings ro))" obs
      "min n BATCH_SIZE"] drain_order_bound
  by (auto simp: orch_ok_def batch_drain_def Let_def case_prod_beta mod_max_less)

lemma update_backpressure_ok: "orch_ok ro \<Longrightarrow> orch_ok (update_backpressure ro)"
  by (auto simp: orch_ok_def update_backpressure_def update_backpressure_ring_def Let_def list_all_iff)

lemma poll_new_rings_ok:
  assumes "orch_ok ro" "poll_new_rings op ro = Some ro'"
  shows "orch_ok ro' \<and> ro_known_count ro \<le> ro_known_count ro' \<and> ring_count ro \<le> ring_count ro'"
proof (cases "ro_ctl ro")
  case None
  with assms show ?thesis by (simp add: poll_new_rings_def)
next
  case (Some hdr)
  let ?es = "take (unat (c_thread_count hdr)) (c_threads hdr)"
  from Some assms(2) obtain known rings where
    pf: "poll_fresh op hdr (unat (c_thread_count hdr)) (ro_known_count ro) (ro_rings ro) = Some (known, rings)"
    and ro': "ro' = ro\<lparr>ro_known_count := known, ro_rings := fold (poll_entry op) ?es rings\<rparr>"
    by (auto simp: poll_new_rings_def Let_def split: option.splits if_splits)
  from poll_fresh_inv [OF pf] have "ro_known_count ro \<le> known" "length (ro_rings ro) \<le> length rings"
    "list_all ring_ok rings" using assms(1) by (auto simp: orch_ok_def)
  with length_fold_poll_entry [of rings op ?es] assms(1) show ?thesis
    by (auto simp: orch_ok_def ro' ring_count_def fold_poll_entry_ok)
qed

lemma poll_new_rings_panics:
  "poll_new_rings op ro = None \<longleftrightarrow>
     (\<exists>hdr. ro_ctl ro = Some hdr \<and> length (c_threads hdr) < unat (c_thread_count hdr))"
proof (cases "ro_ctl ro")
  case (Some hdr)
  then show ?thesis
    using poll_fresh_total [of "unat (c_thread_count hdr)" hdr op "ro_known_count ro" "ro_rings ro"]
    by (cases "unat (c_thread_count hdr) \<le> length (c_threads hdr)")
      (auto simp: poll_new_rings_def Let_def split: option.split)
qed (simp add: poll_new_rings_def)

text \<open>
  C6 (invariant).  Polling, draining and the backpressure update keep the orchestrator's
  invariant (every ring is one that passed validation, the round-robin index is in range);
  polling never forgets a ring and never moves its cursor back, and it panics exactly when the
  control segment announces more threads than its table has entries, which nothing in
  \<^verbatim>\<open>poll_new_rings\<close> guards against.
\<close>

theorem orchestrator_invariant:
  assumes "orch_ok ro"
  shows "orch_ok (update_backpressure ro) \<and> orch_ok (fst (batch_drain obs n ro))
    \<and> (\<forall>ro'. poll_new_rings op ro = Some ro' \<longrightarrow>
           orch_ok ro' \<and> ro_known_count ro \<le> ro_known_count ro' \<and> ring_count ro \<le> ring_count ro')
    \<and> (poll_new_rings op ro = None \<longleftrightarrow>
           (\<exists>hdr. ro_ctl ro = Some hdr \<and> length (c_threads hdr) < unat (c_thread_count hdr)))"
  using assms poll_new_rings_panics [of op ro]
  by (auto intro: batch_drain_ok update_backpressure_ok dest: poll_new_rings_ok)

text \<open>A control segment announcing one active thread whose ring is \<open>sample_ring\<close>.\<close>

definition sample_entry :: thread_entry where
  "sample_entry = \<lparr>te_state = THREAD_STATE_ACTIVE, te_thread_id = 1,
                   te_shm_name = [0x2F, 0x72, 0x31] @ replicate 45 0\<rparr>"

definition sample_ctl :: ctl_header where
  "sample_ctl = \<lparr>c_magic = RTMAP_CTL_MAGIC, c_proto_version = 3, c_thread_count = 1,
     c_build_hash = rtmap_abi_hash, c_target_pid = 4242, c_parent_pid = 0, c_tripwire_hit = 0,
     c_priority_bloom = replicate 512 0,
     c_threads = [sample_entry]\<rparr>"

definition sample_open :: open_shm where
  "sample_open name = (if name = [0x2F, 0x72, 0x31, 0] then Some (r_shm sample_ring) else None)"

definition sample_orch :: ring_orchestrator where
  "sample_orch = ro_new\<lparr>ro_ctl := Some sample_ctl\<rparr>"

text \<open>
  The window in which the tracer has raised the thread count past its table and not yet taken it
  back: a poll in that window panics.
\<close>

definition overfull_ctl :: ctl_header where
  "overfull_ctl = sample_ctl\<lparr>c_thread_count := 257, c_threads := replicate 256 sample_entry\<rparr>"

theorem orchestrator_invariant_witness:
  "poll_new_rings sample_open (ro_new\<lparr>ro_ctl := Some overfull_ctl\<rparr>) = None \<and>
   (\<exists>ro'. poll_new_rings sample_open sample_orch = Some ro' \<and> orch_ok ro' \<and> ring_count ro' = 1)"
proof
  have "orch_ok (ro_new\<lparr>ro_ctl := Some overfull_ctl\<rparr>)"
    by (simp add: orch_ok_def ro_new_def)
  from orchestrator_invariant [OF this, of "\<lambda>_. quiet_obs sample_ring" 1 sample_open]
  show "poll_new_rings sample_open (ro_new\<lparr>ro_ctl := Some overfull_ctl\<rparr>) = None"
    by (simp add: overfull_ctl_def)
  have ok: "orch_ok sample_orch" by code_simp
  have "map_option ring_count (poll_new_rings sample_open sample_orch) = Some 1" by code_simp
  then show "\<exists>ro'. poll_new_rings sample_open sample_orch = Some ro' \<and> orch_ok ro' \<and> ring_count ro' = 1"
    using orchestrator_invariant [OF ok, of "\<lambda>_. quiet_obs sample_ring" 1 sample_open] by auto
qed


subsection \<open>Backpressure\<close>

text \<open>
  The tier a ring is given depends on its fill in eighths of its capacity,
  with hysteresis: from 7/8 inline writes are shed, from 6/8 reads are, below 3/8 the ring is
  released, and in between the tier stays what it was.  Nothing else of the ring changes.
\<close>

theorem backpressure_tiers:
  assumes "ring_ok r" "h_tail (header r) \<le> h_head (header r)"
    and used: "used = unat (h_head (header r)) - unat (h_tail (header r))" "used < 2 ^ 61"
    and cap: "cap = unat (h_capacity (header r))"
  shows "header (update_backpressure_ring r) =
     (header r)\<lparr>h_backpressure :=
        if 7 * cap \<le> 8 * used then BP_TIER_SHED_WRITES
        else if 6 * cap \<le> 8 * used then BP_TIER_SHED_READS
        else if 8 * used < 3 * cap then 0
        else h_backpressure (header r)\<rparr>"
proof -
  have pos: "0 < cap" and uc: "unat (ucast (h_capacity (header r)) :: u64) = cap"
    using assms(1) by (simp_all add: ring_ok_def Let_def cap ucast_power_of_two power_of_two_pos)
  have ru: "unat (ring_used r) = used" by (simp add: ring_used_def unat_sat_sub used)
  have "push_bit 3 (ring_used r) = ring_used r * 8" unfolding push_bit_eq_mult by simp
  moreover have "unat (ring_used r * 8) = 8 * used"
    using used(2) by (simp add: unat_word_ariths ru)
  ultimately have "unat (push_bit 3 (ring_used r)) = 8 * used" by metis
  then have fe: "unat (fill_eighths r) = 8 * used div cap"
    by (simp add: fill_eighths_def unat_div uc)
  have le: "of_nat k \<le> fill_eighths r \<longleftrightarrow> k * cap \<le> 8 * used" if "k < 8" for k
  proof -
    have "unat (of_nat k :: u64) = k" using that by (simp add: unat_of_nat take_bit_eq_mod)
    then show ?thesis using pos by (simp add: word_le_nat_alt fe less_eq_div_iff_mult_less_eq)
  qed
  show ?thesis
    using le [of 7] le [of 6] le [of 3]
    unfolding update_backpressure_ring_def next_backpressure_def Let_def linorder_not_le [symmetric]
    by auto
qed

theorem backpressure_tiers_witness:
  "h_backpressure (header (update_backpressure_ring sample_ring)) = BP_TIER_SHED_WRITES"
proof -
  have hyps: "ring_ok sample_ring" "h_tail (header sample_ring) \<le> h_head (header sample_ring)"
    "8 = unat (h_head (header sample_ring)) - unat (h_tail (header sample_ring))"
    "8 = unat (h_capacity (header sample_ring))"
    by code_simp+
  show ?thesis by (subst backpressure_tiers [OF hyps(1-3) _ hyps(4)]) simp_all
qed

subsection \<open>Draining\<close>

lemma rotate_add_mod: "n \<noteq> 0 \<Longrightarrow> bij_betw (\<lambda>k. (rr + k) mod n) {0 ..< n} {0 ..< (n :: nat)}"
proof (rule bij_betwI')
  fix x y assume "n \<noteq> 0" and xy: "x \<in> {0 ..< n}" "y \<in> {0 ..< n}"
  show "(rr + x) mod n = (rr + y) mod n \<longleftrightarrow> x = y"
  proof
    assume eq: "(rr + x) mod n = (rr + y) mod n"
    show "x = y"
    proof (rule ccontr)
      assume "x \<noteq> y"
      then consider "x < y" | "y < x" by linarith
      then show False
        using mod_eq_gap [of "rr + x" n "rr + y"] mod_eq_gap [of "rr + y" n "rr + x"] eq xy
        by cases auto
    qed
  qed simp
next
  fix y assume n: "n \<noteq> 0" and y: "y \<in> {0 ..< n}"
  let ?x = "(y + (n - rr mod n)) mod n"
  have "(rr + ?x) mod n = (rr mod n + (y + (n - rr mod n))) mod n" by (simp add: mod_simps)
  also have "rr mod n + (y + (n - rr mod n)) = y + n" using mod_less_divisor [of n rr] n by linarith
  finally have "(rr + ?x) mod n = y" using y by simp
  moreover have "?x \<in> {0 ..< n}" using n by simp
  ultimately show "\<exists>x \<in> {0 ..< n}. y = (rr + x) mod n" by force
qed simp

lemma drain_order_perm:
  assumes "n \<noteq> 0"
  shows "distinct (drain_order rr n) \<and> set (drain_order rr n) = {0 ..< n}"
  using rotate_add_mod [OF assms, of rr]
  by (auto simp: drain_order_def distinct_map bij_betw_def)

lemma drain_from_exact:
  "distinct is \<Longrightarrow> \<forall>i \<in> set is. i < length rings \<Longrightarrow>
     drain_from obs n is rings =
       (map (\<lambda>j. if j \<in> set is then fst (drain_ring (obs j) n (rings ! j)) else rings ! j) [0 ..< length rings],
        concat (map (\<lambda>i. map (Pair i) (snd (drain_ring (obs i) n (rings ! i)))) is))"
proof (induction "is" arbitrary: rings)
  case (Cons i "is")
  let ?r = "fst (drain_ring (obs i) n (rings ! i))"
  have ne: "rings[i := ?r] ! k = rings ! k" if "k \<in> set is" for k
    using that Cons.prems(1) by (cases "k = i") auto
  have "drain_from obs n is (rings[i := ?r]) =
    (map (\<lambda>j. if j \<in> set is then fst (drain_ring (obs j) n (rings[i := ?r] ! j)) else rings[i := ?r] ! j) [0 ..< length rings],
     concat (map (\<lambda>k. map (Pair k) (snd (drain_ring (obs k) n (rings ! k)))) is))"
    using Cons.IH [of "rings[i := ?r]"] Cons.prems ne by (auto intro!: arg_cong [where f = concat])
  moreover have "map (\<lambda>j. if j \<in> set is then fst (drain_ring (obs j) n (rings[i := ?r] ! j)) else rings[i := ?r] ! j) [0 ..< length rings]
    = map (\<lambda>j. if j \<in> set (i # is) then fst (drain_ring (obs j) n (rings ! j)) else rings ! j) [0 ..< length rings]"
    using Cons.prems by (auto simp: nth_list_update)
  ultimately show ?case by (simp add: case_prod_beta Let_def)
qed (simp add: map_nth)

lemma drain_ring_alive:
  "r_alive (fst (drain_ring obs n r)) \<longleftrightarrow> r_alive r \<and>
     \<not> (o_status obs = MV_STATUS_TERMINAL \<and> o_head3 obs = h_tail (header (fst (drain_ring obs n r))))"
proof -
  have "r_alive (fst (consume_batch obs n r)) = r_alive r"
    by (simp add: consume_batch_def Let_def record_lap_def set_tail_def)
  then show ?thesis by (auto simp: drain_ring_def case_prod_beta header_def)
qed

lemma drain_ring_retires:
  assumes "r_alive r" "\<not> r_alive (fst (drain_ring obs n r))"
  shows "o_status obs = MV_STATUS_TERMINAL \<and> o_head3 obs = h_tail (header (fst (drain_ring obs n r)))"
  using assms drain_ring_alive [of obs n r] by blast

lemma batch_drain_eq:
  "batch_drain obs per_ring ro =
     (ro\<lparr>ro_rings := map (\<lambda>i. fst (drain_ring (obs i) (min per_ring BATCH_SIZE) (ro_rings ro ! i))) [0 ..< ring_count ro],
         ro_rr_idx := if ring_count ro = 0 then ro_rr_idx ro else (ro_rr_idx ro + 1) mod ring_count ro\<rparr>,
      concat (map (\<lambda>i. map (Pair i) (snd (drain_ring (obs i) (min per_ring BATCH_SIZE) (ro_rings ro ! i))))
        (drain_order (ro_rr_idx ro) (ring_count ro))))"
proof (cases "ring_count ro = 0")
  case False
  then have n: "length (ro_rings ro) \<noteq> 0" "max (length (ro_rings ro)) 1 = length (ro_rings ro)"
    by (cases "ro_rings ro"; simp add: ring_count_def)+
  note perm = drain_order_perm [OF n(1), of "ro_rr_idx ro"]
  have d: "drain_from obs (min per_ring BATCH_SIZE) (drain_order (ro_rr_idx ro) (length (ro_rings ro))) (ro_rings ro) =
      (map (\<lambda>i. fst (drain_ring (obs i) (min per_ring BATCH_SIZE) (ro_rings ro ! i))) [0 ..< length (ro_rings ro)],
       concat (map (\<lambda>i. map (Pair i) (snd (drain_ring (obs i) (min per_ring BATCH_SIZE) (ro_rings ro ! i))))
         (drain_order (ro_rr_idx ro) (length (ro_rings ro)))))"
    by (subst drain_from_exact) (use perm in auto)
  show ?thesis unfolding batch_drain_def Let_def d split_conv using n by (simp add: ring_count_def)
qed (simp add: batch_drain_def ring_count_def drain_order_def)



end
