(* ===== verification/Dwarf_Types.thy ===== *)
theory Dwarf_Types
  imports Orchestrator "HOL-Library.Signed_Division"
begin

text \<open>
  The debug-information data of \<^verbatim>\<open>engine/src/dwarf.rs\<close> as the rest of the engine uses it: types
  with their fields, variables, functions, location lists, call-frame information.  An \<open>i64\<close> is a
  64-bit word whose \<open>sint\<close> is its value.  The two types \<open>TypeInfo\<close> and \<open>FieldInfo\<close> are mutually
  recursive, as in the source.
\<close>

type_synonym i64 = "64 word"

datatype type_info = Type_Info
    (ti_name: string) (ti_byte_size: u64) (ti_is_pointer: bool) (ti_is_volatile: bool)
    (ti_is_atomic: bool) (ti_shallow: bool) (ti_fields: "field_info list")
  and field_info = Field_Info
    (fi_name: string) (fi_byte_offset: u64) (fi_byte_size: u64) (fi_type_info: type_info)
    (fi_alignment: u64)

definition ti_unknown :: type_info where
  "ti_unknown = Type_Info ''<unknown>'' 0 False False False False []"

text \<open>The operators of a DWARF expression, decoded.\<close>

datatype expr_step =
    Lit u64 | SignedLit i64 | Reg u16 | BReg u16 i64 | FrameBase i64 | Addr u64 | StepCFA
  | Deref u8 | Plus | Minus | Mul | Div | Mod | Neg | Abs | And | Or | Xor | Shl | Shr | Shra
  | Not | Drop | Pick u8 | Swap | Rot | PlusConst u64 | StackValue | Piece u64

datatype dwarf_expr_op =
    DerefRegOffset u16 i64 u8
  | RegPlusReg u16 i64 u16 i64
  | StackMachine "expr_step list"

datatype location_piece =
    Address u64 | FrameBaseOffset i64 | Register u16 | RegisterOffset u16 i64
  | ImplicitValue u64 | CFA | Expr dwarf_expr_op

record range =
  rg_begin :: u64
  rg_end :: u64

type_synonym location_table = "(range \<times> location_piece) list"

definition lt_single :: "location_piece \<Rightarrow> location_table" where
  "lt_single p = [(\<lparr>rg_begin = 0, rg_end = - 1\<rparr>, p)]"

definition lt_lookup :: "location_table \<Rightarrow> u64 \<Rightarrow> location_piece option" where
  "lt_lookup t pc =
     map_option snd (find (\<lambda>(r, _). rg_begin r \<le> pc \<and> pc < rg_end r) t)"

record global_var =
  gv_name :: string
  gv_addr :: u64
  gv_size :: u64
  gv_type_info :: type_info
  gv_location :: location_table

record local_var =
  lv_frame_offset :: i64
  lv_name :: string
  lv_size :: u64
  lv_type_info :: type_info
  lv_location :: location_table

record function_meta =
  fm_name :: string
  fm_low_pc :: u64
  fm_high_pc :: u64
  fm_frame_base_is_cfa :: bool
  fm_locals :: "local_var list"

record cfi_entry =
  ce_start_pc :: u64
  ce_end_pc :: u64
  ce_saved_regs :: "nat list"

definition saved_regs_at :: "cfi_entry list \<Rightarrow> u64 \<Rightarrow> nat list option" where
  "saved_regs_at es pc =
     map_option ce_saved_regs (find (\<lambda>e. ce_start_pc e \<le> pc \<and> pc < ce_end_pc e) es)"

lemma lt_lookup_single: "pc < - 1 \<Longrightarrow> lt_lookup (lt_single p) pc = Some p"
  by (simp add: lt_lookup_def lt_single_def)

lemma lt_lookup_append:
  "lt_lookup (s @ t) pc = (case lt_lookup s pc of Some p \<Rightarrow> Some p | None \<Rightarrow> lt_lookup t pc)"
  by (induction s) (auto simp: lt_lookup_def split: option.splits)

lemma lt_lookup_mem:
  "lt_lookup t pc = Some p \<Longrightarrow> \<exists>r. (r, p) \<in> set t \<and> rg_begin r \<le> pc \<and> pc < rg_end r"
  by (induction t) (auto simp: lt_lookup_def split: if_splits)

end
