(* ===== verification/Dwarf_Expr.thy ===== *)
theory Dwarf_Expr
  imports Dwarf_Types
begin

text \<open>
  Location resolution of \<^verbatim>\<open>engine/src/dwarf.rs\<close>: DWARF register numbering, the location forms and
  the stack machine \<open>eval_stack_machine\<close>.  The register file is a list of 18 words.  A panic of
  the source is the outcome \<open>Panic\<close>, an early \<open>return None\<close> the outcome \<open>Value None\<close>.  The stack
  is a list with its top first (the source pushes at the end of a \<open>Vec\<close>).

  The specification is a small expression language with a denotation; \<open>compile\<close> is the postfix
  code a DWARF producer emits for it.
\<close>

datatype 'a outcome = Value 'a | Panic

definition DWARF_TO_REGFILE :: "nat option list" where
  "DWARF_TO_REGFILE =
     [Some 0, Some 3, Some 2, Some 1, Some 4, Some 5, Some 6, Some 7, Some 8, Some 9, Some 10,
      Some 11, Some 12, Some 13, Some 14, Some 15, Some 16]"

definition dwarf_reg_to_index :: "u16 \<Rightarrow> nat option" where
  "dwarf_reg_to_index r =
     (if unat r < length DWARF_TO_REGFILE then DWARF_TO_REGFILE ! unat r else None)"

definition compute_cfa :: "u64 list \<Rightarrow> u64" where
  "compute_cfa regs = regs ! 7 + 8"

definition reg_plus :: "u64 list \<Rightarrow> u16 \<Rightarrow> i64 \<Rightarrow> u64 option" where
  "reg_plus regs r off = map_option (\<lambda>i. regs ! i + off) (dwarf_reg_to_index r)"

definition frame_base_plus :: "u64 list \<Rightarrow> u64 \<Rightarrow> bool \<Rightarrow> i64 \<Rightarrow> u64" where
  "frame_base_plus regs frame_base cfa off =
     (if cfa then compute_cfa regs else frame_base) + off"

text \<open>
  Signed operations.  Division of \<open>i64::MIN\<close> by \<open>-1\<close> panics in every build profile.  Shift counts
  are truncated to \<open>u32\<close> and taken modulo 64.
\<close>

definition i64_min :: i64 where "i64_min = push_bit 63 1"

definition i64_div :: "u64 \<Rightarrow> u64 \<Rightarrow> u64 option outcome" where
  "i64_div a b =
     (if b = 0 then Value None
      else if a = i64_min \<and> b = - 1 then Panic
      else Value (Some (word_of_int (sint a sdiv sint b))))"

definition unsigned_abs :: "i64 \<Rightarrow> u64" where
  "unsigned_abs v = (if sint v < 0 then - v else v)"

definition shift_count :: "u64 \<Rightarrow> nat" where
  "shift_count b = unat (ucast b :: u32) mod 64"

text \<open>
  What one step of the loop does: go on with a stack and the flag, break out of the loop with
  them, or leave the function.
\<close>

datatype step_exit = Go "u64 list" bool | Break "u64 list" bool | Ret "u64 option outcome"

definition on_top1 :: "(u64 \<Rightarrow> u64) \<Rightarrow> u64 list \<Rightarrow> bool \<Rightarrow> step_exit" where
  "on_top1 f st isv = (case st of v # st' \<Rightarrow> Go (f v # st') isv | [] \<Rightarrow> Ret (Value None))"

definition on_top2 :: "(u64 \<Rightarrow> u64 \<Rightarrow> u64) \<Rightarrow> u64 list \<Rightarrow> bool \<Rightarrow> step_exit" where
  "on_top2 f st isv =
     (case st of b # a # st' \<Rightarrow> Go (f a b # st') isv | _ \<Rightarrow> Ret (Value None))"

definition push_opt :: "u64 option \<Rightarrow> u64 list \<Rightarrow> bool \<Rightarrow> step_exit" where
  "push_opt v st isv = (case v of Some x \<Rightarrow> Go (x # st) isv | None \<Rightarrow> Ret (Value None))"

fun exec_step :: "u64 list \<Rightarrow> u64 \<Rightarrow> bool \<Rightarrow> expr_step \<Rightarrow> u64 list \<Rightarrow> bool \<Rightarrow> step_exit" where
  "exec_step regs fb cfa (Lit v) st isv = Go (v # st) isv"
| "exec_step regs fb cfa (SignedLit v) st isv = Go (v # st) isv"
| "exec_step regs fb cfa (Reg r) st isv =
     push_opt (map_option (\<lambda>i. regs ! i) (dwarf_reg_to_index r)) st isv"
| "exec_step regs fb cfa (BReg r off) st isv = push_opt (reg_plus regs r off) st isv"
| "exec_step regs fb cfa (FrameBase off) st isv = Go (frame_base_plus regs fb cfa off # st) isv"
| "exec_step regs fb cfa (Addr a) st isv = Go (a # st) isv"
| "exec_step regs fb cfa StepCFA st isv = Go (compute_cfa regs # st) isv"
| "exec_step regs fb cfa (Deref _) st isv = Ret (Value None)"
| "exec_step regs fb cfa Plus st isv = on_top2 (+) st isv"
| "exec_step regs fb cfa Minus st isv = on_top2 (-) st isv"
| "exec_step regs fb cfa Mul st isv = on_top2 (*) st isv"
| "exec_step regs fb cfa Div st isv =
     (case st of b # a # st' \<Rightarrow>
        (case i64_div a b of Value (Some q) \<Rightarrow> Go (q # st') isv | x \<Rightarrow> Ret x)
      | _ \<Rightarrow> Ret (Value None))"
| "exec_step regs fb cfa Mod st isv =
     (case st of b # a # st' \<Rightarrow>
        (if b = 0 then Ret (Value None) else Go (a mod b # st') isv)
      | _ \<Rightarrow> Ret (Value None))"
| "exec_step regs fb cfa Neg st isv = on_top1 (\<lambda>v. 0 - v) st isv"
| "exec_step regs fb cfa Abs st isv = on_top1 unsigned_abs st isv"
| "exec_step regs fb cfa And st isv = on_top2 (AND) st isv"
| "exec_step regs fb cfa Or st isv = on_top2 (OR) st isv"
| "exec_step regs fb cfa Xor st isv = on_top2 (XOR) st isv"
| "exec_step regs fb cfa Shl st isv = on_top2 (\<lambda>a b. push_bit (shift_count b) a) st isv"
| "exec_step regs fb cfa Shr st isv = on_top2 (\<lambda>a b. drop_bit (shift_count b) a) st isv"
| "exec_step regs fb cfa Shra st isv = on_top2 (\<lambda>a b. signed_drop_bit (shift_count b) a) st isv"
| "exec_step regs fb cfa Not st isv = on_top1 not st isv"
| "exec_step regs fb cfa Drop st isv = (case st of _ # st' \<Rightarrow> Go st' isv | [] \<Rightarrow> Ret (Value None))"
| "exec_step regs fb cfa (Pick i) st isv =
     (if length st \<le> unat i then Ret (Value None) else Go (st ! unat i # st) isv)"
| "exec_step regs fb cfa Swap st isv =
     (case st of b # a # st' \<Rightarrow> Go (a # b # st') isv | _ \<Rightarrow> Ret (Value None))"
| "exec_step regs fb cfa Rot st isv =
     (case st of c # b # a # st' \<Rightarrow> Go (b # a # c # st') isv | _ \<Rightarrow> Ret (Value None))"
| "exec_step regs fb cfa (PlusConst c) st isv = on_top1 (\<lambda>v. v + c) st isv"
| "exec_step regs fb cfa StackValue st isv = Go st True"
| "exec_step regs fb cfa (Piece _) st isv = Break st isv"

fun run_steps :: "u64 list \<Rightarrow> u64 \<Rightarrow> bool \<Rightarrow> expr_step list \<Rightarrow> u64 list \<Rightarrow> bool \<Rightarrow> step_exit" where
  "run_steps regs fb cfa [] st isv = Go st isv"
| "run_steps regs fb cfa (s # ss) st isv =
     (case exec_step regs fb cfa s st isv of
        Go st' isv' \<Rightarrow> run_steps regs fb cfa ss st' isv'
      | x \<Rightarrow> x)"

definition after_loop :: "u64 list \<Rightarrow> bool \<Rightarrow> u64 option" where
  "after_loop st isv = (if isv then None else case st of [] \<Rightarrow> None | v # _ \<Rightarrow> Some v)"

definition eval_stack_machine ::
  "expr_step list \<Rightarrow> u64 list \<Rightarrow> u64 \<Rightarrow> bool \<Rightarrow> u64 option outcome" where
  "eval_stack_machine steps regs frame_base cfa =
     (case run_steps regs frame_base cfa steps [] False of
        Ret x \<Rightarrow> x
      | Go st isv \<Rightarrow> Value (after_loop st isv)
      | Break st isv \<Rightarrow> Value (after_loop st isv))"

fun resolve_expr :: "dwarf_expr_op \<Rightarrow> u64 list \<Rightarrow> u64 \<Rightarrow> bool \<Rightarrow> u64 option outcome" where
  "resolve_expr (DerefRegOffset r off _) regs fb cfa = Value (reg_plus regs r off)"
| "resolve_expr (RegPlusReg r1 off1 r2 off2) regs fb cfa =
     Value (case reg_plus regs r1 off1 of None \<Rightarrow> None
            | Some v1 \<Rightarrow> (case reg_plus regs r2 off2 of None \<Rightarrow> None | Some v2 \<Rightarrow> Some (v1 + v2)))"
| "resolve_expr (StackMachine steps) regs fb cfa = eval_stack_machine steps regs fb cfa"

fun resolve_location :: "location_piece \<Rightarrow> u64 list \<Rightarrow> u64 \<Rightarrow> bool \<Rightarrow> u64 option outcome" where
  "resolve_location (Address a) regs fb cfa = Value (Some a)"
| "resolve_location (FrameBaseOffset off) regs fb cfa = Value (Some (frame_base_plus regs fb cfa off))"
| "resolve_location (Register r) regs fb cfa =
     Value (map_option (\<lambda>i. regs ! i) (dwarf_reg_to_index r))"
| "resolve_location (RegisterOffset r off) regs fb cfa = Value (reg_plus regs r off)"
| "resolve_location (ImplicitValue _) regs fb cfa = Value None"
| "resolve_location CFA regs fb cfa = Value (Some (compute_cfa regs))"
| "resolve_location (Expr e) regs fb cfa = resolve_expr e regs fb cfa"


subsection \<open>Register numbering\<close>

lemma dwarf_reg_to_index_bound: "dwarf_reg_to_index r = Some i \<Longrightarrow> i \<le> 16"
  by (auto simp: dwarf_reg_to_index_def DWARF_TO_REGFILE_def nth_Cons split: if_splits nat.splits)

lemma dwarf_reg_to_index_None: "dwarf_reg_to_index r = None \<longleftrightarrow> 17 \<le> unat r"
  by (auto simp: dwarf_reg_to_index_def DWARF_TO_REGFILE_def nth_Cons split: if_splits nat.splits)

lemma dwarf_reg_to_index_inj:
  assumes "dwarf_reg_to_index r = Some i" "dwarf_reg_to_index s = Some i"
  shows "r = s"
proof -
  have "distinct DWARF_TO_REGFILE" by (simp add: DWARF_TO_REGFILE_def)
  then have "unat r = unat s"
    using assms nth_eq_iff_index_eq [of DWARF_TO_REGFILE "unat r" "unat s"]
    by (auto simp: dwarf_reg_to_index_def split: if_splits)
  then show ?thesis by (simp add: word_unat_eq_iff)
qed


subsection \<open>The stack machine implements expressions\<close>

datatype unop = U_Neg | U_Abs | U_Not | U_PlusConst u64
datatype binop =
    B_Plus | B_Minus | B_Mul | B_Div | B_Mod | B_And | B_Or | B_Xor | B_Shl | B_Shr | B_Shra

datatype dexpr =
    E_Lit u64 | E_Reg u16 | E_BReg u16 i64 | E_FrameBase i64 | E_CFA
  | E_Un unop dexpr | E_Bin binop dexpr dexpr

fun den_un :: "unop \<Rightarrow> u64 \<Rightarrow> u64" where
  "den_un U_Neg v = - v"
| "den_un U_Abs v = word_of_int \<bar>sint v\<bar>"
| "den_un U_Not v = not v"
| "den_un (U_PlusConst c) v = v + c"

text \<open>Integer readings: \<open>uint\<close> for the unsigned operators, \<open>sint\<close> for the signed ones.\<close>

fun den_bin :: "binop \<Rightarrow> u64 \<Rightarrow> u64 \<Rightarrow> u64 option outcome" where
  "den_bin B_Plus a b = Value (Some (word_of_int (uint a + uint b)))"
| "den_bin B_Minus a b = Value (Some (word_of_int (uint a - uint b)))"
| "den_bin B_Mul a b = Value (Some (word_of_int (uint a * uint b)))"
| "den_bin B_Div a b =
     (if sint b = 0 then Value None
      else if sint a sdiv sint b = 2 ^ 63 then Panic
      else Value (Some (word_of_int (sint a sdiv sint b))))"
| "den_bin B_Mod a b =
     Value (if uint b = 0 then None else Some (word_of_int (uint a mod uint b)))"
| "den_bin B_And a b = Value (Some (a AND b))"
| "den_bin B_Or a b = Value (Some (a OR b))"
| "den_bin B_Xor a b = Value (Some (a XOR b))"
| "den_bin B_Shl a b = Value (Some (word_of_int (uint a * 2 ^ (unat b mod 64))))"
| "den_bin B_Shr a b = Value (Some (word_of_int (uint a div 2 ^ (unat b mod 64))))"
| "den_bin B_Shra a b = Value (Some (word_of_int (sint a div 2 ^ (unat b mod 64))))"

fun den :: "u64 list \<Rightarrow> u64 \<Rightarrow> bool \<Rightarrow> dexpr \<Rightarrow> u64 option outcome" where
  "den regs fb cfa (E_Lit v) = Value (Some v)"
| "den regs fb cfa (E_Reg r) = Value (map_option (\<lambda>i. regs ! i) (dwarf_reg_to_index r))"
| "den regs fb cfa (E_BReg r off) = Value (reg_plus regs r off)"
| "den regs fb cfa (E_FrameBase off) = Value (Some (frame_base_plus regs fb cfa off))"
| "den regs fb cfa E_CFA = Value (Some (compute_cfa regs))"
| "den regs fb cfa (E_Un u e) =
     (case den regs fb cfa e of Value (Some v) \<Rightarrow> Value (Some (den_un u v)) | x \<Rightarrow> x)"
| "den regs fb cfa (E_Bin b e f) =
     (case den regs fb cfa e of
        Value (Some v) \<Rightarrow>
          (case den regs fb cfa f of Value (Some w) \<Rightarrow> den_bin b v w | x \<Rightarrow> x)
      | x \<Rightarrow> x)"

fun code_un :: "unop \<Rightarrow> expr_step" where
  "code_un U_Neg = Neg" | "code_un U_Abs = Abs" | "code_un U_Not = Not"
| "code_un (U_PlusConst c) = PlusConst c"

fun code_bin :: "binop \<Rightarrow> expr_step" where
  "code_bin B_Plus = Plus" | "code_bin B_Minus = Minus" | "code_bin B_Mul = Mul"
| "code_bin B_Div = Div" | "code_bin B_Mod = Mod" | "code_bin B_And = And"
| "code_bin B_Or = Or" | "code_bin B_Xor = Xor" | "code_bin B_Shl = Shl"
| "code_bin B_Shr = Shr" | "code_bin B_Shra = Shra"

fun compile :: "dexpr \<Rightarrow> expr_step list" where
  "compile (E_Lit v) = [Lit v]"
| "compile (E_Reg r) = [Reg r]"
| "compile (E_BReg r off) = [BReg r off]"
| "compile (E_FrameBase off) = [FrameBase off]"
| "compile E_CFA = [StepCFA]"
| "compile (E_Un u e) = compile e @ [code_un u]"
| "compile (E_Bin b e f) = compile e @ compile f @ [code_bin b]"

lemma unsigned_abs_eq: "unsigned_abs v = word_of_int \<bar>sint v\<bar>"
  by (simp add: unsigned_abs_def)

lemma shift_count_eq: "shift_count b = unat b mod 64"
proof -
  have "unat (ucast b :: u32) = unat b mod 2 ^ 32"
    by (simp add: unsigned_ucast_eq take_bit_eq_mod)
  moreover have "(64::nat) dvd 2 ^ 32" by simp
  ultimately show ?thesis by (simp only: shift_count_def mod_mod_cancel)
qed

lemma sint_i64_min: "sint i64_min = - (2 ^ 63)"
  by (simp add: i64_min_def)

lemma i64_div_overflow:
  fixes a b :: u64
  shows "sint a sdiv sint b = 2 ^ 63 \<longleftrightarrow> a = i64_min \<and> b = - 1"
proof
  assume "a = i64_min \<and> b = - 1"
  then show "sint a sdiv sint b = 2 ^ 63" by (simp add: sint_i64_min signed_divide_int_def)
next
  assume eq: "sint a sdiv sint b = 2 ^ 63"
  have ra: "- (2 ^ 63) \<le> sint a" "sint a < 2 ^ 63"
    using sint_ge [of a] sint_lt [of a] by simp_all
  have b0: "sint b \<noteq> 0" using eq by auto
  have "sgn (sint a) * sgn (sint b) * (\<bar>sint a\<bar> div \<bar>sint b\<bar>) = 2 ^ 63"
    using eq by (simp add: signed_divide_int_def sgn_mult algebra_simps)
  moreover have le: "\<bar>sint a\<bar> div \<bar>sint b\<bar> \<le> \<bar>sint a\<bar>"
    using zdiv_mono2 [of "\<bar>sint a\<bar>" 1 "\<bar>sint b\<bar>"] b0 by simp
  moreover have nn: "0 \<le> \<bar>sint a\<bar> div \<bar>sint b\<bar>"
    by (simp add: pos_imp_zdiv_nonneg_iff b0)
  ultimately have q: "\<bar>sint a\<bar> div \<bar>sint b\<bar> = 2 ^ 63" and s: "sgn (sint a) * sgn (sint b) = 1"
    by (auto simp: sgn_if split: if_splits)
  have a: "sint a = - (2 ^ 63)" using q le ra by linarith
  have "\<bar>sint b\<bar> = 1"
  proof (rule ccontr)
    assume "\<bar>sint b\<bar> \<noteq> 1"
    with b0 have "2 \<le> \<bar>sint b\<bar>" by linarith
    then have "\<bar>sint a\<bar> div \<bar>sint b\<bar> \<le> \<bar>sint a\<bar> div 2"
      by (intro zdiv_mono2) auto
    then show False using q a by simp
  qed
  with s a have "sint b = - 1" by (auto simp: sgn_if split: if_splits)
  with a show "a = i64_min \<and> b = - 1"
    by (metis sint_i64_min signed_word_eqI sint_n1)
qed

lemma i64_div_eq: "i64_div a b = den_bin B_Div a b"
proof (cases "b = 0")
  case False
  then show ?thesis using i64_div_overflow [of a b]
    by (auto simp: i64_div_def signed_eq_0_iff)
qed (simp add: i64_div_def)


lemma exec_un: "exec_step regs fb cfa (code_un u) (v # st) isv = Go (den_un u v # st) isv"
  by (cases u) (simp_all add: on_top1_def unsigned_abs_eq)

lemma push_bit_den: "push_bit n (a :: u64) = word_of_int (uint a * 2 ^ n)"
  by (simp add: push_bit_eq_mult)

lemma drop_bit_den: "drop_bit n (a :: u64) = word_of_int (uint a div 2 ^ n)"
proof -
  have "uint (drop_bit n a) = uint a div 2 ^ n"
    unfolding unsigned_drop_bit_eq using uint_lt2p [of a]
    by (simp add: drop_bit_eq_div take_bit_int_eq_self)
  then show ?thesis using word_of_int_uint [of "drop_bit n a"] by simp
qed

lemma signed_drop_bit_den: "signed_drop_bit n (a :: u64) = word_of_int (sint a div 2 ^ n)"
proof -
  have "sint (signed_drop_bit n a) = sint a div 2 ^ n"
    by (simp add: sint_signed_drop_bit_eq drop_bit_eq_div)
  moreover have "word_of_int (sint (signed_drop_bit n a)) = signed_drop_bit n a" by simp
  ultimately show ?thesis by argo
qed

lemma mod_den: "(a :: u64) mod b = word_of_int (uint a mod uint b)"
  by (simp add: word_mod_def)

lemma exec_bin:
  "exec_step regs fb cfa (code_bin p) (b # a # st) isv =
     (case den_bin p a b of Value (Some v) \<Rightarrow> Go (v # st) isv | x \<Rightarrow> Ret x)"
proof (cases "p = B_Div")
  case True
  then show ?thesis
    by (simp add: i64_div_eq del: den_bin.simps split: option.split outcome.split)
next
  case False
  then show ?thesis
    by (cases p)
      (simp_all only: code_bin.simps exec_step.simps den_bin.simps on_top2_def list.case
        shift_count_eq push_bit_den drop_bit_den signed_drop_bit_den mod_den outcome.case option.case
        word_add_def word_sub_wi word_mult_def unsigned_eq_0_iff if_distrib if_False if_True
        split: if_splits, auto)
qed

lemma run_compile:
  "run_steps regs fb cfa (compile e @ rest) st isv =
     (case den regs fb cfa e of
        Value (Some v) \<Rightarrow> run_steps regs fb cfa rest (v # st) isv
      | x \<Rightarrow> Ret x)"
proof (induction e arbitrary: rest st)
  case (E_Un u e)
  then show ?case
    by (simp add: exec_un split: outcome.split option.split)
next
  case (E_Bin b e f)
  then show ?case
    by (simp add: exec_bin del: den_bin.simps split: outcome.split option.split)
qed (simp_all add: push_opt_def split: option.split)

lemma div_panics_only:
  "exec_step regs fb cfa s st isv = Ret Panic \<Longrightarrow>
     s = Div \<and> (\<exists>st'. st = - 1 # i64_min # st')"
  by (cases s)
    (auto simp: push_opt_def on_top1_def on_top2_def i64_div_def
      split: option.splits list.splits if_splits outcome.splits)

lemma run_steps_panic: "run_steps regs fb cfa ss st isv = Ret Panic \<Longrightarrow> Div \<in> set ss"
  by (induction ss arbitrary: st isv) (auto dest: div_panics_only split: step_exit.splits)

lemma resolve_panic_div:
  assumes "resolve_location p regs fb cfa = Panic"
  shows "\<exists>steps. p = Expr (StackMachine steps) \<and> Div \<in> set steps"
proof -
  from assms obtain steps where p: "p = Expr (StackMachine steps)"
    and ev: "eval_stack_machine steps regs fb cfa = Panic"
    by (cases "(p, regs, fb, cfa)" rule: resolve_location.cases;
        cases "(case p of Expr e \<Rightarrow> e | _ \<Rightarrow> StackMachine [], regs, fb, cfa)" rule: resolve_expr.cases)
      auto
  from ev have "run_steps regs fb cfa steps [] False = Ret Panic"
    by (auto simp: eval_stack_machine_def split: step_exit.splits)
  with p show ?thesis
    by (auto dest: run_steps_panic)
qed

text \<open>
  C7 (refinement).  For every expression built from literals, registers, the frame base, the CFA
  and the unary and binary operators, running its postfix code on the stack machine returns
  exactly the expression's value: in the integers, reduced to 64 bits; no value when a register is
  unknown or a divisor is zero; and a panic exactly where the signed quotient does not fit.
\<close>

theorem eval_compile:
  "eval_stack_machine (compile e) regs fb cfa = den regs fb cfa e"
  using run_compile [of regs fb cfa e "[]" "[]" False]
  by (auto simp: eval_stack_machine_def after_loop_def split: outcome.splits option.splits)

text \<open>
  Two register files that agree on the 17 entries a register number can select are not told
  apart by a location, in whatever form it is given.
\<close>

definition same_regs :: "u64 list \<Rightarrow> u64 list \<Rightarrow> bool" where
  "same_regs regs regs' = (\<forall>i < 17. regs' ! i = regs ! i)"

lemma same_regs_index:
  "same_regs regs regs' \<Longrightarrow>
     map_option (\<lambda>i. regs' ! i) (dwarf_reg_to_index r) = map_option (\<lambda>i. regs ! i) (dwarf_reg_to_index r)"
  using dwarf_reg_to_index_bound [of r] by (cases "dwarf_reg_to_index r") (auto simp: same_regs_def)

lemma same_regs_plus: "same_regs regs regs' \<Longrightarrow> reg_plus regs' r off = reg_plus regs r off"
  using dwarf_reg_to_index_bound [of r]
  by (cases "dwarf_reg_to_index r") (auto simp: same_regs_def reg_plus_def)

lemma same_regs_cfa: "same_regs regs regs' \<Longrightarrow> compute_cfa regs' = compute_cfa regs"
  by (simp add: same_regs_def compute_cfa_def)

lemma same_regs_frame_base:
  "same_regs regs regs' \<Longrightarrow> frame_base_plus regs' fb cfa off = frame_base_plus regs fb cfa off"
  by (simp add: frame_base_plus_def same_regs_cfa)

lemmas same_regs_reads = same_regs_index same_regs_plus same_regs_cfa same_regs_frame_base

lemma same_regs_step:
  "same_regs regs regs' \<Longrightarrow> exec_step regs' fb cfa s st isv = exec_step regs fb cfa s st isv"
  by (cases s) (simp_all add: same_regs_reads)

lemma same_regs_run:
  "same_regs regs regs' \<Longrightarrow> run_steps regs' fb cfa ss st isv = run_steps regs fb cfa ss st isv"
  by (induction ss arbitrary: st isv) (simp_all add: same_regs_step split: step_exit.split)

lemma same_regs_expr:
  "same_regs regs regs' \<Longrightarrow> resolve_expr e regs' fb cfa = resolve_expr e regs fb cfa"
  by (cases e) (simp_all add: same_regs_reads eval_stack_machine_def same_regs_run cong: option.case_cong)

lemma same_regs_resolve:
  "same_regs regs regs' \<Longrightarrow> resolve_location p regs' fb cfa = resolve_location p regs fb cfa"
  by (cases p) (simp_all add: same_regs_reads same_regs_expr)

text \<open>
  C8 (safety).  Resolving a location from the traced register file panics only if its expression
  is a stack-machine program containing a signed division.  No location reads the file outside
  its first 17 entries, of 18: a dereference, a sum of two registers and a stack-machine program
  like the plain forms give the same result on any two files that agree there.  A frame-base
  offset is taken from \<open>rsp + 8\<close> or from the given frame base; a register number below 17 reads the
  same entry as a value and with an offset; a number of 17 or more has no address.
\<close>

theorem resolve_location_safe:
  "(resolve_location p regs fb cfa = Panic \<longrightarrow>
      (\<exists>steps. p = Expr (StackMachine steps) \<and> Div \<in> set steps)) \<and>
   (\<forall>regs'. (\<forall>i < 17. regs' ! i = regs ! i) \<longrightarrow>
      resolve_location p regs' fb cfa = resolve_location p regs fb cfa) \<and>
   (\<forall>off. resolve_location (FrameBaseOffset off) regs fb cfa =
      Value (Some ((if cfa then regs ! 7 + 8 else fb) + off))) \<and>
   (\<forall>r off. unat r < 17 \<longrightarrow>
      (\<exists>i < 17. resolve_location (RegisterOffset r off) regs fb cfa = Value (Some (regs ! i + off))
            \<and> resolve_location (Register r) regs fb cfa = Value (Some (regs ! i)))) \<and>
   (\<forall>r off. 17 \<le> unat r \<longrightarrow>
      resolve_location (RegisterOffset r off) regs fb cfa = Value None)"
proof (intro conjI allI impI)
  assume "resolve_location p regs fb cfa = Panic"
  then show "\<exists>steps. p = Expr (StackMachine steps) \<and> Div \<in> set steps" by (rule resolve_panic_div)
next
  fix regs' :: "u64 list"
  assume "\<forall>i < 17. regs' ! i = regs ! i"
  then show "resolve_location p regs' fb cfa = resolve_location p regs fb cfa"
    by (intro same_regs_resolve) (simp add: same_regs_def)
next
  fix r :: u16 and off
  assume "unat r < 17"
  then obtain i where "dwarf_reg_to_index r = Some i"
    using dwarf_reg_to_index_None [of r] by (cases "dwarf_reg_to_index r") auto
  then show "\<exists>i < 17. resolve_location (RegisterOffset r off) regs fb cfa = Value (Some (regs ! i + off))
            \<and> resolve_location (Register r) regs fb cfa = Value (Some (regs ! i))"
    using dwarf_reg_to_index_bound [of r i] by (auto simp: reg_plus_def intro!: exI [of _ i])
qed (auto simp: frame_base_plus_def compute_cfa_def reg_plus_def dwarf_reg_to_index_None)

theorem resolve_location_safe_witness:
  "resolve_location (Expr (StackMachine [Lit i64_min, SignedLit (- 1), Div])) (replicate 18 0) 0 False
     = Panic \<and>
   (\<exists>steps. Expr (StackMachine [Lit i64_min, SignedLit (- 1), Div]) = Expr (StackMachine steps)
      \<and> Div \<in> set steps) \<and>
   resolve_location (Expr (RegPlusReg 3 1 16 2)) (replicate 17 0 @ [9]) 0 False =
     resolve_location (Expr (RegPlusReg 3 1 16 2)) (replicate 18 0) 0 False"
proof -
  have p: "resolve_location (Expr (StackMachine [Lit i64_min, SignedLit (- 1), Div]))
      (replicate 18 0) 0 False = Panic"
    by code_simp
  have "\<forall>i < 17. (replicate 17 (0 :: u64) @ [9]) ! i = replicate 18 0 ! i"
    by (simp add: nth_append)
  with p resolve_location_safe [of "Expr (StackMachine [Lit i64_min, SignedLit (- 1), Div])"
      "replicate 18 0" 0 False] resolve_location_safe [of "Expr (RegPlusReg 3 1 16 2)" "replicate 18 0" 0 False]
  show ?thesis by blast
qed

text \<open>The panic is reachable: an expression the decoder produces can divide \<open>i64::MIN\<close> by \<open>-1\<close>.\<close>

lemma stack_machine_div_overflow:
  "eval_stack_machine [Lit i64_min, SignedLit (- 1), Div] (replicate 18 0) 0 False = Panic"
  by code_simp

end
