(* ===== verification/Shadow_Regs.thy ===== *)
theory Shadow_Regs
  imports Dwarf_Expr
begin

text \<open>
  \<^verbatim>\<open>engine/src/shadow_regs.rs\<close>: the shadow register file with the provenance and confidence of each
  register, its call stack, the coherence check against foreign writes, and the assembler of
  variables split into \<open>DW_OP_piece\<close> fragments.  The register file is a list of 18 registers.
\<close>

definition REG_COUNT :: nat where "REG_COUNT = 18"
definition CALLEE_SAVED :: "nat list" where "CALLEE_SAVED = [1, 6, 12, 13, 14, 15]"
definition CALLER_SAVED :: "nat list" where "CALLER_SAVED = [0, 2, 3, 4, 5, 8, 9, 10, 11]"
definition ARG_REGS :: "nat list" where "ARG_REGS = [5, 4, 3, 2, 8, 9]"

definition DWARF_TO_IDX :: "nat option list" where
  "DWARF_TO_IDX =
     [Some 0, Some 3, Some 2, Some 1, Some 4, Some 5, Some 6, Some 7, Some 8, Some 9, Some 10,
      Some 11, Some 12, Some 13, Some 14, Some 15, Some 16]"

definition dwarf_reg_to_idx :: "u16 \<Rightarrow> nat option" where
  "dwarf_reg_to_idx r = (if unat r < length DWARF_TO_IDX then DWARF_TO_IDX ! unat r else None)"

datatype confidence =
  Unknown | Stale | Speculative | WriteBack | AbiInferred | CfiVerified | Observed

fun conf_rank :: "confidence \<Rightarrow> nat" where
  "conf_rank Unknown = 0"
| "conf_rank Stale = 1"
| "conf_rank Speculative = 2"
| "conf_rank WriteBack = 3"
| "conf_rank AbiInferred = 4"
| "conf_rank CfiVerified = 5"
| "conf_rank Observed = 6"

lemma conf_rank_inj: "conf_rank a = conf_rank b \<longleftrightarrow> a = b"
  by (cases a; cases b) simp_all

instantiation confidence :: linorder
begin

definition less_eq_confidence :: "confidence \<Rightarrow> confidence \<Rightarrow> bool" where
  "a \<le> b \<longleftrightarrow> conf_rank a \<le> conf_rank b"

definition less_confidence :: "confidence \<Rightarrow> confidence \<Rightarrow> bool" where
  "a < b \<longleftrightarrow> conf_rank a < conf_rank b"

instance
  by standard (auto simp: less_eq_confidence_def less_confidence_def conf_rank_inj)

end

lemmas conf_ord = less_eq_confidence_def less_confidence_def

fun bar_tenths :: "confidence \<Rightarrow> nat" where
  "bar_tenths Unknown = 0"
| "bar_tenths Stale = 2"
| "bar_tenths Speculative = 5"
| "bar_tenths WriteBack = 7"
| "bar_tenths AbiInferred = 8"
| "bar_tenths CfiVerified = 9"
| "bar_tenths Observed = 10"

datatype provenance =
    P_Observed u64
  | P_CalleeSaved u64
  | P_AbiArg u64 u8
  | P_WriteBack u64 u64
  | P_Reload u64 u64
  | P_Copy nat u64
  | P_ReturnValue u64 u64
  | P_Unknown

record shadow_reg =
  sr_value :: u64
  sr_provenance :: provenance
  sr_confidence :: confidence
  sr_last_seq :: u64
  sr_last_pc :: u64
  sr_mem_source :: "u64 option"
  sr_mem_source_size :: u32

definition reg_unknown :: shadow_reg where
  "reg_unknown =
     \<lparr>sr_value = 0, sr_provenance = P_Unknown, sr_confidence = Unknown, sr_last_seq = 0,
      sr_last_pc = 0, sr_mem_source = None, sr_mem_source_size = 0\<rparr>"

definition reg_set ::
  "u64 \<Rightarrow> provenance \<Rightarrow> confidence \<Rightarrow> u64 \<Rightarrow> u64 \<Rightarrow> shadow_reg \<Rightarrow> shadow_reg" where
  "reg_set v prov conf s pc r =
     r\<lparr>sr_value := v, sr_provenance := prov, sr_confidence := conf, sr_last_seq := s,
       sr_last_pc := pc, sr_mem_source := None, sr_mem_source_size := 0\<rparr>"

record shadow_frame =
  sf_callee_pc :: u64
  sf_saved_regs :: "shadow_reg list"
  sf_entry_seq :: u64

record shadow_register_file =
  rf_regs :: "shadow_reg list"
  rf_call_stack :: "shadow_frame list"

text \<open>The call stack has its innermost frame first (the source pushes at the end of a \<open>Vec\<close>).\<close>

definition rf_new :: shadow_register_file where
  "rf_new = \<lparr>rf_regs = replicate REG_COUNT reg_unknown, rf_call_stack = []\<rparr>"

abbreviation upd_reg :: "nat \<Rightarrow> (shadow_reg \<Rightarrow> shadow_reg) \<Rightarrow> shadow_reg list \<Rightarrow> shadow_reg list" where
  "upd_reg i f rs \<equiv> rs[i := f (rs ! i)]"

definition rf_values :: "shadow_register_file \<Rightarrow> u64 list" where
  "rf_values rf = map sr_value (rf_regs rf)"

definition rf_apply_snapshot ::
  "u64 list \<Rightarrow> u64 \<Rightarrow> u64 \<Rightarrow> shadow_register_file \<Rightarrow> shadow_register_file" where
  "rf_apply_snapshot vals s pc rf =
     rf\<lparr>rf_regs := fold (\<lambda>i. upd_reg i (reg_set (vals ! i) (P_Observed s) Observed s pc))
        [0..<REG_COUNT] (rf_regs rf)\<rparr>"

fun write_back_local ::
  "u64 \<Rightarrow> u64 \<Rightarrow> u64 \<Rightarrow> local_var \<Rightarrow> shadow_reg list \<Rightarrow> shadow_reg list" where
  "write_back_local v pc s l rs =
     (case lt_lookup (lv_location l) pc of
        Some (Register r) \<Rightarrow>
          (case dwarf_reg_to_idx r of
             Some i \<Rightarrow> upd_reg i (reg_set v (P_WriteBack s pc) WriteBack s pc) rs
           | None \<Rightarrow> rs)
      | _ \<Rightarrow> rs)"

definition observe_write ::
  "u64 \<Rightarrow> u64 \<Rightarrow> u64 \<Rightarrow> function_meta option \<Rightarrow> shadow_register_file \<Rightarrow> shadow_register_file" where
  "observe_write v pc s func rf =
     (case func of None \<Rightarrow> rf
      | Some f \<Rightarrow> rf\<lparr>rf_regs := fold (write_back_local v pc s) (fm_locals f) (rf_regs rf)\<rparr>)"

definition rf_callee_pc :: "shadow_register_file \<Rightarrow> u64 option" where
  "rf_callee_pc rf = (case rf_call_stack rf of [] \<Rightarrow> None | f # _ \<Rightarrow> Some (sf_callee_pc f))"

definition arg_index :: "nat \<Rightarrow> u8" where
  "arg_index i =
     (case find (\<lambda>k. ARG_REGS ! k = i) [0..<length ARG_REGS] of Some k \<Rightarrow> of_nat k | None \<Rightarrow> 255)"

definition call_callee_saved :: "u64 \<Rightarrow> u64 \<Rightarrow> nat \<Rightarrow> shadow_reg list \<Rightarrow> shadow_reg list" where
  "call_callee_saved callee_pc s i rs =
     (if Speculative \<le> sr_confidence (rs ! i)
      then upd_reg i (\<lambda>r. reg_set (sr_value r) (P_CalleeSaved s) AbiInferred s callee_pc r) rs
      else rs)"

definition call_caller_saved :: "u64 \<Rightarrow> u64 \<Rightarrow> nat \<Rightarrow> shadow_reg list \<Rightarrow> shadow_reg list" where
  "call_caller_saved callee_pc s i rs =
     upd_reg i (\<lambda>r. reg_set (sr_value r) (P_AbiArg callee_pc (arg_index i)) Speculative s callee_pc r) rs"

definition rf_on_call ::
  "u64 \<Rightarrow> u64 \<Rightarrow> u64 \<Rightarrow> shadow_register_file \<Rightarrow> shadow_register_file" where
  "rf_on_call callee_pc rsp s rf =
     (let frame = \<lparr>sf_callee_pc = callee_pc, sf_saved_regs = rf_regs rf, sf_entry_seq = s\<rparr>;
          r1 = upd_reg 7 (reg_set rsp (P_Observed s) Observed s callee_pc) (rf_regs rf);
          r2 = fold (call_callee_saved callee_pc s) CALLEE_SAVED r1;
          r3 = fold (call_caller_saved callee_pc s) CALLER_SAVED r2
      in \<lparr>rf_regs = r3, rf_call_stack = frame # rf_call_stack rf\<rparr>)"

definition rf_on_return :: "u64 \<Rightarrow> u64 \<Rightarrow> shadow_register_file \<Rightarrow> shadow_register_file" where
  "rf_on_return s pc rf =
     (case rf_call_stack rf of [] \<Rightarrow> rf
      | frame # rest \<Rightarrow>
          (let r1 = fold (\<lambda>i rs. rs[i := sf_saved_regs frame ! i]) CALLEE_SAVED (rf_regs rf);
               r2 = upd_reg 0 (\<lambda>r. reg_set (sr_value r) (P_ReturnValue (sf_callee_pc frame) s)
                                   Speculative s pc r) r1;
               r3 = fold (\<lambda>i rs. if i = 0 then rs else rs[i := sf_saved_regs frame ! i]) CALLER_SAVED r2
           in \<lparr>rf_regs = r3, rf_call_stack = rest\<rparr>))"

definition cfi_upgrade :: "nat \<Rightarrow> shadow_reg list \<Rightarrow> shadow_reg list" where
  "cfi_upgrade i rs =
     (if i < REG_COUNT \<and> i \<in> set CALLEE_SAVED \<and> Speculative \<le> sr_confidence (rs ! i)
         \<and> sr_confidence (rs ! i) < Observed
      then upd_reg i (\<lambda>r. r\<lparr>sr_confidence := CfiVerified\<rparr>) rs else rs)"

definition rf_on_return_cfi ::
  "u64 \<Rightarrow> u64 \<Rightarrow> nat list \<Rightarrow> shadow_register_file \<Rightarrow> shadow_register_file" where
  "rf_on_return_cfi s pc cfi_saved rf =
     (let rf1 = rf_on_return s pc rf in rf1\<lparr>rf_regs := fold cfi_upgrade cfi_saved (rf_regs rf1)\<rparr>)"

definition rf_on_reload ::
  "nat \<Rightarrow> u64 \<Rightarrow> u64 \<Rightarrow> u32 \<Rightarrow> u64 \<Rightarrow> u64 \<Rightarrow> shadow_register_file \<Rightarrow> shadow_register_file" where
  "rf_on_reload i v from sz s pc rf =
     (if REG_COUNT \<le> i then rf
      else rf\<lparr>rf_regs := upd_reg i (\<lambda>r. (reg_set v (P_Reload from s) Observed s pc r)
                 \<lparr>sr_mem_source := Some from, sr_mem_source_size := sz\<rparr>) (rf_regs rf)\<rparr>)"

text \<open>The coherence check of one register, and of the file.\<close>

definition cohere_reg :: "u64 \<Rightarrow> u64 \<Rightarrow> u32 \<Rightarrow> shadow_reg \<Rightarrow> shadow_reg" where
  "cohere_reg a v sz r =
     (case sr_mem_source r of None \<Rightarrow> r
      | Some src \<Rightarrow>
          (let w_end = sat_add a (ucast (max sz 1));
               s_end = sat_add src (ucast (max (sr_mem_source_size r) 1))
           in if a < s_end \<and> src < w_end
              then
                (let changed = (if 8 < sz then True else sr_value r \<noteq> v)
                 in if changed \<and> Stale < sr_confidence r then r\<lparr>sr_confidence := Stale\<rparr> else r)
              else r))"

definition check_coherence ::
  "u64 \<Rightarrow> u64 \<Rightarrow> u32 \<Rightarrow> shadow_register_file \<Rightarrow> shadow_register_file" where
  "check_coherence a v sz rf = rf\<lparr>rf_regs := map (cohere_reg a v sz) (rf_regs rf)\<rparr>"


subsection \<open>Fragments\<close>

datatype piece_source =
    PS_Register u16 | PS_RegisterOffset u16 i64 | PS_Memory u64 | PS_FrameBaseOffset i64
  | PS_Implicit u64 | PS_Unknown

record piece_fragment =
  pf_var_offset :: u64
  pf_byte_size :: u64
  pf_source :: piece_source

fun pending_after :: "expr_step \<Rightarrow> piece_source option \<Rightarrow> piece_source option" where
  "pending_after (Reg r) _ = Some (PS_Register r)"
| "pending_after (BReg r off) _ = Some (PS_RegisterOffset r off)"
| "pending_after (Addr a) _ = Some (PS_Memory a)"
| "pending_after (FrameBase off) _ = Some (PS_FrameBaseOffset off)"
| "pending_after StackValue _ = Some (PS_Implicit 0)"
| "pending_after (Lit v) _ = Some (PS_Implicit v)"
| "pending_after (SignedLit v) _ = Some (PS_Implicit v)"
| "pending_after _ p = (case p of None \<Rightarrow> Some PS_Unknown | Some _ \<Rightarrow> p)"

definition piece_size :: "expr_step \<Rightarrow> u64 option" where
  "piece_size s = (case s of Piece n \<Rightarrow> Some n | _ \<Rightarrow> None)"

fun parse_loop ::
  "expr_step list \<Rightarrow> u64 \<Rightarrow> piece_source option \<Rightarrow> piece_fragment list
     \<Rightarrow> piece_fragment list \<times> piece_source option" where
  "parse_loop [] off pending frags = (frags, pending)"
| "parse_loop (s # ss) off pending frags =
     (case piece_size s of
        Some n \<Rightarrow>
          parse_loop ss (off + n) None
            (frags @ [\<lparr>pf_var_offset = off, pf_byte_size = n,
                       pf_source = (case pending of Some p \<Rightarrow> p | None \<Rightarrow> PS_Unknown)\<rparr>])
      | None \<Rightarrow> parse_loop ss off (pending_after s pending) frags)"

definition parse_pieces :: "expr_step list \<Rightarrow> piece_fragment list" where
  "parse_pieces steps =
     (case parse_loop steps 0 None [] of
        (frags, pending) \<Rightarrow>
          (if frags = [] then
             (case pending of
                Some p \<Rightarrow> [\<lparr>pf_var_offset = 0, pf_byte_size = 0, pf_source = p\<rparr>]
              | None \<Rightarrow> [])
           else frags))"

record assembled_value =
  av_bytes :: "u8 list"
  av_confidence :: "confidence list"
  av_min_confidence :: confidence
  av_resolved_count :: nat
  av_total_count :: nat

text \<open>Reading the target's memory is a parameter: the bytes at an address, if mapped.\<close>

type_synonym read_mem = "u64 \<Rightarrow> u64 \<Rightarrow> u8 list option"

definition mem_or_zero :: "read_mem \<Rightarrow> u64 \<Rightarrow> nat \<Rightarrow> confidence \<Rightarrow> u8 list \<times> confidence" where
  "mem_or_zero rd a sz c =
     (case rd a (of_nat sz) of Some bs \<Rightarrow> (bs, c) | None \<Rightarrow> (replicate sz 0, Unknown))"

fun fragment_bytes ::
  "read_mem \<Rightarrow> shadow_reg list \<Rightarrow> u64 \<Rightarrow> nat \<Rightarrow> piece_source \<Rightarrow> u8 list \<times> confidence" where
  "fragment_bytes rd regs fb sz (PS_Register r) =
     (case dwarf_reg_to_idx r of
        Some i \<Rightarrow> (take (min sz 8) (to_le_bytes 8 (sr_value (regs ! i))), sr_confidence (regs ! i))
      | None \<Rightarrow> (replicate sz 0, Unknown))"
| "fragment_bytes rd regs fb sz (PS_RegisterOffset r off) =
     (case dwarf_reg_to_idx r of
        Some i \<Rightarrow> mem_or_zero rd (sr_value (regs ! i) + off) sz (sr_confidence (regs ! i))
      | None \<Rightarrow> (replicate sz 0, Unknown))"
| "fragment_bytes rd regs fb sz (PS_Memory a) = mem_or_zero rd a sz Observed"
| "fragment_bytes rd regs fb sz (PS_FrameBaseOffset off) = mem_or_zero rd (fb + off) sz Observed"
| "fragment_bytes rd regs fb sz (PS_Implicit v) = (take (min sz 8) (to_le_bytes 8 v), Observed)"
| "fragment_bytes rd regs fb sz PS_Unknown = (replicate sz 0, Unknown)"

text \<open>
  \<open>bytes[off..off + n].copy_from_slice(..)\<close>: overwrite \<open>xs\<close> from position \<open>off\<close> with \<open>ys\<close>;
  the slice panics when it does not lie inside \<open>xs\<close>.
\<close>

definition overwrite :: "nat \<Rightarrow> 'a list \<Rightarrow> 'a list \<Rightarrow> 'a list" where
  "overwrite off ys xs = take off xs @ ys @ drop (off + length ys) xs"

definition place_fragment ::
  "read_mem \<Rightarrow> shadow_reg list \<Rightarrow> u64 \<Rightarrow> nat \<Rightarrow> piece_fragment \<Rightarrow> assembled_value
     \<Rightarrow> assembled_value outcome" where
  "place_fragment rd regs fb tot f av =
     (let off = unat (pf_var_offset f); sz = unat (pf_byte_size f) in
      if tot < (off + sz) mod 2 ^ 64 then Value av
      else
        (case fragment_bytes rd regs fb sz (pf_source f) of
           (bs, c) \<Rightarrow>
             (let n = min (length bs) sz in
              if tot < off + n then Panic
              else Value (av\<lparr>av_bytes := overwrite off (take n bs) (av_bytes av),
                 av_confidence := overwrite off (replicate n c) (av_confidence av),
                 av_resolved_count := av_resolved_count av + (if Unknown < c then 1 else 0),
                 av_min_confidence := (if c < av_min_confidence av then c else av_min_confidence av)\<rparr>))))"

fun place_all ::
  "read_mem \<Rightarrow> shadow_reg list \<Rightarrow> u64 \<Rightarrow> nat \<Rightarrow> piece_fragment list \<Rightarrow> assembled_value
     \<Rightarrow> assembled_value outcome" where
  "place_all rd regs fb tot [] av = Value av"
| "place_all rd regs fb tot (f # fs) av =
     (case place_fragment rd regs fb tot f av of
        Value av' \<Rightarrow> place_all rd regs fb tot fs av' | Panic \<Rightarrow> Panic)"

definition resolve_pieces ::
  "piece_fragment list \<Rightarrow> u64 \<Rightarrow> shadow_register_file \<Rightarrow> u64 \<Rightarrow> read_mem \<Rightarrow> assembled_value outcome" where
  "resolve_pieces frags total_byte_size srf fb rd =
     place_all rd (rf_regs srf) fb (unat total_byte_size) frags
        \<lparr>av_bytes = replicate (unat total_byte_size) 0,
         av_confidence = replicate (unat total_byte_size) Unknown,
         av_min_confidence = Observed, av_resolved_count = 0, av_total_count = length frags\<rparr>"


subsection \<open>The two register tables\<close>

lemma dwarf_reg_to_idx_eq: "dwarf_reg_to_idx = dwarf_reg_to_index"
  by (simp add: fun_eq_iff dwarf_reg_to_idx_def dwarf_reg_to_index_def DWARF_TO_IDX_def
      DWARF_TO_REGFILE_def)


subsection \<open>Calls and returns\<close>

definition rf_wf :: "shadow_register_file \<Rightarrow> bool" where
  "rf_wf rf \<longleftrightarrow> length (rf_regs rf) = REG_COUNT \<and>
     list_all (\<lambda>f. length (sf_saved_regs f) = REG_COUNT) (rf_call_stack rf)"

datatype rf_op =
    O_snapshot "u64 list" u64 u64
  | O_write u64 u64 u64 "function_meta option"
  | O_reload nat u64 u64 u32 u64 u64
  | O_coherence u64 u64 u32
  | O_call u64 u64 u64
  | O_return u64 u64
  | O_return_cfi u64 u64 "nat list"

fun rf_apply :: "rf_op \<Rightarrow> shadow_register_file \<Rightarrow> shadow_register_file" where
  "rf_apply (O_snapshot vs s pc) = rf_apply_snapshot vs s pc"
| "rf_apply (O_write v pc s f) = observe_write v pc s f"
| "rf_apply (O_reload i v from sz s pc) = rf_on_reload i v from sz s pc"
| "rf_apply (O_coherence a v sz) = check_coherence a v sz"
| "rf_apply (O_call callee rsp s) = rf_on_call callee rsp s"
| "rf_apply (O_return s pc) = rf_on_return s pc"
| "rf_apply (O_return_cfi s pc saved) = rf_on_return_cfi s pc saved"

fun is_call :: "rf_op \<Rightarrow> bool" where
  "is_call (O_call _ _ _) = True" | "is_call _ = False"

fun is_return :: "rf_op \<Rightarrow> bool" where
  "is_return (O_return _ _) = True" | "is_return (O_return_cfi _ _ _) = True" | "is_return _ = False"

text \<open>Activity between a call and its return: calls and returns match up.\<close>

inductive balanced :: "rf_op list \<Rightarrow> bool" where
  nil: "balanced []"
| other: "\<not> is_call x \<Longrightarrow> \<not> is_return x \<Longrightarrow> balanced xs \<Longrightarrow> balanced (x # xs)"
| call: "is_call c \<Longrightarrow> is_return r \<Longrightarrow> balanced xs \<Longrightarrow> balanced ys \<Longrightarrow> balanced (c # xs @ r # ys)"

lemma fold_upd_length [simp]:
  assumes "\<And>x rs. length (f x rs) = length rs"
  shows "length (fold f xs rs) = length rs"
  using assms by (induction xs arbitrary: rs) simp_all

lemma call_saved_length [simp]:
  "length (call_callee_saved c s i rs) = length rs" "length (call_caller_saved c s i rs) = length rs"
  "length (cfi_upgrade i rs) = length rs" "length (write_back_local v pc s l rs) = length rs"
  by (simp_all add: call_callee_saved_def call_caller_saved_def cfi_upgrade_def
      write_back_local.simps
      split: option.split location_piece.split)

declare write_back_local.simps [simp del]

lemma rf_wf_apply: "rf_wf rf \<Longrightarrow> rf_wf (rf_apply op rf)"
  by (cases op)
    (auto simp: rf_wf_def rf_apply_snapshot_def observe_write_def rf_on_reload_def check_coherence_def
      rf_on_call_def rf_on_return_def rf_on_return_cfi_def Let_def
      split: option.splits list.splits if_splits)

lemma rf_wf_fold: "rf_wf rf \<Longrightarrow> rf_wf (fold rf_apply ops rf)"
  by (induction ops arbitrary: rf) (auto simp: rf_wf_apply)

lemma rf_wf_new: "rf_wf rf_new"
  by (simp add: rf_wf_def rf_new_def)

lemma stack_other:
  "\<not> is_call x \<Longrightarrow> \<not> is_return x \<Longrightarrow> rf_call_stack (rf_apply x rf) = rf_call_stack rf"
  by (cases x)
    (auto simp: rf_apply_snapshot_def observe_write_def rf_on_reload_def check_coherence_def
      split: option.split)

lemma stack_call: "is_call c \<Longrightarrow> \<exists>f. rf_call_stack (rf_apply c rf) = f # rf_call_stack rf"
  by (cases c) (auto simp: rf_on_call_def Let_def)

lemma stack_return: "is_return r \<Longrightarrow> rf_call_stack (rf_apply r rf) = tl (rf_call_stack rf)"
  by (cases r) (auto simp: rf_on_return_def rf_on_return_cfi_def Let_def split: list.split)

lemma stack_balanced: "balanced ops \<Longrightarrow> rf_call_stack (fold rf_apply ops rf) = rf_call_stack rf"
proof (induction arbitrary: rf rule: balanced.induct)
  case (call c r xs ys)
  then show ?case using stack_call [of c rf] by (auto simp: stack_return)
qed (simp_all add: stack_other)

lemma on_return_nth:
  assumes "rf_wf rf" "rf_call_stack rf = f # rest" "i \<in> set (CALLEE_SAVED @ CALLER_SAVED)" "i \<noteq> 0"
  shows "rf_regs (rf_on_return s pc rf) ! i = sf_saved_regs f ! i"
  using assms
  by (auto simp: rf_on_return_def CALLEE_SAVED_def CALLER_SAVED_def rf_wf_def REG_COUNT_def)

lemma on_return_rax:
  assumes "rf_wf rf" "rf_call_stack rf = f # rest"
  shows "rf_regs (rf_on_return s pc rf) ! 0 =
    reg_set (sr_value (rf_regs rf ! 0)) (P_ReturnValue (sf_callee_pc f) s) Speculative s pc (rf_regs rf ! 0)"
  using assms
  by (simp add: rf_on_return_def CALLEE_SAVED_def CALLER_SAVED_def rf_wf_def REG_COUNT_def)

lemma on_call_stack:
  "rf_call_stack (rf_on_call c rsp s rf) =
     \<lparr>sf_callee_pc = c, sf_saved_regs = rf_regs rf, sf_entry_seq = s\<rparr> # rf_call_stack rf"
  by (simp add: rf_on_call_def Let_def)

lemma on_return_other:
  assumes "rf_wf rf" "i = 7 \<or> i = 16 \<or> i = 17"
  shows "rf_regs (rf_on_return s pc rf) ! i = rf_regs rf ! i"
  using assms
  by (auto simp: rf_on_return_def CALLEE_SAVED_def CALLER_SAVED_def rf_wf_def REG_COUNT_def Let_def
      split: list.split)

lemma fold_keeps_nth:
  "(\<And>i rs. i \<in> set is \<Longrightarrow> f i rs ! k = rs ! k) \<Longrightarrow> fold f is rs ! k = rs ! k"
  by (induction "is" arbitrary: rs) simp_all

lemma on_call_rsp:
  "rf_wf rf \<Longrightarrow> rf_regs (rf_on_call c rsp s rf) ! 7 = reg_set rsp (P_Observed s) Observed s c (rf_regs rf ! 7)"
proof -
  have "call_callee_saved c s i rs ! 7 = rs ! 7" "call_caller_saved c s i rs ! 7 = rs ! 7"
    if "i \<noteq> 7" for i rs
    using that by (simp_all add: call_callee_saved_def call_caller_saved_def)
  then have "fold (call_callee_saved c s) CALLEE_SAVED rs ! 7 = rs ! 7"
    "fold (call_caller_saved c s) CALLER_SAVED rs ! 7 = rs ! 7" for rs
    by (auto intro!: fold_keeps_nth simp: CALLEE_SAVED_def CALLER_SAVED_def)
  moreover assume "rf_wf rf"
  ultimately show ?thesis by (simp add: rf_on_call_def Let_def rf_wf_def REG_COUNT_def)
qed

lemma reg_numbers: "i < REG_COUNT \<Longrightarrow> i \<in> {7, 16, 17} \<or> i \<in> set (CALLEE_SAVED @ CALLER_SAVED)"
  by (simp add: REG_COUNT_def CALLEE_SAVED_def CALLER_SAVED_def) presburger

text \<open>
  C9 (functional).  A call, any activity in which calls and returns match up, and the return
  determine all eighteen registers.  The caller's callee-saved and caller-saved registers come
  back as they were before the call, with value, provenance and confidence.  Of them \<open>rax\<close> (0)
  keeps the callee's value, marked as a speculative return value of the called function.  The
  stack pointer (7), which the call has overwritten, and the registers 16 and 17 are not restored:
  they stay as the callee leaves them.  The call stack is the one before the call.
\<close>

theorem call_return_restores:
  assumes wf: "rf_wf rf" and ops: "balanced ops"
  shows "(let body = fold rf_apply ops (rf_on_call callee rsp s0 rf);
              after = rf_on_return s pc body in
     rf_call_stack after = rf_call_stack rf \<and>
     rf_regs after =
       map (\<lambda>i. if i = 0 then reg_set (sr_value (rf_regs body ! 0)) (P_ReturnValue callee s)
                                  Speculative s pc (rf_regs body ! 0)
                else if i \<in> {7, 16, 17} then rf_regs body ! i
                else rf_regs rf ! i) [0..<REG_COUNT] \<and>
     rf_regs (rf_on_call callee rsp s0 rf) ! 7 =
       reg_set rsp (P_Observed s0) Observed s0 callee (rf_regs rf ! 7))"
proof -
  let ?c = "rf_on_call callee rsp s0 rf"
  let ?b = "fold rf_apply ops ?c"
  let ?f = "\<lparr>sf_callee_pc = callee, sf_saved_regs = rf_regs rf, sf_entry_seq = s0\<rparr>"
  have st: "rf_call_stack ?b = ?f # rf_call_stack rf"
    using stack_balanced [OF ops] by (simp add: on_call_stack)
  have wb: "rf_wf ?b"
    using rf_wf_apply [OF wf, of "O_call callee rsp s0"] by (simp add: rf_wf_fold)
  note nth = on_return_nth [OF wb st] and rax = on_return_rax [OF wb st]
    and other = on_return_other [OF wb]
  have "length (rf_regs (rf_on_return s pc ?b)) = REG_COUNT"
    using rf_wf_apply [OF wb, of "O_return s pc"] by (simp add: rf_wf_def)
  moreover have "rf_regs (rf_on_return s pc ?b) ! i =
      (if i = 0 then reg_set (sr_value (rf_regs ?b ! 0)) (P_ReturnValue callee s)
                       Speculative s pc (rf_regs ?b ! 0)
       else if i \<in> {7, 16, 17} then rf_regs ?b ! i else rf_regs rf ! i)"
    if "i < REG_COUNT" for i
    using rax other [of i s pc] nth [of i s pc] reg_numbers [OF that] by auto
  moreover have "rf_call_stack (rf_on_return s pc ?b) = rf_call_stack rf"
    using st by (simp add: rf_on_return_def Let_def)
  ultimately show ?thesis
    unfolding Let_def by (intro conjI nth_equalityI on_call_rsp wf) simp_all
qed

theorem call_return_restores_witness:
  "rf_call_stack (rf_on_return 9 64 (rf_on_return 8 48 (rf_on_call 32 1000 2 (rf_on_call 16 2000 1 rf_new))))
     = [] \<and>
   sr_value (rf_regs (rf_on_return 9 64 (rf_on_call 16 2000 1 rf_new)) ! 7) = 2000"
proof -
  have "balanced [O_call 32 1000 2, O_return 8 48]"
    using balanced.call [of "O_call 32 1000 2" "O_return 8 48" "[]" "[]"] by (simp add: balanced.nil)
  from call_return_restores [OF rf_wf_new this, of 16 2000 1 9 64]
    call_return_restores [OF rf_wf_new balanced.nil, of 16 2000 1 9 64]
  show ?thesis by (simp add: Let_def rf_new_def REG_COUNT_def reg_set_def)
qed


subsection \<open>Coherence\<close>

definition covers :: "u64 \<Rightarrow> u32 \<Rightarrow> nat set" where
  "covers a sz = {unat a ..< min (unat a + max (unat sz) 1) (2 ^ 64 - 1)}"

lemma unat_access_end: "unat (sat_add a (ucast (max sz (1 :: u32)) :: u64)) =
    min (unat a + max (unat sz) 1) (2 ^ 64 - 1)"
proof -
  have "unat (ucast (max sz (1 :: u32)) :: u64) = unat (max sz 1)"
    by (rule unat_ucast_widen) simp
  moreover have "unat (max sz 1) = max (unat sz) 1"
    by (auto simp: max_def word_le_nat_alt)
  ultimately show ?thesis by (simp add: unat_sat_add)
qed

lemma overlap_iff:
  "(a < sat_add src (ucast (max ss (1 :: u32))) \<and> src < sat_add a (ucast (max sz (1 :: u32)))) \<longleftrightarrow>
     covers src ss \<inter> covers a sz \<noteq> {}"
proof -
  have "{i..<j} \<inter> {k..<l} \<noteq> {} \<longleftrightarrow> i < j \<and> k < l \<and> i < l \<and> k < j" for i j k l :: nat
    by (auto simp: set_eq_iff intro: exI [of _ "max i k"])
  then show ?thesis
    using unat_lt [of a] unat_lt [of src]
    by (auto simp: covers_def word_less_nat_alt unat_access_end)
qed

lemma cohere_reg_eq:
  "cohere_reg a v sz r =
     (if Stale < sr_confidence r \<and> (8 < sz \<or> sr_value r \<noteq> v) \<and>
         (\<exists>src. sr_mem_source r = Some src \<and> covers src (sr_mem_source_size r) \<inter> covers a sz \<noteq> {})
      then r\<lparr>sr_confidence := Stale\<rparr> else r)"
  unfolding cohere_reg_def Let_def overlap_iff by (auto split: option.split)

text \<open>
  C10 (functional).  The coherence check marks a register stale exactly when its confidence is
  above stale, it was loaded from memory, the loaded range and the written range share an address,
  and the write is wider than eight bytes or carries another value; it changes nothing else, in
  that register or in any other.
\<close>

theorem check_coherence_exact:
  assumes "rf_wf rf" and "i < REG_COUNT"
  shows "rf_regs (check_coherence a v sz rf) ! i =
     (let r = rf_regs rf ! i in
      if Stale < sr_confidence r \<and> (8 < sz \<or> sr_value r \<noteq> v) \<and>
         (\<exists>src. sr_mem_source r = Some src \<and> covers src (sr_mem_source_size r) \<inter> covers a sz \<noteq> {})
      then r\<lparr>sr_confidence := Stale\<rparr> else r)"
  using assms by (simp add: check_coherence_def rf_wf_def Let_def cohere_reg_eq)

theorem check_coherence_exact_witness:
  "sr_confidence (rf_regs (check_coherence 4096 7 4 (rf_on_reload 12 5 4096 8 1 64 rf_new)) ! 12) = Stale"
proof -
  have "rf_wf (rf_on_reload 12 5 4096 8 1 64 rf_new)"
    using rf_wf_apply [OF rf_wf_new, of "O_reload 12 5 4096 8 1 64"] by simp
  from check_coherence_exact [OF this, of 12 4096 7 4]
  show ?thesis
    by (simp add: rf_on_reload_def rf_new_def REG_COUNT_def reg_set_def conf_ord Let_def covers_def)
qed

text \<open>
  The memory a register was loaded from: a byte per address.  A register is \<open>backed\<close> when, unless
  it is marked stale, its value is what memory holds at its source.
\<close>

definition mem_store :: "(u64 \<Rightarrow> u8) \<Rightarrow> u64 \<Rightarrow> u8 list \<Rightarrow> u64 \<Rightarrow> u8" where
  "mem_store mem a bs = (\<lambda>x. if unat (x - a) < length bs then bs ! unat (x - a) else mem x)"

definition mem_load :: "(u64 \<Rightarrow> u8) \<Rightarrow> u64 \<Rightarrow> nat \<Rightarrow> u8 list" where
  "mem_load mem a n = map (\<lambda>k. mem (a + of_nat k)) [0..<n]"

definition backed :: "(u64 \<Rightarrow> u8) \<Rightarrow> shadow_reg \<Rightarrow> bool" where
  "backed mem r =
     (case sr_mem_source r of None \<Rightarrow> True
      | Some src \<Rightarrow> Stale < sr_confidence r \<longrightarrow>
          sr_value r = from_le_bytes (mem_load mem src (unat (sr_mem_source_size r))))"

lemma load_store_same: "length bs \<le> 2 ^ 64 \<Longrightarrow> mem_load (mem_store mem a bs) a (length bs) = bs"
  by (rule nth_equalityI) (simp_all add: mem_load_def mem_store_def unat_of_nat take_bit_nat_eq_self)

lemma load_store_disjoint:
  assumes "unat a + length bs < 2 ^ 64" "unat src + n < 2 ^ 64"
    and "{unat src ..< unat src + n} \<inter> {unat a ..< unat a + length bs} = {}"
  shows "mem_load (mem_store mem a bs) src n = mem_load mem src n"
  unfolding mem_load_def
proof (rule map_cong [OF refl])
  fix k assume "k \<in> set [0..<n]"
  then have k: "k < n" by simp
  have x: "unat (src + of_nat k) = unat src + k"
    using assms(2) k by (simp add: unat_word_ariths unat_of_nat)
  have "\<not> unat (src + of_nat k - a) < length bs"
  proof (cases "a \<le> src + of_nat k")
    case True
    then have "unat (src + of_nat k - a) = unat src + k - unat a" by (simp add: unat_sub x)
    moreover have "\<not> unat src + k < unat a + length bs"
      using assms(3) k True by (auto simp: word_le_nat_alt x disjoint_iff)
    ultimately show ?thesis by simp
  next
    case False
    then have lt: "unat src + k < unat a" by (simp add: word_le_nat_alt x)
    then have "unat (src + of_nat k - a) = 2 ^ 64 + (unat src + k) - unat a"
      by (subst unat_sub_if') (simp add: x)
    with lt assms(1) show ?thesis by simp
  qed
  then show "mem_store mem a bs (src + of_nat k) = mem (src + of_nat k)"
    by (simp add: mem_store_def)
qed

lemma covers_range:
  "1 \<le> sz \<Longrightarrow> unat a + unat sz < 2 ^ 64 \<Longrightarrow> covers a sz = {unat a ..< unat a + unat sz}"
  by (auto simp: covers_def word_le_nat_alt max_def)

text \<open>
  C11 (safety).  A register that agrees with the memory it was loaded from, or is marked stale,
  still does after any thread writes to memory and the check has run, provided the write is wider
  than eight bytes, or starts where the register's source starts and has its size, or misses the
  source; \<open>value\<close> is the written value as the tracer reports it, the little-endian reading of the
  bytes of a write of at most eight.  (A narrower write that only overlaps the source is outside
  this guarantee: see \<open>partial_overlap_missed\<close>.)
\<close>

theorem coherence_sound:
  assumes r: "backed mem r" and src: "sr_mem_source r = Some src"
    and szs: "1 \<le> sr_mem_source_size r" "1 \<le> sz" "length bs = unat sz"
    and bounds: "unat src + unat (sr_mem_source_size r) < 2 ^ 64" "unat a + unat sz < 2 ^ 64"
    and val: "sz \<le> 8 \<longrightarrow> v = from_le_bytes bs"
    and shape: "8 < sz \<or> (a = src \<and> sz = sr_mem_source_size r) \<or>
        covers src (sr_mem_source_size r) \<inter> covers a sz = {}"
  shows "backed (mem_store mem a bs) (cohere_reg a v sz r)"
proof (cases "Stale < sr_confidence (cohere_reg a v sz r)")
  case False
  moreover have "sr_mem_source (cohere_reg a v sz r) = Some src"
    using src by (simp add: cohere_reg_eq)
  ultimately show ?thesis by (simp add: backed_def)
next
  case True
  let ?n = "unat (sr_mem_source_size r)"
  have r': "cohere_reg a v sz r = r" and live: "Stale < sr_confidence r"
    using True by (auto simp: cohere_reg_eq split: if_splits)
  have "\<not> ((8 < sz \<or> sr_value r \<noteq> v) \<and> covers src (sr_mem_source_size r) \<inter> covers a sz \<noteq> {})"
  proof
    assume "(8 < sz \<or> sr_value r \<noteq> v) \<and> covers src (sr_mem_source_size r) \<inter> covers a sz \<noteq> {}"
    with live src have "sr_confidence (cohere_reg a v sz r) = Stale"
      by (simp add: cohere_reg_eq)
    with True show False by simp
  qed
  then consider "covers src (sr_mem_source_size r) \<inter> covers a sz = {}"
    | "\<not> 8 < sz" "sr_value r = v" "a = src" "sz = sr_mem_source_size r"
    using shape by blast
  then have "mem_load (mem_store mem a bs) src ?n = mem_load mem src ?n \<or>
      sr_value r = from_le_bytes (mem_load (mem_store mem a bs) src ?n)"
  proof cases
    case 1
    then have "{unat src ..< unat src + ?n} \<inter> {unat a ..< unat a + length bs} = {}"
      using szs bounds by (simp add: covers_range)
    with bounds szs show ?thesis by (simp add: load_store_disjoint)
  next
    case 2
    have "mem_load (mem_store mem a bs) a (length bs) = bs"
      using bounds szs by (intro load_store_same) simp
    with 2 szs val show ?thesis by simp
  qed
  with r src live show ?thesis by (auto simp: r' backed_def)
qed

text \<open>A concrete register: \<open>r12\<close> loaded as 8 bytes with value 5 from address 4096.\<close>

definition loaded_reg :: shadow_reg where
  "loaded_reg = (reg_set 5 (P_Reload 4096 1) Observed 1 64 reg_unknown)
     \<lparr>sr_mem_source := Some 4096, sr_mem_source_size := 8\<rparr>"

definition loaded_mem :: "u64 \<Rightarrow> u8" where
  "loaded_mem = mem_store (\<lambda>_. 0) 4096 [5]"

lemma loaded_backed: "backed loaded_mem loaded_reg"
  by code_simp

theorem coherence_sound_witness:
  "backed (mem_store loaded_mem 4096 [7, 0, 0, 0, 0, 0, 0, 0]) (cohere_reg 4096 7 8 loaded_reg)"
proof -
  have v: "7 = (from_le_bytes [7, 0, 0, 0, 0, 0, 0, 0] :: u64)" by code_simp
  show ?thesis
    by (rule coherence_sound [OF loaded_backed, where src = 4096])
      (use v in \<open>simp_all add: loaded_reg_def\<close>)
qed

lemma loaded_after_write:
  "mem_load (mem_store loaded_mem 4100 [5, 0, 0, 0]) 4096 8 = [5, 0, 0, 0, 5, 0, 0, 0]"
  by (simp add: mem_load_def mem_store_def loaded_mem_def upt_rec unat_max_word)

lemma loaded_bytes: "from_le_bytes [5, 0, 0, 0, 5, 0, 0, 0] = (0x500000005 :: u64)"
  by code_simp

lemma loaded_reg_fields:
  "sr_mem_source loaded_reg = Some 4096" "Stale < sr_confidence loaded_reg"
  "unat (sr_mem_source_size loaded_reg) = 8" "sr_value loaded_reg = 5"
  by (simp_all add: loaded_reg_def reg_set_def conf_ord)

lemma loaded_unbacked: "\<not> backed (mem_store loaded_mem 4100 [5, 0, 0, 0]) loaded_reg"
  by (simp add: backed_def loaded_reg_fields loaded_after_write loaded_bytes del: from_le_bytes.simps)

lemma loaded_cohere: "cohere_reg 4100 5 4 loaded_reg = loaded_reg"
  by code_simp

text \<open>
  A four-byte write of the value 5 into the upper half of the source is not noticed, although the
  register no longer holds what memory holds.
\<close>

lemma partial_overlap_missed:
  "backed loaded_mem loaded_reg \<and>
   cohere_reg 4100 5 4 loaded_reg = loaded_reg \<and>
   \<not> backed (mem_store loaded_mem 4100 [5, 0, 0, 0]) (cohere_reg 4100 5 4 loaded_reg)"
  unfolding loaded_cohere by (intro conjI refl loaded_backed loaded_unbacked)


subsection \<open>Reassembling a variable from its pieces\<close>

text \<open>The steps that name a piece's source, and the program of a list of pieces.\<close>

fun source_step :: "piece_source \<Rightarrow> expr_step option" where
  "source_step (PS_Register r) = Some (Reg r)"
| "source_step (PS_RegisterOffset r off) = Some (BReg r off)"
| "source_step (PS_Memory a) = Some (Addr a)"
| "source_step (PS_FrameBaseOffset off) = Some (FrameBase off)"
| "source_step (PS_Implicit v) = Some (Lit v)"
| "source_step PS_Unknown = None"

fun piece_program :: "(piece_source \<times> u64) list \<Rightarrow> expr_step list" where
  "piece_program [] = []"
| "piece_program ((p, n) # ps) =
     (case source_step p of Some s \<Rightarrow> [s] | None \<Rightarrow> []) @ Piece n # piece_program ps"

fun piece_layout :: "u64 \<Rightarrow> (piece_source \<times> u64) list \<Rightarrow> piece_fragment list" where
  "piece_layout off [] = []"
| "piece_layout off ((p, n) # ps) =
     \<lparr>pf_var_offset = off, pf_byte_size = n, pf_source = p\<rparr> # piece_layout (off + n) ps"

text \<open>What a piece contributes to the variable: its bytes, zero-filled to its size.\<close>

definition piece_image :: "read_mem \<Rightarrow> shadow_reg list \<Rightarrow> u64 \<Rightarrow> piece_source \<times> u64 \<Rightarrow> u8 list" where
  "piece_image rd regs fb pn =
     (let sz = unat (snd pn); bs = take sz (fst (fragment_bytes rd regs fb sz (fst pn)))
      in bs @ replicate (sz - length bs) 0)"

lemma parse_loop_program:
  "parse_loop (piece_program ps) off None frags = (frags @ piece_layout off ps, None)"
proof (induction ps arbitrary: off frags)
  case (Cons pn ps)
  obtain p n where "pn = (p, n)" by (cases pn)
  with Cons show ?case by (cases p) (simp_all add: piece_size_def)
qed simp

lemma parse_pieces_program: "ps \<noteq> [] \<Longrightarrow> parse_pieces (piece_program ps) = piece_layout 0 ps"
  using parse_loop_program [of ps 0 "[]"]
  by (cases ps) (auto simp: parse_pieces_def)

definition pieces_size :: "(piece_source \<times> u64) list \<Rightarrow> nat" where
  "pieces_size ps = sum_list (map (\<lambda>pn. unat (snd pn)) ps)"

lemma piece_image_length [simp]: "length (piece_image rd regs fb pn) = unat (snd pn)"
  by (simp add: piece_image_def Let_def)

lemma overwrite_suffix:
  assumes "length pre = off" "n \<le> length zs"
  shows "overwrite off (take n bs) (pre @ zs) = pre @ take n bs @ drop (length (take n bs)) zs"
  using assms by (simp add: overwrite_def)

lemma place_layout:
  assumes "unat off + pieces_size ps = tot" "tot < 2 ^ 64"
    and "length (av_bytes av) = tot" "length (av_confidence av) = tot"
    and "drop (unat off) (av_bytes av) = replicate (pieces_size ps) 0"
  shows "\<exists>av'. place_all rd regs fb tot (piece_layout off ps) av = Value av' \<and>
     av_bytes av' = take (unat off) (av_bytes av) @ concat (map (piece_image rd regs fb) ps) \<and>
     length (av_confidence av') = tot"
  using assms
proof (induction ps arbitrary: off av)
  case Nil
  then show ?case by (simp add: pieces_size_def)
next
  case (Cons pn ps)
  obtain p n where pn: "pn = (p, n)" by (cases pn)
  obtain bs c where f: "fragment_bytes rd regs fb (unat n) p = (bs, c)" by fastforce
  let ?m = "min (length bs) (unat n)"
  have sz: "pieces_size (pn # ps) = unat n + pieces_size ps" by (simp add: pieces_size_def pn)
  have le: "unat off + unat n \<le> tot" using Cons.prems(1) sz by simp
  have off': "unat (off + n) = unat off + unat n"
    using le Cons.prems(2) by (intro unat_add_small) simp
  define av1 where "av1 = av\<lparr>av_bytes := overwrite (unat off) (take ?m bs) (av_bytes av),
     av_confidence := overwrite (unat off) (replicate ?m c) (av_confidence av),
     av_resolved_count := av_resolved_count av + (if Unknown < c then 1 else 0),
     av_min_confidence := (if c < av_min_confidence av then c else av_min_confidence av)\<rparr>"
  have step: "place_fragment rd regs fb tot
      \<lparr>pf_var_offset = off, pf_byte_size = n, pf_source = p\<rparr> av = Value av1"
    using le Cons.prems(2) by (simp add: place_fragment_def f Let_def av1_def)
  define pre where "pre = take (unat off) (av_bytes av)"
  have pre: "length pre = unat off" using le Cons.prems(3) by (simp add: pre_def)
  have bytes: "av_bytes av = pre @ replicate (unat n + pieces_size ps) 0"
    using Cons.prems(5) sz by (metis append_take_drop_id pre_def)
  have img: "piece_image rd regs fb pn = take ?m bs @ replicate (unat n - ?m) 0"
    by (simp add: piece_image_def pn f Let_def min_def)
  have b1: "av_bytes av1 = pre @ piece_image rd regs fb pn @ replicate (pieces_size ps) 0"
    unfolding av1_def img by (simp add: bytes overwrite_def pre replicate_add min_def)
  have "length (av_confidence av1) = tot"
    using le Cons.prems(4) by (simp add: av1_def overwrite_def)
  moreover have "length (av_bytes av1) = tot"
    using Cons.prems(1) sz pre by (simp add: b1 pn)
  moreover have "drop (unat (off + n)) (av_bytes av1) = replicate (pieces_size ps) 0"
    by (simp add: b1 off' pre pn)
  ultimately obtain av' where "place_all rd regs fb tot (piece_layout (off + n) ps) av1 = Value av'"
    and "av_bytes av' = take (unat (off + n)) (av_bytes av1) @ concat (map (piece_image rd regs fb) ps)"
    and "length (av_confidence av') = tot"
    using Cons.IH [of "off + n" av1] Cons.prems(1,2) sz off' by auto
  moreover have "take (unat (off + n)) (av_bytes av1) = pre @ piece_image rd regs fb pn"
    by (simp add: b1 off' pre pn)
  ultimately show ?case by (simp add: pn step pre_def)
qed



end
