(* ===== verification/Dwarf_Info.thy ===== *)
theory Dwarf_Info
  imports Shadow_Regs "HOL-Library.AList"
begin

text \<open>
  What the engine computes from the debug information after parsing
  (\<^verbatim>\<open>engine/src/dwarf.rs\<close>): the type registry and its completion, the function index, the
  container-of map and the oracle that types heap allocations.

  The registry is an association list with distinct keys; the order of the list is the iteration
  order of the \<open>HashMap\<close>.  Reading DWARF entries with \<open>gimli\<close> is not modelled: the entries the
  materializer finds are parameters.
\<close>

type_synonym registry = "(string \<times> type_info) list"

definition set_fields :: "type_info \<Rightarrow> field_info list \<Rightarrow> type_info" where
  "set_fields t fs = Type_Info (ti_name t) (ti_byte_size t) (ti_is_pointer t) (ti_is_volatile t)
     (ti_is_atomic t) (ti_shallow t) fs"

definition set_field_type :: "field_info \<Rightarrow> type_info \<Rightarrow> field_info" where
  "set_field_type f t = Field_Info (fi_name f) (fi_byte_offset f) (fi_byte_size f) t (fi_alignment f)"

lemma set_fields_simps [simp]:
  "ti_fields (set_fields t fs) = fs" "ti_name (set_fields t fs) = ti_name t"
  "ti_shallow (set_fields t fs) = ti_shallow t" "ti_byte_size (set_fields t fs) = ti_byte_size t"
  by (simp_all add: set_fields_def)

lemma set_field_type_simps [simp]:
  "fi_type_info (set_field_type f t) = t" "fi_name (set_field_type f t) = fi_name f"
  "fi_byte_offset (set_field_type f t) = fi_byte_offset f"
  by (simp_all add: set_field_type_def)

text \<open>\<open>str::strip_prefix\<close> of one character, and \<open>unwrap_or\<close> around it.\<close>

definition strip_char :: "char \<Rightarrow> string \<Rightarrow> string option" where
  "strip_char c s = (case s of [] \<Rightarrow> None | x # xs \<Rightarrow> if x = c then Some xs else None)"

definition strip_stars :: "string \<Rightarrow> string" where
  "strip_stars s = dropWhile (\<lambda>c. c = CHR ''*'') s"


subsection \<open>Functions by address\<close>

type_synonym func_map = "(u64, function_meta) btree_map"

definition func_containing :: "func_map \<Rightarrow> u64 \<Rightarrow> function_meta option" where
  "func_containing fns pc = map_option snd (bt_cover (\<lambda>_ f. fm_high_pc f) pc fns)"


subsection \<open>Shallow types\<close>

text \<open>
  \<open>patch_shallow_fields\<close> recurses into the types it has just substituted, so its recursion is not
  structural; \<open>None\<close> means the fuel ran out.
\<close>

definition upgrade_field :: "registry \<Rightarrow> field_info \<Rightarrow> field_info" where
  "upgrade_field reg f =
     (if ti_shallow (fi_type_info f) then
        (case map_of reg (ti_name (fi_type_info f)) of
           Some full \<Rightarrow>
             (if \<not> ti_shallow full \<and> length (ti_fields (fi_type_info f)) < length (ti_fields full)
              then set_field_type f full else f)
         | None \<Rightarrow> f)
      else f)"

fun map_opt :: "('a \<Rightarrow> 'b option) \<Rightarrow> 'a list \<Rightarrow> 'b list option" where
  "map_opt g [] = Some []"
| "map_opt g (x # xs) =
     (case g x of None \<Rightarrow> None | Some y \<Rightarrow> map_option (\<lambda>ys. y # ys) (map_opt g xs))"

fun patch_shallow_fields :: "nat \<Rightarrow> registry \<Rightarrow> type_info \<Rightarrow> type_info option" where
  "patch_shallow_fields 0 reg t = None"
| "patch_shallow_fields (Suc n) reg t =
     map_option (set_fields t)
       (map_opt (\<lambda>f. let f' = upgrade_field reg f in
          if ti_fields (fi_type_info f') = [] then Some f'
          else map_option (set_field_type f') (patch_shallow_fields n reg (fi_type_info f')))
        (ti_fields t))"


subsection \<open>Materializing types on demand\<close>

text \<open>
  The DWARF entries of a name: \<open>de_accel\<close>, those the accelerator locates (their size is not zero
  and their name matches), and \<open>de_scan\<close>, those of a full scan, in order; \<open>None\<close> when the file
  cannot be read.  Each entry gives its byte size and its extracted fields.
\<close>

record dwarf_entries =
  de_accel :: "string \<Rightarrow> (u64 \<times> field_info list) list"
  de_scan :: "string \<Rightarrow> (u64 \<times> field_info list) list"

definition deep_type :: "string \<Rightarrow> type_info \<Rightarrow> u64 \<Rightarrow> field_info list \<Rightarrow> type_info" where
  "deep_type name ex bs fs = Type_Info name bs False (ti_is_volatile ex) (ti_is_atomic ex) False fs"

fun accel_first :: "string \<Rightarrow> type_info \<Rightarrow> (u64 \<times> field_info list) list \<Rightarrow> type_info option" where
  "accel_first name ex [] = None"
| "accel_first name ex ((bs, fs) # es) =
     (if length (ti_fields ex) < length fs then Some (deep_type name ex bs fs)
      else accel_first name ex es)"

fun scan_best ::
  "string \<Rightarrow> type_info \<Rightarrow> (u64 \<times> field_info list) list \<Rightarrow> type_info option \<Rightarrow> type_info option" where
  "scan_best name ex [] best = best"
| "scan_best name ex ((bs, fs) # es) best =
     (if bs = 0 then scan_best name ex es best
      else if (case best of Some b \<Rightarrow> length (ti_fields b) < length fs
                          | None \<Rightarrow> length (ti_fields ex) < length fs)
      then (if bs = ti_byte_size ex then Some (deep_type name ex bs fs)
            else scan_best name ex es (Some (deep_type name ex bs fs)))
      else scan_best name ex es best)"

definition resolve_deep :: "dwarf_entries option \<Rightarrow> string \<Rightarrow> registry \<Rightarrow> registry \<times> bool" where
  "resolve_deep elf name reg =
     (let existing = (case map_of reg name of Some ti \<Rightarrow> ti
                      | None \<Rightarrow> Type_Info name 0 False False False True []) in
      if map_of reg name \<noteq> None \<and> \<not> ti_shallow existing then (reg, True)
      else
        (case elf of None \<Rightarrow> (reg, False)
         | Some de \<Rightarrow>
             (case accel_first name existing (de_accel de name) of
                Some t \<Rightarrow> (AList.update name t reg, True)
              | None \<Rightarrow>
                  (case scan_best name existing (de_scan de name) None of
                     Some t \<Rightarrow> (AList.update name t reg, True)
                   | None \<Rightarrow> (reg, False)))))"

definition pointer_targets :: "registry \<Rightarrow> type_info \<Rightarrow> string list" where
  "pointer_targets reg ti =
     filter (\<lambda>n. n \<noteq> [] \<and> n \<noteq> ''void'' \<and> map_of reg n = None)
       (map (\<lambda>f. strip_stars (ti_name (fi_type_info f)))
          (filter (\<lambda>f. ti_is_pointer (fi_type_info f)) (ti_fields ti)))"

text \<open>
  \<open>ensure_type_inner\<close>, by the depth that is left: the source's \<open>depth\<close> is \<open>7\<close> less the first
  argument, and \<open>depth > 6\<close> is the base case.
\<close>

primrec ensure_type_inner ::
  "nat \<Rightarrow> dwarf_entries option \<Rightarrow> string \<Rightarrow> registry \<Rightarrow> registry \<times> bool" where
  "ensure_type_inner 0 elf name reg = (reg, False)"
| "ensure_type_inner (Suc left) elf name reg =
     (case map_of reg name of
        Some ti \<Rightarrow>
          (if \<not> ti_shallow ti
           then (fold (\<lambda>t r. fst (ensure_type_inner left elf t r)) (pointer_targets reg ti) reg, True)
           else
             (case resolve_deep elf name reg of
                (reg1, ok) \<Rightarrow>
                  (if \<not> ok then (reg1, False)
                   else (fold (\<lambda>t r. fst (ensure_type_inner left elf t r))
                      (case map_of reg1 name of Some t \<Rightarrow> pointer_targets reg1 t | None \<Rightarrow> []) reg1, True))))
      | None \<Rightarrow>
          (case resolve_deep elf name reg of
             (reg1, ok) \<Rightarrow>
               (if \<not> ok then (reg1, False)
                else (fold (\<lambda>t r. fst (ensure_type_inner left elf t r))
                   (case map_of reg1 name of Some t \<Rightarrow> pointer_targets reg1 t | None \<Rightarrow> []) reg1, True))))"

text \<open>
  The top level also counts the growth of the registry in \<open>types_materialized\<close>; at depth 0 a
  failed resolution returns before the count.
\<close>

definition ensure_type ::
  "dwarf_entries option \<Rightarrow> string \<Rightarrow> registry \<times> u64 \<Rightarrow> (registry \<times> u64) \<times> bool" where
  "ensure_type elf name st =
     (case ensure_type_inner 7 elf name (fst st) of
        (reg1, True) \<Rightarrow> ((reg1, snd st + of_nat (length reg1 - length (fst st))), True)
      | (reg1, False) \<Rightarrow> ((reg1, snd st), False))"


subsection \<open>Harvesting types\<close>

definition reg_merge :: "type_info \<Rightarrow> registry \<Rightarrow> registry" where
  "reg_merge t reg =
     (case map_of reg (ti_name t) of
        Some ex \<Rightarrow> (if length (ti_fields ex) < length (ti_fields t) then AList.update (ti_name t) t reg else reg)
      | None \<Rightarrow> AList.update (ti_name t) t reg)"

definition named_type :: "type_info \<Rightarrow> bool" where
  "named_type t \<longleftrightarrow> 0 < ti_byte_size t \<and> ti_name t \<noteq> [] \<and> \<not> ti_is_pointer t"

lemma fi_size_less [termination_simp]:
  "f \<in> set (ti_fields t) \<Longrightarrow> size (fi_type_info f) < size t"
proof -
  assume f: "f \<in> set (ti_fields t)"
  have "size (fi_type_info f) < size f" by (cases f) simp
  also have "size f \<le> size_list size (ti_fields t)" using f by (rule size_list_estimation' [OF _ order_refl])
  also have "size_list size (ti_fields t) < size t" by (cases t) simp
  finally show ?thesis .
qed

function register_recursive :: "type_info \<Rightarrow> registry \<Rightarrow> registry" where
  "register_recursive t reg =
     (let reg1 = (if named_type t then reg_merge t reg else reg);
          reg2 = fold (\<lambda>f r. register_recursive (fi_type_info f) r) (ti_fields t) reg1
      in if ti_is_pointer t \<and> 0 < ti_byte_size t then
           (let pointee = (case strip_char (CHR ''*'') (ti_name t) of Some n \<Rightarrow> n | None \<Rightarrow> []) in
            if pointee \<noteq> [] \<and> pointee \<noteq> ''void'' then
              (case find (\<lambda>f. fi_name f = ''<pointee>'') (ti_fields t) of
                 Some pf \<Rightarrow> register_recursive (fi_type_info pf) reg2
               | None \<Rightarrow> reg2)
            else reg2)
         else reg2)"
  by auto

lemma find_mem: "find P xs = Some x \<Longrightarrow> x \<in> set xs"
  by (auto simp: find_Some_iff)

termination register_recursive
  by (relation "measure (\<lambda>(t, _). size t)") (auto simp: fi_size_less dest: find_mem)

declare register_recursive.simps [simp del]

record container_of_entry =
  co_container_type :: string
  co_field_name :: string
  co_field_offset :: u64

definition container_field :: "registry \<Rightarrow> field_info \<Rightarrow> bool" where
  "container_field reg f \<longleftrightarrow>
     fi_byte_offset f \<noteq> 0 \<and> \<not> ti_is_pointer (fi_type_info f) \<and>
     ti_name (fi_type_info f) \<noteq> [] \<and> ti_name (fi_type_info f) \<noteq> ''<anon>'' \<and>
     map_of reg (ti_name (fi_type_info f)) \<noteq> None \<and> ti_fields (fi_type_info f) \<noteq> []"

definition map_push :: "'k \<Rightarrow> 'v \<Rightarrow> ('k \<rightharpoonup> 'v list) \<Rightarrow> ('k \<rightharpoonup> 'v list)" where
  "map_push k v m = m(k \<mapsto> (case m k of Some vs \<Rightarrow> vs | None \<Rightarrow> []) @ [v])"

definition build_container_of_map :: "registry \<Rightarrow> (string \<rightharpoonup> container_of_entry list)" where
  "build_container_of_map reg =
     fold (\<lambda>(cname, cti). fold (\<lambda>f m.
         if container_field reg f
         then map_push (ti_name (fi_type_info f))
                \<lparr>co_container_type = cname, co_field_name = fi_name f, co_field_offset = fi_byte_offset f\<rparr> m
         else m) (ti_fields cti)) reg Map.empty"


subsection \<open>The allocation-site oracle\<close>

record alloc_site_oracle =
  ao_unique :: "u64 \<rightharpoonup> type_info"
  ao_ambiguous :: "u64 \<rightharpoonup> type_info list"
  ao_callsite :: "(u64 \<times> u64 \<times> u64 \<times> type_info) list"

definition stampable :: "type_info \<Rightarrow> bool" where
  "stampable t \<longleftrightarrow> \<not> (ti_is_pointer t \<or> ti_byte_size t = 0 \<or> ti_name t = [] \<or> ti_fields t = [])"

definition group_by_size :: "registry \<Rightarrow> (u64 \<rightharpoonup> type_info list)" where
  "group_by_size reg =
     fold (\<lambda>t m. if stampable t then map_push (ti_byte_size t) t m else m) (map snd reg) Map.empty"

text \<open>One or two levels of pointer indirection are stripped.\<close>

definition pointee_of_local :: "local_var \<Rightarrow> string" where
  "pointee_of_local l =
     (let raw = (case strip_char (CHR ''*'') (ti_name (lv_type_info l)) of Some n \<Rightarrow> n | None \<Rightarrow> [])
      in (case strip_char (CHR ''*'') raw of Some n \<Rightarrow> n | None \<Rightarrow> raw))"

definition local_pointee :: "registry \<Rightarrow> local_var \<Rightarrow> type_info option" where
  "local_pointee reg l =
     (if \<not> ti_is_pointer (lv_type_info l) \<or> pointee_of_local l = [] then None
      else (case map_of reg (pointee_of_local l) of
              Some t \<Rightarrow> (if 0 < ti_byte_size t \<and> \<not> ti_is_pointer t then Some t else None)
            | None \<Rightarrow> None))"

definition local_types :: "registry \<Rightarrow> function_meta \<Rightarrow> type_info list" where
  "local_types reg f = List.map_filter (local_pointee reg) (fm_locals f)"

fun dedup_names :: "string set \<Rightarrow> type_info list \<Rightarrow> type_info list" where
  "dedup_names seen [] = []"
| "dedup_names seen (t # ts) =
     (if ti_name t \<in> seen then dedup_names seen ts
      else t # dedup_names (insert (ti_name t) seen) ts)"

definition size_callsite ::
  "registry \<Rightarrow> (u64 \<rightharpoonup> type_info list) \<Rightarrow> function_meta \<Rightarrow> u64 \<Rightarrow> (u64 \<times> u64 \<times> u64 \<times> type_info) list" where
  "size_callsite reg ambiguous f sz =
     (if ambiguous sz = None then []
      else (let ds = dedup_names {} (filter (\<lambda>t. ti_byte_size t = sz) (local_types reg f)) in
            if length ds = 1 then [(fm_low_pc f, fm_high_pc f, sz, ds ! 0)] else []))"

definition function_callsites ::
  "registry \<Rightarrow> (u64 \<rightharpoonup> type_info list) \<Rightarrow> function_meta \<Rightarrow> (u64 \<times> u64 \<times> u64 \<times> type_info) list" where
  "function_callsites reg ambiguous f =
     concat (map (size_callsite reg ambiguous f) (remdups (map ti_byte_size (local_types reg f))))"

definition ao_build :: "registry \<Rightarrow> func_map \<Rightarrow> alloc_site_oracle" where
  "ao_build reg fns =
     (let by_size = group_by_size reg;
          unique = (\<lambda>sz. case by_size sz of Some [t] \<Rightarrow> Some t | _ \<Rightarrow> None);
          ambiguous = (\<lambda>sz. case by_size sz of Some [t] \<Rightarrow> None | x \<Rightarrow> x)
      in \<lparr>ao_unique = unique, ao_ambiguous = ambiguous,
          ao_callsite = concat (map (function_callsites reg ambiguous) (map snd fns))\<rparr>)"

fun callsite_for ::
  "(u64 \<times> u64 \<times> u64 \<times> type_info) list \<Rightarrow> u64 \<Rightarrow> u64 list \<Rightarrow> type_info option" where
  "callsite_for cs sz [] = None"
| "callsite_for cs sz (pc # pcs) =
     (case find (\<lambda>(lo, hi, s, _). s = sz \<and> lo \<le> pc \<and> pc < hi) cs of
        Some (_, _, _, t) \<Rightarrow> Some t
      | None \<Rightarrow> callsite_for cs sz pcs)"

definition ao_resolve :: "alloc_site_oracle \<Rightarrow> u64 \<Rightarrow> u64 list \<Rightarrow> type_info option" where
  "ao_resolve o' sz pcs =
     (case ao_unique o' sz of Some t \<Rightarrow> Some t
      | None \<Rightarrow> if ao_ambiguous o' sz = None then None else callsite_for (ao_callsite o') sz pcs)"


subsection \<open>The oracle resolves exactly\<close>

definition candidates :: "registry \<Rightarrow> u64 \<Rightarrow> type_info list" where
  "candidates reg sz = filter (\<lambda>t. stampable t \<and> ti_byte_size t = sz) (map snd reg)"

lemma group_fold:
  "fold (\<lambda>t m. if stampable t then map_push (ti_byte_size t) t m else m) ts m sz =
     (case filter (\<lambda>t. stampable t \<and> ti_byte_size t = sz) ts of
        [] \<Rightarrow> m sz | cs \<Rightarrow> Some ((case m sz of Some vs \<Rightarrow> vs | None \<Rightarrow> []) @ cs))"
  by (induction ts arbitrary: m) (auto simp: map_push_def split: list.split)

lemma group_by_size_eq:
  "group_by_size reg sz = (case candidates reg sz of [] \<Rightarrow> None | cs \<Rightarrow> Some cs)"
  by (simp add: group_by_size_def group_fold candidates_def split: list.split)

lemma dedup_names_single:
  "dedup_names seen ts = [t] \<Longrightarrow> t \<in> set ts \<and> (\<forall>u \<in> set ts. ti_name u = ti_name t \<or> ti_name u \<in> seen)"
proof (induction ts arbitrary: seen)
  case (Cons u ts)
  have empty: "dedup_names s us = [] \<Longrightarrow> \<forall>v \<in> set us. ti_name v \<in> s" for s us
    by (induction s us rule: dedup_names.induct) (auto split: if_splits)
  show ?case
    using Cons empty [of "insert (ti_name u) seen" ts] by (auto split: if_splits)
qed simp

lemma find_sat: "find P xs = Some x \<Longrightarrow> x \<in> set xs \<and> P x"
  by (auto simp: find_Some_iff)

lemma callsite_for_mem:
  "callsite_for cs sz pcs = Some t \<Longrightarrow>
     \<exists>lo hi pc. (lo, hi, sz, t) \<in> set cs \<and> pc \<in> set pcs \<and> lo \<le> pc \<and> pc < hi"
proof (induction pcs)
  case (Cons pc pcs)
  show ?case
  proof (cases "find (\<lambda>(lo, hi, s, _). s = sz \<and> lo \<le> pc \<and> pc < hi) cs")
    case None
    with Cons show ?thesis by auto
  next
    case (Some c)
    with Cons.prems find_sat [OF this] show ?thesis by (cases c) auto
  qed
qed simp

lemma size_callsite_mem:
  assumes "(lo, hi, sz, t) \<in> set (size_callsite reg amb f z)"
  shows "z = sz \<and> lo = fm_low_pc f \<and> hi = fm_high_pc f \<and>
     dedup_names {} (filter (\<lambda>t. ti_byte_size t = sz) (local_types reg f)) = [t]"
proof -
  define ds where "ds = dedup_names {} (filter (\<lambda>t. ti_byte_size t = z) (local_types reg f))"
  have eq: "set (size_callsite reg amb f z) =
      (if amb z = None \<or> length ds \<noteq> 1 then {} else {(fm_low_pc f, fm_high_pc f, z, ds ! 0)})"
    by (simp add: size_callsite_def Let_def ds_def [symmetric])
  show ?thesis
  proof (cases "amb z = None \<or> length ds \<noteq> 1")
    case True
    with assms eq show ?thesis by simp
  next
    case False
    with assms eq have "z = sz" "lo = fm_low_pc f" "hi = fm_high_pc f" "t = ds ! 0" "length ds = 1"
      by (simp_all only: if_False singleton_iff prod.inject de_Morgan_disj not_not)
    moreover from this have "ds = [t]" by (cases ds) simp_all
    ultimately show ?thesis by (simp add: ds_def)
  qed
qed

lemma function_callsites_mem:
  assumes "(lo, hi, sz, t) \<in> set (function_callsites reg amb f)"
  shows "lo = fm_low_pc f \<and> hi = fm_high_pc f \<and> t \<in> set (local_types reg f) \<and> ti_byte_size t = sz \<and>
     (\<forall>u \<in> set (local_types reg f). ti_byte_size u = sz \<longrightarrow> ti_name u = ti_name t)"
proof -
  from assms obtain z where "(lo, hi, sz, t) \<in> set (size_callsite reg amb f z)"
    unfolding function_callsites_def set_concat set_map by blast
  from size_callsite_mem [OF this]
  have fm: "lo = fm_low_pc f" "hi = fm_high_pc f"
    and d: "dedup_names {} (filter (\<lambda>t. ti_byte_size t = sz) (local_types reg f)) = [t]"
    by simp_all
  have "t \<in> set (filter (\<lambda>t. ti_byte_size t = sz) (local_types reg f))"
    and "\<forall>u \<in> set (filter (\<lambda>t. ti_byte_size t = sz) (local_types reg f)). ti_name u = ti_name t"
    using dedup_names_single [OF d] by blast+
  with fm show ?thesis unfolding set_filter by blast
qed

text \<open>
  The oracle types an allocation exactly as promised.  Where one struct of the
  registry has the requested size, that struct is the answer whoever called; where none has, there
  is no answer; where several have, an answer comes from a function on the caller chain whose
  pointer locals of that size all name the answered type.
\<close>

theorem ao_resolve_exact:
  "(case candidates reg sz of
      [] \<Rightarrow> ao_resolve (ao_build reg fns) sz pcs = None
    | [t] \<Rightarrow> ao_resolve (ao_build reg fns) sz pcs = Some t
    | _ \<Rightarrow> \<forall>t. ao_resolve (ao_build reg fns) sz pcs = Some t \<longrightarrow>
        (\<exists>f \<in> set (map snd fns). \<exists>pc \<in> set pcs. fm_low_pc f \<le> pc \<and> pc < fm_high_pc f \<and>
           t \<in> set (local_types reg f) \<and> ti_byte_size t = sz \<and>
           (\<forall>u \<in> set (local_types reg f). ti_byte_size u = sz \<longrightarrow> ti_name u = ti_name t)))"
proof -
  have many: "\<exists>f \<in> set (map snd fns). \<exists>pc \<in> set pcs. fm_low_pc f \<le> pc \<and> pc < fm_high_pc f \<and>
           t \<in> set (local_types reg f) \<and> ti_byte_size t = sz \<and>
           (\<forall>u \<in> set (local_types reg f). ti_byte_size u = sz \<longrightarrow> ti_name u = ti_name t)"
    if cs: "callsite_for (ao_callsite (ao_build reg fns)) sz pcs = Some t" for t
  proof -
    from callsite_for_mem [OF cs] obtain lo hi pc amb f
      where "(lo, hi, sz, t) \<in> set (function_callsites reg amb f)" "f \<in> set (map snd fns)"
        and pc: "pc \<in> set pcs" "lo \<le> pc" "pc < hi"
      unfolding ao_build_def Let_def alloc_site_oracle.simps set_concat set_map by blast
    with function_callsites_mem [OF this(1)] show ?thesis by blast
  qed
  show ?thesis
  proof (cases "candidates reg sz")
    case Nil
    then show ?thesis by (simp add: ao_resolve_def ao_build_def Let_def group_by_size_eq)
  next
    case (Cons t ts)
    show ?thesis
    proof (cases ts)
      case Nil
      with Cons show ?thesis by (simp add: ao_resolve_def ao_build_def Let_def group_by_size_eq)
    next
      fix u us
      assume ts: "ts = u # us"
      have "ao_resolve (ao_build reg fns) sz pcs = callsite_for (ao_callsite (ao_build reg fns)) sz pcs"
        by (simp add: ao_resolve_def ao_build_def Let_def group_by_size_eq Cons ts)
      with many show ?thesis by (simp add: Cons ts)
    qed
  qed
qed

text \<open>Two structs of 16 bytes; the function at \<open>[64, 96)\<close> has one pointer local, to the second.\<close>

definition two_structs :: registry where
  "two_structs =
     (let fs = [Field_Info ''x'' 0 8 ti_unknown 0] in
      [(''a'', Type_Info ''a'' 16 False False False False fs),
       (''b'', Type_Info ''b'' 16 False False False False fs)])"

definition alloc_function :: function_meta where
  "alloc_function = \<lparr>fm_name = ''f'', fm_low_pc = 64, fm_high_pc = 96, fm_frame_base_is_cfa = False,
     fm_locals = [\<lparr>lv_frame_offset = 0, lv_name = ''p'', lv_size = 8,
       lv_type_info = Type_Info ''*b'' 8 True False False False [], lv_location = []\<rparr>]\<rparr>"

theorem ao_resolve_exact_witness:
  "ao_resolve (ao_build two_structs [(64, alloc_function)]) 16 [0, 80] =
     Some (Type_Info ''b'' 16 False False False False [Field_Info ''x'' 0 8 ti_unknown 0]) \<and>
   (\<exists>f \<in> {alloc_function}. \<exists>pc \<in> {0, 80}. fm_low_pc f \<le> pc \<and> pc < fm_high_pc f)"
proof -
  let ?t = "Type_Info ''b'' 16 False False False False [Field_Info ''x'' 0 8 ti_unknown 0]"
  have r: "ao_resolve (ao_build two_structs [(64, alloc_function)]) 16 [0, 80] = Some ?t"
    by code_simp
  have c: "candidates two_structs 16 =
      [Type_Info ''a'' 16 False False False False [Field_Info ''x'' 0 8 ti_unknown 0], ?t]"
    by code_simp
  from ao_resolve_exact [of two_structs "[(64, alloc_function)]" 16 "[0, 80]", unfolded c list.case] r
  show ?thesis by auto
qed


subsection \<open>Patching shallow fields\<close>

fun sub_types :: "type_info \<Rightarrow> type_info list" where
  "sub_types t = t # concat (map (\<lambda>f. sub_types (fi_type_info f)) (ti_fields t))"

declare sub_types.simps [simp del]

definition all_fields :: "type_info \<Rightarrow> field_info list" where
  "all_fields t = concat (map ti_fields (sub_types t))"

lemma all_fields_set:
  "set (all_fields t) = set (ti_fields t) \<union> (\<Union>f \<in> set (ti_fields t). set (all_fields (fi_type_info f)))"
  by (subst all_fields_def, subst sub_types.simps) (auto simp: all_fields_def)

lemma map_opt_Some:
  "map_opt g xs = Some ys \<longleftrightarrow> length ys = length xs \<and> (\<forall>i < length xs. g (xs ! i) = Some (ys ! i))"
proof (induction xs arbitrary: ys)
  case (Cons x xs)
  show ?case
    by (cases ys) (auto simp: Cons.IH less_Suc_eq_0_disj split: option.split)
qed auto

lemma map_opt_ex: "\<forall>x \<in> set xs. g x \<noteq> None \<Longrightarrow> map_opt g xs \<noteq> None"
  by (induction xs) (auto split: option.split)

definition patch_field :: "nat \<Rightarrow> registry \<Rightarrow> field_info \<Rightarrow> field_info option" where
  "patch_field n reg f =
     (let f' = upgrade_field reg f in
      if ti_fields (fi_type_info f') = [] then Some f'
      else map_option (set_field_type f') (patch_shallow_fields n reg (fi_type_info f')))"

lemma patch_Suc:
  "patch_shallow_fields (Suc n) reg t = map_option (set_fields t) (map_opt (patch_field n reg) (ti_fields t))"
  by (simp add: patch_field_def [abs_def])

declare patch_shallow_fields.simps(2) [simp del]

lemma patch_shape:
  "patch_shallow_fields n reg t = Some r \<Longrightarrow>
     ti_name r = ti_name t \<and> ti_shallow r = ti_shallow t \<and> ti_byte_size r = ti_byte_size t \<and>
     length (ti_fields r) = length (ti_fields t)"
  by (cases n) (auto simp: patch_Suc map_opt_Some)

lemma upgrade_idem: "upgrade_field reg (upgrade_field reg f) = upgrade_field reg f"
  by (auto simp: upgrade_field_def split: option.split)

lemma upgrade_name:
  "fi_name (upgrade_field reg f) = fi_name f \<and> fi_byte_offset (upgrade_field reg f) = fi_byte_offset f"
  by (simp add: upgrade_field_def split: option.split)

lemma upgrade_stable_type:
  assumes "upgrade_field reg u = u" "ti_name t' = ti_name (fi_type_info u)"
    "ti_shallow t' = ti_shallow (fi_type_info u)" "length (ti_fields t') = length (ti_fields (fi_type_info u))"
  shows "upgrade_field reg (set_field_type u t') = set_field_type u t'"
proof (rule ccontr)
  assume c: "\<not> ?thesis"
  then obtain full where sh: "ti_shallow (fi_type_info u)"
    and full: "map_of reg (ti_name (fi_type_info u)) = Some full" "\<not> ti_shallow full"
      "length (ti_fields (fi_type_info u)) < length (ti_fields full)"
    using assms(2-4) by (auto simp: upgrade_field_def split: if_splits option.splits)
  then have "upgrade_field reg u = set_field_type u full" by (simp add: upgrade_field_def)
  with assms(1) have "fi_type_info u = full" by (metis set_field_type_simps(1))
  with full show False by simp
qed

lemma patch_field_complete:
  assumes IH: "\<And>t r. patch_shallow_fields n reg t = Some r \<Longrightarrow>
      \<forall>f \<in> set (all_fields r). upgrade_field reg f = f"
    and f: "patch_field n reg f0 = Some f"
  shows "upgrade_field reg f = f \<and> (\<forall>g \<in> set (all_fields (fi_type_info f)). upgrade_field reg g = g)"
proof (cases "ti_fields (fi_type_info (upgrade_field reg f0)) = []")
  case True
  with f have "f = upgrade_field reg f0" by (simp add: patch_field_def)
  moreover have "set (all_fields (fi_type_info (upgrade_field reg f0))) = {}"
    by (subst all_fields_set) (simp add: True)
  ultimately show ?thesis by (simp add: upgrade_idem)
next
  case False
  let ?u = "upgrade_field reg f0"
  obtain t' where t': "patch_shallow_fields n reg (fi_type_info ?u) = Some t'"
    and ft: "f = set_field_type ?u t'"
    using f False by (cases "patch_shallow_fields n reg (fi_type_info ?u)") (simp_all add: patch_field_def)
  have "upgrade_field reg f = f"
    unfolding ft using patch_shape [OF t'] by (intro upgrade_stable_type upgrade_idem) simp_all
  with IH [OF t'] show ?thesis by (simp only: ft set_field_type_simps)
qed

lemma patch_complete:
  "patch_shallow_fields n reg t = Some r \<Longrightarrow> \<forall>f \<in> set (all_fields r). upgrade_field reg f = f"
proof (induction n arbitrary: t r)
  case (Suc n)
  obtain fs where r: "r = set_fields t fs" and fs: "map_opt (patch_field n reg) (ti_fields t) = Some fs"
    using Suc.prems by (cases "map_opt (patch_field n reg) (ti_fields t)") (auto simp: patch_Suc)
  have "upgrade_field reg f = f \<and> (\<forall>g \<in> set (all_fields (fi_type_info f)). upgrade_field reg g = g)"
    if f: "f \<in> set fs" for f
  proof -
    obtain i where "i < length (ti_fields t)" "fs ! i = f"
      using f fs unfolding map_opt_Some in_set_conv_nth by metis
    with fs have "patch_field n reg (ti_fields t ! i) = Some f" by (simp add: map_opt_Some)
    then show ?thesis by (rule patch_field_complete [rotated]) (rule Suc.IH)
  qed
  then have "\<forall>f \<in> set fs \<union> (\<Union>f \<in> set fs. set (all_fields (fi_type_info f))). upgrade_field reg f = f"
    by blast
  then show ?case unfolding r all_fields_set [of "set_fields t fs"] set_fields_simps .
qed simp

text \<open>The names of the shallow types inside a type.\<close>

definition shallow_names :: "type_info \<Rightarrow> string set" where
  "shallow_names t = (\<lambda>f. ti_name (fi_type_info f)) ` {f \<in> set (all_fields t). ti_shallow (fi_type_info f)}"

definition registry_ranked :: "(string \<Rightarrow> nat) \<Rightarrow> registry \<Rightarrow> bool" where
  "registry_ranked rank reg \<longleftrightarrow>
     (\<forall>n t. map_of reg n = Some t \<longrightarrow> \<not> ti_shallow t \<longrightarrow> (\<forall>m \<in> shallow_names t. rank m < rank n))"

lemma fuel_for_fields:
  fixes g :: "nat \<Rightarrow> 'a \<Rightarrow> 'b option"
  assumes "\<forall>f \<in> set fs. \<exists>N. \<forall>n \<ge> N. g n f \<noteq> None"
  shows "\<exists>N. \<forall>n \<ge> N. \<forall>f \<in> set fs. g n f \<noteq> None"
  using assms
proof (induction fs)
  case (Cons f fs)
  then obtain N M where "\<forall>n \<ge> N. g n f \<noteq> None" "\<forall>n \<ge> M. \<forall>f \<in> set fs. g n f \<noteq> None" by auto
  then have "\<forall>n \<ge> N + M. \<forall>h \<in> set (f # fs). g n h \<noteq> None" by simp
  then show ?case by blast
qed simp

lemma shallow_names_field:
  assumes "f \<in> set (ti_fields t)"
  shows "shallow_names (fi_type_info f) \<subseteq> shallow_names t"
    and "ti_shallow (fi_type_info f) \<Longrightarrow> ti_name (fi_type_info f) \<in> shallow_names t"
  using assms all_fields_set [of t] unfolding shallow_names_def by blast+

lemma patch_terminates:
  assumes rk: "registry_ranked rank reg"
  shows "(\<forall>m \<in> shallow_names t. rank m < k) \<Longrightarrow> \<exists>N. \<forall>n \<ge> N. patch_shallow_fields n reg t \<noteq> None"
proof (induction k arbitrary: t rule: less_induct)
  case (less k)
  note outer = less.IH
  show ?case using less.prems
  proof (induction t rule: measure_induct_rule [of size])
    case (less t)
    have "\<exists>N. \<forall>n \<ge> N. patch_field n reg f \<noteq> None" if f: "f \<in> set (ti_fields t)" for f
    proof (cases "upgrade_field reg f = f")
      case True
      have "\<forall>m \<in> shallow_names (fi_type_info f). rank m < k"
        using shallow_names_field(1) [OF f] less.prems by blast
      from less.IH [OF fi_size_less [OF f] this] True show ?thesis
        by (simp add: patch_field_def)
    next
      case False
      then obtain full where full: "map_of reg (ti_name (fi_type_info f)) = Some full" "\<not> ti_shallow full"
        and sh: "ti_shallow (fi_type_info f)" and up: "upgrade_field reg f = set_field_type f full"
        by (auto simp: upgrade_field_def split: if_splits option.splits)
      have k: "rank (ti_name (fi_type_info f)) < k"
        using shallow_names_field(2) [OF f sh] less.prems by blast
      have "\<forall>m \<in> shallow_names full. rank m < rank (ti_name (fi_type_info f))"
        using rk full by (simp add: registry_ranked_def)
      from outer [OF k this] show ?thesis by (auto simp: patch_field_def up Let_def)
    qed
    then obtain N where N: "\<forall>n \<ge> N. \<forall>f \<in> set (ti_fields t). patch_field n reg f \<noteq> None"
      using fuel_for_fields [of "ti_fields t" "\<lambda>n. patch_field n reg"] by blast
    have "patch_shallow_fields n reg t \<noteq> None" if "n \<ge> Suc N" for n
    proof -
      from that obtain m where n: "n = Suc m" "m \<ge> N" by (cases n) auto
      with N map_opt_ex [of "ti_fields t" "patch_field m reg"] show ?thesis by (auto simp: patch_Suc)
    qed
    then show ?case by blast
  qed
qed

text \<open>
  When the shallow types reachable through the registry can be ranked (no
  struct contains a shallow copy of itself through other structs), patching a type ends; the
  result has the type's name, size and number of fields, and no field anywhere inside it is a
  shallow stub for which the registry holds a fuller definition.
\<close>

theorem patch_shallow_fields_total:
  assumes "registry_ranked rank reg" and "\<forall>m \<in> shallow_names t. rank m < k"
  shows "\<exists>N. \<forall>n \<ge> N. \<exists>r. patch_shallow_fields n reg t = Some r \<and>
     ti_name r = ti_name t \<and> ti_byte_size r = ti_byte_size t \<and>
     length (ti_fields r) = length (ti_fields t) \<and>
     (\<forall>f \<in> set (all_fields r). upgrade_field reg f = f)"
proof -
  from patch_terminates [OF assms] obtain N
    where N: "\<forall>n \<ge> N. patch_shallow_fields n reg t \<noteq> None" by blast
  have "\<exists>r. patch_shallow_fields n reg t = Some r \<and>
     ti_name r = ti_name t \<and> ti_byte_size r = ti_byte_size t \<and>
     length (ti_fields r) = length (ti_fields t) \<and>
     (\<forall>f \<in> set (all_fields r). upgrade_field reg f = f)" if "n \<ge> N" for n
  proof -
    from N that obtain r where "patch_shallow_fields n reg t = Some r" by blast
    with patch_shape [OF this] patch_complete [OF this] show ?thesis by blast
  qed
  then show ?thesis by blast
qed

text \<open>A field of shallow type \<open>T\<close>, and the registry's definition of \<open>T\<close> with one field.\<close>

definition shallow_T :: type_info where
  "shallow_T = Type_Info ''T'' 8 False False False True []"

definition full_T :: type_info where
  "full_T = Type_Info ''T'' 8 False False False False [Field_Info ''x'' 0 8 ti_unknown 0]"

definition outer_T :: type_info where
  "outer_T = Type_Info ''S'' 8 False False False False [Field_Info ''t'' 0 8 shallow_T 0]"

lemma shallow_names_simps:
  "shallow_names (Type_Info n b p v a s []) = {}"
  "shallow_names (Type_Info n b p v a s (f # fs)) =
     (if ti_shallow (fi_type_info f) then {ti_name (fi_type_info f)} else {}) \<union>
     shallow_names (fi_type_info f) \<union> shallow_names (Type_Info n b p v a s fs)"
  by (simp_all add: shallow_names_def all_fields_set [of "Type_Info n b p v a s []"]
      all_fields_set [of "Type_Info n b p v a s (f # fs)"]
      all_fields_set [of "Type_Info n b p v a s fs"]) blast+

theorem patch_shallow_fields_total_witness:
  "\<exists>N. \<forall>n \<ge> N. \<exists>r. patch_shallow_fields n [(''T'', full_T)] outer_T = Some r \<and>
     length (ti_fields r) = 1"
proof -
  have rk: "registry_ranked (\<lambda>_. 0) [(''T'', full_T)]"
    by (auto simp: registry_ranked_def full_T_def shallow_names_simps ti_unknown_def split: if_splits)
  have "\<forall>m \<in> shallow_names outer_T. (0::nat) < 1" by simp
  from patch_shallow_fields_total [OF rk this] obtain N where
    "\<forall>n \<ge> N. \<exists>r. patch_shallow_fields n [(''T'', full_T)] outer_T = Some r \<and>
       length (ti_fields r) = length (ti_fields outer_T)" by blast
  then show ?thesis by (simp add: outer_T_def) blast
qed

text \<open>
  Without the ranking the recursion does not end: a registry in which a struct contains, by name, a
  shallow copy of itself (two structs of one name, or nested anonymous structs, can lead to it).
\<close>

definition cyclic_T :: type_info where
  "cyclic_T = Type_Info ''T'' 8 False False False False [Field_Info ''t'' 0 8 shallow_T 0]"

lemma patch_cyclic_diverges: "patch_shallow_fields n [(''T'', cyclic_T)] cyclic_T = None"
proof (induction n)
  case (Suc n)
  have "upgrade_field [(''T'', cyclic_T)] (Field_Info ''t'' 0 8 shallow_T 0) =
      Field_Info ''t'' 0 8 cyclic_T 0"
    by code_simp
  with Suc show ?case
    by (simp add: patch_Suc patch_field_def cyclic_T_def)
qed simp


subsection \<open>Materialization\<close>

text \<open>One registry refines another: no entry is lost, deep entries stay, shallow ones only grow.\<close>

definition reg_refines :: "registry \<Rightarrow> registry \<Rightarrow> bool" where
  "reg_refines r r' \<longleftrightarrow>
     (distinct (map fst r) \<longrightarrow> distinct (map fst r')) \<and> length r \<le> length r' \<and>
     (\<forall>n t. map_of r n = Some t \<longrightarrow>
        (\<exists>t'. map_of r' n = Some t' \<and> length (ti_fields t) \<le> length (ti_fields t') \<and>
              (\<not> ti_shallow t \<longrightarrow> t' = t)))"

lemma reg_refines_refl [simp]: "reg_refines r r"
  by (simp add: reg_refines_def)

lemma reg_refines_trans: "reg_refines a b \<Longrightarrow> reg_refines b c \<Longrightarrow> reg_refines a c"
  unfolding reg_refines_def
proof (intro conjI allI impI)
  fix n t
  assume ab: "(distinct (map fst a) \<longrightarrow> distinct (map fst b)) \<and> length a \<le> length b \<and>
      (\<forall>n t. map_of a n = Some t \<longrightarrow> (\<exists>t'. map_of b n = Some t' \<and>
        length (ti_fields t) \<le> length (ti_fields t') \<and> (\<not> ti_shallow t \<longrightarrow> t' = t)))"
    and bc: "(distinct (map fst b) \<longrightarrow> distinct (map fst c)) \<and> length b \<le> length c \<and>
      (\<forall>n t. map_of b n = Some t \<longrightarrow> (\<exists>t'. map_of c n = Some t' \<and>
        length (ti_fields t) \<le> length (ti_fields t') \<and> (\<not> ti_shallow t \<longrightarrow> t' = t)))"
    and t: "map_of a n = Some t"
  from ab t obtain u where u: "map_of b n = Some u" "length (ti_fields t) \<le> length (ti_fields u)"
      "\<not> ti_shallow t \<longrightarrow> u = t" by blast
  from bc u(1) obtain v where v: "map_of c n = Some v" "length (ti_fields u) \<le> length (ti_fields v)"
      "\<not> ti_shallow u \<longrightarrow> v = u" by blast
  from u v have "length (ti_fields t) \<le> length (ti_fields v)" "\<not> ti_shallow t \<longrightarrow> v = t"
    by auto
  with v(1) show "\<exists>t'. map_of c n = Some t' \<and> length (ti_fields t) \<le> length (ti_fields t') \<and>
      (\<not> ti_shallow t \<longrightarrow> t' = t)" by blast
qed auto

lemma length_update: "length r \<le> length (AList.update k v r)"
  by (induction r) auto

lemma reg_refines_update:
  assumes "\<And>t0. map_of r n = Some t0 \<Longrightarrow> ti_shallow t0 \<and> length (ti_fields t0) \<le> length (ti_fields t)"
  shows "reg_refines r (AList.update n t r)"
  unfolding reg_refines_def
proof (intro conjI allI impI)
  fix m t0
  assume t0: "map_of r m = Some t0"
  show "\<exists>t'. map_of (AList.update n t r) m = Some t' \<and>
      length (ti_fields t0) \<le> length (ti_fields t') \<and> (\<not> ti_shallow t0 \<longrightarrow> t' = t0)"
  proof (cases "m = n")
    case True
    with t0 assms [of t0] show ?thesis by (simp add: update_conv')
  next
    case False
    with t0 show ?thesis by (simp add: update_conv')
  qed
qed (simp_all add: length_update distinct_update)

lemma reg_refines_fold:
  assumes "\<And>x r. reg_refines r (f x r)"
  shows "reg_refines r (fold f xs r)"
  by (induction xs arbitrary: r) (auto intro: reg_refines_trans assms)

lemma accel_first_Some:
  "accel_first name ex es = Some t \<Longrightarrow> \<not> ti_shallow t \<and> length (ti_fields ex) \<le> length (ti_fields t)"
  by (induction es) (auto simp: deep_type_def split: if_splits)

lemma scan_best_Some:
  assumes "\<And>b. best = Some b \<Longrightarrow> \<not> ti_shallow b \<and> length (ti_fields ex) \<le> length (ti_fields b)"
  shows "scan_best name ex es best = Some t \<Longrightarrow>
     \<not> ti_shallow t \<and> length (ti_fields ex) \<le> length (ti_fields t)"
  using assms
proof (induction name ex es best rule: scan_best.induct)
  case (2 name ex bs fs es best)
  then show ?case
    by (cases best) (auto simp: deep_type_def split: if_splits)
qed simp

lemma resolve_deep_spec:
  assumes "resolve_deep elf name reg = (reg', ok)"
  shows "reg_refines reg reg' \<and> (ok \<longrightarrow> (\<exists>t. map_of reg' name = Some t \<and> \<not> ti_shallow t)) \<and>
     (\<not> ok \<longrightarrow> reg' = reg)"
proof -
  define ex where "ex = (case map_of reg name of Some ti \<Rightarrow> ti
      | None \<Rightarrow> Type_Info name 0 False False False True [])"
  show ?thesis
  proof (cases "map_of reg name \<noteq> None \<and> \<not> ti_shallow ex")
    case True
    with assms have "reg' = reg" "ok" by (simp_all add: resolve_deep_def ex_def [symmetric])
    with True show ?thesis by (auto simp: ex_def)
  next
    case False
    then have sh: "map_of reg name = Some t0 \<Longrightarrow> t0 = ex \<and> ti_shallow t0" for t0
      by (auto simp: ex_def)
    have upd: "\<not> ti_shallow t \<Longrightarrow> length (ti_fields ex) \<le> length (ti_fields t) \<Longrightarrow>
        reg_refines reg (AList.update name t reg) \<and> map_of (AList.update name t reg) name = Some t" for t
      using sh by (auto intro!: reg_refines_update simp: update_conv')
    have eq: "(case elf of None \<Rightarrow> (reg, False)
         | Some de \<Rightarrow>
             (case accel_first name ex (de_accel de name) of
                Some t \<Rightarrow> (AList.update name t reg, True)
              | None \<Rightarrow>
                  (case scan_best name ex (de_scan de name) None of
                     Some t \<Rightarrow> (AList.update name t reg, True)
                   | None \<Rightarrow> (reg, False)))) = (reg', ok)"
      using assms by (simp only: resolve_deep_def Let_def ex_def [symmetric] if_not_P [OF False])
    have "(reg' = reg \<and> \<not> ok) \<or> (\<exists>t. ok \<and> reg' = AList.update name t reg \<and> \<not> ti_shallow t \<and>
        length (ti_fields ex) \<le> length (ti_fields t))"
    proof (cases elf)
      case None
      with eq show ?thesis by simp
    next
      case (Some de)
      note elf = this
      show ?thesis
      proof (cases "accel_first name ex (de_accel de name)")
        case (Some t)
        with eq elf have "ok" "reg' = AList.update name t reg" by simp_all
        with accel_first_Some [OF Some] show ?thesis by blast
      next
        case None
        note acc = this
        show ?thesis
        proof (cases "scan_best name ex (de_scan de name) None")
          case None
          with eq elf acc show ?thesis by simp
        next
          case (Some t)
          with eq elf acc have "ok" "reg' = AList.update name t reg" by simp_all
          with scan_best_Some [OF _ Some] show ?thesis by blast
        qed
      qed
    qed
    with upd show ?thesis by auto
  qed
qed

lemma ensure_inner_spec:
  "ensure_type_inner left elf name reg = (reg', ok) \<Longrightarrow>
     reg_refines reg reg' \<and> (ok \<longrightarrow> (\<exists>t. map_of reg' name = Some t \<and> \<not> ti_shallow t))"
proof (induction left arbitrary: name reg reg' ok)
  case (Suc left)
  have step: "reg_refines r (fst (ensure_type_inner left elf t r))" for t r
    using Suc.IH [of t r] by (cases "ensure_type_inner left elf t r") auto
  have chase: "reg_refines r (fold (\<lambda>t r. fst (ensure_type_inner left elf t r)) ts r)" for ts r
    by (rule reg_refines_fold) (rule step)
  obtain r1 ok1 where r1: "resolve_deep elf name reg = (r1, ok1)" by fastforce
  note spec = resolve_deep_spec [OF r1]
  have keep: "\<exists>t. map_of r2 name = Some t \<and> \<not> ti_shallow t"
    if "reg_refines r r2" "map_of r name = Some t" "\<not> ti_shallow t" for r r2 t
    using that unfolding reg_refines_def by metis
  define ts where "ts = (case map_of r1 name of Some t \<Rightarrow> pointer_targets r1 t | None \<Rightarrow> [])"
  show ?case
  proof (cases "\<exists>ti. map_of reg name = Some ti \<and> \<not> ti_shallow ti")
    case True
    then obtain ti where ti: "map_of reg name = Some ti" "\<not> ti_shallow ti" by blast
    with Suc.prems chase [of reg "pointer_targets reg ti"] have "reg_refines reg reg'" by auto
    with keep [OF this ti] show ?thesis by simp
  next
    case False
    then have eq: "ensure_type_inner (Suc left) elf name reg =
        (if \<not> ok1 then (r1, False) else (fold (\<lambda>t r. fst (ensure_type_inner left elf t r)) ts r1, True))"
      by (auto simp: r1 ts_def split: option.split)
    show ?thesis
    proof (cases ok1)
      case True
      with eq Suc.prems have "reg' = fold (\<lambda>t r. fst (ensure_type_inner left elf t r)) ts r1"
        by (simp del: ensure_type_inner.simps)
      with chase have "reg_refines r1 reg'" by simp
      moreover from spec True obtain t where "map_of r1 name = Some t" "\<not> ti_shallow t" by blast
      ultimately show ?thesis using spec keep reg_refines_trans by blast
    next
      case False
      with eq Suc.prems spec show ?thesis by (simp del: ensure_type_inner.simps)
    qed
  qed
qed simp

text \<open>
  C13 (invariant).  Materializing a type never loses an entry of the registry, never changes a deep
  one, only replaces a shallow one by one with at least as many fields, and keeps the keys
  distinct; success means the type is now in the registry, and deep; the counter
  \<open>types_materialized\<close> grows by the number of new entries.
\<close>

theorem ensure_type_refines:
  assumes "distinct (map fst reg)" and "ensure_type elf name (reg, c) = ((reg', c'), ok)"
  shows "distinct (map fst reg') \<and>
     (\<forall>n t. map_of reg n = Some t \<longrightarrow>
        (\<exists>t'. map_of reg' n = Some t' \<and> length (ti_fields t) \<le> length (ti_fields t') \<and>
              (\<not> ti_shallow t \<longrightarrow> t' = t))) \<and>
     (ok \<longrightarrow> (\<exists>t. map_of reg' name = Some t \<and> \<not> ti_shallow t) \<and>
            length reg \<le> length reg' \<and> c' = c + of_nat (length reg' - length reg)) \<and>
     (\<not> ok \<longrightarrow> c' = c)"
proof -
  obtain r o' where r: "ensure_type_inner 7 elf name reg = (r, o')" by fastforce
  with assms(2) have e: "r = reg'" "o' = ok"
    and "(ok \<longrightarrow> c' = c + of_nat (length reg' - length reg)) \<and> (\<not> ok \<longrightarrow> c' = c)"
    by (auto simp: ensure_type_def split: bool.splits)
  with ensure_inner_spec [OF r [unfolded e]] assms(1) show ?thesis
    unfolding reg_refines_def by blast
qed

definition one_entry :: dwarf_entries where
  "one_entry = \<lparr>de_accel = (\<lambda>_. []), de_scan = (\<lambda>n. if n = ''T'' then [(8, ti_fields full_T)] else [])\<rparr>"

theorem ensure_type_refines_witness:
  "\<exists>reg' c'. ensure_type (Some one_entry) ''T'' ([(''S'', outer_T)], 4) = ((reg', c'), True) \<and>
     map_of reg' ''S'' = Some outer_T \<and> c' = 5"
proof -
  have e: "ensure_type (Some one_entry) ''T'' ([(''S'', outer_T)], 4) =
      (([(''S'', outer_T), (''T'', full_T)], 5), True)"
    by code_simp
  from ensure_type_refines [OF _ e] have "map_of [(''S'', outer_T), (''T'', full_T)] ''S'' = Some outer_T"
    by simp
  with e show ?thesis by blast
qed

text \<open>Upgrading a shallow entry in place is success but is not counted.\<close>

lemma upgrade_not_counted:
  "ensure_type (Some one_entry) ''T'' ([(''T'', shallow_T)], 4) = (([(''T'', full_T)], 4), True)"
  by code_simp


subsection \<open>Harvesting\<close>

definition reg_covers :: "registry \<Rightarrow> string \<Rightarrow> nat \<Rightarrow> bool" where
  "reg_covers reg n k \<longleftrightarrow> (\<exists>t. map_of reg n = Some t \<and> k \<le> length (ti_fields t))"

lemma reg_merge_covers: "reg_covers reg n k \<Longrightarrow> reg_covers (reg_merge t reg) n k"
  by (auto simp: reg_covers_def reg_merge_def update_conv' split: option.split)

lemma reg_merge_self: "reg_covers (reg_merge t reg) (ti_name t) (length (ti_fields t))"
  by (auto simp: reg_covers_def reg_merge_def update_conv' split: option.split)

lemma fold_covers:
  assumes "\<And>x r. x \<in> set xs \<Longrightarrow> reg_covers r n k \<Longrightarrow> reg_covers (f x r) n k"
  shows "reg_covers r n k \<Longrightarrow> reg_covers (fold f xs r) n k"
  using assms by (induction xs arbitrary: r) auto

lemma fold_covers_mem:
  assumes "\<And>x r. x \<in> set xs \<Longrightarrow> reg_covers r n k \<Longrightarrow> reg_covers (f x r) n k"
    and "y \<in> set xs" and "\<And>r. reg_covers (f y r) n k"
  shows "reg_covers (fold f xs r) n k"
proof -
  from assms(2) obtain as bs where xs: "xs = as @ y # bs" by (meson split_list)
  with assms show ?thesis by (auto intro: fold_covers)
qed

definition harvest_fields :: "type_info \<Rightarrow> registry \<Rightarrow> registry" where
  "harvest_fields t reg = fold (\<lambda>f r. register_recursive (fi_type_info f) r) (ti_fields t)
     (if named_type t then reg_merge t reg else reg)"

lemma register_cases:
  obtains "register_recursive t reg = harvest_fields t reg"
  | pf where "pf \<in> set (ti_fields t)"
      "register_recursive t reg = register_recursive (fi_type_info pf) (harvest_fields t reg)"
proof (cases "find (\<lambda>f. fi_name f = ''<pointee>'') (ti_fields t)")
  case None
  have "register_recursive t reg = harvest_fields t reg"
    unfolding register_recursive.simps [of t reg] harvest_fields_def [symmetric] Let_def
    by (simp only: None option.case if_cancel)
  then show thesis by (rule that(1))
next
  case (Some pf)
  have "register_recursive t reg = harvest_fields t reg \<or>
      register_recursive t reg = register_recursive (fi_type_info pf) (harvest_fields t reg)"
    unfolding register_recursive.simps [of t reg] harvest_fields_def [symmetric] Let_def
    by (simp only: Some option.case split: if_split) blast
  with that find_mem [OF Some] show thesis by blast
qed

lemma register_covers: "reg_covers reg n k \<Longrightarrow> reg_covers (register_recursive t reg) n k"
proof (induction t arbitrary: reg rule: measure_induct_rule [of size])
  case (less t)
  have "reg_covers (harvest_fields t reg) n k"
    unfolding harvest_fields_def
    by (rule fold_covers) (auto intro: less.IH fi_size_less less.prems reg_merge_covers)
  then show ?case
    by (cases t reg rule: register_cases) (simp_all add: less.IH fi_size_less)
qed

lemma harvest_covers:
  assumes "s = t \<and> named_type t \<or> (\<exists>f \<in> set (ti_fields t). \<forall>r. reg_covers (register_recursive (fi_type_info f) r) (ti_name s) (length (ti_fields s)))"
  shows "reg_covers (harvest_fields t reg) (ti_name s) (length (ti_fields s))"
  using assms
proof
  assume "s = t \<and> named_type t"
  then show ?thesis unfolding harvest_fields_def
    by (intro fold_covers register_covers) (auto simp: reg_merge_self)
next
  assume "\<exists>f \<in> set (ti_fields t). \<forall>r. reg_covers (register_recursive (fi_type_info f) r) (ti_name s) (length (ti_fields s))"
  then obtain f where "f \<in> set (ti_fields t)"
    "\<And>r. reg_covers (register_recursive (fi_type_info f) r) (ti_name s) (length (ti_fields s))" by blast
  then show ?thesis unfolding harvest_fields_def
    by (intro fold_covers_mem [where f = "\<lambda>f. register_recursive (fi_type_info f)", OF register_covers])
qed

lemma sub_types_iff: "s \<in> set (sub_types t) \<longleftrightarrow> s = t \<or> (\<exists>f \<in> set (ti_fields t). s \<in> set (sub_types (fi_type_info f)))"
  by (subst sub_types.simps) auto

text \<open>
  Harvesting a type into the registry records every named type occurring
  anywhere inside it, at least as completely as it occurs, and never makes an entry less complete.
\<close>

theorem register_recursive_harvests:
  "(\<forall>s \<in> set (sub_types t). named_type s \<longrightarrow>
      (\<exists>e. map_of (register_recursive t reg) (ti_name s) = Some e \<and>
           length (ti_fields s) \<le> length (ti_fields e))) \<and>
   (\<forall>n e. map_of reg n = Some e \<longrightarrow>
      (\<exists>e'. map_of (register_recursive t reg) n = Some e' \<and>
            length (ti_fields e) \<le> length (ti_fields e')))"
proof (intro conjI ballI allI impI)
  fix s
  assume "s \<in> set (sub_types t)" "named_type s"
  then have "reg_covers (register_recursive t r) (ti_name s) (length (ti_fields s))" for r
  proof (induction t arbitrary: r rule: measure_induct_rule [of size])
    case (less t)
    have "reg_covers (harvest_fields t r) (ti_name s) (length (ti_fields s))"
    proof (rule harvest_covers)
      from less.prems sub_types_iff [of s t]
      consider "s = t" | f where "f \<in> set (ti_fields t)" "s \<in> set (sub_types (fi_type_info f))" by blast
      then show "s = t \<and> named_type t \<or> (\<exists>f \<in> set (ti_fields t). \<forall>r.
          reg_covers (register_recursive (fi_type_info f) r) (ti_name s) (length (ti_fields s)))"
        using less.IH [OF fi_size_less] less.prems(2) by cases blast+
    qed
    then show ?case by (cases t r rule: register_cases) (simp_all add: register_covers)
  qed
  then show "\<exists>e. map_of (register_recursive t reg) (ti_name s) = Some e \<and>
      length (ti_fields s) \<le> length (ti_fields e)"
    by (simp add: reg_covers_def)
next
  fix n e
  assume "map_of reg n = Some e"
  then have "reg_covers reg n (length (ti_fields e))" by (simp add: reg_covers_def)
  from register_covers [OF this] show "\<exists>e'. map_of (register_recursive t reg) n = Some e' \<and>
      length (ti_fields e) \<le> length (ti_fields e')"
    by (simp add: reg_covers_def)
qed

theorem register_recursive_harvests_witness:
  "\<exists>e. map_of (register_recursive outer_T [(''T'', full_T)]) ''S'' = Some e \<and> 1 \<le> length (ti_fields e)"
proof -
  have "outer_T \<in> set (sub_types outer_T)" "named_type outer_T"
    by (subst sub_types_iff, simp, code_simp)
  with register_recursive_harvests [of outer_T "[(''T'', full_T)]"]
  obtain e where "map_of (register_recursive outer_T [(''T'', full_T)]) (ti_name outer_T) = Some e"
    "length (ti_fields outer_T) \<le> length (ti_fields e)" by blast
  then show ?thesis by (simp add: outer_T_def)
qed

end
