(* ===== verification/Addr_Index.thy ===== *)
theory Addr_Index
  imports Dwarf_Info
begin

text \<open>
  \<^verbatim>\<open>engine/src/index.rs\<close>: the index from addresses to variables.  Globals and their fields are a
  vector sorted by lower end, the locals of the active frames a map from frames to vectors, and an
  eight-slot cache of recent hits stands before both.

  The frame map is an association list in the iteration order of the \<open>HashMap\<close>.
  \<open>sort_unstable_by_key\<close> is taken as a stable sort; what is proved of a lookup holds for any order
  of entries with equal lower ends.
\<close>

type_synonym frame_id = u64

datatype node_id = N_Global u32 | N_Field u32 u16 | N_Local frame_id u16

record var_meta =
  vm_name :: string
  vm_type_info :: type_info
  vm_node_id :: node_id

record interval =
  iv_lo :: u64
  iv_hi :: u64
  iv_meta :: var_meta

record lookup_result =
  lr_name :: string
  lr_type_info :: type_info
  lr_node_id :: node_id
  lr_offset_in_var :: u64

definition MRU_SLOTS :: nat where "MRU_SLOTS = 8"

datatype mru_entry =
    Mru_Static (mru_lo: u64) (mru_hi: u64) (mru_idx: nat)
  | Mru_Dynamic (mru_lo: u64) (mru_hi: u64) (mru_frame: frame_id) (mru_local: nat)

definition mru_contains :: "mru_entry \<Rightarrow> u64 \<Rightarrow> bool" where
  "mru_contains e a \<longleftrightarrow> mru_lo e \<le> a \<and> a < mru_hi e"

record address_index =
  ai_statics :: "interval list"
  ai_statics_sorted :: bool
  ai_dynamics :: "(frame_id \<times> interval list) list"
  ai_mru :: "mru_entry option list"
  ai_mru_len :: nat
  ai_universe_lo :: u64
  ai_universe_hi :: u64

definition ai_new :: address_index where
  "ai_new = \<lparr>ai_statics = [], ai_statics_sorted = True, ai_dynamics = [],
     ai_mru = replicate MRU_SLOTS None, ai_mru_len = 0, ai_universe_lo = - 1, ai_universe_hi = 0\<rparr>"

fun node_rank :: "node_id \<Rightarrow> nat" where
  "node_rank (N_Local _ _) = 2"
| "node_rank (N_Field _ _) = 1"
| "node_rank (N_Global _) = 0"

definition widen_universe :: "u64 \<Rightarrow> u64 \<Rightarrow> address_index \<Rightarrow> address_index" where
  "widen_universe lo hi ai =
     ai\<lparr>ai_universe_lo := (if lo < ai_universe_lo ai then lo else ai_universe_lo ai),
        ai_universe_hi := (if ai_universe_hi ai < hi then hi else ai_universe_hi ai)\<rparr>"

definition push_static :: "interval \<Rightarrow> address_index \<Rightarrow> address_index" where
  "push_static iv ai =
     widen_universe (iv_lo iv) (iv_hi iv)
       (ai\<lparr>ai_statics := ai_statics ai @ [iv], ai_statics_sorted := False, ai_mru_len := 0\<rparr>)"

definition ai_insert_global ::
  "u64 \<Rightarrow> u64 \<Rightarrow> string \<Rightarrow> type_info \<Rightarrow> u32 \<Rightarrow> address_index \<Rightarrow> address_index" where
  "ai_insert_global addr sz name ti g ai =
     (if sz = 0 then ai
      else push_static \<lparr>iv_lo = addr, iv_hi = addr + sz,
             iv_meta = \<lparr>vm_name = name, vm_type_info = ti, vm_node_id = N_Global g\<rparr>\<rparr> ai)"

definition ai_insert_field ::
  "u64 \<Rightarrow> u64 \<Rightarrow> string \<Rightarrow> type_info \<Rightarrow> u32 \<Rightarrow> u16 \<Rightarrow> address_index \<Rightarrow> address_index" where
  "ai_insert_field addr sz name ti g f ai =
     (if sz = 0 then ai
      else push_static \<lparr>iv_lo = addr, iv_hi = addr + sz,
             iv_meta = \<lparr>vm_name = name, vm_type_info = ti, vm_node_id = N_Field g f\<rparr>\<rparr> ai)"

text \<open>A local is given by its frame offset, size, name and type.\<close>

type_synonym frame_local = "i64 \<times> u64 \<times> string \<times> type_info"

definition local_intervals :: "frame_id \<Rightarrow> u64 \<Rightarrow> frame_local list \<Rightarrow> interval list" where
  "local_intervals fid base locals =
     map (\<lambda>(li, off, sz, name, ti).
            \<lparr>iv_lo = base + off, iv_hi = base + off + sz,
             iv_meta = \<lparr>vm_name = name, vm_type_info = ti, vm_node_id = N_Local fid (of_nat li)\<rparr>\<rparr>)
       (filter (\<lambda>(li, off, sz, _). sz \<noteq> 0) (enumerate 0 locals))"

definition insert_frame_locals ::
  "frame_id \<Rightarrow> u64 \<Rightarrow> frame_local list \<Rightarrow> address_index \<Rightarrow> address_index" where
  "insert_frame_locals fid base locals ai =
     (let ivs = local_intervals fid base locals;
          ai1 = fold (\<lambda>iv. widen_universe (iv_lo iv) (iv_hi iv)) ivs ai;
          ai2 = (if ivs \<noteq> [] then ai1\<lparr>ai_dynamics := AList.update fid ivs (ai_dynamics ai1)\<rparr> else ai1)
      in ai2\<lparr>ai_mru_len := 0\<rparr>)"

definition remove_frame :: "frame_id \<Rightarrow> address_index \<Rightarrow> address_index" where
  "remove_frame fid ai = ai\<lparr>ai_dynamics := AList.delete fid (ai_dynamics ai), ai_mru_len := 0\<rparr>"

definition ai_finalize :: "address_index \<Rightarrow> address_index" where
  "ai_finalize ai =
     (if \<not> ai_statics_sorted ai
      then ai\<lparr>ai_statics := sort_key iv_lo (ai_statics ai), ai_statics_sorted := True, ai_mru_len := 0\<rparr>
      else ai)"

definition in_universe :: "u64 \<Rightarrow> address_index \<Rightarrow> bool" where
  "in_universe a ai \<longleftrightarrow> ai_universe_lo ai \<le> a \<and> a < ai_universe_hi ai"


subsection \<open>Lookup\<close>

definition iv_covers :: "u64 \<Rightarrow> interval \<Rightarrow> bool" where
  "iv_covers a iv \<longleftrightarrow> iv_lo iv \<le> a \<and> a < iv_hi iv"

definition iv_span :: "interval \<Rightarrow> u64" where
  "iv_span iv = iv_hi iv - iv_lo iv"

text \<open>The scan of the frames keeps the first interval of the least span.\<close>

definition dyn_step ::
  "u64 \<Rightarrow> frame_id \<times> nat \<times> interval \<Rightarrow> (frame_id \<times> nat \<times> interval) option
     \<Rightarrow> (frame_id \<times> nat \<times> interval) option" where
  "dyn_step a c best =
     (case c of (fid, li, iv) \<Rightarrow>
        if iv_covers a iv \<and>
           (case best of None \<Rightarrow> True | Some (_, _, prev) \<Rightarrow> iv_span iv < iv_span prev)
        then Some (fid, li, iv) else best)"

definition dyn_entries :: "(frame_id \<times> interval list) list \<Rightarrow> (frame_id \<times> nat \<times> interval) list" where
  "dyn_entries ds = concat (map (\<lambda>(fid, ivs). map (\<lambda>(li, iv). (fid, li, iv)) (enumerate 0 ivs)) ds)"

definition lookup_dynamics :: "u64 \<Rightarrow> address_index \<Rightarrow> (frame_id \<times> nat \<times> u64 \<times> u64) option" where
  "lookup_dynamics a ai =
     map_option (\<lambda>(fid, li, iv). (fid, li, iv_lo iv, iv_hi iv))
       (fold (dyn_step a) (dyn_entries (ai_dynamics ai)) None)"

definition partition_point :: "('a \<Rightarrow> bool) \<Rightarrow> 'a list \<Rightarrow> nat" where
  "partition_point p xs = length (takeWhile p xs)"

definition iv_better :: "interval \<Rightarrow> interval \<Rightarrow> bool" where
  "iv_better iv prev \<longleftrightarrow>
     node_rank (vm_node_id (iv_meta prev)) < node_rank (vm_node_id (iv_meta iv)) \<or>
     node_rank (vm_node_id (iv_meta iv)) = node_rank (vm_node_id (iv_meta prev)) \<and> iv_span iv < iv_span prev"

primrec statics_loop :: "interval list \<Rightarrow> u64 \<Rightarrow> nat \<Rightarrow> nat option \<Rightarrow> nat option" where
  "statics_loop xs a 0 best =
     (let iv = xs ! 0 in
      if a < iv_lo iv then best
      else if a < iv_hi iv \<and> (case best of None \<Rightarrow> True | Some j \<Rightarrow> iv_better iv (xs ! j)) then Some 0
      else best)"
| "statics_loop xs a (Suc i) best =
     (let iv = xs ! Suc i in
      if a < iv_lo iv then best
      else
        (let best' = (if a < iv_hi iv \<and> (case best of None \<Rightarrow> True | Some j \<Rightarrow> iv_better iv (xs ! j))
                      then Some (Suc i) else best)
         in if iv_lo (xs ! i) < iv_lo iv then best' else statics_loop xs a i best'))"

definition lookup_statics :: "u64 \<Rightarrow> address_index \<Rightarrow> (nat \<times> u64 \<times> u64) option" where
  "lookup_statics a ai =
     (let xs = ai_statics ai; idx = partition_point (\<lambda>iv. iv_lo iv \<le> a) xs in
      if idx = 0 then None
      else map_option (\<lambda>i. (i, iv_lo (xs ! i), iv_hi (xs ! i))) (statics_loop xs a (idx - 1) None))"

definition push_mru :: "mru_entry \<Rightarrow> address_index \<Rightarrow> address_index" where
  "push_mru e ai =
     (let len = min (ai_mru_len ai) (MRU_SLOTS - 1) in
      ai\<lparr>ai_mru := Some e # take len (ai_mru ai) @ drop (len + 1) (ai_mru ai),
         ai_mru_len := min (ai_mru_len ai + 1) MRU_SLOTS\<rparr>)"

definition promote :: "nat \<Rightarrow> 'a list \<Rightarrow> 'a list" where
  "promote slot xs = xs ! slot # take slot xs @ drop (slot + 1) xs"

definition lr_of :: "interval \<Rightarrow> u64 \<Rightarrow> lookup_result" where
  "lr_of iv off = \<lparr>lr_name = vm_name (iv_meta iv), lr_type_info = vm_type_info (iv_meta iv),
     lr_node_id = vm_node_id (iv_meta iv), lr_offset_in_var = off\<rparr>"

definition get_nth :: "nat \<Rightarrow> 'a list \<Rightarrow> 'a option" where
  "get_nth i xs = (if i < length xs then Some (xs ! i) else None)"

definition resolve_mru :: "mru_entry option \<Rightarrow> u64 \<Rightarrow> u64 \<Rightarrow> address_index \<Rightarrow> lookup_result option" where
  "resolve_mru e a lo ai =
     (case e of None \<Rightarrow> None
      | Some (Mru_Static _ _ idx) \<Rightarrow> map_option (\<lambda>iv. lr_of iv (a - lo)) (get_nth idx (ai_statics ai))
      | Some (Mru_Dynamic _ _ fid li) \<Rightarrow>
          (case map_of (ai_dynamics ai) fid of None \<Rightarrow> None
           | Some ivs \<Rightarrow> map_option (\<lambda>iv. lr_of iv (a - lo)) (get_nth li ivs)))"

text \<open>The first slot below \<open>mru_len\<close> whose entry contains the address.\<close>

definition mru_hit :: "u64 \<Rightarrow> address_index \<Rightarrow> nat option" where
  "mru_hit a ai =
     find (\<lambda>i. case ai_mru ai ! i of Some e \<Rightarrow> mru_contains e a | None \<Rightarrow> False) [0..<ai_mru_len ai]"

definition ai_lookup :: "u64 \<Rightarrow> address_index \<Rightarrow> address_index \<times> lookup_result option" where
  "ai_lookup a ai =
     (if a < ai_universe_lo ai \<or> ai_universe_hi ai \<le> a then (ai, None)
      else
        (case mru_hit a ai of
           Some slot \<Rightarrow>
             (let ai' = (if 0 < slot then ai\<lparr>ai_mru := promote slot (ai_mru ai)\<rparr> else ai) in
              (ai', resolve_mru (ai_mru ai' ! 0) a (mru_lo (the (ai_mru ai ! slot))) ai'))
         | None \<Rightarrow>
             (case lookup_dynamics a ai of
                Some (fid, li, lo, hi) \<Rightarrow>
                  (let ai' = push_mru (Mru_Dynamic lo hi fid li) ai;
                       iv = the (map_of (ai_dynamics ai) fid) ! li
                   in (ai', Some (lr_of iv (a - iv_lo iv))))
              | None \<Rightarrow>
                  (case lookup_statics a ai of
                     Some (idx, lo, hi) \<Rightarrow>
                       (let ai' = push_mru (Mru_Static lo hi idx) ai; iv = ai_statics ai ! idx
                        in (ai', Some (lr_of iv (a - iv_lo iv))))
                   | None \<Rightarrow> (ai, None)))))"


subsection \<open>The scan of the statics\<close>

lemma partition_point_nth:
  "i < partition_point p xs \<Longrightarrow> i < length xs \<and> p (xs ! i)"
  unfolding partition_point_def by (metis nth_mem set_takeWhileD takeWhile_nth length_takeWhile_le order_less_le_trans)

lemma iv_better_trans: "iv_better a b \<Longrightarrow> iv_better b c \<Longrightarrow> iv_better a c"
  by (auto simp: iv_better_def)

lemma iv_better_asym: "iv_better a b \<Longrightarrow> \<not> iv_better b a"
  by (auto simp: iv_better_def)

lemma not_better_trans: "\<not> iv_better b a \<Longrightarrow> \<not> iv_better c b \<Longrightarrow> \<not> iv_better c a"
  by (auto simp: iv_better_def)

definition start_group :: "interval list \<Rightarrow> u64 \<Rightarrow> nat \<Rightarrow> nat set" where
  "start_group xs a i = {j. j \<le> i \<and> iv_lo (xs ! j) = iv_lo (xs ! i) \<and> a < iv_hi (xs ! j)}"

definition best_of :: "interval list \<Rightarrow> nat set \<Rightarrow> nat option \<Rightarrow> bool" where
  "best_of xs G r \<longleftrightarrow>
     (case r of None \<Rightarrow> G = {} | Some k \<Rightarrow> k \<in> G \<and> (\<forall>j \<in> G. \<not> iv_better (xs ! j) (xs ! k)))"

definition better_pick :: "interval list \<Rightarrow> u64 \<Rightarrow> nat \<Rightarrow> nat option \<Rightarrow> nat option" where
  "better_pick xs a i best =
     (if a < iv_hi (xs ! i) \<and> (case best of None \<Rightarrow> True | Some j \<Rightarrow> iv_better (xs ! i) (xs ! j))
      then Some i else best)"

lemma better_pick_best:
  assumes "best_of xs G best"
  shows "best_of xs (G \<union> (if a < iv_hi (xs ! i) then {i} else {})) (better_pick xs a i best)"
proof (cases best)
  case None
  with assms show ?thesis by (auto simp: best_of_def better_pick_def dest: iv_better_asym)
next
  case (Some k)
  have "\<not> iv_better (xs ! i) (xs ! i)" by (simp add: iv_better_def)
  with Some assms show ?thesis
    by (auto simp: best_of_def better_pick_def intro: iv_better_trans dest: iv_better_asym)
qed

lemma statics_loop_unfold:
  "statics_loop xs a i best =
     (if a < iv_lo (xs ! i) then best
      else if i = 0 \<or> iv_lo (xs ! (i - 1)) < iv_lo (xs ! i) then better_pick xs a i best
      else statics_loop xs a (i - 1) (better_pick xs a i best))"
  by (cases i) (auto simp: Let_def better_pick_def)

lemma statics_loop_best:
  assumes sorted: "sorted (map iv_lo xs)" and "i < length xs" "iv_lo (xs ! i) \<le> a" "best_of xs G best"
  shows "best_of xs (G \<union> start_group xs a i) (statics_loop xs a i best)"
  using assms(2-4)
proof (induction i arbitrary: G best)
  case 0
  have "start_group xs a 0 = (if a < iv_hi (xs ! 0) then {0} else {})"
    by (auto simp: start_group_def)
  with better_pick_best [OF 0(3), of a 0] 0(2) leD [OF 0(2)] show ?case
    by (simp add: statics_loop_unfold [of xs a 0] del: statics_loop.simps)
next
  case (Suc i)
  have le: "iv_lo (xs ! i) \<le> iv_lo (xs ! Suc i)"
    using sorted_nth_mono [OF sorted, of i "Suc i"] Suc.prems(1) by simp
  have pick: "best_of xs (G \<union> (if a < iv_hi (xs ! Suc i) then {Suc i} else {})) (better_pick xs a (Suc i) best)"
    by (rule better_pick_best [OF Suc.prems(3)])
  show ?case
  proof (cases "iv_lo (xs ! i) < iv_lo (xs ! Suc i)")
    case True
    have "iv_lo (xs ! j) \<le> iv_lo (xs ! i)" if "j \<le> i" for j
      using sorted_nth_mono [OF sorted that] Suc.prems(1) that by simp
    with True have "iv_lo (xs ! j) \<noteq> iv_lo (xs ! Suc i)" if "j \<le> i" for j
      using that by (metis leD)
    then have "start_group xs a (Suc i) = (if a < iv_hi (xs ! Suc i) then {Suc i} else {})"
      by (auto simp: start_group_def le_Suc_eq)
    with pick True Suc.prems(2) leD [OF Suc.prems(2)] show ?thesis
      by (simp add: statics_loop_unfold [of xs a "Suc i"] del: statics_loop.simps)
  next
    case False
    with le have eq: "iv_lo (xs ! i) = iv_lo (xs ! Suc i)" by simp
    have "start_group xs a (Suc i) = (if a < iv_hi (xs ! Suc i) then {Suc i} else {}) \<union> start_group xs a i"
      by (auto simp: start_group_def le_Suc_eq eq)
    then have G: "G \<union> start_group xs a (Suc i) =
        (G \<union> (if a < iv_hi (xs ! Suc i) then {Suc i} else {})) \<union> start_group xs a i" by blast
    have "best_of xs ((G \<union> (if a < iv_hi (xs ! Suc i) then {Suc i} else {})) \<union> start_group xs a i)
        (statics_loop xs a i (better_pick xs a (Suc i) best))"
      using Suc.prems eq by (intro Suc.IH pick) simp_all
    then show ?thesis
      unfolding G using False Suc.prems(2) leD [OF Suc.prems(2)] by (simp add: statics_loop_unfold [of xs a "Suc i"] del: statics_loop.simps)
  qed
qed

lemma partition_point_sorted:
  assumes "sorted (map iv_lo xs)" "i < length xs"
  shows "i < partition_point (\<lambda>iv. iv_lo iv \<le> a) xs \<longleftrightarrow> iv_lo (xs ! i) \<le> a"
proof
  assume "iv_lo (xs ! i) \<le> a"
  with assms show "i < partition_point (\<lambda>iv. iv_lo iv \<le> a) xs"
  proof (induction xs arbitrary: i)
    case (Cons x xs)
    show ?case
    proof (cases i)
      case 0
      with Cons show ?thesis by (simp add: partition_point_def)
    next
      case (Suc j)
      with Cons.prems have "iv_lo x \<le> iv_lo (xs ! j)" by simp
      also have "\<dots> \<le> a" using Cons.prems Suc by simp
      finally have "iv_lo x \<le> a" .
      with Cons.IH [of j] Cons.prems Suc show ?thesis by (simp add: partition_point_def)
    qed
  qed simp
qed (use partition_point_nth in blast)

text \<open>An entry starts latest for an address when no entry at or below the address starts later.\<close>

definition starts_latest :: "u64 \<Rightarrow> interval list \<Rightarrow> interval \<Rightarrow> bool" where
  "starts_latest a xs iv \<longleftrightarrow>
     iv \<in> set xs \<and> iv_lo iv \<le> a \<and> (\<forall>jv \<in> set xs. iv_lo jv \<le> a \<longrightarrow> iv_lo jv \<le> iv_lo iv)"

lemma starts_latest_index:
  assumes sorted: "sorted (map iv_lo xs)" and p: "partition_point (\<lambda>iv. iv_lo iv \<le> a) xs = Suc i"
    and j: "j < length xs"
  shows "starts_latest a xs (xs ! j) \<longleftrightarrow> j \<le> i \<and> iv_lo (xs ! j) = iv_lo (xs ! i)"
proof -
  from partition_point_nth [of i "\<lambda>iv. iv_lo iv \<le> a" xs] p have i: "i < length xs" "iv_lo (xs ! i) \<le> a"
    by simp_all
  have pp: "k \<le> i \<longleftrightarrow> iv_lo (xs ! k) \<le> a" if "k < length xs" for k
    using partition_point_sorted [OF sorted that, of a] by (simp add: p less_Suc_eq_le)
  have mono: "iv_lo (xs ! k) \<le> iv_lo (xs ! i)" if "k \<le> i" for k
    using sorted_nth_mono [OF sorted that] i that by simp
  show ?thesis
  proof
    assume "starts_latest a xs (xs ! j)"
    then have le: "iv_lo (xs ! j) \<le> a" and late: "iv_lo (xs ! i) \<le> iv_lo (xs ! j)"
      using i by (simp_all add: starts_latest_def)
    from le have "j \<le> i" using pp [OF j] by simp
    with late mono [OF this] show "j \<le> i \<and> iv_lo (xs ! j) = iv_lo (xs ! i)" by simp
  next
    assume ji: "j \<le> i \<and> iv_lo (xs ! j) = iv_lo (xs ! i)"
    have "iv_lo jv \<le> iv_lo (xs ! j)" if "jv \<in> set xs" "iv_lo jv \<le> a" for jv
      using that ji pp mono by (metis in_set_conv_nth)
    with ji i j show "starts_latest a xs (xs ! j)" by (simp add: starts_latest_def)
  qed
qed

text \<open>
  On a sorted table the scan of the statics answers exactly among the entries
  that start latest at or below the address: an entry that covers the address, and of those one of
  the highest rank (fields before globals) and, within the rank, of the least span; and nothing
  only when none of them covers it.
\<close>

theorem lookup_statics_exact:
  assumes "sorted (map iv_lo (ai_statics ai))"
  shows "(case lookup_statics a ai of
      None \<Rightarrow> \<forall>iv. starts_latest a (ai_statics ai) iv \<longrightarrow> \<not> iv_covers a iv
    | Some (i, lo, hi) \<Rightarrow> i < length (ai_statics ai) \<and>
        starts_latest a (ai_statics ai) (ai_statics ai ! i) \<and> iv_covers a (ai_statics ai ! i) \<and>
        lo = iv_lo (ai_statics ai ! i) \<and> hi = iv_hi (ai_statics ai ! i) \<and>
        (\<forall>iv. starts_latest a (ai_statics ai) iv \<longrightarrow> iv_covers a iv \<longrightarrow> \<not> iv_better iv (ai_statics ai ! i)))"
proof (cases "partition_point (\<lambda>iv. iv_lo iv \<le> a) (ai_statics ai)")
  case 0
  have "\<not> iv_lo iv \<le> a" if "iv \<in> set (ai_statics ai)" for iv
    using that partition_point_sorted [OF assms, of _ a] 0 by (metis in_set_conv_nth less_nat_zero_code)
  with 0 show ?thesis by (auto simp: lookup_statics_def starts_latest_def)
next
  case (Suc i)
  let ?xs = "ai_statics ai"
  from partition_point_nth [of i "\<lambda>iv. iv_lo iv \<le> a" ?xs] Suc
  have i: "i < length ?xs" "iv_lo (?xs ! i) \<le> a" by simp_all
  note latest = starts_latest_index [OF assms Suc]
  have "best_of ?xs {} None" by (simp add: best_of_def)
  from statics_loop_best [OF assms i this]
  have best: "best_of ?xs (start_group ?xs a i) (statics_loop ?xs a i None)" by simp
  have group: "j \<in> start_group ?xs a i \<longleftrightarrow> starts_latest a ?xs (?xs ! j) \<and> iv_covers a (?xs ! j)"
    if "j < length ?xs" for j
    using latest [OF that] by (auto simp: start_group_def iv_covers_def starts_latest_def)
  have mem: "\<exists>j \<in> start_group ?xs a i. iv = ?xs ! j"
    if "starts_latest a ?xs iv" "iv_covers a iv" for iv
    using that group by (metis starts_latest_def in_set_conv_nth)
  show ?thesis
  proof (cases "statics_loop ?xs a i None")
    case None
    with best mem Suc show ?thesis by (auto simp: lookup_statics_def best_of_def)
  next
    case (Some k)
    with best have k: "k \<in> start_group ?xs a i" "\<forall>j \<in> start_group ?xs a i. \<not> iv_better (?xs ! j) (?xs ! k)"
      by (simp_all add: best_of_def)
    then have len: "k < length ?xs" using i by (simp add: start_group_def)
    with group k(1) have "starts_latest a ?xs (?xs ! k)" "iv_covers a (?xs ! k)" by simp_all
    with Some Suc len k(2) mem show ?thesis by (auto simp: lookup_statics_def Let_def)
  qed
qed

definition two_globals :: address_index where
  "two_globals = ai_finalize (ai_insert_global 32 8 ''b'' ti_unknown 1 (ai_insert_global 16 8 ''a'' ti_unknown 0 ai_new))"

theorem lookup_statics_exact_witness:
  "lookup_statics 20 two_globals = Some (0, 16, 24) \<and> iv_covers 20 (ai_statics two_globals ! 0)"
proof -
  have so: "sorted (map iv_lo (ai_statics two_globals))" by code_simp
  have e: "lookup_statics 20 two_globals = Some (0, 16, 24)" by code_simp
  from lookup_statics_exact [OF so, of 20] e show ?thesis by simp
qed


subsection \<open>The scan of the frames\<close>

abbreviation cand_covers :: "u64 \<Rightarrow> frame_id \<times> nat \<times> interval \<Rightarrow> bool" where
  "cand_covers a c \<equiv> iv_covers a (snd (snd c))"

lemma dyn_step_Some: "dyn_step a c best = Some d \<Longrightarrow> best = Some d \<or> d = c \<and> cand_covers a c"
  by (cases c) (auto simp: dyn_step_def split: if_splits)

lemma dyn_step_None: "dyn_step a c best = None \<Longrightarrow> best = None \<and> \<not> cand_covers a c"
  by (cases c) (auto simp: dyn_step_def split: if_splits)

lemma dyn_fold_Some:
  "fold (dyn_step a) cs best = Some d \<Longrightarrow> best = Some d \<or> d \<in> set cs \<and> cand_covers a d"
proof (induction cs arbitrary: best)
  case (Cons c cs)
  then have "dyn_step a c best = Some d \<or> d \<in> set cs \<and> cand_covers a d" by simp
  then show ?case using dyn_step_Some [of a c best d] by auto
qed simp

lemma dyn_fold_None:
  "fold (dyn_step a) cs best = None \<Longrightarrow> best = None \<and> (\<forall>c \<in> set cs. \<not> cand_covers a c)"
proof (induction cs arbitrary: best)
  case (Cons c cs)
  then have "dyn_step a c best = None" "\<forall>c \<in> set cs. \<not> cand_covers a c" by auto
  then show ?case using dyn_step_None [of a c best] by auto
qed simp

lemma dyn_entries_mem:
  assumes "distinct (map fst ds)"
  shows "(fid, li, iv) \<in> set (dyn_entries ds) \<longleftrightarrow>
     (\<exists>ivs. map_of ds fid = Some ivs \<and> li < length ivs \<and> ivs ! li = iv)"
proof -
  have "(fid, li, iv) \<in> set (dyn_entries ds) \<longleftrightarrow>
      (\<exists>ivs. (fid, ivs) \<in> set ds \<and> (li, iv) \<in> set (enumerate 0 ivs))"
    unfolding dyn_entries_def by force
  also have "\<dots> \<longleftrightarrow> (\<exists>ivs. map_of ds fid = Some ivs \<and> li < length ivs \<and> ivs ! li = iv)"
    using assms by (simp add: in_set_enumerate_eq map_of_eq_Some_iff)
  finally show ?thesis .
qed


subsection \<open>The invariant\<close>

definition registered :: "address_index \<Rightarrow> interval set" where
  "registered ai = set (ai_statics ai) \<union> (\<Union>ivs \<in> ran (map_of (ai_dynamics ai)). set ivs)"

definition mru_valid :: "address_index \<Rightarrow> mru_entry \<Rightarrow> bool" where
  "mru_valid ai e =
     (case e of
        Mru_Static lo hi idx \<Rightarrow>
          (case get_nth idx (ai_statics ai) of None \<Rightarrow> False | Some iv \<Rightarrow> lo = iv_lo iv \<and> hi = iv_hi iv)
      | Mru_Dynamic lo hi fid li \<Rightarrow>
          (case map_of (ai_dynamics ai) fid of None \<Rightarrow> False
           | Some ivs \<Rightarrow>
               (case get_nth li ivs of None \<Rightarrow> False | Some iv \<Rightarrow> lo = iv_lo iv \<and> hi = iv_hi iv)))"

definition mru_slot_ok :: "address_index \<Rightarrow> mru_entry option \<Rightarrow> bool" where
  "mru_slot_ok ai e = (case e of None \<Rightarrow> False | Some e \<Rightarrow> mru_valid ai e)"

definition ai_inv :: "address_index \<Rightarrow> bool" where
  "ai_inv ai \<longleftrightarrow>
     length (ai_mru ai) = MRU_SLOTS \<and> ai_mru_len ai \<le> MRU_SLOTS \<and>
     list_all (mru_slot_ok ai) (take (ai_mru_len ai) (ai_mru ai)) \<and>
     distinct (map fst (ai_dynamics ai)) \<and>
     (ai_statics_sorted ai \<longrightarrow> sorted (map iv_lo (ai_statics ai))) \<and>
     (\<forall>iv \<in> registered ai. ai_universe_lo ai \<le> iv_lo iv \<and> iv_hi iv \<le> ai_universe_hi ai)"

lemma widen_fields [simp]:
  "ai_statics (widen_universe l h ai) = ai_statics ai" "ai_dynamics (widen_universe l h ai) = ai_dynamics ai"
  "ai_mru (widen_universe l h ai) = ai_mru ai" "ai_mru_len (widen_universe l h ai) = ai_mru_len ai"
  "ai_statics_sorted (widen_universe l h ai) = ai_statics_sorted ai"
  by (simp_all add: widen_universe_def)

lemma widen_bounds:
  "ai_universe_lo (widen_universe l h ai) \<le> ai_universe_lo ai" "ai_universe_hi ai \<le> ai_universe_hi (widen_universe l h ai)"
  "ai_universe_lo (widen_universe l h ai) \<le> l" "h \<le> ai_universe_hi (widen_universe l h ai)"
  by (auto simp: widen_universe_def)

lemma fold_widen_fields [simp]:
  "ai_statics (fold (\<lambda>iv. widen_universe (iv_lo iv) (iv_hi iv)) ivs ai) = ai_statics ai"
  "ai_dynamics (fold (\<lambda>iv. widen_universe (iv_lo iv) (iv_hi iv)) ivs ai) = ai_dynamics ai"
  "ai_mru (fold (\<lambda>iv. widen_universe (iv_lo iv) (iv_hi iv)) ivs ai) = ai_mru ai"
  "ai_statics_sorted (fold (\<lambda>iv. widen_universe (iv_lo iv) (iv_hi iv)) ivs ai) = ai_statics_sorted ai"
  by (induction ivs arbitrary: ai) simp_all

lemma fold_widen_bounds:
  "ai_universe_lo (fold (\<lambda>iv. widen_universe (iv_lo iv) (iv_hi iv)) ivs ai) \<le> ai_universe_lo ai \<and>
   ai_universe_hi ai \<le> ai_universe_hi (fold (\<lambda>iv. widen_universe (iv_lo iv) (iv_hi iv)) ivs ai) \<and>
   (\<forall>iv \<in> set ivs. ai_universe_lo (fold (\<lambda>iv. widen_universe (iv_lo iv) (iv_hi iv)) ivs ai) \<le> iv_lo iv \<and>
      iv_hi iv \<le> ai_universe_hi (fold (\<lambda>iv. widen_universe (iv_lo iv) (iv_hi iv)) ivs ai))"
proof (induction ivs arbitrary: ai)
  case (Cons iv ivs)
  from Cons.IH [of "widen_universe (iv_lo iv) (iv_hi iv) ai"] widen_bounds [where l = "iv_lo iv" and h = "iv_hi iv" and ai = ai]
  show ?case by (auto intro: order_trans)
qed simp

lemma ai_inv_new: "ai_inv ai_new"
  by (simp add: ai_inv_def ai_new_def registered_def)

lemma ai_inv_push_static:
  assumes "ai_inv ai"
  shows "ai_inv (push_static iv ai)"
proof -
  have "registered (push_static iv ai) = insert iv (registered ai)"
    by (simp add: registered_def push_static_def)
  moreover have "ai_universe_lo (push_static iv ai) \<le> ai_universe_lo ai"
    "ai_universe_hi ai \<le> ai_universe_hi (push_static iv ai)"
    "ai_universe_lo (push_static iv ai) \<le> iv_lo iv" "iv_hi iv \<le> ai_universe_hi (push_static iv ai)"
    using widen_bounds [where l = "iv_lo iv" and h = "iv_hi iv" and
        ai = "ai\<lparr>ai_statics := ai_statics ai @ [iv], ai_statics_sorted := False, ai_mru_len := 0\<rparr>"]
    by (simp_all add: push_static_def)
  ultimately have "\<forall>jv \<in> registered (push_static iv ai).
      ai_universe_lo (push_static iv ai) \<le> iv_lo jv \<and> iv_hi jv \<le> ai_universe_hi (push_static iv ai)"
    using assms unfolding ai_inv_def by (metis insert_iff order_trans)
  then show ?thesis using assms by (simp add: ai_inv_def push_static_def)
qed

lemma ai_inv_insert:
  "ai_inv ai \<Longrightarrow> ai_inv (ai_insert_global a sz n ti g ai)"
  "ai_inv ai \<Longrightarrow> ai_inv (ai_insert_field a sz n ti g f ai)"
  by (simp_all add: ai_insert_global_def ai_insert_field_def ai_inv_push_static)

lemma ai_inv_frame:
  assumes "ai_inv ai"
  shows "ai_inv (insert_frame_locals fid base locals ai)"
proof -
  let ?ivs = "local_intervals fid base locals"
  let ?w = "fold (\<lambda>iv. widen_universe (iv_lo iv) (iv_hi iv)) ?ivs ai"
  let ?r = "insert_frame_locals fid base locals ai"
  have u: "ai_universe_lo ?r = ai_universe_lo ?w" "ai_universe_hi ?r = ai_universe_hi ?w"
    by (simp_all add: insert_frame_locals_def Let_def)
  have "registered ?r \<subseteq> registered ai \<union> set ?ivs"
    by (auto simp: registered_def insert_frame_locals_def Let_def update_conv' ran_def split: if_splits)
  then have "\<forall>iv \<in> registered ?r. ai_universe_lo ?r \<le> iv_lo iv \<and> iv_hi iv \<le> ai_universe_hi ?r"
    unfolding u using fold_widen_bounds [of ?ivs ai] assms unfolding ai_inv_def
    by (meson UnE order_trans subsetD)
  moreover have "distinct (map fst (ai_dynamics ?r))"
    using assms by (simp add: ai_inv_def insert_frame_locals_def Let_def distinct_update)
  ultimately show ?thesis
    using assms by (simp add: ai_inv_def insert_frame_locals_def Let_def)
qed

lemma ai_inv_remove: "ai_inv ai \<Longrightarrow> ai_inv (remove_frame fid ai)"
proof -
  assume inv: "ai_inv ai"
  have "registered (remove_frame fid ai) \<subseteq> registered ai"
    by (auto simp: registered_def remove_frame_def delete_conv' ran_def split: if_splits)
  with inv show ?thesis by (auto simp: ai_inv_def remove_frame_def distinct_delete)
qed

lemma ai_inv_finalize: "ai_inv ai \<Longrightarrow> ai_inv (ai_finalize ai)"
  by (auto simp: ai_inv_def ai_finalize_def registered_def)

lemma mru_slot_ok_cong:
  "ai_statics ai' = ai_statics ai \<Longrightarrow> ai_dynamics ai' = ai_dynamics ai \<Longrightarrow> mru_slot_ok ai' = mru_slot_ok ai"
  unfolding mru_slot_ok_def [abs_def] mru_valid_def [abs_def] by simp

lemma registered_cong:
  "ai_statics ai' = ai_statics ai \<Longrightarrow> ai_dynamics ai' = ai_dynamics ai \<Longrightarrow> registered ai' = registered ai"
  by (simp add: registered_def)

lemma take_promote:
  assumes "slot < n" "n \<le> length xs"
  shows "set (take n (promote slot xs)) \<subseteq> set (take n xs)"
proof
  fix x
  assume "x \<in> set (take n (promote slot xs))"
  then have "x = xs ! slot \<or> x \<in> set (take slot xs) \<or> x \<in> set (take (n - Suc slot) (drop (Suc slot) xs))"
    using assms by (cases n) (auto simp: promote_def)
  then consider "x = xs ! slot" | i where "i < slot" "x = xs ! i" | i where "i < n - Suc slot" "x = xs ! (Suc slot + i)"
    using assms by (auto simp: in_set_conv_nth)
  then have "\<exists>j < n. x = xs ! j"
  proof cases
    case 1
    with assms show ?thesis by blast
  next
    case (2 i)
    then show ?thesis using assms by (intro exI [of _ i]) simp
  next
    case (3 i)
    then show ?thesis by (intro exI [of _ "Suc slot + i"]) simp
  qed
  then show "x \<in> set (take n xs)"
    using assms by (auto simp: in_set_conv_nth)
qed

lemma length_promote [simp]: "slot < length xs \<Longrightarrow> length (promote slot xs) = length xs"
  by (simp add: promote_def)

lemma mru_hit_Some:
  assumes "ai_inv ai" "mru_hit a ai = Some slot"
  shows "slot < ai_mru_len ai \<and> slot < length (ai_mru ai) \<and>
     (\<exists>e. ai_mru ai ! slot = Some e \<and> mru_valid ai e \<and> mru_lo e \<le> a \<and> a < mru_hi e)"
proof -
  from find_sat [OF assms(2) [unfolded mru_hit_def]]
  have slot: "slot < ai_mru_len ai"
    and hit: "case ai_mru ai ! slot of Some e \<Rightarrow> mru_contains e a | None \<Rightarrow> False"
    by auto
  from hit obtain e where e: "ai_mru ai ! slot = Some e" "mru_contains e a"
    by (cases "ai_mru ai ! slot") auto
  have len: "slot < length (ai_mru ai)" using slot assms(1) by (simp add: ai_inv_def)
  then have "ai_mru ai ! slot \<in> set (take (ai_mru_len ai) (ai_mru ai))"
    using slot by (auto simp: in_set_conv_nth intro!: exI [of _ slot])
  then have "mru_slot_ok ai (ai_mru ai ! slot)"
    using assms(1) by (auto simp: ai_inv_def list_all_iff)
  with e slot len show ?thesis by (simp add: mru_slot_ok_def mru_contains_def)
qed

lemma resolve_valid:
  assumes "mru_valid ai e" "mru_lo e \<le> a" "a < mru_hi e"
  shows "\<exists>iv \<in> registered ai. iv_covers a iv \<and> resolve_mru (Some e) a (mru_lo e) ai = Some (lr_of iv (a - iv_lo iv))"
proof (cases e)
  case (Mru_Static lo hi idx)
  with assms obtain iv where "get_nth idx (ai_statics ai) = Some iv" "lo = iv_lo iv" "hi = iv_hi iv"
    by (auto simp: mru_valid_def split: option.splits)
  with Mru_Static assms show ?thesis
    by (auto simp: resolve_mru_def registered_def iv_covers_def get_nth_def split: if_splits intro!: bexI [of _ iv])
next
  case (Mru_Dynamic lo hi fid li)
  with assms obtain ivs iv where f: "map_of (ai_dynamics ai) fid = Some ivs" and g: "get_nth li ivs = Some iv"
    and lh: "lo = iv_lo iv" "hi = iv_hi iv"
    by (auto simp: mru_valid_def split: option.splits)
  from g have "iv \<in> set ivs" by (auto simp: get_nth_def split: if_splits)
  with f have "iv \<in> registered ai" by (auto simp: registered_def ran_def)
  with f g lh Mru_Dynamic assms show ?thesis
    by (auto simp: resolve_mru_def iv_covers_def intro!: bexI [of _ iv])
qed

lemma push_mru_fields [simp]:
  "ai_statics (push_mru e ai) = ai_statics ai" "ai_dynamics (push_mru e ai) = ai_dynamics ai"
  "ai_statics_sorted (push_mru e ai) = ai_statics_sorted ai"
  "ai_universe_lo (push_mru e ai) = ai_universe_lo ai" "ai_universe_hi (push_mru e ai) = ai_universe_hi ai"
  "ai_mru_len (push_mru e ai) = min (ai_mru_len ai + 1) MRU_SLOTS"
  by (simp_all add: push_mru_def Let_def)

lemma push_mru_length: "length (ai_mru ai) = MRU_SLOTS \<Longrightarrow> length (ai_mru (push_mru e ai)) = MRU_SLOTS"
  by (simp add: push_mru_def Let_def MRU_SLOTS_def)

lemma push_mru_take:
  assumes "length (ai_mru ai) = MRU_SLOTS" "ai_mru_len ai \<le> MRU_SLOTS"
  shows "set (take (ai_mru_len (push_mru e ai)) (ai_mru (push_mru e ai)))
     \<subseteq> insert (Some e) (set (take (ai_mru_len ai) (ai_mru ai)))"
proof -
  let ?len = "min (ai_mru_len ai) (MRU_SLOTS - 1)"
  have "ai_mru (push_mru e ai) = Some e # take ?len (ai_mru ai) @ drop (?len + 1) (ai_mru ai)"
    by (simp add: push_mru_def Let_def)
  moreover have "ai_mru_len (push_mru e ai) \<le> Suc ?len"
    by (simp add: MRU_SLOTS_def)
  moreover have "length (take ?len (ai_mru ai)) = ?len"
    using assms by (simp add: MRU_SLOTS_def)
  ultimately have "set (take (ai_mru_len (push_mru e ai)) (ai_mru (push_mru e ai)))
      \<subseteq> set (take (Suc ?len) (Some e # take ?len (ai_mru ai) @ drop (?len + 1) (ai_mru ai)))"
    by (metis set_take_subset_set_take)
  also have "\<dots> = insert (Some e) (set (take ?len (ai_mru ai)))"
    using \<open>length (take ?len (ai_mru ai)) = ?len\<close> by simp
  also have "\<dots> \<subseteq> insert (Some e) (set (take (ai_mru_len ai) (ai_mru ai)))"
    by (intro insert_mono set_take_subset_set_take) simp
  finally show ?thesis .
qed

lemma ai_inv_push_mru:
  assumes inv: "ai_inv ai" and e: "mru_valid ai e"
  shows "ai_inv (push_mru e ai)"
proof -
  have eq: "mru_slot_ok (push_mru e ai) = mru_slot_ok ai" "registered (push_mru e ai) = registered ai"
    by (rule mru_slot_ok_cong registered_cong; simp)+
  have "\<forall>x \<in> insert (Some e) (set (take (ai_mru_len ai) (ai_mru ai))). mru_slot_ok ai x"
    using inv e by (simp add: ai_inv_def list_all_iff mru_slot_ok_def)
  then have "list_all (mru_slot_ok ai) (take (ai_mru_len (push_mru e ai)) (ai_mru (push_mru e ai)))"
    using push_mru_take [of ai e] inv unfolding ai_inv_def list_all_iff by blast
  then show ?thesis
    using inv push_mru_length [of ai e] unfolding ai_inv_def eq push_mru_fields by simp
qed

lemma lookup_dynamics_Some:
  assumes "ai_inv ai" "lookup_dynamics a ai = Some (fid, li, lo, hi)"
  shows "\<exists>ivs. map_of (ai_dynamics ai) fid = Some ivs \<and> li < length ivs \<and>
     lo = iv_lo (ivs ! li) \<and> hi = iv_hi (ivs ! li) \<and> iv_covers a (ivs ! li)"
proof -
  from assms(2) obtain iv where f: "fold (dyn_step a) (dyn_entries (ai_dynamics ai)) None = Some (fid, li, iv)"
    and lh: "lo = iv_lo iv" "hi = iv_hi iv"
    by (auto simp: lookup_dynamics_def)
  from dyn_fold_Some [OF f] have "(fid, li, iv) \<in> set (dyn_entries (ai_dynamics ai))" "iv_covers a iv" by auto
  with lh assms(1) show ?thesis by (auto simp: dyn_entries_mem ai_inv_def)
qed

lemma lookup_dynamics_None:
  assumes "ai_inv ai" "lookup_dynamics a ai = None" "ivs \<in> ran (map_of (ai_dynamics ai))" "iv \<in> set ivs"
  shows "\<not> iv_covers a iv"
proof -
  from assms(2) have f: "fold (dyn_step a) (dyn_entries (ai_dynamics ai)) None = None"
    by (simp add: lookup_dynamics_def)
  from assms(3,4) obtain fid li where "map_of (ai_dynamics ai) fid = Some ivs" "li < length ivs" "ivs ! li = iv"
    by (auto simp: ran_def in_set_conv_nth)
  then have "(fid, li, iv) \<in> set (dyn_entries (ai_dynamics ai))"
    using assms(1) by (auto simp: dyn_entries_mem ai_inv_def)
  with dyn_fold_None [OF f] show ?thesis by auto
qed


subsection \<open>Looking up an address\<close>

lemma ai_inv_promote:
  assumes inv: "ai_inv ai" and slot: "slot < ai_mru_len ai"
  shows "ai_inv (ai\<lparr>ai_mru := promote slot (ai_mru ai)\<rparr>)"
proof -
  let ?r = "ai\<lparr>ai_mru := promote slot (ai_mru ai)\<rparr>"
  have eq: "mru_slot_ok ?r = mru_slot_ok ai" "registered ?r = registered ai"
    by (rule mru_slot_ok_cong registered_cong; simp)+
  have len: "ai_mru_len ai \<le> length (ai_mru ai)" using inv by (simp add: ai_inv_def)
  have "list_all (mru_slot_ok ai) (take (ai_mru_len ai) (promote slot (ai_mru ai)))"
    using take_promote [OF slot len] inv unfolding ai_inv_def list_all_iff by blast
  then show ?thesis
    using inv slot len unfolding ai_inv_def eq by simp
qed

text \<open>What a lookup may answer, over the intervals that are registered.\<close>

definition lookup_ok :: "u64 \<Rightarrow> address_index \<Rightarrow> lookup_result option \<Rightarrow> bool" where
  "lookup_ok a ai r \<longleftrightarrow>
     (case r of
        Some lr \<Rightarrow> \<exists>iv \<in> registered ai. iv_covers a iv \<and> lr = lr_of iv (a - iv_lo iv)
      | None \<Rightarrow>
          (\<forall>ivs \<in> ran (map_of (ai_dynamics ai)). \<forall>iv \<in> set ivs. \<not> iv_covers a iv) \<and>
          (ai_statics_sorted ai \<longrightarrow> (\<forall>iv. starts_latest a (ai_statics ai) iv \<longrightarrow> \<not> iv_covers a iv)))"

lemma lookup_hit:
  assumes inv: "ai_inv ai" and u: "in_universe a ai" and hit: "mru_hit a ai = Some slot"
    and l: "ai_lookup a ai = (ai', r)"
  shows "ai_inv ai' \<and> ai_statics ai' = ai_statics ai \<and> ai_dynamics ai' = ai_dynamics ai \<and> lookup_ok a ai r"
proof -
  from mru_hit_Some [OF inv hit] obtain e where slot: "slot < ai_mru_len ai" "slot < length (ai_mru ai)"
    and e: "ai_mru ai ! slot = Some e" "mru_valid ai e" "mru_lo e \<le> a" "a < mru_hi e" by blast
  define ai1 where "ai1 = (if 0 < slot then ai\<lparr>ai_mru := promote slot (ai_mru ai)\<rparr> else ai)"
  from u have "\<not> (a < ai_universe_lo ai \<or> ai_universe_hi ai \<le> a)"
    by (auto simp: in_universe_def)
  then have "ai_lookup a ai = (ai1, resolve_mru (ai_mru ai1 ! 0) a (mru_lo e) ai1)"
    using hit e(1) by (simp add: ai_lookup_def Let_def ai1_def)
  moreover have "ai_mru ai1 ! 0 = Some e"
    using e(1) by (cases "slot = 0") (simp_all add: ai1_def promote_def)
  moreover have same: "ai_statics ai1 = ai_statics ai" "ai_dynamics ai1 = ai_dynamics ai"
    by (simp_all add: ai1_def)
  moreover have "resolve_mru (Some e) a (mru_lo e) ai1 = resolve_mru (Some e) a (mru_lo e) ai"
    unfolding resolve_mru_def same ..
  ultimately have r: "r = resolve_mru (Some e) a (mru_lo e) ai" and ai': "ai' = ai1"
    using l by simp_all
  have "ai_inv ai1"
    using inv ai_inv_promote [OF inv slot(1)] by (simp add: ai1_def)
  with resolve_valid [OF e(2-4)] same show ?thesis
    by (auto simp: r ai' lookup_ok_def)
qed

lemma lookup_dynamic:
  assumes inv: "ai_inv ai" and d: "lookup_dynamics a ai = Some (fid, li, lo, hi)"
  shows "ai_inv (push_mru (Mru_Dynamic lo hi fid li) ai) \<and>
     (\<exists>iv \<in> registered ai. iv_covers a iv \<and> iv = the (map_of (ai_dynamics ai) fid) ! li)"
proof -
  from lookup_dynamics_Some [OF inv d] obtain ivs where f: "map_of (ai_dynamics ai) fid = Some ivs"
    "li < length ivs" "lo = iv_lo (ivs ! li)" "hi = iv_hi (ivs ! li)" "iv_covers a (ivs ! li)" by blast
  then have "mru_valid ai (Mru_Dynamic lo hi fid li)"
    by (simp add: mru_valid_def get_nth_def)
  moreover have "ivs ! li \<in> registered ai"
    using f(1,2) by (auto simp: registered_def ran_def)
  ultimately show ?thesis using f(1,5) ai_inv_push_mru [OF inv] by auto
qed

lemma lookup_static:
  assumes inv: "ai_inv ai" and so: "ai_statics_sorted ai" and s: "lookup_statics a ai = Some (i, lo, hi)"
  shows "ai_inv (push_mru (Mru_Static lo hi i) ai) \<and>
     (\<exists>iv \<in> registered ai. iv_covers a iv \<and> iv = ai_statics ai ! i)"
proof -
  have "sorted (map iv_lo (ai_statics ai))" using inv so by (simp add: ai_inv_def)
  from lookup_statics_exact [OF this, of a] s
  have i: "i < length (ai_statics ai)" "iv_covers a (ai_statics ai ! i)"
    "lo = iv_lo (ai_statics ai ! i)" "hi = iv_hi (ai_statics ai ! i)" by simp_all
  then have "mru_valid ai (Mru_Static lo hi i)" by (simp add: mru_valid_def get_nth_def)
  with i ai_inv_push_mru [OF inv] show ?thesis by (auto simp: registered_def)
qed

lemma lookup_miss:
  assumes "in_universe a ai" "mru_hit a ai = None"
  shows "lookup_dynamics a ai = Some (fid, li, lo, hi) \<Longrightarrow> ai_lookup a ai =
      (push_mru (Mru_Dynamic lo hi fid li) ai,
       Some (lr_of (the (map_of (ai_dynamics ai) fid) ! li) (a - iv_lo (the (map_of (ai_dynamics ai) fid) ! li))))"
    and "lookup_dynamics a ai = None \<Longrightarrow> lookup_statics a ai = Some (i, lo, hi) \<Longrightarrow> ai_lookup a ai =
      (push_mru (Mru_Static lo hi i) ai, Some (lr_of (ai_statics ai ! i) (a - iv_lo (ai_statics ai ! i))))"
    and "lookup_dynamics a ai = None \<Longrightarrow> lookup_statics a ai = None \<Longrightarrow> ai_lookup a ai = (ai, None)"
proof -
  from assms(1) have "\<not> (a < ai_universe_lo ai \<or> ai_universe_hi ai \<le> a)"
    by (auto simp: in_universe_def)
  then show "lookup_dynamics a ai = Some (fid, li, lo, hi) \<Longrightarrow> ai_lookup a ai =
      (push_mru (Mru_Dynamic lo hi fid li) ai,
       Some (lr_of (the (map_of (ai_dynamics ai) fid) ! li) (a - iv_lo (the (map_of (ai_dynamics ai) fid) ! li))))"
    "lookup_dynamics a ai = None \<Longrightarrow> lookup_statics a ai = Some (i, lo, hi) \<Longrightarrow> ai_lookup a ai =
      (push_mru (Mru_Static lo hi i) ai, Some (lr_of (ai_statics ai ! i) (a - iv_lo (ai_statics ai ! i))))"
    "lookup_dynamics a ai = None \<Longrightarrow> lookup_statics a ai = None \<Longrightarrow> ai_lookup a ai = (ai, None)"
    using assms(2) by (simp_all add: ai_lookup_def Let_def)
qed

lemma lookup_spec:
  assumes inv: "ai_inv ai" and so: "ai_statics_sorted ai" and l: "ai_lookup a ai = (ai', r)"
  shows "ai_inv ai' \<and> ai_statics ai' = ai_statics ai \<and> ai_dynamics ai' = ai_dynamics ai \<and> lookup_ok a ai r"
proof (cases "in_universe a ai")
  case False
  then have "ai' = ai" "r = None"
    using l by (auto simp: ai_lookup_def in_universe_def split: if_splits)
  moreover have "\<not> iv_covers a iv" if "iv \<in> registered ai" for iv
    using that inv False by (auto simp: ai_inv_def in_universe_def iv_covers_def)
  ultimately show ?thesis using inv
    by (auto simp: lookup_ok_def registered_def starts_latest_def)
next
  case True
  show ?thesis
  proof (cases "mru_hit a ai")
    case (Some slot)
    from lookup_hit [OF inv True Some l] show ?thesis .
  next
    case miss: None
    show ?thesis
    proof (cases "lookup_dynamics a ai")
      case (Some d)
      obtain fid li lo hi where d: "d = (fid, li, lo, hi)" by (cases d)
      with Some have s: "lookup_dynamics a ai = Some (fid, li, lo, hi)" by simp
      show ?thesis
        using lookup_dynamic [OF inv s] lookup_miss(1) [OF True miss s] l
        by (auto simp: lookup_ok_def)
    next
      case nodyn: None
      have dyn: "\<not> iv_covers a iv" if "ivs \<in> ran (map_of (ai_dynamics ai))" "iv \<in> set ivs" for ivs iv
        by (rule lookup_dynamics_None [OF inv nodyn that])
      show ?thesis
      proof (cases "lookup_statics a ai")
        case (Some d)
        obtain i lo hi where d: "d = (i, lo, hi)" by (cases d)
        with Some have s: "lookup_statics a ai = Some (i, lo, hi)" by simp
        show ?thesis
          using lookup_static [OF inv so s] lookup_miss(2) [OF True miss nodyn s] l
          by (auto simp: lookup_ok_def)
      next
        case None
        have "sorted (map iv_lo (ai_statics ai))" using inv so by (simp add: ai_inv_def)
        from lookup_statics_exact [OF this, of a] None
        have "\<forall>iv. starts_latest a (ai_statics ai) iv \<longrightarrow> \<not> iv_covers a iv" by simp
        moreover have "ai' = ai" "r = None"
          using l lookup_miss(3) [OF True miss nodyn None] by simp_all
        ultimately show ?thesis using inv dyn by (simp add: lookup_ok_def)
      qed
    qed
  qed
qed

datatype ai_op =
    A_global u64 u64 string type_info u32
  | A_field u64 u64 string type_info u32 u16
  | A_frame frame_id u64 "frame_local list"
  | A_remove frame_id
  | A_finalize
  | A_lookup u64

fun ai_apply :: "ai_op \<Rightarrow> address_index \<Rightarrow> address_index" where
  "ai_apply (A_global a sz n ti g) ai = ai_insert_global a sz n ti g ai"
| "ai_apply (A_field a sz n ti g f) ai = ai_insert_field a sz n ti g f ai"
| "ai_apply (A_frame fid base locals) ai = insert_frame_locals fid base locals ai"
| "ai_apply (A_remove fid) ai = remove_frame fid ai"
| "ai_apply A_finalize ai = ai_finalize ai"
| "ai_apply (A_lookup a) ai = (if ai_statics_sorted ai then fst (ai_lookup a ai) else ai)"

lemma ai_inv_apply: "ai_inv ai \<Longrightarrow> ai_inv (ai_apply op ai)"
proof (cases op)
  case (A_lookup a)
  assume "ai_inv ai"
  then show ?thesis
    using A_lookup lookup_spec [of ai a "fst (ai_lookup a ai)" "snd (ai_lookup a ai)"] by simp
qed (simp_all add: ai_inv_insert ai_inv_frame ai_inv_remove ai_inv_finalize)

lemma ai_inv_reachable: "ai_inv (fold ai_apply ops ai_new)"
proof -
  have "ai_inv ai \<Longrightarrow> ai_inv (fold ai_apply ops ai)" for ai
    by (induction ops arbitrary: ai) (simp_all add: ai_inv_apply)
  then show ?thesis using ai_inv_new .
qed

text \<open>
  C14 (invariant).  After any sequence of insertions, frame removals, finalizations and lookups
  that are made on a finalized index, a lookup on a finalized index answers with a registered
  interval that covers the address, its node and the offset of the address in it, whether the
  answer comes from the cache, the frames or the statics; it answers nothing only when no frame
  interval, and no static among those that start latest, covers the address; and it leaves the
  registered intervals as they are.
\<close>

theorem ai_lookup_sound:
  assumes "ai_statics_sorted (fold ai_apply ops ai_new)"
    and "ai_lookup a (fold ai_apply ops ai_new) = (ai', r)"
  shows "lookup_ok a (fold ai_apply ops ai_new) r \<and>
     ai_statics ai' = ai_statics (fold ai_apply ops ai_new) \<and>
     ai_dynamics ai' = ai_dynamics (fold ai_apply ops ai_new)"
  using lookup_spec [OF ai_inv_reachable assms] by simp

definition nested_ops :: "ai_op list" where
  "nested_ops = [A_global 16 16 ''g'' ti_unknown 0, A_field 20 4 ''g.f'' ti_unknown 0 0, A_finalize]"

theorem ai_lookup_sound_witness:
  "lookup_ok 21 (fold ai_apply nested_ops ai_new) (snd (ai_lookup 21 (fold ai_apply nested_ops ai_new))) \<and>
   map_option lr_node_id (snd (ai_lookup 21 (fold ai_apply nested_ops ai_new))) = Some (N_Field 0 0)"
proof -
  have so: "ai_statics_sorted (fold ai_apply nested_ops ai_new)" by code_simp
  have e: "map_option lr_node_id (snd (ai_lookup 21 (fold ai_apply nested_ops ai_new))) = Some (N_Field 0 0)"
    by code_simp
  from ai_lookup_sound [OF so prod.collapse [symmetric], of 21] e show ?thesis by simp
qed

text \<open>
  With nested intervals the answer depends on what was looked up before: the cache keeps the
  enclosing global, and serves it for an address of the field.
\<close>

lemma mru_history_dependent:
  "map_option lr_node_id (snd (ai_lookup 21 (fold ai_apply nested_ops ai_new))) = Some (N_Field 0 0) \<and>
   map_option lr_node_id (snd (ai_lookup 21 (fold ai_apply (nested_ops @ [A_lookup 16]) ai_new))) = Some (N_Global 0)"
  by (rule conjI; code_simp)

text \<open>An address of the global beyond its last field's start is not found at all.\<close>

lemma tail_of_global_missed:
  "snd (ai_lookup 28 (fold ai_apply nested_ops ai_new)) = None \<and>
   (\<exists>iv \<in> registered (fold ai_apply nested_ops ai_new). iv_covers 28 iv)"
proof
  show "snd (ai_lookup 28 (fold ai_apply nested_ops ai_new)) = None" by code_simp
  have "\<exists>iv \<in> set (ai_statics (fold ai_apply nested_ops ai_new)). iv_covers 28 iv" by code_simp
  then show "\<exists>iv \<in> registered (fold ai_apply nested_ops ai_new). iv_covers 28 iv"
    by (auto simp: registered_def)
qed

end
