(* ===== verification/Alloc_Tracker.thy ===== *)
theory Alloc_Tracker
  imports Addr_Index
begin

text \<open>
  \<open>HeapAllocTracker\<close> of \<^verbatim>\<open>engine/src/world.rs\<close>: the live heap allocations, by base address, each with
  its size and the number of the allocation.  An allocation covers the addresses from its base to
  its base plus its size, saturating at the end of the address space.
\<close>

record size_mismatch =
  sm_addr :: u64
  sm_alloc_size :: u64
  sm_type_size :: u64
  sm_type_name :: string

record alloc_tracker =
  at_allocs :: "(u64, u64 \<times> u64) btree_map"
  at_total_allocs :: u64
  at_total_frees :: u64
  at_orphan_frees :: u64
  at_size_mismatches :: "size_mismatch list"

definition at_new :: alloc_tracker where
  "at_new = \<lparr>at_allocs = [], at_total_allocs = 0, at_total_frees = 0, at_orphan_frees = 0,
     at_size_mismatches = []\<rparr>"

definition on_alloc :: "u64 \<Rightarrow> u64 \<Rightarrow> alloc_tracker \<Rightarrow> alloc_tracker \<times> u64 option" where
  "on_alloc a sz t =
     (t\<lparr>at_allocs := bt_insert a (sz, at_total_allocs t) (at_allocs t),
        at_total_allocs := at_total_allocs t + 1\<rparr>,
      map_option fst (bt_get (at_allocs t) a))"

definition on_free :: "u64 \<Rightarrow> alloc_tracker \<Rightarrow> alloc_tracker \<times> u64 option" where
  "on_free a t =
     (let r = bt_get (at_allocs t) a in
      (t\<lparr>at_total_frees := at_total_frees t + 1, at_allocs := bt_remove a (at_allocs t),
         at_orphan_frees := (if r = None then at_orphan_frees t + 1 else at_orphan_frees t)\<rparr>,
       map_option fst r))"

definition alloc_size :: "alloc_tracker \<Rightarrow> u64 \<Rightarrow> u64 option" where
  "alloc_size t a = map_option fst (bt_get (at_allocs t) a)"

definition alloc_seq :: "alloc_tracker \<Rightarrow> u64 \<Rightarrow> u64 option" where
  "alloc_seq t a = map_option snd (bt_get (at_allocs t) a)"

definition live_count :: "alloc_tracker \<Rightarrow> nat" where
  "live_count t = length (at_allocs t)"

definition alloc_upper :: "u64 \<Rightarrow> u64 \<times> u64 \<Rightarrow> u64" where
  "alloc_upper base v = sat_add base (fst v)"

definition containing_alloc :: "alloc_tracker \<Rightarrow> u64 \<Rightarrow> (u64 \<times> u64) option" where
  "containing_alloc t a =
     map_option (\<lambda>(base, v). (base, fst v)) (bt_cover alloc_upper a (at_allocs t))"

definition check_size :: "u64 \<Rightarrow> type_info \<Rightarrow> alloc_tracker \<Rightarrow> alloc_tracker \<times> bool" where
  "check_size a ti t =
     (case bt_get (at_allocs t) a of
        Some (sz, _) \<Rightarrow>
          (if sz < ti_byte_size ti
           then (t\<lparr>at_size_mismatches := at_size_mismatches t @
                   [\<lparr>sm_addr = a, sm_alloc_size = sz, sm_type_size = ti_byte_size ti, sm_type_name = ti_name ti\<rparr>]\<rparr>,
                 False)
           else (t, True))
      | None \<Rightarrow> (t, True))"


subsection \<open>The tracker against the history of allocations\<close>

datatype heap_op = H_alloc u64 u64 | H_free u64

fun at_apply :: "heap_op \<Rightarrow> alloc_tracker \<Rightarrow> alloc_tracker" where
  "at_apply (H_alloc a sz) t = fst (on_alloc a sz t)"
| "at_apply (H_free a) t = fst (on_free a t)"

text \<open>The specification: the size and number of the last allocation at an address not freed since.\<close>

fun live_after :: "heap_op list \<Rightarrow> nat \<Rightarrow> (u64 \<rightharpoonup> u64 \<times> nat) \<Rightarrow> (u64 \<rightharpoonup> u64 \<times> nat)" where
  "live_after [] n m = m"
| "live_after (H_alloc a sz # ops) n m = live_after ops (Suc n) (m(a \<mapsto> (sz, n)))"
| "live_after (H_free a # ops) n m = live_after ops n (m(a := None))"

fun orphans :: "heap_op list \<Rightarrow> (u64 \<rightharpoonup> u64) \<Rightarrow> nat" where
  "orphans [] m = 0"
| "orphans (H_alloc a sz # ops) m = orphans ops (m(a \<mapsto> sz))"
| "orphans (H_free a # ops) m = (if m a = None then 1 else 0) + orphans ops (m(a := None))"

definition is_free :: "heap_op \<Rightarrow> bool" where
  "is_free op = (case op of H_free _ \<Rightarrow> True | _ \<Rightarrow> False)"

lemma at_inv_apply: "bt_inv (at_allocs t) \<Longrightarrow> bt_inv (at_allocs (at_apply op t))"
  by (cases op) (simp_all add: on_alloc_def on_free_def Let_def bt.inv_ins bt.inv_del)

lemma live_after_run:
  assumes "bt_inv (at_allocs t)" and "bt_get (at_allocs t) = map_option (\<lambda>v. (fst v, of_nat (snd v))) \<circ> m"
    and "at_total_allocs t = of_nat n"
  shows "bt_get (at_allocs (fold at_apply ops t)) = map_option (\<lambda>v. (fst v, of_nat (snd v))) \<circ> live_after ops n m"
  using assms
proof (induction ops n m arbitrary: t rule: live_after.induct)
  case (2 a sz ops n m)
  let ?t = "at_apply (H_alloc a sz) t"
  have "bt_get (at_allocs ?t) = map_option (\<lambda>v. (fst v, of_nat (snd v))) \<circ> (m(a \<mapsto> (sz, n)))"
    using 2(2-4) by (simp add: on_alloc_def bt.get_ins fun_eq_iff)
  moreover have "at_total_allocs ?t = of_nat (Suc n)" using 2(4) by (simp add: on_alloc_def)
  ultimately show ?case using 2(1) [OF at_inv_apply [OF 2(2)], of "H_alloc a sz"] by (simp add: fun_upd_def comp_def)
next
  case (3 a ops n m)
  let ?t = "at_apply (H_free a) t"
  have "bt_get (at_allocs ?t) = map_option (\<lambda>v. (fst v, of_nat (snd v))) \<circ> (m(a := None))"
    using 3(2-4) by (simp add: on_free_def Let_def bt.get_del fun_eq_iff)
  moreover have "at_total_allocs ?t = of_nat n" using 3(4) by (simp add: on_free_def Let_def)
  ultimately show ?case using 3(1) [OF at_inv_apply [OF 3(2)], of "H_free a"] by (simp add: fun_upd_def comp_def)
qed simp

lemma orphans_run:
  assumes "bt_inv (at_allocs t)" and "m = alloc_size t"
  shows "at_orphan_frees (fold at_apply ops t) = at_orphan_frees t + of_nat (orphans ops m)"
  using assms
proof (induction ops m arbitrary: t rule: orphans.induct)
  case (2 a sz ops m)
  have "m(a \<mapsto> sz) = alloc_size (at_apply (H_alloc a sz) t)"
    using 2(2,3) by (simp add: on_alloc_def alloc_size_def bt.get_ins fun_eq_iff)
  from 2(1) [OF at_inv_apply [OF 2(2)] this] show ?case by (simp add: on_alloc_def fun_upd_def)
next
  case (3 a ops m)
  have "m(a := None) = alloc_size (at_apply (H_free a) t)"
    using 3(2,3) by (simp add: on_free_def Let_def alloc_size_def bt.get_del fun_eq_iff)
  from 3(1) [OF at_inv_apply [OF 3(2)] this] show ?case
    using 3(3) by (simp add: on_free_def Let_def alloc_size_def add.assoc fun_upd_def)
qed simp

lemma frees_run:
  "at_total_frees (fold at_apply ops t) = at_total_frees t + of_nat (length (filter is_free ops))"
proof (induction ops arbitrary: t)
  case (Cons op ops)
  then show ?case by (cases op) (simp_all add: on_alloc_def on_free_def Let_def is_free_def)
qed simp

text \<open>
  C15 (refinement).  After any history of allocations and frees, the tracker knows exactly the
  live allocations: at every address the size and the number of the last allocation there that was
  not freed since; and its counters are the number of frees, and of frees of addresses that were
  not live, reduced to 64 bits.
\<close>

theorem tracker_refines:
  "alloc_size (fold at_apply ops at_new) a = map_option fst (live_after ops 0 Map.empty a) \<and>
   alloc_seq (fold at_apply ops at_new) a = map_option (\<lambda>v. of_nat (snd v)) (live_after ops 0 Map.empty a) \<and>
   at_total_frees (fold at_apply ops at_new) = of_nat (length (filter is_free ops)) \<and>
   at_orphan_frees (fold at_apply ops at_new) = of_nat (orphans ops Map.empty)"
proof -
  have g: "bt_get (at_allocs (fold at_apply ops at_new)) = map_option (\<lambda>v. (fst v, of_nat (snd v))) \<circ> live_after ops 0 Map.empty"
    by (rule live_after_run) (simp_all add: at_new_def fun_eq_iff)
  have "at_orphan_frees (fold at_apply ops at_new) = at_orphan_frees at_new + of_nat (orphans ops Map.empty)"
    by (rule orphans_run) (simp_all add: at_new_def alloc_size_def fun_eq_iff)
  then show ?thesis
    by (simp add: alloc_size_def alloc_seq_def g frees_run option.map_comp comp_def)
      (simp add: at_new_def)
qed


subsection \<open>Containment\<close>

text \<open>Live allocations do not overlap, and end inside the address space.\<close>

definition heap_disjoint :: "alloc_tracker \<Rightarrow> bool" where
  "heap_disjoint t \<longleftrightarrow>
     (\<forall>a sz n b sz' n'. bt_get (at_allocs t) a = Some (sz, n) \<longrightarrow> bt_get (at_allocs t) b = Some (sz', n') \<longrightarrow>
        a < b \<longrightarrow> unat a + unat sz \<le> unat b)"

definition inside :: "u64 \<Rightarrow> u64 \<Rightarrow> u64 \<Rightarrow> bool" where
  "inside a base sz \<longleftrightarrow> unat base \<le> unat a \<and> unat a < min (unat base + unat sz) (2 ^ 64 - 1)"

lemma inside_iff: "inside a base sz \<longleftrightarrow> base \<le> a \<and> a < sat_add base sz"
  by (simp add: inside_def word_le_nat_alt word_less_nat_alt unat_sat_add)

lemma containing_alloc_sound:
  assumes "bt_inv (at_allocs t)" "containing_alloc t a = Some (base, sz)"
  shows "alloc_size t base = Some sz \<and> inside a base sz"
  using assms btc.cover_sound [of "at_allocs t" alloc_upper a]
  by (auto simp: containing_alloc_def alloc_size_def inside_iff alloc_upper_def)

lemma containing_alloc_complete:
  assumes inv: "bt_inv (at_allocs t)" and disj: "heap_disjoint t"
    and a: "alloc_size t base = Some sz" "inside a base sz"
  shows "containing_alloc t a = Some (base, sz)"
proof -
  from a(1) obtain n where g: "bt_get (at_allocs t) base = Some (sz, n)"
    by (auto simp: alloc_size_def)
  have "bt_cover alloc_upper a (at_allocs t) = Some (base, sz, n)"
  proof (rule btc.cover_complete [OF inv _ g])
    fix x v y w
    assume x: "bt_get (at_allocs t) x = Some v" and y: "bt_get (at_allocs t) y = Some w" and xy: "x < y"
    obtain sx nx sy ny where "v = (sx, nx)" "w = (sy, ny)" by (cases v; cases w)
    with disj x y xy have "unat x + unat sx \<le> unat y" unfolding heap_disjoint_def by blast
    then show "alloc_upper x v \<le> y"
      using \<open>v = (sx, nx)\<close> by (simp add: alloc_upper_def word_le_nat_alt unat_sat_add)
  qed (use a in \<open>simp_all add: inside_iff alloc_upper_def\<close>)
  then show ?thesis by (simp add: containing_alloc_def)
qed

text \<open>
  In any reached tracker whose live allocations do not overlap, the logarithmic
  lookup finds an allocation for an address exactly when one covers it, and it finds that one.
\<close>

theorem containing_alloc_exact:
  assumes "heap_disjoint (fold at_apply ops at_new)"
  shows "containing_alloc (fold at_apply ops at_new) a = Some (base, sz) \<longleftrightarrow>
     alloc_size (fold at_apply ops at_new) base = Some sz \<and> inside a base sz"
proof -
  have "bt_inv (at_allocs t) \<Longrightarrow> bt_inv (at_allocs (fold at_apply ops t))" for t
    by (induction ops arbitrary: t) (simp_all add: at_inv_apply)
  then have "bt_inv (at_allocs (fold at_apply ops at_new))" by (simp add: at_new_def)
  from containing_alloc_sound [OF this] containing_alloc_complete [OF this assms] show ?thesis by blast
qed

definition heap_ops :: "heap_op list" where
  "heap_ops = [H_alloc 4096 32, H_alloc 8192 16, H_free 8192, H_alloc 4128 64]"

theorem containing_alloc_exact_witness:
  "containing_alloc (fold at_apply heap_ops at_new) 4130 = Some (4128, 64)"
proof -
  have al: "at_allocs (fold at_apply heap_ops at_new) = [(4096, (32, 0)), (4128, (64, 2))]" by code_simp
  have "heap_disjoint (fold at_apply heap_ops at_new)"
    by (auto simp: heap_disjoint_def al split: if_splits)
  from containing_alloc_exact [OF this, of 4130 4128 64]
  show ?thesis by (simp add: alloc_size_def al inside_def)
qed

end
