(* ===== verification/Shadow_Types.thy ===== *)
theory Shadow_Types
  imports Alloc_Tracker "HOL-Library.Sublist"
begin

text \<open>
  \<open>ShadowTypeMap\<close> of \<^verbatim>\<open>engine/src/world.rs\<close>: the types projected onto heap addresses.  A projection
  is stamped at an address; pointer fields written inside a projection stamp their targets; writes
  that no projection covers are deferred and replayed.

  The map is ordered by address.  The deferred writes are a list with the oldest first; it holds at
  most 4096.  Counters are 64-bit and wrap.
\<close>

record type_projection =
  tp_base_addr :: u64
  tp_type_info :: type_info
  tp_source_name :: string
  tp_stamp_seq :: u64

datatype stamp_result =
    Stamped | Restamped | Schism string string u64 | PoolReuse string string u64 | Rejected

definition DEFERRED_CAP :: nat where "DEFERRED_CAP = 4096"
definition REPLAY_MAX_PASSES :: nat where "REPLAY_MAX_PASSES = 8"

record deferred_write =
  dw_write_addr :: u64
  dw_write_value :: u64
  dw_seq :: u64

record shadow_type_map =
  st_map :: "(u64, type_projection) btree_map"
  st_indirect :: "u64 \<rightharpoonup> type_info"
  st_deferred :: "deferred_write list"
  st_addr_schisms :: "u64 \<rightharpoonup> u16"
  st_schism_count :: u64
  st_pool_reuse_count :: u64
  st_indirect_stamps :: u64
  st_indirect_registrations :: u64
  st_deferred_replays :: u64

definition st_new :: shadow_type_map where
  "st_new = \<lparr>st_map = [], st_indirect = Map.empty, st_deferred = [], st_addr_schisms = Map.empty,
     st_schism_count = 0, st_pool_reuse_count = 0, st_indirect_stamps = 0,
     st_indirect_registrations = 0, st_deferred_replays = 0\<rparr>"

definition stamp_type ::
  "u64 \<Rightarrow> type_info \<Rightarrow> string \<Rightarrow> u64 \<Rightarrow> shadow_type_map \<Rightarrow> shadow_type_map \<times> stamp_result" where
  "stamp_type target ti source sq stm =
     (if target = 0 \<or> ti_byte_size ti = 0 then (stm, Rejected)
      else
        (let proj = \<lparr>tp_base_addr = target, tp_type_info = ti, tp_source_name = source, tp_stamp_seq = sq\<rparr> in
         case bt_get (st_map stm) target of
           Some ex \<Rightarrow>
             (if ti_name (tp_type_info ex) = ti_name ti then (stm, Restamped)
              else if sq < tp_stamp_seq ex then (stm, Rejected)
              else
                (let hits = sat_add (case st_addr_schisms stm target of Some h \<Rightarrow> h | None \<Rightarrow> 0) 1;
                     is_reuse = (2 \<le> hits);
                     res = (if is_reuse then PoolReuse else Schism)
                             (ti_name (tp_type_info ex)) (tp_source_name ex) (tp_stamp_seq ex)
                 in (stm\<lparr>st_addr_schisms := (st_addr_schisms stm)(target \<mapsto> hits),
                         st_pool_reuse_count := (if is_reuse then st_pool_reuse_count stm + 1 else st_pool_reuse_count stm),
                         st_schism_count := (if is_reuse then st_schism_count stm else st_schism_count stm + 1),
                         st_map := bt_insert target proj (st_map stm)\<rparr>, res)))
         | None \<Rightarrow> (stm\<lparr>st_map := bt_insert target proj (st_map stm)\<rparr>, Stamped)))"

text \<open>\<open>range(..=a).next_back()\<close> filtered by the projection's end.\<close>

definition proj_upper :: "u64 \<Rightarrow> type_projection \<Rightarrow> u64" where
  "proj_upper _ p = tp_base_addr p + ti_byte_size (tp_type_info p)"

definition nearest_covering :: "shadow_type_map \<Rightarrow> u64 \<Rightarrow> type_projection option" where
  "nearest_covering stm a = map_option snd (bt_cover proj_upper a (st_map stm))"

text \<open>\<open>covering\<close> also tries the next lower projection.\<close>

definition covering :: "shadow_type_map \<Rightarrow> u64 \<Rightarrow> type_projection option" where
  "covering stm a =
     (case rev (filter (\<lambda>e. fst e \<le> a) (st_map stm)) of
        [] \<Rightarrow> None
      | e # rest \<Rightarrow>
          (if a < proj_upper (fst e) (snd e) then Some (snd e)
           else (case rest of [] \<Rightarrow> None
                 | e' # _ \<Rightarrow> if a < proj_upper (fst e') (snd e') then Some (snd e') else None)))"

definition defer_write :: "u64 \<Rightarrow> u64 \<Rightarrow> u64 \<Rightarrow> shadow_type_map \<Rightarrow> shadow_type_map" where
  "defer_write a v sq stm =
     (let d = (if DEFERRED_CAP \<le> length (st_deferred stm) then tl (st_deferred stm) else st_deferred stm)
      in stm\<lparr>st_deferred := d @ [\<lparr>dw_write_addr = a, dw_write_value = v, dw_seq = sq\<rparr>]\<rparr>)"

definition purge_deferred :: "u64 \<Rightarrow> u64 \<Rightarrow> shadow_type_map \<Rightarrow> shadow_type_map" where
  "purge_deferred a sz stm =
     stm\<lparr>st_deferred := filter (\<lambda>d. dw_write_addr d < a \<or> sat_add a sz \<le> dw_write_addr d) (st_deferred stm)\<rparr>"

definition purge_indirect :: "u64 \<Rightarrow> u64 \<Rightarrow> shadow_type_map \<Rightarrow> shadow_type_map" where
  "purge_indirect a sz stm =
     stm\<lparr>st_indirect := (\<lambda>b. if b < a \<or> sat_add a sz \<le> b then st_indirect stm b else None)\<rparr>"

definition purge_range :: "u64 \<Rightarrow> u64 \<Rightarrow> shadow_type_map \<Rightarrow> shadow_type_map \<times> nat" where
  "purge_range a sz stm =
     (let m = filter (\<lambda>(_, p). tp_base_addr p < a \<or> sat_add a sz \<le> tp_base_addr p) (st_map stm)
      in (stm\<lparr>st_map := m\<rparr>, length (st_map stm) - length m))"

definition register_indirect :: "u64 \<Rightarrow> type_info \<Rightarrow> shadow_type_map \<Rightarrow> shadow_type_map" where
  "register_indirect base ti stm = stm\<lparr>st_indirect := (st_indirect stm)(base \<mapsto> ti)\<rparr>"

definition indirect_lookup :: "u64 \<Rightarrow> alloc_tracker \<Rightarrow> shadow_type_map \<Rightarrow> type_info option" where
  "indirect_lookup a tr stm =
     (case containing_alloc tr a of None \<Rightarrow> None
      | Some (base, sz) \<Rightarrow> if base + sz \<le> a then None else st_indirect stm base)"

text \<open>\<open>max_by_key\<close> keeps the last of the greatest elements.\<close>

definition max_by_key :: "('a \<Rightarrow> u64) \<Rightarrow> 'a list \<Rightarrow> 'a option" where
  "max_by_key key xs =
     fold (\<lambda>x acc. case acc of None \<Rightarrow> Some x | Some y \<Rightarrow> if key y \<le> key x then Some x else Some y) xs None"

definition field_match :: "type_info \<Rightarrow> u64 \<Rightarrow> u32 \<Rightarrow> field_info option" where
  "field_match ti off sz =
     (let cs = filter (\<lambda>f. fi_byte_offset f = off \<and> fi_name f \<noteq> ''<pointee>'') (ti_fields ti) in
      if length cs \<le> 1 then (case cs of [] \<Rightarrow> None | f # _ \<Rightarrow> Some f)
      else (case find (\<lambda>f. fi_byte_size f = ucast sz) cs of
              Some f \<Rightarrow> Some f
            | None \<Rightarrow> max_by_key fi_byte_size cs))"

definition pointee_name :: "type_info \<Rightarrow> string" where
  "pointee_name t = (case strip_char (CHR ''*'') (ti_name t) of Some n \<Rightarrow> n | None \<Rightarrow> [])"

text \<open>A matched pointer field: stamp the target, or register the element type of a pointer array.\<close>

definition propagate_field ::
  "field_info \<Rightarrow> u64 \<Rightarrow> u64 \<Rightarrow> registry \<Rightarrow> shadow_type_map \<Rightarrow> shadow_type_map \<times> bool" where
  "propagate_field f v sq reg stm =
     (if \<not> ti_is_pointer (fi_type_info f) then (stm, False)
      else
        (let pn = pointee_name (fi_type_info f) in
         case map_of reg pn of
           Some pti \<Rightarrow>
             (if (case bt_get (st_map stm) v of Some ex \<Rightarrow> ti_name (tp_type_info ex) \<noteq> ti_name pti | None \<Rightarrow> False)
              then (stm, False)
              else (case stamp_type v pti (fi_name f) sq stm of (stm', res) \<Rightarrow> (stm', res = Stamped)))
         | None \<Rightarrow>
             (case strip_char (CHR ''*'') pn of
                Some inner \<Rightarrow>
                  (case map_of reg inner of
                     Some iti \<Rightarrow>
                       (stm\<lparr>st_indirect := (st_indirect stm)(v \<mapsto> iti),
                            st_indirect_registrations := st_indirect_registrations stm + 1\<rparr>, False)
                   | None \<Rightarrow> (stm, False))
              | None \<Rightarrow> (stm, False))))"

definition propagate_field_write ::
  "u64 \<Rightarrow> u64 \<Rightarrow> u32 \<Rightarrow> u64 \<Rightarrow> registry \<Rightarrow> alloc_tracker \<Rightarrow> shadow_type_map \<Rightarrow> shadow_type_map \<times> bool" where
  "propagate_field_write a v sz sq reg tr stm =
     (if sz \<noteq> 8 \<or> v = 0 then (stm, False)
      else
        (case indirect_lookup a tr stm of
           Some eti \<Rightarrow>
             (case stamp_type v eti ''<indirect>'' sq stm of
                (stm', res) \<Rightarrow>
                  (if res \<noteq> Restamped \<and> res \<noteq> Rejected
                   then (stm'\<lparr>st_indirect_stamps := st_indirect_stamps stm' + 1\<rparr>, True)
                   else (stm', False)))
         | None \<Rightarrow>
             (case nearest_covering stm a of
                None \<Rightarrow> (stm, False)
              | Some p \<Rightarrow>
                  (if (case alloc_seq tr (tp_base_addr p) of Some n \<Rightarrow> tp_stamp_seq p < n | None \<Rightarrow> False)
                   then (stm, False)
                   else
                     (case field_match (tp_type_info p) (a - tp_base_addr p) sz of
                        None \<Rightarrow> (stm, False)
                      | Some f \<Rightarrow> propagate_field f v sq reg stm)))))"

text \<open>One replayed write; and the pass over the writes that have become covered.\<close>

definition replay_one ::
  "registry \<Rightarrow> alloc_tracker \<Rightarrow> deferred_write \<Rightarrow> shadow_type_map \<times> nat \<Rightarrow> shadow_type_map \<times> nat" where
  "replay_one reg tr d acc =
     (case propagate_field_write (dw_write_addr d) (dw_write_value d) 8 (dw_seq d) reg tr (fst acc) of
        (stm', ok) \<Rightarrow> (stm', if ok then snd acc + 1 else snd acc))"

definition deferred_covered :: "shadow_type_map \<Rightarrow> deferred_write \<Rightarrow> bool" where
  "deferred_covered stm d \<longleftrightarrow> nearest_covering stm (dw_write_addr d) \<noteq> None"

primrec replay_passes ::
  "nat \<Rightarrow> registry \<Rightarrow> alloc_tracker \<Rightarrow> shadow_type_map \<Rightarrow> nat \<Rightarrow> shadow_type_map \<times> nat" where
  "replay_passes 0 reg tr stm total_replayed = (stm, total_replayed)"
| "replay_passes (Suc n) reg tr stm total_replayed =
     (let hits = filter (deferred_covered stm) (st_deferred stm);
          stm1 = stm\<lparr>st_deferred := filter (\<lambda>d. \<not> deferred_covered stm d) (st_deferred stm)\<rparr>
      in if hits = [] then (stm1, total_replayed)
         else
           (case fold (replay_one reg tr) hits (stm1, 0) of
              (stm2, pass_replayed) \<Rightarrow>
                (if pass_replayed = 0 then (stm2, total_replayed + pass_replayed)
                 else replay_passes n reg tr stm2 (total_replayed + pass_replayed))))"

definition replay_deferred ::
  "registry \<Rightarrow> alloc_tracker \<Rightarrow> shadow_type_map \<Rightarrow> shadow_type_map \<times> nat" where
  "replay_deferred reg tr stm =
     (case replay_passes REPLAY_MAX_PASSES reg tr stm 0 of
        (stm', n) \<Rightarrow> (stm'\<lparr>st_deferred_replays := st_deferred_replays stm' + of_nat n\<rparr>, n))"


subsection \<open>The invariant\<close>

definition proj_ok :: "u64 \<times> type_projection \<Rightarrow> bool" where
  "proj_ok e \<longleftrightarrow> tp_base_addr (snd e) = fst e \<and> fst e \<noteq> 0 \<and> ti_byte_size (tp_type_info (snd e)) \<noteq> 0"

definition st_inv :: "shadow_type_map \<Rightarrow> bool" where
  "st_inv stm \<longleftrightarrow> bt_inv (st_map stm) \<and> list_all proj_ok (st_map stm) \<and>
     length (st_deferred stm) \<le> DEFERRED_CAP"

lemma list_all_bt_insert: "list_all P m \<Longrightarrow> P (k, v) \<Longrightarrow> list_all P (bt_insert k v m)"
  by (induction m) auto

text \<open>What a stamp may change: at most the projection at its target, and the schism accounts.\<close>

lemma stamp_type_inv: "st_inv stm \<Longrightarrow> st_inv (fst (stamp_type a ti src sq stm))"
  by (auto simp: st_inv_def stamp_type_def Let_def bt.inv_ins list_all_bt_insert proj_ok_def
      split: option.split)

lemma stamp_type_deferred [simp]:
  "st_deferred (fst (stamp_type a ti src sq stm)) = st_deferred stm"
  "st_indirect (fst (stamp_type a ti src sq stm)) = st_indirect stm"
  by (auto simp: stamp_type_def Let_def split: option.split)

lemma propagate_field_spec:
  "st_deferred (fst (propagate_field f v sq reg stm)) = st_deferred stm \<and>
   (st_inv stm \<longrightarrow> st_inv (fst (propagate_field f v sq reg stm))) \<and>
   (\<not> snd (propagate_field f v sq reg stm) \<longrightarrow> st_map (fst (propagate_field f v sq reg stm)) = st_map stm)"
proof (cases "map_of reg (pointee_name (fi_type_info f))")
  case None
  then show ?thesis
    by (auto simp: propagate_field_def Let_def st_inv_def split: option.split)
next
  case (Some pti)
  show ?thesis
  proof (cases "\<not> ti_is_pointer (fi_type_info f) \<or>
      (case bt_get (st_map stm) v of Some ex \<Rightarrow> ti_name (tp_type_info ex) \<noteq> ti_name pti | None \<Rightarrow> False)")
    case True
    with Some have "propagate_field f v sq reg stm = (stm, False)"
      by (auto simp: propagate_field_def Let_def)
    then show ?thesis by simp
  next
    case False
    obtain stm' res where st: "stamp_type v pti (fi_name f) sq stm = (stm', res)" by fastforce
    with False Some have eq: "propagate_field f v sq reg stm = (stm', res = Stamped)"
      by (simp add: propagate_field_def Let_def)
    have "st_deferred stm' = st_deferred stm" "st_inv stm \<Longrightarrow> st_inv stm'"
      using stamp_type_deferred(1) [of v pti "fi_name f" sq stm] stamp_type_inv [of stm v pti "fi_name f" sq]
      by (simp_all add: st)
    moreover have "res \<noteq> Stamped \<Longrightarrow> st_map stm' = st_map stm"
      using st False by (auto simp: stamp_type_def Let_def split: option.splits if_splits)
    ultimately show ?thesis by (simp add: eq)
  qed
qed

lemma propagate_spec:
  "st_deferred (fst (propagate_field_write a v sz sq reg tr stm)) = st_deferred stm \<and>
   (st_inv stm \<longrightarrow> st_inv (fst (propagate_field_write a v sz sq reg tr stm))) \<and>
   (\<not> snd (propagate_field_write a v sz sq reg tr stm) \<longrightarrow>
      st_map (fst (propagate_field_write a v sz sq reg tr stm)) = st_map stm)"
proof (cases "sz \<noteq> 8 \<or> v = 0")
  case True
  then show ?thesis by (auto simp: propagate_field_write_def)
next
  case False
  show ?thesis
  proof (cases "indirect_lookup a tr stm")
    case (Some eti)
    obtain stm' res where st: "stamp_type v eti ''<indirect>'' sq stm = (stm', res)" by fastforce
    have "st_deferred stm' = st_deferred stm" "st_inv stm \<Longrightarrow> st_inv stm'"
      using stamp_type_deferred(1) [of v eti "''<indirect>''" sq stm] stamp_type_inv [of stm v eti "''<indirect>''" sq]
      by (simp_all add: st)
    moreover have "res = Restamped \<or> res = Rejected \<Longrightarrow> st_map stm' = st_map stm"
      using st by (auto simp: stamp_type_def Let_def split: option.splits if_splits)
    ultimately show ?thesis using False Some st
      by (auto simp: propagate_field_write_def st_inv_def)
  next
    case None
    with False have eq: "propagate_field_write a v sz sq reg tr stm =
        (case nearest_covering stm a of None \<Rightarrow> (stm, False)
         | Some p \<Rightarrow>
             if (case alloc_seq tr (tp_base_addr p) of Some n \<Rightarrow> tp_stamp_seq p < n | None \<Rightarrow> False)
             then (stm, False)
             else (case field_match (tp_type_info p) (a - tp_base_addr p) sz of None \<Rightarrow> (stm, False)
                   | Some f \<Rightarrow> propagate_field f v sq reg stm))"
      unfolding propagate_field_write_def by (simp only: if_not_P [OF False] None option.case if_False)
    have "propagate_field_write a v sz sq reg tr stm = (stm, False) \<or>
        (\<exists>f. propagate_field_write a v sz sq reg tr stm = propagate_field f v sq reg stm)"
      unfolding eq by (simp split: option.split) blast
    then show ?thesis using propagate_field_spec by fastforce
  qed
qed

lemma replay_fold:
  assumes "fold (replay_one reg tr) ds (stm, k) = (stm', k')"
  shows "st_deferred stm' = st_deferred stm \<and> (st_inv stm \<longrightarrow> st_inv stm') \<and> k \<le> k' \<and>
     k' \<le> k + length ds \<and> (k' = k \<longrightarrow> st_map stm' = st_map stm)"
  using assms
proof (induction ds arbitrary: stm k)
  case (Cons d ds)
  obtain s1 k1 where one: "replay_one reg tr d (stm, k) = (s1, k1)" by fastforce
  have *: "st_deferred s1 = st_deferred stm \<and> (st_inv stm \<longrightarrow> st_inv s1) \<and> k \<le> k1 \<and> k1 \<le> k + 1 \<and>
      (k1 = k \<longrightarrow> st_map s1 = st_map stm)"
    using one propagate_spec [of "dw_write_addr d" "dw_write_value d" 8 "dw_seq d" reg tr stm]
    by (auto simp: replay_one_def split: prod.splits if_splits)
  from Cons.prems one have "fold (replay_one reg tr) ds (s1, k1) = (stm', k')" by simp
  from Cons.IH [OF this] * show ?case by auto
qed simp

lemma covered_cong: "st_map s = st_map t \<Longrightarrow> deferred_covered s d = deferred_covered t d"
  by (simp add: deferred_covered_def nearest_covering_def)

lemma replay_passes_spec:
  assumes "replay_passes n reg tr stm k = (stm', k')"
  shows "subseq (st_deferred stm') (st_deferred stm) \<and> (st_inv stm \<longrightarrow> st_inv stm') \<and>
     k \<le> k' \<and> k' + length (st_deferred stm') \<le> k + length (st_deferred stm) \<and>
     (list_all (\<lambda>d. \<not> deferred_covered stm' d) (st_deferred stm') \<or> k + n \<le> k')"
  using assms
proof (induction n arbitrary: stm k)
  case (Suc n)
  let ?hits = "filter (deferred_covered stm) (st_deferred stm)"
  let ?rest = "filter (\<lambda>d. \<not> deferred_covered stm d) (st_deferred stm)"
  let ?s1 = "stm\<lparr>st_deferred := ?rest\<rparr>"
  have len: "length ?hits + length ?rest = length (st_deferred stm)"
    by (rule sum_length_filter_compl)
  have inv1: "st_inv stm \<longrightarrow> st_inv ?s1"
    using len by (auto simp: st_inv_def)
  have unc: "list_all (\<lambda>d. \<not> deferred_covered s d) ?rest" if "st_map s = st_map stm" for s
    using covered_cong [OF that] by (simp add: list_all_iff)
  show ?case
  proof (cases "?hits = []")
    case True
    with Suc.prems have "stm' = ?s1" "k' = k" by (simp_all add: Let_def)
    with True len inv1 unc [of ?s1] show ?thesis by simp
  next
    case False
    obtain s2 p where f: "fold (replay_one reg tr) ?hits (?s1, 0) = (s2, p)" by fastforce
    note spec = replay_fold [OF f]
    show ?thesis
    proof (cases "p = 0")
      case True
      with Suc.prems False f have "stm' = s2" "k' = k" by (simp_all add: Let_def)
      with spec True len inv1 unc [of s2] show ?thesis by simp
    next
      case p: False
      with Suc.prems False f have "replay_passes n reg tr s2 (k + p) = (stm', k')"
        by (simp add: Let_def)
      note ih = Suc.IH [OF this]
      have "subseq (st_deferred s2) (st_deferred stm)" using spec by simp
      with ih have "subseq (st_deferred stm') (st_deferred stm)" using subseq_order.trans by blast
      moreover have "k \<le> k'" using ih by linarith
      moreover have "k' + length (st_deferred stm') \<le> k + length (st_deferred stm)"
        using ih spec len by simp
      moreover have "list_all (\<lambda>d. \<not> deferred_covered stm' d) (st_deferred stm') \<or> k + Suc n \<le> k'"
        using ih p by auto
      moreover have "st_inv stm \<longrightarrow> st_inv stm'" using ih spec inv1 by blast
      ultimately show ?thesis by blast
    qed
  qed
qed simp

text \<open>One pass over the deferred writes that are covered, and the state before the \<open>k\<close>-th pass.\<close>

definition replay_pass ::
  "registry \<Rightarrow> alloc_tracker \<Rightarrow> shadow_type_map \<Rightarrow> shadow_type_map \<times> nat" where
  "replay_pass reg tr stm =
     fold (replay_one reg tr) (filter (deferred_covered stm) (st_deferred stm))
       (stm\<lparr>st_deferred := filter (\<lambda>d. \<not> deferred_covered stm d) (st_deferred stm)\<rparr>, 0)"

primrec before_pass ::
  "registry \<Rightarrow> alloc_tracker \<Rightarrow> nat \<Rightarrow> shadow_type_map \<Rightarrow> shadow_type_map" where
  "before_pass reg tr 0 stm = stm"
| "before_pass reg tr (Suc k) stm = before_pass reg tr k (fst (replay_pass reg tr stm))"

definition replayed_in :: "registry \<Rightarrow> alloc_tracker \<Rightarrow> nat \<Rightarrow> shadow_type_map \<Rightarrow> nat" where
  "replayed_in reg tr k stm = snd (replay_pass reg tr (before_pass reg tr k stm))"

lemma replayed_in_simps [simp]:
  "replayed_in reg tr 0 stm = snd (replay_pass reg tr stm)"
  "replayed_in reg tr (Suc k) stm = replayed_in reg tr k (fst (replay_pass reg tr stm))"
  by (simp_all add: replayed_in_def)

lemma replay_pass_none: "filter (deferred_covered stm) (st_deferred stm) = [] \<Longrightarrow>
    replay_pass reg tr stm = (stm\<lparr>st_deferred := filter (\<lambda>d. \<not> deferred_covered stm d) (st_deferred stm)\<rparr>, 0)"
  by (simp add: replay_pass_def)

lemma replay_passes_step:
  "replay_passes (Suc n) reg tr stm k =
     (if snd (replay_pass reg tr stm) = 0 then (fst (replay_pass reg tr stm), k)
      else replay_passes n reg tr (fst (replay_pass reg tr stm)) (k + snd (replay_pass reg tr stm)))"
  by (cases "filter (deferred_covered stm) (st_deferred stm) = []")
    (simp_all add: Let_def replay_pass_none, simp add: replay_pass_def split: prod.split)

text \<open>A pass that replays nothing leaves nothing that is covered.\<close>

lemma replay_pass_settles:
  assumes "snd (replay_pass reg tr stm) = 0"
  shows "list_all (\<lambda>d. \<not> deferred_covered (fst (replay_pass reg tr stm)) d)
           (st_deferred (fst (replay_pass reg tr stm)))"
proof -
  let ?s1 = "stm\<lparr>st_deferred := filter (\<lambda>d. \<not> deferred_covered stm d) (st_deferred stm)\<rparr>"
  obtain s where f: "replay_pass reg tr stm = (s, 0)" using assms by (cases "replay_pass reg tr stm") simp
  note spec = replay_fold [OF f [unfolded replay_pass_def]]
  then have "st_map s = st_map stm" "st_deferred s = st_deferred ?s1" by simp_all
  then show ?thesis using covered_cong [of s stm] by (simp add: f list_all_iff)
qed

lemma replay_passes_iterate:
  "\<exists>k \<le> n. (\<forall>i < k. 0 < replayed_in reg tr i stm) \<and>
     replay_passes n reg tr stm c =
       (before_pass reg tr (if k < n then Suc k else n) stm, c + (\<Sum>i < k. replayed_in reg tr i stm)) \<and>
     (k < n \<longrightarrow> list_all (\<lambda>d. \<not> deferred_covered (before_pass reg tr (Suc k) stm) d)
                  (st_deferred (before_pass reg tr (Suc k) stm)))"
proof (induction n arbitrary: stm c)
  case (Suc n)
  let ?p = "replay_pass reg tr stm"
  show ?case
  proof (cases "snd ?p = 0")
    case True
    then show ?thesis unfolding replay_passes_step
      by (intro exI [of _ 0]) (simp add: replay_pass_settles)
  next
    case False
    from Suc.IH [of "fst ?p" "c + snd ?p"] obtain k where k: "k \<le> n"
      "\<forall>i < k. 0 < replayed_in reg tr i (fst ?p)"
      "replay_passes n reg tr (fst ?p) (c + snd ?p) =
         (before_pass reg tr (if k < n then Suc k else n) (fst ?p),
          c + snd ?p + (\<Sum>i < k. replayed_in reg tr i (fst ?p)))"
      "k < n \<longrightarrow> list_all (\<lambda>d. \<not> deferred_covered (before_pass reg tr (Suc k) (fst ?p)) d)
                  (st_deferred (before_pass reg tr (Suc k) (fst ?p)))" by blast
    have "\<forall>i < Suc k. 0 < replayed_in reg tr i stm"
      using k(2) False by (simp add: All_less_Suc2)
    moreover have "(\<Sum>i < Suc k. replayed_in reg tr i stm) =
        snd ?p + (\<Sum>i < k. replayed_in reg tr i (fst ?p))"
      unfolding sum.lessThan_Suc_shift by simp
    ultimately show ?thesis unfolding replay_passes_step using False k(1,3,4)
      by (intro exI [of _ "Suc k"]) auto
  qed
qed simp

lemma replay_deferred_iterate:
  "\<exists>k \<le> 8. (\<forall>i < k. 0 < replayed_in reg tr i stm) \<and>
     snd (replay_deferred reg tr stm) = (\<Sum>i < k. replayed_in reg tr i stm) \<and>
     fst (replay_deferred reg tr stm) =
       (let s = before_pass reg tr (if k < 8 then Suc k else 8) stm in
        s\<lparr>st_deferred_replays := st_deferred_replays s + of_nat (snd (replay_deferred reg tr stm))\<rparr>) \<and>
     (k < 8 \<longrightarrow> list_all (\<lambda>d. nearest_covering (fst (replay_deferred reg tr stm)) (dw_write_addr d) = None)
                 (st_deferred (fst (replay_deferred reg tr stm))))"
proof -
  have nc: "nearest_covering (s\<lparr>st_deferred_replays := x\<rparr>) = nearest_covering s" for s x
    by (simp add: fun_eq_iff nearest_covering_def)
  from replay_passes_iterate [of REPLAY_MAX_PASSES reg tr stm 0] obtain k where k: "k \<le> 8"
    "\<forall>i < k. 0 < replayed_in reg tr i stm"
    "replay_passes REPLAY_MAX_PASSES reg tr stm 0 =
       (before_pass reg tr (if k < 8 then Suc k else 8) stm, \<Sum>i < k. replayed_in reg tr i stm)"
    "k < 8 \<longrightarrow> list_all (\<lambda>d. \<not> deferred_covered (before_pass reg tr (Suc k) stm) d)
                (st_deferred (before_pass reg tr (Suc k) stm))"
    unfolding REPLAY_MAX_PASSES_def by auto
  show ?thesis
    by (rule exI [of _ k]) (use k in \<open>auto simp: replay_deferred_def Let_def nc deferred_covered_def\<close>)
qed

text \<open>
  C16 (termination).  Replaying makes \<open>k\<close> passes that each replay something, at most eight: it
  stops after the eighth, or with the first pass that replays nothing, and then no write that is
  still deferred is covered by a projection.  Its result is the state after exactly these passes,
  with their replays counted.  It keeps the order of the deferred writes, uses up each at most
  once, and counts no more replays than writes it used.
\<close>

theorem replay_deferred_settles:
  "(case replay_deferred reg tr stm of (stm', n) \<Rightarrow>
      subseq (st_deferred stm') (st_deferred stm) \<and>
      n + length (st_deferred stm') \<le> length (st_deferred stm) \<and>
      (n < 8 \<longrightarrow> list_all (\<lambda>d. nearest_covering stm' (dw_write_addr d) = None) (st_deferred stm')) \<and>
      (\<exists>k \<le> 8. (\<forall>i < k. 0 < replayed_in reg tr i stm) \<and> n = (\<Sum>i < k. replayed_in reg tr i stm) \<and>
         (let s = before_pass reg tr (if k < 8 then Suc k else 8) stm in
          stm' = s\<lparr>st_deferred_replays := st_deferred_replays s + of_nat n\<rparr>) \<and>
         (k < 8 \<longrightarrow>
            list_all (\<lambda>d. nearest_covering stm' (dw_write_addr d) = None) (st_deferred stm'))))"
proof -
  obtain s n where r: "replay_passes REPLAY_MAX_PASSES reg tr stm 0 = (s, n)" by fastforce
  let ?s = "s\<lparr>st_deferred_replays := st_deferred_replays s + of_nat n\<rparr>"
  have eq: "replay_deferred reg tr stm = (?s, n)" by (simp add: replay_deferred_def r)
  have "nearest_covering ?s = nearest_covering s" by (simp add: fun_eq_iff nearest_covering_def)
  with replay_passes_spec [OF r] have
    "subseq (st_deferred ?s) (st_deferred stm)" "n + length (st_deferred ?s) \<le> length (st_deferred stm)"
    "n < 8 \<longrightarrow> list_all (\<lambda>d. nearest_covering ?s (dw_write_addr d) = None) (st_deferred ?s)"
    by (auto simp: REPLAY_MAX_PASSES_def deferred_covered_def [abs_def])
  moreover note replay_deferred_iterate [of reg tr stm, unfolded eq fst_conv snd_conv]
  ultimately show ?thesis
    unfolding eq prod.case Let_def by blast
qed

text \<open>A node type with a pointer to its own kind, stamped at 4096; a deferred write links 4096 to 8192.\<close>

definition node_type :: type_info where
  "node_type = Type_Info ''node'' 16 False False False False
     [Field_Info ''next'' 0 8 (Type_Info ''*node'' 8 True False False False []) 0]"

definition chain_stm :: shadow_type_map where
  "chain_stm = fst (stamp_type 4096 node_type ''root'' 1
     (defer_write 12288 0 3 (defer_write 4096 8192 2 (defer_write 8192 12288 1 st_new))))"

theorem replay_deferred_settles_witness:
  "snd (replay_deferred [(''node'', node_type)] at_new chain_stm) = 2 \<and>
   list_all (\<lambda>d. nearest_covering (fst (replay_deferred [(''node'', node_type)] at_new chain_stm)) (dw_write_addr d) = None)
     (st_deferred (fst (replay_deferred [(''node'', node_type)] at_new chain_stm)))"
proof -
  have n: "snd (replay_deferred [(''node'', node_type)] at_new chain_stm) = 2" by code_simp
  obtain s k where r: "replay_deferred [(''node'', node_type)] at_new chain_stm = (s, k)" by fastforce
  with n replay_deferred_settles [where reg = "[(''node'', node_type)]" and tr = at_new and stm = chain_stm] show ?thesis by simp
qed


subsection \<open>Stamps\<close>

definition newer_type :: "type_projection \<Rightarrow> type_info \<Rightarrow> u64 \<Rightarrow> bool" where
  "newer_type ex ti sq \<longleftrightarrow> ti_name (tp_type_info ex) \<noteq> ti_name ti \<and> tp_stamp_seq ex \<le> sq"

definition is_change :: "stamp_result \<Rightarrow> bool" where
  "is_change r \<longleftrightarrow> (case r of Schism _ _ _ \<Rightarrow> True | PoolReuse _ _ _ \<Rightarrow> True | _ \<Rightarrow> False)"

definition is_schism :: "stamp_result \<Rightarrow> bool" where
  "is_schism r \<longleftrightarrow> (case r of Schism _ _ _ \<Rightarrow> True | _ \<Rightarrow> False)"

text \<open>A history of stamps, with what each returned.\<close>

type_synonym stamp_call = "u64 \<times> type_info \<times> string \<times> u64"

fun run_stamps :: "stamp_call list \<Rightarrow> shadow_type_map \<Rightarrow> shadow_type_map \<times> (u64 \<times> stamp_result) list" where
  "run_stamps [] stm = (stm, [])"
| "run_stamps ((a, ti, src, sq) # cs) stm =
     (case stamp_type a ti src sq stm of
        (stm1, r) \<Rightarrow> (case run_stamps cs stm1 of (stm2, rs) \<Rightarrow> (stm2, (a, r) # rs)))"

definition changes_at :: "u64 \<Rightarrow> (u64 \<times> stamp_result) list \<Rightarrow> stamp_result list" where
  "changes_at a rs = filter is_change (map snd (filter (\<lambda>ar. fst ar = a) rs))"

definition schism_hits :: "shadow_type_map \<Rightarrow> u64 \<Rightarrow> u16" where
  "schism_hits stm a = (case st_addr_schisms stm a of Some h \<Rightarrow> h | None \<Rightarrow> 0)"

lemma sat_add_1_ge: "1 \<le> sat_add (h :: u16) 1"
  using unat_lt [of h] by (simp add: word_le_nat_alt unat_sat_add)

lemma sat_add_1_ge_2: "2 \<le> sat_add (h :: u16) 1 \<longleftrightarrow> 1 \<le> h"
  using unat_lt [of h] by (auto simp: word_le_nat_alt unat_sat_add)

lemma stamp_change:
  assumes "stamp_type a ti src sq stm = (stm', r)"
  shows "(is_change r \<longrightarrow> (is_schism r \<longleftrightarrow> schism_hits stm a = 0) \<and> 1 \<le> schism_hits stm' a) \<and>
     (\<not> is_change r \<longrightarrow> schism_hits stm' a = schism_hits stm a) \<and>
     (\<forall>b. b \<noteq> a \<longrightarrow> schism_hits stm' b = schism_hits stm b)"
proof -
  have z: "1 \<le> (h :: u16) \<longleftrightarrow> h \<noteq> 0" for h by (simp add: word_le_nat_alt unat_gt_0 Suc_le_eq)
  show ?thesis
    using assms sat_add_1_ge sat_add_1_ge_2
    by (auto simp: stamp_type_def Let_def schism_hits_def is_change_def is_schism_def z
        split: option.splits if_splits)
qed

lemma run_stamps_changes:
  assumes "run_stamps cs stm = (stm', rs)"
  shows "(schism_hits stm a \<noteq> 0 \<longrightarrow> list_all (\<lambda>r. \<not> is_schism r) (changes_at a rs)) \<and>
     (schism_hits stm a = 0 \<longrightarrow>
        (case changes_at a rs of [] \<Rightarrow> True | r # rest \<Rightarrow> is_schism r \<and> list_all (\<lambda>r. \<not> is_schism r) rest))"
  using assms
proof (induction cs arbitrary: stm stm' rs)
  case Nil
  then show ?case by (simp add: changes_at_def)
next
  case (Cons c cs)
  obtain b ti src sq where c: "c = (b, ti, src, sq)" by (cases c)
  obtain s1 r where st: "stamp_type b ti src sq stm = (s1, r)" by fastforce
  obtain s2 rs1 where run: "run_stamps cs s1 = (s2, rs1)" by fastforce
  have rs: "rs = (b, r) # rs1" using Cons.prems c st run by simp
  note ih = Cons.IH [OF run]
  note ch = stamp_change [OF st]
  show ?case
  proof (cases "b = a \<and> is_change r")
    case True
    then have "changes_at a rs = r # changes_at a rs1" by (simp add: rs changes_at_def)
    moreover have "schism_hits s1 a \<noteq> 0" using ch True by auto
    ultimately show ?thesis using ih ch True by auto
  next
    case False
    then have "changes_at a rs = changes_at a rs1" by (auto simp: rs changes_at_def)
    moreover have "schism_hits s1 a = schism_hits stm a" using ch False by (cases "b = a") auto
    ultimately show ?thesis using ih by simp
  qed
qed

lemma stamp_type_counts:
  assumes "stamp_type a ti src sq stm = (stm', r)"
  shows "st_schism_count stm' = (if is_schism r then st_schism_count stm + 1 else st_schism_count stm) \<and>
     st_pool_reuse_count stm' =
       (if is_change r \<and> \<not> is_schism r then st_pool_reuse_count stm + 1 else st_pool_reuse_count stm)"
  using assms
  by (auto simp: stamp_type_def Let_def is_change_def is_schism_def split: option.splits if_splits)

lemma run_stamps_counts:
  "run_stamps cs stm = (stm', rs) \<Longrightarrow>
     st_schism_count stm' = st_schism_count stm + of_nat (length (filter is_schism (map snd rs))) \<and>
     st_pool_reuse_count stm' = st_pool_reuse_count stm +
       of_nat (length (filter (\<lambda>r. is_change r \<and> \<not> is_schism r) (map snd rs)))"
proof (induction cs arbitrary: stm stm' rs)
  case (Cons c cs)
  obtain b ti src sq where c: "c = (b, ti, src, sq)" by (cases c)
  obtain s1 r where st: "stamp_type b ti src sq stm = (s1, r)" by fastforce
  obtain s2 rs1 where run: "run_stamps cs s1 = (s2, rs1)" by fastforce
  from Cons.IH [OF run] stamp_type_counts [OF st] Cons.prems show ?case
    by (auto simp: c st run)
qed simp


definition other_type :: type_info where
  "other_type = Type_Info ''other'' 16 False False False False []"



subsection \<open>Histories\<close>

datatype stm_op =
    S_stamp u64 type_info string u64
  | S_write u64 u64 u32 u64
  | S_defer u64 u64 u64
  | S_replay
  | S_purge_deferred u64 u64
  | S_purge_range u64 u64
  | S_purge_indirect u64 u64
  | S_indirect u64 type_info

fun st_apply :: "registry \<Rightarrow> alloc_tracker \<Rightarrow> stm_op \<Rightarrow> shadow_type_map \<Rightarrow> shadow_type_map" where
  "st_apply reg tr (S_stamp a ti src sq) stm = fst (stamp_type a ti src sq stm)"
| "st_apply reg tr (S_write a v sz sq) stm = fst (propagate_field_write a v sz sq reg tr stm)"
| "st_apply reg tr (S_defer a v sq) stm = defer_write a v sq stm"
| "st_apply reg tr S_replay stm = fst (replay_deferred reg tr stm)"
| "st_apply reg tr (S_purge_deferred a sz) stm = purge_deferred a sz stm"
| "st_apply reg tr (S_purge_range a sz) stm = fst (purge_range a sz stm)"
| "st_apply reg tr (S_purge_indirect a sz) stm = purge_indirect a sz stm"
| "st_apply reg tr (S_indirect a ti) stm = register_indirect a ti stm"

lemma st_inv_replay: "st_inv stm \<Longrightarrow> st_inv (fst (replay_deferred reg tr stm))"
proof -
  assume inv: "st_inv stm"
  obtain s n where r: "replay_passes REPLAY_MAX_PASSES reg tr stm 0 = (s, n)" by fastforce
  from replay_passes_spec [OF r] inv have "st_inv s" by blast
  then show ?thesis by (simp add: replay_deferred_def r st_inv_def)
qed

lemma st_inv_apply: "st_inv stm \<Longrightarrow> st_inv (st_apply reg tr op stm)"
proof (cases op)
  case (S_defer a v sq)
  assume "st_inv stm"
  then show ?thesis using S_defer
    by (auto simp: st_inv_def defer_write_def Let_def DEFERRED_CAP_def)
next
  case (S_purge_deferred a sz)
  assume "st_inv stm"
  then show ?thesis using S_purge_deferred
    by (auto simp: st_inv_def purge_deferred_def intro: order_trans [OF length_filter_le])
next
  case (S_purge_range a sz)
  assume "st_inv stm"
  then show ?thesis using S_purge_range
    by (auto simp: st_inv_def purge_range_def Let_def bt_inv_filter list_all_iff)
qed (simp_all add: stamp_type_inv propagate_spec st_inv_replay, simp_all add: st_inv_def purge_indirect_def register_indirect_def)

lemma st_inv_reachable: "st_inv (fold (st_apply reg tr) ops st_new)"
proof -
  have "st_inv stm \<Longrightarrow> st_inv (fold (st_apply reg tr) ops stm)" for stm
    by (induction ops arbitrary: stm) (simp_all add: st_inv_apply)
  then show ?thesis by (simp add: st_inv_def st_new_def)
qed

lemma covering_mem:
  assumes "covering stm a = Some p"
  shows "\<exists>k. (k, p) \<in> set (st_map stm) \<and> k \<le> a \<and> a < proj_upper k p"
proof -
  define es where "es = rev (filter (\<lambda>e. fst e \<le> a) (st_map stm))"
  have mem: "e \<in> set es \<Longrightarrow> e \<in> set (st_map stm) \<and> fst e \<le> a" for e
    by (auto simp: es_def)
  have "\<exists>e \<in> set es. snd e = p \<and> a < proj_upper (fst e) p"
    using assms unfolding covering_def es_def [symmetric] by (auto split: list.splits if_splits)
  with mem show ?thesis by force
qed

text \<open>
  C18 (type).  After any history of stamps, writes, deferrals, replays and purges, for any
  registry and allocation tracker: the map is ordered and holds every projection under its own,
  non-null address, none of size zero; at most 4096 writes are deferred; and an address is covered
  only by a projection of the map whose range contains it.  After a range is purged no projection
  starts in it.
\<close>

theorem shadow_type_map_invariant:
  "(let stm = fold (st_apply reg tr) ops st_new in
     st_inv stm \<and>
     (\<forall>p. covering stm a = Some p \<longrightarrow>
        bt_get (st_map stm) (tp_base_addr p) = Some p \<and> tp_base_addr p \<noteq> 0 \<and>
        tp_base_addr p \<le> a \<and> a < tp_base_addr p + ti_byte_size (tp_type_info p)) \<and>
     (\<forall>b. base \<le> b \<longrightarrow> b < sat_add base sz \<longrightarrow> bt_get (st_map (fst (purge_range base sz stm))) b = None))"
proof -
  define stm where "stm = fold (st_apply reg tr) ops st_new"
  have inv: "st_inv stm" unfolding stm_def by (rule st_inv_reachable)
  then have bt: "bt_inv (st_map stm)" and ok: "\<And>k p. (k, p) \<in> set (st_map stm) \<Longrightarrow> proj_ok (k, p)"
    by (auto simp: st_inv_def list_all_iff)
  have cov: "bt_get (st_map stm) (tp_base_addr p) = Some p \<and> tp_base_addr p \<noteq> 0 \<and>
      tp_base_addr p \<le> a \<and> a < tp_base_addr p + ti_byte_size (tp_type_info p)"
    if c: "covering stm a = Some p" for p
  proof -
    from covering_mem [OF c] obtain k where k: "(k, p) \<in> set (st_map stm)" "k \<le> a" "a < proj_upper k p"
      by blast
    from ok [OF k(1)] k bt show ?thesis
      by (auto simp: proj_ok_def proj_upper_def get_in_set)
  qed
  have purge: "bt_get (st_map (fst (purge_range base sz stm))) b = None"
    if b: "base \<le> b" "b < sat_add base sz" for b
  proof (cases "bt_get (st_map stm) b")
    case None
    with bt show ?thesis by (simp add: purge_range_def Let_def get_filter)
  next
    case (Some p)
    with bt have "(b, p) \<in> set (st_map stm)" by (simp add: get_in_set)
    from ok [OF this] have "tp_base_addr p = b" by (simp add: proj_ok_def)
    with Some b bt show ?thesis by (auto simp: purge_range_def Let_def get_filter)
  qed
  from inv cov purge show ?thesis by (simp add: Let_def stm_def)
qed

theorem shadow_type_map_invariant_witness:
  "\<exists>p. covering chain_stm 4100 = Some p \<and> bt_get (st_map chain_stm) (tp_base_addr p) = Some p"
proof -
  let ?ops = "[S_defer 8192 12288 1, S_defer 4096 8192 2, S_defer 12288 0 3, S_stamp 4096 node_type ''root'' 1]"
  have c: "fold (st_apply [] at_new) ?ops st_new = chain_stm" by (simp add: chain_stm_def)
  have e: "covering chain_stm 4100 \<noteq> None" by code_simp
  from shadow_type_map_invariant [where reg = "[]" and tr = at_new and ops = ?ops and a = 4100] e
  show ?thesis unfolding c Let_def by auto
qed

text \<open>
  A deferred write that a pass picks up is gone even when its propagation has no effect: below,
  the pointer is to a type the registry does not know yet.
\<close>

lemma replay_drops_unresolved:
  "map dw_write_addr (st_deferred chain_stm) = [8192, 4096, 12288] \<and>
   map dw_write_addr (st_deferred (fst (replay_deferred [] at_new chain_stm))) = [8192, 12288] \<and>
   snd (replay_deferred [] at_new chain_stm) = 0"
  by (intro conjI; code_simp)

end
