(* ===== verification/Write_Checks.thy ===== *)
theory Write_Checks
  imports Shadow_Types
begin

text \<open>
  The two checks made on a traced write in \<^verbatim>\<open>engine/src/world.rs\<close>: \<open>check_write_bounds\<close>, against the
  live allocations, and \<open>TypeStabilityMonitor::check_write\<close>, against the field layout of the type
  projected there.  Subtractions and additions on addresses wrap, as in a release build.
\<close>

datatype hazard_kind = OutOfBounds | HeapHole

record heap_hazard =
  hz_kind :: hazard_kind
  hz_write_addr :: u64
  hz_write_size :: u32
  hz_alloc_base :: u64
  hz_alloc_size :: u64
  hz_overflow_bytes :: u64
  hz_type_name :: "string option"
  hz_field_name :: "string option"
  hz_pc :: u64
  hz_reg_snapshot :: "u64 list option"

definition field_at :: "type_projection \<Rightarrow> u64 \<Rightarrow> field_info option" where
  "field_at p a = find (\<lambda>f. fi_byte_offset f = a - tp_base_addr p) (ti_fields (tp_type_info p))"

definition span_lo :: "alloc_tracker \<Rightarrow> u64" where
  "span_lo t = (case at_allocs t of [] \<Rightarrow> - 1 | (a, _) # _ \<Rightarrow> a)"

definition span_hi :: "alloc_tracker \<Rightarrow> u64" where
  "span_hi t = (case rev (at_allocs t) of [] \<Rightarrow> 0 | (a, sz, _) # _ \<Rightarrow> a + sz)"

definition check_write_bounds ::
  "u64 \<Rightarrow> u32 \<Rightarrow> shadow_type_map \<Rightarrow> alloc_tracker \<Rightarrow> heap_hazard option" where
  "check_write_bounds a wsz stm t =
     (case checked_add a (ucast wsz) of
        None \<Rightarrow> None
      | Some e \<Rightarrow>
          (case containing_alloc t a of
             Some (base, sz) \<Rightarrow>
               (let alloc_end = sat_add base sz in
                if alloc_end < e
                then Some \<lparr>hz_kind = OutOfBounds, hz_write_addr = a, hz_write_size = wsz,
                       hz_alloc_base = base, hz_alloc_size = sz, hz_overflow_bytes = e - alloc_end,
                       hz_type_name = map_option (\<lambda>p. ti_name (tp_type_info p)) (covering stm a),
                       hz_field_name = (case covering stm a of None \<Rightarrow> None
                          | Some p \<Rightarrow> map_option fi_name (field_at p a)),
                       hz_pc = 0, hz_reg_snapshot = None\<rparr>
                else None)
           | None \<Rightarrow>
               (if span_lo t \<le> a \<and> a < span_hi t
                then Some \<lparr>hz_kind = HeapHole, hz_write_addr = a, hz_write_size = wsz,
                       hz_alloc_base = 0, hz_alloc_size = 0, hz_overflow_bytes = 0,
                       hz_type_name = map_option (\<lambda>p. ti_name (tp_type_info p)) (covering stm a),
                       hz_field_name = None, hz_pc = 0, hz_reg_snapshot = None\<rparr>
                else None)))"


subsection \<open>What the bounds check reports\<close>

definition alloc_end :: "u64 \<Rightarrow> u64 \<Rightarrow> nat" where
  "alloc_end base sz = min (unat base + unat sz) (2 ^ 64 - 1)"

definition hazard_summary :: "heap_hazard \<Rightarrow> hazard_kind \<times> u64 \<times> u64 \<times> nat" where
  "hazard_summary h = (hz_kind h, hz_alloc_base h, hz_alloc_size h, unat (hz_overflow_bytes h))"

lemma unat_sat_end: "unat (sat_add base sz) = alloc_end base sz"
  for base sz :: u64
  by (simp add: alloc_end_def unat_sat_add)

lemma checked_end:
  assumes "unat a + unat (wsz :: u32) < 2 ^ 64"
  shows "checked_add a (ucast wsz :: u64) = Some (a + ucast wsz) \<and>
     unat (a + ucast wsz :: u64) = unat a + unat wsz"
proof -
  have w: "unat (ucast wsz :: u64) = unat wsz" by (rule unat_ucast_widen) simp
  with assms show ?thesis by (simp add: checked_add_Some unat_add_small)
qed

text \<open>
  C19 (safety).  Where live allocations do not overlap, the bounds check decides every write that
  ends inside the address space.  A write that starts in a live allocation is reported exactly when
  it ends beyond the allocation, with that allocation and the number of bytes beyond its end; a
  write that starts in none is reported as a hole exactly when it lies between the lowest
  allocation and the end of the highest.
\<close>

theorem check_write_bounds_exact:
  assumes inv: "bt_inv (at_allocs t)" and disj: "heap_disjoint t" and fits: "unat a + unat wsz < 2 ^ 64"
  shows "(\<forall>base sz. alloc_size t base = Some sz \<longrightarrow> inside a base sz \<longrightarrow>
      map_option hazard_summary (check_write_bounds a wsz stm t) =
        (if unat a + unat wsz \<le> alloc_end base sz then None
         else Some (OutOfBounds, base, sz, unat a + unat wsz - alloc_end base sz))) \<and>
    ((\<nexists>base sz. alloc_size t base = Some sz \<and> inside a base sz) \<longrightarrow>
      map_option hazard_summary (check_write_bounds a wsz stm t) =
        (if span_lo t \<le> a \<and> a < span_hi t then Some (HeapHole, 0, 0, 0) else None))"
proof (intro conjI allI impI)
  note e = checked_end [OF fits]
  fix base sz
  assume "alloc_size t base = Some sz" "inside a base sz"
  then have c: "containing_alloc t a = Some (base, sz)"
    by (rule containing_alloc_complete [OF inv disj])
  have lt: "sat_add base sz < a + ucast wsz \<longleftrightarrow> alloc_end base sz < unat a + unat wsz"
    by (simp only: word_less_nat_alt unat_sat_end e)
  have "unat (a + ucast wsz - sat_add base sz) = unat a + unat wsz - alloc_end base sz"
    if "sat_add base sz < a + ucast wsz"
    using that by (simp add: unat_sub word_le_nat_alt word_less_nat_alt unat_sat_end e)
  with lt show "map_option hazard_summary (check_write_bounds a wsz stm t) =
        (if unat a + unat wsz \<le> alloc_end base sz then None
         else Some (OutOfBounds, base, sz, unat a + unat wsz - alloc_end base sz))"
    by (simp add: check_write_bounds_def e c Let_def hazard_summary_def not_le)
next
  note e = checked_end [OF fits]
  assume no: "\<nexists>base sz. alloc_size t base = Some sz \<and> inside a base sz"
  have "containing_alloc t a = None"
  proof (cases "containing_alloc t a")
    case (Some bs)
    then obtain base sz where "containing_alloc t a = Some (base, sz)" by (cases bs) auto
    from containing_alloc_sound [OF inv this] no show ?thesis by blast
  qed
  then show "map_option hazard_summary (check_write_bounds a wsz stm t) =
        (if span_lo t \<le> a \<and> a < span_hi t then Some (HeapHole, 0, 0, 0) else None)"
    by (simp add: check_write_bounds_def e hazard_summary_def)
qed

definition heap_two :: alloc_tracker where
  "heap_two = fold at_apply [H_alloc 4096 32, H_alloc 8192 16] at_new"

lemma heap_two_allocs: "at_allocs heap_two = [(4096, (32, 0)), (8192, (16, 1))]"
  by code_simp

theorem check_write_bounds_exact_witness:
  "map_option hazard_summary (check_write_bounds 4124 8 st_new heap_two) = Some (OutOfBounds, 4096, 32, 4)"
proof -
  have inv: "bt_inv (at_allocs heap_two)" by (simp add: heap_two_allocs bt_inv_Cons)
  have disj: "heap_disjoint heap_two"
    by (auto simp: heap_disjoint_def heap_two_allocs split: if_splits)
  have "alloc_size heap_two 4096 = Some 32" "inside 4124 4096 32"
    by (simp_all add: alloc_size_def heap_two_allocs inside_def)
  with check_write_bounds_exact [OF inv disj, of 4124 8 st_new]
  show ?thesis by (simp add: alloc_end_def)
qed

text \<open>A write that runs past the end of the address space is never reported.\<close>

lemma wrapping_write_unreported:
  "2 ^ 64 \<le> unat a + unat wsz \<Longrightarrow> check_write_bounds a wsz stm t = None"
proof -
  assume "2 ^ 64 \<le> unat a + unat wsz"
  moreover have "unat (ucast wsz :: u64) = unat wsz" by (rule unat_ucast_widen) simp
  ultimately have "checked_add a (ucast wsz :: u64) = None" by (simp add: checked_add_None)
  then show ?thesis by (simp add: check_write_bounds_def)
qed


subsection \<open>Type stability\<close>

datatype violation_kind = Interstitial | Spanning

record type_violation =
  tv_kind :: violation_kind
  tv_write_addr :: u64
  tv_write_size :: u32
  tv_base_addr :: u64
  tv_offset :: u64
  tv_type_name :: string
  tv_expected_field :: "string option"
  tv_expected_size :: "u64 option"
  tv_pc :: u64

record stability_tally =
  ty_interstitial :: u64
  ty_spanning :: u64
  ty_aligned :: u64
  ty_synthesized :: u64

definition tally_zero :: stability_tally where
  "tally_zero = \<lparr>ty_interstitial = 0, ty_spanning = 0, ty_aligned = 0, ty_synthesized = 0\<rparr>"

record type_stability =
  ts_tally :: "string \<rightharpoonup> stability_tally"
  ts_violations :: "type_violation list"
  ts_total_checked :: u64
  ts_total_violations :: u64

definition ts_new :: type_stability where
  "ts_new = \<lparr>ts_tally = Map.empty, ts_violations = [], ts_total_checked = 0, ts_total_violations = 0\<rparr>"

definition record_violation :: "type_violation \<Rightarrow> type_stability \<Rightarrow> type_stability" where
  "record_violation v m =
     (if length (ts_violations m) < 128 then m\<lparr>ts_violations := ts_violations m @ [v]\<rparr> else m)"

definition max_tail :: "u32 \<Rightarrow> u64" where
  "max_tail sz = (if 64 \<le> sz then 56 else if 32 \<le> sz then 24 else if 16 \<le> sz then 8 else 0)"

definition field_end :: "field_info \<Rightarrow> u64" where
  "field_end f = fi_byte_offset f + fi_byte_size f"

definition containing_field :: "u64 \<Rightarrow> field_info list \<Rightarrow> field_info option" where
  "containing_field off fs = find (\<lambda>f. fi_byte_offset f \<le> off \<and> off < field_end f) fs"

definition coalesced :: "u64 \<Rightarrow> u64 \<Rightarrow> field_info list \<Rightarrow> bool" where
  "coalesced fend wend fs = list_ex (\<lambda>nf. fend \<le> fi_byte_offset nf \<and> wend \<le> field_end nf) fs"

text \<open>The verdict on a write at an offset, and the bookkeeping around it.\<close>

datatype verdict = V_opaque | V_aligned | V_synthesized | V_spanning field_info | V_interstitial

definition classify_write :: "u64 \<Rightarrow> u32 \<Rightarrow> type_info \<Rightarrow> verdict" where
  "classify_write off wsz ti =
     (if ti_fields ti = [] then V_opaque
      else
        (let wend = off + ucast wsz in
         case containing_field off (ti_fields ti) of
           Some f \<Rightarrow>
             (if field_end f < wend
              then
                (let co = coalesced (field_end f) wend (ti_fields ti);
                     tail_spill = (\<not> co \<and> wend \<le> ti_byte_size ti + max_tail wsz \<and> ti_byte_size ti < wend)
                 in if \<not> co \<and> \<not> tail_spill then V_spanning f else V_aligned)
              else V_aligned)
         | None \<Rightarrow> if wend \<le> ti_byte_size ti then V_synthesized else V_interstitial))"

definition bump_tally :: "verdict \<Rightarrow> stability_tally \<Rightarrow> stability_tally" where
  "bump_tally v y =
     (case v of
        V_opaque \<Rightarrow> y
      | V_aligned \<Rightarrow> y\<lparr>ty_aligned := ty_aligned y + 1\<rparr>
      | V_synthesized \<Rightarrow> y\<lparr>ty_synthesized := ty_synthesized y + 1, ty_aligned := ty_aligned y + 1\<rparr>
      | V_spanning _ \<Rightarrow> y\<lparr>ty_spanning := ty_spanning y + 1\<rparr>
      | V_interstitial \<Rightarrow> y\<lparr>ty_interstitial := ty_interstitial y + 1\<rparr>)"

definition violation_of :: "verdict \<Rightarrow> u64 \<Rightarrow> u32 \<Rightarrow> type_projection \<Rightarrow> u64 \<Rightarrow> type_violation option" where
  "violation_of v a wsz p pc =
     (let mk = (\<lambda>k fld sz. \<lparr>tv_kind = k, tv_write_addr = a, tv_write_size = wsz,
            tv_base_addr = tp_base_addr p, tv_offset = a - tp_base_addr p,
            tv_type_name = ti_name (tp_type_info p), tv_expected_field = fld, tv_expected_size = sz,
            tv_pc = pc\<rparr>)
      in case v of
           V_spanning f \<Rightarrow> Some (mk Spanning (Some (fi_name f)) (Some (fi_byte_size f)))
         | V_interstitial \<Rightarrow> Some (mk Interstitial None None)
         | _ \<Rightarrow> None)"

definition ts_check_write ::
  "u64 \<Rightarrow> u32 \<Rightarrow> type_projection \<Rightarrow> u64 \<Rightarrow> type_stability \<Rightarrow> type_stability \<times> bool" where
  "ts_check_write a wsz p pc m =
     (let v = classify_write (a - tp_base_addr p) wsz (tp_type_info p);
          m1 = m\<lparr>ts_total_checked := ts_total_checked m + 1\<rparr>;
          n = ti_name (tp_type_info p);
          y = (case ts_tally m n of Some y \<Rightarrow> y | None \<Rightarrow> tally_zero);
          m2 = (if v = V_opaque then m1 else m1\<lparr>ts_tally := (ts_tally m1)(n \<mapsto> bump_tally v y)\<rparr>)
      in case violation_of v a wsz p pc of
           Some x \<Rightarrow> (record_violation x (m2\<lparr>ts_total_violations := ts_total_violations m2 + 1\<rparr>), True)
         | None \<Rightarrow> (m2, False))"

type_synonym checked_write = "u64 \<times> u32 \<times> type_projection \<times> u64"

fun write_verdict :: "checked_write \<Rightarrow> verdict" where
  "write_verdict (a, wsz, p, pc) = classify_write (a - tp_base_addr p) wsz (tp_type_info p)"

fun write_violation :: "checked_write \<Rightarrow> type_violation option" where
  "write_violation (a, wsz, p, pc) =
     violation_of (classify_write (a - tp_base_addr p) wsz (tp_type_info p)) a wsz p pc"

fun ts_apply :: "checked_write \<Rightarrow> type_stability \<Rightarrow> type_stability" where
  "ts_apply (a, wsz, p, pc) m = fst (ts_check_write a wsz p pc m)"

definition verdicts_on :: "string \<Rightarrow> checked_write list \<Rightarrow> verdict list" where
  "verdicts_on n ws = filter (\<lambda>v. v \<noteq> V_opaque)
     (map write_verdict (filter (\<lambda>(_, _, p, _). ti_name (tp_type_info p) = n) ws))"

definition tally_after :: "verdict list \<Rightarrow> stability_tally option \<Rightarrow> stability_tally option" where
  "tally_after vs y0 =
     (if vs = [] then y0 else Some (fold bump_tally vs (case y0 of Some y \<Rightarrow> y | None \<Rightarrow> tally_zero)))"

lemma ts_step:
  assumes w: "w = (a, wsz, p, pc)"
  shows "ts_total_checked (ts_apply w m) = ts_total_checked m + 1"
    and "ts_total_violations (ts_apply w m) = ts_total_violations m + (if write_violation w = None then 0 else 1)"
    and "ts_violations (ts_apply w m) =
       (case write_violation w of None \<Rightarrow> ts_violations m
        | Some v \<Rightarrow> if length (ts_violations m) < 128 then ts_violations m @ [v] else ts_violations m)"
    and "ts_tally (ts_apply w m) n = tally_after (verdicts_on n [w]) (ts_tally m n)"
  by (auto simp: w ts_check_write_def Let_def record_violation_def tally_after_def verdicts_on_def
      split: option.split)

lemma tally_after_append: "tally_after vs (tally_after us y) = tally_after (us @ vs) y"
  by (auto simp: tally_after_def)

lemma ts_run:
  "ts_total_checked (fold ts_apply ws m) = ts_total_checked m + of_nat (length ws) \<and>
   ts_total_violations (fold ts_apply ws m) =
     ts_total_violations m + of_nat (length (List.map_filter write_violation ws)) \<and>
   (length (ts_violations m) \<le> 128 \<longrightarrow>
      ts_violations (fold ts_apply ws m) = take 128 (ts_violations m @ List.map_filter write_violation ws)) \<and>
   ts_tally (fold ts_apply ws m) n = tally_after (verdicts_on n ws) (ts_tally m n)"
proof (induction ws arbitrary: m)
  case Nil
  then show ?case by (simp add: verdicts_on_def tally_after_def map_filter_simps)
next
  case (Cons w ws)
  obtain a wsz p pc where w: "w = (a, wsz, p, pc)" by (cases w)
  note st = ts_step [OF w, of m]
  note ih = Cons.IH [of "ts_apply w m"]
  have "verdicts_on n (w # ws) = verdicts_on n [w] @ verdicts_on n ws"
    by (simp add: verdicts_on_def)
  then have t: "ts_tally (fold ts_apply (w # ws) m) n = tally_after (verdicts_on n (w # ws)) (ts_tally m n)"
    using ih st(4) [of n] by (simp only: fold.simps comp_apply tally_after_append)
  have v: "length (ts_violations m) \<le> 128 \<longrightarrow>
      ts_violations (fold ts_apply (w # ws) m) = take 128 (ts_violations m @ List.map_filter write_violation (w # ws))"
  proof
    assume le: "length (ts_violations m) \<le> 128"
    show "ts_violations (fold ts_apply (w # ws) m) = take 128 (ts_violations m @ List.map_filter write_violation (w # ws))"
    proof (cases "write_violation w")
      case None
      with le ih st(3) show ?thesis by (simp add: map_filter_simps)
    next
      case (Some x)
      with le ih st(3) show ?thesis by (cases "length (ts_violations m) = 128") (simp_all add: map_filter_simps)
    qed
  qed
  show ?case
    using t v ih st(1,2) by (cases "write_violation w") (simp_all add: map_filter_simps)
qed

text \<open>
  Over any sequence of checked writes the stability monitor counts every write,
  counts exactly the violations, stores the first 128 of them, and keeps for each type name the
  tally of the verdicts on writes to types of that name (types without fields are not tallied).
\<close>

theorem type_stability_accounts:
  "ts_total_checked (fold ts_apply ws ts_new) = of_nat (length ws) \<and>
   ts_total_violations (fold ts_apply ws ts_new) = of_nat (length (List.map_filter write_violation ws)) \<and>
   ts_violations (fold ts_apply ws ts_new) = take 128 (List.map_filter write_violation ws) \<and>
   ts_tally (fold ts_apply ws ts_new) n =
     (if verdicts_on n ws = [] then None else Some (fold bump_tally (verdicts_on n ws) tally_zero))"
  using ts_run [of ws ts_new n] by (simp add: ts_new_def tally_after_def)

text \<open>
  A wide store that ends in the middle of a later field is accepted: the test asks for a later
  field that ends at or after the store, not for a store that ends on a field's boundary.
\<close>

definition pair_type :: type_info where
  "pair_type = Type_Info ''pair'' 16 False False False False
     [Field_Info ''a'' 0 8 ti_unknown 0, Field_Info ''b'' 8 8 ti_unknown 0]"

lemma mid_field_store_accepted: "classify_write 0 12 pair_type = V_aligned"
  by code_simp

end
