(* ===== verification/Type_Epochs.thy ===== *)
theory Type_Epochs
  imports Write_Checks
begin

text \<open>
  \<open>TypeEpochLog\<close> of \<^verbatim>\<open>engine/src/world.rs\<close>: a bounded log of the lifetimes of projections, kept in a
  circular buffer.  What a circular buffer promises its users, that it holds the most recent
  entries in order, is the locale \<open>bounded_log\<close>; the snapshots of the world are kept the same way.
\<close>

definition last_n :: "nat \<Rightarrow> 'a list \<Rightarrow> 'a list" where
  "last_n n xs = drop (length xs - n) xs"

lemma last_n_all [simp]: "length xs \<le> n \<Longrightarrow> last_n n xs = xs"
  by (simp add: last_n_def)

lemma length_last_n [simp]: "length (last_n n xs) = min n (length xs)"
  by (simp add: last_n_def)

lemma last_n_append: "last_n n (last_n n xs @ ys) = last_n n (xs @ ys)"
proof (cases "length xs \<le> n")
  case False
  then have "length xs - n + (length ys + n - n) = length xs + length ys - n" by simp
  then show ?thesis using False by (simp add: last_n_def add.commute)
qed simp

locale bounded_log =
  fixes push :: "'e \<Rightarrow> 's \<Rightarrow> 's"
    and items :: "'s \<Rightarrow> 'e list"
    and inv :: "'s \<Rightarrow> bool"
    and cap :: "'s \<Rightarrow> nat"
  assumes inv_push: "inv s \<Longrightarrow> inv (push x s)"
    and cap_push: "inv s \<Longrightarrow> cap (push x s) = cap s"
    and items_push: "inv s \<Longrightarrow> items (push x s) = last_n (cap s) (items s @ [x])"
    and items_cap: "inv s \<Longrightarrow> length (items s) \<le> cap s"
begin

lemma inv_run: "inv s \<Longrightarrow> inv (fold push xs s)"
  by (induction xs arbitrary: s) (simp_all add: inv_push)

lemma items_run: "inv s \<Longrightarrow> items (fold push xs s) = last_n (cap s) (items s @ xs)"
proof (induction xs arbitrary: s)
  case Nil
  then show ?case by (simp add: items_cap)
next
  case (Cons x xs)
  then have "items (fold push (x # xs) s) = last_n (cap s) (last_n (cap s) (items s @ [x]) @ xs)"
    by (simp add: inv_push cap_push items_push)
  then show ?case by (simp add: last_n_append)
qed

lemma items_from_empty: "inv s \<Longrightarrow> items s = [] \<Longrightarrow> items (fold push xs s) = last_n (cap s) xs"
  by (simp add: items_run)

end


subsection \<open>Circular buffers\<close>

text \<open>
  The writing step both logs share: grow until the capacity is reached, then overwrite at the
  write position.  The items are the buffer from the write position on, then its beginning.
\<close>

definition circ_put :: "nat \<Rightarrow> nat \<Rightarrow> 'a \<Rightarrow> 'a list \<Rightarrow> 'a list" where
  "circ_put cap pos x buf = (if length buf < cap then buf @ [x] else buf[pos := x])"

definition circ_items :: "nat \<Rightarrow> nat \<Rightarrow> 'a list \<Rightarrow> 'a list" where
  "circ_items cap pos buf = (if length buf < cap then buf else drop pos buf @ take pos buf)"

definition circ_inv :: "nat \<Rightarrow> nat \<Rightarrow> nat \<Rightarrow> 'a list \<Rightarrow> bool" where
  "circ_inv cap pos len buf \<longleftrightarrow>
     0 < cap \<and> pos < cap \<and> len = length buf \<and> length buf \<le> cap \<and> (length buf < cap \<longrightarrow> pos = length buf)"

lemma circ_inv_put:
  assumes "circ_inv cap pos len buf"
  shows "circ_inv cap ((pos + 1) mod cap) (min (len + 1) cap) (circ_put cap pos x buf)"
proof (cases "length buf < cap")
  case True
  with assms show ?thesis
    by (cases "Suc (length buf) = cap") (auto simp: circ_inv_def circ_put_def)
next
  case False
  with assms show ?thesis by (auto simp: circ_inv_def circ_put_def)
qed

lemma circ_items_put:
  assumes "circ_inv cap pos len buf"
  shows "circ_items cap ((pos + 1) mod cap) (circ_put cap pos x buf) = last_n cap (circ_items cap pos buf @ [x])"
proof (cases "length buf < cap")
  case True
  then have pos: "pos = length buf" using assms by (simp add: circ_inv_def)
  show ?thesis
  proof (cases "Suc (length buf) < cap")
    case True
    then show ?thesis by (simp add: circ_items_def circ_put_def)
  next
    case False
    with True have "Suc (length buf) = cap" by simp
    with True pos show ?thesis by (simp add: circ_items_def circ_put_def)
  qed
next
  case False
  then have len: "length buf = cap" and pos: "pos < cap" using assms by (auto simp: circ_inv_def)
  have upd: "buf[pos := x] = take pos buf @ x # drop (Suc pos) buf"
    using len pos by (simp add: upd_conv_take_nth_drop)
  have dr: "drop pos buf = buf ! pos # drop (Suc pos) buf"
    using len pos by (simp add: Cons_nth_drop_Suc)
  show ?thesis
  proof (cases "Suc pos = cap")
    case True
    with len pos show ?thesis by (simp add: circ_items_def circ_put_def upd dr last_n_def)
  next
    case False
    with pos have "Suc pos < cap" by simp
    with len pos show ?thesis by (simp add: circ_items_def circ_put_def upd dr last_n_def)
  qed
qed

lemma circ_items_length: "circ_inv cap pos len buf \<Longrightarrow> length (circ_items cap pos buf) = len"
  by (auto simp: circ_inv_def circ_items_def)


subsection \<open>The epoch log\<close>

datatype epoch_close = Close_Free | Close_Realloc | Close_Schism

record type_epoch =
  te_addr :: u64
  te_size :: u64
  te_type_name :: string
  te_source :: string
  te_open_seq :: u64
  te_close_seq :: u64
  te_close_reason :: epoch_close

record type_epoch_log =
  el_buf :: "type_epoch list"
  el_cap :: nat
  el_head :: nat
  el_len :: nat
  el_total_closed :: u64

definition el_new :: "nat \<Rightarrow> type_epoch_log" where
  "el_new cap = \<lparr>el_buf = [], el_cap = cap, el_head = 0, el_len = 0, el_total_closed = 0\<rparr>"

text \<open>\<open>self.head = (self.head + 1) % self.cap\<close> panics on a capacity of zero; logs are made with 65536.\<close>

definition el_push :: "type_epoch \<Rightarrow> type_epoch_log \<Rightarrow> type_epoch_log" where
  "el_push e l =
     l\<lparr>el_buf := circ_put (el_cap l) (el_head l) e (el_buf l),
       el_head := (el_head l + 1) mod el_cap l,
       el_len := min (el_len l + 1) (el_cap l),
       el_total_closed := el_total_closed l + 1\<rparr>"

definition mk_epoch :: "u64 \<Rightarrow> u64 \<Rightarrow> type_projection \<Rightarrow> u64 \<Rightarrow> epoch_close \<Rightarrow> type_epoch" where
  "mk_epoch a sz p close_seq reason =
     \<lparr>te_addr = a, te_size = sz, te_type_name = ti_name (tp_type_info p), te_source = tp_source_name p,
      te_open_seq = tp_stamp_seq p, te_close_seq = close_seq, te_close_reason = reason\<rparr>"

definition close_epoch ::
  "u64 \<Rightarrow> u64 \<Rightarrow> type_projection \<Rightarrow> u64 \<Rightarrow> epoch_close \<Rightarrow> type_epoch_log \<Rightarrow> type_epoch_log" where
  "close_epoch a sz p close_seq reason l = el_push (mk_epoch a sz p close_seq reason) l"

definition el_iter :: "type_epoch_log \<Rightarrow> type_epoch list" where
  "el_iter l =
     (if length (el_buf l) < el_cap l then el_buf l
      else drop (el_head l) (el_buf l) @ take (el_head l) (el_buf l))"

definition el_query :: "u64 \<Rightarrow> u64 \<Rightarrow> type_epoch_log \<Rightarrow> type_epoch option" where
  "el_query a sq l =
     find (\<lambda>e. te_addr e = a \<and> te_open_seq e \<le> sq \<and> sq < te_close_seq e) (el_iter l)"

definition el_history :: "u64 \<Rightarrow> type_epoch_log \<Rightarrow> type_epoch list" where
  "el_history a l = filter (\<lambda>e. te_addr e = a) (el_iter l)"

fun reason_index :: "epoch_close \<Rightarrow> nat" where
  "reason_index Close_Free = 0" | "reason_index Close_Realloc = 1" | "reason_index Close_Schism = 2"

record epoch_stats =
  es_count :: u64
  es_total_lifetime :: u64
  es_by_reason :: "u64 list"

definition add_epoch :: "type_epoch \<Rightarrow> epoch_stats \<Rightarrow> epoch_stats" where
  "add_epoch e s =
     \<lparr>es_count = es_count s + 1,
      es_total_lifetime = es_total_lifetime s + sat_sub (te_close_seq e) (te_open_seq e),
      es_by_reason = (let i = reason_index (te_close_reason e) in (es_by_reason s)[i := es_by_reason s ! i + 1])\<rparr>"

definition el_summary :: "type_epoch_log \<Rightarrow> (string \<rightharpoonup> epoch_stats)" where
  "el_summary l =
     fold (\<lambda>e m. m(te_type_name e \<mapsto>
         add_epoch e (case m (te_type_name e) of Some s \<Rightarrow> s
                      | None \<Rightarrow> \<lparr>es_count = 0, es_total_lifetime = 0, es_by_reason = [0, 0, 0]\<rparr>)))
       (el_iter l) Map.empty"

definition el_inv :: "type_epoch_log \<Rightarrow> bool" where
  "el_inv l \<longleftrightarrow> circ_inv (el_cap l) (el_head l) (el_len l) (el_buf l)"

lemma el_iter_circ: "el_iter l = circ_items (el_cap l) (el_head l) (el_buf l)"
  by (simp add: el_iter_def circ_items_def)

interpretation epochs: bounded_log el_push el_iter el_inv el_cap
proof
  fix l :: type_epoch_log and e
  assume inv: "el_inv l"
  then show "el_inv (el_push e l)"
    using circ_inv_put [of "el_cap l" "el_head l" "el_len l" "el_buf l" e] by (simp add: el_inv_def el_push_def)
  show "el_cap (el_push e l) = el_cap l" by (simp add: el_push_def)
  show "el_iter (el_push e l) = last_n (el_cap l) (el_iter l @ [e])"
    using inv circ_items_put [of "el_cap l" "el_head l" "el_len l" "el_buf l" e]
    by (simp add: el_inv_def el_iter_circ el_push_def)
  show "length (el_iter l) \<le> el_cap l"
    using inv circ_items_length [of "el_cap l" "el_head l" "el_len l" "el_buf l"]
    by (auto simp: el_inv_def el_iter_circ circ_inv_def)
qed

lemma el_inv_new: "0 < cap \<Longrightarrow> el_inv (el_new cap)"
  by (simp add: el_inv_def el_new_def circ_inv_def)

type_synonym epoch_call = "u64 \<times> u64 \<times> type_projection \<times> u64 \<times> epoch_close"

fun call_epoch :: "epoch_call \<Rightarrow> type_epoch" where
  "call_epoch (a, sz, p, sq, r) = mk_epoch a sz p sq r"

fun el_apply :: "epoch_call \<Rightarrow> type_epoch_log \<Rightarrow> type_epoch_log" where
  "el_apply (a, sz, p, sq, r) l = close_epoch a sz p sq r l"

lemma el_apply_fold: "fold el_apply cs l = fold el_push (map call_epoch cs) l"
proof (induction cs arbitrary: l)
  case (Cons c cs)
  then show ?case by (cases c) (simp add: close_epoch_def)
qed simp

text \<open>
  A log of positive capacity holds, from oldest to newest, exactly the last
  \<open>cap\<close> epochs that were closed; its history of an address is their restriction to the address,
  and a query finds the oldest retained epoch of the address that was open at the sequence number.
\<close>

theorem epoch_log_refines:
  assumes "0 < cap"
  shows "el_iter (fold el_apply cs (el_new cap)) = last_n cap (map call_epoch cs) \<and>
     el_history a (fold el_apply cs (el_new cap)) = filter (\<lambda>e. te_addr e = a) (last_n cap (map call_epoch cs)) \<and>
     el_len (fold el_apply cs (el_new cap)) = min cap (length cs) \<and>
     el_query a sq (fold el_apply cs (el_new cap)) =
       find (\<lambda>e. te_addr e = a \<and> te_open_seq e \<le> sq \<and> sq < te_close_seq e) (last_n cap (map call_epoch cs))"
proof -
  let ?l = "fold el_apply cs (el_new cap)"
  have items: "el_iter ?l = last_n cap (map call_epoch cs)"
    using epochs.items_from_empty [OF el_inv_new [OF assms]]
    by (simp add: el_apply_fold) (simp add: el_iter_def el_new_def)
  have "el_inv ?l"
    using epochs.inv_run [OF el_inv_new [OF assms]] by (simp add: el_apply_fold)
  then have "el_len ?l = length (el_iter ?l)"
    by (simp add: el_inv_def el_iter_circ circ_items_length)
  with items show ?thesis by (simp add: el_history_def el_query_def)
qed

definition epoch_calls :: "epoch_call list" where
  "epoch_calls = map (\<lambda>k. (4096, 16, \<lparr>tp_base_addr = 4096, tp_type_info = pair_type,
     tp_source_name = ''p'', tp_stamp_seq = of_nat k\<rparr>, of_nat (k + 1), Close_Free)) [0..<5]"

theorem epoch_log_refines_witness:
  "map te_open_seq (el_iter (fold el_apply epoch_calls (el_new 3))) = [2, 3, 4]"
proof -
  have "map te_open_seq (last_n 3 (map call_epoch epoch_calls)) = [2, 3, 4]" by code_simp
  with epoch_log_refines [of 3 epoch_calls] show ?thesis by simp
qed

end
