(* ===== verification/World_State.thy ===== *)
theory World_State
  imports Type_Epochs
begin

text \<open>
  The graph part of \<open>WorldState\<close> in \<^verbatim>\<open>engine/src/world.rs\<close>: the nodes with their values, the pointer
  edges between them, the instruction counter and the live registers, and the shadow call stack.

  \<open>Arc\<close> with copy on write is value semantics: a snapshot is the value of the state.  The cache
  heat of nodes (\<open>f32\<close> arithmetic) is not modelled.  Both maps are ordered by node, in the derived
  order of \<open>NodeId\<close>: globals, fields, locals, each by their components.
\<close>

fun node_key :: "node_id \<Rightarrow> nat \<times> nat \<times> nat" where
  "node_key (N_Global g) = (0, unat g, 0)"
| "node_key (N_Field g f) = (1, unat g, unat f)"
| "node_key (N_Local fr l) = (2, unat fr, unat l)"

fun key_le :: "nat \<times> nat \<times> nat \<Rightarrow> nat \<times> nat \<times> nat \<Rightarrow> bool" where
  "key_le (a, b, c) (d, e, f) \<longleftrightarrow> a < d \<or> a = d \<and> (b < e \<or> b = e \<and> c \<le> f)"

lemma node_key_inj: "node_key m = node_key n \<longleftrightarrow> m = n"
  by (cases m; cases n) (auto simp: word_unat_eq_iff)

lemma key_le_linear:
  "key_le k k" "key_le k l \<Longrightarrow> key_le l m \<Longrightarrow> key_le k m" "key_le k l \<Longrightarrow> key_le l k \<Longrightarrow> k = l"
  "key_le k l \<or> key_le l k"
  by (cases k; cases l; cases m; auto)+

instantiation node_id :: linorder
begin

definition less_eq_node_id :: "node_id \<Rightarrow> node_id \<Rightarrow> bool" where
  "m \<le> n \<longleftrightarrow> key_le (node_key m) (node_key n)"

definition less_node_id :: "node_id \<Rightarrow> node_id \<Rightarrow> bool" where
  "m < n \<longleftrightarrow> key_le (node_key m) (node_key n) \<and> m \<noteq> n"

instance
proof
  fix a b c :: node_id
  show "(a < b) = (a \<le> b \<and> \<not> b \<le> a)"
    unfolding less_eq_node_id_def less_node_id_def
    using key_le_linear(3) [of "node_key a" "node_key b"] key_le_linear(1) node_key_inj by metis
  show "a \<le> a" by (simp add: less_eq_node_id_def key_le_linear(1))
  show "a \<le> b \<Longrightarrow> b \<le> c \<Longrightarrow> a \<le> c"
    unfolding less_eq_node_id_def by (rule key_le_linear(2))
  show "a \<le> b \<Longrightarrow> b \<le> a \<Longrightarrow> a = b"
    unfolding less_eq_node_id_def using key_le_linear(3) node_key_inj by blast
  show "a \<le> b \<or> b \<le> a" unfolding less_eq_node_id_def by (rule key_le_linear(4))
qed

end

record live_register_file =
  lrf_values :: "u64 list"
  lrf_prev :: "u64 list"
  lrf_insn :: u64

definition lrf_new :: live_register_file where
  "lrf_new = \<lparr>lrf_values = replicate REG_COUNT 0, lrf_prev = replicate REG_COUNT 0, lrf_insn = 0\<rparr>"

definition lrf_update :: "u64 list \<Rightarrow> u64 \<Rightarrow> live_register_file \<Rightarrow> live_register_file" where
  "lrf_update regs insn r = r\<lparr>lrf_prev := lrf_values r, lrf_values := regs, lrf_insn := insn\<rparr>"

record node =
  nd_name :: string
  nd_type_info :: type_info
  nd_addr :: u64
  nd_size :: u64
  nd_raw_value :: u64
  nd_last_write_insn :: u64

record pointer_edge =
  pe_source :: node_id
  pe_target :: node_id
  pe_ptr_value :: u64
  pe_is_dangling :: bool

record world_inner =
  wi_nodes :: "(node_id, node) btree_map"
  wi_edges :: "(node_id, pointer_edge) btree_map"
  wi_insn_counter :: u64
  wi_reg_file :: live_register_file

definition wi_new :: world_inner where
  "wi_new = \<lparr>wi_nodes = [], wi_edges = [], wi_insn_counter = 0, wi_reg_file = lrf_new\<rparr>"

definition inc_insn_counter :: "world_inner \<Rightarrow> world_inner" where
  "inc_insn_counter w = w\<lparr>wi_insn_counter := wi_insn_counter w + 1\<rparr>"

definition node_exists :: "node_id \<Rightarrow> world_inner \<Rightarrow> bool" where
  "node_exists i w \<longleftrightarrow> bt_get (wi_nodes w) i \<noteq> None"

definition ensure_node ::
  "node_id \<Rightarrow> string \<Rightarrow> type_info \<Rightarrow> u64 \<Rightarrow> u64 \<Rightarrow> world_inner \<Rightarrow> world_inner \<times> bool" where
  "ensure_node i name ti a sz w =
     (if node_exists i w then (w, False)
      else (w\<lparr>wi_nodes := bt_insert i \<lparr>nd_name = name, nd_type_info = ti, nd_addr = a, nd_size = sz,
                nd_raw_value = 0, nd_last_write_insn = 0\<rparr> (wi_nodes w)\<rparr>, True))"

definition remove_node :: "node_id \<Rightarrow> world_inner \<Rightarrow> world_inner" where
  "remove_node i w = w\<lparr>wi_nodes := bt_remove i (wi_nodes w), wi_edges := bt_remove i (wi_edges w)\<rparr>"

definition update_value :: "node_id \<Rightarrow> u64 \<Rightarrow> u64 \<Rightarrow> world_inner \<Rightarrow> world_inner" where
  "update_value i v insn w =
     (case bt_get (wi_nodes w) i of None \<Rightarrow> w
      | Some n \<Rightarrow> w\<lparr>wi_nodes := bt_insert i (n\<lparr>nd_raw_value := v, nd_last_write_insn := insn\<rparr>) (wi_nodes w)\<rparr>)"

definition is_local_of :: "frame_id \<Rightarrow> node_id \<Rightarrow> bool" where
  "is_local_of fid i = (case i of N_Local f _ \<Rightarrow> f = fid | _ \<Rightarrow> False)"

definition remove_frame_nodes :: "frame_id \<Rightarrow> world_inner \<Rightarrow> world_inner" where
  "remove_frame_nodes fid w =
     (let dead = filter (is_local_of fid) (map fst (wi_nodes w));
          w1 = fold remove_node dead w
      in w1\<lparr>wi_edges := filter (\<lambda>(_, e). pe_target e \<notin> set dead) (wi_edges w1)\<rparr>)"

definition DANGLING :: node_id where "DANGLING = N_Global (- 1)"

definition update_edge :: "node_id \<Rightarrow> node_id option \<Rightarrow> u64 \<Rightarrow> world_inner \<Rightarrow> world_inner" where
  "update_edge src target v w =
     (case target of
        Some tgt \<Rightarrow> w\<lparr>wi_edges := bt_insert src
            \<lparr>pe_source = src, pe_target = tgt, pe_ptr_value = v, pe_is_dangling = False\<rparr> (wi_edges w)\<rparr>
      | None \<Rightarrow>
          (if v = 0 then w\<lparr>wi_edges := bt_remove src (wi_edges w)\<rparr>
           else w\<lparr>wi_edges := bt_insert src
            \<lparr>pe_source = src, pe_target = DANGLING, pe_ptr_value = v, pe_is_dangling = True\<rparr> (wi_edges w)\<rparr>))"

definition update_regs :: "u64 list \<Rightarrow> u64 \<Rightarrow> world_inner \<Rightarrow> world_inner" where
  "update_regs regs insn w = w\<lparr>wi_reg_file := lrf_update regs insn (wi_reg_file w)\<rparr>"


subsection \<open>The pointer graph\<close>

definition edge_ok :: "world_inner \<Rightarrow> node_id \<Rightarrow> pointer_edge \<Rightarrow> bool" where
  "edge_ok w i e \<longleftrightarrow> pe_source e = i \<and> node_exists i w \<and>
     (if pe_is_dangling e then pe_target e = DANGLING \<and> pe_ptr_value e \<noteq> 0
      else node_exists (pe_target e) w)"

definition graph_inv :: "world_inner \<Rightarrow> bool" where
  "graph_inv w \<longleftrightarrow> bt_inv (wi_nodes w) \<and> bt_inv (wi_edges w) \<and>
     (\<forall>i e. bt_get (wi_edges w) i = Some e \<longrightarrow> edge_ok w i e)"

lemma graph_inv_new: "graph_inv wi_new"
  by (simp add: graph_inv_def wi_new_def)

lemma edge_ok_mono:
  "edge_ok w i e \<Longrightarrow> (\<And>j. node_exists j w \<Longrightarrow> node_exists j w') \<Longrightarrow> edge_ok w' i e"
  by (auto simp: edge_ok_def)

lemma graph_inv_ensure: "graph_inv w \<Longrightarrow> graph_inv (fst (ensure_node i name ti a sz w))"
proof (cases "node_exists i w")
  case False
  let ?w = "fst (ensure_node i name ti a sz w)"
  assume inv: "graph_inv w"
  have mono: "node_exists j w \<Longrightarrow> node_exists j ?w" for j
    using False inv by (auto simp: ensure_node_def node_exists_def graph_inv_def bt.get_ins)
  have "edge_ok ?w j e" if "bt_get (wi_edges w) j = Some e" for j e
    using inv that by (auto simp: graph_inv_def intro: edge_ok_mono mono)
  then show ?thesis
    using False inv by (simp add: graph_inv_def ensure_node_def bt.inv_ins)
qed (simp add: ensure_node_def)

lemma update_value_nodes:
  "bt_inv (wi_nodes w) \<Longrightarrow> bt_inv (wi_nodes (update_value i v n w)) \<and>
     (\<forall>j. node_exists j (update_value i v n w) = node_exists j w) \<and> wi_edges (update_value i v n w) = wi_edges w"
  by (auto simp: update_value_def node_exists_def bt.inv_ins bt.get_ins split: option.split)

lemma graph_inv_value:
  assumes "graph_inv w"
  shows "graph_inv (update_value i v n w)"
proof -
  have u: "bt_inv (wi_nodes (update_value i v n w))"
    "\<And>j. node_exists j (update_value i v n w) = node_exists j w"
    "wi_edges (update_value i v n w) = wi_edges w"
    using update_value_nodes [of w i v n] assms by (simp_all add: graph_inv_def)
  have "edge_ok w j e = edge_ok (update_value i v n w) j e" for j e
    by (simp add: edge_ok_def u(2))
  with assms u(1,3) show ?thesis by (simp add: graph_inv_def)
qed

lemma node_exists_edges [simp]: "node_exists j (w\<lparr>wi_edges := es\<rparr>) = node_exists j w"
  by (simp add: node_exists_def)

lemma edge_ok_edges [simp]: "edge_ok (w\<lparr>wi_edges := es\<rparr>) = edge_ok w"
  by (simp add: fun_eq_iff edge_ok_def)

lemma graph_inv_edge:
  assumes "graph_inv w" "node_exists src w" "\<And>t. target = Some t \<Longrightarrow> node_exists t w"
  shows "graph_inv (update_edge src target v w)"
proof (cases target)
  case (Some t)
  with assms show ?thesis
    by (auto simp: graph_inv_def update_edge_def bt.inv_ins bt.get_ins edge_ok_def)
next
  case None
  with assms show ?thesis
    by (auto simp: graph_inv_def update_edge_def bt.inv_ins bt.get_ins bt.inv_del bt.get_del edge_ok_def
        split: if_splits)
qed

lemma fold_remove_node:
  "bt_inv (wi_nodes w) \<Longrightarrow> bt_inv (wi_edges w) \<Longrightarrow>
     bt_inv (wi_nodes (fold remove_node dead w)) \<and> bt_inv (wi_edges (fold remove_node dead w)) \<and>
     bt_get (wi_nodes (fold remove_node dead w)) = (\<lambda>i. if i \<in> set dead then None else bt_get (wi_nodes w) i) \<and>
     bt_get (wi_edges (fold remove_node dead w)) = (\<lambda>i. if i \<in> set dead then None else bt_get (wi_edges w) i)"
  by (induction dead arbitrary: w) (auto simp: remove_node_def bt.inv_del bt.get_del fun_eq_iff)

lemma remove_frame_get:
  assumes "bt_inv (wi_nodes w)" "bt_inv (wi_edges w)"
  shows "bt_inv (wi_nodes (remove_frame_nodes fid w)) \<and> bt_inv (wi_edges (remove_frame_nodes fid w)) \<and>
    bt_get (wi_nodes (remove_frame_nodes fid w)) i = (if is_local_of fid i then None else bt_get (wi_nodes w) i) \<and>
    bt_get (wi_edges (remove_frame_nodes fid w)) i =
      (case bt_get (wi_edges w) i of None \<Rightarrow> None
       | Some e \<Rightarrow>
           if is_local_of fid i \<and> node_exists i w then None
           else if is_local_of fid (pe_target e) \<and> node_exists (pe_target e) w then None else Some e)"
proof -
  define dead where "dead = filter (is_local_of fid) (map fst (wi_nodes w))"
  have dead: "j \<in> set dead \<longleftrightarrow> is_local_of fid j \<and> node_exists j w" for j
    by (auto simp: dead_def node_exists_def weak_map_of_SomeI dest: map_of_SomeD intro: rev_image_eqI)
  note f = fold_remove_node [OF assms, of dead]
  have eq: "remove_frame_nodes fid w = (fold remove_node dead w)
      \<lparr>wi_edges := filter (\<lambda>(_, e). pe_target e \<notin> set dead) (wi_edges (fold remove_node dead w))\<rparr>"
    by (simp add: remove_frame_nodes_def Let_def dead_def)
  show ?thesis
    unfolding eq using f dead
    by (auto simp: bt_inv_filter get_filter node_exists_def split: option.split)
qed

lemma graph_inv_frame:
  assumes "graph_inv w"
  shows "graph_inv (remove_frame_nodes fid w)"
proof -
  from assms have bt: "bt_inv (wi_nodes w)" "bt_inv (wi_edges w)" by (simp_all add: graph_inv_def)
  note r = remove_frame_get [OF bt]
  have ex: "node_exists j (remove_frame_nodes fid w) \<longleftrightarrow> \<not> is_local_of fid j \<and> node_exists j w" for j
    using r [of fid j] by (simp add: node_exists_def)
  have "edge_ok (remove_frame_nodes fid w) i e"
    if g: "bt_get (wi_edges (remove_frame_nodes fid w)) i = Some e" for i e
  proof -
    from g r [of fid i] have e: "bt_get (wi_edges w) i = Some e"
      and n: "\<not> (is_local_of fid i \<and> node_exists i w)"
        "\<not> (is_local_of fid (pe_target e) \<and> node_exists (pe_target e) w)"
      by (auto split: option.splits if_splits)
    from assms e have "edge_ok w i e" by (simp add: graph_inv_def)
    with n show ?thesis by (auto simp: edge_ok_def ex)
  qed
  with r show ?thesis by (simp add: graph_inv_def)
qed


text \<open>The histories of the graph: an edge is drawn between nodes that exist.\<close>

inductive graph_reach :: "world_inner \<Rightarrow> bool" where
  reach_new: "graph_reach wi_new"
| reach_ensure: "graph_reach w \<Longrightarrow> graph_reach (fst (ensure_node i name ti a sz w))"
| reach_value: "graph_reach w \<Longrightarrow> graph_reach (update_value i v n w)"
| reach_edge: "graph_reach w \<Longrightarrow> node_exists src w \<Longrightarrow> (\<And>t. target = Some t \<Longrightarrow> node_exists t w) \<Longrightarrow>
     graph_reach (update_edge src target v w)"
| reach_frame: "graph_reach w \<Longrightarrow> graph_reach (remove_frame_nodes fid w)"
| reach_insn: "graph_reach w \<Longrightarrow> graph_reach (inc_insn_counter w)"
| reach_regs: "graph_reach w \<Longrightarrow> graph_reach (update_regs regs n w)"

lemma graph_inv_other:
  "graph_inv (inc_insn_counter w) = graph_inv w" "graph_inv (update_regs regs n w) = graph_inv w"
  by (simp_all add: graph_inv_def edge_ok_def node_exists_def inc_insn_counter_def update_regs_def)

lemma graph_reach_inv: "graph_reach w \<Longrightarrow> graph_inv w"
  by (induction rule: graph_reach.induct)
    (simp_all add: graph_inv_new graph_inv_ensure graph_inv_value graph_inv_edge graph_inv_frame graph_inv_other)

lemma remove_frame_exact:
  assumes "graph_inv w"
  shows "bt_get (wi_edges (remove_frame_nodes fid w)) i = Some e \<longleftrightarrow>
    bt_get (wi_edges w) i = Some e \<and> \<not> is_local_of fid i \<and> \<not> is_local_of fid (pe_target e)"
proof -
  from assms have bt: "bt_inv (wi_nodes w)" "bt_inv (wi_edges w)" by (simp_all add: graph_inv_def)
  have ok: "bt_get (wi_edges w) i = Some e \<Longrightarrow> edge_ok w i e" for e
    using assms by (simp add: graph_inv_def)
  have dang: "\<not> is_local_of fid DANGLING" by (simp add: is_local_of_def DANGLING_def)
  show ?thesis
    using remove_frame_get [OF bt, of fid i] ok dang
    by (auto simp: edge_ok_def split: option.splits if_splits)
qed

text \<open>
  C20 (invariant).  In every state the graph operations can produce, an edge leaves the node it is
  filed under, that node exists, and it points to a node that exists or is marked dangling with a
  non-null value.  Leaving a frame removes exactly the frame's locals and the edges that start or
  end at one of them: nothing dangles into the removed frame and no other edge is lost.
\<close>

theorem graph_never_points_into_dead_frames:
  assumes "graph_reach w"
  shows "(\<forall>i e. bt_get (wi_edges w) i = Some e \<longrightarrow> edge_ok w i e) \<and>
    (\<forall>i. bt_get (wi_nodes (remove_frame_nodes fid w)) i =
         (if is_local_of fid i then None else bt_get (wi_nodes w) i)) \<and>
    (\<forall>i e. bt_get (wi_edges (remove_frame_nodes fid w)) i = Some e \<longleftrightarrow>
         bt_get (wi_edges w) i = Some e \<and> \<not> is_local_of fid i \<and> \<not> is_local_of fid (pe_target e))"
proof -
  from assms have inv: "graph_inv w" by (rule graph_reach_inv)
  then have "bt_inv (wi_nodes w)" "bt_inv (wi_edges w)" by (simp_all add: graph_inv_def)
  from remove_frame_get [OF this] inv remove_frame_exact [OF inv] show ?thesis
    by (simp add: graph_inv_def)
qed

definition demo_graph :: world_inner where
  "demo_graph = update_edge (N_Local 7 0) (Some (N_Global 1)) 4096
     (fst (ensure_node (N_Local 7 0) ''p'' ti_unknown 64 8
       (fst (ensure_node (N_Global 1) ''g'' ti_unknown 4096 8 wi_new))))"

lemma demo_graph_reach: "graph_reach demo_graph"
  unfolding demo_graph_def
  by (intro reach_edge reach_ensure reach_new)
    (auto simp: node_exists_def ensure_node_def wi_new_def less_node_id_def)

theorem graph_never_points_into_dead_frames_witness:
  "bt_get (wi_edges demo_graph) (N_Local 7 0) \<noteq> None \<and>
   bt_get (wi_edges (remove_frame_nodes 7 demo_graph)) (N_Local 7 0) = None"
proof
  show "bt_get (wi_edges demo_graph) (N_Local 7 0) \<noteq> None"
    by (simp add: demo_graph_def update_edge_def ensure_node_def node_exists_def wi_new_def less_node_id_def)
  show "bt_get (wi_edges (remove_frame_nodes 7 demo_graph)) (N_Local 7 0) = None"
  proof (rule ccontr)
    assume "bt_get (wi_edges (remove_frame_nodes 7 demo_graph)) (N_Local 7 0) \<noteq> None"
    then obtain e where "bt_get (wi_edges (remove_frame_nodes 7 demo_graph)) (N_Local 7 0) = Some e" by blast
    with graph_never_points_into_dead_frames [OF demo_graph_reach, where fid = 7]
    have "\<not> is_local_of 7 (N_Local 7 0)" by blast
    then show False by (simp add: is_local_of_def)
  qed
qed

text \<open>
  Removing a single node does not look at the edges that point to it: the target of such an edge
  no longer exists and the edge is not marked dangling.
\<close>

lemma remove_node_leaves_edge:
  "\<exists>w. graph_reach w \<and> \<not> graph_inv (remove_node (N_Global 1) w)"
proof (intro exI conjI)
  show "graph_reach demo_graph" by (rule demo_graph_reach)
  have "bt_get (wi_edges (remove_node (N_Global 1) demo_graph)) (N_Local 7 0) =
      Some \<lparr>pe_source = N_Local 7 0, pe_target = N_Global 1, pe_ptr_value = 4096, pe_is_dangling = False\<rparr>"
    by (simp add: demo_graph_def update_edge_def ensure_node_def node_exists_def wi_new_def less_node_id_def
        remove_node_def bt_remove_def)
  moreover have "\<not> node_exists (N_Global 1) (remove_node (N_Global 1) demo_graph)"
    by (simp add: node_exists_def remove_node_def get_bt_remove)
  ultimately show "\<not> graph_inv (remove_node (N_Global 1) demo_graph)"
    unfolding graph_inv_def edge_ok_def by fastforce
qed

end
