(* ===== verification/Shadow_Stack.thy ===== *)
theory Shadow_Stack
  imports World_State
begin

text \<open>
  \<open>ShadowStack\<close> of \<^verbatim>\<open>engine/src/world.rs\<close>: the per-thread call stack that pairs returns with calls.
  The \<open>Vec\<close> of frames grows at its end; the model keeps its elements in that order, so the top of
  the stack is the last element.
\<close>

record stack_frame =
  kf_frame_id :: frame_id
  kf_callee_pc :: u64
  kf_name :: string

record shadow_stack =
  ss_frames :: "stack_frame list"
  ss_mismatches :: u64
  ss_non_local_jumps :: u64
  ss_max_depth :: nat

definition ss_new :: shadow_stack where
  "ss_new = \<lparr>ss_frames = [], ss_mismatches = 0, ss_non_local_jumps = 0, ss_max_depth = 0\<rparr>"

definition push_call :: "frame_id \<Rightarrow> u64 \<Rightarrow> string \<Rightarrow> shadow_stack \<Rightarrow> shadow_stack" where
  "push_call fid pc name s =
     (let fs = ss_frames s @ [\<lparr>kf_frame_id = fid, kf_callee_pc = pc, kf_name = name\<rparr>];
          s1 = s\<lparr>ss_frames := fs\<rparr>
      in if ss_max_depth s1 < length fs then s1\<lparr>ss_max_depth := length fs\<rparr> else s1)"

definition pop_return :: "shadow_stack \<Rightarrow> shadow_stack \<times> stack_frame option" where
  "pop_return s =
     (if ss_frames s = [] then (s\<lparr>ss_mismatches := ss_mismatches s + 1\<rparr>, None)
      else (s\<lparr>ss_frames := butlast (ss_frames s)\<rparr>, Some (last (ss_frames s))))"

text \<open>The scan \<open>for i in (0..len - 1).rev()\<close> for a frame below the top.\<close>

definition find_below :: "u64 \<Rightarrow> stack_frame list \<Rightarrow> nat option" where
  "find_below pc fs = find (\<lambda>i. kf_callee_pc (fs ! i) = pc) (rev [0..<length fs - 1])"

definition pop_return_checked :: "u64 \<Rightarrow> shadow_stack \<Rightarrow> shadow_stack \<times> stack_frame option \<times> nat" where
  "pop_return_checked pc s =
     (let fs = ss_frames s in
      if fs = [] then (s\<lparr>ss_mismatches := ss_mismatches s + 1\<rparr>, None, 0)
      else if kf_callee_pc (last fs) = pc then (s\<lparr>ss_frames := butlast fs\<rparr>, Some (last fs), 1)
      else (case find_below pc fs of
          Some idx \<Rightarrow> (s\<lparr>ss_frames := take idx fs, ss_non_local_jumps := ss_non_local_jumps s + 1\<rparr>,
                       None, length fs - idx)
        | None \<Rightarrow> (s\<lparr>ss_frames := butlast fs, ss_mismatches := ss_mismatches s + 1\<rparr>, Some (last fs), 1)))"

definition ss_depth :: "shadow_stack \<Rightarrow> nat" where "ss_depth s = length (ss_frames s)"


subsection \<open>Returns and calls\<close>

lemma find_rev_upt:
  "find P (rev [0..<n]) = Some i \<longleftrightarrow> i < n \<and> P i \<and> (\<forall>j. i < j \<and> j < n \<longrightarrow> \<not> P j)"
proof (induction n)
  case (Suc n)
  show ?case
  proof (cases "P n")
    case True
    then show ?thesis by (auto simp: less_Suc_eq)
  next
    case False
    with Suc show ?thesis by (auto simp: less_Suc_eq)
  qed
qed simp

lemma find_rev_upt_None: "find P (rev [0..<n]) = None \<longleftrightarrow> (\<forall>j < n. \<not> P j)"
  by (auto simp: find_None_iff)

text \<open>The innermost open call that the return address matches, counted from the bottom.\<close>

definition innermost :: "u64 \<Rightarrow> stack_frame list \<Rightarrow> nat \<Rightarrow> bool" where
  "innermost pc fs i \<longleftrightarrow> i < length fs \<and> kf_callee_pc (fs ! i) = pc \<and>
     (\<forall>j. i < j \<and> j < length fs \<longrightarrow> kf_callee_pc (fs ! j) \<noteq> pc)"

lemma innermost_unique: "innermost pc fs i \<Longrightarrow> innermost pc fs j \<Longrightarrow> i = j"
  unfolding innermost_def by (metis nat_neq_iff)

lemma innermost_exists:
  "(\<exists>i. innermost pc fs i) \<longleftrightarrow> pc \<in> kf_callee_pc ` set fs"
proof
  assume "pc \<in> kf_callee_pc ` set fs"
  then obtain k where k: "k < length fs" "kf_callee_pc (fs ! k) = pc" by (auto simp: in_set_conv_nth)
  then have "\<not> (\<forall>j < length fs. kf_callee_pc (fs ! j) \<noteq> pc)" by blast
  then obtain i where "find (\<lambda>i. kf_callee_pc (fs ! i) = pc) (rev [0..<length fs]) = Some i"
    using find_rev_upt_None [of "\<lambda>i. kf_callee_pc (fs ! i) = pc" "length fs"] by fastforce
  then show "\<exists>i. innermost pc fs i" by (auto simp: find_rev_upt innermost_def)
qed (auto simp: innermost_def)

lemma pop_checked_cases:
  assumes "fs = ss_frames s" "fs \<noteq> []"
  shows "kf_callee_pc (last fs) = pc \<Longrightarrow> pop_return_checked pc s = (s\<lparr>ss_frames := butlast fs\<rparr>, Some (last fs), 1)"
    and "kf_callee_pc (last fs) \<noteq> pc \<Longrightarrow> innermost pc fs i \<Longrightarrow> pop_return_checked pc s =
      (s\<lparr>ss_frames := take i fs, ss_non_local_jumps := ss_non_local_jumps s + 1\<rparr>, None, length fs - i)"
    and "pc \<notin> kf_callee_pc ` set fs \<Longrightarrow> pop_return_checked pc s =
      (s\<lparr>ss_frames := butlast fs, ss_mismatches := ss_mismatches s + 1\<rparr>, Some (last fs), 1)"
proof -
  show "kf_callee_pc (last fs) = pc \<Longrightarrow> pop_return_checked pc s = (s\<lparr>ss_frames := butlast fs\<rparr>, Some (last fs), 1)"
    using assms by (simp add: pop_return_checked_def Let_def)
  have last: "last fs = fs ! (length fs - 1)" using assms by (simp add: last_conv_nth)
  {
    assume ne: "kf_callee_pc (last fs) \<noteq> pc" and i: "innermost pc fs i"
    have "i \<noteq> length fs - 1" using ne i by (auto simp: innermost_def last)
    with i have "find_below pc fs = Some i"
      unfolding find_below_def find_rev_upt by (auto simp: innermost_def)
    with ne assms show "pop_return_checked pc s =
      (s\<lparr>ss_frames := take i fs, ss_non_local_jumps := ss_non_local_jumps s + 1\<rparr>, None, length fs - i)"
      by (simp add: pop_return_checked_def Let_def)
  }
  assume no: "pc \<notin> kf_callee_pc ` set fs"
  then have "kf_callee_pc (fs ! j) \<noteq> pc" if "j < length fs" for j using that by (metis image_eqI nth_mem)
  then have "find_below pc fs = None" unfolding find_below_def find_rev_upt_None by simp
  moreover have "kf_callee_pc (last fs) \<noteq> pc" using no assms(2) by (metis image_eqI last_in_set)
  ultimately show "pop_return_checked pc s =
      (s\<lparr>ss_frames := butlast fs, ss_mismatches := ss_mismatches s + 1\<rparr>, Some (last fs), 1)"
    using assms by (simp add: pop_return_checked_def Let_def)
qed

text \<open>
  A checked return resolves against the innermost open call with that return
  address.  If it is the top, the frame is popped and returned.  If it is deeper, everything from it
  upwards is unwound, the number of frames unwound is returned, and one non-local jump is counted.  If
  there is none, exactly one frame is dropped and one mismatch counted; on an empty stack only the
  mismatch is counted.  In every case the remaining stack is a prefix of the old one, its depth the
  old depth less the frames unwound.
\<close>

theorem pop_return_checked_exact:
  assumes "pop_return_checked pc s = (s', f, n)"
  shows "ss_frames s' = take (length (ss_frames s) - n) (ss_frames s) \<and>
    ss_depth s' + n = ss_depth s \<and> ss_max_depth s' = ss_max_depth s \<and>
    (case ss_frames s of [] \<Rightarrow> n = 0 | _ \<Rightarrow> 1 \<le> n) \<and>
    ((\<exists>i. innermost pc (ss_frames s) i \<and> n = length (ss_frames s) - i \<and>
        ss_mismatches s' = ss_mismatches s \<and>
        ss_non_local_jumps s' = ss_non_local_jumps s + of_bool (1 < n) \<and>
        f = (if n = 1 then Some (last (ss_frames s)) else None)) \<or>
     (pc \<notin> kf_callee_pc ` set (ss_frames s) \<and> n \<le> 1 \<and>
        ss_mismatches s' = ss_mismatches s + 1 \<and> ss_non_local_jumps s' = ss_non_local_jumps s \<and>
        f = (if n = 1 then Some (last (ss_frames s)) else None)))"
proof (cases "ss_frames s = []")
  case True
  with assms show ?thesis by (auto simp: pop_return_checked_def ss_depth_def)
next
  case False
  let ?fs = "ss_frames s"
  from False obtain x xs where cons: "?fs = x # xs" by (cases ?fs) auto
  have bl: "butlast ?fs = take (length ?fs - 1) ?fs" by (simp add: butlast_conv_take)
  note cs = pop_checked_cases [OF refl False]
  consider (top) "kf_callee_pc (last ?fs) = pc" | (deep) i where "kf_callee_pc (last ?fs) \<noteq> pc" "innermost pc ?fs i"
    | (none) "pc \<notin> kf_callee_pc ` set ?fs"
    using innermost_exists [of pc ?fs] by blast
  then show ?thesis
  proof cases
    case top
    have "innermost pc ?fs (length ?fs - 1)"
      using top False by (auto simp: innermost_def last_conv_nth)
    moreover have "s' = s\<lparr>ss_frames := take (length ?fs - 1) ?fs\<rparr>" "f = Some (last ?fs)" "n = 1"
      using assms cs(1) [OF top] by (auto simp: bl)
    ultimately show ?thesis
      using False by (auto simp: ss_depth_def Suc_leI split: list.split intro!: exI [where x = "length ?fs - 1"])
  next
    case deep
    have "i \<noteq> length ?fs - 1" using deep False by (auto simp: innermost_def last_conv_nth)
    moreover have "i < length ?fs" using deep(2) by (simp add: innermost_def)
    ultimately have i: "i < length ?fs - 1" by linarith
    then have "1 < length ?fs - i" by simp
    with assms cs(2) [OF deep] i deep(2) cons show ?thesis
      by (auto simp: ss_depth_def)
  next
    case none
    moreover have "s' = s\<lparr>ss_frames := take (length ?fs - 1) ?fs, ss_mismatches := ss_mismatches s + 1\<rparr>"
        "f = Some (last ?fs)" "n = 1"
      using assms cs(3) [OF none] by (auto simp: bl)
    ultimately show ?thesis
      using False by (auto simp: ss_depth_def Suc_leI split: list.split)
  qed
qed

definition demo_stack :: shadow_stack where
  "demo_stack = push_call 3 30 ''c'' (push_call 2 20 ''b'' (push_call 1 10 ''a'' ss_new))"

theorem pop_return_checked_exact_witness:
  "\<exists>s' f. pop_return_checked 10 demo_stack = (s', f, 3) \<and> ss_frames s' = [] \<and> f = None \<and> ss_non_local_jumps s' = 1"
proof -
  have "find_below 10 (ss_frames demo_stack) = Some 0"
    by (simp add: demo_stack_def push_call_def ss_new_def find_below_def Let_def upt_rec)
  then obtain s' f where p: "pop_return_checked 10 demo_stack = (s', f, 3)"
    by (simp add: pop_return_checked_def Let_def demo_stack_def push_call_def ss_new_def)
  from pop_return_checked_exact [OF this]
  have "ss_frames s' = [] \<and> f = None \<and> ss_non_local_jumps s' = 1"
    by (auto simp: demo_stack_def push_call_def ss_new_def Let_def)
  with p show ?thesis by blast
qed

text \<open>A call followed by its return leaves the frames, the mismatches and the jumps as they were.\<close>

lemma push_pop_frames:
  "\<exists>f. pop_return_checked pc (push_call fid pc name s) = (push_call fid pc name s\<lparr>ss_frames := ss_frames s\<rparr>, Some f, 1)
     \<and> kf_frame_id f = fid \<and> kf_callee_pc f = pc"
  by (simp add: pop_return_checked_def push_call_def Let_def)

lemma max_depth_inv:
  "ss_depth s \<le> ss_max_depth s \<Longrightarrow> ss_depth (push_call fid pc name s) \<le> ss_max_depth (push_call fid pc name s)"
  by (simp add: ss_depth_def push_call_def Let_def)

end
