(* ===== verification/Cache_Lines.thy ===== *)
theory Cache_Lines
  imports Shadow_Stack
begin

text \<open>
  \<open>CacheLineTracker\<close> of \<^verbatim>\<open>engine/src/world.rs\<close>: a direct-mapped table of 64-byte lines, each with
  its saturating write count, a bit mask of the writers (thread identifier modulo 16) and a count
  for each writer.  \<open>contention_score_weighted\<close> compares \<open>f32\<close> fractions and is not modelled.
\<close>

definition CL_SHIFT :: nat where "CL_SHIFT = 6"
definition CL_SLOTS :: nat where "CL_SLOTS = 16384"

record cl_slot =
  cl_addr :: u64
  cl_write_count :: u16
  cl_writers :: u16
  cl_per_writer :: "u16 list"

definition cl_default :: cl_slot where
  "cl_default = \<lparr>cl_addr = 0, cl_write_count = 0, cl_writers = 0, cl_per_writer = replicate 16 0\<rparr>"

type_synonym cl_tracker = "cl_slot list"

definition cl_new :: cl_tracker where "cl_new = replicate CL_SLOTS cl_default"

definition line_of :: "u64 \<Rightarrow> u64" where "line_of a = drop_bit CL_SHIFT a"

text \<open>\<open>(cl as usize) & CL_MASK\<close>, where \<open>CL_MASK\<close> is \<open>CL_SLOTS - 1\<close>.\<close>

definition cl_index :: "u64 \<Rightarrow> nat" where "cl_index cl = unat (cl AND of_nat (CL_SLOTS - 1))"

definition writer_of :: "u16 \<Rightarrow> nat" where "writer_of tid = unat (tid AND 15)"

definition slot_write :: "u64 \<Rightarrow> nat \<Rightarrow> cl_slot \<Rightarrow> cl_slot" where
  "slot_write cl ti s =
     (if cl_addr s \<noteq> cl
      then cl_default\<lparr>cl_addr := cl, cl_write_count := 1, cl_writers := push_bit ti 1,
                      cl_per_writer := (cl_per_writer cl_default)[ti := 1]\<rparr>
      else s\<lparr>cl_write_count := sat_add (cl_write_count s) 1,
             cl_writers := cl_writers s OR push_bit ti 1,
             cl_per_writer := (cl_per_writer s)[ti := sat_add (cl_per_writer s ! ti) 1]\<rparr>)"

definition record_write :: "u64 \<Rightarrow> u16 \<Rightarrow> cl_tracker \<Rightarrow> cl_tracker \<times> u16" where
  "record_write a tid t =
     (let cl = line_of a; idx = cl_index cl; s = slot_write cl (writer_of tid) (t ! idx)
      in (t[idx := s], cl_writers s))"

text \<open>\<open>count_ones\<close> and \<open>trailing_zeros\<close> of a 16-bit mask.\<close>

definition count_ones :: "u16 \<Rightarrow> nat" where "count_ones m = length (filter (bit m) [0..<16])"

definition trailing_zeros :: "u16 \<Rightarrow> nat" where
  "trailing_zeros m = length (takeWhile (\<lambda>i. \<not> bit m i) [0..<16])"

definition contention_score :: "u64 \<Rightarrow> cl_tracker \<Rightarrow> nat" where
  "contention_score a t =
     (let cl = line_of a; s = t ! cl_index cl in if cl_addr s = cl then count_ones (cl_writers s) else 0)"

text \<open>The loop \<open>while mask != 0\<close> over the set bits of the mask.\<close>

lemma clear_lowest_less: "m \<noteq> 0 \<Longrightarrow> unat (m AND (m - 1)) < unat (m :: u16)"
proof -
  assume m: "m \<noteq> 0"
  have "m AND (m - 1) \<le> m - 1" by (rule word_and_le1)
  also have "m - 1 < m" using m by (simp add: word_less_nat_alt unat_minus_one unat_gt_0)
  finally show ?thesis by (simp add: word_less_nat_alt)
qed

function breakdown_loop :: "u16 list \<Rightarrow> u16 \<Rightarrow> (nat \<times> u16) list" where
  "breakdown_loop pw m =
     (if m = 0 then []
      else (trailing_zeros m, pw ! trailing_zeros m) # breakdown_loop pw (m AND (m - 1)))"
  by pat_completeness auto
termination
  by (relation "measure (\<lambda>(_, m). unat m)") (simp_all add: clear_lowest_less)

declare breakdown_loop.simps [simp del]

definition writer_breakdown :: "u64 \<Rightarrow> cl_tracker \<Rightarrow> (nat \<times> u16) list" where
  "writer_breakdown a t =
     (let cl = line_of a; s = t ! cl_index cl in
      if cl_addr s \<noteq> cl then [] else breakdown_loop (cl_per_writer s) (cl_writers s))"

definition live_mask :: "u16 list \<Rightarrow> u16" where
  "live_mask pw = fold (\<lambda>(i, p) m. if 0 < p then m OR push_bit i 1 else m) (zip [0..<length pw] pw) 0"

definition slot_tick :: "cl_slot \<Rightarrow> cl_slot" where
  "slot_tick s =
     (let wc = drop_bit 1 (cl_write_count s) in
      if wc = 0 then \<lparr>cl_addr = 0, cl_write_count = 0, cl_writers = 0, cl_per_writer = replicate 16 0\<rparr>
      else (let pw = map (drop_bit 1) (cl_per_writer s)
            in s\<lparr>cl_write_count := wc, cl_per_writer := pw, cl_writers := live_mask pw\<rparr>))"

definition cl_tick :: "cl_tracker \<Rightarrow> cl_tracker" where "cl_tick t = map slot_tick t"


subsection \<open>Bits of the writer mask\<close>

lemma lowest_bit:
  assumes "m \<noteq> 0"
  shows "trailing_zeros m < 16" "bit m (trailing_zeros m)" "\<And>j. j < trailing_zeros m \<Longrightarrow> \<not> bit m j"
proof -
  let ?P = "\<lambda>i. \<not> bit m i"
  show small: "trailing_zeros m < 16"
  proof (rule ccontr)
    assume "\<not> ?thesis"
    moreover have "trailing_zeros m \<le> 16"
      unfolding trailing_zeros_def using length_takeWhile_le [of ?P "[0..<16]"] by simp
    ultimately have "takeWhile ?P [0..<16] = [0..<16]"
      unfolding trailing_zeros_def by (metis diff_zero le_antisym length_upt linorder_not_less takeWhile_eq_take take_all)
    then have "\<forall>i < 16. \<not> bit m i" by (simp add: takeWhile_eq_all_conv)
    then have "m = 0" by (intro bit_word_eqI) simp
    with assms show False by simp
  qed
  then have "\<not> ?P ([0..<16] ! trailing_zeros m)"
    unfolding trailing_zeros_def using nth_length_takeWhile [of ?P "[0..<16]"] by simp
  with small show "bit m (trailing_zeros m)" by simp
  show "\<not> bit m j" if "j < trailing_zeros m" for j
  proof -
    have "takeWhile ?P [0..<16] ! j = j"
      using that small unfolding trailing_zeros_def by (simp add: takeWhile_nth)
    with that show ?thesis
      unfolding trailing_zeros_def by (metis nth_mem set_takeWhileD)
  qed
qed

lemma clear_lowest:
  assumes "m \<noteq> (0 :: u16)"
  shows "bit (m AND (m - 1)) k \<longleftrightarrow> bit m k \<and> k \<noteq> trailing_zeros m"
proof -
  define t where "t = trailing_zeros m"
  have t: "t < 16" "bit m t" "\<And>j. j < t \<Longrightarrow> \<not> bit m j"
    using lowest_bit [OF assms] by (simp_all add: t_def)
  have un: "unset_bit t m = m - push_bit t 1"
    using t by (simp add: unset_bit_eq push_bit_eq_mult)
  have dj: "unset_bit t m AND mask t = 0"
    using t by (intro bit_word_eqI) (auto simp: bit_and_iff bit_mask_iff bit_unset_bit_iff)
  have "m - 1 = unset_bit t m + mask t"
    by (simp add: un mask_eq_exp_minus_1 push_bit_eq_mult)
  also have "\<dots> = unset_bit t m OR mask t"
    using dj by (rule disjunctive_add_eq_or)
  finally have "bit (m - 1) k \<longleftrightarrow> bit (unset_bit t m OR mask t) k" by simp
  with t show ?thesis
    by (cases "k < 16") (auto simp: bit_and_iff bit_or_iff bit_mask_iff bit_unset_bit_iff t_def dest: bit_imp_le_length)
qed

lemma filter_upt_first:
  assumes "t < n" "P t" "\<And>j. j < t \<Longrightarrow> \<not> P j"
  shows "filter P [0..<n] = t # filter (\<lambda>k. P k \<and> k \<noteq> t) [0..<n]"
proof -
  have split: "[0..<n] = [0..<t] @ t # [Suc t..<n]"
    using assms(1) by (metis less_eq_nat.simps(1) less_imp_le_nat upt_add_eq_append upt_conv_Cons add_diff_inverse_nat le_add_diff_inverse not_less)
  have "filter P [0..<t] = []" "filter (\<lambda>k. P k \<and> k \<noteq> t) [0..<t] = []"
    using assms(3) by (auto simp: filter_empty_conv)
  moreover have "filter P [Suc t..<n] = filter (\<lambda>k. P k \<and> k \<noteq> t) [Suc t..<n]"
    by (rule filter_cong) auto
  ultimately show ?thesis using assms(2) unfolding split by simp
qed

lemma breakdown_eq: "breakdown_loop pw m = map (\<lambda>i. (i, pw ! i)) (filter (bit m) [0..<16])"
proof (induction pw m rule: breakdown_loop.induct)
  case (1 pw m)
  show ?case
  proof (cases "m = 0")
    case False
    have "bit (m AND (m - 1)) = (\<lambda>k. bit m k \<and> k \<noteq> trailing_zeros m)"
      by (rule ext) (rule clear_lowest [OF False])
    then have "filter (bit m) [0..<16] = trailing_zeros m # filter (bit (m AND (m - 1))) [0..<16]"
      using filter_upt_first [of "trailing_zeros m" 16 "bit m"] lowest_bit [OF False]
      by simp
    with False 1 show ?thesis by (simp add: breakdown_loop.simps [of pw m])
  qed (simp add: breakdown_loop.simps)
qed

lemma bit_two_exp: "bit (2 ^ t :: u16) k \<longleftrightarrow> k = t \<and> k < 16"
  by (auto simp: bit_exp_iff)

lemma bit_live_mask_fold:
  "bit (fold (\<lambda>(i, p) m. if 0 < p then m OR push_bit i 1 else m) (zip [a..<a + length pw] pw) (m :: u16)) k \<longleftrightarrow>
     bit m k \<or> (k < 16 \<and> a \<le> k \<and> k < a + length pw \<and> 0 < pw ! (k - a))"
  for pw :: "u16 list"
proof (induction pw arbitrary: a m)
  case (Cons p pw)
  have "[a..<a + length (p # pw)] = a # [Suc a..<Suc a + length pw]" by (subst upt_conv_Cons) simp_all
  then have eq: "fold (\<lambda>(i, p) m. if 0 < p then m OR push_bit i 1 else m) (zip [a..<a + length (p # pw)] (p # pw)) m =
      fold (\<lambda>(i, p) m. if 0 < p then m OR push_bit i 1 else m) (zip [Suc a..<Suc a + length pw] pw)
        (if 0 < p then m OR push_bit a 1 else m)" by simp
  show ?case unfolding eq Cons.IH
    by (cases "k = a") (auto simp: bit_or_iff bit_two_exp nth_Cons' Suc_le_eq dest: bit_imp_le_length)
qed auto

lemma bit_live_mask: "length pw = 16 \<Longrightarrow> bit (live_mask pw) k \<longleftrightarrow> k < 16 \<and> 0 < pw ! k"
  unfolding live_mask_def using bit_live_mask_fold [of 0 pw 0 k] by simp

lemma writer_lt: "writer_of tid < 16"
proof -
  have "tid AND 15 \<le> 15" by (rule word_and_le1)
  then show ?thesis by (simp add: writer_of_def word_le_nat_alt)
qed


subsection \<open>The tracker invariant\<close>

definition slot_inv :: "cl_slot \<Rightarrow> bool" where
  "slot_inv s \<longleftrightarrow> length (cl_per_writer s) = 16 \<and>
     (\<forall>i < 16. bit (cl_writers s) i \<longleftrightarrow> 0 < cl_per_writer s ! i) \<and>
     (\<forall>i < 16. cl_per_writer s ! i \<le> cl_write_count s)"

definition cl_inv :: "cl_tracker \<Rightarrow> bool" where
  "cl_inv t \<longleftrightarrow> length t = CL_SLOTS \<and> (\<forall>s \<in> set t. slot_inv s)"

lemma slot_inv_default: "slot_inv cl_default"
  by (simp add: slot_inv_def cl_default_def)

lemma sat_add_mono1: "a \<le> b \<Longrightarrow> sat_add a 1 \<le> sat_add b (1 :: u16)"
  by (simp add: word_le_nat_alt unat_sat_add)

lemma sat_add_pos: "0 < sat_add a (1 :: u16)"
  by (simp add: word_less_nat_alt unat_sat_add)

lemma slot_inv_write:
  assumes "slot_inv s" "ti < 16"
  shows "slot_inv (slot_write cl ti s)"
proof -
  show ?thesis
  proof (cases "cl_addr s = cl")
    case True
    have "cl_per_writer s ! i \<le> sat_add (cl_write_count s) 1" if "i < 16" for i
      using assms that sat_add_ge [of "cl_write_count s" 1] unfolding slot_inv_def by (meson order_trans)
    with True assms show ?thesis
      by (auto simp: slot_write_def slot_inv_def nth_list_update bit_or_iff bit_two_exp sat_add_mono1 sat_add_pos)
  next
    case False
    then show ?thesis using assms(2)
      by (auto simp: slot_write_def slot_inv_def cl_default_def nth_list_update bit_two_exp)
  qed
qed

lemma unat_half: "unat (drop_bit (Suc 0) (a :: u16)) = unat a div 2"
  by (simp only: unat_drop_bit_eq) (simp add: drop_bit_eq_div)

lemma slot_inv_tick: "slot_inv s \<Longrightarrow> slot_inv (slot_tick s)"
  by (auto simp: slot_inv_def slot_tick_def Let_def bit_live_mask word_le_nat_alt unat_half div_le_mono)

lemma cl_index_lt: "cl_index cl < CL_SLOTS"
proof -
  have "cl AND of_nat (CL_SLOTS - 1) \<le> of_nat (CL_SLOTS - 1)" by (rule word_and_le1)
  then have "unat (cl AND of_nat (CL_SLOTS - 1)) \<le> 16383"
    by (simp add: CL_SLOTS_def word_le_nat_alt)
  then show ?thesis by (simp add: cl_index_def CL_SLOTS_def)
qed

lemma cl_inv_new: "cl_inv cl_new"
  by (simp add: cl_inv_def cl_new_def slot_inv_default)

lemma cl_inv_record: "cl_inv t \<Longrightarrow> cl_inv (fst (record_write a tid t))"
  using cl_index_lt [of "line_of a"]
  by (auto simp: cl_inv_def record_write_def Let_def writer_lt slot_inv_write dest!: set_update_subset_insert [THEN subsetD])

lemma cl_inv_tick: "cl_inv t \<Longrightarrow> cl_inv (cl_tick t)"
  by (auto simp: cl_inv_def cl_tick_def slot_inv_tick)

datatype cl_op = CL_Write u64 u16 | CL_Tick

fun cl_step :: "cl_op \<Rightarrow> cl_tracker \<Rightarrow> cl_tracker" where
  "cl_step (CL_Write a tid) t = fst (record_write a tid t)"
| "cl_step CL_Tick t = cl_tick t"

lemma cl_inv_run: "cl_inv t \<Longrightarrow> cl_inv (fold cl_step ops t)"
proof (induction ops arbitrary: t)
  case (Cons x ops)
  then show ?case by (cases x) (simp_all add: cl_inv_record cl_inv_tick)
qed simp

lemma breakdown_run:
  "let t = fold cl_step ops cl_new; s = t ! cl_index (line_of a) in
     cl_inv t \<and> contention_score a t = length (writer_breakdown a t) \<and>
     writer_breakdown a t =
       (if cl_addr s = line_of a
        then map (\<lambda>i. (i, cl_per_writer s ! i)) (filter (\<lambda>i. 0 < cl_per_writer s ! i) [0..<16]) else []) \<and>
     (\<forall>p \<in> set (writer_breakdown a t). 0 < snd p \<and> snd p \<le> cl_write_count s)"
proof -
  let ?t = "fold cl_step ops cl_new"
  let ?s = "?t ! cl_index (line_of a)"
  have inv: "cl_inv ?t" by (rule cl_inv_run [OF cl_inv_new])
  then have s: "slot_inv ?s" using cl_index_lt [of "line_of a"] by (simp add: cl_inv_def)
  then have f: "filter (bit (cl_writers ?s)) [0..<16] = filter (\<lambda>i. 0 < cl_per_writer ?s ! i) [0..<16]"
    by (intro filter_cong) (auto simp: slot_inv_def)
  have b: "writer_breakdown a ?t =
       (if cl_addr ?s = line_of a
        then map (\<lambda>i. (i, cl_per_writer ?s ! i)) (filter (\<lambda>i. 0 < cl_per_writer ?s ! i) [0..<16]) else [])"
    by (simp add: writer_breakdown_def Let_def breakdown_eq f)
  have "contention_score a ?t = length (writer_breakdown a ?t)"
    by (simp add: b contention_score_def Let_def count_ones_def f)
  with inv b s show ?thesis by (auto simp: Let_def slot_inv_def)
qed


text \<open>
  After any history of writes and decay ticks, the breakdown of a line lists, in
  ascending order, exactly the writers with a positive count, each with its count, the contention
  score is their number, and no writer counts more than the line.  The set-bit loop of
  \<open>writer_breakdown\<close> thus agrees with the mask, and the mask with the counts.
\<close>

theorem breakdown_matches_score:
  "let t = fold cl_step ops cl_new; s = t ! cl_index (line_of a) in
     cl_inv t \<and> contention_score a t = length (writer_breakdown a t) \<and>
     writer_breakdown a t =
       (if cl_addr s = line_of a
        then map (\<lambda>i. (i, cl_per_writer s ! i)) (filter (\<lambda>i. 0 < cl_per_writer s ! i) [0..<16]) else []) \<and>
     (\<forall>p \<in> set (writer_breakdown a t). 0 < snd p \<and> snd p \<le> cl_write_count s)"
  by (rule breakdown_run)

theorem breakdown_matches_score_witness:
  "(3, 1) \<in> set (writer_breakdown 4096 (fold cl_step [CL_Write 4096 3] cl_new)) \<and>
   (1 :: u16) \<le> cl_write_count (fold cl_step [CL_Write 4096 3] cl_new ! 64)"
proof -
  let ?t = "fold cl_step [CL_Write 4096 3] cl_new"
  have i: "line_of 4096 = 64" "cl_index 64 = 64" "writer_of 3 = 3"
    by (simp_all add: line_of_def CL_SHIFT_def drop_bit_eq_div cl_index_def CL_SLOTS_def writer_of_def)
  have "length cl_new = 16384" "cl_new ! 64 = cl_default"
    by (simp_all add: cl_new_def CL_SLOTS_def)
  then have s: "?t ! 64 = slot_write 64 3 cl_default" by (simp add: record_write_def Let_def i)
  have "cl_addr (?t ! 64) = 64" "cl_per_writer (?t ! 64) ! 3 = 1"
    unfolding s by (simp_all add: slot_write_def cl_default_def)
  then have "(3, 1) \<in> set (writer_breakdown 4096 ?t)"
    using breakdown_matches_score [of "[CL_Write 4096 3]" 4096]
    by (auto simp: Let_def i image_iff)
  moreover have "\<forall>p \<in> set (writer_breakdown 4096 ?t). snd p \<le> cl_write_count (?t ! 64)"
    using breakdown_matches_score [of "[CL_Write 4096 3]" 4096] unfolding Let_def i by blast
  ultimately show ?thesis by (metis snd_conv)
qed


subsection \<open>What the counts mean between ticks\<close>

text \<open>The writes of a history that fall into a line, and whether another line took its slot.\<close>

definition line_writes :: "u64 \<Rightarrow> (u64 \<times> u16) list \<Rightarrow> nat list" where
  "line_writes cl ws = map (\<lambda>(_, tid). writer_of tid) (filter (\<lambda>(a, _). line_of a = cl) ws)"

definition undisturbed :: "u64 \<Rightarrow> (u64 \<times> u16) list \<Rightarrow> bool" where
  "undisturbed cl ws \<longleftrightarrow> (\<forall>(a, _) \<in> set ws. cl_index (line_of a) = cl_index cl \<longrightarrow> line_of a = cl)"

definition record_all :: "(u64 \<times> u16) list \<Rightarrow> cl_tracker \<Rightarrow> cl_tracker" where
  "record_all ws t = fold (\<lambda>(a, tid) t. fst (record_write a tid t)) ws t"

definition slot_counts :: "u64 \<Rightarrow> nat list \<Rightarrow> cl_slot \<Rightarrow> bool" where
  "slot_counts cl tis s \<longleftrightarrow> (tis \<noteq> [] \<longrightarrow> cl_addr s = cl) \<and> (tis = [] \<longrightarrow> s = cl_default) \<and>
     length (cl_per_writer s) = 16 \<and>
     unat (cl_write_count s) = min (length tis) 65535 \<and>
     (\<forall>i < 16. unat (cl_per_writer s ! i) = min (count_list tis i) 65535)"

lemma slot_counts_write:
  assumes "slot_counts cl tis s" "ti < 16"
  shows "slot_counts cl (tis @ [ti]) (slot_write cl ti s)"
proof (cases "tis = []")
  case True
  with assms show ?thesis
    by (cases "cl = 0")
      (auto simp: slot_counts_def slot_write_def cl_default_def nth_list_update unat_sat_add)
next
  case False
  with assms show ?thesis
    by (auto simp: slot_counts_def slot_write_def nth_list_update unat_sat_add)
qed

lemma record_all_counts:
  "undisturbed cl ws \<Longrightarrow> length (record_all ws cl_new) = CL_SLOTS \<and>
     slot_counts cl (line_writes cl ws) (record_all ws cl_new ! cl_index cl)"
proof (induction ws rule: rev_induct)
  case Nil
  then show ?case using cl_index_lt [of cl]
    by (simp add: record_all_def cl_new_def line_writes_def slot_counts_def cl_default_def)
next
  case (snoc w ws)
  obtain a tid where w: "w = (a, tid)" by (cases w)
  from snoc.prems have u: "undisturbed cl ws" by (auto simp: undisturbed_def)
  note IH = snoc.IH [OF u]
  have step: "record_all (ws @ [(a, tid)]) cl_new = fst (record_write a tid (record_all ws cl_new))"
    by (simp add: record_all_def)
  show ?case
  proof (cases "line_of a = cl")
    case True
    with IH slot_counts_write [of cl _ _ "writer_of tid"] cl_index_lt [of cl] show ?thesis
      unfolding w step by (simp add: record_write_def Let_def line_writes_def writer_lt)
  next
    case False
    with snoc.prems have "cl_index (line_of a) \<noteq> cl_index cl" by (auto simp: undisturbed_def w)
    with IH False show ?thesis
      unfolding w step by (simp add: record_write_def Let_def line_writes_def)
  qed
qed

lemma contention_score_exact_aux:
  assumes "undisturbed (line_of a) ws"
  shows "contention_score a (record_all ws cl_new) = card (set (line_writes (line_of a) ws)) \<and>
    (\<forall>i c. (i, c) \<in> set (writer_breakdown a (record_all ws cl_new)) \<longleftrightarrow>
        i \<in> set (line_writes (line_of a) ws) \<and>
        unat c = min (count_list (line_writes (line_of a) ws) i) 65535)"
proof -
  let ?t = "record_all ws cl_new" and ?l = "line_writes (line_of a) ws"
  let ?s = "?t ! cl_index (line_of a)"
  have "?t = fold cl_step (map (\<lambda>(a, tid). CL_Write a tid) ws) cl_new"
    unfolding record_all_def fold_map comp_def by (rule fold_cong) (auto simp: fun_eq_iff)
  then have b: "contention_score a ?t = length (writer_breakdown a ?t)"
     "writer_breakdown a ?t = (if cl_addr ?s = line_of a
        then map (\<lambda>i. (i, cl_per_writer ?s ! i)) (filter (\<lambda>i. 0 < cl_per_writer ?s ! i) [0..<16]) else [])"
    using breakdown_run [of "map (\<lambda>(a, tid). CL_Write a tid) ws" a] by (simp_all add: Let_def)
  from record_all_counts [OF assms] have sc: "slot_counts (line_of a) ?l ?s" by simp
  have small: "set ?l \<subseteq> {0..<16}" using writer_lt by (auto simp: line_writes_def)
  have pos: "0 < cl_per_writer ?s ! i \<longleftrightarrow> i \<in> set ?l" if "i < 16" for i
  proof -
    have "unat (cl_per_writer ?s ! i) = min (count_list ?l i) 65535" using sc that by (simp add: slot_counts_def)
    then have "0 < unat (cl_per_writer ?s ! i) \<longleftrightarrow> count_list ?l i \<noteq> 0" by linarith
    then show ?thesis by (simp add: word_less_nat_alt count_list_0_iff)
  qed
  show ?thesis
  proof (cases "?l = []")
    case True
    then have "writer_breakdown a ?t = []" using b(2) pos by (auto simp: filter_empty_conv)
    with True b(1) show ?thesis by simp
  next
    case False
    with sc have cl: "cl_addr ?s = line_of a" by (simp add: slot_counts_def)
    have fs: "filter (\<lambda>i. 0 < cl_per_writer ?s ! i) [0..<16] = filter (\<lambda>i. i \<in> set ?l) [0..<16]"
      by (rule filter_cong) (simp_all add: pos)
    have st: "set (filter (\<lambda>i. i \<in> set ?l) [0..<16]) = set ?l" using small by auto
    have "length (filter (\<lambda>i. i \<in> set ?l) [0..<16]) = card (set ?l)"
      using distinct_card [of "filter (\<lambda>i. i \<in> set ?l) [0..<16]"] by (simp only: st distinct_filter distinct_upt)
    moreover have "(i, c) \<in> set (writer_breakdown a ?t) \<longleftrightarrow> i \<in> set ?l \<and> unat c = min (count_list ?l i) 65535" for i c
    proof -
      have "(i, c) \<in> set (writer_breakdown a ?t) \<longleftrightarrow> i \<in> set ?l \<and> c = cl_per_writer ?s ! i"
        using cl small by (auto simp: b(2) fs)
      moreover have "i \<in> set ?l \<Longrightarrow> unat (cl_per_writer ?s ! i) = min (count_list ?l i) 65535"
        using sc small by (auto simp: slot_counts_def)
      ultimately show ?thesis by (metis unsigned_word_eqI)
    qed
    ultimately show ?thesis using b(1) cl by (simp add: b(2) fs)
  qed
qed

text \<open>
  On a fresh tracker whose slot for the line of \<open>a\<close> no other line has taken, the
  contention score of \<open>a\<close> is the number of different writers, by thread identifier modulo 16, that
  wrote to its line, and the breakdown gives each of them the number of its writes, saturated at
  65535.
\<close>

theorem contention_score_exact:
  assumes "undisturbed (line_of a) ws"
  shows "contention_score a (record_all ws cl_new) = card (set (line_writes (line_of a) ws)) \<and>
    (\<forall>i c. (i, c) \<in> set (writer_breakdown a (record_all ws cl_new)) \<longleftrightarrow>
        i \<in> set (line_writes (line_of a) ws) \<and>
        unat c = min (count_list (line_writes (line_of a) ws) i) 65535)"
  using assms by (rule contention_score_exact_aux)

theorem contention_score_exact_witness:
  "contention_score 4096 (record_all [(4096, 1), (4104, 2), (4100, 17)] cl_new) = 2"
proof -
  let ?ws = "[(4096, 1), (4104, 2), (4100, 17)] :: (u64 \<times> u16) list"
  have "undisturbed (line_of 4096) ?ws" and "line_writes (line_of 4096) ?ws = [1, 2, 1]"
    by (simp_all add: undisturbed_def line_writes_def line_of_def CL_SHIFT_def drop_bit_eq_div writer_of_def)
  with contention_score_exact [of 4096 ?ws] show ?thesis by (simp add: card_insert_if)
qed

text \<open>Two threads whose identifiers agree modulo 16 are one writer: their contention is not seen.\<close>

lemma aliased_writers_unseen:
  "\<exists>t u. t \<noteq> u \<and> contention_score 4096 (record_all [(4096, t), (4096, u)] cl_new) = 1"
proof (intro exI conjI)
  let ?ws = "[(4096, 1), (4096, 17)] :: (u64 \<times> u16) list"
  have "undisturbed (line_of 4096) ?ws" and "line_writes (line_of 4096) ?ws = [1, 1]"
    by (simp_all add: undisturbed_def line_writes_def line_of_def CL_SHIFT_def drop_bit_eq_div writer_of_def)
  with contention_score_exact_aux [of 4096 ?ws]
  show "contention_score 4096 (record_all ?ws cl_new) = 1" by simp
qed simp

end
