(* ===== verification/Field_Heatmap.thy ===== *)
theory Field_Heatmap
  imports Cache_Lines "HOL-Library.Multiset"
begin

text \<open>
  \<open>FieldHeatmap\<close> of \<^verbatim>\<open>engine/src/world.rs\<close>: write and read counts for each thread and field, keyed by
  interned names.  A \<open>HashMap\<close> of counts is an association list in insertion order; where the code
  iterates over one, in an order it does not choose, the definitions take that order as an
  argument, a function that permutes the list.
\<close>

record heat_key =
  hk_thread :: u16
  hk_type_name :: string
  hk_field_name :: string
  hk_offset :: u64

record compact_key =
  ck_thread :: u16
  ck_type :: u32
  ck_field :: u32
  ck_offset :: u64

record field_heatmap =
  fh_counts :: "(compact_key \<times> u64) list"
  fh_read_counts :: "(compact_key \<times> u64) list"
  fh_str_to_id :: "string \<rightharpoonup> u32"
  fh_id_to_str :: "string list"
  fh_contention_hits :: u64

definition fh_new :: field_heatmap where
  "fh_new = \<lparr>fh_counts = [], fh_read_counts = [], fh_str_to_id = Map.empty, fh_id_to_str = [],
     fh_contention_hits = 0\<rparr>"

definition fh_intern :: "string \<Rightarrow> field_heatmap \<Rightarrow> field_heatmap \<times> u32" where
  "fh_intern s h =
     (case fh_str_to_id h s of Some i \<Rightarrow> (h, i)
      | None \<Rightarrow> (let i = of_nat (length (fh_id_to_str h)) in
          (h\<lparr>fh_id_to_str := fh_id_to_str h @ [s], fh_str_to_id := (fh_str_to_id h)(s \<mapsto> i)\<rparr>, i)))"

text \<open>\<open>*m.entry(key).or_insert(0) += 1\<close>\<close>

definition bump :: "'k \<Rightarrow> ('k \<times> u64) list \<Rightarrow> ('k \<times> u64) list" where
  "bump k m = AList.update k ((case map_of m k of None \<Rightarrow> 0 | Some c \<Rightarrow> c) + 1) m"

definition fh_key :: "u16 \<Rightarrow> string \<Rightarrow> string \<Rightarrow> u64 \<Rightarrow> field_heatmap \<Rightarrow> field_heatmap \<times> compact_key" where
  "fh_key tid tn fn off h =
     (let (h1, ti) = fh_intern tn h; (h2, fi) = fh_intern fn h1
      in (h2, \<lparr>ck_thread = tid, ck_type = ti, ck_field = fi, ck_offset = off\<rparr>))"

definition fh_record :: "u16 \<Rightarrow> string \<Rightarrow> string \<Rightarrow> u64 \<Rightarrow> field_heatmap \<Rightarrow> field_heatmap" where
  "fh_record tid tn fn off h =
     (let (h', k) = fh_key tid tn fn off h in h'\<lparr>fh_counts := bump k (fh_counts h')\<rparr>)"

definition fh_record_read :: "u16 \<Rightarrow> string \<Rightarrow> string \<Rightarrow> u64 \<Rightarrow> field_heatmap \<Rightarrow> field_heatmap" where
  "fh_record_read tid tn fn off h =
     (let (h', k) = fh_key tid tn fn off h in h'\<lparr>fh_read_counts := bump k (fh_read_counts h')\<rparr>)"

definition id_str :: "field_heatmap \<Rightarrow> u32 \<Rightarrow> string" where
  "id_str h i = (if unat i < length (fh_id_to_str h) then fh_id_to_str h ! unat i else [])"

definition fh_resolve :: "field_heatmap \<Rightarrow> compact_key \<Rightarrow> heat_key" where
  "fh_resolve h k = \<lparr>hk_thread = ck_thread k, hk_type_name = id_str h (ck_type k),
     hk_field_name = id_str h (ck_field k), hk_offset = ck_offset k\<rparr>"

type_synonym 'a iteration = "'a list \<Rightarrow> 'a list"

text \<open>\<open>sort_by(|a, b| b.1.cmp(&a.1))\<close>, a stable sort by descending count, and \<open>truncate\<close>.\<close>

definition top_of ::
  "(compact_key \<times> u64) iteration \<Rightarrow> nat \<Rightarrow> field_heatmap \<Rightarrow> (compact_key \<times> u64) list \<Rightarrow> (heat_key \<times> u64) list" where
  "top_of it limit h m =
     take limit (sort_key (\<lambda>e. - uint (snd e)) (map (\<lambda>(k, c). (fh_resolve h k, c)) (it m)))"

definition top_entries :: "(compact_key \<times> u64) iteration \<Rightarrow> nat \<Rightarrow> field_heatmap \<Rightarrow> (heat_key \<times> u64) list" where
  "top_entries it limit h = top_of it limit h (fh_counts h)"

definition top_read_entries :: "(compact_key \<times> u64) iteration \<Rightarrow> nat \<Rightarrow> field_heatmap \<Rightarrow> (heat_key \<times> u64) list" where
  "top_read_entries it limit h = top_of it limit h (fh_read_counts h)"

type_synonym field_key = "string \<times> string \<times> u64"

record contention_entry =
  ce_field :: field_key
  ce_threads :: "(u16 \<times> u64) list"
  ce_total_writes :: u64

definition group_fields :: "(heat_key \<times> u64) list \<Rightarrow> (field_key \<times> (u16 \<times> u64) list) list" where
  "group_fields es = fold (\<lambda>(r, c) m.
     (let k = (hk_type_name r, hk_field_name r, hk_offset r) in
      AList.update k ((case map_of m k of None \<Rightarrow> [] | Some l \<Rightarrow> l) @ [(hk_thread r, c)]) m)) es []"

definition contention_report ::
  "(compact_key \<times> u64) iteration \<Rightarrow> (field_key \<times> (u16 \<times> u64) list) iteration \<Rightarrow> field_heatmap
     \<Rightarrow> contention_entry list" where
  "contention_report it it' h =
     sort_key (\<lambda>e. - uint (ce_total_writes e))
       (map (\<lambda>(k, ts). \<lparr>ce_field = k, ce_threads = sort_key (\<lambda>t. - uint (snd t)) ts,
                         ce_total_writes = sum_list (map snd ts)\<rparr>)
         (filter (\<lambda>(k, ts). \<not> length ts < 2)
           (it' (group_fields (map (\<lambda>(k, c). (fh_resolve h k, c)) (it (fh_counts h)))))))"


subsection \<open>Interning\<close>

definition fh_inv :: "field_heatmap \<Rightarrow> bool" where
  "fh_inv h \<longleftrightarrow> distinct (fh_id_to_str h) \<and> length (fh_id_to_str h) \<le> 2 ^ 32 \<and>
     (\<forall>s i. fh_str_to_id h s = Some i \<longleftrightarrow> unat i < length (fh_id_to_str h) \<and> fh_id_to_str h ! unat i = s)"

definition fh_known :: "field_heatmap \<Rightarrow> compact_key \<Rightarrow> bool" where
  "fh_known h k \<longleftrightarrow> unat (ck_type k) < length (fh_id_to_str h) \<and> unat (ck_field k) < length (fh_id_to_str h)"

lemma fh_inv_new: "fh_inv fh_new"
  by (simp add: fh_inv_def fh_new_def)

lemma intern_spec:
  assumes "fh_inv h" "length (fh_id_to_str h) < 2 ^ 32" "fh_intern s h = (h', i)"
  shows "fh_inv h' \<and> (\<exists>ys. fh_id_to_str h' = fh_id_to_str h @ ys \<and> length ys \<le> 1) \<and>
    unat i < length (fh_id_to_str h') \<and> fh_id_to_str h' ! unat i = s \<and>
    fh_counts h' = fh_counts h \<and> fh_read_counts h' = fh_read_counts h"
proof (cases "fh_str_to_id h s")
  case (Some j)
  with assms show ?thesis by (auto simp: fh_intern_def fh_inv_def)
next
  case None
  let ?n = "length (fh_id_to_str h)"
  from assms(2) have u: "unat (of_nat ?n :: u32) = ?n" by (simp add: unat_of_nat)
  from assms(1) None have new: "s \<notin> set (fh_id_to_str h)"
  proof -
    have "\<not> (\<exists>j < ?n. fh_id_to_str h ! j = s)"
    proof
      assume "\<exists>j < ?n. fh_id_to_str h ! j = s"
      then obtain j where j: "j < ?n" "fh_id_to_str h ! j = s" by blast
      then have "unat (of_nat j :: u32) = j" using assms(2) by (simp add: unat_of_nat)
      with assms(1) j have "fh_str_to_id h s = Some (of_nat j)" unfolding fh_inv_def by simp
      with None show False by simp
    qed
    then show ?thesis by (auto simp: in_set_conv_nth)
  qed
  have h': "h' = h\<lparr>fh_id_to_str := fh_id_to_str h @ [s], fh_str_to_id := (fh_str_to_id h)(s \<mapsto> i)\<rparr>"
      and i: "i = of_nat ?n"
    using assms(3) None by (auto simp: fh_intern_def Let_def)
  have "(fh_str_to_id h' t = Some j) = (unat j < length (fh_id_to_str h') \<and> fh_id_to_str h' ! unat j = t)" for t j
  proof (cases "t = s")
    case True
    have "unat j < ?n \<Longrightarrow> fh_id_to_str h ! unat j \<noteq> s" using new by auto
    then show ?thesis using True u by (auto simp: h' i nth_append less_Suc_eq) (metis unsigned_word_eqI)
  next
    case False
    then show ?thesis using assms(1) by (auto simp: h' fh_inv_def nth_append less_Suc_eq)
  qed
  with assms(1,2) new u show ?thesis
    by (auto simp: fh_inv_def h' i nth_append)
qed

lemma key_spec:
  assumes "fh_inv h" "length (fh_id_to_str h) + 2 \<le> 2 ^ 32" "fh_key tid tn fn off h = (h', k)"
  shows "fh_inv h' \<and> (\<exists>ys. fh_id_to_str h' = fh_id_to_str h @ ys \<and> length ys \<le> 2) \<and> fh_known h' k \<and>
    fh_resolve h' k = \<lparr>hk_thread = tid, hk_type_name = tn, hk_field_name = fn, hk_offset = off\<rparr> \<and>
    fh_counts h' = fh_counts h \<and> fh_read_counts h' = fh_read_counts h"
proof -
  obtain h1 ti where 1: "fh_intern tn h = (h1, ti)" by force
  obtain h2 fi where 2: "fh_intern fn h1 = (h2, fi)" by force
  have s1: "fh_inv h1 \<and> (\<exists>ys. fh_id_to_str h1 = fh_id_to_str h @ ys \<and> length ys \<le> 1) \<and>
    unat ti < length (fh_id_to_str h1) \<and> fh_id_to_str h1 ! unat ti = tn \<and>
    fh_counts h1 = fh_counts h \<and> fh_read_counts h1 = fh_read_counts h"
    using assms by (intro intern_spec [OF assms(1) _ 1]) simp
  then have "length (fh_id_to_str h1) < 2 ^ 32" using assms(2) by auto
  from intern_spec [OF _ this 2] s1 assms(3) 1 2 show ?thesis
    by (auto simp: fh_key_def fh_known_def fh_resolve_def id_str_def nth_append)
qed

lemma resolve_inj:
  assumes "fh_inv h" "fh_known h k" "fh_known h l" "fh_resolve h k = fh_resolve h l"
  shows "k = l"
proof -
  have "ck_type k = ck_type l" "ck_field k = ck_field l"
    using assms by (auto simp: fh_inv_def fh_known_def fh_resolve_def id_str_def nth_eq_iff_index_eq word_unat_eq_iff)
  with assms(4) show ?thesis by (simp add: fh_resolve_def)
qed

lemma resolve_append:
  "fh_known h k \<Longrightarrow> fh_id_to_str h' = fh_id_to_str h @ ys \<Longrightarrow> fh_resolve h' k = fh_resolve h k \<and> fh_known h' k"
  by (simp add: fh_known_def fh_resolve_def id_str_def nth_append)


subsection \<open>The counts\<close>

record heat_event =
  he_is_write :: bool
  he_key :: heat_key

definition heat_step :: "heat_event \<Rightarrow> field_heatmap \<Rightarrow> field_heatmap" where
  "heat_step e h = (let k = he_key e in
     (if he_is_write e then fh_record else fh_record_read)
       (hk_thread k) (hk_type_name k) (hk_field_name k) (hk_offset k) h)"

definition heat_count :: "field_heatmap \<Rightarrow> (compact_key \<times> u64) list \<Rightarrow> heat_key \<Rightarrow> u64" where
  "heat_count h m r = sum_list (map snd (filter (\<lambda>(k, c). fh_resolve h k = r) m))"

definition heat_ok :: "field_heatmap \<Rightarrow> (compact_key \<times> u64) list \<Rightarrow> bool" where
  "heat_ok h m \<longleftrightarrow> distinct (map fst m) \<and> (\<forall>k \<in> fst ` set m. fh_known h k)"

lemma bump_distinct: "distinct (map fst m) \<Longrightarrow> distinct (map fst (bump k m))"
  unfolding bump_def by (rule distinct_update)

lemma bump_keys: "fst ` set (bump k m) = insert k (fst ` set m)"
  unfolding bump_def using dom_update [of k _ m] by (simp add: dom_map_of_conv_image_fst)

lemma heat_count_unique:
  assumes "fh_inv h" "heat_ok h m" "fh_known h k"
  shows "heat_count h m (fh_resolve h k) = (case map_of m k of None \<Rightarrow> 0 | Some c \<Rightarrow> c)"
  using assms(2)
proof (induction m)
  case Nil
  then show ?case by (simp add: heat_count_def)
next
  case (Cons e m)
  obtain l c where e: "e = (l, c)" by force
  have r: "fh_resolve h l = fh_resolve h k \<longleftrightarrow> l = k"
    using Cons.prems assms resolve_inj by (auto simp: heat_ok_def e)
  have "k = l \<Longrightarrow> map_of m k = None" using Cons.prems by (auto simp: heat_ok_def e map_of_eq_None_iff)
  with Cons r show ?case by (auto simp: e heat_ok_def heat_count_def)
qed

lemma heat_count_unknown:
  "heat_ok h m \<Longrightarrow> (\<And>k. fh_known h k \<Longrightarrow> fh_resolve h k \<noteq> r) \<Longrightarrow> heat_count h m r = 0"
  unfolding heat_ok_def heat_count_def
  by (subst filter_False) force+

lemma heat_ok_bump: "heat_ok h m \<Longrightarrow> fh_known h k \<Longrightarrow> heat_ok h (bump k m)"
  by (simp add: heat_ok_def bump_distinct bump_keys)

lemma heat_count_bump:
  assumes "fh_inv h" "heat_ok h m" "fh_known h k"
  shows "heat_count h (bump k m) r = heat_count h m r + of_bool (r = fh_resolve h k)"
proof (cases "\<exists>l. fh_known h l \<and> fh_resolve h l = r")
  case True
  then obtain l where l: "fh_known h l" "r = fh_resolve h l" by blast
  have "map_of (bump k m) l = (if l = k then Some ((case map_of m k of None \<Rightarrow> 0 | Some c \<Rightarrow> c) + 1) else map_of m l)"
    by (simp add: bump_def update_conv')
  moreover have "r = fh_resolve h k \<longleftrightarrow> l = k" using resolve_inj [OF assms(1) l(1) assms(3)] l(2) by auto
  ultimately show ?thesis
    unfolding l(2) using heat_count_unique [OF assms(1) heat_ok_bump [OF assms(2,3)] l(1)]
      heat_count_unique [OF assms(1,2) l(1)] l(2) by simp
next
  case False
  then have n: "\<And>k. fh_known h k \<Longrightarrow> fh_resolve h k \<noteq> r" by blast
  from heat_count_unknown [OF assms(2) n] heat_count_unknown [OF heat_ok_bump [OF assms(2,3)] n] n [OF assms(3)]
  have "heat_count h m r = 0" "heat_count h (bump k m) r = 0" "r \<noteq> fh_resolve h k" by blast+
  then show ?thesis by simp
qed

lemma heat_count_append:
  assumes "heat_ok h m" "fh_id_to_str h' = fh_id_to_str h @ ys"
  shows "heat_ok h' m \<and> heat_count h' m r = heat_count h m r"
proof -
  have k: "fh_resolve h' k = fh_resolve h k \<and> fh_known h' k" if "(k, c) \<in> set m" for k c
  proof -
    from assms(1) that have "fh_known h k" unfolding heat_ok_def by (metis fst_conv image_eqI)
    then show ?thesis using resolve_append [OF _ assms(2)] by blast
  qed
  then have "filter (\<lambda>(k, c). fh_resolve h' k = r) m = filter (\<lambda>(k, c). fh_resolve h k = r) m"
    by (intro filter_cong) auto
  with k assms(1) show ?thesis by (auto simp: heat_ok_def heat_count_def)
qed

definition heat_good :: "field_heatmap \<Rightarrow> bool" where
  "heat_good h \<longleftrightarrow> fh_inv h \<and> heat_ok h (fh_counts h) \<and> heat_ok h (fh_read_counts h)"

lemma fh_upd_simps [simp]:
  "fh_inv (h\<lparr>fh_counts := m\<rparr>) = fh_inv h" "fh_inv (h\<lparr>fh_read_counts := m\<rparr>) = fh_inv h"
  "fh_known (h\<lparr>fh_counts := m\<rparr>) = fh_known h" "fh_known (h\<lparr>fh_read_counts := m\<rparr>) = fh_known h"
  "fh_resolve (h\<lparr>fh_counts := m\<rparr>) = fh_resolve h" "fh_resolve (h\<lparr>fh_read_counts := m\<rparr>) = fh_resolve h"
  by (simp_all add: fun_eq_iff fh_inv_def fh_known_def fh_resolve_def id_str_def)

lemma heat_upd_simps [simp]:
  "heat_ok (h\<lparr>fh_counts := m\<rparr>) = heat_ok h" "heat_ok (h\<lparr>fh_read_counts := m\<rparr>) = heat_ok h"
  "heat_count (h\<lparr>fh_counts := m\<rparr>) = heat_count h" "heat_count (h\<lparr>fh_read_counts := m\<rparr>) = heat_count h"
  by (simp_all add: fun_eq_iff heat_ok_def heat_count_def)

lemma heat_step_spec:
  assumes "heat_good h" "length (fh_id_to_str h) + 2 \<le> 2 ^ 32"
  shows "heat_good (heat_step e h) \<and> length (fh_id_to_str (heat_step e h)) \<le> length (fh_id_to_str h) + 2 \<and>
    heat_count (heat_step e h) (fh_counts (heat_step e h)) r =
      heat_count h (fh_counts h) r + of_bool (he_is_write e \<and> he_key e = r) \<and>
    heat_count (heat_step e h) (fh_read_counts (heat_step e h)) r =
      heat_count h (fh_read_counts h) r + of_bool (\<not> he_is_write e \<and> he_key e = r)"
proof -
  let ?k = "he_key e"
  obtain h' k where k: "fh_key (hk_thread ?k) (hk_type_name ?k) (hk_field_name ?k) (hk_offset ?k) h = (h', k)" by force
  from key_spec [OF _ assms(2) k] assms(1) obtain ys where
    s: "fh_inv h'" "fh_id_to_str h' = fh_id_to_str h @ ys" "length ys \<le> 2" "fh_known h' k" "fh_resolve h' k = ?k"
      "fh_counts h' = fh_counts h" "fh_read_counts h' = fh_read_counts h"
    by (auto simp: heat_good_def)
  have a: "heat_ok h' (fh_counts h)" "heat_ok h' (fh_read_counts h)"
     "\<And>r. heat_count h' (fh_counts h) r = heat_count h (fh_counts h) r"
     "\<And>r. heat_count h' (fh_read_counts h) r = heat_count h (fh_read_counts h) r"
    using heat_count_append [OF _ s(2)] assms(1) by (simp_all add: heat_good_def)
  show ?thesis
  proof (cases "he_is_write e")
    case True
    then have "heat_step e h = h'\<lparr>fh_counts := bump k (fh_counts h)\<rparr>"
      by (simp add: heat_step_def fh_record_def k s)
    with True s a show ?thesis
      by (auto simp: heat_good_def heat_ok_bump heat_count_bump)
  next
    case False
    then have "heat_step e h = h'\<lparr>fh_read_counts := bump k (fh_read_counts h)\<rparr>"
      by (simp add: heat_step_def fh_record_read_def k s)
    with False s a show ?thesis
      by (auto simp: heat_good_def heat_ok_bump heat_count_bump)
  qed
qed

lemma heat_run:
  "2 * length es < 2 ^ 32 \<Longrightarrow> heat_good (fold heat_step es fh_new) \<and>
     length (fh_id_to_str (fold heat_step es fh_new)) \<le> 2 * length es \<and>
     heat_count (fold heat_step es fh_new) (fh_counts (fold heat_step es fh_new)) r =
       of_nat (length (filter (\<lambda>e. he_is_write e \<and> he_key e = r) es)) \<and>
     heat_count (fold heat_step es fh_new) (fh_read_counts (fold heat_step es fh_new)) r =
       of_nat (length (filter (\<lambda>e. \<not> he_is_write e \<and> he_key e = r) es))"
proof (induction es rule: rev_induct)
  case Nil
  show ?case by (simp add: heat_good_def heat_ok_def fh_inv_new heat_count_def) (simp add: fh_new_def)
next
  case (snoc e es)
  then show ?case using heat_step_spec [of "fold heat_step es fh_new" e r] by simp
qed

text \<open>
  After any history of fewer than 2^31 recorded accesses the compact keys
  determine the names, the count of a field for a thread is the number of its writes (and the read
  count that of its reads), modulo 2^64, and the top list, whatever order the hash map is iterated
  in, is in descending order and leaves out no field that was hit more often than a listed one.
\<close>

theorem heatmap_counts_history:
  assumes "2 * length es < 2 ^ 32" "\<And>m. mset (it m) = mset m"
  shows "let h = fold heat_step es fh_new; top = top_entries it limit h in
    heat_count h (fh_counts h) r = of_nat (length (filter (\<lambda>e. he_is_write e \<and> he_key e = r) es)) \<and>
    heat_count h (fh_read_counts h) r = of_nat (length (filter (\<lambda>e. \<not> he_is_write e \<and> he_key e = r) es)) \<and>
    (\<forall>(k, c) \<in> set (fh_counts h). c = heat_count h (fh_counts h) (fh_resolve h k)) \<and>
    sorted_wrt (\<lambda>a b. snd b \<le> snd a) top \<and>
    (\<exists>rest. mset (top @ rest) = mset (map (\<lambda>(k, c). (fh_resolve h k, c)) (fh_counts h)) \<and>
       (\<forall>a \<in> set top. \<forall>b \<in> set rest. snd b \<le> snd a))"
proof -
  define h where "h = fold heat_step es fh_new"
  note run = heat_run [OF assms(1), folded h_def]
  have good: "fh_inv h" "heat_ok h (fh_counts h)" using run by (simp_all add: heat_good_def)
  have own: "c = heat_count h (fh_counts h) (fh_resolve h k)" if "(k, c) \<in> set (fh_counts h)" for k c
    using heat_count_unique [OF good, of k] that good(2) by (auto simp: heat_ok_def)
  let ?all = "map (\<lambda>(k, c). (fh_resolve h k, c)) (it (fh_counts h))"
  let ?s = "sort_key (\<lambda>e. - uint (snd e)) ?all"
  have "sorted (map (\<lambda>e. - uint (snd e)) ?s)" by simp
  then have srt: "sorted_wrt (\<lambda>a b. snd b \<le> snd a) ?s"
    by (simp add: sorted_wrt_map word_le_def)
  have top: "top_entries it limit h = take limit ?s" by (simp add: top_entries_def top_of_def)
  have "sorted_wrt (\<lambda>a b. snd b \<le> snd a) (take limit ?s @ drop limit ?s)" using srt by simp
  then have "sorted_wrt (\<lambda>a b. snd b \<le> snd a) (take limit ?s)"
      "\<forall>a \<in> set (take limit ?s). \<forall>b \<in> set (drop limit ?s). snd b \<le> snd a"
    unfolding sorted_wrt_append by blast+
  moreover have "mset (take limit ?s @ drop limit ?s) = mset (map (\<lambda>(k, c). (fh_resolve h k, c)) (fh_counts h))"
    by (simp add: assms(2))
  ultimately have "sorted_wrt (\<lambda>a b. snd b \<le> snd a) (top_entries it limit h) \<and>
    (\<exists>rest. mset (top_entries it limit h @ rest) = mset (map (\<lambda>(k, c). (fh_resolve h k, c)) (fh_counts h)) \<and>
       (\<forall>a \<in> set (top_entries it limit h). \<forall>b \<in> set rest. snd b \<le> snd a))"
    unfolding top by blast
  with run own show ?thesis unfolding h_def [symmetric] Let_def by blast
qed

definition demo_heat :: "heat_event list" where
  "demo_heat = (let k = \<lparr>hk_thread = 1, hk_type_name = ''T'', hk_field_name = ''f'', hk_offset = 8\<rparr> in
     [\<lparr>he_is_write = True, he_key = k\<rparr>, \<lparr>he_is_write = False, he_key = k\<rparr>, \<lparr>he_is_write = True, he_key = k\<rparr>])"

theorem heatmap_counts_history_witness:
  "heat_count (fold heat_step demo_heat fh_new) (fh_counts (fold heat_step demo_heat fh_new))
     \<lparr>hk_thread = 1, hk_type_name = ''T'', hk_field_name = ''f'', hk_offset = 8\<rparr> = 2"
  using heatmap_counts_history [where es = demo_heat and it = "\<lambda>m. m" and limit = 1
      and r = "\<lparr>hk_thread = 1, hk_type_name = ''T'', hk_field_name = ''f'', hk_offset = 8\<rparr>"]
  by (simp add: Let_def demo_heat_def)

end
