(* ===== verification/Snapshots.thy ===== *)
theory Snapshots
  imports Field_Heatmap
begin

text \<open>
  \<open>SnapshotRing\<close> of \<^verbatim>\<open>engine/src/world.rs\<close>: the last snapshots of the world in a circular buffer, found
  by binary search on the instruction counter, the tick or the event sequence number, and compared
  with each other.  The ring is a \<open>bounded_log\<close>.  Indexing out of range and \<open>unwrap\<close> of \<open>None\<close> are
  the outcome \<open>Panic\<close>.
\<close>

record snap_entry =
  sn_snap :: world_inner
  sn_insn :: u64
  sn_tick :: u64
  sn_event_seq :: u64

record snapshot_ring =
  sr_buf :: "snap_entry list"
  sr_cap :: nat
  sr_write_pos :: nat
  sr_len :: nat

definition sr_new :: "nat \<Rightarrow> snapshot_ring" where
  "sr_new cap = \<lparr>sr_buf = [], sr_cap = cap, sr_write_pos = 0, sr_len = 0\<rparr>"

definition snap_of :: "world_inner \<Rightarrow> u64 \<Rightarrow> u64 \<Rightarrow> snap_entry" where
  "snap_of w tick seq = \<lparr>sn_snap = w, sn_insn = wi_insn_counter w, sn_tick = tick, sn_event_seq = seq\<rparr>"

definition sr_put :: "snap_entry \<Rightarrow> snapshot_ring \<Rightarrow> snapshot_ring" where
  "sr_put e r = r\<lparr>sr_buf := circ_put (sr_cap r) (sr_write_pos r) e (sr_buf r),
     sr_write_pos := (sr_write_pos r + 1) mod sr_cap r, sr_len := min (sr_len r + 1) (sr_cap r)\<rparr>"

text \<open>With capacity 0 both the indexing and the remainder panic.\<close>

definition sr_push :: "world_inner \<Rightarrow> u64 \<Rightarrow> u64 \<Rightarrow> snapshot_ring \<Rightarrow> snapshot_ring outcome" where
  "sr_push w tick seq r = (if sr_cap r = 0 then Panic else Value (sr_put (snap_of w tick seq) r))"

definition sr_slot :: "nat \<Rightarrow> snapshot_ring \<Rightarrow> snap_entry option outcome" where
  "sr_slot idx r =
     (if sr_len r \<le> idx then Value None
      else (let start = (if sr_len r < sr_cap r then 0 else sr_write_pos r);
                i = (start + idx) mod sr_cap r
            in if sr_cap r = 0 \<or> length (sr_buf r) \<le> i then Panic else Value (Some (sr_buf r ! i))))"

definition sr_latest :: "snapshot_ring \<Rightarrow> snap_entry option outcome" where
  "sr_latest r = (if sr_len r = 0 then Value None else sr_slot (sr_len r - 1) r)"

function bsearch :: "(snap_entry \<Rightarrow> u64) \<Rightarrow> u64 \<Rightarrow> snapshot_ring \<Rightarrow> nat \<Rightarrow> nat \<Rightarrow> nat outcome" where
  "bsearch key target r lo hi =
     (if lo < hi then
        (let mid = lo + (hi - lo) div 2 in
         case sr_slot mid r of
           Value (Some e) \<Rightarrow>
             if key e \<le> target then bsearch key target r (mid + 1) hi else bsearch key target r lo mid
         | _ \<Rightarrow> Panic)
      else Value lo)"
  by pat_completeness auto
termination
  by (relation "measure (\<lambda>(_, _, _, lo, hi). hi - lo)") auto

declare bsearch.simps [simp del]

definition find_by :: "(snap_entry \<Rightarrow> u64) \<Rightarrow> u64 \<Rightarrow> snapshot_ring \<Rightarrow> nat option outcome" where
  "find_by key target r =
     (if sr_len r = 0 then Value None
      else (case bsearch key target r 0 (sr_len r) of Panic \<Rightarrow> Panic
            | Value lo \<Rightarrow> Value (if 0 < lo then Some (lo - 1) else None)))"

definition find_by_insn :: "u64 \<Rightarrow> snapshot_ring \<Rightarrow> nat option outcome" where
  "find_by_insn = find_by sn_insn"

definition find_by_tick :: "u64 \<Rightarrow> snapshot_ring \<Rightarrow> nat option outcome" where
  "find_by_tick = find_by sn_tick"

definition find_by_seq :: "u64 \<Rightarrow> snapshot_ring \<Rightarrow> nat option outcome" where
  "find_by_seq = find_by sn_event_seq"

record snapshot_delta =
  sd_older_seq :: u64
  sd_newer_seq :: u64
  sd_node_delta :: int
  sd_edge_delta :: int
  sd_nodes_added :: "string list"
  sd_nodes_removed :: "string list"
  sd_edges_added :: nat
  sd_edges_removed :: nat
  sd_value_changes :: "(string \<times> u64 \<times> u64) list"

text \<open>\<open>a.difference(&b)\<close> over ordered keys: the entries of \<open>a\<close> whose key \<open>b\<close> has not, in order.\<close>

definition only_in :: "('k, 'v) btree_map \<Rightarrow> ('k, 'w) btree_map \<Rightarrow> ('k \<times> 'v) list" where
  "only_in a b = filter (\<lambda>(k, _). bt_get b k = None) a"

definition value_changes ::
  "(node_id, node) btree_map \<Rightarrow> (node_id, node) btree_map \<Rightarrow> (string \<times> u64 \<times> u64) list" where
  "value_changes a b = List.map_filter (\<lambda>(i, na).
     case bt_get b i of None \<Rightarrow> None
     | Some nb \<Rightarrow> if nd_raw_value na \<noteq> nd_raw_value nb
                  then Some (nd_name na, nd_raw_value na, nd_raw_value nb) else None) a"

definition delta_of :: "snap_entry \<Rightarrow> snap_entry \<Rightarrow> snapshot_delta" where
  "delta_of a b = (let sa = sn_snap a; sb = sn_snap b in
     \<lparr>sd_older_seq = sn_event_seq a, sd_newer_seq = sn_event_seq b,
      sd_node_delta = int (length (wi_nodes sb)) - int (length (wi_nodes sa)),
      sd_edge_delta = int (length (wi_edges sb)) - int (length (wi_edges sa)),
      sd_nodes_added = map (nd_name \<circ> snd) (only_in (wi_nodes sb) (wi_nodes sa)),
      sd_nodes_removed = map (nd_name \<circ> snd) (only_in (wi_nodes sa) (wi_nodes sb)),
      sd_edges_added = length (only_in (wi_edges sb) (wi_edges sa)),
      sd_edges_removed = length (only_in (wi_edges sa) (wi_edges sb)),
      sd_value_changes = value_changes (wi_nodes sa) (wi_nodes sb)\<rparr>)"

definition sr_delta :: "nat \<Rightarrow> nat \<Rightarrow> snapshot_ring \<Rightarrow> snapshot_delta option outcome" where
  "sr_delta older newer r =
     (case sr_slot older r of Panic \<Rightarrow> Panic | Value None \<Rightarrow> Value None
      | Value (Some a) \<Rightarrow>
          (case sr_slot newer r of Panic \<Rightarrow> Panic | Value None \<Rightarrow> Value None
           | Value (Some b) \<Rightarrow> Value (Some (delta_of a b))))"


subsection \<open>The ring as a bounded log\<close>

definition sr_inv :: "snapshot_ring \<Rightarrow> bool" where
  "sr_inv r \<longleftrightarrow> circ_inv (sr_cap r) (sr_write_pos r) (sr_len r) (sr_buf r)"

definition sr_items :: "snapshot_ring \<Rightarrow> snap_entry list" where
  "sr_items r = circ_items (sr_cap r) (sr_write_pos r) (sr_buf r)"

interpretation snaps: bounded_log sr_put sr_items sr_inv sr_cap
proof
  fix r :: snapshot_ring and e :: snap_entry
  assume inv: "sr_inv r"
  show "sr_inv (sr_put e r)"
    using inv circ_inv_put [of "sr_cap r" "sr_write_pos r" "sr_len r" "sr_buf r" e]
    by (simp add: sr_inv_def sr_put_def)
  show "sr_cap (sr_put e r) = sr_cap r" by (simp add: sr_put_def)
  show "sr_items (sr_put e r) = last_n (sr_cap r) (sr_items r @ [e])"
    using inv circ_items_put [of "sr_cap r" "sr_write_pos r" "sr_len r" "sr_buf r" e]
    by (simp add: sr_inv_def sr_items_def sr_put_def)
  show "length (sr_items r) \<le> sr_cap r"
    using inv circ_items_length [of "sr_cap r" "sr_write_pos r" "sr_len r" "sr_buf r"]
    by (auto simp: sr_inv_def sr_items_def circ_inv_def)
qed

lemma sr_inv_new: "0 < cap \<Longrightarrow> sr_inv (sr_new cap)"
  by (simp add: sr_inv_def sr_new_def circ_inv_def)

lemma sr_slot_items:
  assumes "sr_inv r"
  shows "sr_slot i r = Value (if i < length (sr_items r) then Some (sr_items r ! i) else None)"
proof -
  from assms have len: "length (sr_items r) = sr_len r"
    by (simp add: sr_inv_def sr_items_def circ_items_length)
  show ?thesis
  proof (cases "i < sr_len r")
    case False
    then show ?thesis by (simp add: sr_slot_def len)
  next
    case True
    show ?thesis
    proof (cases "sr_len r < sr_cap r")
      case short: True
      with True assms show ?thesis
        by (auto simp: sr_slot_def sr_inv_def circ_inv_def sr_items_def circ_items_def Let_def)
    next
      case False
      with assms have f: "sr_len r = sr_cap r" "length (sr_buf r) = sr_cap r" "sr_write_pos r < sr_cap r"
        by (auto simp: sr_inv_def circ_inv_def)
      let ?p = "sr_write_pos r" and ?c = "sr_cap r"
      have "(drop ?p (sr_buf r) @ take ?p (sr_buf r)) ! i = sr_buf r ! ((?p + i) mod ?c)"
      proof (cases "?p + i < ?c")
        case True
        then show ?thesis using f by (simp add: nth_append)
      next
        case False
        then have "(?p + i) mod ?c = ?p + i - ?c" using f True by (simp add: mod_if)
        then show ?thesis using f False True by (simp add: nth_append add.commute)
      qed
      moreover have "(?p + i) mod ?c < ?c" using f by simp
      moreover have "0 < ?c" using f(3) by simp
      ultimately show ?thesis using f True len
        by (auto simp: sr_slot_def sr_items_def circ_items_def Let_def not_le)
    qed
  qed
qed


subsection \<open>Binary search\<close>

lemma bsearch_spec:
  assumes "sr_inv r" "sorted (map key (sr_items r))"
    and "lo \<le> hi" "hi \<le> length (sr_items r)"
    and "\<forall>i < lo. key (sr_items r ! i) \<le> target"
    and "\<forall>i. hi \<le> i \<and> i < length (sr_items r) \<longrightarrow> \<not> key (sr_items r ! i) \<le> target"
  shows "\<exists>n. bsearch key target r lo hi = Value n \<and> n \<le> length (sr_items r) \<and>
    (\<forall>i < n. key (sr_items r ! i) \<le> target) \<and>
    (\<forall>i. n \<le> i \<and> i < length (sr_items r) \<longrightarrow> \<not> key (sr_items r ! i) \<le> target)"
  using assms(3-6)
proof (induction "hi - lo" arbitrary: lo hi rule: less_induct)
  case less
  show ?case
  proof (cases "lo < hi")
    case False
    then have "bsearch key target r lo hi = Value lo" by (simp add: bsearch.simps [of key target r lo hi])
    moreover have h: "lo = hi" using False less.prems(1) by simp
    ultimately show ?thesis using less.prems unfolding h by blast
  next
    case True
    let ?xs = "sr_items r"
    define m where "m = lo + (hi - lo) div 2"
    have m: "lo \<le> m" "m < hi" "m < length ?xs" using True less.prems(2) by (auto simp: m_def)
    have slot: "sr_slot m r = Value (Some (?xs ! m))"
      using m by (simp add: sr_slot_items [OF assms(1)])
    have mono: "key (?xs ! i) \<le> key (?xs ! j)" if "i \<le> j" "j < length ?xs" for i j
      using sorted_nth_mono [OF assms(2), of i j] that by simp
    show ?thesis
    proof (cases "key (?xs ! m) \<le> target")
      case below: True
      have step: "bsearch key target r lo hi = bsearch key target r (m + 1) hi"
        using True slot below by (simp add: bsearch.simps [of key target r lo hi] Let_def m_def [symmetric])
      have "\<forall>i < m + 1. key (?xs ! i) \<le> target"
      proof (intro allI impI)
        fix i assume "i < m + 1"
        then have "key (?xs ! i) \<le> key (?xs ! m)" using m by (intro mono) simp_all
        with below show "key (?xs ! i) \<le> target" by simp
      qed
      then show ?thesis
        unfolding step using m less.prems by (intro less.hyps) auto
    next
      case above: False
      have step: "bsearch key target r lo hi = bsearch key target r lo m"
        using True slot above by (simp add: bsearch.simps [of key target r lo hi] Let_def m_def [symmetric])
      have "\<forall>i. m \<le> i \<and> i < length ?xs \<longrightarrow> \<not> key (?xs ! i) \<le> target"
      proof (intro allI impI)
        fix i assume i: "m \<le> i \<and> i < length ?xs"
        then have "key (?xs ! m) \<le> key (?xs ! i)" by (intro mono) simp_all
        with above show "\<not> key (?xs ! i) \<le> target" by simp
      qed
      then show ?thesis
        unfolding step using m less.prems by (intro less.hyps) auto
    qed
  qed
qed

text \<open>The position of the last entry whose key is at most the target.\<close>

definition last_le :: "('a \<Rightarrow> u64) \<Rightarrow> u64 \<Rightarrow> 'a list \<Rightarrow> nat option" where
  "last_le key target xs =
     (let n = length (takeWhile (\<lambda>e. key e \<le> target) xs) in if n = 0 then None else Some (n - 1))"

lemma find_by_items:
  assumes "sr_inv r" "sorted (map key (sr_items r))"
  shows "find_by key target r = Value (last_le key target (sr_items r))"
proof -
  let ?xs = "sr_items r"
  from assms(1) have len: "length ?xs = sr_len r"
    by (simp add: sr_inv_def sr_items_def circ_items_length)
  have "\<exists>n. bsearch key target r 0 (sr_len r) = Value n \<and> n \<le> length ?xs \<and>
    (\<forall>i < n. key (?xs ! i) \<le> target) \<and> (\<forall>i. n \<le> i \<and> i < length ?xs \<longrightarrow> \<not> key (?xs ! i) \<le> target)"
    by (rule bsearch_spec [OF assms]) (auto simp: len)
  then obtain n where
    n: "bsearch key target r 0 (sr_len r) = Value n" "n \<le> length ?xs" "\<forall>i < n. key (?xs ! i) \<le> target"
      "\<forall>i. n \<le> i \<and> i < length ?xs \<longrightarrow> \<not> key (?xs ! i) \<le> target" by blast
  have "takeWhile (\<lambda>e. key e \<le> target) ?xs = take n ?xs"
    using n(2-4) by (intro takeWhile_eq_take_P_nth) auto
  then have "length (takeWhile (\<lambda>e. key e \<le> target) ?xs) = n" using n(2) by simp
  moreover have "0 < sr_len r" if "0 < n" using n(2) that len by simp
  ultimately show ?thesis using n(1) by (auto simp: find_by_def last_le_def Let_def)
qed


subsection \<open>Time travel\<close>

definition push_all :: "(world_inner \<times> u64 \<times> u64) list \<Rightarrow> snapshot_ring \<Rightarrow> snapshot_ring" where
  "push_all ws r = fold sr_put (map (\<lambda>(w, t, s). snap_of w t s) ws) r"

lemma push_all_outcome:
  "sr_cap r \<noteq> 0 \<Longrightarrow> fold (\<lambda>(w, t, s) oc. case oc of Panic \<Rightarrow> Panic | Value r \<Rightarrow> sr_push w t s r) ws (Value r)
      = Value (push_all ws r)"
proof (induction ws arbitrary: r)
  case (Cons x ws)
  have "sr_cap (sr_put e r) = sr_cap r" for e by (simp add: sr_put_def)
  with Cons show ?case by (cases x) (simp add: sr_push_def push_all_def)
qed (simp add: push_all_def)

lemma last_le_exact:
  assumes "sorted (map key xs)"
  shows "case last_le key target xs of
      None \<Rightarrow> \<forall>e \<in> set xs. target < key e
    | Some i \<Rightarrow> i < length xs \<and> key (xs ! i) \<le> target \<and> (\<forall>j. i < j \<and> j < length xs \<longrightarrow> target < key (xs ! j))"
proof -
  let ?P = "\<lambda>e. key e \<le> target"
  let ?n = "length (takeWhile ?P xs)"
  have above: "target < key (xs ! j)" if "?n \<le> j" "j < length xs" for j
  proof -
    have "\<not> ?P (xs ! ?n)" using nth_length_takeWhile [of ?P xs] that by simp
    moreover have "key (xs ! ?n) \<le> key (xs ! j)" using sorted_nth_mono [OF assms, of ?n j] that by simp
    ultimately show ?thesis by simp
  qed
  show ?thesis
  proof (cases "?n = 0")
    case True
    then show ?thesis using above by (auto simp: last_le_def in_set_conv_nth)
  next
    case False
    then have "takeWhile ?P xs ! (?n - 1) \<in> set (takeWhile ?P xs)" by (intro nth_mem) simp
    then have "?P (takeWhile ?P xs ! (?n - 1))" using set_takeWhileD [of _ ?P xs] by blast
    then have "?P (xs ! (?n - 1))" using False by (simp add: takeWhile_nth)
    moreover have "?n - 1 < length xs" using False length_takeWhile_le [of ?P xs] by linarith
    moreover have "target < key (xs ! j)" if "?n - 1 < j" "j < length xs" for j
      using above [of j] that by simp
    ultimately show ?thesis using False by (simp add: last_le_def Let_def)
  qed
qed

text \<open>
  A ring of positive capacity never panics on a push; after pushing any history
  it holds the last \<open>cap\<close> snapshots in order.  If a key grows along the history (the instruction
  counter, the tick, the event number), the binary search terminates without a panic on the last
  retained snapshot whose key is at most the target, and the slot there is that snapshot; it answers
  nothing exactly when all retained snapshots are later.
\<close>

theorem time_travel_exact:
  assumes "0 < cap" "sorted (map key (map (\<lambda>(w, t, s). snap_of w t s) ws))"
  shows "let r = push_all ws (sr_new cap); kept = last_n cap (map (\<lambda>(w, t, s). snap_of w t s) ws) in
    fold (\<lambda>(w, t, s) oc. case oc of Panic \<Rightarrow> Panic | Value r \<Rightarrow> sr_push w t s r) ws (Value (sr_new cap)) = Value r \<and>
    (\<forall>i. sr_slot i r = Value (if i < length kept then Some (kept ! i) else None)) \<and>
    sr_latest r = Value (if kept = [] then None else Some (last kept)) \<and>
    (case find_by key target r of Panic \<Rightarrow> False
     | Value None \<Rightarrow> \<forall>e \<in> set kept. target < key e
     | Value (Some i) \<Rightarrow> i < length kept \<and> key (kept ! i) \<le> target \<and>
         (\<forall>j. i < j \<and> j < length kept \<longrightarrow> target < key (kept ! j)))"
proof -
  define hist where "hist = map (\<lambda>(w, t, s). snap_of w t s) ws"
  define r where "r = push_all ws (sr_new cap)"
  define kept where "kept = last_n cap hist"
  have inv: "sr_inv r" unfolding r_def push_all_def by (rule snaps.inv_run [OF sr_inv_new [OF assms(1)]])
  have "sr_items (sr_new cap) = []" "sr_cap (sr_new cap) = cap"
    by (simp_all add: sr_items_def circ_items_def sr_new_def)
  then have items: "sr_items r = kept"
    unfolding r_def push_all_def kept_def hist_def
    by (simp add: snaps.items_from_empty [OF sr_inv_new [OF assms(1)]])
  have srt: "sorted (map key kept)"
    unfolding kept_def last_n_def using assms(2) by (simp add: hist_def drop_map [symmetric] sorted_wrt_drop)
  have len: "length kept = sr_len r"
    using inv by (simp add: items [symmetric] sr_inv_def sr_items_def circ_items_length)
  have "fold (\<lambda>(w, t, s) oc. case oc of Panic \<Rightarrow> Panic | Value r \<Rightarrow> sr_push w t s r) ws (Value (sr_new cap)) = Value r"
    using push_all_outcome [of "sr_new cap" ws] assms(1) by (simp add: r_def sr_new_def)
  moreover have slot: "\<forall>i. sr_slot i r = Value (if i < length kept then Some (kept ! i) else None)"
    using sr_slot_items [OF inv] items by simp
  moreover have "sr_latest r = Value (if kept = [] then None else Some (last kept))"
  proof (cases "kept = []")
    case False
    then have "0 < sr_len r" using len by (metis length_greater_0_conv)
    with False slot len show ?thesis by (simp add: sr_latest_def last_conv_nth)
  qed (use len in \<open>simp add: sr_latest_def\<close>)
  moreover have "find_by key target r = Value (last_le key target kept)"
    using find_by_items [OF inv, of key target] srt items by simp
  ultimately show ?thesis
    using last_le_exact [OF srt, of target]
    by (simp add: r_def [symmetric] hist_def [symmetric] kept_def [symmetric] Let_def split: option.split)
qed

definition demo_history :: "(world_inner \<times> u64 \<times> u64) list" where
  "demo_history = map (\<lambda>n. (wi_new, of_nat n, of_nat (10 * n))) [1, 2, 3, 4]"

theorem time_travel_exact_witness:
  "find_by_seq 35 (push_all demo_history (sr_new 3)) = Value (Some 1)"
proof -
  have kept: "last_n 3 (map (\<lambda>(w, t, s). snap_of w t s) demo_history) =
      [snap_of wi_new 2 20, snap_of wi_new 3 30, snap_of wi_new 4 40]" (is "_ = ?kept")
    by (simp add: last_n_def demo_history_def)
  have "sorted (map sn_event_seq (map (\<lambda>(w, t, s). snap_of w t s) demo_history))"
    by (simp add: demo_history_def snap_of_def)
  from time_travel_exact [where cap = 3 and key = sn_event_seq and target = 35, OF _ this]
  have c: "case find_by sn_event_seq 35 (push_all demo_history (sr_new 3)) of Panic \<Rightarrow> False
     | Value None \<Rightarrow> \<forall>e \<in> set ?kept. 35 < sn_event_seq e
     | Value (Some i) \<Rightarrow> i < length ?kept \<and> sn_event_seq (?kept ! i) \<le> 35 \<and>
         (\<forall>j. i < j \<and> j < length ?kept \<longrightarrow> 35 < sn_event_seq (?kept ! j))"
    unfolding kept Let_def by simp
  have none: "\<not> (\<forall>e \<in> set ?kept. 35 < sn_event_seq e)" by (simp add: snap_of_def)
  have "i = 1" if "i < length ?kept" "sn_event_seq (?kept ! i) \<le> 35"
      "\<forall>j. i < j \<and> j < length ?kept \<longrightarrow> 35 < sn_event_seq (?kept ! j)" for i
  proof -
    from that(1) consider "i = 0" | "i = 1" | "i = 2" by fastforce
    then show ?thesis using that(2) that(3) [rule_format, of 1] by cases (simp_all add: snap_of_def)
  qed
  with c none show ?thesis
    by (auto simp: find_by_seq_def split: outcome.splits option.splits)
qed


subsection \<open>Deltas\<close>

lemma only_in_mem: "bt_inv a \<Longrightarrow> (k, v) \<in> set (only_in a b) \<longleftrightarrow> bt_get a k = Some v \<and> bt_get b k = None"
  by (auto simp: only_in_def get_in_set)

lemma only_in_length:
  assumes "bt_inv a" "bt_inv b"
  shows "length (only_in a b) = card (dom (bt_get a) - dom (bt_get b))"
proof -
  have "distinct (map fst (only_in a b))"
    unfolding only_in_def using bt_inv_distinct [OF bt_inv_filter [OF assms(1)]] by simp
  then have "length (only_in a b) = card (fst ` set (only_in a b))"
    by (metis distinct_card length_map list.set_map)
  also have "fst ` set (only_in a b) = dom (bt_get a) - dom (bt_get b)"
  proof (rule set_eqI)
    fix k
    have "k \<in> fst ` set (only_in a b) \<longleftrightarrow> (\<exists>v. (k, v) \<in> set (only_in a b))" by force
    then show "k \<in> fst ` set (only_in a b) \<longleftrightarrow> k \<in> dom (bt_get a) - dom (bt_get b)"
      by (auto simp: only_in_mem [OF assms(1)])
  qed
  finally show ?thesis .
qed

lemma btree_card: "bt_inv a \<Longrightarrow> length a = card (dom (bt_get a))"
  by (metis bt_inv_distinct distinct_card dom_map_of_conv_image_fst length_map list.set_map)

lemma only_in_balance:
  assumes "bt_inv a" "bt_inv b"
  shows "int (length b) - int (length a) = int (length (only_in b a)) - int (length (only_in a b))"
proof -
  let ?A = "dom (bt_get a)" and ?B = "dom (bt_get b)"
  have fin: "finite ?A" "finite ?B" by (simp_all add: finite_dom_map_of)
  have "card ?A = card (?A \<inter> ?B) + card (?A - ?B)" "card ?B = card (?A \<inter> ?B) + card (?B - ?A)"
    using card_Int_Diff [OF fin(1), of ?B] card_Int_Diff [OF fin(2), of ?A] by (simp_all add: Int_commute)
  then show ?thesis using assms by (simp add: btree_card only_in_length)
qed

lemma value_changes_mem:
  assumes "bt_inv a"
  shows "(n, u, v) \<in> set (value_changes a b) \<longleftrightarrow>
    (\<exists>i na nb. bt_get a i = Some na \<and> bt_get b i = Some nb \<and> n = nd_name na \<and> u = nd_raw_value na \<and>
       v = nd_raw_value nb \<and> u \<noteq> v)" (is "_ = ?R")
proof
  assume "(n, u, v) \<in> set (value_changes a b)"
  then show ?R
    using assms
    by (auto simp: value_changes_def List.map_filter_def get_in_set split: option.splits if_splits) blast
next
  assume ?R
  then obtain i na nb where g: "bt_get a i = Some na" "bt_get b i = Some nb" "n = nd_name na" "u = nd_raw_value na"
    "v = nd_raw_value nb" "u \<noteq> v" by blast
  from g(1) have "(i, na) \<in> set a" using assms by (simp add: get_in_set)
  then show "(n, u, v) \<in> set (value_changes a b)"
    unfolding value_changes_def List.map_filter_def using g
    by (auto intro!: image_eqI [where x = "(i, na)"])
qed

lemma only_in_names:
  assumes "bt_inv a"
  shows "set (map (nd_name \<circ> snd) (only_in a b)) = {nd_name n |i n. bt_get a i = Some n \<and> bt_get b i = None}"
proof -
  have "set (only_in a b) = {(i, n). bt_get a i = Some n \<and> bt_get b i = None}"
    using only_in_mem [OF assms] by auto
  then show ?thesis by (simp only: set_map) force
qed

text \<open>
  The delta of two snapshots balances: the change of the number of nodes (of
  edges) is what was added less what was removed.  Added and removed nodes are those present on one
  side only, a value change is reported for exactly the nodes on both sides whose value differs, and
  exchanging the snapshots exchanges added with removed.
\<close>

theorem delta_balances:
  assumes "graph_inv (sn_snap a)" "graph_inv (sn_snap b)"
  shows "let d = delta_of a b; na = wi_nodes (sn_snap a); nb = wi_nodes (sn_snap b) in
    sd_node_delta d = int (length (sd_nodes_added d)) - int (length (sd_nodes_removed d)) \<and>
    sd_edge_delta d = int (sd_edges_added d) - int (sd_edges_removed d) \<and>
    set (sd_nodes_added d) = {nd_name n |i n. bt_get nb i = Some n \<and> bt_get na i = None} \<and>
    (\<forall>n u v. (n, u, v) \<in> set (sd_value_changes d) \<longleftrightarrow>
      (\<exists>i x y. bt_get na i = Some x \<and> bt_get nb i = Some y \<and> n = nd_name x \<and> u = nd_raw_value x \<and>
         v = nd_raw_value y \<and> u \<noteq> v)) \<and>
    sd_nodes_added (delta_of b a) = sd_nodes_removed d \<and> sd_nodes_removed (delta_of b a) = sd_nodes_added d \<and>
    sd_node_delta (delta_of b a) = - sd_node_delta d \<and> sd_edges_added (delta_of b a) = sd_edges_removed d"
proof -
  have i: "bt_inv (wi_nodes (sn_snap a))" "bt_inv (wi_nodes (sn_snap b))"
    "bt_inv (wi_edges (sn_snap a))" "bt_inv (wi_edges (sn_snap b))"
    using assms by (simp_all add: graph_inv_def)
  show ?thesis
    unfolding Let_def
  proof (intro conjI)
    show "set (sd_nodes_added (delta_of a b)) = {nd_name n |i n. bt_get (wi_nodes (sn_snap b)) i = Some n \<and>
        bt_get (wi_nodes (sn_snap a)) i = None}"
      by (simp only: delta_of_def Let_def snapshot_delta.simps only_in_names [OF i(2)])
    show "\<forall>n u v. (n, u, v) \<in> set (sd_value_changes (delta_of a b)) \<longleftrightarrow>
      (\<exists>i x y. bt_get (wi_nodes (sn_snap a)) i = Some x \<and> bt_get (wi_nodes (sn_snap b)) i = Some y \<and>
         n = nd_name x \<and> u = nd_raw_value x \<and> v = nd_raw_value y \<and> u \<noteq> v)"
      using value_changes_mem [OF i(1)] by (simp add: delta_of_def Let_def)
  qed (use only_in_balance [OF i(1,2)] only_in_balance [OF i(3,4)] in
      \<open>simp_all add: delta_of_def Let_def\<close>)
qed

theorem delta_balances_witness:
  "sd_nodes_added (delta_of (snap_of wi_new 0 0) (snap_of demo_graph 1 1)) = [''g'', ''p''] \<and>
   sd_node_delta (delta_of (snap_of wi_new 0 0) (snap_of demo_graph 1 1)) = 2"
proof -
  have inv: "graph_inv wi_new" "graph_inv demo_graph"
    using graph_inv_new graph_reach_inv [OF demo_graph_reach] by simp_all
  have nodes: "map (nd_name \<circ> snd) (wi_nodes demo_graph) = [''g'', ''p'']" "wi_nodes wi_new = []"
    by (simp_all add: demo_graph_def update_edge_def ensure_node_def node_exists_def wi_new_def less_node_id_def)
  have names: "sd_nodes_added (delta_of (snap_of wi_new 0 0) (snap_of demo_graph 1 1)) = [''g'', ''p'']"
      "sd_nodes_removed (delta_of (snap_of wi_new 0 0) (snap_of demo_graph 1 1)) = []"
    using nodes by (simp_all add: delta_of_def Let_def snap_of_def only_in_def)
  with delta_balances [of "snap_of wi_new 0 0" "snap_of demo_graph 1 1"] inv show ?thesis
    by (simp add: snap_of_def Let_def)
qed

text \<open>An edge that is only redirected is in both key sets, so no field of the delta shows it.\<close>

lemma retargeted_edge_unseen:
  assumes "graph_inv w" "bt_get (wi_edges w) src = Some e" "node_exists t w"
  shows "delta_of (snap_of w t0 s0) (snap_of (update_edge src (Some t) v w) t1 s1) =
    (delta_of (snap_of w t0 s0) (snap_of w t1 s1))"
proof -
  have bt: "bt_inv (wi_edges w)" using assms by (simp add: graph_inv_def)
  let ?w = "update_edge src (Some t) v w"
  have dom: "dom (bt_get (wi_edges ?w)) = dom (bt_get (wi_edges w))"
    using assms(2) bt by (auto simp: update_edge_def bt.get_ins)
  have bt': "bt_inv (wi_edges ?w)" using bt by (simp add: update_edge_def bt.inv_ins)
  have "length (only_in (wi_edges ?w) (wi_edges w)) = 0" "length (only_in (wi_edges w) (wi_edges ?w)) = 0"
     "length (only_in (wi_edges w) (wi_edges w)) = 0" "length (wi_edges ?w) = length (wi_edges w)"
    using bt bt' by (simp_all only: only_in_length btree_card dom) simp_all
  then show ?thesis
    by (simp add: delta_of_def Let_def snap_of_def) (simp add: update_edge_def)
qed

end
