(* ===== verification/Rust_Text.thy ===== *)
theory Rust_Text
  imports Rtmap_Prelude "HOL-Library.Sublist"
begin

text \<open>
  The string operations of the Rust standard library that the text formats of the engine use:
  decimal and hexadecimal formatting and parsing, \<open>find\<close>, \<open>replace\<close>, \<open>trim\<close>, \<open>split_once\<close> and
  the prefix tests.  A string is a list of bytes; white space is ASCII white space.
\<close>

abbreviation quote_char :: char where "quote_char \<equiv> CHR 0x22"
abbreviation bslash :: char where "bslash \<equiv> CHR 0x5C"
abbreviation newline :: char where "newline \<equiv> CHR 0x0A"
abbreviation creturn :: char where "creturn \<equiv> CHR 0x0D"
abbreviation tab_char :: char where "tab_char \<equiv> CHR 0x09"

text \<open>The suffix of a string after the first occurrence of a pattern: \<open>find\<close> and the slice behind it.\<close>

primrec after_first :: "string \<Rightarrow> string \<Rightarrow> string option" where
  "after_first pat [] = (if pat = [] then Some [] else None)"
| "after_first pat (c # s) = (if prefix pat (c # s) then Some (drop (length pat) (c # s)) else after_first pat s)"

text \<open>The part before the first occurrence of a character, and the part after it.\<close>

definition split_once :: "char \<Rightarrow> string \<Rightarrow> (string \<times> string) option" where
  "split_once c s = (if c \<in> set s then Some (takeWhile (\<lambda>x. x \<noteq> c) s, tl (dropWhile (\<lambda>x. x \<noteq> c) s)) else None)"

definition strip_prefix :: "string \<Rightarrow> string \<Rightarrow> string option" where
  "strip_prefix p s = (if prefix p s then Some (drop (length p) s) else None)"

definition strip_suffix :: "string \<Rightarrow> string \<Rightarrow> string option" where
  "strip_suffix p s = (if suffix p s then Some (take (length s - length p) s) else None)"

definition is_space :: "char \<Rightarrow> bool" where
  "is_space c \<longleftrightarrow> c \<in> {CHR '' '', tab_char, newline, creturn, CHR 0x0B, CHR 0x0C}"

definition trim_start :: "string \<Rightarrow> string" where "trim_start s = dropWhile is_space s"
definition trim_end :: "string \<Rightarrow> string" where "trim_end s = rev (dropWhile is_space (rev s))"
definition trim :: "string \<Rightarrow> string" where "trim s = trim_end (trim_start s)"

text \<open>\<open>replace\<close> with a non-empty pattern: occurrences from the left that do not overlap.\<close>

function replace_all :: "string \<Rightarrow> string \<Rightarrow> string \<Rightarrow> string" where
  "replace_all pat rep s =
     (if pat \<noteq> [] \<and> prefix pat s then rep @ replace_all pat rep (drop (length pat) s)
      else (case s of [] \<Rightarrow> [] | c # s' \<Rightarrow> c # replace_all pat rep s'))"
  by pat_completeness auto
termination
  by (relation "measure (\<lambda>(_, _, s). length s)") (auto simp: prefix_def)

declare replace_all.simps [simp del]

primrec split_char :: "char \<Rightarrow> string \<Rightarrow> string list" where
  "split_char c [] = [[]]"
| "split_char c (x # s) =
     (if x = c then [] # split_char c s
      else (case split_char c s of [] \<Rightarrow> [[x]] | p # ps \<Rightarrow> (x # p) # ps))"


subsection \<open>Numbers\<close>

definition digit :: "nat \<Rightarrow> char" where
  "digit d = (if d < 10 then char_of (48 + d) else char_of (87 + d))"

text \<open>Formatting \<open>{}\<close> and \<open>{:x}\<close>.\<close>

fun in_base :: "nat \<Rightarrow> nat \<Rightarrow> string" where
  "in_base b n = (if n < b \<or> b < 2 then [digit n] else in_base b (n div b) @ [digit (n mod b)])"

declare in_base.simps [simp del]

definition dec :: "nat \<Rightarrow> string" where "dec n = in_base 10 n"
definition hex :: "nat \<Rightarrow> string" where "hex n = in_base 16 n"

definition is_dec_digit :: "char \<Rightarrow> bool" where
  "is_dec_digit c \<longleftrightarrow> 48 \<le> (of_char c :: nat) \<and> (of_char c :: nat) \<le> 57"

definition digit_val :: "nat \<Rightarrow> char \<Rightarrow> nat option" where
  "digit_val b c =
     (let n = of_char c :: nat;
          d = (if 48 \<le> n \<and> n \<le> 57 then n - 48
               else if 97 \<le> n \<and> n \<le> 122 then n - 87
               else if 65 \<le> n \<and> n \<le> 90 then n - 55 else b)
      in if d < b then Some d else None)"

primrec digits_val :: "nat \<Rightarrow> nat \<Rightarrow> string \<Rightarrow> nat option" where
  "digits_val b acc [] = Some acc"
| "digits_val b acc (c # s) =
     (case digit_val b c of None \<Rightarrow> None | Some d \<Rightarrow> digits_val b (acc * b + d) s)"

text \<open>\<open>from_str_radix\<close> of an unsigned type: an optional plus sign, at least one digit, no overflow.\<close>

definition parse_radix :: "nat \<Rightarrow> nat \<Rightarrow> string \<Rightarrow> nat option" where
  "parse_radix b bound s =
     (let ds = (case s of c # s' \<Rightarrow> if c = CHR ''+'' \<and> s' \<noteq> [] then s' else s | [] \<Rightarrow> [])
      in if ds = [] then None
         else (case digits_val b 0 ds of None \<Rightarrow> None | Some n \<Rightarrow> if n < bound then Some n else None))"

definition parse_u64 :: "string \<Rightarrow> nat option" where "parse_u64 s = parse_radix 10 (2 ^ 64) s"


subsubsection \<open>Round trips\<close>

lemma digit_val_digit: "2 \<le> b \<Longrightarrow> b \<le> 16 \<Longrightarrow> d < b \<Longrightarrow> digit_val b (digit d) = Some d"
  by (auto simp: digit_val_def digit_def Let_def)

lemma digit_code: "d < 16 \<Longrightarrow> of_char (digit d) = (if d < 10 then 48 + d else 87 + d :: nat)"
  by (simp add: digit_def)

lemma digits_val_append:
  "digits_val b acc (s @ t) = (case digits_val b acc s of None \<Rightarrow> None | Some n \<Rightarrow> digits_val b n t)"
  by (induction s arbitrary: acc) (auto split: option.split)

lemma digits_val_in_base:
  assumes "2 \<le> b" "b \<le> 16"
  shows "digits_val b 0 (in_base b n) = Some n"
proof (induction n rule: less_induct)
  case (less n)
  show ?case
  proof (cases "n < b")
    case True
    then show ?thesis using assms by (simp add: in_base.simps [of b n] digit_val_digit)
  next
    case False
    then have "n div b < n" using assms by simp
    with less have "digits_val b 0 (in_base b (n div b)) = Some (n div b)" by simp
    with False assms show ?thesis
      by (simp add: in_base.simps [of b n] digits_val_append digit_val_digit mult.commute)
  qed
qed

lemma in_base_nonempty [simp]: "in_base b n \<noteq> []"
  by (simp add: in_base.simps [of b n])

lemma in_base_digits:
  "2 \<le> b \<Longrightarrow> b \<le> 16 \<Longrightarrow> c \<in> set (in_base b n) \<Longrightarrow> \<exists>d < b. c = digit d"
proof (induction n rule: less_induct)
  case (less n)
  show ?case
  proof (cases "n < b")
    case True
    then show ?thesis using less.prems by (auto simp: in_base.simps [of b n])
  next
    case False
    with less.prems have "c \<in> set (in_base b (n div b)) \<or> c = digit (n mod b)"
      by (auto simp: in_base.simps [of b n])
    moreover have "n div b < n" "n mod b < b" using less.prems False by simp_all
    ultimately show ?thesis using less.IH [of "n div b"] less.prems by blast
  qed
qed

lemma digit_neq:
  assumes "d < 16" "(of_char c :: nat) < 48 \<or> (57 < (of_char c :: nat) \<and> (of_char c :: nat) < 97) \<or> 102 < (of_char c :: nat)"
  shows "digit d \<noteq> c"
proof
  assume "digit d = c"
  then have "of_char c = (if d < 10 then 48 + d else 87 + d :: nat)" using digit_code [OF assms(1)] by simp
  with assms show False by (auto split: if_splits)
qed

lemma in_base_chars:
  assumes "2 \<le> b" "b \<le> 16"
    and "(of_char c :: nat) < 48 \<or> (57 < (of_char c :: nat) \<and> (of_char c :: nat) < 97) \<or> 102 < (of_char c :: nat)"
  shows "c \<notin> set (in_base b n)"
proof
  assume "c \<in> set (in_base b n)"
  then obtain d where "d < b" "c = digit d" using in_base_digits assms by blast
  then show False using digit_neq [of d c] assms by simp
qed

lemma parse_in_base:
  assumes "2 \<le> b" "b \<le> 16" "n < bound"
  shows "parse_radix b bound (in_base b n) = Some n"
proof -
  obtain c s where cs: "in_base b n = c # s" by (cases "in_base b n") auto
  have "CHR ''+'' \<notin> set (in_base b n)" using assms by (intro in_base_chars) auto
  then have "c \<noteq> CHR ''+''" using cs by auto
  with assms digits_val_in_base [OF assms(1,2), of n] show ?thesis by (simp add: parse_radix_def cs)
qed

lemma dec_digits: "c \<in> set (dec n) \<Longrightarrow> is_dec_digit c"
  using in_base_digits [of 10 c n] by (auto simp: dec_def is_dec_digit_def digit_def)


subsubsection \<open>Searching and replacing\<close>

lemma prefix_first_char:
  assumes "c \<notin> set key" "c \<notin> set k"
  shows "prefix (key @ c # t) (k @ c # u) \<longleftrightarrow> key = k \<and> prefix t u"
  using assms
proof (induction key arbitrary: k)
  case Nil
  then show ?case by (cases k) auto
next
  case (Cons x key)
  then show ?case by (cases k) auto
qed

lemma after_first_skip: "c \<notin> set xs \<Longrightarrow> after_first (c # n) (xs @ ys) = after_first (c # n) ys"
  by (induction xs) auto

lemma replace_all_absent: "c \<notin> set s \<Longrightarrow> replace_all (c # cs) rep s = s"
proof (induction s)
  case Nil
  then show ?case by (simp add: replace_all.simps [of "c # cs" rep "[]"])
next
  case (Cons x s)
  then show ?case by (simp add: replace_all.simps [of "c # cs" rep "x # s"])
qed

lemma replace_char: "replace_all [c] rep s = concat (map (\<lambda>x. if x = c then rep else [x]) s)"
proof (induction s)
  case Nil
  then show ?case by (simp add: replace_all.simps [of "[c]" rep "[]"])
next
  case (Cons x s)
  then show ?case by (subst replace_all.simps) auto
qed

lemma trim_id:
  assumes "s = a # t" "\<not> is_space a" "s = u @ [b]" "\<not> is_space b"
  shows "trim s = s"
proof -
  have "trim_start s = s" using assms(1,2) by (simp add: trim_start_def)
  moreover have "trim_end s = s" using assms(3,4) by (simp add: trim_end_def)
  ultimately show ?thesis by (simp add: trim_def)
qed

end
