(* ===== verification/Topology.thy ===== *)
theory Topology
  imports Rust_Text
begin

text \<open>
  \<^verbatim>\<open>engine/src/topology.rs\<close>: the stream of JSON lines that describes the type graph as it changes.  The
  buffered file is the list of lines written, without their newline; writing does not fail (the
  code ignores write errors).
\<close>

record topology_stream =
  ts_written :: "string list"
  ts_lines :: u64

definition topo_new :: topology_stream where
  "topo_new = \<lparr>ts_written = [], ts_lines = 0\<rparr>"

definition esc :: "string \<Rightarrow> string" where
  "esc s = replace_all [tab_char] [bslash, CHR ''t''] (replace_all [creturn] [bslash, CHR ''r'']
     (replace_all [newline] [bslash, CHR ''n''] (replace_all [quote_char] [bslash, quote_char]
       (replace_all [bslash] [bslash, bslash] s))))"

text \<open>A line is an object of named values: a number, a string (escaped or as it is), an address in
  hexadecimal, or an array of escaped strings.\<close>

datatype jval = J_num nat | J_str string | J_raw string | J_hex u64 | J_names "string list"

definition quoted :: "string \<Rightarrow> string" where "quoted s = [quote_char] @ s @ [quote_char]"

primrec join :: "string \<Rightarrow> string list \<Rightarrow> string" where
  "join sep [] = []"
| "join sep (x # xs) = (if xs = [] then x else x @ sep @ join sep xs)"

fun jval_text :: "jval \<Rightarrow> string" where
  "jval_text (J_num n) = dec n"
| "jval_text (J_str s) = quoted (esc s)"
| "jval_text (J_raw s) = quoted s"
| "jval_text (J_hex a) = quoted (''0x'' @ hex (unat a))"
| "jval_text (J_names ns) = ''['' @ join '','' (map (\<lambda>n. quoted (esc n)) ns) @ '']''"

type_synonym jfields = "(string \<times> jval) list"

definition field_text :: "string \<times> jval \<Rightarrow> string" where
  "field_text f = quoted (fst f) @ '':'' @ jval_text (snd f)"

definition json_line :: "jfields \<Rightarrow> string" where
  "json_line fs = ''{'' @ join '','' (map field_text fs) @ ''}''"

definition emit :: "jfields \<Rightarrow> topology_stream \<Rightarrow> topology_stream" where
  "emit fs ts = ts\<lparr>ts_written := ts_written ts @ [json_line fs], ts_lines := ts_lines ts + 1\<rparr>"

definition emit_alloc :: "u64 \<Rightarrow> u16 \<Rightarrow> u64 \<Rightarrow> u64 \<Rightarrow> jfields" where
  "emit_alloc sq tid a sz = [(''seq'', J_num (unat sq)), (''tid'', J_num (unat tid)), (''type'', J_raw ''ALLOC''),
     (''addr'', J_hex a), (''size'', J_num (unat sz))]"

definition emit_free :: "u64 \<Rightarrow> u16 \<Rightarrow> u64 \<Rightarrow> u64 \<Rightarrow> jfields" where
  "emit_free sq tid a sz = [(''seq'', J_num (unat sq)), (''tid'', J_num (unat tid)), (''type'', J_raw ''FREE''),
     (''addr'', J_hex a), (''size'', J_num (unat sz))]"

definition emit_cold_stamp :: "u64 \<Rightarrow> string \<Rightarrow> u64 \<Rightarrow> string \<Rightarrow> nat \<Rightarrow> u32 \<Rightarrow> jfields" where
  "emit_cold_stamp a tn tsz src n depth = [(''type'', J_raw ''COLD_STAMP''), (''addr'', J_hex a),
     (''type_name'', J_str tn), (''type_size'', J_num (unat tsz)), (''source'', J_str src),
     (''fields'', J_num n), (''depth'', J_num (unat depth))]"

definition emit_cold_link :: "string \<Rightarrow> u64 \<Rightarrow> u64 \<Rightarrow> string \<Rightarrow> string \<Rightarrow> jfields" where
  "emit_cold_link fr fa ta pt ed = [(''type'', J_raw ''COLD_LINK''), (''from'', J_str fr), (''from_addr'', J_hex fa),
     (''to_addr'', J_hex ta), (''pointee_type'', J_str pt), (''edge'', J_str ed)]"

definition emit_stamp :: "u64 \<Rightarrow> u64 \<Rightarrow> string \<Rightarrow> u64 \<Rightarrow> string \<Rightarrow> nat \<Rightarrow> jfields" where
  "emit_stamp sq a tn tsz src n = [(''seq'', J_num (unat sq)), (''type'', J_raw ''STAMP''), (''addr'', J_hex a),
     (''type_name'', J_str tn), (''type_size'', J_num (unat tsz)), (''source'', J_str src), (''fields'', J_num n)]"

definition emit_link :: "u64 \<Rightarrow> string \<Rightarrow> u64 \<Rightarrow> u64 \<Rightarrow> string \<Rightarrow> string \<Rightarrow> jfields" where
  "emit_link sq fr fa ta pt ed = [(''seq'', J_num (unat sq)), (''type'', J_raw ''LINK''), (''from'', J_str fr),
     (''from_addr'', J_hex fa), (''to_addr'', J_hex ta), (''pointee_type'', J_str pt), (''edge'', J_str ed)]"

definition emit_hazard ::
  "u64 \<Rightarrow> string \<Rightarrow> u64 \<Rightarrow> u32 \<Rightarrow> u64 \<Rightarrow> u64 \<Rightarrow> u64 \<Rightarrow> string option \<Rightarrow> string option \<Rightarrow> jfields" where
  "emit_hazard sq kd wa wsz base asz over tn fnm = [(''seq'', J_num (unat sq)), (''type'', J_raw ''HAZARD''),
     (''kind'', J_raw kd), (''write_addr'', J_hex wa), (''write_size'', J_num (unat wsz)), (''alloc_base'', J_hex base),
     (''alloc_size'', J_num (unat asz)), (''overflow'', J_num (unat over)),
     (''type_name'', J_str (case tn of Some n \<Rightarrow> n | None \<Rightarrow> [])),
     (''field_name'', J_str (case fnm of Some n \<Rightarrow> n | None \<Rightarrow> []))]"

definition emit_false_share :: "u64 \<Rightarrow> u64 \<Rightarrow> u32 \<Rightarrow> string list \<Rightarrow> jfields" where
  "emit_false_share sq cl n names = [(''seq'', J_num (unat sq)), (''type'', J_raw ''FALSE_SHARE''),
     (''cl_addr'', J_hex cl), (''threads'', J_num (unat n)), (''names'', J_names names)]"

definition emit_process_fork :: "u64 \<Rightarrow> u32 \<Rightarrow> u32 \<Rightarrow> jfields" where
  "emit_process_fork sq child parent = [(''seq'', J_num (unat sq)), (''type'', J_raw ''PROCESS_FORK''),
     (''child_pid'', J_num (unat child)), (''parent_pid'', J_num (unat parent))]"

definition emit_cross_process_write :: "u64 \<Rightarrow> u16 \<Rightarrow> u64 \<Rightarrow> u32 \<Rightarrow> string \<Rightarrow> jfields" where
  "emit_cross_process_write sq tid a sz region = [(''seq'', J_num (unat sq)), (''tid'', J_num (unat tid)),
     (''type'', J_raw ''CROSS_PROCESS_WRITE''), (''addr'', J_hex a), (''size'', J_num (unat sz)), (''region'', J_str region)]"

definition emit_seq_gap :: "u64 \<Rightarrow> u16 \<Rightarrow> u32 \<Rightarrow> u32 \<Rightarrow> jfields" where
  "emit_seq_gap sq tid expected actual = [(''seq'', J_num (unat sq)), (''tid'', J_num (unat tid)),
     (''type'', J_raw ''SEQ_GAP''), (''expected'', J_num (unat expected)), (''actual'', J_num (unat actual)),
     (''dropped'', J_num (unat (actual - expected)))]"

definition emit_type_schism :: "u64 \<Rightarrow> u64 \<Rightarrow> string \<Rightarrow> string \<Rightarrow> string \<Rightarrow> string \<Rightarrow> jfields" where
  "emit_type_schism sq a ot nt os ns = [(''seq'', J_num (unat sq)), (''type'', J_raw ''TYPE_SCHISM''), (''addr'', J_hex a),
     (''old_type'', J_str ot), (''new_type'', J_str nt), (''old_source'', J_str os), (''new_source'', J_str ns)]"

definition emit_type_violation ::
  "u64 \<Rightarrow> string \<Rightarrow> u64 \<Rightarrow> u32 \<Rightarrow> u64 \<Rightarrow> u64 \<Rightarrow> string \<Rightarrow> string option \<Rightarrow> u64 \<Rightarrow> jfields" where
  "emit_type_violation sq kd wa wsz base off tn fnm pc = [(''seq'', J_num (unat sq)), (''type'', J_raw ''TYPE_VIOLATION''),
     (''kind'', J_raw kd), (''write_addr'', J_hex wa), (''write_size'', J_num (unat wsz)), (''base_addr'', J_hex base),
     (''offset'', J_num (unat off)), (''type_name'', J_str tn),
     (''field'', J_str (case fnm of Some n \<Rightarrow> n | None \<Rightarrow> [])), (''pc'', J_hex pc)]"

definition emit_type_epoch_close ::
  "u64 \<Rightarrow> u64 \<Rightarrow> string \<Rightarrow> string \<Rightarrow> u64 \<Rightarrow> u64 \<Rightarrow> string \<Rightarrow> jfields" where
  "emit_type_epoch_close sq a tn src op cl reason = [(''seq'', J_num (unat sq)), (''type'', J_raw ''TYPE_EPOCH_CLOSE''),
     (''addr'', J_hex a), (''type_name'', J_str tn), (''source'', J_str src), (''open_seq'', J_num (unat op)),
     (''close_seq'', J_num (unat cl)), (''reason'', J_raw reason)]"

definition emit_summary :: "u64 \<Rightarrow> nat \<Rightarrow> nat \<Rightarrow> nat \<Rightarrow> nat \<Rightarrow> nat \<Rightarrow> jfields" where
  "emit_summary events nodes edges projections live hazards = [(''type'', J_raw ''SUMMARY''),
     (''total_events'', J_num (unat events)), (''nodes'', J_num nodes), (''edges'', J_num edges),
     (''stm_projections'', J_num projections), (''live_allocs'', J_num live), (''hazards'', J_num hazards)]"


subsection \<open>Escaping\<close>

definition esc_char :: "char \<Rightarrow> string" where
  "esc_char c = (if c = bslash then [bslash, bslash] else if c = quote_char then [bslash, quote_char]
     else if c = newline then [bslash, CHR ''n''] else if c = creturn then [bslash, CHR ''r'']
     else if c = tab_char then [bslash, CHR ''t''] else [c])"

lemma esc_eq: "esc s = concat (map esc_char s)"
proof -
  have step: "replace_all [c] r (concat (map f s)) = concat (map (\<lambda>x. replace_all [c] r (f x)) s)" for c r f
    by (induction s) (simp_all add: replace_char)
  have one: "s = concat (map (\<lambda>x. [x]) s)" by (induction s) simp_all
  show ?thesis
    unfolding esc_def
    by (subst one, simp only: step) (rule arg_cong [where f = concat], rule map_cong, simp_all add: replace_char esc_char_def)
qed

lemma esc_no_newline: "newline \<notin> set (esc s) \<and> creturn \<notin> set (esc s) \<and> tab_char \<notin> set (esc s)"
  by (induction s) (auto simp: esc_eq esc_char_def)

text \<open>The reader's inverse: backslash sequences up to the first quote that is not escaped.\<close>

fun read_str :: "string \<Rightarrow> (string \<times> string) option" where
  "read_str [] = None"
| "read_str (c # s) =
     (if c = quote_char then Some ([], s)
      else if c = bslash then
        (case s of [] \<Rightarrow> None
         | d # s' \<Rightarrow> map_option (\<lambda>(r, rest).
             ((if d = CHR ''n'' then newline else if d = CHR ''r'' then creturn else if d = CHR ''t'' then tab_char else d) # r, rest))
             (read_str s'))
      else map_option (\<lambda>(r, rest). (c # r, rest)) (read_str s))"

lemma read_esc: "read_str (esc s @ quote_char # rest) = Some (s, rest)"
  by (induction s) (auto simp: esc_eq esc_char_def)

fun plain_char :: "char \<Rightarrow> bool" where
  "plain_char c \<longleftrightarrow> c \<notin> {bslash, quote_char, newline, creturn, tab_char}"

definition plain :: "string \<Rightarrow> bool" where "plain s \<longleftrightarrow> list_all plain_char s"

lemma esc_plain: "plain s \<Longrightarrow> esc s = s"
  by (induction s) (auto simp: esc_eq esc_char_def plain_def)

end
