(* ===== verification/Topo_Check.thy ===== *)
theory Topo_Check
  imports Topology
begin

text \<open>
  \<^verbatim>\<open>engine/src/check.rs\<close>: the assertion checker.  It reads the JSON lines of a topology stream with a
  minimal parser, builds the graph, and evaluates assertions on it.  The texts of the verdicts are
  not modelled, only the verdicts.  A hash set of addresses is a list without repetitions.
\<close>

record alloc_event =
  ae_seq :: u64
  ae_addr :: u64
  ae_size :: u64
  ae_freed :: bool
  ae_free_seq :: u64

record stamp_event =
  sv_seq :: u64
  sv_addr :: u64
  sv_type_name :: string
  sv_type_size :: u64
  sv_source :: string
  sv_fields :: u64

record link_event =
  lk_seq :: u64
  lk_from_name :: string
  lk_from_addr :: u64
  lk_to_addr :: u64
  lk_pointee_type :: string
  lk_edge :: string

record hazard_event =
  hz_seq :: u64
  hv_kind :: string
  hv_write_addr :: u64
  hv_write_size :: u32
  hv_alloc_base :: u64
  hv_alloc_size :: u64
  hv_overflow :: u64
  hv_type_name :: string
  hv_field_name :: string

record topo_summary =
  sy_total_events :: u64
  sy_nodes :: u64
  sy_edges :: u64
  sy_stm_projections :: u64
  sy_live_allocs :: u64
  sy_hazards :: u64

record topo_graph =
  tg_allocs :: "alloc_event list"
  tg_stamps :: "stamp_event list"
  tg_links :: "link_event list"
  tg_hazards :: "hazard_event list"
  tg_summary :: topo_summary
  tg_addr_type :: "u64 \<rightharpoonup> string"
  tg_type_addrs :: "string \<rightharpoonup> u64 list"
  tg_edges :: "(u64 \<times> string) \<rightharpoonup> u64"
  tg_source_targets :: "string \<rightharpoonup> u64"

definition tg_empty :: topo_graph where
  "tg_empty = \<lparr>tg_allocs = [], tg_stamps = [], tg_links = [], tg_hazards = [],
     tg_summary = \<lparr>sy_total_events = 0, sy_nodes = 0, sy_edges = 0, sy_stm_projections = 0, sy_live_allocs = 0,
       sy_hazards = 0\<rparr>,
     tg_addr_type = Map.empty, tg_type_addrs = Map.empty, tg_edges = Map.empty, tg_source_targets = Map.empty\<rparr>"


subsection \<open>The parser\<close>

definition json_str :: "string \<Rightarrow> string \<Rightarrow> string" where
  "json_str line key =
     (case after_first (quoted key @ '':'' @ [quote_char]) line of
        None \<Rightarrow> []
      | Some rest \<Rightarrow>
          (if quote_char \<in> set rest
           then replace_all [bslash, CHR ''n''] [newline]
                  (replace_all [bslash, quote_char] [quote_char] (takeWhile (\<lambda>c. c \<noteq> quote_char) rest))
           else []))"

definition json_u64 :: "string \<Rightarrow> string \<Rightarrow> u64" where
  "json_u64 line key =
     (case after_first (quoted key @ '':'') line of
        None \<Rightarrow> 0
      | Some rest \<Rightarrow> (case parse_u64 (takeWhile is_dec_digit rest) of None \<Rightarrow> 0 | Some n \<Rightarrow> of_nat n))"

definition json_hex :: "string \<Rightarrow> string \<Rightarrow> u64" where
  "json_hex line key =
     (let s = json_str line key; h = (case strip_prefix ''0x'' s of Some h \<Rightarrow> h | None \<Rightarrow> s)
      in case parse_radix 16 (2 ^ 64) h of None \<Rightarrow> 0 | Some n \<Rightarrow> of_nat n)"


subsection \<open>Building the graph\<close>

definition tg_alloc :: "u64 \<Rightarrow> u64 \<Rightarrow> u64 \<Rightarrow> topo_graph \<Rightarrow> topo_graph" where
  "tg_alloc sq a sz g = g\<lparr>tg_allocs := tg_allocs g @
     [\<lparr>ae_seq = sq, ae_addr = a, ae_size = sz, ae_freed = False, ae_free_seq = 0\<rparr>]\<rparr>"

text \<open>The last allocation at the address that is not freed yet.\<close>

fun free_first :: "u64 \<Rightarrow> u64 \<Rightarrow> alloc_event list \<Rightarrow> alloc_event list" where
  "free_first a fs [] = []"
| "free_first a fs (e # es) =
     (if ae_addr e = a \<and> \<not> ae_freed e then e\<lparr>ae_freed := True, ae_free_seq := fs\<rparr> # es
      else e # free_first a fs es)"

definition tg_free :: "u64 \<Rightarrow> u64 \<Rightarrow> topo_graph \<Rightarrow> topo_graph" where
  "tg_free sq a g = g\<lparr>tg_allocs := rev (free_first a sq (rev (tg_allocs g))),
     tg_addr_type := (tg_addr_type g)(a := None)\<rparr>"

definition tg_stamp :: "u64 \<Rightarrow> u64 \<Rightarrow> string \<Rightarrow> u64 \<Rightarrow> string \<Rightarrow> u64 \<Rightarrow> topo_graph \<Rightarrow> topo_graph" where
  "tg_stamp sq a tn tsz src n g =
     g\<lparr>tg_addr_type := (tg_addr_type g)(a \<mapsto> tn),
       tg_type_addrs := (tg_type_addrs g)(tn \<mapsto>
          List.insert a (case tg_type_addrs g tn of Some as \<Rightarrow> as | None \<Rightarrow> [])),
       tg_source_targets := (tg_source_targets g)(src \<mapsto> a),
       tg_stamps := tg_stamps g @ [\<lparr>sv_seq = sq, sv_addr = a, sv_type_name = tn, sv_type_size = tsz,
          sv_source = src, sv_fields = n\<rparr>]\<rparr>"

definition resolve_base :: "topo_graph \<Rightarrow> u64 \<Rightarrow> u64 option" where
  "resolve_base g a =
     map_option sv_addr (find (\<lambda>s. sv_addr s \<le> a \<and> a < sv_addr s + sv_type_size s) (rev (tg_stamps g)))"

definition tg_link :: "u64 \<Rightarrow> string \<Rightarrow> u64 \<Rightarrow> u64 \<Rightarrow> string \<Rightarrow> string \<Rightarrow> topo_graph \<Rightarrow> topo_graph" where
  "tg_link sq fr fa ta pt ed g =
     (let base = (case resolve_base g fa of Some b \<Rightarrow> b | None \<Rightarrow> fa) in
      g\<lparr>tg_edges := (tg_edges g)((base, ed) \<mapsto> ta),
        tg_links := tg_links g @ [\<lparr>lk_seq = sq, lk_from_name = fr, lk_from_addr = fa, lk_to_addr = ta,
          lk_pointee_type = pt, lk_edge = ed\<rparr>]\<rparr>)"

definition tg_line :: "string \<Rightarrow> topo_graph \<Rightarrow> topo_graph" where
  "tg_line raw g =
     (let line = trim raw; ty = json_str line ''type'' in
      if line = [] then g
      else if ty = ''ALLOC'' then tg_alloc (json_u64 line ''seq'') (json_hex line ''addr'') (json_u64 line ''size'') g
      else if ty = ''FREE'' then tg_free (json_u64 line ''seq'') (json_hex line ''addr'') g
      else if ty = ''STAMP'' then
        tg_stamp (json_u64 line ''seq'') (json_hex line ''addr'') (json_str line ''type_name'')
          (json_u64 line ''type_size'') (json_str line ''source'') (json_u64 line ''fields'') g
      else if ty = ''LINK'' then
        tg_link (json_u64 line ''seq'') (json_str line ''from'') (json_hex line ''from_addr'')
          (json_hex line ''to_addr'') (json_str line ''pointee_type'') (json_str line ''edge'') g
      else if ty = ''HAZARD'' then
        g\<lparr>tg_hazards := tg_hazards g @ [\<lparr>hz_seq = json_u64 line ''seq'', hv_kind = json_str line ''kind'',
          hv_write_addr = json_hex line ''write_addr'', hv_write_size = ucast (json_u64 line ''write_size''),
          hv_alloc_base = json_hex line ''alloc_base'', hv_alloc_size = json_u64 line ''alloc_size'',
          hv_overflow = json_u64 line ''overflow'', hv_type_name = json_str line ''type_name'',
          hv_field_name = json_str line ''field_name''\<rparr>]\<rparr>
      else if ty = ''SUMMARY'' then
        g\<lparr>tg_summary := \<lparr>sy_total_events = json_u64 line ''total_events'', sy_nodes = json_u64 line ''nodes'',
          sy_edges = json_u64 line ''edges'', sy_stm_projections = json_u64 line ''stm_projections'',
          sy_live_allocs = json_u64 line ''live_allocs'', sy_hazards = json_u64 line ''hazards''\<rparr>\<rparr>
      else g)"

definition tg_build :: "string list \<Rightarrow> topo_graph" where
  "tg_build lines = fold tg_line lines tg_empty"


subsection \<open>Queries\<close>

text \<open>The walk along one edge field, until an address repeats or has no successor.\<close>

function chain_walk :: "((u64 \<times> string) \<rightharpoonup> u64) \<Rightarrow> string \<Rightarrow> u64 list \<Rightarrow> u64 \<Rightarrow> nat \<Rightarrow> nat" where
  "chain_walk es f visited cur len =
     (if cur \<in> set visited then len
      else (case es (cur, f) of
              Some n \<Rightarrow> if n \<noteq> 0 then chain_walk es f (cur # visited) n (len + 1) else len + 1
            | None \<Rightarrow> len + 1))"
  by pat_completeness auto
termination
  by (relation "measure (\<lambda>(_, _, visited, _, _). card (UNIV - set visited))")
    (auto intro!: diff_less simp: card_gt_0_iff subset_eq)

declare chain_walk.simps [simp del]

definition chain_length :: "string \<Rightarrow> string \<Rightarrow> topo_graph \<Rightarrow> nat" where
  "chain_length ty f g =
     fold (\<lambda>a m. max m (chain_walk (tg_edges g) f [] a 0))
       (case tg_type_addrs g ty of Some as \<Rightarrow> as | None \<Rightarrow> []) 0"

definition type_stable :: "string \<Rightarrow> string \<Rightarrow> topo_graph \<Rightarrow> bool" where
  "type_stable src ty g = list_all (\<lambda>s. sv_type_name s = ty) (filter (\<lambda>s. sv_source s = src) (tg_stamps g))"

definition live_alloc_count :: "topo_graph \<Rightarrow> nat" where
  "live_alloc_count g = length (filter (\<lambda>a. \<not> ae_freed a) (tg_allocs g))"

datatype assertion =
    NoHazards | LiveAllocsLt nat | MaxChain string string nat | TypeStable string string
  | NoFalseSharing string string | StmProjectionsGt nat | AllocBeforeStamp | NoUseAfterFree
  | MonotonicSeq | StampBeforeLink

definition abs_violations :: "topo_graph \<Rightarrow> stamp_event list" where
  "abs_violations g = filter (\<lambda>s. \<not> list_ex (\<lambda>a. ae_addr a = sv_addr s \<and> ae_seq a \<le> sv_seq s) (tg_allocs g))
     (filter (\<lambda>s. list_ex (\<lambda>a. ae_addr a = sv_addr s) (tg_allocs g)) (tg_stamps g))"

definition freed_map :: "topo_graph \<Rightarrow> (u64 \<rightharpoonup> u64)" where
  "freed_map g = fold (\<lambda>a m. if ae_freed a \<and> 0 < ae_free_seq a then m(ae_addr a \<mapsto> ae_free_seq a) else m)
     (tg_allocs g) Map.empty"

definition after_free :: "topo_graph \<Rightarrow> u64 \<Rightarrow> u64 \<Rightarrow> bool" where
  "after_free g sq a = (case freed_map g a of Some fs \<Rightarrow> fs < sq | None \<Rightarrow> False)"

definition uaf_violations :: "topo_graph \<Rightarrow> nat" where
  "uaf_violations g = length (filter (\<lambda>s. after_free g (sv_seq s) (sv_addr s)) (tg_stamps g))
     + length (filter (\<lambda>l. after_free g (lk_seq l) (lk_to_addr l)) (tg_links g))"

primrec inversions :: "u64 \<Rightarrow> u64 list \<Rightarrow> nat" where
  "inversions prev [] = 0"
| "inversions prev (s # ss) = (if s < prev then 1 else 0) + inversions s ss"

definition alloc_site :: "stamp_event \<Rightarrow> bool" where
  "alloc_site s = prefix ''alloc@'' (sv_source s)"

definition monotonic_violations :: "topo_graph \<Rightarrow> nat" where
  "monotonic_violations g = inversions 0 (map ae_seq (tg_allocs g))
     + inversions 0 (map sv_seq (filter (\<lambda>s. \<not> alloc_site s) (tg_stamps g)))
     + inversions 0 (map lk_seq (tg_links g))"

definition first_stamps :: "topo_graph \<Rightarrow> (u64 \<rightharpoonup> u64)" where
  "first_stamps g = fold (\<lambda>s m. if m (sv_addr s) = None then m(sv_addr s \<mapsto> sv_seq s) else m)
     (filter (\<lambda>s. \<not> alloc_site s) (tg_stamps g)) Map.empty"

definition early_links :: "topo_graph \<Rightarrow> link_event list" where
  "early_links g = filter (\<lambda>l. lk_to_addr l \<noteq> 0 \<and>
     (case first_stamps g (lk_to_addr l) of Some s \<Rightarrow> lk_seq l < s | None \<Rightarrow> False)) (tg_links g)"

definition addr_named :: "string \<Rightarrow> topo_graph \<Rightarrow> u64 option" where
  "addr_named n g =
     (case tg_source_targets g n of Some a \<Rightarrow> Some a
      | None \<Rightarrow> map_option sv_addr (find (\<lambda>s. sv_source s = n \<or> sv_type_name s = n) (tg_stamps g)))"

fun eval_one :: "topo_graph \<Rightarrow> assertion \<Rightarrow> bool" where
  "eval_one g NoHazards = (length (tg_hazards g) = 0)"
| "eval_one g (LiveAllocsLt n) = (live_alloc_count g < n)"
| "eval_one g (StmProjectionsGt n) = (n < unat (sy_stm_projections (tg_summary g)))"
| "eval_one g (MaxChain ty f n) = (chain_length ty f g < n)"
| "eval_one g (TypeStable src ty) = type_stable src ty g"
| "eval_one g AllocBeforeStamp = (abs_violations g = [])"
| "eval_one g NoUseAfterFree = (uaf_violations g = 0)"
| "eval_one g MonotonicSeq = (monotonic_violations g = 0)"
| "eval_one g StampBeforeLink = (early_links g = [])"
| "eval_one g (NoFalseSharing a b) =
     (case (addr_named a g, addr_named b g) of
        (Some x, Some y) \<Rightarrow> drop_bit 6 x \<noteq> drop_bit 6 y
      | _ \<Rightarrow> True)"

definition evaluate :: "topo_graph \<Rightarrow> assertion list \<Rightarrow> nat \<times> nat" where
  "evaluate g as = (length (filter (eval_one g) as), length (filter (\<lambda>a. \<not> eval_one g a) as))"


subsection \<open>The assertion language\<close>

definition parse_usize :: "string \<Rightarrow> nat option" where "parse_usize s = parse_u64 s"

definition extract_plain_quoted :: "string \<Rightarrow> string option" where
  "extract_plain_quoted s =
     (case split_once quote_char s of None \<Rightarrow> None
      | Some (_, rest) \<Rightarrow> map_option fst (split_once quote_char rest))"

definition extract_quoted_after :: "string \<Rightarrow> string \<Rightarrow> string option" where
  "extract_quoted_after s p = (case strip_prefix p s of None \<Rightarrow> None | Some rest \<Rightarrow> extract_plain_quoted rest)"

text \<open>The part before the parenthesis that closes the one already open, and the part after it.\<close>

fun close_paren :: "nat \<Rightarrow> string \<Rightarrow> (string \<times> string) option" where
  "close_paren d [] = None"
| "close_paren d (c # s) =
     (if c = CHR ''('' then map_option (\<lambda>(a, b). (c # a, b)) (close_paren (d + 1) s)
      else if c = CHR '')'' then (if d = 1 then Some ([], s) else map_option (\<lambda>(a, b). (c # a, b)) (close_paren (d - 1) s))
      else map_option (\<lambda>(a, b). (c # a, b)) (close_paren d s))"

definition parse_limit :: "string \<Rightarrow> string \<Rightarrow> nat option" where
  "parse_limit op s = Option.bind (strip_prefix op (trim s)) (\<lambda>r. parse_usize (trim r))"

definition second_arg :: "string \<Rightarrow> string option" where
  "second_arg s = Option.bind (split_once (CHR '','') s) (\<lambda>(_, r). extract_plain_quoted (trim r))"

definition parse_one :: "string \<Rightarrow> assertion option" where
  "parse_one s =
     (if s = ''no_hazards'' then Some NoHazards
      else if prefix ''live_allocs'' s then
        map_option LiveAllocsLt (parse_limit ''<'' (drop (length ''live_allocs'') s))
      else if prefix ''stm_projections'' s then
        map_option StmProjectionsGt (parse_limit ''>'' (drop (length ''stm_projections'') s))
      else if prefix ''max_chain('' s then
        Option.bind (close_paren 1 (drop (length ''max_chain('') s)) (\<lambda>(args, rest).
        Option.bind (parse_limit ''<'' rest) (\<lambda>n.
        Option.bind (extract_quoted_after args ''type('') (\<lambda>ty.
        map_option (\<lambda>f. MaxChain ty f n) (second_arg args))))
      else if prefix ''type_stable('' s then
        Option.bind (strip_suffix '')'' (drop (length ''type_stable('') s)) (\<lambda>inner.
        Option.bind (extract_quoted_after inner ''global('') (\<lambda>src.
        map_option (TypeStable src) (second_arg inner)))
      else if s = ''alloc_before_stamp'' then Some AllocBeforeStamp
      else if s = ''no_use_after_free'' then Some NoUseAfterFree
      else if s = ''monotonic_seq'' then Some MonotonicSeq
      else if s = ''stamp_before_link'' then Some StampBeforeLink
      else if prefix ''no_false_sharing('' s then
        Option.bind (strip_suffix '')'' (drop (length ''no_false_sharing('') s)) (\<lambda>inner.
          (case split_char (CHR '','') inner of
             [p, q] \<Rightarrow> Option.bind (extract_plain_quoted (trim p)) (\<lambda>a.
                         map_option (NoFalseSharing a) (extract_plain_quoted (trim q)))
           | _ \<Rightarrow> None))
      else None)"

text \<open>The lines of an assertion file that are assertions, with their numbers; others only warn.\<close>

definition parse_assertions :: "string list \<Rightarrow> (nat \<times> assertion) list" where
  "parse_assertions lines = List.map_filter (\<lambda>(i, raw).
     (let line = trim raw in
      if line = [] \<or> prefix ''#'' line \<or> \<not> prefix ''assert '' line then None
      else map_option (\<lambda>a. (i + 1, a)) (parse_one (trim (drop 7 line)))))
     (enumerate 0 lines)"


subsection \<open>The checker reads what the stream wrote\<close>

definition key_ok :: "string \<Rightarrow> bool" where
  "key_ok k \<longleftrightarrow> (case k of [] \<Rightarrow> False | c # _ \<Rightarrow> c \<notin> {CHR '':'', CHR '','', CHR ''}''}) \<and> quote_char \<notin> set k \<and>
     bslash \<notin> set k"

fun val_ok :: "jval \<Rightarrow> bool" where
  "val_ok (J_num n) \<longleftrightarrow> n < 2 ^ 64"
| "val_ok (J_str s) \<longleftrightarrow> True"
| "val_ok (J_raw s) \<longleftrightarrow> plain s"
| "val_ok (J_hex a) \<longleftrightarrow> True"
| "val_ok (J_names ns) \<longleftrightarrow> False"

definition fields_ok :: "jfields \<Rightarrow> bool" where
  "fields_ok fs \<longleftrightarrow> list_all (\<lambda>(k, v). key_ok k \<and> val_ok v) fs"

text \<open>The text of an admissible value, without the quotes of a string.\<close>

fun val_body :: "jval \<Rightarrow> string" where
  "val_body (J_num n) = dec n"
| "val_body (J_str s) = esc s"
| "val_body (J_raw s) = s"
| "val_body (J_hex a) = ''0x'' @ hex (unat a)"
| "val_body (J_names ns) = []"

fun is_string :: "jval \<Rightarrow> bool" where
  "is_string (J_num n) = False"
| "is_string v = True"

lemma plain_no_quote: "plain s \<Longrightarrow> quote_char \<notin> set s \<and> bslash \<notin> set s"
  by (induction s) (auto simp: plain_def)

lemma dec_no_quote: "quote_char \<notin> set (dec n)"
  unfolding dec_def by (intro in_base_chars) auto

lemma hex_plain: "plain (hex n)"
proof -
  have "c \<notin> set (hex n)" if "c \<in> {bslash, quote_char, newline, creturn, tab_char}" for c
    using that unfolding hex_def by (intro in_base_chars) auto
  then show ?thesis unfolding plain_def list_all_iff by auto
qed

lemma val_text:
  "val_ok v \<Longrightarrow> jval_text v = (if is_string v then quoted (val_body v) else val_body v)"
  by (cases v) simp_all

lemma val_body_esc: "val_ok v \<Longrightarrow> is_string v \<Longrightarrow> \<exists>s. val_body v = esc s"
proof (cases v)
  case (J_hex a)
  have "plain (''0x'' @ hex (unat a))" using hex_plain [of "unat a"] by (simp add: plain_def)
  from esc_plain [OF this] show ?thesis by (metis J_hex val_body.simps(4))
qed (auto simp: esc_plain intro: exI [where x = "case v of J_raw s \<Rightarrow> s | _ \<Rightarrow> []"])

definition sep_start :: "string \<Rightarrow> bool" where
  "sep_start r \<longleftrightarrow> (case r of [] \<Rightarrow> False | c # _ \<Rightarrow> c = CHR '','' \<or> c = CHR ''}'')"

text \<open>
  Every quote inside an escaped string has a backslash before it, so the pattern of a key does not
  begin inside one: whatever a name contains, the search for a key passes over it.
\<close>

lemma esc_Cons: "esc (c # s) = esc_char c @ esc s"
  by (simp add: esc_eq)

lemma esc_Nil: "esc [] = []"
  by (simp add: esc_eq)

lemma no_key_inside:
  assumes "quote_char \<notin> set key" "bslash \<notin> set key" "sep_start rest"
  shows "\<not> prefix (key @ quote_char # CHR '':'' # t) (esc s @ quote_char # rest)"
  using assms(1,2)
proof (induction s arbitrary: key)
  case Nil
  then show ?case using assms(3) by (cases key) (auto simp: esc_Nil sep_start_def split: list.splits)
next
  case (Cons c s)
  show ?case
  proof (cases key)
    case Nil
    then show ?thesis by (auto simp: esc_Cons esc_char_def)
  next
    case (Cons x key')
    then show ?thesis using Cons.IH [of key'] Cons.prems by (auto simp: esc_Cons esc_char_def)
  qed
qed

lemma pass_escaped:
  assumes "quote_char \<notin> set key" "bslash \<notin> set key" "sep_start rest"
  shows "after_first (quote_char # key @ quote_char # CHR '':'' # t) (esc s @ quote_char # rest) =
    after_first (quote_char # key @ quote_char # CHR '':'' # t) (quote_char # rest)"
proof (induction s)
  case (Cons c s)
  have "\<not> prefix (key @ quote_char # CHR '':'' # t) (esc s @ quote_char # rest)"
    by (rule no_key_inside [OF assms])
  then show ?case using Cons.IH by (auto simp: esc_Cons esc_char_def)
qed (simp add: esc_Nil)

text \<open>A field whose key is not the one sought is passed over.\<close>

lemma seek_pass:
  assumes "key_ok key" "key_ok k" "key \<noteq> k" "val_ok v" "sep_start rest"
  shows "after_first (quote_char # key @ quote_char # CHR '':'' # t) (field_text (k, v) @ rest) =
    after_first (quote_char # key @ quote_char # CHR '':'' # t) rest"
proof -
  let ?q = quote_char
  let ?n = "?q # key @ ?q # CHR '':'' # t"
  from assms(1) obtain c key' where key: "key = c # key'" "c \<notin> {CHR '':'', CHR '','', CHR ''}''}"
      "?q \<notin> set key" "bslash \<notin> set key"
    by (auto simp: key_ok_def split: list.splits)
  have k: "?q \<notin> set k" using assms(2) by (simp add: key_ok_def)
  from assms(5) obtain d r where rest: "rest = d # r" "d = CHR '','' \<or> d = CHR ''}''"
    by (auto simp: sep_start_def split: list.splits)
  have p1: "\<not> prefix ?n (?q # k @ ?q # u)" for u
    using prefix_first_char [of ?q key k "CHR '':'' # t" u] key(3) k assms(3) by simp
  have p2: "\<not> prefix ?n (?q # CHR '':'' # u)" for u
    using key by auto
  have p4: "\<not> prefix ?n (?q # rest)" using key rest by auto
  have first: "after_first ?n (?q # k @ ?q # CHR '':'' # u) = after_first ?n u" for u
  proof -
    have "after_first ?n (?q # k @ ?q # CHR '':'' # u) = after_first ?n (k @ ?q # CHR '':'' # u)"
      using p1 [of "CHR '':'' # u"] by simp
    also have "\<dots> = after_first ?n (?q # CHR '':'' # u)" by (rule after_first_skip [OF k])
    also have "\<dots> = after_first ?n (CHR '':'' # u)" using p2 [of u] by simp
    also have "\<dots> = after_first ?n u" by simp
    finally show ?thesis .
  qed
  show ?thesis
  proof (cases "is_string v")
    case True
    from val_body_esc [OF assms(4) True] obtain s where s: "val_body v = esc s" by blast
    have "after_first ?n (?q # esc s @ ?q # rest) = after_first ?n (esc s @ ?q # rest)"
      using no_key_inside [OF key(3,4) assms(5), of t s] by simp
    also have "\<dots> = after_first ?n (?q # rest)" by (rule pass_escaped [OF key(3,4) assms(5)])
    also have "\<dots> = after_first ?n rest" using p4 by simp
    finally show ?thesis using True first [of "?q # val_body v @ ?q # rest"]
      by (simp add: field_text_def quoted_def val_text [OF assms(4)] s)
  next
    case False
    then have "?q \<notin> set (val_body v)" using dec_no_quote by (cases v) auto
    with False show ?thesis using first [of "val_body v @ rest"] after_first_skip
      by (simp add: field_text_def quoted_def val_text [OF assms(4)])
  qed
qed

definition line_tail :: "jfields \<Rightarrow> string" where
  "line_tail fs = join '','' (map field_text fs) @ ''}''"

text \<open>Only the fields before the one sought matter.\<close>

lemma seek_key:
  assumes "fields_ok (takeWhile (\<lambda>f. fst f \<noteq> key) fs)" "key_ok key" "map_of fs key = Some v" "prefix t (jval_text v)"
  shows "\<exists>rest. sep_start rest \<and>
    after_first (quoted key @ '':'' @ t) (line_tail fs) = Some (drop (length t) (jval_text v) @ rest)"
  using assms(1,3)
proof (induction fs)
  case (Cons f fs)
  obtain k w where f: "f = (k, w)" by (cases f)
  define rest where "rest = (if fs = [] then ''}'' else CHR '','' # line_tail fs)"
  have tail: "line_tail (f # fs) = field_text f @ rest"
    by (simp add: line_tail_def rest_def)
  have sep: "sep_start rest" by (simp add: rest_def sep_start_def)
  let ?n = "quote_char # key @ quote_char # CHR '':'' # t"
  have n: "quoted key @ '':'' @ t = ?n" by (simp add: quoted_def)
  show ?case
  proof (cases "k = key")
    case True
    with Cons.prems(2) have w: "w = v" by (simp add: f)
    have "line_tail (f # fs) = (quote_char # key @ quote_char # CHR '':'' # []) @ jval_text v @ rest"
      unfolding tail by (simp add: field_text_def quoted_def f True w)
    moreover obtain z where z: "jval_text v = t @ z" using assms(4) by (auto simp: prefix_def)
    ultimately have line: "line_tail (f # fs) = ?n @ z @ rest" by simp
    have "after_first ?n (?n @ z @ rest) = Some (z @ rest)" by simp
    then show ?thesis using sep unfolding n line by (intro exI [where x = rest]) (simp add: z)
  next
    case False
    from Cons.prems(1) False have ok: "key_ok k" "val_ok w" "fields_ok (takeWhile (\<lambda>f. fst f \<noteq> key) fs)"
      by (simp_all add: fields_ok_def f)
    from Cons.prems(2) False have m: "map_of fs key = Some v" by (simp add: f)
    then have ne: "fs \<noteq> []" by auto
    from Cons.IH [OF ok(3) m] obtain r where r: "sep_start r"
        "after_first ?n (line_tail fs) = Some (drop (length t) (jval_text v) @ r)" by (auto simp: quoted_def)
    have "after_first ?n (line_tail (f # fs)) = after_first ?n rest"
      unfolding tail unfolding f using seek_pass [OF assms(2) ok(1) _ ok(2) sep, of t] False by simp
    also have "\<dots> = after_first ?n (line_tail fs)" using ne by (simp add: rest_def)
    finally show ?thesis using r by (auto simp: quoted_def)
  qed
qed simp

lemma fields_ok_before: "fields_ok fs \<Longrightarrow> fields_ok (takeWhile P fs)"
  by (auto simp: fields_ok_def list_all_iff dest: set_takeWhileD)

lemma line_brace: "after_first (quoted key @ n) (json_line fs) = after_first (quoted key @ n) (line_tail fs)"
  by (simp add: json_line_def line_tail_def quoted_def)

text \<open>
  What the reader makes of an escaped text: it stops at the first quote, an escaped one too, and
  turns backslash-n into a line break.
\<close>

definition decoded :: "string \<Rightarrow> string" where
  "decoded w = replace_all [bslash, CHR ''n''] [newline]
     (replace_all [bslash, quote_char] [quote_char] (takeWhile (\<lambda>c. c \<noteq> quote_char) w))"

definition as_read :: "string \<Rightarrow> string" where
  "as_read s = decoded (esc s)"

lemma decoded_plain: "plain s \<Longrightarrow> decoded s = s"
proof -
  assume p: "plain s"
  then have tw: "takeWhile (\<lambda>c. c \<noteq> quote_char) s = s"
    using plain_no_quote [OF p] by (auto simp: takeWhile_eq_all_conv)
  show ?thesis unfolding decoded_def tw using plain_no_quote [OF p] by (simp add: replace_all_absent)
qed

lemma as_read_plain: "plain s \<Longrightarrow> as_read s = s"
  by (simp add: as_read_def esc_plain decoded_plain)

lemma json_str_before:
  assumes "fields_ok (takeWhile (\<lambda>f. fst f \<noteq> key) fs)" "key_ok key" "map_of fs key = Some v" "is_string v" "val_ok v"
  shows "json_str (json_line fs) key = decoded (val_body v)"
proof -
  have vt: "jval_text v = quote_char # val_body v @ [quote_char]"
    using val_text [OF assms(5)] assms(4) by (simp add: quoted_def)
  then have "prefix [quote_char] (jval_text v)" by simp
  from seek_key [OF assms(1-3) this] obtain rest where
    a: "after_first (quoted key @ '':'' @ [quote_char]) (json_line fs) = Some (val_body v @ quote_char # rest)"
    by (auto simp: line_brace vt)
  have "takeWhile (\<lambda>c. c \<noteq> quote_char) (w @ quote_char # rest) = takeWhile (\<lambda>c. c \<noteq> quote_char) w" for w
    by (induction w) simp_all
  with a show ?thesis by (simp add: json_str_def decoded_def)
qed

lemma json_str_line:
  assumes "fields_ok fs" "key_ok key" "map_of fs key = Some v" "is_string v"
  shows "json_str (json_line fs) key = decoded (val_body v)"
proof -
  have "val_ok v" using assms(1) map_of_SomeD [OF assms(3)] by (auto simp: fields_ok_def list_all_iff)
  then show ?thesis using json_str_before [OF fields_ok_before [OF assms(1)] assms(2-4)] by simp
qed

lemma json_u64_line:
  assumes "fields_ok fs" "key_ok key" "map_of fs key = Some (J_num n)"
  shows "json_u64 (json_line fs) key = of_nat n"
proof -
  have ok: "n < 2 ^ 64" using assms(1) map_of_SomeD [OF assms(3)] by (auto simp: fields_ok_def list_all_iff)
  from seek_key [OF fields_ok_before [OF assms(1)] assms(2,3), of "[]"] obtain rest where r: "sep_start rest"
    "after_first (quoted key @ '':'') (json_line fs) = Some (dec n @ rest)"
    by (auto simp: line_brace)
  have "takeWhile is_dec_digit (dec n @ rest) = dec n"
  proof -
    have "takeWhile is_dec_digit rest = []"
      using r(1) by (auto simp: sep_start_def is_dec_digit_def split: list.splits)
    moreover have "\<forall>c \<in> set (dec n). is_dec_digit c" using dec_digits by blast
    ultimately show ?thesis by (simp add: takeWhile_append2)
  qed
  moreover have "parse_u64 (dec n) = Some n"
    using parse_in_base [of 10 n "2 ^ 64"] ok by (simp add: parse_u64_def dec_def)
  ultimately show ?thesis using r(2) by (simp add: json_u64_def)
qed

lemma json_hex_line:
  assumes "fields_ok fs" "key_ok key" "map_of fs key = Some (J_hex a)"
  shows "json_hex (json_line fs) key = a"
proof -
  have "json_str (json_line fs) key = ''0x'' @ hex (unat a)"
    using json_str_line [OF assms] decoded_plain [of "''0x'' @ hex (unat a)"] hex_plain [of "unat a"]
    by (simp add: plain_def)
  moreover have "parse_radix 16 (2 ^ 64) (hex (unat a)) = Some (unat a)"
    using parse_in_base [of 16 "unat a" "2 ^ 64"] unat_lt [of a] by (simp add: hex_def)
  ultimately show ?thesis by (simp add: json_hex_def strip_prefix_def Let_def)
qed

lemma json_line_trim: "trim (json_line fs) = json_line fs"
  by (rule trim_id [of _ "CHR ''{''" "tl (json_line fs)" "butlast (json_line fs)" "CHR ''}''"])
    (simp_all add: json_line_def is_space_def butlast_append)


text \<open>The events of a stream, one constructor for each kind of line, and what each does to the graph.\<close>

datatype topo_event =
    T_Alloc u64 u16 u64 u64 | T_Free u64 u16 u64 u64 | T_Stamp u64 u64 string u64 string nat
  | T_Link u64 string u64 u64 string string
  | T_Hazard u64 string u64 u32 u64 u64 u64 "string option" "string option"
  | T_Fork u64 u32 u32 | T_Gap u64 u16 u32 u32 | T_Epoch u64 u64 string string u64 u64 string
  | T_Cold_Stamp u64 string u64 string nat u32 | T_Cold_Link string u64 u64 string string
  | T_False_Share u64 u64 u32 "string list" | T_Cross_Write u64 u16 u64 u32 string
  | T_Schism u64 u64 string string string string
  | T_Violation u64 string u64 u32 u64 u64 string "string option" u64
  | T_Summary u64 nat nat nat nat nat

fun event_fields :: "topo_event \<Rightarrow> jfields" where
  "event_fields (T_Alloc sq tid a sz) = emit_alloc sq tid a sz"
| "event_fields (T_Free sq tid a sz) = emit_free sq tid a sz"
| "event_fields (T_Stamp sq a tn tsz src n) = emit_stamp sq a tn tsz src n"
| "event_fields (T_Link sq fr fa ta pt ed) = emit_link sq fr fa ta pt ed"
| "event_fields (T_Hazard sq kd wa wsz base asz over tn fnm) = emit_hazard sq kd wa wsz base asz over tn fnm"
| "event_fields (T_Fork sq c p) = emit_process_fork sq c p"
| "event_fields (T_Gap sq tid e a) = emit_seq_gap sq tid e a"
| "event_fields (T_Epoch sq a tn src op cl reason) = emit_type_epoch_close sq a tn src op cl reason"
| "event_fields (T_Cold_Stamp a tn tsz src n depth) = emit_cold_stamp a tn tsz src n depth"
| "event_fields (T_Cold_Link fr fa ta pt ed) = emit_cold_link fr fa ta pt ed"
| "event_fields (T_False_Share sq cl n names) = emit_false_share sq cl n names"
| "event_fields (T_Cross_Write sq tid a sz region) = emit_cross_process_write sq tid a sz region"
| "event_fields (T_Schism sq a ot nt os ns) = emit_type_schism sq a ot nt os ns"
| "event_fields (T_Violation sq kd wa wsz base off tn fnm pc) = emit_type_violation sq kd wa wsz base off tn fnm pc"
| "event_fields (T_Summary events nodes edges projections live hazards) =
     emit_summary events nodes edges projections live hazards"

definition opt_text :: "string option \<Rightarrow> string" where
  "opt_text n = (case n of Some s \<Rightarrow> s | None \<Rightarrow> [])"

fun tg_event :: "topo_event \<Rightarrow> topo_graph \<Rightarrow> topo_graph" where
  "tg_event (T_Alloc sq tid a sz) g = tg_alloc sq a sz g"
| "tg_event (T_Free sq tid a sz) g = tg_free sq a g"
| "tg_event (T_Stamp sq a tn tsz src n) g = tg_stamp sq a tn tsz src (of_nat n) g"
| "tg_event (T_Link sq fr fa ta pt ed) g = tg_link sq fr fa ta pt ed g"
| "tg_event (T_Hazard sq kd wa wsz base asz over tn fnm) g =
     g\<lparr>tg_hazards := tg_hazards g @ [\<lparr>hz_seq = sq, hv_kind = kd, hv_write_addr = wa, hv_write_size = wsz,
        hv_alloc_base = base, hv_alloc_size = asz, hv_overflow = over, hv_type_name = opt_text tn,
        hv_field_name = opt_text fnm\<rparr>]\<rparr>"
| "tg_event (T_Summary events nodes edges projections live hazards) g =
     g\<lparr>tg_summary := \<lparr>sy_total_events = events, sy_nodes = of_nat nodes, sy_edges = of_nat edges,
       sy_stm_projections = of_nat projections, sy_live_allocs = of_nat live, sy_hazards = of_nat hazards\<rparr>\<rparr>"
| "tg_event _ g = g"

text \<open>
  Counts are of the width the code has, and the kind of a hazard, which is written without
  escapes, is a plain word; names are arbitrary.
\<close>

fun writable_event :: "topo_event \<Rightarrow> bool" where
  "writable_event (T_Stamp sq a tn tsz src n) \<longleftrightarrow> n < 2 ^ 64"
| "writable_event (T_Hazard sq kd wa wsz base asz over tn fnm) \<longleftrightarrow> plain kd"
| "writable_event (T_Summary events nodes edges projections live hazards) \<longleftrightarrow>
     nodes < 2 ^ 64 \<and> edges < 2 ^ 64 \<and> projections < 2 ^ 64 \<and> live < 2 ^ 64 \<and> hazards < 2 ^ 64"
| "writable_event _ \<longleftrightarrow> True"

text \<open>An event with its names as the reader takes them; plain names are taken as they are.\<close>

fun as_read_event :: "topo_event \<Rightarrow> topo_event" where
  "as_read_event (T_Stamp sq a tn tsz src n) = T_Stamp sq a (as_read tn) tsz (as_read src) n"
| "as_read_event (T_Link sq fr fa ta pt ed) = T_Link sq (as_read fr) fa ta (as_read pt) (as_read ed)"
| "as_read_event (T_Hazard sq kd wa wsz base asz over tn fnm) =
     T_Hazard sq kd wa wsz base asz over (map_option as_read tn) (map_option as_read fnm)"
| "as_read_event e = e"

fun plain_event :: "topo_event \<Rightarrow> bool" where
  "plain_event (T_Stamp sq a tn tsz src n) \<longleftrightarrow> plain tn \<and> plain src"
| "plain_event (T_Link sq fr fa ta pt ed) \<longleftrightarrow> plain fr \<and> plain pt \<and> plain ed"
| "plain_event (T_Hazard sq kd wa wsz base asz over tn fnm) \<longleftrightarrow> plain (opt_text tn) \<and> plain (opt_text fnm)"
| "plain_event _ \<longleftrightarrow> True"

lemma plain_as_read: "plain_event e \<Longrightarrow> as_read_event e = e"
  by (cases e) (auto simp: as_read_plain opt_text_def split: option.splits)

lemma num_ok: "unat (w :: u64) < 18446744073709551616" "unat (w16 :: u16) < 18446744073709551616"
  "unat (w32 :: u32) < 18446744073709551616"
  using unat_lt [of w] unat_lt [of w16] unat_lt [of w32] by simp_all

lemma plain_Nil [simp]: "plain []" by (simp add: plain_def)

lemmas emit_defs = emit_alloc_def emit_free_def emit_stamp_def emit_link_def emit_hazard_def
  emit_process_fork_def emit_seq_gap_def emit_type_epoch_close_def emit_cold_stamp_def emit_cold_link_def
  emit_false_share_def emit_cross_process_write_def emit_type_schism_def emit_type_violation_def emit_summary_def

text \<open>The kind of a line comes before its names, the fields of the lines that are used are admissible.\<close>

fun event_type :: "topo_event \<Rightarrow> string" where
  "event_type (T_Alloc _ _ _ _) = ''ALLOC''"
| "event_type (T_Free _ _ _ _) = ''FREE''"
| "event_type (T_Stamp _ _ _ _ _ _) = ''STAMP''"
| "event_type (T_Link _ _ _ _ _ _) = ''LINK''"
| "event_type (T_Hazard _ _ _ _ _ _ _ _ _) = ''HAZARD''"
| "event_type (T_Fork _ _ _) = ''PROCESS_FORK''"
| "event_type (T_Gap _ _ _ _) = ''SEQ_GAP''"
| "event_type (T_Epoch _ _ _ _ _ _ _) = ''TYPE_EPOCH_CLOSE''"
| "event_type (T_Cold_Stamp _ _ _ _ _ _) = ''COLD_STAMP''"
| "event_type (T_Cold_Link _ _ _ _ _) = ''COLD_LINK''"
| "event_type (T_False_Share _ _ _ _) = ''FALSE_SHARE''"
| "event_type (T_Cross_Write _ _ _ _ _) = ''CROSS_PROCESS_WRITE''"
| "event_type (T_Schism _ _ _ _ _ _) = ''TYPE_SCHISM''"
| "event_type (T_Violation _ _ _ _ _ _ _ _ _) = ''TYPE_VIOLATION''"
| "event_type (T_Summary _ _ _ _ _ _) = ''SUMMARY''"

lemma event_type_field: "map_of (event_fields e) ''type'' = Some (J_raw (event_type e))"
  by (cases e) (simp_all add: emit_defs)

lemma event_type_plain: "plain (event_type e)"
  by (cases e) (simp_all add: plain_def)

lemma event_type_first: "fields_ok (takeWhile (\<lambda>f. fst f \<noteq> ''type'') (event_fields e))"
  by (cases e) (simp_all add: emit_defs fields_ok_def key_ok_def num_ok)

lemma event_type_read: "json_str (json_line (event_fields e)) ''type'' = event_type e"
  using json_str_before [OF event_type_first _ event_type_field] event_type_plain [of e]
  by (simp add: key_ok_def decoded_plain)

fun looked_at :: "topo_event \<Rightarrow> bool" where
  "looked_at e \<longleftrightarrow> event_type e \<in> set [''ALLOC'', ''FREE'', ''STAMP'', ''LINK'', ''HAZARD'', ''SUMMARY'']"

lemma event_fields_ok: "writable_event e \<Longrightarrow> looked_at e \<Longrightarrow> fields_ok (event_fields e)"
  by (cases e) (auto simp: fields_ok_def emit_defs key_ok_def num_ok plain_def)

lemma json_line_nonempty: "json_line fs \<noteq> []" by (simp add: json_line_def)

lemma tg_line_other:
  assumes "\<not> looked_at e"
  shows "tg_line (json_line (event_fields e)) g = g"
  unfolding tg_line_def json_line_trim Let_def event_type_read using assms by (simp add: json_line_nonempty)

lemma opt_text_as_read: "opt_text (map_option as_read n) = as_read (opt_text n)"
  by (cases n) (simp_all add: opt_text_def as_read_plain)

lemma tg_line_event:
  assumes "writable_event e"
  shows "tg_line (json_line (event_fields e)) g = tg_event (as_read_event e) g"
proof (cases "looked_at e")
  case False
  then have "tg_event (as_read_event e) g = g" by (cases e) simp_all
  with tg_line_other [OF False] show ?thesis by simp
next
  case True
  note ok = event_fields_ok [OF assms True]
  note str = json_str_line [OF ok] and num = json_u64_line [OF ok] and hx = json_hex_line [OF ok]
  note ty = event_type_read [of e]
  show ?thesis
  proof (cases e)
    case (T_Alloc sq tid a sz)
    have "json_u64 (json_line (event_fields e)) ''seq'' = sq" "json_u64 (json_line (event_fields e)) ''size'' = sz"
        "json_hex (json_line (event_fields e)) ''addr'' = a"
      using num [of "''seq''" "unat sq"] num [of "''size''" "unat sz"] hx [of "''addr''" a]
      by (simp_all add: T_Alloc emit_defs key_ok_def)
    with ty show ?thesis
      unfolding tg_line_def json_line_trim Let_def by (simp add: json_line_nonempty T_Alloc)
  next
    case (T_Free sq tid a sz)
    have "json_u64 (json_line (event_fields e)) ''seq'' = sq" "json_hex (json_line (event_fields e)) ''addr'' = a"
      using num [of "''seq''" "unat sq"] hx [of "''addr''" a] by (simp_all add: T_Free emit_defs key_ok_def)
    with ty show ?thesis
      unfolding tg_line_def json_line_trim Let_def by (simp add: json_line_nonempty T_Free)
  next
    case (T_Stamp sq a tn tsz src n)
    have "json_u64 (json_line (event_fields e)) ''seq'' = sq" "json_hex (json_line (event_fields e)) ''addr'' = a"
        "json_u64 (json_line (event_fields e)) ''type_size'' = tsz" "json_u64 (json_line (event_fields e)) ''fields'' = of_nat n"
        "json_str (json_line (event_fields e)) ''type_name'' = as_read tn"
        "json_str (json_line (event_fields e)) ''source'' = as_read src"
      using num [of "''seq''" "unat sq"] hx [of "''addr''" a] num [of "''type_size''" "unat tsz"] num [of "''fields''" n]
        str [of "''type_name''" "J_str tn"] str [of "''source''" "J_str src"]
      by (simp_all add: T_Stamp emit_defs key_ok_def as_read_def)
    with ty show ?thesis
      unfolding tg_line_def json_line_trim Let_def by (simp add: json_line_nonempty T_Stamp)
  next
    case (T_Link sq fr fa ta pt ed)
    have "json_u64 (json_line (event_fields e)) ''seq'' = sq" "json_hex (json_line (event_fields e)) ''from_addr'' = fa"
        "json_hex (json_line (event_fields e)) ''to_addr'' = ta" "json_str (json_line (event_fields e)) ''from'' = as_read fr"
        "json_str (json_line (event_fields e)) ''pointee_type'' = as_read pt"
        "json_str (json_line (event_fields e)) ''edge'' = as_read ed"
      using num [of "''seq''" "unat sq"] hx [of "''from_addr''" fa] hx [of "''to_addr''" ta]
        str [of "''from''" "J_str fr"] str [of "''pointee_type''" "J_str pt"] str [of "''edge''" "J_str ed"]
      by (simp_all add: T_Link emit_defs key_ok_def as_read_def)
    with ty show ?thesis
      unfolding tg_line_def json_line_trim Let_def by (simp add: json_line_nonempty T_Link)
  next
    case (T_Hazard sq kd wa wsz base asz over tn fnm)
    have "json_u64 (json_line (event_fields e)) ''seq'' = sq" "json_hex (json_line (event_fields e)) ''write_addr'' = wa"
        "json_u64 (json_line (event_fields e)) ''write_size'' = of_nat (unat wsz)"
        "json_hex (json_line (event_fields e)) ''alloc_base'' = base" "json_u64 (json_line (event_fields e)) ''alloc_size'' = asz"
        "json_u64 (json_line (event_fields e)) ''overflow'' = over" "json_str (json_line (event_fields e)) ''kind'' = kd"
      using num [of "''seq''" "unat sq"] hx [of "''write_addr''" wa] num [of "''write_size''" "unat wsz"]
        hx [of "''alloc_base''" base] num [of "''alloc_size''" "unat asz"] num [of "''overflow''" "unat over"]
        str [of "''kind''" "J_raw kd"] assms
      by (simp_all add: T_Hazard emit_defs key_ok_def decoded_plain)
    moreover have "json_str (json_line (event_fields e)) ''type_name'' = as_read (opt_text tn)"
        "json_str (json_line (event_fields e)) ''field_name'' = as_read (opt_text fnm)"
      using str [of "''type_name''" "J_str (opt_text tn)"] str [of "''field_name''" "J_str (opt_text fnm)"]
      by (simp_all add: T_Hazard emit_defs key_ok_def opt_text_def as_read_def)
    moreover have "(ucast (of_nat (unat wsz) :: u64) :: u32) = wsz"
    proof -
      have "(of_nat (unat wsz) :: u64) = ucast wsz"
        using unat_lt [of wsz] by (simp add: word_unat_eq_iff unat_of_nat unat_ucast_widen)
      moreover have "ucast (ucast wsz :: u64) = wsz" by (rule bit_word_eqI) (simp add: bit_ucast_iff)
      ultimately show ?thesis by simp
    qed
    ultimately show ?thesis using ty
      unfolding tg_line_def json_line_trim Let_def by (simp add: json_line_nonempty T_Hazard opt_text_as_read)
  next
    case (T_Summary ev n ed pr lv hz)
    have "json_u64 (json_line (event_fields e)) ''total_events'' = ev"
        "json_u64 (json_line (event_fields e)) ''nodes'' = of_nat n" "json_u64 (json_line (event_fields e)) ''edges'' = of_nat ed"
        "json_u64 (json_line (event_fields e)) ''stm_projections'' = of_nat pr"
        "json_u64 (json_line (event_fields e)) ''live_allocs'' = of_nat lv"
        "json_u64 (json_line (event_fields e)) ''hazards'' = of_nat hz"
      using num [of "''total_events''" "unat ev"] num [of "''nodes''" n] num [of "''edges''" ed]
        num [of "''stm_projections''" pr] num [of "''live_allocs''" lv] num [of "''hazards''" hz]
      by (simp_all add: T_Summary emit_defs key_ok_def)
    with ty show ?thesis
      unfolding tg_line_def json_line_trim Let_def by (simp add: json_line_nonempty T_Summary)
  qed (use True in simp_all)
qed

definition stream_of :: "topo_event list \<Rightarrow> topology_stream" where
  "stream_of es = fold (\<lambda>e. emit (event_fields e)) es topo_new"

lemma stream_written:
  "ts_written (stream_of es) = map (json_line \<circ> event_fields) es \<and> ts_lines (stream_of es) = of_nat (length es)"
proof (induction es rule: rev_induct)
  case (snoc e es)
  then show ?case by (simp add: stream_of_def emit_def)
qed (simp add: stream_of_def topo_new_def)

text \<open>
  C32 (roundtrip).  What the engine writes, the checker reads: for a stream of lines of every kind
  the engine writes, the graph built from its text is the graph the events themselves build, field
  for field, with each name as the reader takes it (cut at its first quote, see \<open>as_read\<close>); an event
  whose names have no quote, backslash, line break or tab is taken exactly.  The stream counts its lines.
  The counts of the events fit the 64 bits they have in the code, and the kind of a hazard, which the
  writer does not escape, is a plain word (\<open>writable_event\<close>).
\<close>

theorem checker_reads_stream:
  assumes "list_all writable_event es"
  shows "tg_build (ts_written (stream_of es)) = fold (tg_event \<circ> as_read_event) es tg_empty \<and>
    (\<forall>e \<in> set es. plain_event e \<longrightarrow> as_read_event e = e) \<and>
    ts_lines (stream_of es) = of_nat (length es) \<and> length (ts_written (stream_of es)) = length es"
proof -
  have "fold tg_line (map (json_line \<circ> event_fields) es) g = fold (tg_event \<circ> as_read_event) es g" for g
    using assms by (induction es arbitrary: g) (simp_all add: tg_line_event)
  then show ?thesis using stream_written [of es] by (simp add: tg_build_def plain_as_read)
qed

definition demo_events :: "topo_event list" where
  "demo_events = [T_Cold_Stamp 8192 ''pair'' 16 ''g_pair'' 2 0, T_Alloc 1 7 4096 32, T_Stamp 2 4096 ''node'' 32 ''g_head'' 2,
     T_False_Share 2 4096 2 [''a'', ''b''], T_Free 3 7 4096 32, T_Link 5 ''node'' 4096 4096 ''node'' ''next'',
     T_Summary 5 1 1 1 0 0]"

theorem checker_reads_stream_witness:
  "tg_links (tg_build (ts_written (stream_of demo_events))) \<noteq> [] \<and>
   sy_total_events (tg_summary (tg_build (ts_written (stream_of demo_events)))) = 5"
proof -
  have "list_all writable_event demo_events"
    by (simp add: demo_events_def)
  from checker_reads_stream [OF this] show ?thesis
    by (simp add: demo_events_def tg_link_def Let_def)
qed

text \<open>A quote in a name is escaped by the writer, but the reader stops at it.\<close>

lemma quoted_name_truncated:
  "json_str (json_line (emit_stamp 1 4096 [CHR ''a'', quote_char, CHR ''b''] 8 ''s'' 1)) ''type_name'' = [CHR ''a'', bslash]"
  by code_simp


subsection \<open>Verdicts\<close>

definition edge_rel :: "((u64 \<times> string) \<rightharpoonup> u64) \<Rightarrow> string \<Rightarrow> (u64 \<times> u64) set" where
  "edge_rel es f = {(x, y). es (x, f) = Some y \<and> y \<noteq> 0}"

lemma reach_step:
  "(edge_rel es f)\<^sup>* `` {a} =
     (case es (a, f) of Some n \<Rightarrow> if n \<noteq> 0 then insert a ((edge_rel es f)\<^sup>* `` {n}) else {a} | None \<Rightarrow> {a})"
proof -
  have "x \<in> (edge_rel es f)\<^sup>* `` {a} \<longleftrightarrow> x = a \<or> (\<exists>n. (a, n) \<in> edge_rel es f \<and> (n, x) \<in> (edge_rel es f)\<^sup>*)" for x
    by (auto elim: converse_rtranclE intro: converse_rtrancl_into_rtrancl)
  then show ?thesis by (auto simp: edge_rel_def split: option.split)
qed

lemma chain_walk_from:
  assumes "\<And>x y. x \<in> set visited \<Longrightarrow> (x, y) \<in> edge_rel es f \<Longrightarrow> y \<in> insert cur (set visited)"
  shows "chain_walk es f visited cur len = len + card ((edge_rel es f)\<^sup>* `` {cur} - set visited)"
  using assms
proof (induction es f visited cur len rule: chain_walk.induct)
  case (1 es f visited cur len)
  let ?R = "edge_rel es f"
  show ?case
  proof (cases "cur \<in> set visited")
    case True
    have "x \<in> set visited" if "(cur, x) \<in> ?R\<^sup>*" for x
      using that by (induction rule: rtrancl_induct) (use True 1(2) in auto)
    then have "?R\<^sup>* `` {cur} - set visited = {}" by auto
    with True show ?thesis by (simp add: chain_walk.simps [of es f visited cur len])
  next
    case False
    show ?thesis
    proof (cases "\<exists>n. es (cur, f) = Some n \<and> n \<noteq> 0")
      case True
      then obtain n where n: "es (cur, f) = Some n" "n \<noteq> 0" by blast
      have cl: "y \<in> insert n (set (cur # visited))" if "x \<in> set (cur # visited)" "(x, y) \<in> ?R" for x y
        using that n 1(2) by (auto simp: edge_rel_def)
      have "chain_walk es f visited cur len = chain_walk es f (cur # visited) n (len + 1)"
        using False n by (simp add: chain_walk.simps [of es f visited cur len])
      also have "\<dots> = (len + 1) + card (?R\<^sup>* `` {n} - set (cur # visited))"
        by (rule 1(1) [OF False n cl])
      finally have w: "chain_walk es f visited cur len = (len + 1) + card (?R\<^sup>* `` {n} - set (cur # visited))" .
      have "?R\<^sup>* `` {cur} - set visited = insert cur (?R\<^sup>* `` {n} - set (cur # visited))"
        using False by (subst reach_step) (auto simp: n)
      then have "card (?R\<^sup>* `` {cur} - set visited) = Suc (card (?R\<^sup>* `` {n} - set (cur # visited)))"
        by simp
      with w show ?thesis by simp
    next
      case end_of_chain: False
      have "?R\<^sup>* `` {cur} - set visited = {cur}"
        using False end_of_chain by (subst reach_step) (auto split: option.split)
      moreover have "chain_walk es f visited cur len = len + 1"
        using False end_of_chain by (auto simp: chain_walk.simps [of es f visited cur len] split: option.split)
      ultimately show ?thesis by simp
    qed
  qed
qed

lemma fold_max: "fold (\<lambda>a m. max m (h a)) xs (m :: nat) = Max (insert m (h ` set xs))"
proof (induction xs arbitrary: m)
  case (Cons x xs)
  show ?case by (cases "xs = []") (simp_all add: Cons.IH insert_commute max.assoc)
qed simp

text \<open>
  The walk that measures a chain ends, on cyclic chains too, and counts every
  address it can reach once: the length of the longest chain is the greatest number of addresses
  reachable from a stamped object of the type through non-null edges of the field.
\<close>

theorem chain_length_exact:
  "chain_length ty f g =
     Max (insert 0 ((\<lambda>a. card ((edge_rel (tg_edges g) f)\<^sup>* `` {a})) `
       set (case tg_type_addrs g ty of Some as \<Rightarrow> as | None \<Rightarrow> [])))"
proof -
  have "chain_walk (tg_edges g) f [] a 0 = card ((edge_rel (tg_edges g) f)\<^sup>* `` {a})" for a
    using chain_walk_from [of "[]" "tg_edges g" f a 0] by simp
  then show ?thesis by (simp add: chain_length_def fold_max)
qed

text \<open>
  The use-after-free verdict when no address is allocated twice: a stamp or link is a violation when
  its number is greater than that of the free of its address.
\<close>

lemma freed_map_distinct:
  assumes "distinct (map ae_addr (tg_allocs g))"
  shows "freed_map g a = Some fs \<longleftrightarrow>
    (\<exists>e \<in> set (tg_allocs g). ae_addr e = a \<and> ae_freed e \<and> 0 < ae_free_seq e \<and> ae_free_seq e = fs)"
proof -
  let ?st = "\<lambda>a m. if ae_freed a \<and> 0 < ae_free_seq a then m(ae_addr a \<mapsto> ae_free_seq a) else m"
  have "distinct (map ae_addr as) \<Longrightarrow> fold ?st as Map.empty a = Some fs \<longleftrightarrow>
    (\<exists>e \<in> set as. ae_addr e = a \<and> ae_freed e \<and> 0 < ae_free_seq e \<and> ae_free_seq e = fs)" for as
  proof (induction as rule: rev_induct)
    case (snoc e as)
    then show ?case by (auto simp: image_iff)
  qed simp
  with assms show ?thesis by (simp add: freed_map_def)
qed

lemma uaf_verdict:
  assumes "distinct (map ae_addr (tg_allocs g))"
  shows "eval_one g NoUseAfterFree \<longleftrightarrow>
    (\<forall>e \<in> set (tg_allocs g). ae_freed e \<and> 0 < ae_free_seq e \<longrightarrow>
       (\<forall>s \<in> set (tg_stamps g). ae_addr e = sv_addr s \<longrightarrow> sv_seq s \<le> ae_free_seq e) \<and>
       (\<forall>l \<in> set (tg_links g). ae_addr e = lk_to_addr l \<longrightarrow> lk_seq l \<le> ae_free_seq e))"
proof -
  have af: "after_free g sq a \<longleftrightarrow> (\<exists>e \<in> set (tg_allocs g). ae_addr e = a \<and> ae_freed e \<and> 0 < ae_free_seq e \<and> ae_free_seq e < sq)"
    for sq a
  proof -
    have "after_free g sq a \<longleftrightarrow> (\<exists>fs. freed_map g a = Some fs \<and> fs < sq)"
      by (simp add: after_free_def split: option.split)
    then show ?thesis unfolding freed_map_distinct [OF assms] by blast
  qed
  have "eval_one g NoUseAfterFree \<longleftrightarrow> (\<forall>s \<in> set (tg_stamps g). \<not> after_free g (sv_seq s) (sv_addr s)) \<and>
      (\<forall>l \<in> set (tg_links g). \<not> after_free g (lk_seq l) (lk_to_addr l))"
    by (simp add: uaf_violations_def filter_empty_conv)
  then show ?thesis unfolding af not_less [symmetric] by blast
qed

text \<open>When an address is allocated again after a free, a stamp of the new object is a violation.\<close>

lemma address_reuse_flagged:
  "\<not> eval_one (fold tg_event [T_Alloc 1 0 4096 8, T_Free 2 0 4096 8, T_Alloc 3 0 4096 8,
      T_Stamp 4 4096 ''T'' 8 ''s'' 1] tg_empty) NoUseAfterFree"
  by (simp add: tg_empty_def tg_alloc_def tg_free_def tg_stamp_def uaf_violations_def after_free_def freed_map_def)

end
