(* ===== verification/Heap_Oracle.thy ===== *)
theory Heap_Oracle
  imports Dwarf_Info
begin

text \<open>
  \<open>HeapOracle\<close> of \<^verbatim>\<open>engine/src/heap_graph.rs\<close>: which addresses are heap addresses, told by the module
  ranges and the stack bounds the tracer reported.  The ranges are kept sorted and are searched by
  bisection; the stack bounds of the threads are an association list in the iteration order of the
  hash map.
\<close>

record heap_oracle =
  ho_module_ranges :: "(u64 \<times> u64) list"
  ho_stack_bounds :: "(u16 \<times> u64 \<times> u64) list"

definition ho_new :: heap_oracle where
  "ho_new = \<lparr>ho_module_ranges = [], ho_stack_bounds = []\<rparr>"

definition add_module :: "u64 \<Rightarrow> u64 \<Rightarrow> heap_oracle \<Rightarrow> heap_oracle" where
  "add_module base sz o1 =
     (if sz = 0 then o1
      else (let hi = sat_add base sz; rs = ho_module_ranges o1 in
        if rs \<noteq> [] \<and> base \<le> snd (last rs)
        then o1\<lparr>ho_module_ranges := butlast rs @ [(fst (last rs), max (snd (last rs)) hi)]\<rparr>
        else o1\<lparr>ho_module_ranges := sort_key fst (rs @ [(base, hi)])\<rparr>))"

definition STACK_SPAN :: u64 where "STACK_SPAN = 128 * 1024"

definition update_stack :: "u16 \<Rightarrow> u64 \<Rightarrow> heap_oracle \<Rightarrow> heap_oracle" where
  "update_stack tid rsp o1 =
     (let (lo, hi) = (case map_of (ho_stack_bounds o1) tid of Some b \<Rightarrow> b | None \<Rightarrow> (rsp, rsp))
      in o1\<lparr>ho_stack_bounds :=
             AList.update tid (min lo rsp, max hi (sat_add rsp STACK_SPAN)) (ho_stack_bounds o1)\<rparr>)"

text \<open>\<open>binary_search_by(..).is_ok()\<close> over the slice from \<open>lo\<close> to \<open>hi\<close>.\<close>

function in_ranges :: "(u64 \<times> u64) list \<Rightarrow> u64 \<Rightarrow> nat \<Rightarrow> nat \<Rightarrow> bool" where
  "in_ranges rs a lo hi =
     (if lo < hi then
        (let mid = lo + (hi - lo) div 2; r = rs ! mid in
         if a < fst r then in_ranges rs a lo mid
         else if snd r \<le> a then in_ranges rs a (mid + 1) hi
         else True)
      else False)"
  by pat_completeness auto
termination
  by (relation "measure (\<lambda>(_, _, lo, hi). hi - lo)") auto

declare in_ranges.simps [simp del]

definition in_user_range :: "u64 \<Rightarrow> bool" where
  "in_user_range a \<longleftrightarrow> 0x1000 \<le> a \<and> a < 0x0100000000000000"

definition is_heap :: "heap_oracle \<Rightarrow> u64 \<Rightarrow> bool" where
  "is_heap o1 a =
     (if in_ranges (ho_module_ranges o1) a 0 (length (ho_module_ranges o1)) then False
      else if list_ex (\<lambda>(_, lo, hi). lo \<le> a \<and> a < hi) (ho_stack_bounds o1) then False
      else in_user_range a)"

definition is_plausible_ptr :: "heap_oracle \<Rightarrow> u64 \<Rightarrow> bool" where
  "is_plausible_ptr _ v = in_user_range v"


subsection \<open>The ranges stay sorted and apart\<close>

definition ranges_apart :: "(u64 \<times> u64) list \<Rightarrow> bool" where
  "ranges_apart rs \<longleftrightarrow> (\<forall>r \<in> set rs. fst r \<le> snd r) \<and> sorted_wrt (\<lambda>r s. snd r < fst s) rs"

lemma ranges_apart_snoc:
  "ranges_apart (rs @ [r]) \<longleftrightarrow> ranges_apart rs \<and> fst r \<le> snd r \<and> (\<forall>s \<in> set rs. snd s < fst r)"
  by (auto simp: ranges_apart_def sorted_wrt_append)

lemma ranges_apart_last:
  "ranges_apart rs \<Longrightarrow> s \<in> set rs \<Longrightarrow> snd s \<le> snd (last rs)"
proof (induction rs rule: rev_induct)
  case (snoc r rs)
  then show ?case by (auto simp: ranges_apart_snoc)
qed simp

lemma sort_key_sorted: "sorted (map f xs) \<Longrightarrow> sort_key f xs = xs"
  by (rule sort_key_id_if_sorted)

lemma ranges_apart_sorted: "ranges_apart rs \<Longrightarrow> sorted (map fst rs)"
proof (induction rs rule: rev_induct)
  case (snoc r rs)
  then have "\<forall>s \<in> set rs. fst s \<le> fst r"
    unfolding ranges_apart_snoc unfolding ranges_apart_def by (meson le_less_trans less_imp_le)
  with snoc show ?case by (simp add: ranges_apart_snoc sorted_append)
qed simp

lemma add_module_ranges:
  assumes "ranges_apart (ho_module_ranges h)" "sz \<noteq> 0"
  shows "ho_module_ranges (add_module base sz h) =
    (let rs = ho_module_ranges h in
     if rs \<noteq> [] \<and> base \<le> snd (last rs)
     then butlast rs @ [(fst (last rs), max (snd (last rs)) (sat_add base sz))]
     else rs @ [(base, sat_add base sz)])"
proof (cases "ho_module_ranges h \<noteq> [] \<and> base \<le> snd (last (ho_module_ranges h))")
  case True
  then show ?thesis using assms by (simp add: add_module_def Let_def)
next
  case False
  let ?rs = "ho_module_ranges h"
  have "\<forall>s \<in> set ?rs. snd s < base"
    using False ranges_apart_last [OF assms(1)] by (cases "?rs = []") fastforce+
  then have "ranges_apart (?rs @ [(base, sat_add base sz)])"
    using assms(1) by (simp add: ranges_apart_snoc sat_add_ge)
  then have "sort_key fst (?rs @ [(base, sat_add base sz)]) = ?rs @ [(base, sat_add base sz)]"
    by (intro sort_key_sorted ranges_apart_sorted)
  moreover have "ho_module_ranges (add_module base sz h) = sort_key fst (?rs @ [(base, sat_add base sz)])"
    using False assms(2) by (simp only: add_module_def Let_def if_False if_not_P) simp
  ultimately show ?thesis unfolding Let_def using False by (simp only: if_not_P) simp
qed

lemma add_module_apart:
  assumes "ranges_apart (ho_module_ranges h)"
  shows "ranges_apart (ho_module_ranges (add_module base sz h))"
proof (cases "sz = 0")
  case True
  then show ?thesis using assms by (simp add: add_module_def)
next
  case False
  let ?rs = "ho_module_ranges h"
  note eq = add_module_ranges [OF assms False, of base, unfolded Let_def]
  show ?thesis
  proof (cases "?rs \<noteq> [] \<and> base \<le> snd (last ?rs)")
    case True
    then have rs: "?rs = butlast ?rs @ [last ?rs]" by simp
    from assms have "ranges_apart (butlast ?rs)" "fst (last ?rs) \<le> snd (last ?rs)"
        "\<forall>s \<in> set (butlast ?rs). snd s < fst (last ?rs)"
      using rs ranges_apart_snoc [of "butlast ?rs" "last ?rs"] by simp_all
    with True show ?thesis unfolding eq by (auto simp: ranges_apart_snoc le_max_iff_disj)
  next
    case False
    have "\<forall>s \<in> set ?rs. snd s < base"
      using False ranges_apart_last [OF assms] by (cases "?rs = []") fastforce+
    then show ?thesis unfolding eq using False assms by (auto simp: ranges_apart_snoc sat_add_ge)
  qed
qed

lemma in_ranges_iff:
  assumes "ranges_apart rs" "hi \<le> length rs"
  shows "in_ranges rs a lo hi \<longleftrightarrow> (\<exists>i. lo \<le> i \<and> i < hi \<and> fst (rs ! i) \<le> a \<and> a < snd (rs ! i))"
  using assms(2)
proof (induction "hi - lo" arbitrary: lo hi rule: less_induct)
  case less
  show ?case
  proof (cases "lo < hi")
    case False
    then show ?thesis by (simp add: in_ranges.simps [of rs a lo hi])
  next
    case True
    define m where "m = lo + (hi - lo) div 2"
    have m: "lo \<le> m" "m < hi" "m < length rs" using True less.prems by (auto simp: m_def)
    have apart: "snd (rs ! i) < fst (rs ! j)" if "i < j" "j < length rs" for i j
      using assms(1) that by (simp add: ranges_apart_def sorted_wrt_iff_nth_less)
    have wf: "fst (rs ! i) \<le> snd (rs ! i)" if "i < length rs" for i
      using assms(1) that by (simp add: ranges_apart_def)
    consider (below) "a < fst (rs ! m)" | (above) "\<not> a < fst (rs ! m)" "snd (rs ! m) \<le> a"
      | (inside) "fst (rs ! m) \<le> a" "a < snd (rs ! m)" by fastforce
    then show ?thesis
    proof cases
      case below
      have "\<not> (fst (rs ! i) \<le> a \<and> a < snd (rs ! i))" if "m \<le> i" "i < hi" for i
      proof (cases "i = m")
        case False
        with that have "snd (rs ! m) < fst (rs ! i)" using less.prems by (intro apart) simp_all
        with below wf [OF m(3)] show ?thesis by auto
      qed (use below in auto)
      then have "lo \<le> i \<and> i < hi \<and> fst (rs ! i) \<le> a \<and> a < snd (rs ! i) \<longleftrightarrow>
          lo \<le> i \<and> i < m \<and> fst (rs ! i) \<le> a \<and> a < snd (rs ! i)" for i
        using m by (cases "i < m") auto
      moreover have "in_ranges rs a lo hi = in_ranges rs a lo m"
        using True below by (simp add: in_ranges.simps [of rs a lo hi] Let_def m_def [symmetric])
      ultimately show ?thesis using less.hyps [of m lo] m by simp
    next
      case above
      have "\<not> (fst (rs ! i) \<le> a \<and> a < snd (rs ! i))" if "lo \<le> i" "i \<le> m" for i
      proof (cases "i = m")
        case False
        with that have "snd (rs ! i) < fst (rs ! m)" using m by (intro apart) simp_all
        with above show ?thesis by auto
      qed (use above in auto)
      then have "lo \<le> i \<and> i < hi \<and> fst (rs ! i) \<le> a \<and> a < snd (rs ! i) \<longleftrightarrow>
          m + 1 \<le> i \<and> i < hi \<and> fst (rs ! i) \<le> a \<and> a < snd (rs ! i)" for i
        using m by (cases "i \<le> m") auto
      moreover have "in_ranges rs a lo hi = in_ranges rs a (m + 1) hi"
        using True above by (simp add: in_ranges.simps [of rs a lo hi] Let_def m_def [symmetric])
      ultimately show ?thesis using less.hyps [of hi "m + 1"] m less.prems by simp
    next
      case inside
      then have "in_ranges rs a lo hi"
        using True by (auto simp: in_ranges.simps [of rs a lo hi] Let_def m_def [symmetric])
      with inside m show ?thesis by auto
    qed
  qed
qed

datatype oracle_op = Load_Module u64 u64 | Stack_Seen u16 u64

fun oracle_step :: "oracle_op \<Rightarrow> heap_oracle \<Rightarrow> heap_oracle" where
  "oracle_step (Load_Module base sz) h = add_module base sz h"
| "oracle_step (Stack_Seen tid rsp) h = update_stack tid rsp h"

lemma oracle_apart: "ranges_apart (ho_module_ranges (fold oracle_step ops ho_new))"
proof -
  have "ranges_apart (ho_module_ranges h) \<Longrightarrow> ranges_apart (ho_module_ranges (fold oracle_step ops h))" for h
  proof (induction ops arbitrary: h)
    case (Cons op ops)
    have "ranges_apart (ho_module_ranges (oracle_step op h))"
      using Cons.prems by (cases op) (auto simp: add_module_apart update_stack_def Let_def split: prod.split)
    with Cons.IH show ?case by simp
  qed simp
  moreover have "ranges_apart (ho_module_ranges ho_new)" by (simp add: ho_new_def ranges_apart_def)
  ultimately show ?thesis .
qed

lemma is_heap_apart:
  assumes "ranges_apart (ho_module_ranges h)"
  shows "is_heap h a \<longleftrightarrow> in_user_range a \<and>
    (\<forall>(lo, hi) \<in> set (ho_module_ranges h). \<not> (lo \<le> a \<and> a < hi)) \<and>
    (\<forall>(_, lo, hi) \<in> set (ho_stack_bounds h). \<not> (lo \<le> a \<and> a < hi))"
proof -
  have "in_ranges (ho_module_ranges h) a 0 (length (ho_module_ranges h)) \<longleftrightarrow>
      (\<exists>r \<in> set (ho_module_ranges h). fst r \<le> a \<and> a < snd r)"
    unfolding in_ranges_iff [OF assms order_refl] using nth_mem by (metis in_set_conv_nth le0)
  then show ?thesis by (auto simp: is_heap_def list_ex_iff)
qed

lemma oracle_module_covered:
  assumes "ranges_apart (ho_module_ranges h)" "sz \<noteq> 0"
    and "\<forall>r \<in> set (ho_module_ranges h). fst r \<le> base" "base \<le> a" "a < sat_add base sz"
  shows "\<exists>r \<in> set (ho_module_ranges (add_module base sz h)). fst r \<le> a \<and> a < snd r"
  unfolding add_module_ranges [OF assms(1,2)] Let_def
  using assms(3-5) order_trans [OF bspec [OF assms(3) last_in_set] assms(4)] by (auto simp: less_max_iff_disj)

lemma add_module_keeps:
  assumes "ranges_apart (ho_module_ranges h)" "r \<in> set (ho_module_ranges h)" "fst r \<le> a" "a < snd r"
  shows "\<exists>r \<in> set (ho_module_ranges (add_module base sz h)). fst r \<le> a \<and> a < snd r"
proof (cases "sz = 0")
  case True
  then show ?thesis using assms by (auto simp: add_module_def)
next
  case False
  have "r \<in> set (butlast (ho_module_ranges h)) \<or> r = last (ho_module_ranges h)"
    using assms(2) by (metis append_butlast_last_id empty_iff empty_set set_ConsD rotate1.simps(2) set_rotate1)
  then show ?thesis
    unfolding add_module_ranges [OF assms(1) False] Let_def using assms(2-4) by (auto simp: less_max_iff_disj)
qed

text \<open>The modules that a history loads, in order; empty ones do not count.\<close>

definition loads_of :: "oracle_op list \<Rightarrow> (u64 \<times> u64) list" where
  "loads_of ops = concat (map (\<lambda>op. case op of Load_Module b sz \<Rightarrow> if sz = 0 then [] else [(b, sz)] | _ \<Rightarrow> []) ops)"

lemma loads_of_simps [simp]:
  "loads_of [] = []" "loads_of (ops @ [Stack_Seen tid rsp]) = loads_of ops"
  "loads_of (ops @ [Load_Module b sz]) = (if sz = 0 then loads_of ops else loads_of ops @ [(b, sz)])"
  by (simp_all add: loads_of_def)

definition covered :: "(u64 \<times> u64) list \<Rightarrow> u64 \<Rightarrow> bool" where
  "covered rs a \<longleftrightarrow> (\<exists>r \<in> set rs. fst r \<le> a \<and> a < snd r)"

lemma covered_add:
  "ranges_apart (ho_module_ranges h) \<Longrightarrow> covered (ho_module_ranges h) a \<Longrightarrow>
     covered (ho_module_ranges (add_module base sz h)) a"
  unfolding covered_def using add_module_keeps by blast

lemma range_starts:
  "r \<in> set (ho_module_ranges (fold oracle_step ops ho_new)) \<Longrightarrow> \<exists>sz. (fst r, sz) \<in> set (loads_of ops)"
proof (induction ops arbitrary: r rule: rev_induct)
  case Nil
  then show ?case by (simp add: ho_new_def)
next
  case (snoc op ops)
  let ?h = "fold oracle_step ops ho_new"
  show ?case
  proof (cases op)
    case (Stack_Seen tid rsp)
    with snoc show ?thesis by (simp add: update_stack_def Let_def split: prod.splits)
  next
    case (Load_Module b sz)
    show ?thesis
    proof (cases "sz = 0")
      case True
      with snoc Load_Module show ?thesis by (simp add: add_module_def)
    next
      case False
      let ?rs = "ho_module_ranges ?h"
      have "r \<in> set (let rs = ?rs in if rs \<noteq> [] \<and> b \<le> snd (last rs)
         then butlast rs @ [(fst (last rs), max (snd (last rs)) (sat_add b sz))] else rs @ [(b, sat_add b sz)])"
        using snoc.prems Load_Module add_module_ranges [OF oracle_apart [of ops] False, of b] by simp
      then have "(\<exists>q \<in> set ?rs. fst r = fst q) \<or> fst r = b"
        using last_in_set [of ?rs] in_set_butlastD [of r ?rs] by (auto simp: Let_def split: if_splits)
      then have "(\<exists>sz. (fst r, sz) \<in> set (loads_of ops)) \<or> fst r = b"
        using snoc.IH by metis
      then show ?thesis using Load_Module False by auto
    qed
  qed
qed

lemma loads_of_append [simp]: "loads_of (xs @ ys) = loads_of xs @ loads_of ys"
  by (simp add: loads_of_def)

lemma covered_run:
  "covered (ho_module_ranges (fold oracle_step pre ho_new)) a \<Longrightarrow>
     covered (ho_module_ranges (fold oracle_step (pre @ post) ho_new)) a"
proof (induction post rule: rev_induct)
  case (snoc op post)
  then have "covered (ho_module_ranges (fold oracle_step (pre @ post) ho_new)) a" by blast
  with covered_add [OF oracle_apart [of "pre @ post"]] show ?case
    by (cases op) (auto simp: update_stack_def Let_def split: prod.split)
qed simp

text \<open>A module that is not below an earlier one is covered as a whole, for good.\<close>

lemma load_covered:
  assumes "\<forall>(c, z) \<in> set (loads_of pre). c \<le> b" "b \<le> a" "a < sat_add b sz"
  shows "covered (ho_module_ranges (fold oracle_step (pre @ Load_Module b sz # post) ho_new)) a"
proof -
  let ?h = "fold oracle_step pre ho_new"
  have sz: "sz \<noteq> 0" using assms(2,3) by (auto simp: sat_add_def split: if_splits)
  have "\<forall>r \<in> set (ho_module_ranges ?h). fst r \<le> b"
    using range_starts [of _ pre] assms(1) by blast
  from oracle_module_covered [OF oracle_apart sz this assms(2,3)]
  have "covered (ho_module_ranges (fold oracle_step (pre @ [Load_Module b sz]) ho_new)) a"
    by (simp add: covered_def)
  from covered_run [OF this, of post] show ?thesis by simp
qed

text \<open>Nothing but modules is covered: a merge extends a range only by addresses of the new module.\<close>

lemma covered_loaded:
  "covered (ho_module_ranges (fold oracle_step ops ho_new)) a \<Longrightarrow>
     \<exists>(b, sz) \<in> set (loads_of ops). b \<le> a \<and> a < sat_add b sz"
proof (induction ops rule: rev_induct)
  case Nil
  then show ?case by (simp add: ho_new_def covered_def)
next
  case (snoc op ops)
  let ?h = "fold oracle_step ops ho_new"
  show ?case
  proof (cases "covered (ho_module_ranges ?h) a")
    case True
    with snoc.IH show ?thesis by auto
  next
    case False
    show ?thesis
    proof (cases op)
      case (Stack_Seen tid rsp)
      with snoc.prems False show ?thesis by (simp add: update_stack_def Let_def split: prod.splits)
    next
      case (Load_Module b sz)
      with snoc.prems False have "sz \<noteq> 0" by (auto simp: add_module_def)
      have "b \<le> a \<and> a < sat_add b sz"
        using snoc.prems False Load_Module add_module_ranges [OF oracle_apart [of ops] \<open>sz \<noteq> 0\<close>, of b]
        by (fastforce simp: covered_def Let_def less_max_iff_disj not_less dest: in_set_butlastD last_in_set
            split: if_splits)
      with Load_Module \<open>sz \<noteq> 0\<close> show ?thesis by (simp add: loads_of_def)
    qed
  qed
qed

lemma stack_covered:
  "Stack_Seen tid rsp \<in> set ops \<Longrightarrow>
     \<exists>lo hi. map_of (ho_stack_bounds (fold oracle_step ops ho_new)) tid = Some (lo, hi) \<and>
       lo \<le> rsp \<and> sat_add rsp STACK_SPAN \<le> hi"
proof (induction ops rule: rev_induct)
  case (snoc op ops)
  let ?h = "fold oracle_step ops ho_new"
  show ?case
  proof (cases op)
    case (Load_Module b sz)
    with snoc show ?thesis by (auto simp: add_module_def Let_def)
  next
    case (Stack_Seen t r)
    show ?thesis
    proof (cases "Stack_Seen tid rsp \<in> set ops")
      case True
      then obtain lo hi where "map_of (ho_stack_bounds ?h) tid = Some (lo, hi)" "lo \<le> rsp" "sat_add rsp STACK_SPAN \<le> hi"
        using snoc.IH by blast
      with Stack_Seen show ?thesis
        by (cases "t = tid") (auto simp: update_stack_def Let_def update_conv' min_le_iff_disj le_max_iff_disj split: prod.split)
    next
      case False
      with snoc.prems Stack_Seen have "t = tid" "r = rsp" by auto
      with Stack_Seen show ?thesis
        by (auto simp: update_stack_def Let_def update_conv' split: prod.split option.split)
    qed
  qed
qed simp

lemma set_alist_update: "x \<in> set (AList.update k v al) \<Longrightarrow> x = (k, v) \<or> x \<in> set al"
  by (induction al) (auto split: if_splits)

lemma stack_seen:
  "(tid, lo, hi) \<in> set (ho_stack_bounds (fold oracle_step ops ho_new)) \<Longrightarrow>
     \<exists>r1 r2. Stack_Seen tid r1 \<in> set ops \<and> Stack_Seen tid r2 \<in> set ops \<and>
       lo = r1 \<and> hi = sat_add r2 STACK_SPAN"
proof (induction ops arbitrary: lo hi rule: rev_induct)
  case Nil
  then show ?case by (simp add: ho_new_def)
next
  case (snoc op ops)
  let ?h = "fold oracle_step ops ho_new"
  show ?case
  proof (cases op)
    case (Load_Module b sz)
    with snoc show ?thesis by (auto simp: add_module_def Let_def split: if_splits)
  next
    case (Stack_Seen t r)
    define p where "p = (case map_of (ho_stack_bounds ?h) t of Some b \<Rightarrow> b | None \<Rightarrow> (r, r))"
    have "(tid, lo, hi) \<in> set (AList.update t (min (fst p) r, max (snd p) (sat_add r STACK_SPAN)) (ho_stack_bounds ?h))"
      using snoc.prems Stack_Seen by (simp add: update_stack_def Let_def p_def case_prod_beta)
    then consider "(tid, lo, hi) \<in> set (ho_stack_bounds ?h)"
      | "tid = t" "lo = min (fst p) r" "hi = max (snd p) (sat_add r STACK_SPAN)"
      using set_alist_update by fastforce
    then show ?thesis
    proof cases
      case 1
      with snoc.IH show ?thesis by fastforce
    next
      case 2
      show ?thesis
      proof (cases "map_of (ho_stack_bounds ?h) t")
        case None
        with 2 Stack_Seen show ?thesis by (auto simp: p_def max_def sat_add_ge)
      next
        case (Some q)
        with 2(1) obtain r1 r2 where "Stack_Seen t r1 \<in> set ops" "Stack_Seen t r2 \<in> set ops"
          "fst p = r1" "snd p = sat_add r2 STACK_SPAN"
          using snoc.IH [of "fst q" "snd q"] map_of_SomeD [OF Some] by (auto simp: p_def)
        with 2 Stack_Seen show ?thesis by (auto simp: min_def max_def)
      qed
    qed
  qed
qed


definition demo_oracle :: "oracle_op list" where
  "demo_oracle = [Load_Module 0x400000 0x100000, Stack_Seen 0 0x7fff00000000, Load_Module 0x7f0000000000 0x1000]"


text \<open>A module that is loaded below the last range is dropped: its addresses count as heap.\<close>

lemma lower_module_dropped:
  "let h = fold oracle_step [Load_Module 0x7f0000000000 0x1000, Load_Module 0x400000 0x100000] ho_new
   in is_heap h 0x400100"
proof -
  have "ho_module_ranges (fold oracle_step [Load_Module 0x7f0000000000 0x1000, Load_Module 0x400000 0x100000] ho_new)
      = [(0x7f0000000000, 0x7f0000001000)]"
    by (simp add: add_module_def ho_new_def Let_def sat_add_def)
  moreover have "ho_stack_bounds (fold oracle_step [Load_Module 0x7f0000000000 0x1000, Load_Module 0x400000 0x100000] ho_new) = []"
    by (simp add: add_module_def ho_new_def Let_def sat_add_def)
  ultimately show ?thesis
    using is_heap_apart [OF oracle_apart [where ops = "[Load_Module 0x7f0000000000 0x1000, Load_Module 0x400000 0x100000]"], where a = "0x400100"]
    by (simp add: Let_def in_user_range_def)
qed

end
