(* ===== verification/Heap_Graph.thy ===== *)
theory Heap_Graph
  imports Heap_Oracle
begin

text \<open>
  \<open>HeapGraph\<close> of \<^verbatim>\<open>engine/src/heap_graph.rs\<close>: heap objects inferred from clusters of writes, with
  their fields and outgoing pointers, and a running score of the structure types they may have.

  Scores are \<open>f32\<close>.  The type of floats and its operations are parameters, a record \<open>f32_ops\<close> that
  the scoring functions take; nothing is assumed of them.  \<open>unwrap\<close> of a missing object is the
  outcome \<open>Panic\<close>.
\<close>

record 'f f32_ops =
  f_lit :: "int \<Rightarrow> nat \<Rightarrow> 'f"
  f_of_u32 :: "u32 \<Rightarrow> 'f"
  f_add :: "'f \<Rightarrow> 'f \<Rightarrow> 'f"
  f_sub :: "'f \<Rightarrow> 'f \<Rightarrow> 'f"
  f_mul :: "'f \<Rightarrow> 'f \<Rightarrow> 'f"
  f_div :: "'f \<Rightarrow> 'f \<Rightarrow> 'f"
  f_min :: "'f \<Rightarrow> 'f \<Rightarrow> 'f"
  f_max :: "'f \<Rightarrow> 'f \<Rightarrow> 'f"
  f_lt :: "'f \<Rightarrow> 'f \<Rightarrow> bool"
  f_le :: "'f \<Rightarrow> 'f \<Rightarrow> bool"

record heap_field =
  hf_size :: u32
  hf_last_value :: u64
  hf_is_pointer :: bool
  hf_write_count :: u32
  hf_last_seq :: u64

record heap_edge =
  he_source_addr :: u64
  he_target_addr :: u64
  he_field_offset :: u64
  he_last_seq :: u64
  he_write_count :: u32

record 'f score_entry =
  se_candidate_idx :: u16
  se_score :: 'f

record 'f score_cache =
  sc_top :: "'f score_entry list"
  sc_count :: u8
  sc_last_rescore_seq :: u64
  sc_events_since_rescore :: u32

record 'f heap_object =
  hb_base_addr :: u64
  hb_inferred_size :: u64
  hb_inferred_type :: "string option"
  hb_type_confidence :: 'f
  hb_fields :: "(u64, heap_field) btree_map"
  hb_outgoing_edges :: "heap_edge list"
  hb_first_seq :: u64
  hb_last_seq :: u64
  hb_score_cache :: "'f score_cache"

record recent_write =
  rw_addr :: u64
  rw_size :: u32
  rw_value :: u64
  rw_seq :: u64

record struct_candidate =
  cd_name :: string
  cd_byte_size :: u64
  cd_fields :: "(u64 \<times> u64 \<times> bool) list"

record 'f heap_graph =
  hg_objects :: "(u64, 'f heap_object) btree_map"
  hg_addr_to_base :: "(u64, u64) btree_map"
  hg_recent_writes :: "recent_write list"
  hg_total_events :: u64
  hg_candidates :: "struct_candidate list option"
  hg_rescores :: u64
  hg_contradictions :: u64

definition CLUSTER_WINDOW :: nat where "CLUSTER_WINDOW = 64"
definition CLUSTER_RADIUS :: u64 where "CLUSTER_RADIUS = 256"
definition MIN_CLUSTER_WRITES :: nat where "MIN_CLUSTER_WRITES = 3"
definition RESCORE_COOLDOWN :: u32 where "RESCORE_COOLDOWN = 1024"

definition hg_new :: "'f heap_graph" where
  "hg_new = \<lparr>hg_objects = [], hg_addr_to_base = [], hg_recent_writes = [], hg_total_events = 0,
     hg_candidates = None, hg_rescores = 0, hg_contradictions = 0\<rparr>"

definition empty_cache :: "'f f32_ops \<Rightarrow> 'f score_cache" where
  "empty_cache F = \<lparr>sc_top = replicate 3 \<lparr>se_candidate_idx = 0, se_score = f_lit F 0 1\<rparr>, sc_count = 0,
     sc_last_rescore_seq = 0, sc_events_since_rescore = 0\<rparr>"

definition best_score :: "'f score_cache \<Rightarrow> 'f score_entry option" where
  "best_score sc = (if 0 < sc_count sc then Some (sc_top sc ! 0) else None)"


subsection \<open>Candidate structures\<close>

text \<open>\<open>collect_struct_types\<close>: each type name once, in the order the globals and functions list them.\<close>

definition collect_type :: "type_info \<Rightarrow> string set \<times> struct_candidate list \<Rightarrow> string set \<times> struct_candidate list" where
  "collect_type ti acc =
     (if ti_fields ti = [] \<or> ti_byte_size ti = 0 \<or> ti_name ti \<in> fst acc then acc
      else (insert (ti_name ti) (fst acc),
            snd acc @ [\<lparr>cd_name = ti_name ti, cd_byte_size = ti_byte_size ti,
              cd_fields = map (\<lambda>f. (fi_byte_offset f, fi_byte_size f, ti_is_pointer (fi_type_info f))) (ti_fields ti)\<rparr>]))"

definition collect_deep :: "type_info \<Rightarrow> string set \<times> struct_candidate list \<Rightarrow> string set \<times> struct_candidate list" where
  "collect_deep ti acc = fold collect_type (map fi_type_info (ti_fields ti)) (collect_type ti acc)"

definition collect_struct_types :: "global_var list \<Rightarrow> func_map \<Rightarrow> struct_candidate list" where
  "collect_struct_types gs fns =
     snd (fold collect_deep (concat (map (\<lambda>(_, f). map lv_type_info (fm_locals f)) fns))
       (fold collect_deep (map gv_type_info gs) ({}, [])))"

definition init_candidates :: "global_var list \<Rightarrow> func_map \<Rightarrow> 'f heap_graph \<Rightarrow> 'f heap_graph" where
  "init_candidates gs fns g =
     (let c = collect_struct_types gs fns in if c \<noteq> [] then g\<lparr>hg_candidates := Some c\<rparr> else g)"


subsection \<open>Scoring\<close>

definition count_matches :: "struct_candidate \<Rightarrow> 'f heap_object \<Rightarrow> nat" where
  "count_matches c obj = length (filter (\<lambda>(off, sz, p).
     case bt_get (hb_fields obj) off of None \<Rightarrow> False
     | Some f \<Rightarrow> ucast (hf_size f) = sz \<or> p \<and> hf_is_pointer f) (cd_fields c))"

definition score_of :: "'f f32_ops \<Rightarrow> struct_candidate \<Rightarrow> 'f heap_object \<Rightarrow> 'f" where
  "score_of F c obj =
     (let score = f_div F (f_of_u32 F (of_nat (count_matches c obj))) (f_of_u32 F (of_nat (length (cd_fields c))));
          bonus = (if hb_inferred_size obj = cd_byte_size c then f_lit F 1 10 else f_lit F 0 1)
      in f_min F (f_add F score bonus) (f_lit F 1 1))"

text \<open>The stable sort by descending score; incomparable scores count as equal.\<close>

fun insert_desc :: "'f f32_ops \<Rightarrow> u16 \<times> 'f \<Rightarrow> (u16 \<times> 'f) list \<Rightarrow> (u16 \<times> 'f) list" where
  "insert_desc F x [] = [x]"
| "insert_desc F x (y # ys) = (if f_lt F (snd y) (snd x) then x # y # ys else y # insert_desc F x ys)"

definition score_list :: "'f f32_ops \<Rightarrow> struct_candidate list \<Rightarrow> 'f heap_object \<Rightarrow> (u16 \<times> 'f) list" where
  "score_list F cs obj =
     fold (insert_desc F) (List.map_filter (\<lambda>(ci, c).
       if cd_fields c = [] then None
       else (let s = score_of F c obj in if f_lt F (f_lit F 0 1) s then Some (of_nat ci, s) else None))
       (enumerate 0 cs)) []"

definition score_object :: "'f f32_ops \<Rightarrow> struct_candidate list \<Rightarrow> 'f heap_object \<Rightarrow> 'f heap_object outcome" where
  "score_object F cs obj =
     (let best3 = take 3 (score_list F cs obj);
          sc = (empty_cache F)\<lparr>sc_top := map (\<lambda>(i, s). \<lparr>se_candidate_idx = i, se_score = s\<rparr>) best3
                   @ drop (length best3) (sc_top (empty_cache F)),
                 sc_count := of_nat (length best3)\<rparr>
      in case best_score sc of
           None \<Rightarrow> Value (obj\<lparr>hb_score_cache := sc\<rparr>)
         | Some b \<Rightarrow>
             if f_le F (f_lit F 1 2) (se_score b)
             then (if unat (se_candidate_idx b) < length cs
                   then Value (obj\<lparr>hb_inferred_type := Some (cd_name (cs ! unat (se_candidate_idx b))),
                                   hb_type_confidence := se_score b, hb_score_cache := sc\<rparr>)
                   else Panic)
             else Value (obj\<lparr>hb_score_cache := sc\<rparr>))"

definition set_top_score :: "'f \<Rightarrow> 'f heap_object \<Rightarrow> 'f heap_object" where
  "set_top_score c obj = obj\<lparr>hb_type_confidence := c,
     hb_score_cache := (hb_score_cache obj)\<lparr>sc_top := (sc_top (hb_score_cache obj))
        [0 := (sc_top (hb_score_cache obj) ! 0)\<lparr>se_score := c\<rparr>]\<rparr>\<rparr>"

definition rescored :: "u64 \<Rightarrow> 'f heap_object \<Rightarrow> 'f heap_object" where
  "rescored sq obj = obj\<lparr>hb_score_cache := (hb_score_cache obj)\<lparr>sc_last_rescore_seq := sq\<rparr>\<rparr>"

text \<open>The object with the two counters \<open>rescores\<close> and \<open>contradictions\<close>.\<close>

definition first_score ::
  "'f f32_ops \<Rightarrow> struct_candidate list \<Rightarrow> u64 \<Rightarrow> 'f heap_object \<times> u64 \<times> u64 \<Rightarrow> ('f heap_object \<times> u64 \<times> u64) outcome" where
  "first_score F cs sq st =
     (case st of (obj, rs, cts) \<Rightarrow>
        (case score_object F cs obj of Panic \<Rightarrow> Panic | Value o1 \<Rightarrow> Value (rescored sq o1, rs + 1, cts)))"

definition propagate_name ::
  "struct_candidate list \<Rightarrow> nat \<Rightarrow> 'f f32_ops \<Rightarrow> 'f heap_object \<Rightarrow> 'f heap_object" where
  "propagate_name cs best_idx F obj =
     (if f_le F (f_lit F 1 2) (hb_type_confidence obj)
      then (let new_idx = unat (se_candidate_idx (sc_top (hb_score_cache obj) ! 0)) in
            if (hb_inferred_type obj = None \<or> new_idx \<noteq> best_idx) \<and> new_idx < length cs
            then obj\<lparr>hb_inferred_type := Some (cd_name (cs ! new_idx))\<rparr> else obj)
      else obj\<lparr>hb_inferred_type := None\<rparr>)"

definition field_expected :: "struct_candidate \<Rightarrow> u64 \<Rightarrow> u32 \<Rightarrow> bool \<Rightarrow> bool" where
  "field_expected c off sz is_ptr \<longleftrightarrow>
     list_ex (\<lambda>(o1, s, p). o1 = off \<and> (ucast sz = s \<or> p \<and> is_ptr)) (cd_fields c)"

text \<open>The write confirms or contradicts the best candidate.\<close>

definition weigh_best ::
  "'f f32_ops \<Rightarrow> struct_candidate list \<Rightarrow> u64 \<Rightarrow> u32 \<Rightarrow> bool \<Rightarrow> u64
     \<Rightarrow> 'f heap_object \<times> u64 \<times> u64 \<Rightarrow> ('f heap_object \<times> u64 \<times> u64) outcome" where
  "weigh_best F cs off sz is_ptr sq st =
     (case st of (obj, rs, cts) \<Rightarrow>
       (let best_idx = unat (se_candidate_idx (sc_top (hb_score_cache obj) ! 0)) in
        if length cs \<le> best_idx then Value (obj, rs, cts)
        else if field_expected (cs ! best_idx) off sz is_ptr
        then (let d = f_mul F (f_lit F 2 100) (f_sub F (f_lit F 1 1) (hb_type_confidence obj));
                  c = f_min F (f_add F (hb_type_confidence obj) d) (f_lit F 1 1)
              in Value (propagate_name cs best_idx F (set_top_score c obj), rs, cts))
        else
          (let c = f_max F (f_sub F (hb_type_confidence obj) (f_lit F 8 100)) (f_lit F 0 1);
               obj1 = set_top_score c obj
           in if f_lt F (hb_type_confidence obj1) (f_lit F 3 10)
                 \<and> RESCORE_COOLDOWN \<le> sc_events_since_rescore (hb_score_cache obj1)
              then (case first_score F cs sq (obj1, rs, cts + 1) of Panic \<Rightarrow> Panic
                    | Value (obj2, rs', cts') \<Rightarrow> Value (propagate_name cs best_idx F obj2, rs', cts'))
              else Value (propagate_name cs best_idx F obj1, rs, cts + 1))))"

definition update_confidence ::
  "'f f32_ops \<Rightarrow> struct_candidate list \<Rightarrow> u64 \<Rightarrow> u32 \<Rightarrow> bool \<Rightarrow> u64
     \<Rightarrow> 'f heap_object \<times> u64 \<times> u64 \<Rightarrow> ('f heap_object \<times> u64 \<times> u64) outcome" where
  "update_confidence F cs off sz is_ptr sq st =
     (case st of (obj0, rs, cts) \<Rightarrow>
       (let sc = hb_score_cache obj0;
            obj = obj0\<lparr>hb_score_cache := sc\<lparr>sc_events_since_rescore := sc_events_since_rescore sc + 1\<rparr>\<rparr> in
        if sc_count (hb_score_cache obj) = 0
        then (if 2 \<le> length (hb_fields obj) then first_score F cs sq (obj, rs, cts) else Value (obj, rs, cts))
        else weigh_best F cs off sz is_ptr sq (obj, rs, cts)))"


subsection \<open>Objects\<close>

definition find_object_base :: "u64 \<Rightarrow> 'f heap_graph \<Rightarrow> u64 option" where
  "find_object_base a g =
     (case bt_get (hg_addr_to_base g) a of Some base \<Rightarrow> Some base
      | None \<Rightarrow> map_option fst (bt_cover (\<lambda>_ ob. hb_base_addr ob + hb_inferred_size ob) a (hg_objects g)))"

text \<open>The removal of objects, with the index entries of their fields.\<close>

definition drop_object :: "u64 \<Rightarrow> 'f heap_graph \<Rightarrow> 'f heap_graph" where
  "drop_object base g =
     (case bt_get (hg_objects g) base of None \<Rightarrow> g
      | Some ob \<Rightarrow> g\<lparr>hg_objects := bt_remove base (hg_objects g),
          hg_addr_to_base := fold (\<lambda>off. bt_remove (base + off)) (map fst (hb_fields ob)) (hg_addr_to_base g)\<rparr>)"

text \<open>\<open>objects.range(addr..hi)\<close>; the range is never inverted because the end saturates.\<close>

definition hg_on_free :: "u64 \<Rightarrow> u64 \<Rightarrow> 'f heap_graph \<Rightarrow> 'f heap_graph" where
  "hg_on_free a sz g =
     fold drop_object (map fst (filter (\<lambda>(k, _). a \<le> k \<and> k < sat_add a sz) (hg_objects g))) g"

definition gc_stale :: "u64 \<Rightarrow> u64 \<Rightarrow> 'f heap_graph \<Rightarrow> 'f heap_graph" where
  "gc_stale current max_age g =
     fold drop_object (map fst (filter (\<lambda>(_, ob). hb_last_seq ob < sat_sub current max_age) (hg_objects g))) g"

definition touch_field :: "u32 \<Rightarrow> u64 \<Rightarrow> u64 \<Rightarrow> bool \<Rightarrow> u64 \<Rightarrow> (u64, heap_field) btree_map \<Rightarrow> (u64, heap_field) btree_map" where
  "touch_field sz v sq is_ptr off fs =
     (let f = (case bt_get fs off of Some f \<Rightarrow> f
               | None \<Rightarrow> \<lparr>hf_size = sz, hf_last_value = v, hf_is_pointer = is_ptr, hf_write_count = 0, hf_last_seq = sq\<rparr>)
      in bt_insert off (f\<lparr>hf_last_value := v, hf_write_count := hf_write_count f + 1, hf_last_seq := sq,
                          hf_is_pointer := is_ptr\<rparr>) fs)"

fun edit_edge :: "u64 \<Rightarrow> u64 \<Rightarrow> u64 \<Rightarrow> u64 \<Rightarrow> heap_edge list \<Rightarrow> heap_edge list" where
  "edit_edge off source target sq [] =
     [\<lparr>he_source_addr = source, he_target_addr = target, he_field_offset = off, he_last_seq = sq, he_write_count = 1\<rparr>]"
| "edit_edge off source target sq (e # es) =
     (if he_field_offset e = off
      then e\<lparr>he_target_addr := target, he_last_seq := sq, he_write_count := he_write_count e + 1\<rparr> # es
      else e # edit_edge off source target sq es)"

definition hg_update_edge :: "u64 \<Rightarrow> u64 \<Rightarrow> u64 \<Rightarrow> u64 \<Rightarrow> u64 \<Rightarrow> 'f heap_graph \<Rightarrow> 'f heap_graph" where
  "hg_update_edge base off source target sq g =
     (case bt_get (hg_objects g) base of None \<Rightarrow> g
      | Some ob \<Rightarrow> g\<lparr>hg_objects := bt_insert base
          (ob\<lparr>hb_outgoing_edges := edit_edge off source target sq (hb_outgoing_edges ob)\<rparr>) (hg_objects g)\<rparr>)"

definition ptr_write :: "heap_oracle \<Rightarrow> u32 \<Rightarrow> u64 \<Rightarrow> bool" where
  "ptr_write o1 sz v \<longleftrightarrow> sz = 8 \<and> is_plausible_ptr o1 v"

definition write_known ::
  "'f f32_ops \<Rightarrow> heap_oracle \<Rightarrow> u64 \<Rightarrow> u64 \<Rightarrow> u32 \<Rightarrow> u64 \<Rightarrow> u64 \<Rightarrow> 'f heap_graph \<Rightarrow> 'f heap_graph outcome" where
  "write_known F o1 base a sz v sq g =
     (case bt_get (hg_objects g) base of None \<Rightarrow> Panic
      | Some ob \<Rightarrow>
          (let off = a - base; is_ptr = ptr_write o1 sz v;
               ob1 = ob\<lparr>hb_fields := touch_field sz v sq is_ptr off (hb_fields ob), hb_last_seq := sq\<rparr>;
               res = (case hg_candidates g of None \<Rightarrow> Value (ob1, hg_rescores g, hg_contradictions g)
                      | Some cs \<Rightarrow> update_confidence F cs off sz is_ptr sq (ob1, hg_rescores g, hg_contradictions g))
           in case res of Panic \<Rightarrow> Panic
              | Value (ob2, rs, cts) \<Rightarrow>
                  (let g1 = g\<lparr>hg_objects := bt_insert base ob2 (hg_objects g), hg_rescores := rs, hg_contradictions := cts\<rparr>
                   in Value (if is_ptr \<and> v \<noteq> 0 then hg_update_edge base off a v sq g1 else g1))))"

definition edges_of_fields :: "u64 \<Rightarrow> (u64, heap_field) btree_map \<Rightarrow> heap_edge list" where
  "edges_of_fields base fs = map (\<lambda>(off, f).
       \<lparr>he_source_addr = base + off, he_target_addr = hf_last_value f, he_field_offset = off,
        he_last_seq = hf_last_seq f, he_write_count = 1\<rparr>)
     (filter (\<lambda>(_, f). hf_is_pointer f \<and> hf_last_value f \<noteq> 0) fs)"

definition cluster_fields :: "heap_oracle \<Rightarrow> u64 \<Rightarrow> recent_write list \<Rightarrow> (u64, heap_field) btree_map" where
  "cluster_fields o1 base ws = fold (\<lambda>w. touch_field (rw_size w) (rw_value w) (rw_seq w)
       (ptr_write o1 (rw_size w) (rw_value w)) (rw_addr w - base)) ws []"

definition min_of :: "u64 list \<Rightarrow> u64" where "min_of xs = fold min (tl xs) (hd xs)"
definition max_of :: "u64 list \<Rightarrow> u64" where "max_of xs = fold max (tl xs) (hd xs)"

definition make_object ::
  "'f f32_ops \<Rightarrow> heap_oracle \<Rightarrow> u64 \<Rightarrow> recent_write list \<Rightarrow> u64 \<Rightarrow> 'f heap_object" where
  "make_object F o1 base near sq =
     (let fs = cluster_fields o1 base near in
      \<lparr>hb_base_addr = base,
       hb_inferred_size = max (max_of (map (\<lambda>w. rw_addr w + ucast (rw_size w)) near) - base) 8,
       hb_inferred_type = None, hb_type_confidence = f_lit F 0 1, hb_fields = fs,
       hb_outgoing_edges = edges_of_fields base fs,
       hb_first_seq = min_of (map rw_seq near), hb_last_seq = sq, hb_score_cache = empty_cache F\<rparr>)"

definition process_write ::
  "'f f32_ops \<Rightarrow> heap_oracle \<Rightarrow> u64 \<Rightarrow> u32 \<Rightarrow> u64 \<Rightarrow> u64 \<Rightarrow> 'f heap_graph \<Rightarrow> 'f heap_graph outcome" where
  "process_write F o1 a sz v sq g0 =
     (let ws = hg_recent_writes g0 @ [\<lparr>rw_addr = a, rw_size = sz, rw_value = v, rw_seq = sq\<rparr>];
          g = g0\<lparr>hg_total_events := hg_total_events g0 + 1,
                 hg_recent_writes := (if CLUSTER_WINDOW < length ws then tl ws else ws)\<rparr>
      in case find_object_base a g of
           Some base \<Rightarrow> write_known F o1 base a sz v sq g
         | None \<Rightarrow>
             (let near = filter (\<lambda>w. abs_diff (rw_addr w) a \<le> CLUSTER_RADIUS) (hg_recent_writes g) in
              if MIN_CLUSTER_WRITES \<le> length near
              then (let base = min_of (map rw_addr near) in
                    if bt_get (hg_objects g) base = None
                    then Value (g\<lparr>hg_addr_to_base := fold (\<lambda>w. bt_insert (rw_addr w) base) near (hg_addr_to_base g),
                                  hg_objects := bt_insert base (make_object F o1 base near sq) (hg_objects g)\<rparr>)
                    else Value g)
              else Value g))"


subsection \<open>Scores are read in range\<close>

lemma insert_desc_set [simp]: "set (insert_desc F x ys) = insert x (set ys)"
  by (induction ys) auto

lemma fold_insert_desc: "set (fold (insert_desc F) xs ys) = set xs \<union> set ys"
  by (induction xs arbitrary: ys) auto

lemma score_list_idx: "(i, s) \<in> set (score_list F cs obj) \<Longrightarrow> unat i < length cs"
proof -
  assume "(i, s) \<in> set (score_list F cs obj)"
  then obtain ci where "i = of_nat ci" "ci < length cs"
    by (auto simp: score_list_def fold_insert_desc List.map_filter_def Let_def in_set_enumerate_eq
        split: if_splits)
  moreover have "unat (of_nat ci :: u16) \<le> ci" by (simp add: unat_of_nat)
  ultimately show ?thesis by simp
qed

definition same_shape :: "'f heap_object \<Rightarrow> 'f heap_object \<Rightarrow> bool" where
  "same_shape a b \<longleftrightarrow> hb_base_addr b = hb_base_addr a \<and> hb_fields b = hb_fields a \<and>
     hb_outgoing_edges b = hb_outgoing_edges a \<and> hb_inferred_size b = hb_inferred_size a"

lemma score_object_shape:
  "\<exists>ob. score_object F cs obj = Value ob \<and> same_shape obj ob"
proof -
  let ?best3 = "take 3 (score_list F cs obj)"
  define sc where "sc = (empty_cache F)\<lparr>sc_top := map (\<lambda>(i, s). \<lparr>se_candidate_idx = i, se_score = s\<rparr>) ?best3
                   @ drop (length ?best3) (sc_top (empty_cache F)), sc_count := of_nat (length ?best3)\<rparr>"
  have "unat (se_candidate_idx b) < length cs" if "best_score sc = Some b" for b
  proof -
    have "?best3 \<noteq> []" using that by (auto simp: best_score_def sc_def split: if_splits)
    then obtain x xs where x: "?best3 = x # xs" by (cases ?best3) auto
    then have "x \<in> set (score_list F cs obj)" by (metis in_set_takeD list.set_intros(1))
    then have "unat (fst x) < length cs" using score_list_idx [of "fst x" "snd x" F cs obj] by simp
    moreover have "b = sc_top sc ! 0" using that by (simp add: best_score_def split: if_splits)
    ultimately show ?thesis by (simp add: sc_def x case_prod_unfold)
  qed
  then show ?thesis
    unfolding score_object_def Let_def sc_def [symmetric]
    by (auto simp: same_shape_def split: option.split)
qed

lemma same_shape_trans: "same_shape a b \<Longrightarrow> same_shape b c \<Longrightarrow> same_shape a c"
  by (simp add: same_shape_def)

lemma shape_edits:
  "same_shape ob (rescored sq ob)" "same_shape ob (set_top_score c ob)" "same_shape ob (propagate_name cs i F ob)"
  "same_shape ob (ob\<lparr>hb_score_cache := sc\<rparr>)"
  by (simp_all add: same_shape_def rescored_def set_top_score_def propagate_name_def Let_def)

lemma first_score_shape:
  "\<exists>ob' rs' cts'. first_score F cs sq (ob, rs, cts) = Value (ob', rs', cts') \<and> same_shape ob ob'"
proof -
  obtain o1 where "score_object F cs ob = Value o1" "same_shape ob o1" using score_object_shape by blast
  then show ?thesis using same_shape_trans [OF _ shape_edits(1)] by (simp add: first_score_def)
qed

lemma weigh_best_shape:
  "\<exists>ob' rs' cts'. weigh_best F cs off sz p sq (ob, rs, cts) = Value (ob', rs', cts') \<and> same_shape ob ob'"
proof -
  define i where "i = unat (se_candidate_idx (sc_top (hb_score_cache ob) ! 0))"
  define c where "c = f_max F (f_sub F (hb_type_confidence ob) (f_lit F 8 100)) (f_lit F 0 1)"
  obtain ob2 rs' cts' where f: "first_score F cs sq (set_top_score c ob, rs, cts + 1) = Value (ob2, rs', cts')"
      "same_shape (set_top_score c ob) ob2"
    using first_score_shape by blast
  have "same_shape ob (propagate_name cs i F ob2)"
    by (rule same_shape_trans [OF shape_edits(2) same_shape_trans [OF f(2) shape_edits(3)]])
  moreover have "same_shape ob (propagate_name cs i F (set_top_score x ob))" for x
    by (rule same_shape_trans [OF shape_edits(2,3)])
  moreover have "same_shape ob ob" by (simp add: same_shape_def)
  ultimately show ?thesis
    unfolding weigh_best_def Let_def split_conv i_def [symmetric] c_def [symmetric] using f(1) by simp
qed

lemma update_confidence_shape:
  "\<exists>ob' rs' cts'. update_confidence F cs off sz p sq (ob, rs, cts) = Value (ob', rs', cts') \<and> same_shape ob ob'"
proof -
  define ob1 where "ob1 = ob\<lparr>hb_score_cache := (hb_score_cache ob)
      \<lparr>sc_events_since_rescore := sc_events_since_rescore (hb_score_cache ob) + 1\<rparr>\<rparr>"
  have s1: "same_shape ob ob1" unfolding ob1_def by (rule shape_edits(4))
  have eq: "update_confidence F cs off sz p sq (ob, rs, cts) =
     (if sc_count (hb_score_cache ob1) = 0
      then (if 2 \<le> length (hb_fields ob1) then first_score F cs sq (ob1, rs, cts) else Value (ob1, rs, cts))
      else weigh_best F cs off sz p sq (ob1, rs, cts))"
    by (simp add: update_confidence_def Let_def ob1_def)
  show ?thesis
    unfolding eq using first_score_shape [of F cs sq ob1 rs cts] weigh_best_shape [of F cs off sz p sq ob1 rs cts]
      same_shape_trans [OF s1] s1 by auto
qed


subsection \<open>The index of fields\<close>

definition obj_ok :: "u64 \<Rightarrow> 'f heap_object \<Rightarrow> bool" where
  "obj_ok base ob \<longleftrightarrow> hb_base_addr ob = base \<and> bt_inv (hb_fields ob) \<and>
     distinct (map he_field_offset (hb_outgoing_edges ob)) \<and>
     (\<forall>e \<in> set (hb_outgoing_edges ob). he_source_addr e = base + he_field_offset e \<and> he_target_addr e \<noteq> 0 \<and>
        bt_get (hb_fields ob) (he_field_offset e) \<noteq> None)"

definition hg_inv :: "'f heap_graph \<Rightarrow> bool" where
  "hg_inv g \<longleftrightarrow> bt_inv (hg_objects g) \<and> bt_inv (hg_addr_to_base g) \<and>
     (\<forall>a base. bt_get (hg_addr_to_base g) a = Some base \<longrightarrow>
        (\<exists>ob. bt_get (hg_objects g) base = Some ob \<and> bt_get (hb_fields ob) (a - base) \<noteq> None)) \<and>
     (\<forall>base ob. bt_get (hg_objects g) base = Some ob \<longrightarrow> obj_ok base ob) \<and>
     length (hg_recent_writes g) \<le> CLUSTER_WINDOW"

lemma hg_index:
  "hg_inv g \<Longrightarrow> bt_get (hg_addr_to_base g) a = Some base \<Longrightarrow>
     \<exists>ob. bt_get (hg_objects g) base = Some ob \<and> bt_get (hb_fields ob) (a - base) \<noteq> None"
  unfolding hg_inv_def by blast

lemma hg_inv_new: "hg_inv hg_new"
  by (simp add: hg_inv_def hg_new_def)

lemma fold_bt_remove:
  "bt_inv m \<Longrightarrow> bt_inv (fold (\<lambda>off. bt_remove (base + off)) offs m) \<and>
     bt_get (fold (\<lambda>off. bt_remove (base + off)) offs m) =
       (\<lambda>k. if k \<in> (\<lambda>off. base + off) ` set offs then None else bt_get m k)"
  for base :: u64
  by (induction offs arbitrary: m) (auto simp: bt.inv_del bt.get_del fun_eq_iff)

lemma drop_object_spec:
  assumes "hg_inv g"
  shows "hg_inv (drop_object base g) \<and>
    bt_get (hg_objects (drop_object base g)) = (bt_get (hg_objects g))(base := None)"
proof (cases "bt_get (hg_objects g) base")
  case None
  then show ?thesis using assms by (auto simp: drop_object_def)
next
  case (Some ob)
  from assms have bt: "bt_inv (hg_objects g)" "bt_inv (hg_addr_to_base g)" by (simp_all add: hg_inv_def)
  from assms Some have ok: "bt_inv (hb_fields ob)" by (simp add: hg_inv_def obj_ok_def)
  let ?g = "drop_object base g"
  have objs: "bt_get (hg_objects ?g) = (bt_get (hg_objects g))(base := None)" "bt_inv (hg_objects ?g)"
    using bt by (simp_all add: drop_object_def Some bt.get_del bt.inv_del)
  have idx: "bt_inv (hg_addr_to_base ?g)" "bt_get (hg_addr_to_base ?g) =
      (\<lambda>k. if k \<in> (\<lambda>off. base + off) ` set (map fst (hb_fields ob)) then None else bt_get (hg_addr_to_base g) k)"
    using fold_bt_remove [OF bt(2), of base "map fst (hb_fields ob)"] by (simp_all add: drop_object_def Some)
  have "\<exists>o2. bt_get (hg_objects ?g) b = Some o2 \<and> bt_get (hb_fields o2) (a - b) \<noteq> None"
    if a: "bt_get (hg_addr_to_base ?g) a = Some b" for a b
  proof -
    from a have old: "bt_get (hg_addr_to_base g) a = Some b"
      and out: "a \<notin> (\<lambda>off. base + off) ` set (map fst (hb_fields ob))"
      by (auto simp: idx(2) split: if_splits)
    from assms old obtain o2 where o2: "bt_get (hg_objects g) b = Some o2" "bt_get (hb_fields o2) (a - b) \<noteq> None"
      using hg_index by blast
    have "b \<noteq> base"
    proof
      assume "b = base"
      with o2 Some have "a - base \<in> set (map fst (hb_fields ob))" by (auto simp: map_of_eq_None_iff)
      then have "base + (a - base) \<in> (\<lambda>off. base + off) ` set (map fst (hb_fields ob))" by blast
      with out show False by simp
    qed
    with o2 show ?thesis by (auto simp: objs)
  qed
  moreover have "length (hg_recent_writes ?g) \<le> CLUSTER_WINDOW"
    using assms by (simp add: hg_inv_def drop_object_def Some)
  ultimately show ?thesis using assms objs idx(1) by (simp add: hg_inv_def)
qed

lemma drop_objects_spec:
  "hg_inv g \<Longrightarrow> hg_inv (fold drop_object bs g) \<and>
     bt_get (hg_objects (fold drop_object bs g)) = (\<lambda>k. if k \<in> set bs then None else bt_get (hg_objects g) k)"
proof (induction bs arbitrary: g)
  case (Cons b bs)
  then show ?case using drop_object_spec [OF Cons.prems, of b] by (auto simp: fun_eq_iff)
qed simp

text \<open>The index loses the addresses of the fields of the dropped objects, and nothing else changes.\<close>

definition heap_frame :: "'f heap_graph \<Rightarrow> 'f heap_graph \<Rightarrow> bool" where
  "heap_frame g g' \<longleftrightarrow> (\<exists>os idx. g' = g\<lparr>hg_objects := os, hg_addr_to_base := idx\<rparr>)"

lemma heap_frame_eq:
  "heap_frame g g' \<Longrightarrow> g' = g\<lparr>hg_objects := hg_objects g', hg_addr_to_base := hg_addr_to_base g'\<rparr>"
  by (auto simp: heap_frame_def)

lemma drop_object_frame: "heap_frame g (drop_object base g)"
proof (cases "bt_get (hg_objects g) base")
  case None
  then have "drop_object base g = g\<lparr>hg_objects := hg_objects g, hg_addr_to_base := hg_addr_to_base g\<rparr>"
    by (simp add: drop_object_def)
  then show ?thesis unfolding heap_frame_def by blast
qed (auto simp: heap_frame_def drop_object_def)

lemma drop_objects_frame: "heap_frame g (fold drop_object bs g)"
proof (induction bs arbitrary: g)
  case Nil
  show ?case unfolding heap_frame_def
    by (rule exI [of _ "hg_objects g"], rule exI [of _ "hg_addr_to_base g"]) simp
next
  case (Cons b bs)
  from drop_object_frame [of g b] obtain os idx where "drop_object b g = g\<lparr>hg_objects := os, hg_addr_to_base := idx\<rparr>"
    unfolding heap_frame_def by blast
  with Cons [of "drop_object b g"] show ?case by (auto simp: heap_frame_def)
qed

lemma drop_object_index:
  assumes "hg_inv g"
  shows "bt_get (hg_addr_to_base (drop_object b g)) a =
    (case bt_get (hg_objects g) b of None \<Rightarrow> bt_get (hg_addr_to_base g) a
     | Some ob \<Rightarrow> if bt_get (hb_fields ob) (a - b) \<noteq> None then None else bt_get (hg_addr_to_base g) a)"
proof (cases "bt_get (hg_objects g) b")
  case (Some ob)
  have "a \<in> (\<lambda>off. b + off) ` set (map fst (hb_fields ob)) \<longleftrightarrow> a - b \<in> set (map fst (hb_fields ob))"
    by (metis (no_types, lifting) add_diff_cancel_left' diff_add_cancel add.commute image_iff)
  then have "a \<in> (\<lambda>off. b + off) ` set (map fst (hb_fields ob)) \<longleftrightarrow> bt_get (hb_fields ob) (a - b) \<noteq> None"
    by (simp add: map_of_eq_None_iff)
  then show ?thesis
    using fold_bt_remove [of "hg_addr_to_base g" b "map fst (hb_fields ob)"] assms Some
    by (simp add: drop_object_def hg_inv_def)
qed (simp add: drop_object_def)

lemma drop_objects_index:
  "hg_inv g \<Longrightarrow> bt_get (hg_addr_to_base (fold drop_object bs g)) a =
     (if \<exists>b ob. b \<in> set bs \<and> bt_get (hg_objects g) b = Some ob \<and> bt_get (hb_fields ob) (a - b) \<noteq> None
      then None else bt_get (hg_addr_to_base g) a)"
proof (induction bs arbitrary: g)
  case (Cons b bs)
  note d = drop_object_spec [OF Cons.prems, of b]
  from Cons.IH [of "drop_object b g"] d drop_object_index [OF Cons.prems, of b a] show ?case
    by (auto split: option.splits if_splits)
qed simp

lemma keys_filter: "bt_inv m \<Longrightarrow> k \<in> set (map fst (filter P m)) \<longleftrightarrow> (\<exists>v. bt_get m k = Some v \<and> P (k, v))"
  by (force simp: get_in_set)

lemma on_free_spec:
  assumes "hg_inv g"
  shows "hg_inv (hg_on_free a sz g) \<and> bt_get (hg_objects (hg_on_free a sz g)) =
    (\<lambda>k. if a \<le> k \<and> k < sat_add a sz then None else bt_get (hg_objects g) k)"
proof -
  have "bt_inv (hg_objects g)" using assms by (simp add: hg_inv_def)
  note k = keys_filter [OF this, of _ "\<lambda>(k, _). a \<le> k \<and> k < sat_add a sz"]
  show ?thesis
    using drop_objects_spec [OF assms, of "map fst (filter (\<lambda>(k, _). a \<le> k \<and> k < sat_add a sz) (hg_objects g))"] k
    unfolding hg_on_free_def by (auto simp: fun_eq_iff)
qed

lemma on_free_index:
  assumes "hg_inv g"
  shows "bt_get (hg_addr_to_base (hg_on_free a sz g)) k =
    (if \<exists>b ob. a \<le> b \<and> b < sat_add a sz \<and> bt_get (hg_objects g) b = Some ob \<and> bt_get (hb_fields ob) (k - b) \<noteq> None
     then None else bt_get (hg_addr_to_base g) k)"
proof -
  have "bt_inv (hg_objects g)" using assms by (simp add: hg_inv_def)
  note f = keys_filter [OF this, of _ "\<lambda>(k, _). a \<le> k \<and> k < sat_add a sz"]
  have "(\<exists>b ob. b \<in> set (map fst (filter (\<lambda>(k, _). a \<le> k \<and> k < sat_add a sz) (hg_objects g))) \<and>
        bt_get (hg_objects g) b = Some ob \<and> bt_get (hb_fields ob) (k - b) \<noteq> None) \<longleftrightarrow>
      (\<exists>b ob. a \<le> b \<and> b < sat_add a sz \<and> bt_get (hg_objects g) b = Some ob \<and> bt_get (hb_fields ob) (k - b) \<noteq> None)"
    unfolding f by auto
  then show ?thesis unfolding hg_on_free_def drop_objects_index [OF assms] by (simp only:)
qed

lemma on_free_frame: "heap_frame g (hg_on_free a sz g)"
  unfolding hg_on_free_def by (rule drop_objects_frame)

lemma gc_stale_spec:
  assumes "hg_inv g"
  shows "hg_inv (gc_stale current max_age g) \<and>
    (\<forall>k ob. bt_get (hg_objects (gc_stale current max_age g)) k = Some ob \<longleftrightarrow>
       bt_get (hg_objects g) k = Some ob \<and> \<not> hb_last_seq ob < sat_sub current max_age)"
proof -
  have "bt_inv (hg_objects g)" using assms by (simp add: hg_inv_def)
  note k = keys_filter [OF this, of _ "\<lambda>(_, ob). hb_last_seq ob < sat_sub current max_age"]
  show ?thesis
    using drop_objects_spec [OF assms, of "map fst (filter (\<lambda>(_, ob). hb_last_seq ob < sat_sub current max_age) (hg_objects g))"] k
    unfolding gc_stale_def by auto
qed

lemma touch_field_spec:
  "bt_inv fs \<Longrightarrow> bt_inv (touch_field sz v sq p off fs) \<and>
     (\<forall>k. bt_get (touch_field sz v sq p off fs) k \<noteq> None \<longleftrightarrow> k = off \<or> bt_get fs k \<noteq> None)"
  by (simp add: touch_field_def Let_def bt.inv_ins bt.get_ins)

lemma edit_edge_set:
  "e \<in> set (edit_edge off source target sq es) \<Longrightarrow>
     e \<in> set es \<or> he_field_offset e = off \<and> he_target_addr e = target \<and>
       (he_source_addr e = source \<or> (\<exists>d \<in> set es. he_field_offset d = off \<and> he_source_addr e = he_source_addr d))"
  by (induction es) (auto split: if_splits)

lemma edit_edge_offsets:
  "map he_field_offset (edit_edge off source target sq es) =
     map he_field_offset es @ (if off \<in> set (map he_field_offset es) then [] else [off])"
  by (induction es) auto

lemma obj_ok_edge:
  assumes "obj_ok base ob" "bt_get (hb_fields ob) off \<noteq> None" "target \<noteq> 0"
  shows "obj_ok base (ob\<lparr>hb_outgoing_edges := edit_edge off (base + off) target sq (hb_outgoing_edges ob)\<rparr>)"
  using assms edit_edge_set [of _ off "base + off" target sq "hb_outgoing_edges ob"]
  by (fastforce simp: obj_ok_def edit_edge_offsets)

lemma find_object_base_live:
  assumes "hg_inv g" "find_object_base a g = Some base"
  shows "\<exists>ob. bt_get (hg_objects g) base = Some ob"
proof (cases "bt_get (hg_addr_to_base g) a")
  case (Some b)
  with assms show ?thesis using hg_index [OF assms(1) Some] by (auto simp: find_object_base_def)
next
  case None
  with assms(2) obtain ob where c: "bt_cover (\<lambda>_ ob. hb_base_addr ob + hb_inferred_size ob) a (hg_objects g) = Some (base, ob)"
    by (auto simp: find_object_base_def)
  have "bt_inv (hg_objects g)" using assms(1) by (simp add: hg_inv_def)
  from btc.cover_sound [OF this c] show ?thesis by blast
qed

lemma hg_inv_replace:
  assumes inv: "hg_inv g" and ob: "bt_get (hg_objects g) base = Some ob" and ok: "obj_ok base ob'"
    and keys: "\<And>k. bt_get (hb_fields ob) k \<noteq> None \<Longrightarrow> bt_get (hb_fields ob') k \<noteq> None"
  shows "hg_inv (g\<lparr>hg_objects := bt_insert base ob' (hg_objects g)\<rparr>)"
proof -
  have bt: "bt_inv (hg_objects g)" using inv by (simp add: hg_inv_def)
  have "\<exists>o2. bt_get (bt_insert base ob' (hg_objects g)) b = Some o2 \<and> bt_get (hb_fields o2) (a - b) \<noteq> None"
    if "bt_get (hg_addr_to_base g) a = Some b" for a b
    using hg_index [OF inv that] keys [of "a - b"] ob by (cases "b = base") (auto simp: bt.get_ins [OF bt])
  with inv ok show ?thesis
    unfolding hg_inv_def by (simp add: bt.get_ins [OF bt] bt.inv_ins)
qed

lemma hg_inv_counters [simp]:
  "hg_inv (g\<lparr>hg_objects := os, hg_rescores := x, hg_contradictions := y\<rparr>) = hg_inv (g\<lparr>hg_objects := os\<rparr>)"
  by (simp add: hg_inv_def)

lemma write_known_spec:
  assumes inv: "hg_inv g" and ob: "bt_get (hg_objects g) base = Some ob"
  shows "\<exists>g'. write_known F o1 base a sz v sq g = Value g' \<and> hg_inv g'"
proof -
  let ?p = "ptr_write o1 sz v" and ?off = "a - base"
  define ob1 where "ob1 = ob\<lparr>hb_fields := touch_field sz v sq ?p ?off (hb_fields ob), hb_last_seq := sq\<rparr>"
  from inv ob have ok: "obj_ok base ob" by (simp add: hg_inv_def)
  then have f: "bt_inv (hb_fields ob)" by (simp add: obj_ok_def)
  have keys: "bt_get (hb_fields ob1) k \<noteq> None \<longleftrightarrow> k = ?off \<or> bt_get (hb_fields ob) k \<noteq> None" for k
    using touch_field_spec [OF f] by (simp add: ob1_def)
  have ok1: "obj_ok base ob1"
    using ok keys touch_field_spec [OF f] by (auto simp: obj_ok_def ob1_def)
  obtain ob2 rs cts where conf: "(case hg_candidates g of None \<Rightarrow> Value (ob1, hg_rescores g, hg_contradictions g)
       | Some cs \<Rightarrow> update_confidence F cs ?off sz ?p sq (ob1, hg_rescores g, hg_contradictions g)) = Value (ob2, rs, cts)"
      and shape: "same_shape ob1 ob2"
  proof (cases "hg_candidates g")
    case None
    then show ?thesis by (intro that [of ob1]) (simp_all add: same_shape_def)
  next
    case (Some cs)
    from update_confidence_shape [of F cs ?off sz ?p sq ob1 "hg_rescores g" "hg_contradictions g"] Some that
    show ?thesis by auto
  qed
  have ok2: "obj_ok base ob2" using ok1 shape by (simp add: obj_ok_def same_shape_def)
  have keys2: "bt_get (hb_fields ob2) k \<noteq> None \<longleftrightarrow> k = ?off \<or> bt_get (hb_fields ob) k \<noteq> None" for k
    using keys shape by (simp add: same_shape_def)
  define g1 where "g1 = g\<lparr>hg_objects := bt_insert base ob2 (hg_objects g), hg_rescores := rs, hg_contradictions := cts\<rparr>"
  have res: "write_known F o1 base a sz v sq g =
      Value (if ?p \<and> v \<noteq> 0 then hg_update_edge base ?off a v sq g1 else g1)"
    unfolding write_known_def ob option.case Let_def ob1_def [symmetric] conf outcome.case split_conv
    by (simp add: g1_def)
  have mono: "bt_get (hb_fields ob) k \<noteq> None \<Longrightarrow> bt_get (hb_fields ob2) k \<noteq> None" for k
    using keys2 by blast
  have g1: "bt_get (hg_objects g1) base = Some ob2" "bt_inv (hg_objects g1)"
    using inv by (auto simp: g1_def hg_inv_def bt.get_ins bt.inv_ins)
  have inv1: "hg_inv g1"
    unfolding g1_def using hg_inv_replace [OF inv ob ok2 mono] by simp
  moreover have "hg_inv (hg_update_edge base ?off a v sq g1)" if "v \<noteq> 0"
  proof -
    have "obj_ok base (ob2\<lparr>hb_outgoing_edges := edit_edge ?off a v sq (hb_outgoing_edges ob2)\<rparr>)"
      using obj_ok_edge [OF ok2, of ?off v sq] keys2 [of ?off] that by simp
    from hg_inv_replace [OF inv1 g1(1) this] show ?thesis by (simp add: hg_update_edge_def g1)
  qed
  ultimately show ?thesis using res by auto
qed

lemma cluster_fields_spec:
  "bt_inv (cluster_fields o1 base ws) \<and>
     (\<forall>k. bt_get (cluster_fields o1 base ws) k \<noteq> None \<longleftrightarrow> k \<in> (\<lambda>w. rw_addr w - base) ` set ws)"
proof -
  let ?st = "\<lambda>w. touch_field (rw_size w) (rw_value w) (rw_seq w) (ptr_write o1 (rw_size w) (rw_value w)) (rw_addr w - base)"
  have "bt_inv fs \<Longrightarrow> bt_inv (fold ?st ws fs) \<and>
     (\<forall>k. bt_get (fold ?st ws fs) k \<noteq> None \<longleftrightarrow> k \<in> (\<lambda>w. rw_addr w - base) ` set ws \<or> bt_get fs k \<noteq> None)" for fs
  proof (induction ws arbitrary: fs)
    case (Cons w ws)
    then show ?case
      using touch_field_spec [OF Cons.prems] by (simp del: not_None_eq) blast
  qed simp
  from this [of "[]"] show ?thesis by (simp add: cluster_fields_def)
qed

lemma make_object_ok: "obj_ok base (make_object F o1 base near sq)"
proof -
  let ?fs = "cluster_fields o1 base near"
  have fs: "bt_inv ?fs" using cluster_fields_spec by blast
  have "distinct (map fst (filter (\<lambda>(_, f). hf_is_pointer f \<and> hf_last_value f \<noteq> 0) ?fs))"
    using bt_inv_distinct [OF bt_inv_filter [OF fs]] .
  moreover have "map he_field_offset (edges_of_fields base ?fs) =
      map fst (filter (\<lambda>(_, f). hf_is_pointer f \<and> hf_last_value f \<noteq> 0) ?fs)"
    by (simp add: edges_of_fields_def case_prod_unfold)
  moreover have "\<forall>e \<in> set (edges_of_fields base ?fs). he_source_addr e = base + he_field_offset e \<and>
      he_target_addr e \<noteq> 0 \<and> bt_get ?fs (he_field_offset e) \<noteq> None"
    by (auto simp: edges_of_fields_def get_in_set [OF fs, symmetric])
  ultimately show ?thesis using fs by (simp add: obj_ok_def make_object_def Let_def)
qed

lemma fold_insert_addrs:
  "bt_inv m \<Longrightarrow> bt_inv (fold (\<lambda>w. bt_insert (rw_addr w) base) ws m) \<and>
     bt_get (fold (\<lambda>w. bt_insert (rw_addr w) base) ws m) =
       (\<lambda>k. if k \<in> rw_addr ` set ws then Some base else bt_get m k)"
  by (induction ws arbitrary: m) (auto simp: bt.inv_ins bt.get_ins fun_eq_iff)

lemma process_write_spec:
  assumes "hg_inv g0"
  shows "\<exists>g. process_write F o1 a sz v sq g0 = Value g \<and> hg_inv g"
proof -
  define ws where "ws = hg_recent_writes g0 @ [\<lparr>rw_addr = a, rw_size = sz, rw_value = v, rw_seq = sq\<rparr>]"
  define g where "g = g0\<lparr>hg_total_events := hg_total_events g0 + 1,
                 hg_recent_writes := (if CLUSTER_WINDOW < length ws then tl ws else ws)\<rparr>"
  have inv: "hg_inv g" using assms by (auto simp: hg_inv_def g_def ws_def)
  show ?thesis
  proof (cases "find_object_base a g")
    case (Some base)
    with find_object_base_live [OF inv Some] write_known_spec [OF inv, of base] show ?thesis
      unfolding process_write_def Let_def ws_def [symmetric] g_def [symmetric] by auto
  next
    case None
    define near where "near = filter (\<lambda>w. abs_diff (rw_addr w) a \<le> CLUSTER_RADIUS) (hg_recent_writes g)"
    define base where "base = min_of (map rw_addr near)"
    show ?thesis
    proof (cases "MIN_CLUSTER_WRITES \<le> length near \<and> bt_get (hg_objects g) base = None")
      case False
      then show ?thesis using inv None
        unfolding process_write_def Let_def ws_def [symmetric] g_def [symmetric] near_def [symmetric] base_def [symmetric]
        by auto
    next
      case True
      let ?g = "g\<lparr>hg_addr_to_base := fold (\<lambda>w. bt_insert (rw_addr w) base) near (hg_addr_to_base g),
                  hg_objects := bt_insert base (make_object F o1 base near sq) (hg_objects g)\<rparr>"
      have bt: "bt_inv (hg_objects g)" "bt_inv (hg_addr_to_base g)" using inv by (simp_all add: hg_inv_def)
      note idx = fold_insert_addrs [OF bt(2), of base near]
      have fields: "bt_get (hb_fields (make_object F o1 base near sq)) (b - base) \<noteq> None" if "b \<in> rw_addr ` set near" for b
        using cluster_fields_spec [of o1 base near] that by (auto simp: make_object_def Let_def)
      have "\<exists>ob. bt_get (hg_objects ?g) b = Some ob \<and> bt_get (hb_fields ob) (k - b) \<noteq> None"
        if k: "bt_get (hg_addr_to_base ?g) k = Some b" for k b
      proof (cases "k \<in> rw_addr ` set near")
        case True
        with k idx have "b = base" by auto
        with fields [OF True] show ?thesis by (simp add: bt.get_ins [OF bt(1)])
      next
        case False
        with k idx have "bt_get (hg_addr_to_base g) k = Some b" by auto
        with inv obtain ob where ob: "bt_get (hg_objects g) b = Some ob" "bt_get (hb_fields ob) (k - b) \<noteq> None"
          unfolding hg_inv_def by blast
        with True have "b \<noteq> base" by auto
        with ob show ?thesis by (simp add: bt.get_ins [OF bt(1)])
      qed
      then have "hg_inv ?g"
        using inv idx make_object_ok unfolding hg_inv_def by (simp add: bt.get_ins [OF bt(1)] bt.inv_ins)
      with True None show ?thesis
        unfolding process_write_def Let_def ws_def [symmetric] g_def [symmetric] near_def [symmetric] base_def [symmetric]
        by simp
    qed
  qed
qed


subsection \<open>Histories\<close>

datatype heap_event = HE_Write u64 u32 u64 u64 | HE_Free u64 u64 | HE_Stale u64 u64

definition heap_step :: "'f f32_ops \<Rightarrow> heap_oracle \<Rightarrow> heap_event \<Rightarrow> 'f heap_graph outcome \<Rightarrow> 'f heap_graph outcome" where
  "heap_step F o1 e res =
     (case res of Panic \<Rightarrow> Panic
      | Value g \<Rightarrow> (case e of HE_Write a sz v sq \<Rightarrow> process_write F o1 a sz v sq g
                    | HE_Free a sz \<Rightarrow> Value (hg_on_free a sz g)
                    | HE_Stale c m \<Rightarrow> Value (gc_stale c m g)))"

lemma heap_run_inv: "hg_inv g \<Longrightarrow> \<exists>g'. fold (heap_step F o1) es (Value g) = Value g' \<and> hg_inv g'"
proof (induction es arbitrary: g)
  case (Cons e es)
  have "\<exists>g1. heap_step F o1 e (Value g) = Value g1 \<and> hg_inv g1"
    using process_write_spec [OF Cons.prems] on_free_spec [OF Cons.prems] gc_stale_spec [OF Cons.prems]
    by (cases e) (auto simp: heap_step_def)
  with Cons.IH show ?case by auto
qed simp

lemma hg_inv_candidates: "hg_inv (init_candidates gs fns g) = hg_inv g"
  by (simp add: init_candidates_def Let_def hg_inv_def)

text \<open>
  C22 (safety).  Whatever the floating-point operations do, processing any history of writes, frees
  and collections never panics.  The history starts as in the engine, from an empty graph with the
  candidate structures collected from the debug information, so that writes are scored against
  them.  The index from addresses to objects has no orphan, each of its
  entries leads to a live object with a field at that address, an object has at most one edge for
  each field, and edges start inside their object.  A free removes exactly the objects that start
  in the freed block.
\<close>

theorem heap_graph_no_orphans:
  "\<exists>g. fold (heap_step F o1) es (Value (init_candidates gs fns hg_new)) = Value g \<and> hg_inv g \<and>
     ran (\<lambda>a. find_object_base a g) \<subseteq> dom (bt_get (hg_objects g)) \<and>
     bt_get (hg_objects (hg_on_free b sz g)) =
       (\<lambda>k. if b \<le> k \<and> k < sat_add b sz then None else bt_get (hg_objects g) k)"
proof -
  have "hg_inv (init_candidates gs fns hg_new)" by (simp add: hg_inv_candidates hg_inv_new)
  from heap_run_inv [OF this] obtain g
    where g: "fold (heap_step F o1) es (Value (init_candidates gs fns hg_new)) = Value g" "hg_inv g"
    by blast
  have "ran (\<lambda>a. find_object_base a g) \<subseteq> dom (bt_get (hg_objects g))"
    using find_object_base_live [OF g(2)] by (auto simp: ran_def)
  with g on_free_spec [OF g(2)] show ?thesis by blast
qed

text \<open>
  The scoring is reached: with integers in hundredths for the floating-point numbers, four writes
  to a node are clustered, scored against the one candidate, and named after it.
\<close>

definition hundredths :: "int f32_ops" where
  "hundredths = \<lparr>f_lit = (\<lambda>n d. 100 * n div int d), f_of_u32 = (\<lambda>x. 100 * uint x),
     f_add = (+), f_sub = (-), f_mul = (\<lambda>x y. x * y div 100), f_div = (\<lambda>x y. 100 * x div y),
     f_min = min, f_max = max, f_lt = (<), f_le = (\<le>)\<rparr>"

definition pair_type :: type_info where
  "pair_type = Type_Info ''pair'' 16 False False False False
     [Field_Info ''fst'' 0 8 (Type_Info ''long'' 8 False False False False []) 0,
      Field_Info ''snd'' 8 8 (Type_Info ''long'' 8 False False False False []) 0]"

lemma writes_are_scored:
  "(case fold (heap_step hundredths ho_new)
        [HE_Write 0x10000 8 1 1, HE_Write 0x10008 8 2 2, HE_Write 0x10000 8 3 3, HE_Write 0x10008 8 4 4]
        (Value (init_candidates [\<lparr>gv_name = ''g'', gv_addr = 0x5000, gv_size = 16, gv_type_info = pair_type, gv_location = []\<rparr>] [] hg_new)) of
      Value g \<Rightarrow> hg_rescores g = 1 \<and> map (hb_inferred_type \<circ> snd) (hg_objects g) = [Some ''pair'']
    | Panic \<Rightarrow> False)"
  by code_simp

end
