(* ===== verification/Retro_Scan.thy ===== *)
theory Retro_Scan
  imports Heap_Graph World_State "HOL-Library.List_Lexorder" "HOL-Library.Char_ord"
begin

text \<open>
  \<open>ShadowTypeMap::retrospective_scan\<close> of \<^verbatim>\<open>engine/src/world.rs\<close>: a bounded breadth-first search
  from a freshly stamped object along its pointer fields, which types the objects they point to.
  A field's value comes from the heap graph, or from the memory of the process, whose reader is a
  parameter: it gives the eight bytes at an address as a number, or nothing when the read fails.
\<close>

type_synonym read_word = "u64 \<Rightarrow> u64 option"

text \<open>The budget: four stamps for each pointer field of the seed, between 64 and 256.\<close>

definition ptr_field :: "field_info \<Rightarrow> bool" where
  "ptr_field f \<longleftrightarrow> ti_is_pointer (fi_type_info f) \<and> fi_byte_size f = 8"

definition scan_fuel :: "u64 \<Rightarrow> shadow_type_map \<Rightarrow> nat" where
  "scan_fuel seed stm =
     (case bt_get (st_map stm) seed of
        Some p \<Rightarrow> min (max (length (filter ptr_field (ti_fields (tp_type_info p))) * 4) 64) 256
      | None \<Rightarrow> 64)"

definition hg_object_at :: "u64 \<Rightarrow> 'f heap_graph \<Rightarrow> (u64 \<times> 'f heap_object) option" where
  "hg_object_at base g =
     (case find_object_base base g of None \<Rightarrow> None
      | Some hb \<Rightarrow> map_option (\<lambda>ob. (hb, ob)) (bt_get (hg_objects g) hb))"

definition cached_value :: "u64 \<Rightarrow> (u64 \<times> 'f heap_object) option \<Rightarrow> u64 \<Rightarrow> u64 option" where
  "cached_value base hg_obj off =
     (case hg_obj of None \<Rightarrow> None
      | Some (hb, ob) \<Rightarrow>
          (case bt_get (hb_fields ob) ((base - hb) + off) of None \<Rightarrow> None
           | Some fi \<Rightarrow> if hf_last_value fi \<noteq> 0 then Some (hf_last_value fi) else None))"

definition field_value ::
  "u64 \<Rightarrow> (u64 \<times> 'f heap_object) option \<Rightarrow> read_word option \<Rightarrow> u64 \<Rightarrow> u64 option" where
  "field_value base hg_obj mem off =
     (case cached_value base hg_obj off of Some v \<Rightarrow> Some v
      | None \<Rightarrow>
          (case mem of None \<Rightarrow> None
           | Some rd \<Rightarrow> (case rd (base + off) of None \<Rightarrow> None | Some v \<Rightarrow> if v = 0 then None else Some v)))"

text \<open>A value is taken for a pointer when it is a live allocation or, read from memory, looks like one.\<close>

definition known_target :: "alloc_tracker \<Rightarrow> read_word option \<Rightarrow> u64 \<Rightarrow> bool" where
  "known_target tr mem v \<longleftrightarrow> alloc_size tr v \<noteq> None \<or> (mem \<noteq> None \<and> 0x1000 < v \<and> v AND 7 = 0)"

type_synonym scan_candidate = "string \<times> u64 \<times> type_info"

text \<open>One field: a candidate to stamp, or the registration of an array of pointers.\<close>

definition scan_field ::
  "registry \<Rightarrow> alloc_tracker \<Rightarrow> read_word option \<Rightarrow> u64 \<Rightarrow> (u64 \<times> 'f heap_object) option \<Rightarrow> field_info
     \<Rightarrow> shadow_type_map \<times> scan_candidate list \<Rightarrow> shadow_type_map \<times> scan_candidate list" where
  "scan_field reg tr mem base hg_obj f acc =
     (if \<not> ptr_field f then acc
      else
        (case field_value base hg_obj mem (fi_byte_offset f) of None \<Rightarrow> acc
         | Some v \<Rightarrow>
             (let pn = pointee_name (fi_type_info f) in
              case map_of reg pn of
                Some ti \<Rightarrow>
                  (if bt_get (st_map (fst acc)) v \<noteq> None \<or> \<not> known_target tr mem v then acc
                   else (fst acc, snd acc @ [(fi_name f, v, ti)]))
              | None \<Rightarrow>
                  (case strip_char (CHR ''*'') pn of None \<Rightarrow> acc
                   | Some inner \<Rightarrow>
                       (case map_of reg inner of None \<Rightarrow> acc
                        | Some iti \<Rightarrow>
                            (if known_target tr mem v \<and> st_indirect (fst acc) v = None
                             then ((fst acc)\<lparr>st_indirect := (st_indirect (fst acc))(v \<mapsto> iti),
                                     st_indirect_registrations := st_indirect_registrations (fst acc) + 1\<rparr>, snd acc)
                             else acc))))))"

text \<open>The candidates are stamped in the order of the field names, each address once.  The result
  has the addresses stamped, which are also the ones to visit next.\<close>

fun stamp_candidates ::
  "u64 \<Rightarrow> scan_candidate list \<Rightarrow> shadow_type_map \<Rightarrow> u64 set \<Rightarrow> shadow_type_map \<times> u64 set \<times> u64 list" where
  "stamp_candidates sq [] stm visited = (stm, visited, [])"
| "stamp_candidates sq ((name, v, ti) # cs) stm visited =
     (if v \<in> visited then stamp_candidates sq cs stm visited
      else
        (case stamp_candidates sq cs (fst (stamp_type v ti name sq stm)) (insert v visited) of
           (stm', visited', added) \<Rightarrow> (stm', visited', v # added)))"

definition scan_object ::
  "registry \<Rightarrow> alloc_tracker \<Rightarrow> read_word option \<Rightarrow> 'f heap_graph \<Rightarrow> u64 \<Rightarrow> u64 \<Rightarrow> type_info
     \<Rightarrow> shadow_type_map \<Rightarrow> u64 set \<Rightarrow> shadow_type_map \<times> u64 set \<times> u64 list" where
  "scan_object reg tr mem g sq base ti stm visited =
     (case fold (scan_field reg tr mem base (hg_object_at base g)) (ti_fields ti) (stm, []) of
        (stm1, cs) \<Rightarrow> stamp_candidates sq (sort_key fst cs) stm1 visited)"

lemma budget_step: "\<not> fuel \<le> stamped \<Longrightarrow> added = [] \<or> fuel - (stamped + length added) < fuel - (stamped :: nat)"
  by (cases added) auto

function scan_loop ::
  "registry \<Rightarrow> alloc_tracker \<Rightarrow> read_word option \<Rightarrow> 'f heap_graph \<Rightarrow> u64 \<Rightarrow> nat
     \<Rightarrow> u64 list \<Rightarrow> u64 set \<Rightarrow> nat \<Rightarrow> shadow_type_map \<Rightarrow> shadow_type_map \<times> nat" where
  "scan_loop reg tr mem g sq fuel [] visited stamped stm = (stm, stamped)"
| "scan_loop reg tr mem g sq fuel (base # queue) visited stamped stm =
     (if fuel \<le> stamped then (stm, stamped)
      else
        (case bt_get (st_map stm) base of
           None \<Rightarrow> scan_loop reg tr mem g sq fuel queue visited stamped stm
         | Some p \<Rightarrow>
             (let res = scan_object reg tr mem g sq base (tp_type_info p) stm visited;
                  added = snd (snd res)
              in scan_loop reg tr mem g sq fuel (queue @ added) (fst (snd res)) (stamped + length added) (fst res))))"
  by pat_completeness auto
termination
proof (relation "measures [\<lambda>(reg, tr, mem, g, sq, fuel, queue, visited, stamped, stm). fuel - stamped,
    \<lambda>(reg, tr, mem, g, sq, fuel, queue, visited, stamped, stm). length queue]", goal_cases)
  case (3 reg tr mem g sq fuel base queue visited stamped stm p res added)
  from budget_step [OF 3(1), of added] show ?case by auto
qed auto

definition retrospective_scan ::
  "u64 \<Rightarrow> 'f heap_graph \<Rightarrow> alloc_tracker \<Rightarrow> registry \<Rightarrow> u64 \<Rightarrow> read_word option \<Rightarrow> shadow_type_map
     \<Rightarrow> shadow_type_map \<times> nat" where
  "retrospective_scan seed g tr reg sq mem stm =
     scan_loop reg tr mem g sq (scan_fuel seed stm) [seed] {seed} 0 stm"


subsection \<open>What a scan may change\<close>

text \<open>
  \<open>scan_ext ok s t\<close>: the projections of \<open>s\<close> are in \<open>t\<close> as they are, those that are new are at
  addresses that satisfy \<open>ok\<close>, and the other parts of the map, apart from the registrations of
  pointer arrays, are those of \<open>s\<close>.
\<close>

definition scan_ext :: "(u64 \<Rightarrow> bool) \<Rightarrow> shadow_type_map \<Rightarrow> shadow_type_map \<Rightarrow> bool" where
  "scan_ext ok s t \<longleftrightarrow> st_inv t \<and> bt_get (st_map s) \<subseteq>\<^sub>m bt_get (st_map t) \<and>
     dom (bt_get (st_map t)) \<subseteq> dom (bt_get (st_map s)) \<union> Collect ok \<and>
     st_deferred t = st_deferred s \<and> st_schism_count t = st_schism_count s \<and>
     st_pool_reuse_count t = st_pool_reuse_count s \<and> st_addr_schisms t = st_addr_schisms s \<and>
     st_indirect s \<subseteq>\<^sub>m st_indirect t"

lemma scan_ext_refl: "st_inv s \<Longrightarrow> scan_ext ok s s"
  by (simp add: scan_ext_def)

lemma scan_ext_trans: "scan_ext ok s t \<Longrightarrow> scan_ext ok t u \<Longrightarrow> scan_ext ok s u"
  unfolding scan_ext_def by (elim conjE, intro conjI) (blast intro: map_le_trans | simp)+

lemma stamp_new:
  assumes "st_inv s" "bt_get (st_map s) a = None" "ok a"
  shows "scan_ext ok s (fst (stamp_type a ti name sq s))"
    "\<And>b. b \<noteq> a \<Longrightarrow> bt_get (st_map (fst (stamp_type a ti name sq s))) b = bt_get (st_map s) b"
proof -
  have b: "bt_inv (st_map s)" using assms(1) by (simp add: st_inv_def)
  show "scan_ext ok s (fst (stamp_type a ti name sq s))"
    using assms stamp_type_inv [OF assms(1), of a ti name sq]
    by (auto simp: scan_ext_def stamp_type_def Let_def bt.get_ins [OF b] map_le_def dom_def)
  show "\<And>b. b \<noteq> a \<Longrightarrow> bt_get (st_map (fst (stamp_type a ti name sq s))) b = bt_get (st_map s) b"
    using assms by (auto simp: stamp_type_def Let_def bt.get_ins [OF b])
qed

lemma stamp_candidates_spec:
  assumes "st_inv s" "\<forall>(name, v, ti) \<in> set cs. ok v \<and> (v \<in> visited \<or> bt_get (st_map s) v = None)"
    and "stamp_candidates sq cs s visited = (t, visited', added)"
  shows "scan_ext ok s t \<and> visited' = visited \<union> set added \<and> length added \<le> length cs \<and>
    distinct added \<and> set added \<inter> visited = {}"
  using assms
proof (induction cs arbitrary: s visited t visited' added)
  case Nil
  then show ?case by (auto simp: scan_ext_refl)
next
  case (Cons c cs)
  obtain name v ti where c: "c = (name, v, ti)" by (cases c)
  show ?case
  proof (cases "v \<in> visited")
    case True
    with Cons.prems(3) have "stamp_candidates sq cs s visited = (t, visited', added)" by (simp add: c)
    from Cons.IH [OF Cons.prems(1) _ this] Cons.prems(2) show ?thesis by fastforce
  next
    case False
    with Cons.prems(2) have v: "ok v" "bt_get (st_map s) v = None" by (auto simp: c)
    let ?s1 = "fst (stamp_type v ti name sq s)"
    note one = stamp_new [where ok = ok, OF Cons.prems(1) v(2) v(1), where ti = ti and name = name and sq = sq]
    obtain add1 where rest: "stamp_candidates sq cs ?s1 (insert v visited) = (t, visited', add1)" "added = v # add1"
      using Cons.prems(3) False by (auto simp: c split: prod.splits)
    have pre: "\<forall>(name, w, ti) \<in> set cs. ok w \<and> (w \<in> insert v visited \<or> bt_get (st_map ?s1) w = None)"
      using Cons.prems(2) one(2) by auto
    have "st_inv ?s1" using one(1) by (simp add: scan_ext_def)
    from Cons.IH [OF this pre rest(1)] scan_ext_trans [OF one(1)] rest(2) False show ?thesis by auto
  qed
qed

lemma scan_field_spec:
  assumes "st_inv (fst acc)" "\<forall>(name, v, ti) \<in> set (snd acc). known_target tr mem v \<and> bt_get (st_map (fst acc)) v = None"
    and acc': "acc' = scan_field reg tr mem base ho f acc"
  shows "scan_ext (known_target tr mem) (fst acc) (fst acc') \<and> st_map (fst acc') = st_map (fst acc) \<and>
    length (snd acc') \<le> length (snd acc) + (if ptr_field f then 1 else 0) \<and>
    (\<forall>(name, v, ti) \<in> set (snd acc'). known_target tr mem v \<and> bt_get (st_map (fst acc')) v = None)"
proof -
  obtain s cs where acc: "acc = (s, cs)" by (cases acc)
  have r: "scan_ext (known_target tr mem) s s" using assms(1) by (simp add: acc scan_ext_refl)
  have i: "scan_ext (known_target tr mem) s
      (s\<lparr>st_indirect := (st_indirect s)(v \<mapsto> iti), st_indirect_registrations := n\<rparr>)"
    if "st_indirect s v = None" for v iti n
    using assms(1) that by (auto simp: acc scan_ext_def st_inv_def map_le_def dom_def)
  show ?thesis
    unfolding acc' using assms(2) r i
    by (simp add: acc scan_field_def Let_def split: option.split)
qed

lemma scan_fields_spec:
  assumes "st_inv (fst acc)" "\<forall>(name, v, ti) \<in> set (snd acc). known_target tr mem v \<and> bt_get (st_map (fst acc)) v = None"
    and acc': "acc' = fold (scan_field reg tr mem base ho) fs acc"
  shows "scan_ext (known_target tr mem) (fst acc) (fst acc') \<and> st_map (fst acc') = st_map (fst acc) \<and>
    length (snd acc') \<le> length (snd acc) + length (filter ptr_field fs) \<and>
    (\<forall>(name, v, ti) \<in> set (snd acc'). known_target tr mem v \<and> bt_get (st_map (fst acc')) v = None)"
  using assms(1,2) unfolding acc'
proof (induction fs arbitrary: acc)
  case Nil
  then show ?case by (simp add: scan_ext_refl)
next
  case (Cons f fs)
  note one = scan_field_spec [OF Cons.prems refl, of reg base ho f]
  then have "st_inv (fst (scan_field reg tr mem base ho f acc))" by (simp add: scan_ext_def)
  from Cons.IH [OF this] one scan_ext_trans [of "known_target tr mem" "fst acc"] show ?case
    by (fastforce split: if_splits)
qed

lemma scan_object_spec:
  assumes "st_inv s" "scan_object reg tr mem g sq base ti s visited = (t, visited', added)"
  shows "scan_ext (known_target tr mem) s t \<and> visited' = visited \<union> set added \<and>
    length added \<le> length (filter ptr_field (ti_fields ti)) \<and> distinct added \<and> set added \<inter> visited = {}"
proof -
  obtain s1 cs where f: "fold (scan_field reg tr mem base (hg_object_at base g)) (ti_fields ti) (s, []) = (s1, cs)"
    by fastforce
  note fs = scan_fields_spec [of "(s, [])" tr mem _ reg base "hg_object_at base g" "ti_fields ti", OF _ _ refl, unfolded f, simplified, OF assms(1)]
  have "st_inv s1" using fs by (simp add: scan_ext_def)
  moreover have "\<forall>(name, v, ti) \<in> set (sort_key fst cs). known_target tr mem v \<and> (v \<in> visited \<or> bt_get (st_map s1) v = None)"
    using fs by auto
  moreover have "stamp_candidates sq (sort_key fst cs) s1 visited = (t, visited', added)"
    using assms(2) by (simp add: scan_object_def f)
  ultimately have "scan_ext (known_target tr mem) s1 t \<and> visited' = visited \<union> set added \<and> length added \<le> length cs \<and>
      distinct added \<and> set added \<inter> visited = {}"
    using stamp_candidates_spec [of s1 "sort_key fst cs" "known_target tr mem" visited sq t visited' added] by simp
  with fs scan_ext_trans show ?thesis by fastforce
qed

lemma scan_loop_spec:
  assumes "st_inv s" "scan_loop reg tr mem g sq fuel queue visited n s = (t, m)"
  shows "scan_ext (known_target tr mem) s t \<and> n \<le> m"
  using assms
proof (induction reg tr mem g sq fuel queue visited n s arbitrary: t m rule: scan_loop.induct)
  case (2 reg tr mem g sq fuel base queue visited stamped stm)
  show ?case
  proof (cases "fuel \<le> stamped")
    case True
    with 2(3,4) show ?thesis by (auto simp: scan_ext_refl)
  next
    case go: False
    show ?thesis
    proof (cases "bt_get (st_map stm) base")
      case None
      with 2(1) [OF go None 2(3)] 2(4) go show ?thesis by simp
    next
      case (Some p)
      obtain s1 v1 added where r: "scan_object reg tr mem g sq base (tp_type_info p) stm visited = (s1, v1, added)"
        by (cases "scan_object reg tr mem g sq base (tp_type_info p) stm visited") auto
      note one = scan_object_spec [OF 2(3) r]
      then have "st_inv s1" by (simp add: scan_ext_def)
      with 2(2) [OF go Some refl refl, of t m] 2(4) go Some r
      have "scan_ext (known_target tr mem) s1 t \<and> stamped + length added \<le> m" by simp
      with one scan_ext_trans show ?thesis by fastforce
    qed
  qed
qed (simp add: scan_ext_refl)

lemma retrospective_scan_ext:
  "st_inv s \<Longrightarrow> scan_ext (known_target tr mem) s (fst (retrospective_scan seed g tr reg sq mem s))"
  using scan_loop_spec [of s reg tr mem g sq "scan_fuel seed s" "[seed]" "{seed}" 0
      "fst (retrospective_scan seed g tr reg sq mem s)" "snd (retrospective_scan seed g tr reg sq mem s)"]
  by (simp add: retrospective_scan_def)

lemma scan_ext_inv: "scan_ext ok s t \<Longrightarrow> st_inv t"
  by (simp add: scan_ext_def)

text \<open>
  C31 (safety).  A retrospective scan ends and only adds types: every object that was typed keeps
  its projection, an address typed anew is a live allocation or, when memory was read, a non-null
  aligned value above the first page, and neither a schism nor a deferred write is touched.  Without
  a memory reader only live allocations are typed.
\<close>

theorem retrospective_scan_safe:
  assumes "st_inv s" "retrospective_scan seed g tr reg sq mem s = (t, n)"
  shows "st_inv t \<and>
    (\<forall>a p. bt_get (st_map s) a = Some p \<longrightarrow> bt_get (st_map t) a = Some p) \<and>
    (\<forall>a. bt_get (st_map s) a = None \<longrightarrow> bt_get (st_map t) a \<noteq> None \<longrightarrow>
       a \<noteq> 0 \<and> (alloc_size tr a \<noteq> None \<or> mem \<noteq> None \<and> 0x1000 < a \<and> a AND 7 = 0)) \<and>
    st_deferred t = st_deferred s \<and> st_schism_count t = st_schism_count s \<and>
    st_pool_reuse_count t = st_pool_reuse_count s"
proof -
  have ext: "scan_ext (known_target tr mem) s t"
    using retrospective_scan_ext [OF assms(1), of tr mem seed g reg sq] assms(2) by simp
  have "a \<noteq> 0" if "bt_get (st_map t) a \<noteq> None" for a
  proof -
    from that obtain p where "bt_get (st_map t) a = Some p" by blast
    then have "(a, p) \<in> set (st_map t)" by (rule map_of_SomeD)
    with ext show ?thesis by (auto simp: scan_ext_def st_inv_def list_all_iff proj_ok_def)
  qed
  with ext show ?thesis
    by (auto simp: scan_ext_def known_target_def map_le_def dom_def)
qed

text \<open>A list of three nodes, the first stamped; the second is known from the heap graph, the third from memory.\<close>

definition scan_demo_mem :: read_word where
  "scan_demo_mem a = (if a = 8192 then Some 12288 else if a = 4096 then Some 8192 else None)"

theorem retrospective_scan_safe_witness:
  "(case retrospective_scan 4096 (hg_new :: nat heap_graph) at_new [(''node'', node_type)] 5 (Some scan_demo_mem) chain_stm of
     (t, n) \<Rightarrow> n = 2 \<and> bt_get (st_map t) 8192 \<noteq> None \<and> bt_get (st_map t) 12288 \<noteq> None \<and>
       bt_get (st_map t) 4096 = bt_get (st_map chain_stm) 4096)"
proof -
  have inv: "st_inv chain_stm" by code_simp
  have seed: "bt_get (st_map chain_stm) 4096 \<noteq> None" by code_simp
  have r: "(case retrospective_scan 4096 (hg_new :: nat heap_graph) at_new [(''node'', node_type)] 5 (Some scan_demo_mem) chain_stm of
     (t, n) \<Rightarrow> n = 2 \<and> bt_get (st_map t) 8192 \<noteq> None \<and> bt_get (st_map t) 12288 \<noteq> None)" by code_simp
  obtain t n where t: "retrospective_scan 4096 (hg_new :: nat heap_graph) at_new [(''node'', node_type)] 5
      (Some scan_demo_mem) chain_stm = (t, n)" by fastforce
  obtain p where "bt_get (st_map chain_stm) 4096 = Some p"
    by (cases "bt_get (st_map chain_stm) 4096") (simp_all add: seed)
  with r retrospective_scan_safe [OF inv t] show ?thesis by (simp add: t)
qed

end
