(* ===== verification/World_Full.thy ===== *)
theory World_Full
  imports Retro_Scan Shadow_Stack Cache_Lines Field_Heatmap Type_Epochs Write_Checks
begin

text \<open>
  \<open>WorldState\<close> of \<^verbatim>\<open>engine/src/world.rs\<close>: the pointer graph with its cache heat, and the structures
  the other theories model, in one record; the operations that only delegate are not repeated.
  The memory of the process is a parameter of the operations that read it.
\<close>

record 'f miss_entry =
  cm_count :: u32
  cm_heat :: 'f

type_synonym 'f cache_heatmap = "node_id \<rightharpoonup> 'f miss_entry"

definition record_miss :: "'f f32_ops \<Rightarrow> node_id \<Rightarrow> 'f cache_heatmap \<Rightarrow> 'f cache_heatmap" where
  "record_miss F nid m =
     (let e = (case m nid of Some e \<Rightarrow> e | None \<Rightarrow> \<lparr>cm_count = 0, cm_heat = f_lit F 0 1\<rparr>)
      in m(nid \<mapsto> \<lparr>cm_count = cm_count e + 1,
                     cm_heat = f_min F (f_add F (cm_heat e) (f_lit F 1 1)) (f_lit F 1 1)\<rparr>))"

definition heat_tick :: "'f f32_ops \<Rightarrow> 'f cache_heatmap \<Rightarrow> 'f cache_heatmap" where
  "heat_tick F m = (\<lambda>nid. case m nid of None \<Rightarrow> None
     | Some e \<Rightarrow> (let h = f_mul F (cm_heat e) (f_lit F 95 100)
                  in if f_lt F (f_lit F 1 100) h then Some (e\<lparr>cm_heat := h\<rparr>) else None))"

record 'f world_state =
  ws_inner :: world_inner
  ws_cache_heat :: "'f cache_heatmap"
  ws_cl_tracker :: cl_tracker
  ws_stm :: shadow_type_map
  ws_heap_allocs :: alloc_tracker
  ws_hazards :: "heap_hazard list"
  ws_field_heatmap :: field_heatmap
  ws_bb_hits :: "u32 \<rightharpoonup> u64"
  ws_type_stability :: type_stability
  ws_type_epochs :: type_epoch_log
  ws_last_alloc_event_count :: u64
  ws_total_event_count :: u64
  ws_unknown_event_kinds :: u64

definition ws_new :: "'f world_state" where
  "ws_new = \<lparr>ws_inner = wi_new, ws_cache_heat = Map.empty, ws_cl_tracker = cl_new, ws_stm = st_new,
     ws_heap_allocs = at_new, ws_hazards = [], ws_field_heatmap = fh_new, ws_bb_hits = Map.empty,
     ws_type_stability = ts_new, ws_type_epochs = el_new 65536, ws_last_alloc_event_count = 0,
     ws_total_event_count = 0, ws_unknown_event_kinds = 0\<rparr>"

definition record_bb_entry :: "u32 \<Rightarrow> 'f world_state \<Rightarrow> 'f world_state" where
  "record_bb_entry rip w =
     w\<lparr>ws_bb_hits := (ws_bb_hits w)(rip \<mapsto> (case ws_bb_hits w rip of None \<Rightarrow> 0 | Some n \<Rightarrow> n) + 1),
       ws_inner := inc_insn_counter (ws_inner w)\<rparr>"

definition record_cache_miss :: "'f f32_ops \<Rightarrow> node_id \<Rightarrow> 'f world_state \<Rightarrow> 'f world_state" where
  "record_cache_miss F nid w = w\<lparr>ws_cache_heat := record_miss F nid (ws_cache_heat w)\<rparr>"

definition record_cl_write :: "u64 \<Rightarrow> u16 \<Rightarrow> 'f world_state \<Rightarrow> 'f world_state \<times> u16" where
  "record_cl_write a tid w =
     (case record_write a tid (ws_cl_tracker w) of (t, m) \<Rightarrow> (w\<lparr>ws_cl_tracker := t\<rparr>, m))"

text \<open>
  Violations are stored up to a bound, but every violation is reported: once the store is full, the
  violation that is reported to the caller is not the last one stored.
\<close>

lemma full_store_keeps_last:
  assumes "128 \<le> length (ts_violations m)" "ts_check_write a wsz p pc m = (m', True)"
  shows "ts_violations m' = ts_violations m"
  using assms
  by (auto simp: ts_check_write_def Let_def record_violation_def split: option.splits if_splits)

end
