(* ===== verification/Reconciler.thy ===== *)
theory Reconciler
  imports World_Full Topology
begin

text \<open>
  The event reconciler of \<^verbatim>\<open>engine/src/reconciler.rs\<close>: the state of the engine, the registration of
  the globals, and what each kind of event does to the state.  \<open>process_event\<close> has one definition
  for each arm of its match, which are composed as the code composes them; the arm of a write is
  cut into its blocks.

  The outcome \<open>Panic\<close> stands for an event whose processing does not return: a Rust panic, or the
  recursion of \<open>patch_shallow_fields\<close> when it exceeds its fuel, a parameter.  The other
  parameters are the floating-point operations, the reader of the process memory, and the debug
  file behind \<open>ensure_type\<close>.  The messages on standard error are not modelled.
\<close>

record lib_dwarf =
  ld_path :: string
  ld_elf_base_vaddr :: u64
  ld_globals :: "global_var list"
  ld_functions :: func_map

record dwarf_info =
  di_globals :: "global_var list"
  di_functions :: func_map
  di_elf_base_vaddr :: u64
  di_type_registry :: registry
  di_cfi :: "cfi_entry list"
  di_container_of :: "string \<rightharpoonup> container_of_entry list"
  di_lib_globals :: "lib_dwarf list"
  di_alloc_oracle :: alloc_site_oracle
  di_types_materialized :: u64
  di_entries :: "dwarf_entries option"

record 'f engine =
  en_world :: "'f world_state"
  en_index :: address_index
  en_dwarf :: "dwarf_info option"
  en_stacks :: "u16 \<rightharpoonup> shadow_stack"
  en_next_frame :: frame_id
  en_delta :: "u64 option"
  en_returned :: "frame_id list"
  en_regs :: "u16 \<rightharpoonup> shadow_register_file"
  en_heap :: "'f heap_graph"
  en_oracle :: heap_oracle
  en_topo :: "topology_stream option"
  en_orch :: ring_orchestrator

definition EVENT_WRITE :: u8 where "EVENT_WRITE = 0"
definition EVENT_READ :: u8 where "EVENT_READ = 1"
definition EVENT_CALL :: u8 where "EVENT_CALL = 2"
definition EVENT_RETURN :: u8 where "EVENT_RETURN = 3"
definition EVENT_CACHE_MISS :: u8 where "EVENT_CACHE_MISS = 6"
definition EVENT_MODULE_LOAD :: u8 where "EVENT_MODULE_LOAD = 7"
definition EVENT_TAIL_CALL :: u8 where "EVENT_TAIL_CALL = 8"
definition EVENT_ALLOC :: u8 where "EVENT_ALLOC = 9"
definition EVENT_FREE :: u8 where "EVENT_FREE = 10"
definition EVENT_BB_ENTRY :: u8 where "EVENT_BB_ENTRY = 11"
definition EVENT_RELOAD :: u8 where "EVENT_RELOAD = 12"
definition EVENT_PROCESS_FORK :: u8 where "EVENT_PROCESS_FORK = 13"
definition EVENT_SHARED_MAP :: u8 where "EVENT_SHARED_MAP = 14"

text \<open>Updates of the parts, and the emission of a line when there is a stream.\<close>

definition upd_world :: "('f world_state \<Rightarrow> 'f world_state) \<Rightarrow> 'f engine \<Rightarrow> 'f engine" where
  "upd_world g en = en\<lparr>en_world := g (en_world en)\<rparr>"

definition upd_inner :: "(world_inner \<Rightarrow> world_inner) \<Rightarrow> 'f engine \<Rightarrow> 'f engine" where
  "upd_inner g = upd_world (\<lambda>w. w\<lparr>ws_inner := g (ws_inner w)\<rparr>)"

definition upd_stm :: "(shadow_type_map \<Rightarrow> shadow_type_map) \<Rightarrow> 'f engine \<Rightarrow> 'f engine" where
  "upd_stm g = upd_world (\<lambda>w. w\<lparr>ws_stm := g (ws_stm w)\<rparr>)"

definition emit_topo :: "jfields \<Rightarrow> 'f engine \<Rightarrow> 'f engine" where
  "emit_topo fs en = en\<lparr>en_topo := map_option (emit fs) (en_topo en)\<rparr>"

abbreviation stm_of :: "'f engine \<Rightarrow> shadow_type_map" where "stm_of en \<equiv> ws_stm (en_world en)"
abbreviation allocs_of :: "'f engine \<Rightarrow> alloc_tracker" where "allocs_of en \<equiv> ws_heap_allocs (en_world en)"
abbreviation inner_of :: "'f engine \<Rightarrow> world_inner" where "inner_of en \<equiv> ws_inner (en_world en)"
abbreviation sq64 :: "event \<Rightarrow> u64" where "sq64 ev \<equiv> ucast (seq32 ev)"

definition srf_of :: "u16 \<Rightarrow> 'f engine \<Rightarrow> shadow_register_file" where
  "srf_of tid en = (case en_regs en tid of Some rf \<Rightarrow> rf | None \<Rightarrow> rf_new)"

definition upd_srf :: "u16 \<Rightarrow> (shadow_register_file \<Rightarrow> shadow_register_file) \<Rightarrow> 'f engine \<Rightarrow> 'f engine" where
  "upd_srf tid g en = en\<lparr>en_regs := (en_regs en)(tid \<mapsto> g (srf_of tid en))\<rparr>"

definition elf_pc :: "'f engine \<Rightarrow> u64 \<Rightarrow> u64" where
  "elf_pc en a = (case en_delta en of Some d \<Rightarrow> a - d | None \<Rightarrow> a)"


subsection \<open>Register snapshots\<close>

text \<open>The register values of the six continuation slots, three in each.\<close>

definition snapshot_regs :: "event list \<Rightarrow> u64 list" where
  "snapshot_regs cont = concat (map (\<lambda>c. [e_addr c, ucast (e_size c), e_value c]) cont)"

definition apply_reg_snapshot :: "event list \<Rightarrow> 'f engine \<Rightarrow> 'f engine \<times> nat" where
  "apply_reg_snapshot evs en =
     (if evs = [] \<or> kind (hd evs) \<noteq> EVENT_REG_SNAPSHOT then (en, 0)
      else if length evs < 7 then (en, 1)
      else
        (let cont = take 6 (tl evs); header = hd evs in
         if \<not> list_all (\<lambda>c. kind c = EVENT_REG_SNAPSHOT) cont then (en, 1)
         else
           (let regs = snapshot_regs cont;
                en1 = upd_inner (update_regs regs (e_addr header)) en
            in (upd_srf (e_thread_id header)
                  (rf_apply_snapshot regs (ucast (e_seq header)) (e_addr header)) en1, 7))))"


subsection \<open>Registration of the globals\<close>

definition renew_node :: "node_id \<Rightarrow> string \<Rightarrow> type_info \<Rightarrow> u64 \<Rightarrow> u64 \<Rightarrow> world_inner \<Rightarrow> world_inner" where
  "renew_node i name ti a sz w = fst (ensure_node i name ti a sz (remove_node i w))"

type_synonym reg_state = "u16 \<times> address_index \<times> world_inner"

text \<open>
  \<open>register_fields_recursive\<close>, by the depth that is left; the source's \<open>depth\<close> is \<open>7\<close> less the first
  argument.  The early return at the last field number skips the rest of the fields.
\<close>

primrec register_fields :: "nat \<Rightarrow> string \<Rightarrow> u64 \<Rightarrow> type_info \<Rightarrow> u32 \<Rightarrow> reg_state \<Rightarrow> reg_state" where
  "register_fields 0 parent base ty gi st = st"
| "register_fields (Suc left) parent base ty gi st =
     fold (\<lambda>f st.
       if fi_byte_size f = 0 \<or> fi_name f = ''<pointee>'' then st
       else
         (case st of (fi, idx, w) \<Rightarrow>
            (if fi = - 1 then st
             else
               (let faddr = base + fi_byte_offset f; q = parent @ ''.'' @ fi_name f;
                    st1 = (fi + 1, ai_insert_field faddr (fi_byte_size f) q (fi_type_info f) gi fi idx,
                           renew_node (N_Field gi fi) q (fi_type_info f) faddr (fi_byte_size f) w)
                in if \<not> ti_is_pointer (fi_type_info f) \<and> ti_fields (fi_type_info f) \<noteq> [] \<and> 8 < fi_byte_size f
                   then register_fields left q faddr (fi_type_info f) gi st1 else st1))))
       (ti_fields ty) st"

text \<open>
  A global and its fields, at its relocated address; \<open>node\<close> makes the node of the global.  A global
  of a structure type is stamped at once.
\<close>

definition place_global ::
  "(node_id \<Rightarrow> string \<Rightarrow> type_info \<Rightarrow> u64 \<Rightarrow> u64 \<Rightarrow> world_inner \<Rightarrow> world_inner) \<Rightarrow> u64 \<Rightarrow> u32 \<Rightarrow> global_var \<Rightarrow>
     address_index \<times> world_inner \<times> shadow_type_map \<Rightarrow> address_index \<times> world_inner \<times> shadow_type_map" where
  "place_global node delta gi g st =
     (case st of (idx, w, stm) \<Rightarrow>
        (let base = gv_addr g + delta; ty = gv_type_info g;
             idx1 = ai_insert_global base (gv_size g) (gv_name g) ty gi idx;
             w1 = node (N_Global gi) (gv_name g) ty base (gv_size g) w;
             stm1 = (if ti_fields ty \<noteq> [] \<and> 0 < ti_byte_size ty then fst (stamp_type base ty (gv_name g) 0 stm) else stm)
         in if ti_is_pointer ty then (idx1, w1, stm1)
            else (case register_fields 7 (gv_name g) base ty gi (0, idx1, w1) of (_, idx2, w2) \<Rightarrow> (idx2, w2, stm1))))"

definition populate_global ::
  "u64 \<Rightarrow> nat \<times> global_var \<Rightarrow> address_index \<times> world_inner \<times> shadow_type_map \<Rightarrow> address_index \<times> world_inner \<times> shadow_type_map" where
  "populate_global delta = (\<lambda>(i, g). place_global renew_node delta (of_nat i) g)"

definition populate_globals :: "dwarf_info \<Rightarrow> u64 \<Rightarrow> 'f engine \<Rightarrow> 'f engine" where
  "populate_globals info delta en =
     (case fold (populate_global delta) (enumerate 0 (di_globals info)) (en_index en, inner_of en, stm_of en) of
        (idx, w, stm) \<Rightarrow>
          en\<lparr>en_index := ai_finalize idx, en_world := (en_world en)\<lparr>ws_inner := w, ws_stm := stm\<rparr>\<rparr>)"


subsection \<open>The globals of the libraries\<close>

text \<open>
  The table of the loaded modules, which the tracer writes to a file, is a parameter: pairs of a base
  address and a path.  Nothing is registered before every library has been found in it.
\<close>

type_synonym module_table = "(u64 \<times> string) list"

definition base_name :: "string \<Rightarrow> string" where
  "base_name path = rev (takeWhile (\<lambda>c. c \<noteq> CHR ''/'') (rev path))"

definition lib_delta :: "module_table \<Rightarrow> lib_dwarf \<Rightarrow> u64 option" where
  "lib_delta tab lg =
     map_option (\<lambda>(base, _). base - ld_elf_base_vaddr lg)
       (find (\<lambda>(_, path). path = ld_path lg \<or> base_name path = base_name (ld_path lg)) tab)"

definition ensure_global :: "node_id \<Rightarrow> string \<Rightarrow> type_info \<Rightarrow> u64 \<Rightarrow> u64 \<Rightarrow> world_inner \<Rightarrow> world_inner" where
  "ensure_global i n ti a sz w = fst (ensure_node i n ti a sz w)"

definition relocate_function :: "u64 \<Rightarrow> u64 \<times> function_meta \<Rightarrow> func_map \<Rightarrow> func_map" where
  "relocate_function delta = (\<lambda>(pc, f). bt_insert (pc + delta) (f\<lparr>fm_low_pc := pc + delta, fm_high_pc := fm_high_pc f + delta\<rparr>))"

definition lib_entries :: "(u64 \<times> lib_dwarf) list \<Rightarrow> (u64 \<times> global_var) list" where
  "lib_entries dls = concat (map (\<lambda>(d, lg). map (Pair d) (ld_globals lg)) dls)"

definition populate_lib_globals :: "module_table \<Rightarrow> dwarf_info \<Rightarrow> 'f engine \<Rightarrow> 'f engine \<times> nat \<times> nat" where
  "populate_lib_globals tab info en =
     (let deltas = map (lib_delta tab) (di_lib_globals info) in
      if tab = [] \<or> None \<in> set deltas then (en, 0, 0)
      else
        (let dls = zip (map the deltas) (di_lib_globals info);
             gs = lib_entries dls; first = of_nat (length (di_globals info));
             fns = fold (\<lambda>(d, lg). fold (relocate_function d) (ld_functions lg)) dls (di_functions info)
         in case fold (\<lambda>(i, d, g). place_global ensure_global d (first + of_nat i) g) (enumerate 0 gs)
                   (en_index en, inner_of en, stm_of en) of
              (idx, w, stm) \<Rightarrow>
                (en\<lparr>en_index := if gs = [] then idx else ai_finalize idx,
                    en_world := (en_world en)\<lparr>ws_inner := w, ws_stm := stm\<rparr>,
                    en_dwarf := Some (info\<lparr>di_functions := fns\<rparr>)\<rparr>,
                 length gs, sum_list (map (\<lambda>lg. length (ld_functions lg)) (di_lib_globals info)))))"


subsection \<open>Calls and returns\<close>

text \<open>The run-time address of a local at the entry of its function.\<close>

definition local_address ::
  "function_meta \<Rightarrow> u64 \<Rightarrow> u64 list \<Rightarrow> u64 \<Rightarrow> local_var \<Rightarrow> u64 outcome" where
  "local_address f pc regs fb l =
     (let piece = (case lt_lookup (lv_location l) pc of Some p \<Rightarrow> Some p
                   | None \<Rightarrow> (case lv_location l of [] \<Rightarrow> None | (_, p) # _ \<Rightarrow> Some p));
          default = fb + lv_frame_offset l
      in case piece of
           None \<Rightarrow> Value default
         | Some (FrameBaseOffset _) \<Rightarrow> Value default
         | Some (RegisterOffset _ _) \<Rightarrow> Value default
         | Some p \<Rightarrow>
             (case resolve_location p regs fb (fm_frame_base_is_cfa f) of
                Panic \<Rightarrow> Panic
              | Value None \<Rightarrow> Value default
              | Value (Some a) \<Rightarrow> Value a))"

fun place_locals ::
  "function_meta \<Rightarrow> u64 \<Rightarrow> u64 \<Rightarrow> frame_id \<Rightarrow> (nat \<times> local_var) list \<Rightarrow> world_inner \<Rightarrow> world_inner outcome" where
  "place_locals f pc fb fid [] w = Value w"
| "place_locals f pc fb fid ((li, l) # ls) w =
     (case local_address f pc (lrf_values (wi_reg_file w)) fb l of
        Panic \<Rightarrow> Panic
      | Value a \<Rightarrow>
          place_locals f pc fb fid ls (fst (ensure_node (N_Local fid (of_nat li)) (lv_name l) (lv_type_info l) a (lv_size l) w)))"

definition stack_of :: "u16 \<Rightarrow> 'f engine \<Rightarrow> shadow_stack" where
  "stack_of tid en = (case en_stacks en tid of Some s \<Rightarrow> s | None \<Rightarrow> ss_new)"

definition frame_locals :: "function_meta \<Rightarrow> frame_local list" where
  "frame_locals f = map (\<lambda>l. (lv_frame_offset l, lv_size l, lv_name l, lv_type_info l)) (fm_locals f)"

definition enter_function :: "event \<Rightarrow> u64 \<Rightarrow> function_meta \<Rightarrow> 'f engine \<Rightarrow> 'f engine outcome" where
  "enter_function ev pc f en =
     (let fid = en_next_frame en; tid = e_thread_id ev;
          en1 = en\<lparr>en_next_frame := fid + 1,
                   en_stacks := (en_stacks en)(tid \<mapsto> push_call fid (e_addr ev) (fm_name f) (stack_of tid en))\<rparr>
      in case place_locals f pc (e_value ev) fid (enumerate 0 (fm_locals f)) (inner_of en1) of
           Panic \<Rightarrow> Panic
         | Value w \<Rightarrow>
             (let en2 = upd_inner (\<lambda>_. w) en1 in
              Value (if fm_locals f \<noteq> []
                     then en2\<lparr>en_index := insert_frame_locals fid (e_value ev) (frame_locals f) (en_index en2)\<rparr>
                     else en2)))"

definition on_event_call :: "event \<Rightarrow> 'f engine \<Rightarrow> 'f engine outcome" where
  "on_event_call ev en =
     (let en1 = upd_srf (e_thread_id ev) (rf_on_call (e_addr ev) (e_value ev) (sq64 ev)) en;
          en2 = en1\<lparr>en_oracle := update_stack (e_thread_id ev) (e_value ev) (en_oracle en1)\<rparr>
      in case en_dwarf en2 of None \<Rightarrow> Value en2
         | Some info \<Rightarrow>
             (case bt_get (di_functions info) (elf_pc en2 (e_addr ev)) of None \<Rightarrow> Value en2
              | Some f \<Rightarrow> enter_function ev (elf_pc en2 (e_addr ev)) f en2))"

text \<open>The nodes of a returned frame stay until 32 more frames have returned.\<close>

fun evict_frames :: "frame_id list \<Rightarrow> world_inner \<Rightarrow> frame_id list \<times> world_inner" where
  "evict_frames [] w = ([], w)"
| "evict_frames (f # fs) w =
     (if 32 < length (f # fs) then evict_frames fs (remove_frame_nodes f w) else (f # fs, w))"

definition leave_frame :: "frame_id \<Rightarrow> 'f engine \<Rightarrow> 'f engine" where
  "leave_frame fid en =
     (case evict_frames (en_returned en @ [fid]) (inner_of en) of
        (ret, w) \<Rightarrow> upd_inner (\<lambda>_. w) (en\<lparr>en_index := remove_frame fid (en_index en), en_returned := ret\<rparr>))"

definition return_srf :: "event \<Rightarrow> dwarf_info option \<Rightarrow> shadow_register_file \<Rightarrow> shadow_register_file" where
  "return_srf ev dw rf =
     (case dw of None \<Rightarrow> rf_on_return (sq64 ev) (e_addr ev) rf
      | Some info \<Rightarrow>
          (case Option.bind (rf_callee_pc rf) (saved_regs_at (di_cfi info)) of
             Some saved \<Rightarrow> rf_on_return_cfi (sq64 ev) (e_addr ev) saved rf
           | None \<Rightarrow> rf_on_return (sq64 ev) (e_addr ev) rf))"

definition on_event_return :: "event \<Rightarrow> 'f engine \<Rightarrow> 'f engine" where
  "on_event_return ev en =
     (let tid = e_thread_id ev;
          en1 = upd_srf tid (return_srf ev (en_dwarf en)) en
      in case en_stacks en1 tid of None \<Rightarrow> en1
         | Some s \<Rightarrow>
             (case pop_return s of (s', fr) \<Rightarrow>
                (let en2 = en1\<lparr>en_stacks := (en_stacks en1)(tid \<mapsto> s')\<rparr> in
                 case fr of None \<Rightarrow> en2 | Some f \<Rightarrow> leave_frame (kf_frame_id f) en2)))"

end
