(* ===== verification/Event_Arms.thy ===== *)
theory Event_Arms
  imports Reconciler
begin

text \<open>
  The arms of \<open>process_event\<close> (\<^verbatim>\<open>engine/src/reconciler.rs\<close>) for writes, allocations, frees and reads,
  and \<open>process_event\<close> itself.
\<close>

subsection \<open>Writes: registers and cache lines\<close>

definition write_value :: "event \<Rightarrow> u64" where
  "write_value ev = (if is_truncated ev then 0 else e_value ev)"

text \<open>The address that is written, not the program counter, is what the code relocates and looks up.\<close>

definition write_observe :: "event \<Rightarrow> 'f engine \<Rightarrow> 'f engine" where
  "write_observe ev en =
     (if is_continuation ev then en
      else
        (case en_dwarf en of None \<Rightarrow> en
         | Some info \<Rightarrow>
             (if in_universe (e_addr ev) (en_index en)
              then (let pc = elf_pc en (e_addr ev) in
                    upd_srf (e_thread_id ev)
                      (observe_write (write_value ev) pc (sq64 ev) (func_containing (di_functions info) pc)) en)
              else en)))"

definition write_cohere :: "event \<Rightarrow> u16 \<Rightarrow> 'f engine \<Rightarrow> 'f engine" where
  "write_cohere ev writers en =
     (if \<not> is_truncated ev \<and> \<not> is_continuation ev \<and> 1 < count_ones writers
      then en\<lparr>en_regs := (\<lambda>t. if t = e_thread_id ev then en_regs en t
             else map_option (check_coherence (e_addr ev) (write_value ev) (e_size ev)) (en_regs en t))\<rparr>
      else en)"


subsection \<open>Writes: the typed object under the address\<close>

definition field_covering :: "u64 \<Rightarrow> type_info \<Rightarrow> field_info option" where
  "field_covering off ti = find (\<lambda>f. fi_byte_offset f \<le> off \<and> off < fi_byte_offset f + fi_byte_size f) (ti_fields ti)"

definition unstar :: "string \<Rightarrow> string" where
  "unstar n = (case strip_char (CHR ''*'') n of Some m \<Rightarrow> m | None \<Rightarrow> n)"

fun violation_name :: "violation_kind \<Rightarrow> string" where
  "violation_name Interstitial = ''INTERSTICE''"
| "violation_name Spanning = ''SPANNING''"

fun hazard_name :: "hazard_kind \<Rightarrow> string" where
  "hazard_name OutOfBounds = ''OOB''"
| "hazard_name HeapHole = ''HOLE''"

definition violation_event :: "u64 \<Rightarrow> type_violation \<Rightarrow> jfields" where
  "violation_event sq v = emit_type_violation sq (violation_name (tv_kind v)) (tv_write_addr v) (tv_write_size v)
     (tv_base_addr v) (tv_offset v) (tv_type_name v) (tv_expected_field v) (tv_pc v)"

definition covering_heat :: "event \<Rightarrow> type_projection \<Rightarrow> 'f engine \<Rightarrow> 'f engine" where
  "covering_heat ev p en =
     (let ti = tp_type_info p; off = e_addr ev - tp_base_addr p in
      upd_world (\<lambda>w. w\<lparr>ws_field_heatmap :=
        (case field_covering off ti of
           Some f \<Rightarrow> fh_record (e_thread_id ev) (ti_name ti) (fi_name f) (fi_byte_offset f) (ws_field_heatmap w)
         | None \<Rightarrow> fh_record (e_thread_id ev) (ti_name ti) ''<unresolved>'' off (ws_field_heatmap w))\<rparr>) en)"

definition covering_stability :: "event \<Rightarrow> type_projection \<Rightarrow> 'f engine \<Rightarrow> 'f engine" where
  "covering_stability ev p en =
     (case ts_check_write (e_addr ev) (e_size ev) p (ucast (e_rip_lo ev)) (ws_type_stability (en_world en)) of
        (m, bad) \<Rightarrow>
          (let en1 = upd_world (\<lambda>w. w\<lparr>ws_type_stability := m\<rparr>) en
           in if bad then emit_topo (violation_event (sq64 ev) (last (ts_violations m))) en1 else en1))"

definition covering_link :: "event \<Rightarrow> type_projection \<Rightarrow> 'f engine \<Rightarrow> 'f engine" where
  "covering_link ev p en =
     (let ti = tp_type_info p; off = e_addr ev - tp_base_addr p in
      if e_size ev = 8 \<and> write_value ev \<noteq> 0
      then (case find (\<lambda>f. fi_byte_offset f = off \<and> ti_is_pointer (fi_type_info f)) (ti_fields ti) of
              Some f \<Rightarrow> emit_topo (emit_link (sq64 ev) (ti_name ti) (e_addr ev) (write_value ev)
                          (unstar (ti_name (fi_type_info f))) (fi_name f)) en
            | None \<Rightarrow> en)
      else en)"

definition write_covering :: "event \<Rightarrow> 'f engine \<Rightarrow> 'f engine" where
  "write_covering ev en =
     (case covering (stm_of en) (e_addr ev) of None \<Rightarrow> en
      | Some p \<Rightarrow> covering_link ev p (covering_stability ev p (covering_heat ev p en)))"


subsection \<open>Writes: propagation of types\<close>

definition ensure_in :: "string \<Rightarrow> dwarf_info \<Rightarrow> dwarf_info" where
  "ensure_in name info =
     (case ensure_type (di_entries info) name (di_type_registry info, di_types_materialized info) of
        ((reg, n), _) \<Rightarrow> info\<lparr>di_type_registry := reg, di_types_materialized := n\<rparr>)"

definition scan_from :: "u64 \<Rightarrow> u64 \<Rightarrow> read_word option \<Rightarrow> registry \<Rightarrow> 'f engine \<Rightarrow> 'f engine" where
  "scan_from seed sq mem reg en =
     upd_stm (\<lambda>s. fst (retrospective_scan seed (en_heap en) (allocs_of en) reg sq mem s)) en"

definition emit_stamp_of :: "u64 \<Rightarrow> u64 \<Rightarrow> type_info \<Rightarrow> string \<Rightarrow> 'f engine \<Rightarrow> 'f engine" where
  "emit_stamp_of sq a ti src en =
     emit_topo (emit_stamp sq a (ti_name ti) (ti_byte_size ti) src (length (ti_fields ti))) en"

text \<open>After a stamp: the pointee's type is materialized, and replaces the projection if it was shallow.\<close>

definition deepen_stamp :: "u64 \<Rightarrow> u64 \<Rightarrow> dwarf_info \<Rightarrow> 'f engine \<Rightarrow> 'f engine" where
  "deepen_stamp v sq info en =
     (case bt_get (st_map (stm_of en)) v of None \<Rightarrow> en
      | Some p \<Rightarrow>
          (let tn = ti_name (tp_type_info p); info1 = ensure_in tn info;
               en1 = en\<lparr>en_dwarf := Some info1\<rparr>
           in if ti_shallow (tp_type_info p)
              then (case map_of (di_type_registry info1) tn of
                      Some deep \<Rightarrow>
                        (if \<not> ti_shallow deep
                         then upd_stm (\<lambda>s. fst (stamp_type v deep (tp_source_name p) sq s)) en1 else en1)
                    | None \<Rightarrow> en1)
              else en1))"

definition registry_of :: "'f engine \<Rightarrow> registry" where
  "registry_of en = (case en_dwarf en of Some info \<Rightarrow> di_type_registry info | None \<Rightarrow> [])"

definition follow_stamp :: "u64 \<Rightarrow> u64 \<Rightarrow> read_word option \<Rightarrow> dwarf_info \<Rightarrow> 'f engine \<Rightarrow> 'f engine" where
  "follow_stamp v sq mem info en =
     (let en1 = deepen_stamp v sq info en;
          en2 = scan_from v sq mem (registry_of en1) en1
      in case bt_get (st_map (stm_of en2)) v of None \<Rightarrow> en2
         | Some p \<Rightarrow> emit_stamp_of sq v (tp_type_info p) (tp_source_name p) en2)"

definition write_propagate :: "event \<Rightarrow> read_word option \<Rightarrow> 'f engine \<Rightarrow> 'f engine" where
  "write_propagate ev mem en =
     (case en_dwarf en of None \<Rightarrow> en
      | Some info \<Rightarrow>
          (let v = write_value ev; sq = sq64 ev in
           case propagate_field_write (e_addr ev) v (e_size ev) sq (di_type_registry info) (allocs_of en) (stm_of en) of
             (stm1, stamped) \<Rightarrow>
               (let en1 = upd_stm (\<lambda>_. stm1) en in
                if stamped then follow_stamp v sq mem info en1
                else if e_size ev = 8 \<and> v \<noteq> 0 \<and> v mod 8 = 0 \<and> is_heap (en_oracle en1) v
                then upd_stm (defer_write (e_addr ev) v sq) en1
                else en1)))"


subsection \<open>Writes: hazards\<close>

definition HEAP_HOLE_GRACE :: u64 where "HEAP_HOLE_GRACE = 256"

definition hazard_line :: "u64 \<Rightarrow> heap_hazard \<Rightarrow> jfields" where
  "hazard_line sq h = emit_hazard sq (hazard_name (hz_kind h)) (hz_write_addr h) (hz_write_size h)
     (hz_alloc_base h) (hz_alloc_size h) (hz_overflow_bytes h) (hz_type_name h) (hz_field_name h)"

definition in_grace :: "heap_hazard \<Rightarrow> 'f world_state \<Rightarrow> bool" where
  "in_grace h w \<longleftrightarrow> hz_kind h = HeapHole \<and>
     sat_sub (ws_total_event_count w) (ws_last_alloc_event_count w) < HEAP_HOLE_GRACE"

definition write_hazard :: "event \<Rightarrow> 'f engine \<Rightarrow> 'f engine" where
  "write_hazard ev en =
     (let w = en_world en in
      if length (ws_hazards w) < 64
      then (case check_write_bounds (e_addr ev) (e_size ev) (ws_stm w) (ws_heap_allocs w) of
              None \<Rightarrow> en
            | Some h \<Rightarrow>
                (if in_grace h w \<or> list_ex (\<lambda>prev. hz_write_addr prev = hz_write_addr h) (ws_hazards w) then en
                 else
                   (let h1 = h\<lparr>hz_pc := ucast (e_rip_lo ev),
                               hz_reg_snapshot := map_option rf_values (en_regs en (e_thread_id ev))\<rparr>
                    in upd_world (\<lambda>w. w\<lparr>ws_hazards := ws_hazards w @ [h1]\<rparr>) (emit_topo (hazard_line (sq64 ev) h1) en))))
      else en)"

definition write_heap :: "'f f32_ops \<Rightarrow> event \<Rightarrow> read_word option \<Rightarrow> 'f engine \<Rightarrow> 'f engine outcome" where
  "write_heap F ev mem en =
     (if \<not> is_heap (en_oracle en) (e_addr ev) then Value en
      else
        (case process_write F (en_oracle en) (e_addr ev) (e_size ev) (write_value ev) (sq64 ev) (en_heap en) of
           Panic \<Rightarrow> Panic
         | Value g \<Rightarrow> Value (write_hazard ev (write_propagate ev mem (write_covering ev (en\<lparr>en_heap := g\<rparr>))))))"


subsection \<open>Writes: the node of the address\<close>

definition find_node :: "u64 \<Rightarrow> 'f engine \<Rightarrow> 'f engine \<times> lookup_result option" where
  "find_node a en = (case ai_lookup a (en_index en) of (idx, r) \<Rightarrow> (en\<lparr>en_index := idx\<rparr>, r))"

definition insert_bloom :: "u64 \<Rightarrow> 'f engine \<Rightarrow> 'f engine" where
  "insert_bloom a en = en\<lparr>en_orch := bloom_insert a (en_orch en)\<rparr>"

text \<open>After a stamp that took effect: deferred writes are replayed, the object is scanned.\<close>

definition settle_stamp :: "u64 \<Rightarrow> type_info \<Rightarrow> string \<Rightarrow> u64 \<Rightarrow> read_word option \<Rightarrow> 'f engine \<Rightarrow> 'f engine" where
  "settle_stamp a ti src sq mem en =
     (let en1 = upd_stm (\<lambda>s. fst (replay_deferred (registry_of en) (allocs_of en) s)) en
      in emit_stamp_of sq a ti src (scan_from a sq mem (registry_of en1) en1))"

definition opaque_type :: "string \<Rightarrow> u64 \<Rightarrow> type_info" where
  "opaque_type n sz = Type_Info n sz False False False False []"

text \<open>The epoch of the type that a stamp replaced.\<close>

definition note_change :: "bool \<Rightarrow> string \<Rightarrow> string \<Rightarrow> u64 \<Rightarrow> u64 \<Rightarrow> string \<Rightarrow> string \<Rightarrow> u64 \<Rightarrow> 'f engine \<Rightarrow> 'f engine" where
  "note_change reuse old_type old_source old_sq a new_type src sq en =
     (let en1 = (case alloc_size (allocs_of en) a of None \<Rightarrow> en
          | Some sz \<Rightarrow> upd_world (\<lambda>w. w\<lparr>ws_type_epochs := close_epoch a sz
              \<lparr>tp_base_addr = a, tp_type_info = opaque_type old_type sz, tp_source_name = old_source, tp_stamp_seq = old_sq\<rparr>
              sq Close_Schism (ws_type_epochs w)\<rparr>) en)
      in emit_topo (emit_type_epoch_close sq a old_type old_source old_sq sq (if reuse then ''pool_reuse'' else ''schism''))
           (emit_topo (emit_type_schism sq a old_type new_type old_source src) en1))"

definition note_result :: "stamp_result \<Rightarrow> u64 \<Rightarrow> string \<Rightarrow> string \<Rightarrow> u64 \<Rightarrow> 'f engine \<Rightarrow> 'f engine" where
  "note_result res a new_type src sq en =
     (case res of
        Schism ot os oq \<Rightarrow> note_change False ot os oq a new_type src sq en
      | PoolReuse ot os oq \<Rightarrow> note_change True ot os oq a new_type src sq en
      | _ \<Rightarrow> en)"

definition took_effect :: "stamp_result \<Rightarrow> bool" where
  "took_effect res \<longleftrightarrow> res \<noteq> Restamped \<and> res \<noteq> Rejected"

text \<open>A pointer to the heap was written to a global or local: its target has the pointee's type.\<close>

definition stamp_pointee ::
  "nat \<Rightarrow> event \<Rightarrow> read_word option \<Rightarrow> lookup_result \<Rightarrow> 'f engine \<Rightarrow> 'f engine outcome" where
  "stamp_pointee fuel ev mem h en =
     (case en_dwarf en of None \<Rightarrow> Value en
      | Some info \<Rightarrow>
          (let pn = pointee_name (lr_type_info h); info1 = ensure_in pn info; v = e_value ev; sq = sq64 ev;
               en1 = en\<lparr>en_dwarf := Some info1\<rparr>
           in case map_of (di_type_registry info1) pn of None \<Rightarrow> Value en1
              | Some ti \<Rightarrow>
                  (case patch_shallow_fields fuel (di_type_registry info1) ti of None \<Rightarrow> Panic
                   | Some ti' \<Rightarrow>
                       (let en2 = upd_world (\<lambda>w. w\<lparr>ws_heap_allocs := fst (check_size v ti' (ws_heap_allocs w))\<rparr>) en1 in
                        case stamp_type v ti' (lr_name h) sq (stm_of en2) of
                          (stm1, res) \<Rightarrow>
                            (let en3 = note_result res v (ti_name ti') (lr_name h) sq (upd_stm (\<lambda>_. stm1) en2)
                             in Value (if took_effect res
                                       then settle_stamp v ti' (lr_name h) sq mem (insert_bloom v en3) else en3))))))"

definition write_pointer ::
  "nat \<Rightarrow> event \<Rightarrow> read_word option \<Rightarrow> lookup_result \<Rightarrow> 'f engine \<Rightarrow> 'f engine outcome" where
  "write_pointer fuel ev mem h en =
     (let v = e_value ev;
          found = (if v = 0 then (en, None) else find_node v en);
          en1 = upd_inner (update_edge (lr_node_id h) (map_option lr_node_id (snd found)) v) (fst found)
      in if v = 0 then Value en1
         else
           (case (if is_heap (en_oracle en1) v then stamp_pointee fuel ev mem h en1 else Value en1) of
              Panic \<Rightarrow> Panic
            | Value en2 \<Rightarrow> Value (emit_topo (emit_link (sq64 ev) (lr_name h) (e_addr ev) v
                 (unstar (ti_name (lr_type_info h))) (lr_name h)) en2)))"

definition write_node ::
  "nat \<Rightarrow> event \<Rightarrow> read_word option \<Rightarrow> 'f engine \<Rightarrow> ('f engine \<times> bool) outcome" where
  "write_node fuel ev mem en =
     (case find_node (e_addr ev) en of
        (en1, None) \<Rightarrow> Value (en1, False)
      | (en1, Some h) \<Rightarrow>
          (let nid = lr_node_id h;
               w1 = fst (ensure_node nid (lr_name h) (lr_type_info h) (e_addr ev) (ucast (e_size ev)) (inner_of en1));
               en2 = upd_inner (\<lambda>_. update_value nid (write_value ev) (wi_insn_counter w1) w1) en1
           in if ti_is_pointer (lr_type_info h) \<and> e_size ev = 8
              then (case write_pointer fuel ev mem h en2 of Panic \<Rightarrow> Panic | Value en3 \<Rightarrow> Value (en3, True))
              else Value (en2, True)))"

definition on_event_write ::
  "'f f32_ops \<Rightarrow> nat \<Rightarrow> event \<Rightarrow> read_word option \<Rightarrow> 'f engine \<Rightarrow> ('f engine \<times> bool) outcome" where
  "on_event_write F fuel ev mem en =
     (case record_cl_write (e_addr ev) (e_thread_id ev) (en_world en) of
        (w, writers) \<Rightarrow>
          (case write_heap F ev mem (write_cohere ev writers (write_observe ev (en\<lparr>en_world := w\<rparr>))) of
             Panic \<Rightarrow> Panic | Value en1 \<Rightarrow> write_node fuel ev mem en1))"


subsection \<open>Allocations\<close>

text \<open>A typed object ends: its epoch is closed and the parts that know the block forget it.\<close>

definition close_typed :: "u64 \<Rightarrow> u64 \<Rightarrow> type_projection \<Rightarrow> u64 \<Rightarrow> epoch_close \<Rightarrow> string \<Rightarrow> 'f engine \<Rightarrow> 'f engine" where
  "close_typed a sz p sq reason name en =
     emit_topo (emit_type_epoch_close sq a (ti_name (tp_type_info p)) (tp_source_name p) (tp_stamp_seq p) sq name)
       (upd_world (\<lambda>w. w\<lparr>ws_type_epochs := close_epoch a sz p sq reason (ws_type_epochs w)\<rparr>) en)"

definition close_if_typed :: "u64 \<Rightarrow> u64 \<Rightarrow> u64 \<Rightarrow> epoch_close \<Rightarrow> string \<Rightarrow> 'f engine \<Rightarrow> 'f engine" where
  "close_if_typed a sz sq reason name en =
     (case bt_get (st_map (stm_of en)) a of None \<Rightarrow> en | Some p \<Rightarrow> close_typed a sz p sq reason name en)"

definition forget_heap :: "u64 \<Rightarrow> u64 \<Rightarrow> 'f engine \<Rightarrow> 'f engine" where
  "forget_heap a sz en = en\<lparr>en_heap := hg_on_free a sz (en_heap en)\<rparr>"

text \<open>At most eight caller addresses: the return address, six shadow frames and inlined functions.\<close>

definition push_pc :: "u64 \<Rightarrow> u64 list \<Rightarrow> u64 list" where
  "push_pc pc pcs = (if 8 \<le> length pcs \<or> pc \<in> set pcs then pcs else pcs @ [pc])"

definition inlined_pcs :: "func_map \<Rightarrow> u64 \<Rightarrow> u64 list \<Rightarrow> u64 list" where
  "inlined_pcs fns pc pcs =
     fold (\<lambda>(fpc, f) pcs. if pc < fm_high_pc f \<and> prefix ''[inlined]'' (fm_name f) then push_pc fpc pcs else pcs)
       (take 3 (rev (filter (\<lambda>(k, _). k \<le> pc) fns))) pcs"

definition caller_pcs :: "event \<Rightarrow> u64 \<Rightarrow> shadow_stack option \<Rightarrow> func_map \<Rightarrow> u64 list" where
  "caller_pcs ev delta stack fns =
     (let p0 = (if e_rip_lo ev \<noteq> 0 then [ucast (e_rip_lo ev) - (delta AND 0xFFFFFFFF)] else []);
          p1 = (case stack of None \<Rightarrow> p0
                | Some s \<Rightarrow> fold (\<lambda>fr. push_pc (kf_callee_pc fr - delta)) (take 6 (rev (ss_frames s))) p0)
      in fold (inlined_pcs fns) p1 p1)"

definition alloc_source :: "u64 list \<Rightarrow> string" where
  "alloc_source pcs = ''alloc@0x'' @ hex (unat (case pcs of [] \<Rightarrow> 0 | pc # _ \<Rightarrow> pc))"

definition stamp_at_birth ::
  "nat \<Rightarrow> event \<Rightarrow> read_word option \<Rightarrow> u64 \<Rightarrow> u64 list \<Rightarrow> dwarf_info \<Rightarrow> 'f engine \<Rightarrow> 'f engine outcome" where
  "stamp_at_birth fuel ev mem sz pcs info en =
     (case ao_resolve (di_alloc_oracle info) sz pcs of None \<Rightarrow> Value en
      | Some ti \<Rightarrow>
          (let info1 = ensure_in (ti_name ti) info; reg = di_type_registry info1; a = e_addr ev; sq = sq64 ev;
               src = alloc_source pcs; en1 = en\<lparr>en_dwarf := Some info1\<rparr>
           in case patch_shallow_fields fuel reg (case map_of reg (ti_name ti) of Some t \<Rightarrow> t | None \<Rightarrow> ti) of
                None \<Rightarrow> Panic
              | Some ti' \<Rightarrow>
                  (case stamp_type a ti' src sq (stm_of en1) of
                     (stm1, res) \<Rightarrow>
                       (let en2 = upd_stm (\<lambda>_. stm1) en1 in
                        Value (if took_effect res
                          then settle_stamp a ti' src sq mem
                                 (fold (\<lambda>f. insert_bloom (a + fi_byte_offset f)) (ti_fields ti') (insert_bloom a en2))
                          else en2)))))"

text \<open>The bookkeeping: an allocation of another size at a live address ends what was there.\<close>

definition track_alloc :: "event \<Rightarrow> u64 \<Rightarrow> 'f engine \<Rightarrow> 'f engine" where
  "track_alloc ev sz en =
     (let a = e_addr ev; sq = sq64 ev;
          en1 = upd_world (\<lambda>w. w\<lparr>ws_last_alloc_event_count := ws_total_event_count w,
                               ws_heap_allocs := fst (on_alloc a sz (ws_heap_allocs w))\<rparr>) en
      in case snd (on_alloc a sz (allocs_of en)) of None \<Rightarrow> emit_topo (emit_alloc sq (e_thread_id ev) a sz) en1
         | Some old \<Rightarrow>
             (if old = sz then en1
              else emit_topo (emit_alloc sq (e_thread_id ev) a sz)
                     (forget_heap a old (upd_stm (\<lambda>s. fst (purge_range a old s))
                       (close_if_typed a old sq Close_Realloc ''realloc'' en1)))))"

definition on_event_alloc :: "nat \<Rightarrow> event \<Rightarrow> read_word option \<Rightarrow> 'f engine \<Rightarrow> 'f engine outcome" where
  "on_event_alloc fuel ev mem en0 =
     (let sz = (if e_value ev \<noteq> 0 then e_value ev else ucast (e_size ev)); en = track_alloc ev sz en0
      in case (en_dwarf en, en_delta en) of
           (Some info, Some delta) \<Rightarrow>
             stamp_at_birth fuel ev mem sz (caller_pcs ev delta (en_stacks en (e_thread_id ev)) (di_functions info)) info en
         | _ \<Rightarrow> Value en)"


subsection \<open>Frees\<close>

definition purge_block :: "u64 \<Rightarrow> u64 \<Rightarrow> 'f engine \<Rightarrow> 'f engine" where
  "purge_block a sz en =
     forget_heap a sz (upd_stm (\<lambda>s. purge_deferred a sz (purge_indirect a sz (fst (purge_range a sz s)))) en)"

definition on_event_free :: "event \<Rightarrow> 'f engine \<Rightarrow> 'f engine" where
  "on_event_free ev en =
     (let a = e_addr ev; sq = sq64 ev;
          en1 = upd_world (\<lambda>w. w\<lparr>ws_heap_allocs := fst (on_free a (ws_heap_allocs w))\<rparr>) en
      in case snd (on_free a (allocs_of en)) of
           Some old \<Rightarrow>
             emit_topo (emit_free sq (e_thread_id ev) a old)
               (purge_block a old (close_if_typed a old sq Close_Free ''free'' en1))
         | None \<Rightarrow>
             (case bt_get (st_map (stm_of en1)) a of None \<Rightarrow> en1
              | Some p \<Rightarrow>
                  (let sz = ti_byte_size (tp_type_info p)
                   in purge_block a sz (close_typed a sz p sq Close_Free ''free'' en1))))"


subsection \<open>Reads, reloads, modules\<close>

definition on_event_read :: "event \<Rightarrow> 'f engine \<Rightarrow> 'f engine" where
  "on_event_read ev en =
     (let en1 = upd_inner inc_insn_counter en in
      if is_heap (en_oracle en1) (e_addr ev) \<and> e_value ev \<noteq> 0
      then (case covering (stm_of en1) (e_addr ev) of None \<Rightarrow> en1
            | Some p \<Rightarrow>
                (case field_covering (e_addr ev - tp_base_addr p) (tp_type_info p) of None \<Rightarrow> en1
                 | Some f \<Rightarrow> upd_world (\<lambda>w. w\<lparr>ws_field_heatmap := fh_record_read (e_thread_id ev)
                     (ti_name (tp_type_info p)) (fi_name f) (fi_byte_offset f) (ws_field_heatmap w)\<rparr>) en1))
      else en1)"

definition on_event_reload :: "event \<Rightarrow> 'f engine \<Rightarrow> 'f engine" where
  "on_event_reload ev =
     upd_srf (e_thread_id ev) (rf_on_reload (unat (drop_bit 8 (e_kind_flags ev) AND 0xFF))
       (e_value ev) (e_addr ev) (e_size ev) (sq64 ev) (e_addr ev))"

definition on_event_cache_miss :: "'f f32_ops \<Rightarrow> event \<Rightarrow> 'f engine \<Rightarrow> 'f engine" where
  "on_event_cache_miss F ev en =
     (case find_node (e_addr ev) en of
        (en1, None) \<Rightarrow> en1
      | (en1, Some h) \<Rightarrow> upd_world (record_cache_miss F (lr_node_id h)) en1)"

definition on_event_module_load :: "event \<Rightarrow> 'f engine \<Rightarrow> 'f engine" where
  "on_event_module_load ev en =
     (let en1 = en\<lparr>en_oracle := add_module (e_addr ev) (e_value ev) (en_oracle en)\<rparr> in
      case (en_delta en1, en_dwarf en1) of
        (None, Some info) \<Rightarrow>
          (let delta = e_addr ev - di_elf_base_vaddr info
           in populate_globals info delta (en1\<lparr>en_delta := Some delta, en_index := ai_new\<rparr>))
      | _ \<Rightarrow> en1)"

definition handled :: "'f engine \<Rightarrow> ('f engine \<times> bool) outcome" where
  "handled en = Value (en, True)"

fun handled_if :: "'f engine outcome \<Rightarrow> ('f engine \<times> bool) outcome" where
  "handled_if Panic = Panic"
| "handled_if (Value en) = Value (en, True)"

definition process_event ::
  "'f f32_ops \<Rightarrow> nat \<Rightarrow> read_word option \<Rightarrow> event \<Rightarrow> 'f engine \<Rightarrow> ('f engine \<times> bool) outcome" where
  "process_event F fuel mem ev en0 =
     (let en = upd_world (\<lambda>w. w\<lparr>ws_total_event_count := ws_total_event_count w + 1\<rparr>) en0; k = kind ev in
      if k = EVENT_WRITE then on_event_write F fuel ev mem en
      else if k = EVENT_CALL then handled_if (on_event_call ev en)
      else if k = EVENT_RETURN then handled (on_event_return ev en)
      else if k = EVENT_TAIL_CALL then handled (en\<lparr>en_oracle := update_stack (e_thread_id ev) (e_value ev) (en_oracle en)\<rparr>)
      else if k = EVENT_REG_SNAPSHOT then handled en
      else if k = EVENT_CACHE_MISS then handled (on_event_cache_miss F ev en)
      else if k = EVENT_RELOAD then handled (on_event_reload ev en)
      else if k = EVENT_ALLOC then handled_if (on_event_alloc fuel ev mem en)
      else if k = EVENT_FREE then handled (on_event_free ev en)
      else if k = EVENT_READ then handled (on_event_read ev en)
      else if k = EVENT_BB_ENTRY then handled (upd_world (record_bb_entry (e_rip_lo ev)) en)
      else if k = EVENT_MODULE_LOAD then handled (on_event_module_load ev en)
      else if k = EVENT_PROCESS_FORK then handled en
      else if k = EVENT_SHARED_MAP then handled en
      else Value (upd_world (\<lambda>w. w\<lparr>ws_unknown_event_kinds := ws_unknown_event_kinds w + 1\<rparr>) en, False))"

end
