(* ===== verification/Engine_Graph.thy ===== *)
theory Engine_Graph
  imports Event_Arms
begin

text \<open>
  The invariant that ties the address index, the pointer graph and the shadow stacks together: every
  interval of the index belongs to a node that exists, and the local nodes of the graph belong to
  frames that are live or among the last 32 that returned.
\<close>

definition index_inv :: "address_index \<Rightarrow> world_inner \<Rightarrow> bool" where
  "index_inv idx w \<longleftrightarrow> graph_inv w \<and> ai_inv idx \<and>
     (\<forall>iv \<in> registered idx. node_exists (vm_node_id (iv_meta iv)) w) \<and>
     (\<forall>iv \<in> set (ai_statics idx). \<forall>f. \<not> is_local_of f (vm_node_id (iv_meta iv))) \<and>
     (\<forall>f ivs. map_of (ai_dynamics idx) f = Some ivs \<longrightarrow> (\<forall>iv \<in> set ivs. is_local_of f (vm_node_id (iv_meta iv))))"

definition frame_ids :: "(u16 \<rightharpoonup> shadow_stack) \<Rightarrow> u16 \<Rightarrow> frame_id list" where
  "frame_ids stacks t = (case stacks t of None \<Rightarrow> [] | Some s \<Rightarrow> map kf_frame_id (ss_frames s))"

definition live_frames :: "(u16 \<rightharpoonup> shadow_stack) \<Rightarrow> frame_id set" where
  "live_frames stacks = (\<Union>t. set (frame_ids stacks t))"

definition locals_in :: "frame_id set \<Rightarrow> world_inner \<Rightarrow> bool" where
  "locals_in S w \<longleftrightarrow> (\<forall>f i. node_exists (N_Local f i) w \<longrightarrow> f \<in> S)"

definition frames_inv ::
  "address_index \<Rightarrow> world_inner \<Rightarrow> (u16 \<rightharpoonup> shadow_stack) \<Rightarrow> frame_id \<Rightarrow> frame_id list \<Rightarrow> bool" where
  "frames_inv idx w stacks nxt ret \<longleftrightarrow>
     (\<forall>t. distinct (frame_ids stacks t)) \<and>
     (\<forall>t u. t \<noteq> u \<longrightarrow> set (frame_ids stacks t) \<inter> set (frame_ids stacks u) = {}) \<and>
     live_frames stacks \<inter> set ret = {} \<and>
     (\<forall>f \<in> live_frames stacks \<union> set ret. unat f < unat nxt) \<and>
     length ret \<le> 32 \<and>
     dom (map_of (ai_dynamics idx)) \<subseteq> live_frames stacks \<and>
     locals_in (live_frames stacks \<union> set ret) w"


subsection \<open>Lookups\<close>

lemma index_inv_lookup:
  assumes "index_inv idx w" "ai_statics_sorted idx" "ai_lookup a idx = (idx', r)"
  shows "index_inv idx' w \<and> ai_dynamics idx' = ai_dynamics idx \<and> ai_statics_sorted idx' = ai_statics_sorted idx \<and>
    (\<forall>h. r = Some h \<longrightarrow> node_exists (lr_node_id h) w)"
proof -
  from assms have inv: "ai_inv idx" by (simp add: index_inv_def)
  note l = lookup_spec [OF inv assms(2,3)]
  then have reg: "registered idx' = registered idx" by (intro registered_cong) simp_all
  have "ai_statics_sorted idx' = ai_statics_sorted idx"
    using assms(3) by (auto simp: ai_lookup_def Let_def push_mru_def split: if_splits option.splits prod.splits)
  moreover have "node_exists (lr_node_id h) w" if "r = Some h" for h
    using l that assms(1) by (auto simp: lookup_ok_def lr_of_def index_inv_def)
  ultimately show ?thesis using l reg assms(1) by (simp add: index_inv_def)
qed


subsection \<open>Calls\<close>

lemma ensure_node_exists:
  "bt_inv (wi_nodes w) \<Longrightarrow> node_exists j (fst (ensure_node i n ti a sz w)) \<longleftrightarrow> j = i \<or> node_exists j w"
  by (auto simp: ensure_node_def node_exists_def bt.get_ins)

lemma ensure_node_regs [simp]: "wi_reg_file (fst (ensure_node i n ti a sz w)) = wi_reg_file w"
  by (simp add: ensure_node_def)

lemma place_locals_spec:
  assumes "graph_inv w" "place_locals f pc fb fid ls w = Value w'"
  shows "graph_inv w' \<and> (\<forall>j. node_exists j w' \<longleftrightarrow> node_exists j w \<or> j \<in> (\<lambda>(li, _). N_Local fid (of_nat li)) ` set ls)"
  using assms
proof (induction ls arbitrary: w)
  case (Cons p ls)
  obtain li l where p: "p = (li, l)" by (cases p)
  from Cons.prems(2) obtain a where rest: "place_locals f pc fb fid ls
      (fst (ensure_node (N_Local fid (of_nat li)) (lv_name l) (lv_type_info l) a (lv_size l) w)) = Value w'"
    by (auto simp: p split: outcome.splits)
  have "bt_inv (wi_nodes w)" using Cons.prems(1) by (simp add: graph_inv_def)
  from Cons.IH [OF graph_inv_ensure [OF Cons.prems(1)] rest] ensure_node_exists [OF this]
  show ?case by (auto simp: p)
qed simp

lemma index_inv_mono:
  assumes "index_inv idx w" "graph_inv w'" "\<And>j. node_exists j w \<Longrightarrow> node_exists j w'"
  shows "index_inv idx w'"
  using assms by (auto simp: index_inv_def)

lemma insert_locals_dynamics:
  "ai_dynamics (insert_frame_locals fid base ls idx) =
     (if local_intervals fid base ls = [] then ai_dynamics idx
      else AList.update fid (local_intervals fid base ls) (ai_dynamics idx))"
  "ai_statics (insert_frame_locals fid base ls idx) = ai_statics idx"
  "ai_statics_sorted (insert_frame_locals fid base ls idx) = ai_statics_sorted idx"
  by (simp_all add: insert_frame_locals_def Let_def)

lemma local_interval_node:
  "iv \<in> set (local_intervals fid base ls) \<Longrightarrow>
     \<exists>li < length ls. vm_node_id (iv_meta iv) = N_Local fid (of_nat li)"
  by (auto simp: local_intervals_def in_set_enumerate_eq)

lemma index_inv_insert:
  assumes "index_inv idx w" "\<And>li. li < length ls \<Longrightarrow> node_exists (N_Local fid (of_nat li)) w"
  shows "index_inv (insert_frame_locals fid base ls idx) w"
proof -
  let ?ivs = "local_intervals fid base ls"
  have loc: "is_local_of fid (vm_node_id (iv_meta iv)) \<and> node_exists (vm_node_id (iv_meta iv)) w" if "iv \<in> set ?ivs" for iv
    using local_interval_node [OF that] assms(2) by (auto simp: is_local_of_def)
  have "registered (insert_frame_locals fid base ls idx) \<subseteq> registered idx \<union> set ?ivs"
    by (auto simp: registered_def insert_locals_dynamics update_conv' ran_def split: if_splits)
  with loc assms(1) have "\<forall>iv \<in> registered (insert_frame_locals fid base ls idx). node_exists (vm_node_id (iv_meta iv)) w"
    by (auto simp: index_inv_def)
  with assms(1) loc show ?thesis
    by (auto simp: index_inv_def ai_inv_frame insert_locals_dynamics update_conv' split: if_splits)
qed

lemma frame_ids_push:
  "frame_ids (stacks(t \<mapsto> push_call fid pc n (case stacks t of Some s \<Rightarrow> s | None \<Rightarrow> ss_new))) u =
     (if u = t then frame_ids stacks t @ [fid] else frame_ids stacks u)"
  by (auto simp: frame_ids_def push_call_def ss_new_def Let_def split: option.split)

lemma live_frames_push:
  "live_frames (stacks(t \<mapsto> push_call fid pc n (case stacks t of Some s \<Rightarrow> s | None \<Rightarrow> ss_new))) =
     insert fid (live_frames stacks)"
  by (auto simp: live_frames_def frame_ids_push split: if_splits)

lemma unat_suc: "unat (n :: u64) + 1 < 2 ^ 64 \<Longrightarrow> unat (n + 1) = unat n + 1"
  by (subst unat_add_lem [THEN iffD1]) simp_all

lemma frames_inv_call:
  assumes inv: "frames_inv idx w stacks nxt ret" and room: "unat nxt + 1 < 2 ^ 64"
    and w': "\<And>j. node_exists j w' \<Longrightarrow> node_exists j w \<or> is_local_of nxt j"
    and dyn: "dom (map_of (ai_dynamics idx')) \<subseteq> insert nxt (dom (map_of (ai_dynamics idx)))"
  shows "frames_inv idx' w' (stacks(t \<mapsto> push_call nxt pc n (case stacks t of Some s \<Rightarrow> s | None \<Rightarrow> ss_new))) (nxt + 1) ret"
proof -
  let ?s = "stacks(t \<mapsto> push_call nxt pc n (case stacks t of Some s \<Rightarrow> s | None \<Rightarrow> ss_new))"
  from inv have fresh: "nxt \<notin> live_frames stacks" "nxt \<notin> set ret"
    unfolding frames_inv_def by blast+
  then have f: "nxt \<notin> set (frame_ids stacks u)" for u by (auto simp: live_frames_def)
  have "distinct (frame_ids ?s u)" for u
    using inv f by (simp add: frame_ids_push frames_inv_def)
  moreover have "set (frame_ids ?s u) \<inter> set (frame_ids ?s v) = {}" if "u \<noteq> v" for u v
  proof -
    have "set (frame_ids stacks u) \<inter> set (frame_ids stacks v) = {}" using inv that by (simp add: frames_inv_def)
    then show ?thesis unfolding frame_ids_push using that f by (cases "u = t"; cases "v = t") auto
  qed
  moreover have "live_frames ?s \<inter> set ret = {}" "length ret \<le> 32"
    using inv fresh by (simp_all add: live_frames_push frames_inv_def)
  moreover have "\<forall>f \<in> live_frames ?s \<union> set ret. unat f < unat (nxt + 1)"
  proof
    fix f assume "f \<in> live_frames ?s \<union> set ret"
    then have "f = nxt \<or> f \<in> live_frames stacks \<union> set ret" by (simp add: live_frames_push)
    moreover have "\<forall>f \<in> live_frames stacks \<union> set ret. unat f < unat nxt" using inv by (simp add: frames_inv_def)
    ultimately show "unat f < unat (nxt + 1)" unfolding unat_suc [OF room] by (meson less_add_one trans_less_add1)
  qed
  moreover have "dom (map_of (ai_dynamics idx')) \<subseteq> live_frames ?s"
    using inv dyn unfolding live_frames_push frames_inv_def by blast
  moreover have "locals_in (live_frames ?s \<union> set ret) w'"
    unfolding locals_in_def live_frames_push
  proof (intro allI impI)
    fix f i assume "node_exists (N_Local f i) w'"
    with w' have "node_exists (N_Local f i) w \<or> f = nxt" by (fastforce simp: is_local_of_def)
    moreover have "locals_in (live_frames stacks \<union> set ret) w" using inv by (simp add: frames_inv_def)
    ultimately show "f \<in> insert nxt (live_frames stacks) \<union> set ret" by (auto simp: locals_in_def)
  qed
  ultimately show ?thesis unfolding frames_inv_def by blast
qed


subsection \<open>Returns\<close>

lemma node_exists_remove_frame:
  assumes "graph_inv w"
  shows "node_exists j (remove_frame_nodes f w) \<longleftrightarrow> \<not> is_local_of f j \<and> node_exists j w"
proof -
  from assms have "bt_inv (wi_nodes w)" "bt_inv (wi_edges w)" by (simp_all add: graph_inv_def)
  from remove_frame_get [OF this, of f j] show ?thesis by (simp add: node_exists_def)
qed

text \<open>Evicting frames removes the nodes of the frames that leave the list, and no others.\<close>

lemma evict_frames_spec:
  assumes "graph_inv w" "evict_frames fs w = (fs', w')"
  shows "graph_inv w' \<and> length fs' \<le> 32 \<and> (\<exists>gone. fs = gone @ fs' \<and>
    (\<forall>j. node_exists j w' \<longleftrightarrow> node_exists j w \<and> (\<forall>f \<in> set gone. \<not> is_local_of f j)))"
  using assms
proof (induction fs w rule: evict_frames.induct)
  case (2 f fs w)
  show ?case
  proof (cases "32 < length (f # fs)")
    case True
    with 2(3) have e: "evict_frames fs (remove_frame_nodes f w) = (fs', w')" by simp
    from 2(1) [OF True graph_inv_frame [OF 2(2)] e] obtain gone where
      g: "graph_inv w'" "length fs' \<le> 32" "fs = gone @ fs'"
        "\<And>j. node_exists j w' \<longleftrightarrow> node_exists j (remove_frame_nodes f w) \<and> (\<forall>f \<in> set gone. \<not> is_local_of f j)"
      by blast
    then show ?thesis using node_exists_remove_frame [OF 2(2)] by (intro conjI exI [of _ "f # gone"]) auto
  next
    case False
    with 2(2,3) show ?thesis by auto
  qed
qed simp

lemma frame_ids_pop:
  "ss_frames s \<noteq> [] \<Longrightarrow> stacks t = Some s \<Longrightarrow>
     frame_ids (stacks(t \<mapsto> s\<lparr>ss_frames := butlast (ss_frames s)\<rparr>)) u =
       (if u = t then butlast (frame_ids stacks t) else frame_ids stacks u)"
  by (simp add: frame_ids_def map_butlast)

lemma registered_remove_frame:
  "ai_inv idx \<Longrightarrow> registered (remove_frame f idx) \<subseteq> registered idx"
  "dom (map_of (ai_dynamics (remove_frame f idx))) = dom (map_of (ai_dynamics idx)) - {f}"
  by (auto simp: registered_def remove_frame_def delete_conv' ran_def split: if_splits)

lemma frames_inv_return:
  assumes idx: "index_inv idx w" and inv: "frames_inv idx w stacks nxt ret"
    and s: "stacks t = Some s" "ss_frames s \<noteq> []"
    and ev: "evict_frames (ret @ [kf_frame_id (last (ss_frames s))]) w = (ret', w')"
  defines "fid \<equiv> kf_frame_id (last (ss_frames s))"
    and "stacks' \<equiv> stacks(t \<mapsto> s\<lparr>ss_frames := butlast (ss_frames s)\<rparr>)"
  shows "index_inv (remove_frame fid idx) w' \<and> frames_inv (remove_frame fid idx) w' stacks' nxt ret'"
proof -
  have ids: "frame_ids stacks t = butlast (frame_ids stacks t) @ [fid]"
    using s append_butlast_last_id [of "map kf_frame_id (ss_frames s)"]
    by (simp add: frame_ids_def fid_def last_map)
  have fr: "frame_ids stacks' u = (if u = t then butlast (frame_ids stacks t) else frame_ids stacks u)" for u
    unfolding stacks'_def by (rule frame_ids_pop [of s stacks t u, OF s(2,1)])
  have dis: "distinct (frame_ids stacks u)" "u \<noteq> v \<Longrightarrow> set (frame_ids stacks u) \<inter> set (frame_ids stacks v) = {}" for u v
    using inv by (simp_all add: frames_inv_def)
  have fid_t: "fid \<in> set (frame_ids stacks t)" by (subst ids) simp
  have out: "fid \<notin> set (butlast (frame_ids stacks t))"
    using dis(1) [of t] by (subst (asm) ids) simp
  have live: "live_frames stacks' = live_frames stacks - {fid}"
  proof -
    have "set (frame_ids stacks' u) = set (frame_ids stacks u) - {fid}" for u
    proof (cases "u = t")
      case True
      have "set (frame_ids stacks t) = insert fid (set (butlast (frame_ids stacks t)))" by (subst ids) simp
      with out True show ?thesis by (simp add: fr)
    next
      case False
      with dis(2) [OF False] fid_t show ?thesis by (auto simp: fr)
    qed
    then show ?thesis by (auto simp: live_frames_def)
  qed
  have fid_live: "fid \<in> live_frames stacks" using fid_t by (auto simp: live_frames_def)
  have g: "graph_inv w" using idx by (simp add: index_inv_def)
  from evict_frames_spec [OF g ev] obtain gone where
    e: "graph_inv w'" "length ret' \<le> 32" "ret @ [fid] = gone @ ret'"
      "\<And>j. node_exists j w' \<longleftrightarrow> node_exists j w \<and> (\<forall>f \<in> set gone. \<not> is_local_of f j)"
    unfolding fid_def by blast
  have sub: "set gone \<subseteq> insert fid (set ret)" "set ret' \<subseteq> insert fid (set ret)"
    "insert fid (set ret) = set gone \<union> set ret'"
    using arg_cong [OF e(3), of set] by auto
  have gone_dead: "set gone \<inter> live_frames stacks' = {}" and ret_dead: "live_frames stacks' \<inter> set ret' = {}"
    using sub inv unfolding live frames_inv_def by blast+
  have dyn: "dom (map_of (ai_dynamics (remove_frame fid idx))) \<subseteq> live_frames stacks'"
    using inv unfolding registered_remove_frame live frames_inv_def by blast
  have "frames_inv (remove_frame fid idx) w' stacks' nxt ret'"
  proof -
    have "locals_in (live_frames stacks' \<union> set ret') w'"
      unfolding locals_in_def
    proof (intro allI impI)
      fix f i assume n: "node_exists (N_Local f i) w'"
      with e(4) have "node_exists (N_Local f i) w" "f \<notin> set gone" by (auto simp: is_local_of_def)
      with inv have "f \<in> live_frames stacks \<union> set ret" by (auto simp: frames_inv_def locals_in_def)
      with \<open>f \<notin> set gone\<close> sub(3) show "f \<in> live_frames stacks' \<union> set ret'" unfolding live by blast
    qed
    moreover have "distinct (frame_ids stacks' u)" for u using dis(1) by (simp add: fr distinct_butlast)
    moreover have "set (frame_ids stacks' u) \<inter> set (frame_ids stacks' v) = {}" if "u \<noteq> v" for u v
      using dis(2) [OF that] by (auto simp: fr dest: in_set_butlastD)
    moreover have "\<forall>f \<in> live_frames stacks' \<union> set ret'. unat f < unat nxt"
      using inv sub fid_live unfolding live frames_inv_def by blast
    ultimately show ?thesis using ret_dead e(2) dyn unfolding frames_inv_def by blast
  qed
  moreover have "index_inv (remove_frame fid idx) w'"
  proof -
    have ai: "ai_inv idx" using idx by (simp add: index_inv_def)
    have dyn1: "map_of (ai_dynamics (remove_frame fid idx)) f = Some ivs \<Longrightarrow> map_of (ai_dynamics idx) f = Some ivs" for f ivs
      by (auto simp: remove_frame_def delete_conv' split: if_splits)
    have loc: "is_local_of f (vm_node_id (iv_meta iv))"
      if "map_of (ai_dynamics (remove_frame fid idx)) f = Some ivs" "iv \<in> set ivs" for f ivs iv
      using dyn1 [OF that(1)] that(2) idx unfolding index_inv_def by blast
    have "node_exists (vm_node_id (iv_meta iv)) w'" if iv: "iv \<in> registered (remove_frame fid idx)" for iv
    proof -
      have "node_exists (vm_node_id (iv_meta iv)) w"
        using iv registered_remove_frame(1) [OF ai] idx unfolding index_inv_def by blast
      moreover have "\<not> is_local_of f (vm_node_id (iv_meta iv))" if f: "f \<in> set gone" for f
      proof (cases "iv \<in> set (ai_statics idx)")
        case True
        then show ?thesis using idx unfolding index_inv_def by blast
      next
        case False
        with iv obtain f' ivs where d: "map_of (ai_dynamics (remove_frame fid idx)) f' = Some ivs" "iv \<in> set ivs"
          by (auto simp: registered_def remove_frame_def ran_def)
        then have "f' \<in> live_frames stacks'" using dyn by blast
        with f gone_dead have "f \<noteq> f'" by blast
        with loc [OF d] show ?thesis by (auto simp: is_local_of_def split: node_id.splits)
      qed
      ultimately show ?thesis using e(4) by blast
    qed
    moreover have "ai_statics (remove_frame fid idx) = ai_statics idx" by (simp add: remove_frame_def)
    ultimately show ?thesis using idx e(1) loc ai_inv_remove [OF ai] unfolding index_inv_def by simp
  qed
  ultimately show ?thesis by blast
qed


subsection \<open>The globals\<close>

lemma renew_node_exists:
  "graph_inv w \<Longrightarrow> node_exists j (renew_node i n ti a sz w) \<longleftrightarrow> j = i \<or> node_exists j w"
  by (auto simp: renew_node_def ensure_node_def remove_node_def node_exists_def graph_inv_def bt.get_ins bt.inv_del bt.get_del)

lemma graph_inv_renew:
  assumes "graph_inv w"
  shows "graph_inv (renew_node i n ti a sz w)"
proof -
  have nodes: "bt_inv (wi_nodes (renew_node i n ti a sz w))" and edges: "wi_edges (renew_node i n ti a sz w) = bt_remove i (wi_edges w)"
    using assms by (auto simp: renew_node_def ensure_node_def remove_node_def node_exists_def graph_inv_def bt.get_del bt.inv_del bt.inv_ins)
  have "edge_ok (renew_node i n ti a sz w) j e" if "bt_get (bt_remove i (wi_edges w)) j = Some e" for j e
  proof -
    have "bt_get (wi_edges w) j = Some e"
      using that by (cases "j = i") (simp_all add: get_bt_remove)
    with assms have "edge_ok w j e" by (simp add: graph_inv_def)
    then show ?thesis using renew_node_exists [OF assms] by (auto intro: edge_ok_mono)
  qed
  with assms nodes edges show ?thesis by (simp add: graph_inv_def bt.inv_del)
qed

lemma index_inv_renew:
  "index_inv idx w \<Longrightarrow> index_inv idx (renew_node i n ti a sz w)"
  by (rule index_inv_mono) (auto simp: index_inv_def graph_inv_renew renew_node_exists)

lemma index_inv_static:
  assumes "index_inv idx w" "node_exists (vm_node_id (iv_meta iv)) w" "\<And>f. \<not> is_local_of f (vm_node_id (iv_meta iv))"
  shows "index_inv (push_static iv idx) w \<and> ai_dynamics (push_static iv idx) = ai_dynamics idx"
proof -
  have "registered (push_static iv idx) \<subseteq> insert iv (registered idx)"
    by (auto simp: registered_def push_static_def)
  with assms have "\<forall>jv \<in> registered (push_static iv idx). node_exists (vm_node_id (iv_meta jv)) w"
    unfolding index_inv_def by blast
  moreover have "ai_inv (push_static iv idx)" using assms by (simp add: index_inv_def ai_inv_push_static)
  moreover have "ai_statics (push_static iv idx) = ai_statics idx @ [iv]" "ai_dynamics (push_static iv idx) = ai_dynamics idx"
    by (simp_all add: push_static_def)
  ultimately show ?thesis using assms by (auto simp: index_inv_def)
qed

lemma index_inv_field:
  assumes "index_inv idx w"
  shows "index_inv (ai_insert_field a sz q ti g fi idx) (renew_node (N_Field g fi) q' ti' a' sz' w) \<and>
    ai_dynamics (ai_insert_field a sz q ti g fi idx) = ai_dynamics idx"
proof -
  have "graph_inv w" using assms by (simp add: index_inv_def)
  then have "node_exists (N_Field g fi) (renew_node (N_Field g fi) q' ti' a' sz' w)" by (simp add: renew_node_exists)
  then show ?thesis
    unfolding ai_insert_field_def
    using index_inv_static [OF index_inv_renew [OF assms]] index_inv_renew [OF assms]
    by (simp add: is_local_of_def)
qed

lemma index_inv_global:
  assumes "index_inv idx w"
  shows "index_inv (ai_insert_global a sz q ti g idx) (renew_node (N_Global g) q' ti' a' sz' w) \<and>
    ai_dynamics (ai_insert_global a sz q ti g idx) = ai_dynamics idx"
proof -
  have "graph_inv w" using assms by (simp add: index_inv_def)
  then have "node_exists (N_Global g) (renew_node (N_Global g) q' ti' a' sz' w)" by (simp add: renew_node_exists)
  then show ?thesis
    unfolding ai_insert_global_def
    using index_inv_static [OF index_inv_renew [OF assms]] index_inv_renew [OF assms]
    by (simp add: is_local_of_def)
qed

text \<open>The locals among the nodes are not touched by the registration of globals and fields.\<close>

definition reg_ok :: "(frame_id \<times> interval list) list \<Rightarrow> frame_id set \<Rightarrow> address_index \<Rightarrow> world_inner \<Rightarrow> bool" where
  "reg_ok ds S idx w \<longleftrightarrow> index_inv idx w \<and> ai_dynamics idx = ds \<and> locals_in S w"

lemma locals_in_renew:
  "graph_inv w \<Longrightarrow> (\<And>f. \<not> is_local_of f i) \<Longrightarrow> locals_in S (renew_node i n ti a sz w) = locals_in S w"
  by (fastforce simp: locals_in_def renew_node_exists is_local_of_def)

lemma reg_ok_field:
  "reg_ok ds S idx w \<Longrightarrow> reg_ok ds S (ai_insert_field a sz q ti g fi idx) (renew_node (N_Field g fi) q' ti' a' sz' w)"
  using index_inv_field [of idx w a sz q ti g fi q' ti' a' sz']
  by (simp add: reg_ok_def locals_in_renew index_inv_def is_local_of_def)

definition makes_node :: "(node_id \<Rightarrow> string \<Rightarrow> type_info \<Rightarrow> u64 \<Rightarrow> u64 \<Rightarrow> world_inner \<Rightarrow> world_inner) \<Rightarrow> bool" where
  "makes_node node \<longleftrightarrow> (\<forall>ds S idx w a sz q ti g q' ti' a' sz'. reg_ok ds S idx w \<longrightarrow>
     reg_ok ds S (ai_insert_global a sz q ti g idx) (node (N_Global g) q' ti' a' sz' w))"

lemma renew_makes_node: "makes_node renew_node"
  unfolding makes_node_def
proof (intro allI impI)
  fix ds :: "(frame_id \<times> interval list) list" and S idx w a sz q ti g q' ti' a' sz'
  assume "reg_ok ds S idx w"
  then show "reg_ok ds S (ai_insert_global a sz q ti g idx) (renew_node (N_Global g) q' ti' a' sz' w)"
    using index_inv_global [of idx w a sz q ti g q' ti' a' sz']
    by (simp add: reg_ok_def locals_in_renew index_inv_def is_local_of_def)
qed

lemma ensure_makes_node: "makes_node ensure_global"
  unfolding makes_node_def
proof (intro allI impI)
  fix ds :: "(frame_id \<times> interval list) list" and S idx w a sz q ti g q' ti' a' sz'
  assume ok: "reg_ok ds S idx w"
  define w' where "w' = ensure_global (N_Global g) q' ti' a' sz' w"
  have ex: "node_exists j w' \<longleftrightarrow> j = N_Global g \<or> node_exists j w" for j
    using ok by (simp add: w'_def ensure_global_def ensure_node_exists reg_ok_def index_inv_def graph_inv_def)
  have "graph_inv w'" using ok by (simp add: w'_def ensure_global_def graph_inv_ensure reg_ok_def index_inv_def)
  then have inv: "index_inv idx w'" using ok ex by (auto intro: index_inv_mono simp: reg_ok_def)
  have "locals_in S w'" using ok ex by (auto simp: reg_ok_def locals_in_def)
  moreover have "index_inv (ai_insert_global a sz q ti g idx) w'"
    "ai_dynamics (ai_insert_global a sz q ti g idx) = ai_dynamics idx"
    unfolding ai_insert_global_def using index_inv_static [OF inv] inv ex by (simp_all add: is_local_of_def)
  ultimately show "reg_ok ds S (ai_insert_global a sz q ti g idx) (ensure_global (N_Global g) q' ti' a' sz' w)"
    using ok by (simp add: reg_ok_def w'_def)
qed

lemma register_fields_ok:
  "reg_ok ds S (fst (snd st)) (snd (snd st)) \<Longrightarrow>
     reg_ok ds S (fst (snd (register_fields left pn base ty gi st))) (snd (snd (register_fields left pn base ty gi st)))"
proof (induction left arbitrary: pn base ty st)
  case (Suc left)
  let ?P = "\<lambda>st. reg_ok ds S (fst (snd st)) (snd (snd st))"
  define body where "body = (\<lambda>f st.
       if fi_byte_size f = 0 \<or> fi_name f = ''<pointee>'' then st
       else
         (case st of (fi, idx, w) \<Rightarrow>
            (if fi = - 1 then st
             else
               (let faddr = base + fi_byte_offset f; q = pn @ ''.'' @ fi_name f;
                    st1 = (fi + 1, ai_insert_field faddr (fi_byte_size f) q (fi_type_info f) gi fi idx,
                           renew_node (N_Field gi fi) q (fi_type_info f) faddr (fi_byte_size f) w)
                in if \<not> ti_is_pointer (fi_type_info f) \<and> ti_fields (fi_type_info f) \<noteq> [] \<and> 8 < fi_byte_size f
                   then register_fields left q faddr (fi_type_info f) gi st1 else st1))))"
  have step: "?P (body f st)" if "?P st" for f st
    unfolding body_def using that
    by (cases st) (auto simp: Let_def reg_ok_field intro!: Suc.IH)
  have "?P (fold body fs st)" if "?P st" for fs st
    using that by (induction fs arbitrary: st) (simp_all add: step)
  from this [OF Suc.prems, of "ti_fields ty"] show ?case
    unfolding body_def by simp
qed simp

lemma place_global_ok:
  assumes "makes_node node" "reg_ok ds S idx w" "st_inv stm" "place_global node delta gi g (idx, w, stm) = (idx', w', stm')"
  shows "reg_ok ds S idx' w' \<and> st_inv stm'"
proof -
  let ?ty = "gv_type_info g" and ?base = "gv_addr g + delta"
  define idx1 where "idx1 = ai_insert_global ?base (gv_size g) (gv_name g) ?ty gi idx"
  define w1 where "w1 = node (N_Global gi) (gv_name g) ?ty ?base (gv_size g) w"
  define stm1 where "stm1 = (if ti_fields ?ty \<noteq> [] \<and> 0 < ti_byte_size ?ty
      then fst (stamp_type ?base ?ty (gv_name g) 0 stm) else stm)"
  have ok: "reg_ok ds S idx1 w1" unfolding idx1_def w1_def using assms(1,2) by (simp add: makes_node_def)
  have st: "st_inv stm1" using assms(3) by (simp add: stm1_def stamp_type_inv)
  from assms(4) have "(if ti_is_pointer ?ty then (idx1, w1, stm1)
      else (case register_fields 7 (gv_name g) ?base ?ty gi (0, idx1, w1) of (_, idx2, w2) \<Rightarrow> (idx2, w2, stm1)))
      = (idx', w', stm')"
    unfolding place_global_def split_conv Let_def idx1_def w1_def stm1_def .
  with ok st register_fields_ok [where st = "(0, idx1, w1)" and left = 7 and pn = "gv_name g" and base = ?base
      and ty = ?ty and gi = gi and ds = ds and S = S]
  show ?thesis by (auto split: if_splits prod.splits)
qed

lemma place_fold_ok:
  assumes "makes_node node" "reg_ok ds S idx w" "st_inv stm"
    "fold (\<lambda>x. place_global node (d x) (gi x) (g x)) xs (idx, w, stm) = (idx', w', stm')"
  shows "reg_ok ds S idx' w' \<and> st_inv stm'"
  using assms(2-4)
proof (induction xs arbitrary: idx w stm)
  case (Cons x xs)
  obtain i1 w1 s1 where p: "place_global node (d x) (gi x) (g x) (idx, w, stm) = (i1, w1, s1)"
    by (metis surj_pair)
  from place_global_ok [OF assms(1) Cons.prems(1,2) p] Cons.IH [of i1 w1 s1] Cons.prems(3) p show ?case by simp
qed simp

lemma populate_fold_ok:
  assumes "reg_ok ds S idx w" "st_inv stm" "fold (populate_global delta) gs (idx, w, stm) = (idx', w', stm')"
  shows "reg_ok ds S idx' w' \<and> st_inv stm'"
proof -
  have "populate_global delta = (\<lambda>x. place_global renew_node delta (of_nat (fst x)) (snd x))"
    by (auto simp: populate_global_def)
  with place_fold_ok [OF renew_makes_node assms(1,2)] assms(3) show ?thesis by simp
qed

lemma index_inv_finalize:
  "index_inv idx w \<Longrightarrow> index_inv (ai_finalize idx) w \<and> ai_statics_sorted (ai_finalize idx) \<and>
     ai_dynamics (ai_finalize idx) = ai_dynamics idx"
proof -
  have "registered (ai_finalize idx) = registered idx" "set (ai_statics (ai_finalize idx)) = set (ai_statics idx)"
    by (auto simp: registered_def ai_finalize_def)
  moreover have "ai_dynamics (ai_finalize idx) = ai_dynamics idx" "ai_statics_sorted (ai_finalize idx)"
    by (auto simp: ai_finalize_def)
  ultimately show "index_inv idx w \<Longrightarrow> ?thesis" by (simp add: index_inv_def ai_inv_finalize)
qed

lemma index_inv_new: "graph_inv w \<Longrightarrow> index_inv ai_new w"
  by (simp add: index_inv_def ai_inv_new) (simp add: registered_def ai_new_def)

end
