(* ===== verification/Engine_Inv.thy ===== *)
theory Engine_Inv
  imports Engine_Graph
begin

text \<open>
  Every event keeps the invariants of all parts of the engine and, when no location program divides
  and the shallow types can be patched within the fuel, is processed to its end.
\<close>

subsection \<open>The invariant of the engine\<close>

definition parts_inv :: "'f engine \<Rightarrow> bool" where
  "parts_inv en \<longleftrightarrow> st_inv (stm_of en) \<and> hg_inv (en_heap en) \<and> cl_inv (ws_cl_tracker (en_world en)) \<and>
     el_inv (ws_type_epochs (en_world en)) \<and> bt_inv (at_allocs (allocs_of en)) \<and>
     (\<forall>t rf. en_regs en t = Some rf \<longrightarrow> rf_wf rf) \<and>
     length (ws_hazards (en_world en)) \<le> 64 \<and> distinct (map hz_write_addr (ws_hazards (en_world en)))"

definition graph_part :: "'f engine \<Rightarrow> bool" where
  "graph_part en \<longleftrightarrow> index_inv (en_index en) (inner_of en) \<and> ai_statics_sorted (en_index en) \<and>
     frames_inv (en_index en) (inner_of en) (en_stacks en) (en_next_frame en) (en_returned en)"

definition engine_inv :: "'f engine \<Rightarrow> bool" where
  "engine_inv en \<longleftrightarrow> parts_inv en \<and> graph_part en"

text \<open>What the processing needs of the debug information to return.\<close>

definition patchable :: "nat \<Rightarrow> dwarf_info \<Rightarrow> bool" where
  "patchable fuel info \<longleftrightarrow>
     (\<forall>names. let reg = di_type_registry (fold ensure_in names info) in
        (\<forall>n t. map_of reg n = Some t \<longrightarrow> patch_shallow_fields fuel reg t \<noteq> None) \<and>
        (\<forall>sz pcs t. ao_resolve (di_alloc_oracle info) sz pcs = Some t \<longrightarrow> patch_shallow_fields fuel reg t \<noteq> None))"

definition div_free :: "local_var \<Rightarrow> bool" where
  "div_free l \<longleftrightarrow> list_all (\<lambda>(_, p). case p of Expr (StackMachine steps) \<Rightarrow> Div \<notin> set steps | _ \<Rightarrow> True) (lv_location l)"

definition no_division :: "dwarf_info \<Rightarrow> bool" where
  "no_division info \<longleftrightarrow> list_all (\<lambda>(_, f). list_all div_free (fm_locals f)) (di_functions info)"

definition debug_ok :: "nat \<Rightarrow> dwarf_info option \<Rightarrow> bool" where
  "debug_ok fuel dw \<longleftrightarrow> (case dw of None \<Rightarrow> True | Some info \<Rightarrow> patchable fuel info \<and> no_division info)"

lemma ensure_in_fields [simp]:
  "di_alloc_oracle (ensure_in n info) = di_alloc_oracle info"
  "di_functions (ensure_in n info) = di_functions info"
  "di_globals (ensure_in n info) = di_globals info"
  by (simp_all add: ensure_in_def split: prod.split)

lemma debug_ok_ensure:
  assumes "debug_ok fuel (Some info)"
  shows "debug_ok fuel (Some (ensure_in n info))"
proof -
  have "patchable fuel (ensure_in n info)"
    unfolding patchable_def
  proof
    fix names
    have "fold ensure_in names (ensure_in n info) = fold ensure_in (n # names) info" by simp
    with assms show "let reg = di_type_registry (fold ensure_in names (ensure_in n info)) in
        (\<forall>n t. map_of reg n = Some t \<longrightarrow> patch_shallow_fields fuel reg t \<noteq> None) \<and>
        (\<forall>sz pcs t. ao_resolve (di_alloc_oracle (ensure_in n info)) sz pcs = Some t \<longrightarrow> patch_shallow_fields fuel reg t \<noteq> None)"
      unfolding debug_ok_def option.case patchable_def ensure_in_fields by metis
  qed
  with assms show ?thesis by (simp add: debug_ok_def no_division_def)
qed


subsection \<open>Quiet operations\<close>

text \<open>
  Most operations leave the index, the graph and the stacks as they are; what they do to the other
  parts keeps their invariants.
\<close>

definition skel :: "'f engine \<Rightarrow> address_index \<times> world_inner \<times> (u16 \<rightharpoonup> shadow_stack) \<times> frame_id \<times> frame_id list" where
  "skel en = (en_index en, inner_of en, en_stacks en, en_next_frame en, en_returned en)"

lemma graph_part_skel: "skel en = skel en' \<Longrightarrow> graph_part en = graph_part en'"
  by (simp add: skel_def graph_part_def)

definition quiet :: "nat \<Rightarrow> 'f engine \<Rightarrow> 'f engine \<Rightarrow> bool" where
  "quiet fuel en en' \<longleftrightarrow> (parts_inv en \<longrightarrow> parts_inv en') \<and> skel en' = skel en \<and>
     (debug_ok fuel (en_dwarf en) \<longrightarrow> debug_ok fuel (en_dwarf en'))"

named_theorems quiet

lemma quiet_refl [quiet]: "quiet fuel en en"
  by (simp add: quiet_def)

lemma quiet_trans: "quiet fuel a b \<Longrightarrow> quiet fuel b c \<Longrightarrow> quiet fuel a c"
  by (simp add: quiet_def)

lemma quiet_engine:
  "quiet fuel en en' \<Longrightarrow> engine_inv en \<Longrightarrow> engine_inv en'"
  unfolding quiet_def engine_inv_def using graph_part_skel by blast

lemma quiet_topo [quiet]: "quiet fuel en (emit_topo fs en)"
  by (simp add: quiet_def emit_topo_def parts_inv_def skel_def)

lemma quiet_stm: "(st_inv (stm_of en) \<Longrightarrow> st_inv (g (stm_of en))) \<Longrightarrow> quiet fuel en (upd_stm g en)"
  by (simp add: quiet_def upd_stm_def upd_world_def parts_inv_def skel_def)

lemma quiet_srf: "(\<And>rf. rf_wf rf \<Longrightarrow> rf_wf (g rf)) \<Longrightarrow> quiet fuel en (upd_srf t g en)"
  by (auto simp: quiet_def upd_srf_def srf_of_def parts_inv_def skel_def rf_wf_new split: option.splits)

lemma quiet_bloom [quiet]: "quiet fuel en (insert_bloom a en)"
  by (simp add: quiet_def insert_bloom_def parts_inv_def skel_def)

lemma quiet_dwarf: "(debug_ok fuel (en_dwarf en) \<Longrightarrow> debug_ok fuel dw) \<Longrightarrow> quiet fuel en (en\<lparr>en_dwarf := dw\<rparr>)"
  by (simp add: quiet_def parts_inv_def skel_def)

lemma quiet_oracle [quiet]: "quiet fuel en (en\<lparr>en_oracle := x\<rparr>)"
  by (simp add: quiet_def parts_inv_def skel_def)

lemma quiet_heap: "(hg_inv (en_heap en) \<Longrightarrow> hg_inv g) \<Longrightarrow> quiet fuel en (en\<lparr>en_heap := g\<rparr>)"
  by (simp add: quiet_def parts_inv_def skel_def)

lemma quiet_fold: "(\<And>x en. quiet fuel en (f x en)) \<Longrightarrow> quiet fuel en (fold f xs en)"
  by (induction xs arbitrary: en) (auto intro: quiet_refl quiet_trans)

lemma quiet_epoch [quiet]: "quiet fuel en (upd_world (\<lambda>w. w\<lparr>ws_type_epochs := close_epoch a sz p sq r (ws_type_epochs w)\<rparr>) en)"
  by (simp add: quiet_def upd_world_def parts_inv_def skel_def close_epoch_def epochs.inv_push)

lemma quiet_close [quiet]: "quiet fuel en (close_typed a sz p sq r n en)"
  unfolding close_typed_def by (rule quiet_trans [OF quiet_epoch quiet_topo])

lemma quiet_close_if [quiet]: "quiet fuel en (close_if_typed a sz sq r n en)"
  unfolding close_if_typed_def by (simp add: quiet_close quiet_refl split: option.split)

lemma quiet_forget [quiet]: "quiet fuel en (forget_heap a sz en)"
  unfolding forget_heap_def by (rule quiet_heap) (simp add: on_free_spec)

lemma quiet_purge [quiet]: "quiet fuel en (purge_block a sz en)"
proof -
  have "st_inv s \<Longrightarrow> st_inv (purge_deferred a sz (purge_indirect a sz (fst (purge_range a sz s))))" for s
    using st_inv_apply [of s "[]" at_new "S_purge_range a sz"]
      st_inv_apply [of "fst (purge_range a sz s)" "[]" at_new "S_purge_indirect a sz"]
      st_inv_apply [of "purge_indirect a sz (fst (purge_range a sz s))" "[]" at_new "S_purge_deferred a sz"]
    by simp
  then show ?thesis unfolding purge_block_def by (intro quiet_trans [OF quiet_stm quiet_forget])
qed

lemma quiet_scan [quiet]: "quiet fuel en (scan_from seed sq mem reg en)"
  unfolding scan_from_def by (rule quiet_stm) (blast intro: scan_ext_inv retrospective_scan_ext)

lemma quiet_emit_stamp [quiet]: "quiet fuel en (emit_stamp_of sq a ti src en)"
  unfolding emit_stamp_of_def by (rule quiet_topo)

lemma quiet_settle [quiet]: "quiet fuel en (settle_stamp a ti src sq mem en)"
  unfolding settle_stamp_def Let_def
  by (intro quiet_trans [OF quiet_trans [OF quiet_stm quiet_scan] quiet_emit_stamp]) (rule st_inv_replay)

lemma quiet_deepen [quiet]:
  assumes "en_dwarf en = Some info"
  shows "quiet fuel en (deepen_stamp v sq info en)"
proof -
  have d: "quiet fuel en (en\<lparr>en_dwarf := Some (ensure_in n info)\<rparr>)" for n
    by (rule quiet_dwarf) (simp add: assms debug_ok_ensure)
  have s: "quiet fuel e (upd_stm (\<lambda>s. fst (stamp_type v ti src sq s)) e)" for e ti src
    by (rule quiet_stm) (rule stamp_type_inv)
  show ?thesis
    unfolding deepen_stamp_def Let_def
    using d s quiet_trans [OF d s] by (auto simp: quiet_refl split: option.split)
qed

lemma quiet_follow [quiet]:
  assumes "en_dwarf en = Some info"
  shows "quiet fuel en (follow_stamp v sq mem info en)"
proof -
  note q = quiet_trans [OF quiet_deepen [OF assms] quiet_scan]
  show ?thesis
    unfolding follow_stamp_def Let_def
    using q quiet_trans [OF q quiet_emit_stamp] by (simp split: option.split)
qed

lemma upd_stm_dwarf [simp]: "en_dwarf (upd_stm g en) = en_dwarf en"
  by (simp add: upd_stm_def upd_world_def)

lemma quiet_propagate [quiet]: "quiet fuel en (write_propagate ev mem en)"
proof (cases "en_dwarf en")
  case None
  then show ?thesis by (simp add: write_propagate_def quiet_refl)
next
  case (Some info)
  obtain stm1 stamped where p: "propagate_field_write (e_addr ev) (write_value ev) (e_size ev) (sq64 ev)
      (di_type_registry info) (allocs_of en) (stm_of en) = (stm1, stamped)" by fastforce
  have "st_inv (stm_of en) \<Longrightarrow> st_inv stm1"
    using propagate_spec [of "e_addr ev" "write_value ev" "e_size ev" "sq64 ev" "di_type_registry info" "allocs_of en" "stm_of en"]
    by (simp add: p)
  then have q: "quiet fuel en (upd_stm (\<lambda>_. stm1) en)" by (rule quiet_stm)
  have d: "quiet fuel e (upd_stm (defer_write a v sq) e)" for e :: "'a engine" and a v sq
    using st_inv_apply [of _ "[]" at_new "S_defer a v sq"] by (intro quiet_stm) simp
  have f: "quiet fuel (upd_stm (\<lambda>_. stm1) en) (follow_stamp (write_value ev) (sq64 ev) mem info (upd_stm (\<lambda>_. stm1) en))"
    by (rule quiet_follow) (simp add: Some)
  show ?thesis
    unfolding write_propagate_def Some option.case Let_def p split_conv
    using q quiet_trans [OF q f] quiet_trans [OF q d] by simp
qed


lemma quiet_observe [quiet]: "quiet fuel en (write_observe ev en)"
proof -
  have "rf_wf rf \<Longrightarrow> rf_wf (observe_write v pc sq f rf)" for rf v pc sq f
    using rf_wf_apply [of rf "O_write v pc sq f"] by simp
  then have "quiet fuel en (upd_srf t (observe_write v pc sq f) en)" for t v pc sq f by (rule quiet_srf)
  then show ?thesis by (simp add: write_observe_def Let_def quiet_refl split: option.split)
qed

lemma quiet_cohere [quiet]: "quiet fuel en (write_cohere ev writers en)"
proof -
  have "rf_wf rf \<Longrightarrow> rf_wf (check_coherence a v sz rf)" for rf a v sz
    using rf_wf_apply [of rf "O_coherence a v sz"] by simp
  then show ?thesis
    by (auto simp: write_cohere_def quiet_def parts_inv_def skel_def split: if_splits)
qed

lemma quiet_covering [quiet]: "quiet fuel (en :: 'a engine) (write_covering ev en)"
proof -
  have h: "quiet fuel e (covering_heat ev p e)" for e :: "'a engine" and p
    by (simp add: covering_heat_def Let_def upd_world_def quiet_def parts_inv_def skel_def)
  have w: "quiet fuel e (upd_world (\<lambda>w. w\<lparr>ws_type_stability := m\<rparr>) e)" for e :: "'a engine" and m
    by (simp add: upd_world_def quiet_def parts_inv_def skel_def)
  have s: "quiet fuel e (covering_stability ev p e)" for e :: "'a engine" and p
    unfolding covering_stability_def Let_def using w quiet_trans [OF w quiet_topo] by (simp split: prod.split)
  have l: "quiet fuel e (covering_link ev p e)" for e :: "'a engine" and p
    unfolding covering_link_def Let_def by (simp add: quiet_refl quiet_topo split: option.split)
  show ?thesis
    unfolding write_covering_def
    by (simp add: quiet_refl quiet_trans [OF quiet_trans [OF h s] l] split: option.split)
qed

lemma check_bounds_addr: "check_write_bounds a sz stm t = Some h \<Longrightarrow> hz_write_addr h = a"
  by (auto simp: check_write_bounds_def Let_def split: option.splits if_splits)

text \<open>A hazard is stored at an address that has none yet, and at most 64 are.\<close>

lemma quiet_hazard [quiet]: "quiet fuel en (write_hazard ev en)"
proof -
  have add: "quiet fuel en (upd_world (\<lambda>w. w\<lparr>ws_hazards := ws_hazards w @ [h1]\<rparr>) (emit_topo fs en))"
    if "length (ws_hazards (en_world en)) < 64"
      "\<not> list_ex (\<lambda>prev. hz_write_addr prev = hz_write_addr h1) (ws_hazards (en_world en))" for h1 fs
  proof -
    have "hz_write_addr h1 \<notin> set (map hz_write_addr (ws_hazards (en_world en)))"
      using that(2) by (auto simp: list_ex_iff)
    with that(1) show ?thesis
      by (simp add: upd_world_def emit_topo_def quiet_def parts_inv_def skel_def)
  qed
  have keep: "list_ex (\<lambda>prev. hz_write_addr prev = hz_write_addr (h\<lparr>hz_pc := x, hz_reg_snapshot := y\<rparr>)) hs =
      list_ex (\<lambda>prev. hz_write_addr prev = hz_write_addr h) hs" for h x y hs by simp
  show ?thesis
  proof (cases "length (ws_hazards (en_world en)) < 64")
    case False
    then show ?thesis by (simp add: write_hazard_def Let_def quiet_refl)
  next
    case True
    show ?thesis
    proof (cases "check_write_bounds (e_addr ev) (e_size ev) (stm_of en) (allocs_of en)")
      case None
      with True show ?thesis by (simp add: write_hazard_def Let_def quiet_refl)
    next
      case (Some h)
      show ?thesis
        unfolding write_hazard_def Let_def using True Some add [OF True] keep
        by (cases "in_grace h (en_world en) \<or> list_ex (\<lambda>prev. hz_write_addr prev = hz_write_addr h) (ws_hazards (en_world en))")
           (simp_all add: quiet_refl)
    qed
  qed
qed

lemma write_heap_spec:
  assumes "parts_inv en"
  shows "\<exists>en'. write_heap F ev mem en = Value en' \<and> quiet fuel en en'"
proof (cases "is_heap (en_oracle en) (e_addr ev)")
  case False
  then show ?thesis by (simp add: write_heap_def quiet_refl)
next
  case True
  from assms have "hg_inv (en_heap en)" by (simp add: parts_inv_def)
  from process_write_spec [OF this, of F "en_oracle en" "e_addr ev" "e_size ev" "write_value ev" "sq64 ev"]
  obtain g where g: "process_write F (en_oracle en) (e_addr ev) (e_size ev) (write_value ev) (sq64 ev) (en_heap en) = Value g" "hg_inv g"
    by blast
  have "quiet fuel en (en\<lparr>en_heap := g\<rparr>)" by (rule quiet_heap) (rule g(2))
  from quiet_trans [OF quiet_trans [OF quiet_trans [OF this quiet_covering] quiet_propagate] quiet_hazard]
  show ?thesis using True g(1) by (simp add: write_heap_def)
qed


subsection \<open>Pointer writes\<close>

lemma quiet_change [quiet]: "quiet fuel en (note_change reuse ot os oq a nt src sq en)"
proof -
  have "quiet fuel en (case alloc_size (allocs_of en) a of None \<Rightarrow> en
          | Some sz \<Rightarrow> upd_world (\<lambda>w. w\<lparr>ws_type_epochs := close_epoch a sz
              \<lparr>tp_base_addr = a, tp_type_info = opaque_type ot sz, tp_source_name = os, tp_stamp_seq = oq\<rparr>
              sq Close_Schism (ws_type_epochs w)\<rparr>) en)"
    by (simp add: quiet_refl quiet_epoch split: option.split)
  then show ?thesis unfolding note_change_def Let_def
    by (rule quiet_trans [OF quiet_trans [OF _ quiet_topo] quiet_topo])
qed

lemma quiet_result [quiet]: "quiet fuel en (note_result res a nt src sq en)"
  by (simp add: note_result_def quiet_refl quiet_change split: stamp_result.split)

lemma registry_patch:
  assumes "debug_ok fuel (Some info)"
  shows "map_of (di_type_registry (ensure_in n info)) m = Some t \<Longrightarrow>
      patch_shallow_fields fuel (di_type_registry (ensure_in n info)) t \<noteq> None"
    and "ao_resolve (di_alloc_oracle info) sz pcs = Some t \<Longrightarrow>
      patch_shallow_fields fuel (di_type_registry (ensure_in n info)) t \<noteq> None"
proof -
  from assms have "let reg = di_type_registry (fold ensure_in [n] info) in
        (\<forall>n t. map_of reg n = Some t \<longrightarrow> patch_shallow_fields fuel reg t \<noteq> None) \<and>
        (\<forall>sz pcs t. ao_resolve (di_alloc_oracle info) sz pcs = Some t \<longrightarrow> patch_shallow_fields fuel reg t \<noteq> None)"
    unfolding debug_ok_def option.case patchable_def by blast
  then have p: "(\<forall>n' t. map_of (di_type_registry (ensure_in n info)) n' = Some t \<longrightarrow>
        patch_shallow_fields fuel (di_type_registry (ensure_in n info)) t \<noteq> None) \<and>
      (\<forall>sz pcs t. ao_resolve (di_alloc_oracle info) sz pcs = Some t \<longrightarrow>
        patch_shallow_fields fuel (di_type_registry (ensure_in n info)) t \<noteq> None)"
    unfolding Let_def fold.simps id_def comp_def .
  show "map_of (di_type_registry (ensure_in n info)) m = Some t \<Longrightarrow>
      patch_shallow_fields fuel (di_type_registry (ensure_in n info)) t \<noteq> None"
    and "ao_resolve (di_alloc_oracle info) sz pcs = Some t \<Longrightarrow>
      patch_shallow_fields fuel (di_type_registry (ensure_in n info)) t \<noteq> None"
    using p by blast+
qed

lemma quiet_check_size [quiet]:
  "quiet fuel en (upd_world (\<lambda>w. w\<lparr>ws_heap_allocs := fst (check_size v ti (ws_heap_allocs w))\<rparr>) en)"
  by (simp add: upd_world_def quiet_def parts_inv_def skel_def check_size_def split: option.split)

lemma stamp_pointee_spec:
  assumes "debug_ok fuel (en_dwarf en)"
  shows "\<exists>en'. stamp_pointee fuel ev mem h en = Value en' \<and> quiet fuel en en'"
proof (cases "en_dwarf en")
  case None
  then show ?thesis by (simp add: stamp_pointee_def quiet_refl)
next
  case (Some info)
  define pn where "pn = pointee_name (lr_type_info h)"
  define info1 where "info1 = ensure_in pn info"
  define en1 where "en1 = en\<lparr>en_dwarf := Some info1\<rparr>"
  have ok: "debug_ok fuel (Some info)" using assms Some by simp
  then have q1: "quiet fuel en en1"
    unfolding en1_def info1_def by (intro quiet_dwarf debug_ok_ensure)
  show ?thesis
  proof (cases "map_of (di_type_registry info1) pn")
    case None
    with q1 show ?thesis unfolding stamp_pointee_def Some option.case Let_def pn_def [symmetric] info1_def [symmetric] en1_def [symmetric]
      by simp
  next
    case t: (Some ti)
    with registry_patch(1) [OF ok, of pn pn ti] obtain ti' where p: "patch_shallow_fields fuel (di_type_registry info1) ti = Some ti'"
      by (auto simp: info1_def)
    define en2 where "en2 = upd_world (\<lambda>w. w\<lparr>ws_heap_allocs := fst (check_size (e_value ev) ti' (ws_heap_allocs w))\<rparr>) en1"
    obtain stm1 res where st: "stamp_type (e_value ev) ti' (lr_name h) (sq64 ev) (stm_of en2) = (stm1, res)" by fastforce
    have "st_inv (stm_of en2) \<Longrightarrow> st_inv stm1"
      using stamp_type_inv [of "stm_of en2" "e_value ev" ti' "lr_name h" "sq64 ev"] by (simp add: st)
    then have q3: "quiet fuel en2 (upd_stm (\<lambda>_. stm1) en2)" by (rule quiet_stm)
    have q2: "quiet fuel en1 en2" unfolding en2_def by (rule quiet_check_size)
    define en3 where "en3 = note_result res (e_value ev) (ti_name ti') (lr_name h) (sq64 ev) (upd_stm (\<lambda>_. stm1) en2)"
    have q: "quiet fuel en en3"
      unfolding en3_def by (rule quiet_trans [OF quiet_trans [OF quiet_trans [OF q1 q2] q3] quiet_result])
    have "quiet fuel en (if took_effect res
        then settle_stamp (e_value ev) ti' (lr_name h) (sq64 ev) mem (insert_bloom (e_value ev) en3) else en3)"
      using q quiet_trans [OF quiet_trans [OF q quiet_bloom] quiet_settle] by simp
    moreover have "stamp_pointee fuel ev mem h en = Value (if took_effect res
        then settle_stamp (e_value ev) ti' (lr_name h) (sq64 ev) mem (insert_bloom (e_value ev) en3) else en3)"
      unfolding stamp_pointee_def Some option.case Let_def pn_def [symmetric] info1_def [symmetric] en1_def [symmetric]
        t p en2_def [symmetric] st split_conv en3_def [symmetric] ..
    ultimately show ?thesis by blast
  qed
qed


subsection \<open>Operations on the index and the graph\<close>

definition good :: "nat \<Rightarrow> frame_id \<Rightarrow> 'f engine \<Rightarrow> bool" where
  "good fuel n en \<longleftrightarrow> engine_inv en \<and> debug_ok fuel (en_dwarf en) \<and> en_next_frame en = n"

lemma good_quiet: "quiet fuel en en' \<Longrightarrow> good fuel n en \<Longrightarrow> good fuel n en'"
  using quiet_engine [of fuel en en'] by (simp add: good_def quiet_def skel_def)

lemma upd_inner_const: "upd_inner g en = upd_inner (\<lambda>_. g (inner_of en)) en"
  by (simp add: upd_inner_def upd_world_def)

lemma frames_inv_cong:
  "ai_dynamics idx' = ai_dynamics idx \<Longrightarrow> (\<And>j. node_exists j w' = node_exists j w) \<Longrightarrow>
     frames_inv idx' w' stacks n ret = frames_inv idx w stacks n ret"
  by (simp add: frames_inv_def locals_in_def)

lemma upd_inner_fields [simp]:
  "inner_of (upd_inner g en) = g (inner_of en)" "en_index (upd_inner g en) = en_index en"
  "en_stacks (upd_inner g en) = en_stacks en" "en_next_frame (upd_inner g en) = en_next_frame en"
  "en_returned (upd_inner g en) = en_returned en" "en_dwarf (upd_inner g en) = en_dwarf en"
  "parts_inv (upd_inner g en) = parts_inv en"
  by (simp_all add: upd_inner_def upd_world_def parts_inv_def)

lemma good_inner:
  assumes "good fuel n en" "graph_inv w'" "\<And>j. node_exists j w' = node_exists j (inner_of en)"
  shows "good fuel n (upd_inner (\<lambda>_. w') en)"
proof -
  have e: "parts_inv en" "index_inv (en_index en) (inner_of en)" "ai_statics_sorted (en_index en)"
    "frames_inv (en_index en) (inner_of en) (en_stacks en) n (en_returned en)"
    "debug_ok fuel (en_dwarf en)" "en_next_frame en = n"
    using assms(1) by (auto simp: good_def engine_inv_def graph_part_def)
  have "index_inv (en_index en) w'"
    by (rule index_inv_mono [OF e(2) assms(2)]) (simp add: assms(3))
  moreover have "frames_inv (en_index en) w' (en_stacks en) n (en_returned en)"
    using e(4) frames_inv_cong [OF refl assms(3), of "en_index en"] by simp
  ultimately show ?thesis using e by (simp add: good_def engine_inv_def graph_part_def)
qed

lemma good_graph: "good fuel n en \<Longrightarrow> graph_inv (inner_of en)"
  by (simp add: good_def engine_inv_def graph_part_def index_inv_def)

lemma find_node_spec:
  assumes "good fuel n en" "find_node a en = (en1, r)"
  shows "good fuel n en1 \<and> inner_of en1 = inner_of en \<and> en_dwarf en1 = en_dwarf en \<and>
    (\<forall>h. r = Some h \<longrightarrow> node_exists (lr_node_id h) (inner_of en1))"
proof -
  obtain idx where l: "ai_lookup a (en_index en) = (idx, r)" and en1: "en1 = en\<lparr>en_index := idx\<rparr>"
    using assms(2) by (auto simp: find_node_def split: prod.splits)
  have "index_inv (en_index en) (inner_of en)" "ai_statics_sorted (en_index en)"
    using assms(1) by (simp_all add: good_def engine_inv_def graph_part_def)
  note i = index_inv_lookup [OF this l]
  have "parts_inv en1" using assms(1) by (simp add: en1 good_def engine_inv_def parts_inv_def)
  moreover have "graph_part en1"
    using assms(1) i frames_inv_cong [of idx "en_index en" "inner_of en" "inner_of en"]
    by (auto simp: en1 good_def engine_inv_def graph_part_def)
  ultimately show ?thesis using assms(1) i by (simp add: en1 good_def engine_inv_def)
qed

lemma write_pointer_spec:
  assumes "good fuel n en" "node_exists (lr_node_id h) (inner_of en)"
  shows "\<exists>en'. write_pointer fuel ev mem h en = Value en' \<and> good fuel n en'"
proof -
  define v where "v = e_value ev"
  define found where "found = (if v = 0 then (en, None) else find_node v en)"
  define en1 where "en1 = upd_inner (update_edge (lr_node_id h) (map_option lr_node_id (snd found)) v) (fst found)"
  have f: "good fuel n (fst found) \<and> inner_of (fst found) = inner_of en \<and>
      (\<forall>t. snd found = Some t \<longrightarrow> node_exists (lr_node_id t) (inner_of en))"
    using assms(1) find_node_spec [OF assms(1), of v "fst (find_node v en)" "snd (find_node v en)"]
    by (cases "v = 0") (auto simp: found_def)
  let ?w = "update_edge (lr_node_id h) (map_option lr_node_id (snd found)) v (inner_of en)"
  have "graph_inv ?w"
    using f assms(2) good_graph [OF assms(1)] by (intro graph_inv_edge) auto
  moreover have "node_exists j ?w = node_exists j (inner_of en)" for j
    by (simp add: update_edge_def split: option.split)
  moreover have "en1 = upd_inner (\<lambda>_. ?w) (fst found)"
    unfolding en1_def by (subst upd_inner_const) (simp add: f)
  ultimately have g1: "good fuel n en1" using good_inner [of fuel n "fst found" ?w] f by simp
  obtain en2 where en2: "(if is_heap (en_oracle en1) v then stamp_pointee fuel ev mem h en1 else Value en1) = Value en2"
    "good fuel n en2"
  proof (cases "is_heap (en_oracle en1) v")
    case True
    have "debug_ok fuel (en_dwarf en1)" using g1 by (simp add: good_def)
    from stamp_pointee_spec [OF this, of ev mem h] True g1 show ?thesis
      by (auto intro: that good_quiet)
  qed (use g1 that in auto)
  show ?thesis
    unfolding write_pointer_def Let_def v_def [symmetric] found_def [symmetric] en1_def [symmetric]
    using g1 en2 good_quiet [OF quiet_topo en2(2)] by simp
qed

lemma write_node_spec:
  assumes "good fuel n en"
  shows "\<exists>en' b. write_node fuel ev mem en = Value (en', b) \<and> good fuel n en'"
proof (cases "find_node (e_addr ev) en")
  case (Pair en1 r)
  note f = find_node_spec [OF assms Pair]
  show ?thesis
  proof (cases r)
    case None
    then have "write_node fuel ev mem en = Value (en1, False)" using Pair by (simp add: write_node_def)
    with f show ?thesis by blast
  next
    case (Some h)
    define w where "w = inner_of en1"
    have ex: "node_exists (lr_node_id h) w" using f Some by (auto simp: w_def)
    then have e: "fst (ensure_node (lr_node_id h) (lr_name h) (lr_type_info h) (e_addr ev) (ucast (e_size ev)) w) = w"
      by (simp add: ensure_node_def)
    define en2 where "en2 = upd_inner (\<lambda>_. update_value (lr_node_id h) (write_value ev) (wi_insn_counter w) w) en1"
    have g: "graph_inv w" unfolding w_def using f by (blast intro: good_graph)
    have nodes: "node_exists j (update_value i v x w) = node_exists j w" for j i v x
      using update_value_nodes [of w i v x] g by (simp add: graph_inv_def)
    have g2: "good fuel n en2"
      unfolding en2_def using f graph_inv_value [OF g] nodes by (intro good_inner) (auto simp: w_def)
    have ex2: "node_exists (lr_node_id h) (inner_of en2)"
      using ex nodes by (simp add: en2_def)
    from write_pointer_spec [OF g2 ex2, of ev mem] g2 show ?thesis
      unfolding write_node_def Pair split_conv Some option.case Let_def w_def [symmetric] e en2_def [symmetric]
      by (auto split: if_splits)
  qed
qed

lemma quiet_cl_write:
  assumes "record_cl_write a tid (en_world en) = (w, m)"
  shows "quiet fuel en (en\<lparr>en_world := w\<rparr>)"
  using assms cl_inv_record [of "ws_cl_tracker (en_world en)" a tid]
  by (auto simp: record_cl_write_def quiet_def parts_inv_def skel_def split: prod.splits)

lemma on_event_write_spec:
  assumes "good fuel n en"
  shows "\<exists>en' b. on_event_write F fuel ev mem en = Value (en', b) \<and> good fuel n en'"
proof -
  obtain w m where r: "record_cl_write (e_addr ev) (e_thread_id ev) (en_world en) = (w, m)" by fastforce
  define en0 where "en0 = write_cohere ev m (write_observe ev (en\<lparr>en_world := w\<rparr>))"
  have "good fuel n en0"
    unfolding en0_def using assms quiet_trans [OF quiet_trans [OF quiet_cl_write [OF r] quiet_observe] quiet_cohere]
    by (blast intro: good_quiet)
  moreover from this have "parts_inv en0" by (simp add: good_def engine_inv_def)
  from write_heap_spec [OF this, of F ev mem fuel] obtain en1 where "write_heap F ev mem en0 = Value en1" "quiet fuel en0 en1"
    by blast
  ultimately have "write_heap F ev mem en0 = Value en1" "good fuel n en1" by (auto intro: good_quiet)
  with write_node_spec [of fuel n en1 ev mem] show ?thesis
    unfolding on_event_write_def r split_conv en0_def [symmetric] by auto
qed


subsection \<open>Calls and returns\<close>

lemma local_address_value:
  assumes "div_free l"
  shows "\<exists>a. local_address f pc regs fb l = Value a"
proof -
  have r: "resolve_location p regs fb cfa \<noteq> Panic" if "(x, p) \<in> set (lv_location l)" for x p cfa
  proof
    assume "resolve_location p regs fb cfa = Panic"
    then obtain steps where "p = Expr (StackMachine steps)" "Div \<in> set steps" by (blast dest: resolve_panic_div)
    with assms that show False by (auto simp: div_free_def list_all_iff)
  qed
  have r': "\<exists>a. (case resolve_location p regs fb cfa of Panic \<Rightarrow> Panic | Value None \<Rightarrow> Value d | Value (Some a) \<Rightarrow> Value a) = Value a"
    if "(x, p) \<in> set (lv_location l)" for x p cfa d
    using r [OF that] by (cases "resolve_location p regs fb cfa") (auto split: option.split)
  define piece where "piece = (case lt_lookup (lv_location l) pc of Some p \<Rightarrow> Some p
       | None \<Rightarrow> (case lv_location l of [] \<Rightarrow> None | (_, p) # _ \<Rightarrow> Some p))"
  have "\<exists>x. (x, p) \<in> set (lv_location l)" if "piece = Some p" for p
    using that by (auto simp: piece_def lt_lookup_def find_Some_iff split: option.splits list.splits)
      (metis nth_mem)
  note mem = this
  show ?thesis
  proof (cases piece)
    case None
    then show ?thesis unfolding local_address_def Let_def piece_def [symmetric] by simp
  next
    case (Some p)
    with mem obtain x where "(x, p) \<in> set (lv_location l)" by blast
    with Some r' [OF this, of "fb + lv_frame_offset l" "fm_frame_base_is_cfa f"] show ?thesis
      unfolding local_address_def Let_def piece_def [symmetric]
      by (cases p) (simp_all del: resolve_location.simps)
  qed
qed

lemma place_locals_value:
  assumes "\<forall>(_, l) \<in> set ls. div_free l"
  shows "\<exists>w'. place_locals f pc fb fid ls w = Value w'"
  using assms
proof (induction ls arbitrary: w)
  case (Cons x ls)
  obtain li l where x: "x = (li, l)" by (cases x)
  obtain a where "local_address f pc (lrf_values (wi_reg_file w)) fb l = Value a"
    using local_address_value Cons.prems by (fastforce simp: x)
  with Cons show ?case by (simp add: x)
qed simp

lemma enter_function_spec:
  assumes good: "good fuel n en" and room: "unat n + 1 < 2 ^ 64"
    and nodiv: "list_all div_free (fm_locals f)"
  shows "\<exists>en'. enter_function ev pc f en = Value en' \<and> good fuel (n + 1) en'"
proof -
  have nxt: "en_next_frame en = n" using good by (simp add: good_def)
  define stacks where "stacks = (en_stacks en)(e_thread_id ev \<mapsto> push_call n (e_addr ev) (fm_name f) (stack_of (e_thread_id ev) en))"
  define en1 where "en1 = en\<lparr>en_next_frame := n + 1, en_stacks := stacks\<rparr>"
  define idx where "idx = (if fm_locals f \<noteq> [] then insert_frame_locals n (e_value ev) (frame_locals f) (en_index en) else en_index en)"
  have "\<forall>(_, l) \<in> set (enumerate 0 (fm_locals f)). div_free l"
    using nodiv by (auto simp: in_set_enumerate_eq list_all_iff)
  from place_locals_value [OF this] obtain w where
    w: "place_locals f pc (e_value ev) n (enumerate 0 (fm_locals f)) (inner_of en) = Value w" by blast
  from place_locals_spec [OF good_graph [OF good] w] have
    g: "graph_inv w" "\<And>j. node_exists j w \<longleftrightarrow> node_exists j (inner_of en) \<or>
      j \<in> (\<lambda>(li, _). N_Local n (of_nat li)) ` set (enumerate 0 (fm_locals f))" by blast+
  have inv: "parts_inv en" "index_inv (en_index en) (inner_of en)" "ai_statics_sorted (en_index en)"
    "frames_inv (en_index en) (inner_of en) (en_stacks en) n (en_returned en)" "debug_ok fuel (en_dwarf en)"
    using good by (auto simp: good_def engine_inv_def graph_part_def)
  have iw: "index_inv (en_index en) w" by (rule index_inv_mono [OF inv(2) g(1)]) (simp add: g(2))
  have nodes: "node_exists (N_Local n (of_nat li)) w" if "li < length (frame_locals f)" for li
  proof -
    have "(li, fm_locals f ! li) \<in> set (enumerate 0 (fm_locals f))"
      using that by (simp add: in_set_enumerate_eq frame_locals_def)
    then show ?thesis using g(2) by (fastforce intro: rev_image_eqI)
  qed
  have i: "index_inv idx w"
    using index_inv_insert [OF iw nodes] iw by (simp add: idx_def)
  have dyn: "dom (map_of (ai_dynamics idx)) \<subseteq> insert n (dom (map_of (ai_dynamics (en_index en))))"
    by (auto simp: idx_def insert_locals_dynamics update_conv' split: if_splits)
  have loc: "node_exists j w \<Longrightarrow> node_exists j (inner_of en) \<or> is_local_of n j" for j
    using g(2) by (auto simp: is_local_of_def)
  have "frames_inv idx w stacks (n + 1) (en_returned en)"
    unfolding stacks_def stack_of_def by (rule frames_inv_call [OF inv(4) room loc dyn])
  moreover have "ai_statics_sorted idx" using inv(3) by (simp add: idx_def insert_locals_dynamics)
  moreover have "enter_function ev pc f en = Value ((upd_inner (\<lambda>_. w) en1)\<lparr>en_index := idx\<rparr>)"
    unfolding enter_function_def Let_def nxt stacks_def [symmetric] en1_def [symmetric]
    using w by (simp add: idx_def en1_def upd_inner_def upd_world_def)
  moreover have "parts_inv ((upd_inner (\<lambda>_. w) en1)\<lparr>en_index := idx\<rparr>)"
    using inv(1) by (simp add: en1_def upd_inner_def upd_world_def parts_inv_def)
  ultimately show ?thesis
    using i inv(5) by (simp add: good_def engine_inv_def graph_part_def en1_def)
qed

lemma upd_srf_fields [simp]:
  "en_dwarf (upd_srf t g en) = en_dwarf en" "en_delta (upd_srf t g en) = en_delta en"
  "en_stacks (upd_srf t g en) = en_stacks en"
  by (simp_all add: upd_srf_def)

lemma on_event_call_spec:
  assumes good: "good fuel n en" and room: "unat n + 1 < 2 ^ 64"
  shows "\<exists>en' n'. on_event_call ev en = Value en' \<and> good fuel n' en' \<and> unat n' \<le> unat n + 1"
proof -
  define en2 where "en2 = (upd_srf (e_thread_id ev) (rf_on_call (e_addr ev) (e_value ev) (sq64 ev)) en)
      \<lparr>en_oracle := update_stack (e_thread_id ev) (e_value ev)
         (en_oracle (upd_srf (e_thread_id ev) (rf_on_call (e_addr ev) (e_value ev) (sq64 ev)) en))\<rparr>"
  have "rf_wf rf \<Longrightarrow> rf_wf (rf_on_call a v s rf)" for rf a v s
    using rf_wf_apply [of rf "O_call a v s"] by simp
  then have "quiet fuel en en2" unfolding en2_def by (intro quiet_trans [OF quiet_srf quiet_oracle])
  then have g2: "good fuel n en2" using good by (rule good_quiet)
  show ?thesis
  proof (cases "en_dwarf en2")
    case None
    with g2 show ?thesis unfolding on_event_call_def Let_def en2_def [symmetric] by auto
  next
    case (Some info)
    show ?thesis
    proof (cases "bt_get (di_functions info) (elf_pc en2 (e_addr ev))")
      case None
      with Some g2 show ?thesis unfolding on_event_call_def Let_def en2_def [symmetric] by auto
    next
      case f: (Some f)
      have "no_division info" using g2 Some by (simp add: good_def debug_ok_def)
      with f have "list_all div_free (fm_locals f)"
        unfolding no_division_def by (fastforce simp: list_all_iff dest: map_of_SomeD)
      from enter_function_spec [OF g2 room this, of ev "elf_pc en2 (e_addr ev)"] obtain en' where
        e: "enter_function ev (elf_pc en2 (e_addr ev)) f en2 = Value en'" "good fuel (n + 1) en'" by blast
      have "on_event_call ev en = Value en'"
        unfolding on_event_call_def Let_def en2_def [symmetric] using Some f e(1) by simp
      with e(2) unat_suc [OF room] show ?thesis by auto
    qed
  qed
qed

lemma on_event_return_spec:
  assumes good: "good fuel n en"
  shows "good fuel n (on_event_return ev en)"
proof -
  define tid where "tid = e_thread_id ev"
  define en1 where "en1 = upd_srf tid (return_srf ev (en_dwarf en)) en"
  have "rf_wf rf \<Longrightarrow> rf_wf (return_srf ev dw rf)" for rf dw
    using rf_wf_apply [of rf "O_return s pc" for s pc] rf_wf_apply [of rf "O_return_cfi s pc saved" for s pc saved]
    by (auto simp: return_srf_def split: option.split)
  then have g1: "good fuel n en1" unfolding en1_def by (intro good_quiet [OF quiet_srf good])
  then have inv: "parts_inv en1" "index_inv (en_index en1) (inner_of en1)" "ai_statics_sorted (en_index en1)"
    "frames_inv (en_index en1) (inner_of en1) (en_stacks en1) n (en_returned en1)" "debug_ok fuel (en_dwarf en1)"
    "en_next_frame en1 = n"
    by (auto simp: good_def engine_inv_def graph_part_def)
  show ?thesis
  proof (cases "en_stacks en1 tid")
    case None
    with g1 show ?thesis unfolding on_event_return_def Let_def tid_def [symmetric] en1_def [symmetric] by simp
  next
    case (Some s)
    show ?thesis
    proof (cases "ss_frames s = []")
      case True
      define en2 where "en2 = en1\<lparr>en_stacks := (en_stacks en1)(tid \<mapsto> s\<lparr>ss_mismatches := ss_mismatches s + 1\<rparr>)\<rparr>"
      have "frame_ids (en_stacks en2) = frame_ids (en_stacks en1)"
        using Some by (auto simp: fun_eq_iff frame_ids_def en2_def)
      then have "frames_inv (en_index en1) (inner_of en1) (en_stacks en2) n (en_returned en1)"
        using inv(4) by (simp add: frames_inv_def live_frames_def)
      then have "good fuel n en2"
        using inv by (simp add: good_def engine_inv_def graph_part_def en2_def parts_inv_def)
      then show ?thesis
        unfolding on_event_return_def Let_def tid_def [symmetric] en1_def [symmetric] Some option.case pop_return_def
        using True by (simp add: en2_def)
    next
      case False
      define fid where "fid = kf_frame_id (last (ss_frames s))"
      define stacks where "stacks = (en_stacks en1)(tid \<mapsto> s\<lparr>ss_frames := butlast (ss_frames s)\<rparr>)"
      obtain ret w where ev: "evict_frames (en_returned en1 @ [fid]) (inner_of en1) = (ret, w)" by fastforce
      from frames_inv_return [OF inv(2,4) Some False ev [unfolded fid_def]]
      have r: "index_inv (remove_frame fid (en_index en1)) w" "frames_inv (remove_frame fid (en_index en1)) w stacks n ret"
        by (simp_all add: fid_def stacks_def)
      define en3 where "en3 = upd_inner (\<lambda>_. w) (en1\<lparr>en_stacks := stacks, en_index := remove_frame fid (en_index en1), en_returned := ret\<rparr>)"
      have "parts_inv en3" using inv(1) by (simp add: en3_def upd_inner_def upd_world_def parts_inv_def)
      moreover have "ai_statics_sorted (remove_frame fid (en_index en1))" using inv(3) by (simp add: remove_frame_def)
      ultimately have "good fuel n en3"
        using r inv(5,6) by (simp add: good_def engine_inv_def graph_part_def en3_def)
      moreover have "on_event_return ev en = en3"
        unfolding on_event_return_def Let_def tid_def [symmetric] en1_def [symmetric] Some option.case pop_return_def
        using False ev by (simp add: en3_def leave_frame_def fid_def stacks_def upd_inner_def upd_world_def)
      ultimately show ?thesis by simp
    qed
  qed
qed


subsection \<open>Allocations and frees\<close>

lemma stamp_at_birth_spec:
  assumes "debug_ok fuel (en_dwarf en)" "en_dwarf en = Some info"
  shows "\<exists>en'. stamp_at_birth fuel ev mem sz pcs info en = Value en' \<and> quiet fuel en en'"
proof (cases "ao_resolve (di_alloc_oracle info) sz pcs")
  case None
  then show ?thesis by (simp add: stamp_at_birth_def quiet_refl)
next
  case (Some ti)
  define info1 where "info1 = ensure_in (ti_name ti) info"
  define en1 where "en1 = en\<lparr>en_dwarf := Some info1\<rparr>"
  define a where "a = e_addr ev"
  define src where "src = alloc_source pcs"
  have ok: "debug_ok fuel (Some info)" using assms by simp
  have q1: "quiet fuel en en1"
    unfolding en1_def info1_def using ok by (intro quiet_dwarf debug_ok_ensure)
  obtain ti' where p: "patch_shallow_fields fuel (di_type_registry info1)
      (case map_of (di_type_registry info1) (ti_name ti) of Some t \<Rightarrow> t | None \<Rightarrow> ti) = Some ti'"
    using registry_patch(1) [OF ok, of "ti_name ti" "ti_name ti"] registry_patch(2) [OF ok Some, of "ti_name ti"]
    by (cases "map_of (di_type_registry info1) (ti_name ti)") (auto simp: info1_def)
  obtain stm1 res where st: "stamp_type a ti' src (sq64 ev) (stm_of en1) = (stm1, res)" by fastforce
  have "st_inv (stm_of en1) \<Longrightarrow> st_inv stm1"
    using stamp_type_inv [of "stm_of en1" a ti' src "sq64 ev"] by (simp add: st)
  then have q2: "quiet fuel en (upd_stm (\<lambda>_. stm1) en1)" by (rule quiet_trans [OF q1 quiet_stm])
  define en3 where "en3 = fold (\<lambda>f. insert_bloom (a + fi_byte_offset f)) (ti_fields ti') (insert_bloom a (upd_stm (\<lambda>_. stm1) en1))"
  have "quiet fuel en en3"
    unfolding en3_def by (rule quiet_trans [OF quiet_trans [OF q2 quiet_bloom] quiet_fold]) (rule quiet_bloom)
  then have "quiet fuel en (if took_effect res then settle_stamp a ti' src (sq64 ev) mem en3 else upd_stm (\<lambda>_. stm1) en1)"
    using q2 quiet_trans [OF _ quiet_settle, of fuel en en3] by simp
  moreover have "stamp_at_birth fuel ev mem sz pcs info en =
      Value (if took_effect res then settle_stamp a ti' src (sq64 ev) mem en3 else upd_stm (\<lambda>_. stm1) en1)"
    unfolding stamp_at_birth_def Some option.case Let_def a_def [symmetric] info1_def [symmetric] src_def [symmetric]
      en1_def [symmetric] p [unfolded option.case] st split_conv en3_def [symmetric]
    using p st by (simp add: en3_def)
  ultimately show ?thesis by blast
qed

lemma quiet_on_alloc:
  "quiet fuel en (upd_world (\<lambda>w. w\<lparr>ws_last_alloc_event_count := ws_total_event_count w,
      ws_heap_allocs := fst (on_alloc a sz (ws_heap_allocs w))\<rparr>) en)"
  by (simp add: upd_world_def quiet_def parts_inv_def skel_def on_alloc_def bt.inv_ins)

lemma quiet_purge_range: "quiet fuel en (upd_stm (\<lambda>s. fst (purge_range a sz s)) en)"
  using st_inv_apply [of _ "[]" at_new "S_purge_range a sz"] by (intro quiet_stm) simp

lemma quiet_track [quiet]: "quiet fuel en (track_alloc ev sz en)"
proof -
  define a sq where "a = e_addr ev" and "sq = sq64 ev"
  define en1 where "en1 = upd_world (\<lambda>w. w\<lparr>ws_last_alloc_event_count := ws_total_event_count w,
      ws_heap_allocs := fst (on_alloc a sz (ws_heap_allocs w))\<rparr>) en"
  have q1: "quiet fuel en en1" unfolding en1_def by (rule quiet_on_alloc)
  have "quiet fuel en1 (emit_topo (emit_alloc sq (e_thread_id ev) a sz)
          (forget_heap a old (upd_stm (\<lambda>s. fst (purge_range a old s)) (close_if_typed a old sq Close_Realloc ''realloc'' en1))))" for old
    by (rule quiet_trans [OF quiet_trans [OF quiet_trans [OF quiet_close_if quiet_purge_range] quiet_forget] quiet_topo])
  then have "quiet fuel en1 (track_alloc ev sz en)"
    unfolding track_alloc_def Let_def a_def [symmetric] sq_def [symmetric] en1_def [symmetric]
    by (simp add: quiet_refl quiet_topo split: option.split)
  with q1 show ?thesis by (rule quiet_trans)
qed

lemma on_event_alloc_spec:
  assumes good: "good fuel n en"
  shows "\<exists>en'. on_event_alloc fuel ev mem en = Value en' \<and> good fuel n en'"
proof -
  define sz where "sz = (if e_value ev \<noteq> 0 then e_value ev else ucast (e_size ev))"
  define en2 where "en2 = track_alloc ev sz en"
  have g2: "good fuel n en2" unfolding en2_def using good by (rule good_quiet [OF quiet_track])
  show ?thesis
  proof (cases "en_dwarf en2 = None \<or> en_delta en2 = None")
    case True
    then have "on_event_alloc fuel ev mem en = Value en2"
      unfolding on_event_alloc_def Let_def sz_def [symmetric] en2_def [symmetric] by (auto split: option.split)
    with g2 show ?thesis by blast
  next
    case False
    then obtain info delta where d: "en_dwarf en2 = Some info" "en_delta en2 = Some delta"
      by (cases "en_dwarf en2"; cases "en_delta en2") auto
    have "debug_ok fuel (en_dwarf en2)" using g2 by (simp add: good_def)
    from stamp_at_birth_spec [OF this d(1), of ev mem sz] g2 show ?thesis
      unfolding on_event_alloc_def Let_def sz_def [symmetric] en2_def [symmetric]
      by (simp add: d) (blast intro: good_quiet)
  qed
qed

lemma quiet_on_free: "quiet fuel en (upd_world (\<lambda>w. w\<lparr>ws_heap_allocs := fst (on_free a (ws_heap_allocs w))\<rparr>) en)"
  by (simp add: upd_world_def quiet_def parts_inv_def skel_def on_free_def Let_def bt.inv_del)

lemma quiet_event_free: "quiet fuel en (on_event_free ev en)"
proof -
  have a: "quiet fuel en (emit_topo fs (purge_block a old (close_if_typed a old sq r nm
      (upd_world (\<lambda>w. w\<lparr>ws_heap_allocs := fst (on_free a (ws_heap_allocs w))\<rparr>) en))))" for fs a old sq r nm
    by (rule quiet_trans [OF quiet_trans [OF quiet_trans [OF quiet_on_free quiet_close_if] quiet_purge] quiet_topo])
  have b: "quiet fuel en (purge_block a sz (close_typed a sz p sq r nm
      (upd_world (\<lambda>w. w\<lparr>ws_heap_allocs := fst (on_free a (ws_heap_allocs w))\<rparr>) en)))" for a sz p sq r nm
    by (rule quiet_trans [OF quiet_trans [OF quiet_on_free quiet_close] quiet_purge])
  show ?thesis
    unfolding on_event_free_def Let_def by (simp add: a b quiet_on_free split: option.split)
qed


subsection \<open>The other events\<close>

lemma good_insn: "good fuel n en \<Longrightarrow> good fuel n (upd_inner inc_insn_counter en)"
  by (subst upd_inner_const, rule good_inner)
     (simp_all add: graph_inv_other good_graph, simp add: node_exists_def inc_insn_counter_def)

lemma quiet_heatmap: "quiet fuel en (upd_world (\<lambda>w. w\<lparr>ws_field_heatmap := g (ws_field_heatmap w)\<rparr>) en)"
  by (simp add: upd_world_def quiet_def parts_inv_def skel_def)

lemma good_read:
  assumes "good fuel n en"
  shows "good fuel n (on_event_read ev en)"
proof -
  note g = good_insn [OF assms]
  note h = good_quiet [OF quiet_heatmap g]
  show ?thesis
    unfolding on_event_read_def Let_def
    by (cases "is_heap (en_oracle (upd_inner inc_insn_counter en)) (e_addr ev) \<and> e_value ev \<noteq> 0")
       (simp_all add: g h split: option.split)
qed

lemma good_reload: "good fuel n en \<Longrightarrow> good fuel n (on_event_reload ev en)"
proof -
  have "rf_wf rf \<Longrightarrow> rf_wf (rf_on_reload i v a sz s pc rf)" for rf i v a sz s pc
    using rf_wf_apply [of rf "O_reload i v a sz s pc"] by simp
  then show "good fuel n en \<Longrightarrow> good fuel n (on_event_reload ev en)"
    unfolding on_event_reload_def by (blast intro: good_quiet quiet_srf)
qed

lemma good_miss:
  assumes "good fuel n en"
  shows "good fuel n (on_event_cache_miss F ev en)"
proof -
  obtain en1 r where f: "find_node (e_addr ev) en = (en1, r)" by fastforce
  then have "good fuel n en1" using find_node_spec [OF assms] by blast
  moreover from this have "good fuel n (upd_world (record_cache_miss F i) en1)" for i
    by (rule good_quiet [rotated]) (simp add: upd_world_def record_cache_miss_def quiet_def parts_inv_def skel_def)
  ultimately show ?thesis
    unfolding on_event_cache_miss_def f split_conv by (cases r) simp_all
qed

lemma good_bb: "good fuel n en \<Longrightarrow> good fuel n (upd_world (record_bb_entry r) en)"
proof -
  assume g: "good fuel n en"
  have q: "quiet fuel e (upd_world (\<lambda>w. w\<lparr>ws_bb_hits := g (ws_bb_hits w)\<rparr>) e)" for e :: "'a engine" and g
    by (simp add: upd_world_def quiet_def parts_inv_def skel_def)
  have "upd_world (record_bb_entry r) en = upd_inner inc_insn_counter (upd_world (\<lambda>w. w\<lparr>ws_bb_hits :=
      (ws_bb_hits w)(r \<mapsto> (case ws_bb_hits w r of None \<Rightarrow> 0 | Some n \<Rightarrow> n) + 1)\<rparr>) en)"
    by (simp add: upd_world_def upd_inner_def record_bb_entry_def)
  then show "good fuel n (upd_world (record_bb_entry r) en)"
    using good_insn [OF good_quiet [OF q [of en "\<lambda>h. h(r \<mapsto> (case h r of None \<Rightarrow> 0 | Some n \<Rightarrow> n) + 1)"] g]] by simp
qed

text \<open>The registration of globals: the nodes of locals are those of live and of lately returned frames.\<close>

abbreviation known_frames :: "'f engine \<Rightarrow> frame_id set" where
  "known_frames en \<equiv> live_frames (en_stacks en) \<union> set (en_returned en)"

lemma good_reg_ok:
  "good fuel n en \<Longrightarrow> reg_ok (ai_dynamics (en_index en)) (known_frames en) (en_index en) (inner_of en) \<and> st_inv (stm_of en)"
  by (simp add: good_def engine_inv_def graph_part_def parts_inv_def reg_ok_def frames_inv_def)

lemma good_placed:
  assumes "good fuel n en" "reg_ok (ai_dynamics (en_index en)) (known_frames en) idx w" "st_inv stm" "ai_statics_sorted idx"
  shows "good fuel n (en\<lparr>en_index := idx, en_world := (en_world en)\<lparr>ws_inner := w, ws_stm := stm\<rparr>\<rparr>)"
  using assms by (auto simp: good_def engine_inv_def graph_part_def parts_inv_def reg_ok_def frames_inv_def)

lemma reg_ok_finalize: "reg_ok ds S idx w \<Longrightarrow> reg_ok ds S (ai_finalize idx) w \<and> ai_statics_sorted (ai_finalize idx)"
  using index_inv_finalize [of idx w] by (auto simp: reg_ok_def)

lemma good_populate:
  assumes "good fuel n en"
  shows "good fuel n (populate_globals info delta en)"
proof -
  obtain idx w stm where p: "fold (populate_global delta) (enumerate 0 (di_globals info)) (en_index en, inner_of en, stm_of en) = (idx, w, stm)"
    by (metis surj_pair)
  from good_reg_ok [OF assms] have r: "reg_ok (ai_dynamics (en_index en)) (known_frames en) idx w" "st_inv stm"
    using populate_fold_ok [OF _ _ p] by blast+
  from good_placed [OF assms _ r(2)] reg_ok_finalize [OF r(1)] show ?thesis
    unfolding populate_globals_def p by simp
qed

lemma ensure_in_functions: "ensure_in nm (info\<lparr>di_functions := fns\<rparr>) = (ensure_in nm info)\<lparr>di_functions := fns\<rparr>"
  by (simp add: ensure_in_def split: prod.split)

lemma patchable_functions: "patchable fuel (info\<lparr>di_functions := fns\<rparr>) = patchable fuel info"
proof -
  have "fold ensure_in nms (info\<lparr>di_functions := fns\<rparr>) = (fold ensure_in nms info)\<lparr>di_functions := fns\<rparr>" for nms
    by (induction nms arbitrary: info) (simp_all add: ensure_in_functions)
  then show ?thesis by (simp add: patchable_def Let_def)
qed

abbreviation all_div_free :: "func_map \<Rightarrow> bool" where
  "all_div_free fns \<equiv> list_all (\<lambda>(_, f). list_all div_free (fm_locals f)) fns"

lemma div_free_relocated:
  assumes "all_div_free fs" "all_div_free fns"
  shows "all_div_free (fold (relocate_function d) fs fns)"
  using assms
proof (induction fs arbitrary: fns)
  case (Cons x fs)
  obtain pc f where x: "x = (pc, f)" by (cases x)
  have "all_div_free (bt_insert (pc + d) (f\<lparr>fm_low_pc := pc + d, fm_high_pc := fm_high_pc f + d\<rparr>) fns)"
    by (rule list_all_bt_insert [OF Cons.prems(2)]) (use Cons.prems(1) x in simp)
  with Cons.IH Cons.prems(1) show ?case by (simp add: x relocate_function_def)
qed simp

definition lib_relocated :: "(u64 \<times> lib_dwarf) list \<Rightarrow> func_map \<Rightarrow> func_map" where
  "lib_relocated dls fns = fold (\<lambda>(d, lg). fold (relocate_function d) (ld_functions lg)) dls fns"

lemma div_free_libs:
  assumes "\<And>d lg. (d, lg) \<in> set dls \<Longrightarrow> all_div_free (ld_functions lg)" "all_div_free fns"
  shows "all_div_free (lib_relocated dls fns)"
  using assms unfolding lib_relocated_def
proof (induction dls arbitrary: fns)
  case (Cons x xs)
  obtain d lg where x: "x = (d, lg)" by (cases x)
  have "all_div_free (ld_functions lg)" by (rule Cons.prems(1) [of d]) (simp add: x)
  note d = div_free_relocated [OF this Cons.prems(2), of d]
  have "all_div_free (fold (\<lambda>(d, lg). fold (relocate_function d) (ld_functions lg)) xs (fold (relocate_function d) (ld_functions lg) fns))"
    using Cons.prems(1) d by (intro Cons.IH) (auto intro: list.set_intros(2))
  then show ?case by (simp add: x)
qed simp

definition lib_placed :: "u32 \<Rightarrow> (u64 \<times> global_var) list \<Rightarrow> address_index \<times> world_inner \<times> shadow_type_map \<Rightarrow>
    address_index \<times> world_inner \<times> shadow_type_map" where
  "lib_placed first gs = fold (\<lambda>(i, d, g). place_global ensure_global d (first + of_nat i) g) (enumerate 0 gs)"

lemma lib_placed_ok:
  assumes "reg_ok ds S idx0 w0" "st_inv stm0" "lib_placed first gs (idx0, w0, stm0) = (idx, w, stm)"
  shows "reg_ok ds S idx w \<and> st_inv stm"
proof -
  have "(\<lambda>(i, d, g). place_global ensure_global d (first + of_nat i) g) =
      (\<lambda>x. place_global ensure_global (fst (snd x)) (first + of_nat (fst x)) (snd (snd x)))"
    by (simp add: case_prod_beta fun_eq_iff)
  with place_fold_ok [OF ensure_makes_node assms(1,2)] assms(3) show ?thesis by (simp add: lib_placed_def)
qed

lemma populate_lib_globals_cases:
  assumes "populate_lib_globals tab info en = (en', n, m)"
  obtains "en' = en" "n = 0" "m = 0"
  | dls idx w stm where "tab \<noteq> []" "map (\<lambda>x. Some (fst x)) dls = map (lib_delta tab) (di_lib_globals info)"
      "map snd dls = di_lib_globals info"
      "lib_placed (of_nat (length (di_globals info))) (lib_entries dls) (en_index en, inner_of en, stm_of en) = (idx, w, stm)"
      "en' = en\<lparr>en_index := if lib_entries dls = [] then idx else ai_finalize idx,
                    en_world := (en_world en)\<lparr>ws_inner := w, ws_stm := stm\<rparr>,
                    en_dwarf := Some (info\<lparr>di_functions := lib_relocated dls (di_functions info)\<rparr>)\<rparr>"
      "n = length (lib_entries dls)" "m = sum_list (map (\<lambda>lg. length (ld_functions lg)) (di_lib_globals info))"
proof (cases "tab = [] \<or> None \<in> set (map (lib_delta tab) (di_lib_globals info))")
  case True
  then have "populate_lib_globals tab info en = (en, 0, 0)" unfolding populate_lib_globals_def Let_def by (rule if_P)
  with assms that(1) show ?thesis by simp
next
  case False
  define dls where "dls = zip (map the (map (lib_delta tab) (di_lib_globals info))) (di_lib_globals info)"
  have s: "map snd dls = di_lib_globals info" by (simp add: dls_def)
  have "lib_delta tab lg \<noteq> None" if "lg \<in> set (di_lib_globals info)" for lg
    using False that by force
  then have "map Some (map fst dls) = map (lib_delta tab) (di_lib_globals info)" by (simp add: dls_def)
  then have d: "map (\<lambda>x. Some (fst x)) dls = map (lib_delta tab) (di_lib_globals info)" by (simp add: comp_def)
  obtain idx w stm where p: "lib_placed (of_nat (length (di_globals info))) (lib_entries dls)
      (en_index en, inner_of en, stm_of en) = (idx, w, stm)" using prod_cases3 by blast
  from assms have "en' = en\<lparr>en_index := if lib_entries dls = [] then idx else ai_finalize idx,
                    en_world := (en_world en)\<lparr>ws_inner := w, ws_stm := stm\<rparr>,
                    en_dwarf := Some (info\<lparr>di_functions := lib_relocated dls (di_functions info)\<rparr>)\<rparr>"
      "n = length (lib_entries dls)" "m = sum_list (map (\<lambda>lg. length (ld_functions lg)) (di_lib_globals info))"
    unfolding populate_lib_globals_def Let_def if_not_P [OF False] dls_def [symmetric] lib_placed_def [symmetric]
      lib_relocated_def [symmetric] p by simp_all
  with False s d p that(2) show ?thesis by blast
qed

lemma good_lib_globals:
  assumes good: "good fuel n en" and info: "en_dwarf en = Some info"
    and libs: "\<And>lg. lg \<in> set (di_lib_globals info) \<Longrightarrow> all_div_free (ld_functions lg)"
    and run: "populate_lib_globals tab info en = (en', g, m)"
  shows "good fuel n en'"
  using run
proof (cases rule: populate_lib_globals_cases)
  case 1
  with good show ?thesis by simp
next
  case (2 dls idx w stm)
  define idx' where "idx' = (if lib_entries dls = [] then idx else ai_finalize idx)"
  note r = lib_placed_ok [OF good_reg_ok [OF good, THEN conjunct1] good_reg_ok [OF good, THEN conjunct2] 2(4)]
  have "ai_statics_sorted idx'"
  proof (cases "lib_entries dls = []")
    case True
    with 2(4) have "idx = en_index en" by (simp add: lib_placed_def)
    with True good show ?thesis by (simp add: idx'_def good_def engine_inv_def graph_part_def)
  next
    case False
    with reg_ok_finalize [OF conjunct1 [OF r]] show ?thesis by (simp add: idx'_def)
  qed
  moreover have "reg_ok (ai_dynamics (en_index en)) (known_frames en) idx' w"
    using r reg_ok_finalize [OF conjunct1 [OF r]] by (simp add: idx'_def)
  ultimately have g: "good fuel n (en\<lparr>en_index := idx', en_world := (en_world en)\<lparr>ws_inner := w, ws_stm := stm\<rparr>\<rparr>)"
    using good_placed [OF good _ conjunct2 [OF r]] by blast
  have ok: "patchable fuel info" "no_division info" using good info by (simp_all add: good_def debug_ok_def)
  have "lg \<in> set (di_lib_globals info)" if "(d, lg) \<in> set dls" for d lg
    using that 2(3) by (metis image_eqI list.set_map snd_conv)
  with libs ok(2) have "all_div_free (lib_relocated dls (di_functions info))"
    by (intro div_free_libs) (simp_all add: no_division_def)
  with ok(1) have "debug_ok fuel (Some (info\<lparr>di_functions := lib_relocated dls (di_functions info)\<rparr>))"
    by (simp add: debug_ok_def patchable_functions no_division_def)
  then have "good fuel n (en\<lparr>en_index := idx', en_world := (en_world en)\<lparr>ws_inner := w, ws_stm := stm\<rparr>,
      en_dwarf := Some (info\<lparr>di_functions := lib_relocated dls (di_functions info)\<rparr>)\<rparr>)"
    by (intro good_quiet [OF quiet_dwarf g])
  then show ?thesis unfolding 2(5) idx'_def .
qed

lemma good_reset_index:
  assumes "good fuel n en"
  shows "good fuel n (en\<lparr>en_delta := d, en_index := ai_new\<rparr>)"
proof -
  have "index_inv ai_new (inner_of en)" by (rule index_inv_new [OF good_graph [OF assms]])
  moreover have "ai_statics_sorted ai_new" "ai_dynamics ai_new = []" by (simp_all add: ai_new_def)
  moreover have "parts_inv en" "debug_ok fuel (en_dwarf en)" "en_next_frame en = n"
    "frames_inv (en_index en) (inner_of en) (en_stacks en) n (en_returned en)"
    using assms by (auto simp: good_def engine_inv_def graph_part_def)
  ultimately show ?thesis
    by (simp add: good_def engine_inv_def graph_part_def parts_inv_def frames_inv_def)
qed

lemma good_module:
  assumes "good fuel n en"
  shows "good fuel n (on_event_module_load ev en)"
proof -
  define en1 where "en1 = en\<lparr>en_oracle := add_module (e_addr ev) (e_value ev) (en_oracle en)\<rparr>"
  have g1: "good fuel n en1" unfolding en1_def by (rule good_quiet [OF quiet_oracle assms])
  show ?thesis
    unfolding on_event_module_load_def Let_def en1_def [symmetric]
    using g1 good_populate [OF good_reset_index [OF g1]] by (auto split: option.split)
qed

lemma quiet_count: "quiet fuel en (upd_world (\<lambda>w. w\<lparr>ws_total_event_count := x w\<rparr>) en)"
  "quiet fuel en (upd_world (\<lambda>w. w\<lparr>ws_unknown_event_kinds := x w\<rparr>) en)"
  by (simp_all add: upd_world_def quiet_def parts_inv_def skel_def)

lemma process_event_spec:
  assumes "good fuel n en0" "unat n + 1 < 2 ^ 64"
  shows "\<exists>en b n'. process_event F fuel mem ev en0 = Value (en, b) \<and> good fuel n' en \<and> unat n' \<le> unat n + 1"
proof -
  define en where "en = upd_world (\<lambda>w. w\<lparr>ws_total_event_count := ws_total_event_count w + 1\<rparr>) en0"
  have g: "good fuel n en" unfolding en_def using assms(1) by (rule good_quiet [OF quiet_count(1)])
  let ?Q = "\<lambda>r. \<exists>en b n'. r = Value (en, b) \<and> good fuel n' en \<and> unat n' \<le> unat n + 1"
  have h: "?Q (handled e)" if "good fuel n e" for e
    unfolding handled_def using that by (intro exI [of _ e] exI [of _ True] exI [of _ n]) simp
  obtain e1 b1 where e1: "on_event_write F fuel ev mem en = Value (e1, b1)" "good fuel n e1"
    using on_event_write_spec [OF g, of F ev mem] by blast
  have w: "?Q (on_event_write F fuel ev mem en)"
    unfolding e1(1) using e1(2) by (intro exI [of _ e1] exI [of _ b1] exI [of _ n]) simp
  have c: "?Q (handled_if (on_event_call ev en))"
  proof -
    obtain e n' where "on_event_call ev en = Value e" "good fuel n' e" "unat n' \<le> unat n + 1"
      using on_event_call_spec [OF g assms(2), of ev] by blast
    then show ?thesis by auto
  qed
  obtain e2 where e2: "on_event_alloc fuel ev mem en = Value e2" "good fuel n e2"
    using on_event_alloc_spec [OF g, of ev mem] by blast
  have a: "?Q (handled_if (on_event_alloc fuel ev mem en))"
    unfolding e2(1) handled_if.simps using e2(2) by (intro exI [of _ e2] exI [of _ True] exI [of _ n]) simp
  have u: "?Q (Value (upd_world (\<lambda>w. w\<lparr>ws_unknown_event_kinds := ws_unknown_event_kinds w + 1\<rparr>) en, False))"
    using good_quiet [OF quiet_count(2) g, of "\<lambda>w. ws_unknown_event_kinds w + 1"]
    by (intro exI [of _ "upd_world (\<lambda>w. w\<lparr>ws_unknown_event_kinds := ws_unknown_event_kinds w + 1\<rparr>) en"] exI [of _ False] exI [of _ n]) simp
  have ifQ: "?Q x \<Longrightarrow> ?Q y \<Longrightarrow> ?Q (if b then x else y)" for b x y by simp
  note hs = h [OF on_event_return_spec [OF g]] h [OF good_quiet [OF quiet_oracle g]] h [OF g]
      h [OF good_miss [OF g]] h [OF good_reload [OF g]] h [OF good_quiet [OF quiet_event_free g]] h [OF good_read [OF g]]
      h [OF good_bb [OF g]] h [OF good_module [OF g]]
  show ?thesis
    unfolding process_event_def Let_def en_def [symmetric]
    by (intro ifQ w c a u hs)
qed


subsection \<open>Histories of events\<close>

fun run_events ::
  "'f f32_ops \<Rightarrow> nat \<Rightarrow> (read_word option \<times> event) list \<Rightarrow> 'f engine \<Rightarrow> 'f engine outcome" where
  "run_events F fuel [] en = Value en"
| "run_events F fuel ((mem, ev) # evs) en =
     (case process_event F fuel mem ev en of Panic \<Rightarrow> Panic | Value (en', _) \<Rightarrow> run_events F fuel evs en')"

lemma run_events_spec:
  assumes "good fuel n en" "unat n + length evs < 2 ^ 64"
  shows "\<exists>en' n'. run_events F fuel evs en = Value en' \<and> good fuel n' en'"
  using assms
proof (induction evs arbitrary: en n)
  case (Cons e evs)
  obtain mem ev where e: "e = (mem, ev)" by (cases e)
  have "unat n + 1 < 2 ^ 64" using Cons.prems(2) by simp
  from process_event_spec [OF Cons.prems(1) this, of F mem ev] obtain en1 b n1 where
    s: "process_event F fuel mem ev en = Value (en1, b)" "good fuel n1 en1" "unat n1 \<le> unat n + 1" by blast
  have "unat n1 + length evs < 2 ^ 64" using s(3) Cons.prems(2) by simp
  from Cons.IH [OF s(2) this] s(1) show ?case by (simp add: e)
qed auto

text \<open>
  The engine before the first event, with the debug information and the stream it was given: the
  globals are registered at their link-time addresses and the candidate structures are collected.
\<close>

definition engine_new :: "dwarf_info option \<Rightarrow> ring_orchestrator \<Rightarrow> topology_stream option \<Rightarrow> 'f engine" where
  "engine_new dw orch topo = \<lparr>en_world = ws_new, en_index = ai_new, en_dwarf = dw, en_stacks = Map.empty,
     en_next_frame = 1, en_delta = None, en_returned = [], en_regs = Map.empty, en_heap = hg_new,
     en_oracle = ho_new, en_topo = topo, en_orch = orch\<rparr>"

definition engine_start :: "dwarf_info option \<Rightarrow> ring_orchestrator \<Rightarrow> topology_stream option \<Rightarrow> 'f engine" where
  "engine_start dw orch topo =
     (case dw of None \<Rightarrow> engine_new dw orch topo
      | Some info \<Rightarrow>
          (let en = populate_globals info 0 (engine_new dw orch topo)
           in en\<lparr>en_heap := init_candidates (di_globals info) (di_functions info) (en_heap en)\<rparr>))"

lemma good_new:
  assumes "debug_ok fuel dw"
  shows "good fuel 1 (engine_new dw orch topo)"
proof -
  have "parts_inv (engine_new dw orch topo)"
    by (simp add: parts_inv_def engine_new_def ws_new_def hg_inv_new cl_inv_new el_inv_new at_new_def bt_inv_def)
       (simp add: st_inv_def st_new_def)
  moreover have "graph_part (engine_new dw orch topo)"
    by (simp add: graph_part_def engine_new_def ws_new_def index_inv_new graph_inv_new frames_inv_def frame_ids_def
        live_frames_def locals_in_def node_exists_def) (simp add: ai_new_def wi_new_def)
  ultimately show ?thesis using assms by (simp add: good_def engine_inv_def) (simp add: engine_new_def)
qed

lemma good_start:
  assumes "debug_ok fuel dw"
  shows "good fuel 1 (engine_start dw orch topo)"
proof (cases dw)
  case None
  with good_new [OF assms] show ?thesis by (simp add: engine_start_def)
next
  case (Some info)
  let ?en = "populate_globals info 0 (engine_new dw orch topo)"
  have h: "hg_inv g \<Longrightarrow> hg_inv (init_candidates gs fns g)" for g gs fns
    by (simp add: init_candidates_def Let_def hg_inv_def)
  have "quiet fuel ?en (?en\<lparr>en_heap := init_candidates (di_globals info) (di_functions info) (en_heap ?en)\<rparr>)"
    by (rule quiet_heap) (rule h)
  from good_quiet [OF this good_populate [OF good_new [OF assms]]] Some show ?thesis
    by (simp add: engine_start_def Let_def)
qed

end
