(* ===== verification/Engine_Props.thy ===== *)
theory Engine_Props
  imports Engine_Inv
begin

text \<open>
  The properties of the engine: its invariant over histories of events, what a free forgets, how a
  register snapshot is applied, and what happens to events it does not know.
\<close>

subsection \<open>Histories\<close>

text \<open>
  C23 (invariant).  From its start the engine processes every history of fewer than
  \<open>2\<close>\<open>^\<close>\<open>64 - 1\<close> events to the end, whatever the events and the memory hold, when no location
  program divides and shallow types can be patched within the fuel; and in the state it reaches all
  parts are well formed together: every interval of the address index belongs to a node of the
  graph, no edge points to a missing node, the nodes of locals belong to live frames or to the last
  32 frames that returned, there are at most 64 hazards, at different addresses, and the type map,
  the heap graph, the cache lines, the epoch log, the tracker and the shadow registers keep their
  own invariants.
\<close>

theorem engine_run_invariant:
  assumes "debug_ok fuel dw" "length evs < 2 ^ 64 - 1"
  shows "\<exists>en. run_events F fuel evs (engine_start dw orch topo) = Value en \<and> engine_inv en"
proof -
  have "unat (1 :: u64) + length evs < 2 ^ 64" using assms(2) by simp
  from run_events_spec [OF good_start [OF assms(1)] this, of F orch topo] show ?thesis by (auto simp: good_def)
qed

lemmas kind_names = EVENT_WRITE_def EVENT_READ_def EVENT_CALL_def EVENT_RETURN_def EVENT_CACHE_MISS_def
  EVENT_MODULE_LOAD_def EVENT_TAIL_CALL_def EVENT_ALLOC_def EVENT_FREE_def EVENT_BB_ENTRY_def EVENT_RELOAD_def
  EVENT_PROCESS_FORK_def EVENT_SHARED_MAP_def EVENT_REG_SNAPSHOT_def

text \<open>A small program: one structure, one global pointer to it, one function with a local.\<close>

definition demo_node :: type_info where
  "demo_node = Type_Info ''node'' 16 False False False False
     [Field_Info ''next'' 0 8 (Type_Info ''*node'' 8 True False False False []) 0,
      Field_Info ''key'' 8 8 (Type_Info ''long'' 8 False False False False []) 0]"

definition demo_info :: dwarf_info where
  "demo_info = \<lparr>di_globals = [\<lparr>gv_name = ''head'', gv_addr = 0x4000, gv_size = 8,
        gv_type_info = Type_Info ''*node'' 8 True False False False [], gv_location = []\<rparr>],
     di_functions = [(0x1000, \<lparr>fm_name = ''main'', fm_low_pc = 0x1000, fm_high_pc = 0x1100, fm_frame_base_is_cfa = True,
        fm_locals = [\<lparr>lv_frame_offset = 16, lv_name = ''n'', lv_size = 8,
          lv_type_info = Type_Info ''*node'' 8 True False False False [], lv_location = lt_single (FrameBaseOffset 16)\<rparr>]\<rparr>)],
     di_elf_base_vaddr = 0, di_type_registry = [(''node'', demo_node)], di_cfi = [], di_container_of = Map.empty, di_lib_globals = [],
     di_alloc_oracle = \<lparr>ao_unique = [16 \<mapsto> demo_node], ao_ambiguous = Map.empty, ao_callsite = []\<rparr>,
     di_types_materialized = 0, di_entries = None\<rparr>"

lemma ensure_without_file: "fst (ensure_type_inner left None n reg) = reg"
proof (induction left arbitrary: n reg)
  case (Suc left)
  have f: "fold (\<lambda>t r. fst (ensure_type_inner left None t r)) ns r = r" for ns r
    by (induction ns) (simp_all add: Suc.IH)
  have "fst (resolve_deep None n reg) = reg" for n
    by (simp add: resolve_deep_def Let_def)
  then show ?case by (auto simp: f resolve_deep_def Let_def split: option.split)
qed simp

lemma registry_without_file:
  assumes "di_entries info = None"
  shows "di_type_registry (fold ensure_in ns info) = di_type_registry info"
proof -
  have e: "di_type_registry (ensure_in n i) = di_type_registry i \<and> di_entries (ensure_in n i) = None"
    if "di_entries i = None" for n i
    using ensure_without_file [of 7 n "di_type_registry i"] that
    by (auto simp: ensure_in_def ensure_type_def split: prod.splits bool.splits)
  have "di_entries i = None \<Longrightarrow> di_type_registry (fold ensure_in ns i) = di_type_registry i" for i
    by (induction ns arbitrary: i) (simp_all add: e)
  from this [OF assms] show ?thesis .
qed

lemma demo_debug_ok: "debug_ok 2 (Some demo_info)"
proof -
  have p: "patch_shallow_fields 2 [(''node'', demo_node)] demo_node \<noteq> None" by code_simp
  have "ao_resolve (di_alloc_oracle demo_info) sz pcs = Some t \<Longrightarrow> t = demo_node" for sz pcs t
    by (auto simp: ao_resolve_def demo_info_def split: if_splits)
  moreover have "di_type_registry (fold ensure_in ns demo_info) = [(''node'', demo_node)]" for ns
    by (simp add: registry_without_file demo_info_def)
  ultimately have "patchable 2 demo_info"
    using p by (auto simp: patchable_def Let_def split: if_splits)
  moreover have "no_division demo_info" by code_simp
  ultimately show ?thesis by (simp add: debug_ok_def)
qed

text \<open>Scores as fractions over 100 in the integers; any operations would do.\<close>

definition cent_ops :: "int f32_ops" where
  "cent_ops = \<lparr>f_lit = (\<lambda>n d. 100 * n div int d), f_of_u32 = (\<lambda>n. 100 * uint n), f_add = (+), f_sub = (-),
     f_mul = (\<lambda>x y. x * y div 100), f_div = (\<lambda>x y. 100 * x div y), f_min = min, f_max = max,
     f_lt = (<), f_le = (\<le>)\<rparr>"

definition demo_event :: "u32 \<Rightarrow> u64 \<Rightarrow> u64 \<Rightarrow> event" where
  "demo_event k a v = \<lparr>e_addr = a, e_size = 8, e_thread_id = 1, e_seq = 7, e_value = v, e_kind_flags = k, e_rip_lo = 0x1234\<rparr>"

definition demo_history :: "(read_word option \<times> event) list" where
  "demo_history = [(None, demo_event 7 0x10000 0x20000), (None, demo_event 9 0x900000 16),
     (None, demo_event 2 0x11000 0x7000), (None, demo_event 0 0x14000 0x900000),
     (None, demo_event 3 0 0), (None, demo_event 10 0x900000 0), (None, demo_event 200 0 0)]"

theorem engine_run_invariant_witness:
  "\<exists>en. run_events cent_ops 2 demo_history (engine_start (Some demo_info) ro_new None) = Value en \<and> engine_inv en"
  by (rule engine_run_invariant [OF demo_debug_ok]) (simp add: demo_history_def)


subsection \<open>Frees\<close>

lemma purge_range_fields [simp]:
  "st_indirect (fst (purge_range a sz stm)) = st_indirect stm"
  "st_deferred (fst (purge_range a sz stm)) = st_deferred stm"
  by (simp_all add: purge_range_def Let_def)

lemma get_purge_range:
  assumes "st_inv stm"
  shows "bt_get (st_map (fst (purge_range a sz stm))) =
    (\<lambda>b. if a \<le> b \<and> b < sat_add a sz then None else bt_get (st_map stm) b)"
proof -
  have bt: "bt_inv (st_map stm)" and ok: "\<And>k p. (k, p) \<in> set (st_map stm) \<Longrightarrow> tp_base_addr p = k"
    using assms by (auto simp: st_inv_def list_all_iff proj_ok_def)
  have "bt_get (st_map stm) b = Some p \<Longrightarrow> tp_base_addr p = b" for b p
    using ok bt by (simp add: get_in_set)
  with bt show ?thesis
    by (auto simp: purge_range_def Let_def get_filter fun_eq_iff split: option.split)
qed

text \<open>
  C29 (functional).  Freeing a live block of \<open>sz\<close> bytes at \<open>a\<close> forgets all that starts in
  \<open>[a, a + sz)\<close> (saturating) and nothing else: the projections, the indirect registrations, the
  deferred writes, and the heap objects with the addresses of their fields; the tracker forgets the
  block at \<open>a\<close>; if a type was stamped at \<open>a\<close> exactly one epoch is logged, closed by the free with the
  event's sequence number.  The event is counted, and the stream, if there is one, gets the line of the
  epoch and the line of the free.  Everything else in the engine stays as it is.
\<close>

theorem free_forgets_block:
  assumes "engine_inv en" "kind ev = EVENT_FREE" "alloc_size (allocs_of en) (e_addr ev) = Some sz"
  shows "(let a = e_addr ev; inside = (\<lambda>b. a \<le> b \<and> b < sat_add a sz); log = ws_type_epochs (en_world en);
              typed = bt_get (st_map (stm_of en)) a in
     case process_event F fuel mem ev en of Panic \<Rightarrow> False
     | Value (en', ok) \<Rightarrow> ok \<and>
         bt_get (st_map (stm_of en')) = (\<lambda>b. if inside b then None else bt_get (st_map (stm_of en)) b) \<and>
         st_indirect (stm_of en') = (\<lambda>b. if inside b then None else st_indirect (stm_of en) b) \<and>
         st_deferred (stm_of en') = filter (\<lambda>d. \<not> inside (dw_write_addr d)) (st_deferred (stm_of en)) \<and>
         bt_get (hg_objects (en_heap en')) = (\<lambda>b. if inside b then None else bt_get (hg_objects (en_heap en)) b) \<and>
         bt_get (hg_addr_to_base (en_heap en')) =
           (\<lambda>k. if \<exists>b ob. inside b \<and> bt_get (hg_objects (en_heap en)) b = Some ob \<and> bt_get (hb_fields ob) (k - b) \<noteq> None
                then None else bt_get (hg_addr_to_base (en_heap en)) k) \<and>
         alloc_size (allocs_of en') = (alloc_size (allocs_of en))(a := None) \<and>
         el_iter (ws_type_epochs (en_world en')) =
           (case typed of None \<Rightarrow> el_iter log
            | Some p \<Rightarrow> last_n (el_cap log) (el_iter log @ [mk_epoch a sz p (sq64 ev) Close_Free])) \<and>
         en' = en\<lparr>
           en_world := (en_world en)\<lparr>
             ws_stm := (stm_of en)\<lparr>st_map := st_map (stm_of en'), st_indirect := st_indirect (stm_of en'),
                                   st_deferred := st_deferred (stm_of en')\<rparr>,
             ws_heap_allocs := fst (on_free a (allocs_of en)),
             ws_type_epochs := (case typed of None \<Rightarrow> log | Some p \<Rightarrow> close_epoch a sz p (sq64 ev) Close_Free log),
             ws_total_event_count := ws_total_event_count (en_world en) + 1\<rparr>,
           en_heap := (en_heap en)\<lparr>hg_objects := hg_objects (en_heap en'), hg_addr_to_base := hg_addr_to_base (en_heap en')\<rparr>,
           en_topo := map_option (\<lambda>ts. emit (emit_free (sq64 ev) (e_thread_id ev) a sz)
             (case typed of None \<Rightarrow> ts
              | Some p \<Rightarrow> emit (emit_type_epoch_close (sq64 ev) a (ti_name (tp_type_info p)) (tp_source_name p)
                                (tp_stamp_seq p) (sq64 ev) ''free'') ts)) (en_topo en)\<rparr>)"
proof -
  define a where "a = e_addr ev"
  define log where "log = ws_type_epochs (en_world en)"
  define s3 where "s3 = purge_deferred a sz (purge_indirect a sz (fst (purge_range a sz (stm_of en))))"
  define tr where "tr = fst (on_free a (allocs_of en))"
  define typed where "typed = bt_get (st_map (stm_of en)) a"
  define log' where "log' = (case typed of None \<Rightarrow> log | Some p \<Rightarrow> close_epoch a sz p (sq64 ev) Close_Free log)"
  define en' where "en' = en\<lparr>en_world := (en_world en)\<lparr>ws_stm := s3, ws_heap_allocs := tr, ws_type_epochs := log',
        ws_total_event_count := ws_total_event_count (en_world en) + 1\<rparr>,
      en_heap := hg_on_free a sz (en_heap en),
      en_topo := map_option (\<lambda>ts. emit (emit_free (sq64 ev) (e_thread_id ev) a sz)
             (case typed of None \<Rightarrow> ts
              | Some p \<Rightarrow> emit (emit_type_epoch_close (sq64 ev) a (ti_name (tp_type_info p)) (tp_source_name p)
                                (tp_stamp_seq p) (sq64 ev) ''free'') ts)) (en_topo en)\<rparr>"
  have inv: "st_inv (stm_of en)" "hg_inv (en_heap en)" "el_inv log"
    using assms(1) by (simp_all add: engine_inv_def parts_inv_def log_def)
  have r: "snd (on_free a (allocs_of en)) = Some sz"
    using assms(3) by (auto simp: on_free_def Let_def alloc_size_def a_def)
  have run: "process_event F fuel mem ev en = Value (en', True)"
    unfolding process_event_def Let_def assms(2) kind_names
    by (cases typed)
      (simp_all add: handled_def on_event_free_def a_def [symmetric] upd_world_def upd_stm_def purge_block_def forget_heap_def
        close_if_typed_def close_typed_def emit_topo_def r Let_def en'_def s3_def tr_def log'_def typed_def [symmetric] log_def option.map_comp comp_def)
  have s3: "bt_get (st_map s3) = (\<lambda>b. if a \<le> b \<and> b < sat_add a sz then None else bt_get (st_map (stm_of en)) b)"
    "st_indirect s3 = (\<lambda>b. if a \<le> b \<and> b < sat_add a sz then None else st_indirect (stm_of en) b)"
    "st_deferred s3 = filter (\<lambda>d. \<not> (a \<le> dw_write_addr d \<and> dw_write_addr d < sat_add a sz)) (st_deferred (stm_of en))"
    "s3 = (stm_of en)\<lparr>st_map := st_map s3, st_indirect := st_indirect s3, st_deferred := st_deferred s3\<rparr>"
    using get_purge_range [OF inv(1), of a sz]
    by (auto simp: s3_def purge_deferred_def purge_indirect_def purge_range_def Let_def not_less not_le fun_eq_iff)
  have al: "alloc_size tr = (alloc_size (allocs_of en))(a := None)"
    by (auto simp: tr_def alloc_size_def on_free_def Let_def get_bt_remove fun_eq_iff)
  have ep: "el_iter log' = (case typed of None \<Rightarrow> el_iter log
      | Some p \<Rightarrow> last_n (el_cap log) (el_iter log @ [mk_epoch a sz p (sq64 ev) Close_Free]))"
    by (simp add: log'_def close_epoch_def epochs.items_push [OF inv(3)] split: option.split)
  note heap = on_free_spec [OF inv(2), of a sz, THEN conjunct2]
    on_free_index [OF inv(2), of a sz] heap_frame_eq [OF on_free_frame [of "en_heap en" a sz]]
  have w: "stm_of en' = s3" "en_heap en' = hg_on_free a sz (en_heap en)" "allocs_of en' = tr" "ws_type_epochs (en_world en') = log'"
    by (simp_all add: en'_def)
  show ?thesis
    unfolding run Let_def outcome.case split_conv a_def [symmetric] log_def [symmetric] typed_def [symmetric] w
      tr_def [symmetric] log'_def [symmetric] s3(4) [symmetric] heap(3) [symmetric]
    using s3(1-3) heap(1,2) al ep by (simp add: fun_eq_iff en'_def)
qed

text \<open>An engine with one live block, typed by a stamp.\<close>

definition demo_engine :: "int engine" where
  "demo_engine = upd_stm (\<lambda>s. fst (stamp_type 0x900000 demo_node ''head'' 3 s))
     (upd_world (\<lambda>w. w\<lparr>ws_last_alloc_event_count := ws_total_event_count w,
       ws_heap_allocs := fst (on_alloc 0x900000 16 (ws_heap_allocs w))\<rparr>) (engine_new None ro_new None))"

lemma demo_engine_inv: "engine_inv demo_engine"
proof -
  have "good 2 1 (engine_new None ro_new None :: int engine)" by (rule good_new) (simp add: debug_ok_def)
  then have "good 2 1 demo_engine" unfolding demo_engine_def
    by (intro good_quiet [OF quiet_stm] good_quiet [OF quiet_on_alloc] stamp_type_inv)
  then show ?thesis by (simp add: good_def)
qed

theorem free_forgets_block_witness:
  "\<exists>en'. process_event cent_ops 2 None (demo_event 10 0x900000 0) demo_engine = Value (en', True) \<and>
     bt_get (st_map (stm_of demo_engine)) 0x900000 \<noteq> None \<and> bt_get (st_map (stm_of en')) 0x900000 = None"
proof -
  have k: "kind (demo_event 10 0x900000 0) = EVENT_FREE" by code_simp
  have z: "alloc_size (allocs_of demo_engine) (e_addr (demo_event 10 0x900000 0)) = Some 16"
    by (simp add: demo_engine_def demo_event_def upd_stm_def upd_world_def engine_new_def ws_new_def at_new_def on_alloc_def alloc_size_def)
  have p: "bt_get (st_map (stm_of demo_engine)) 0x900000 \<noteq> None"
    by (simp add: demo_engine_def upd_stm_def upd_world_def engine_new_def ws_new_def st_new_def stamp_type_def demo_node_def Let_def)
  have s: "e_addr (demo_event 10 0x900000 0) \<le> 0x900000 \<and> 0x900000 < sat_add (e_addr (demo_event 10 0x900000 0)) 16"
    by code_simp
  from free_forgets_block [OF demo_engine_inv k z, of cent_ops 2 None] show ?thesis
    using p s by (auto simp: Let_def split: outcome.splits)
qed


subsection \<open>Register snapshots\<close>

lemma length_six: "6 \<le> length xs \<Longrightarrow> \<exists>a b c d e f ys. xs = a # b # c # d # e # f # ys"
proof -
  assume "6 \<le> length xs"
  then have "Suc (Suc (Suc (Suc (Suc (Suc 0))))) \<le> length xs" by simp
  then show ?thesis by (simp only: Suc_le_length_iff) blast
qed

lemma upt_18: "[0..<REG_COUNT] = [0, 1, 2, 3, 4, 5, 6, 7, 8, 9, 10, 11, 12, 13, 14, 15, 16, 17]"
  by (simp add: REG_COUNT_def upt_rec)

lemma fold_upd_regs:
  "fold (\<lambda>i. upd_reg i (f i)) [0..<n] rs = map (\<lambda>(i, r). if i < n then f i r else r) (enumerate 0 rs)"
proof (induction n)
  case 0
  show ?case by (simp add: nth_equalityI case_prod_beta)
next
  case (Suc n)
  then show ?case by (auto intro!: nth_equalityI simp: nth_enumerate_eq nth_list_update less_Suc_eq)
qed

text \<open>
  A register snapshot is applied exactly when its header is followed by six more
  slots of the same kind, and then seven slots are consumed; without a header nothing is consumed,
  and otherwise the header alone.  When it is applied every shadow register of the thread has the
  value of the snapshot with full confidence, and so has the register file that location
  expressions read, which keeps the values it had as the previous ones; register \<open>3 s + 1\<close> has only
  its low 32 bits, because they travel in the size of a slot.  Nothing else changes.
\<close>

theorem reg_snapshot_applied:
  "case apply_reg_snapshot evs en of (en', n) \<Rightarrow>
     n = (case evs of [] \<Rightarrow> 0
          | h # cont \<Rightarrow> (if kind h \<noteq> EVENT_REG_SNAPSHOT then 0
                       else if 6 \<le> length cont \<and> list_all (\<lambda>c. kind c = EVENT_REG_SNAPSHOT) (take 6 cont) then 7 else 1)) \<and>
     (if n \<noteq> 7 then en' = en
      else
        (let h = hd evs;
             reg = (\<lambda>i. let c = evs ! (i div 3 + 1) in
                      if i mod 3 = 0 then e_addr c else if i mod 3 = 1 then ucast (e_size c) else e_value c)
         in en' = en\<lparr>en_world := en_world en', en_regs := (en_regs en)(e_thread_id h \<mapsto> srf_of (e_thread_id h) en')\<rparr> \<and>
            en_world en' = (en_world en)\<lparr>ws_inner := inner_of en'\<rparr> \<and>
            inner_of en' = (inner_of en)\<lparr>wi_reg_file := \<lparr>lrf_values = map reg [0..<REG_COUNT],
              lrf_prev = lrf_values (wi_reg_file (inner_of en)), lrf_insn = e_addr h\<rparr>\<rparr> \<and>
            rf_call_stack (srf_of (e_thread_id h) en') = rf_call_stack (srf_of (e_thread_id h) en) \<and>
            rf_regs (srf_of (e_thread_id h) en') =
              map (\<lambda>(i, r). if i < REG_COUNT then reg_set (reg i) (P_Observed (ucast (e_seq h))) Observed (ucast (e_seq h)) (e_addr h) r
                          else r) (enumerate 0 (rf_regs (srf_of (e_thread_id h) en)))))"
proof (cases "\<exists>h cont. evs = h # cont \<and> kind h = EVENT_REG_SNAPSHOT \<and> 6 \<le> length cont \<and>
    list_all (\<lambda>c. kind c = EVENT_REG_SNAPSHOT) (take 6 cont)")
  case False
  then show ?thesis
    by (cases evs) (auto simp: apply_reg_snapshot_def)
next
  case True
  then obtain h cont where e: "evs = h # cont" "kind h = EVENT_REG_SNAPSHOT" "6 \<le> length cont"
    "list_all (\<lambda>c. kind c = EVENT_REG_SNAPSHOT) (take 6 cont)" by blast
  then obtain c0 c1 c2 c3 c4 c5 rest where c: "cont = c0 # c1 # c2 # c3 # c4 # c5 # rest"
    by (metis length_six)
  define reg where "reg = (\<lambda>i. let c = evs ! (i div 3 + 1) in
    if i mod 3 = 0 then e_addr c else if i mod 3 = 1 then ucast (e_size c) else e_value c)"
  have regs: "snapshot_regs [c0, c1, c2, c3, c4, c5] = map reg [0..<REG_COUNT]"
    unfolding upt_18 by (simp add: snapshot_regs_def reg_def e(1) c Let_def)
  have a: "apply_reg_snapshot evs en =
      (upd_srf (e_thread_id h) (rf_apply_snapshot (map reg [0..<REG_COUNT]) (ucast (e_seq h)) (e_addr h))
         (upd_inner (update_regs (map reg [0..<REG_COUNT]) (e_addr h)) en), 7)"
    using e(2,4) by (simp add: apply_reg_snapshot_def e(1) c Let_def regs)
  have f: "fold (\<lambda>i. upd_reg i (reg_set (map reg [0..<REG_COUNT] ! i) pr cf s pc)) [0..<REG_COUNT] rs =
     map (\<lambda>(i, r). if i < REG_COUNT then reg_set (reg i) pr cf s pc r else r) (enumerate 0 rs)" for pr cf s pc rs
    using fold_upd_regs [of "\<lambda>i. reg_set (map reg [0..<REG_COUNT] ! i) pr cf s pc" REG_COUNT rs]
    by (auto intro!: nth_equalityI simp: nth_enumerate_eq)
  have n: "(case evs of [] \<Rightarrow> 0 | h # cont \<Rightarrow> (if kind h \<noteq> EVENT_REG_SNAPSHOT then 0
      else if 6 \<le> length cont \<and> list_all (\<lambda>c. kind c = EVENT_REG_SNAPSHOT) (take 6 cont) then 7 else 1)) = (7 :: nat)"
    using e(2,3,4) by (simp add: e(1))
  have h: "hd evs = h" by (simp add: e(1))
  have l: "lrf_update rs insn r = \<lparr>lrf_values = rs, lrf_prev = lrf_values r, lrf_insn = insn\<rparr>" for rs insn r
    by (simp add: lrf_update_def)
  show ?thesis
    unfolding a split_conv n h reg_def [symmetric]
    by (simp add: upd_srf_def upd_inner_def upd_world_def update_regs_def l rf_apply_snapshot_def srf_of_def Let_def f)
qed


subsection \<open>Unknown events\<close>

text \<open>
  The two event counters, which only \<open>process_event\<close> itself changes, and what no event changes: that
  there is no topology stream, and the rings of the orchestrator.
\<close>

definition standing :: "'f engine \<Rightarrow> bool \<times> thread_ring list \<times> nat" where
  "standing en = (en_topo en = None, ro_rings (en_orch en), ro_rr_idx (en_orch en))"

definition tally :: "'f engine \<Rightarrow> u64 \<times> u64 \<times> bool \<times> thread_ring list \<times> nat" where
  "tally en = (ws_total_event_count (en_world en), ws_unknown_event_kinds (en_world en), standing en)"

definition tallies :: "'f engine \<Rightarrow> 'f engine outcome \<Rightarrow> bool" where
  "tallies en r \<longleftrightarrow> (case r of Panic \<Rightarrow> True | Value en' \<Rightarrow> tally en' = tally en)"

lemma tally_basic [simp]:
  "tally (emit_topo fs en) = tally en" "tally (upd_inner g en) = tally en" "tally (upd_stm h en) = tally en"
  "tally (upd_srf t k en) = tally en" "tally (insert_bloom a en) = tally en"
  "tally (en\<lparr>en_heap := hg\<rparr>) = tally en" "tally (en\<lparr>en_dwarf := dw\<rparr>) = tally en"
  "tally (en\<lparr>en_oracle := orc\<rparr>) = tally en" "tally (en\<lparr>en_index := idx\<rparr>) = tally en"
  "tally (en\<lparr>en_regs := rgs\<rparr>) = tally en" "tally (en\<lparr>en_stacks := sts\<rparr>) = tally en"
  "tally (en\<lparr>en_next_frame := nf\<rparr>) = tally en" "tally (en\<lparr>en_delta := dl\<rparr>) = tally en"
  "tally (en\<lparr>en_returned := rt\<rparr>) = tally en"
  by (simp_all add: tally_def standing_def emit_topo_def upd_inner_def upd_stm_def upd_world_def upd_srf_def insert_bloom_def
      bloom_insert_def split: option.split)

lemma tally_world [simp]:
  "tally (upd_world (\<lambda>w. w\<lparr>ws_type_epochs := e w\<rparr>) en) = tally en"
  "tally (upd_world (\<lambda>w. w\<lparr>ws_field_heatmap := f w\<rparr>) en) = tally en"
  "tally (upd_world (\<lambda>w. w\<lparr>ws_type_stability := g w\<rparr>) en) = tally en"
  "tally (upd_world (\<lambda>w. w\<lparr>ws_heap_allocs := al w\<rparr>) en) = tally en"
  "tally (upd_world (\<lambda>w. w\<lparr>ws_last_alloc_event_count := la w, ws_heap_allocs := al w\<rparr>) en) = tally en"
  "tally (upd_world (\<lambda>w. w\<lparr>ws_hazards := hz w\<rparr>) en) = tally en"
  "tally (upd_world (record_cache_miss F nid) en) = tally en"
  "tally (upd_world (record_bb_entry r) en) = tally en"
  by (simp_all add: tally_def standing_def upd_world_def record_cache_miss_def record_bb_entry_def)

lemma tally_fold: "(\<And>x en. tally (f x en) = tally en) \<Longrightarrow> tally (fold f xs en) = tally en"
  by (induction xs arbitrary: en) simp_all

lemma tally_observe [simp]: "tally (write_observe ev en) = tally en" "tally (write_cohere ev m en) = tally en"
  by (simp_all add: write_observe_def write_cohere_def Let_def split: option.split)

lemma tally_covering [simp]: "tally (write_covering ev en) = tally en"
  by (simp add: write_covering_def covering_link_def covering_stability_def covering_heat_def Let_def split: option.split prod.split)

lemma tally_scan [simp]: "tally (scan_from a sq mem reg en) = tally en" "tally (emit_stamp_of sq a ti src en) = tally en"
  "tally (settle_stamp a ti src sq mem en) = tally en"
  by (simp_all add: scan_from_def emit_stamp_of_def settle_stamp_def Let_def)

lemma tally_propagate [simp]: "tally (write_propagate ev mem en) = tally en"
  by (simp add: write_propagate_def follow_stamp_def deepen_stamp_def Let_def split: option.split prod.split)

lemma tally_hazard [simp]: "tally (write_hazard ev en) = tally en"
  by (simp add: write_hazard_def Let_def split: option.split)

lemma tally_find [simp]: "tally (fst (find_node a en)) = tally en"
  by (simp add: find_node_def split: prod.split)

lemma tally_close [simp]: "tally (close_typed a sz p sq r n en) = tally en" "tally (close_if_typed a sz sq r n en) = tally en"
  "tally (forget_heap a sz en) = tally en" "tally (purge_block a sz en) = tally en"
  by (simp_all add: close_typed_def close_if_typed_def forget_heap_def purge_block_def split: option.split)

lemma tally_result [simp]: "tally (note_result res a nt src sq en) = tally en"
  by (simp add: note_result_def note_change_def Let_def split: stamp_result.split option.split)

lemma tallies_cases: "tallies en (Value en') \<longleftrightarrow> tally en' = tally en" "tallies en Panic"
  by (simp_all add: tallies_def)

lemma tallies_heap: "tallies en (write_heap F ev mem en)"
  by (simp add: write_heap_def tallies_cases split: outcome.split)

lemma tallies_pointee: "tallies en (stamp_pointee fuel ev mem h en)"
  by (simp add: stamp_pointee_def Let_def tallies_cases split: option.split prod.split)

lemma tallies_pointer: "tallies en (write_pointer fuel ev mem h en)"
proof -
  define en1 where "en1 = upd_inner (update_edge (lr_node_id h)
      (map_option lr_node_id (snd (if e_value ev = 0 then (en, None) else find_node (e_value ev) en))) (e_value ev))
      (fst (if e_value ev = 0 then (en, None) else find_node (e_value ev) en))"
  have t: "tally en1 = tally en" by (simp add: en1_def)
  show ?thesis
    unfolding write_pointer_def Let_def en1_def [symmetric]
    using tallies_pointee [of en1 fuel ev mem h] by (auto simp: tallies_def t split: outcome.split)
qed

lemma tallies_node: "case write_node fuel ev mem en of Panic \<Rightarrow> True | Value (en', _) \<Rightarrow> tally en' = tally en"
proof (cases "find_node (e_addr ev) en")
  case (Pair en1 r)
  then have t: "tally en1 = tally en" using tally_find [of "e_addr ev" en] by simp
  show ?thesis
  proof (cases r)
    case None
    with t show ?thesis by (simp add: write_node_def Pair)
  next
    case (Some h)
    define w1 where "w1 = fst (ensure_node (lr_node_id h) (lr_name h) (lr_type_info h) (e_addr ev) (ucast (e_size ev)) (inner_of en1))"
    define en2 where "en2 = upd_inner (\<lambda>_. update_value (lr_node_id h) (write_value ev) (wi_insn_counter w1) w1) en1"
    have "tally en2 = tally en" by (simp add: en2_def t)
    with tallies_pointer [of en2 fuel ev mem h] show ?thesis
      unfolding write_node_def Pair Some Let_def split_conv option.case w1_def [symmetric] en2_def [symmetric]
      by (auto simp: tallies_def split: outcome.split)
  qed
qed

lemma tallies_write: "case on_event_write F fuel ev mem en of Panic \<Rightarrow> True | Value (en', _) \<Rightarrow> tally en' = tally en"
proof -
  obtain w m where w: "record_cl_write (e_addr ev) (e_thread_id ev) (en_world en) = (w, m)" by fastforce
  then have t: "tally (en\<lparr>en_world := w\<rparr>) = tally en"
    by (auto simp: tally_def standing_def record_cl_write_def split: prod.splits)
  define en1 where "en1 = write_cohere ev m (write_observe ev (en\<lparr>en_world := w\<rparr>))"
  have t1: "tally en1 = tally en" by (simp add: en1_def t)
  show ?thesis
  proof (cases "write_heap F ev mem en1")
    case (Value e)
    with tallies_heap [of en1 F ev mem] have "tally e = tally en" by (simp add: tallies_def t1)
    with tallies_node [of e fuel ev mem] show ?thesis
      unfolding on_event_write_def w split_conv en1_def [symmetric] Value by (auto split: outcome.splits)
  qed (simp add: on_event_write_def w en1_def [symmetric])
qed

lemma tally_call: "tallies en (on_event_call ev en)"
  by (simp add: on_event_call_def enter_function_def Let_def tallies_cases split: option.split outcome.split)

lemma tally_populate [simp]: "tally (populate_globals info d en) = tally en"
  by (simp add: populate_globals_def tally_def standing_def split: prod.split)

lemma tally_return [simp]: "tally (on_event_return ev en) = tally en"
  by (simp add: on_event_return_def leave_frame_def Let_def split: option.split prod.split)

lemma tallies_birth: "tallies en (stamp_at_birth fuel ev mem sz pcs info en)"
  by (simp add: stamp_at_birth_def Let_def tallies_cases tally_fold split: option.split prod.split)

lemma tally_track [simp]: "tally (track_alloc ev sz en) = tally en"
  by (simp add: track_alloc_def Let_def split: option.split)

lemma tallies_alloc: "tallies en (on_event_alloc fuel ev mem en)"
proof -
  define sz where "sz = (if e_value ev \<noteq> 0 then e_value ev else ucast (e_size ev))"
  define en2 where "en2 = track_alloc ev sz en"
  have t: "tally en2 = tally en" by (simp add: en2_def)
  have "tallies en r = tallies en2 r" for r by (simp add: tallies_def t split: outcome.split)
  then show ?thesis
    unfolding on_event_alloc_def Let_def sz_def [symmetric] en2_def [symmetric]
    by (simp add: tallies_birth tallies_cases split: option.split)
qed

lemma tally_miss [simp]: "tally (on_event_cache_miss F ev en) = tally en"
proof (cases "find_node (e_addr ev) en")
  case (Pair en1 r)
  with tally_find [of "e_addr ev" en] show ?thesis by (simp add: on_event_cache_miss_def split: option.split)
qed

lemma tally_others [simp]: "tally (on_event_free ev en) = tally en" "tally (on_event_read ev en) = tally en"
  "tally (on_event_reload ev en) = tally en" "tally (on_event_module_load ev en) = tally en"
  by (simp_all add: on_event_free_def on_event_read_def on_event_reload_def
      on_event_module_load_def Let_def split: option.split prod.split)

definition unknown_kind :: "u8 \<Rightarrow> bool" where
  "unknown_kind k \<longleftrightarrow> k = 4 \<or> 14 < k"

lemma unknown_kind_iff: "unknown_kind k \<longleftrightarrow> k \<notin> {0, 1, 2, 3, 5, 6, 7, 8, 9, 10, 11, 12, 13, 14}"
proof -
  have "n \<notin> {0, 1, 2, 3, 5, 6, 7, 8, 9, 10, 11, 12, 13, 14} \<longleftrightarrow> n = 4 \<or> 14 < n" for n :: nat by auto arith
  from this [of "unat k"] show ?thesis
    by (simp add: unknown_kind_def word_less_nat_alt word_unat_eq_iff)
qed

lemma process_event_tally:
  "case process_event F fuel mem ev en of Panic \<Rightarrow> True
   | Value (en', _) \<Rightarrow> tally en' = (fst (tally en) + 1, fst (snd (tally en)) + (if unknown_kind (kind ev) then 1 else 0), snd (snd (tally en)))"
proof -
  define en1 where "en1 = upd_world (\<lambda>w. w\<lparr>ws_total_event_count := ws_total_event_count w + 1\<rparr>) en"
  have t: "tally en1 = (fst (tally en) + 1, snd (tally en))" by (simp add: tally_def standing_def en1_def upd_world_def)
  let ?R = "\<lambda>c r. case r of Panic \<Rightarrow> True
     | Value (en', _) \<Rightarrow> tally en' = (fst (tally en) + 1, fst (snd (tally en)) + (if c then 1 else 0), snd (snd (tally en)))"
  let ?u = "unknown_kind (kind ev)"
  have h: "?R False (handled e)" if "tally e = tally en1" for e
    using that by (simp add: handled_def t)
  have hi: "?R False (handled_if r)" if "tallies en1 r" for r
    using that by (cases r) (simp_all add: tallies_def t)
  have w: "?R False (on_event_write F fuel ev mem en1)"
    using tallies_write [of en1 F fuel ev mem] by (auto simp: t split: outcome.split)
  have u: "tally (upd_world (\<lambda>w. w\<lparr>ws_unknown_event_kinds := ws_unknown_event_kinds w + 1\<rparr>) en1) =
      (fst (tally en) + 1, fst (snd (tally en)) + 1, snd (snd (tally en)))"
    using t by (simp add: tally_def standing_def upd_world_def)
  have step: "?R ?u (if b then x else y)" if "b \<Longrightarrow> \<not> ?u" "?R False x" "\<not> b \<Longrightarrow> ?R ?u y" for b x y
    using that by (cases b) (auto split: outcome.splits)
  have k: "kind ev = K \<Longrightarrow> \<not> ?u" if "K \<in> {0, 1, 2, 3, 5, 6, 7, 8, 9, 10, 11, 12, 13, 14}" for K
    using that by (simp only: unknown_kind_iff) blast
  show ?thesis
    unfolding process_event_def Let_def en1_def [symmetric]
    by (intro step k w h hi tally_call tallies_alloc tally_return tally_basic tally_others tally_miss tally_world refl)
      (simp_all add: kind_names unknown_kind_iff u)
qed

lemma run_events_tally:
  "run_events F fuel evs en = Value en' \<Longrightarrow>
     tally en' = (fst (tally en) + of_nat (length evs),
                  fst (snd (tally en)) + of_nat (length (filter (\<lambda>(_, ev). unknown_kind (kind ev)) evs)), snd (snd (tally en)))"
proof (induction evs arbitrary: en)
  case (Cons e evs)
  obtain mem ev where e: "e = (mem, ev)" by (cases e)
  with Cons.prems obtain en1 b where p: "process_event F fuel mem ev en = Value (en1, b)"
    "run_events F fuel evs en1 = Value en'" by (auto split: outcome.splits)
  from Cons.IH [OF p(2)] process_event_tally [of en ev F fuel mem] p(1) show ?case by (simp add: e)
qed simp

text \<open>
  C30 (error).  An event of a kind the engine does not know, 4 or above 14, changes nothing but the
  counter of events and the counter of unknown events, and reports that it was not handled; and over
  any history that is processed to its end these counters grow by exactly the number of events and
  the number of unknown events in it, modulo \<open>2\<close>\<open>^\<close>\<open>64\<close>.
\<close>

theorem unknown_events_counted:
  assumes "unknown_kind (kind ev)" "run_events F fuel evs en = Value en'"
  shows "process_event F fuel mem ev en = Value (en\<lparr>en_world := (en_world en)
       \<lparr>ws_total_event_count := ws_total_event_count (en_world en) + 1,
        ws_unknown_event_kinds := ws_unknown_event_kinds (en_world en) + 1\<rparr>\<rparr>, False) \<and>
     ws_total_event_count (en_world en') = ws_total_event_count (en_world en) + of_nat (length evs) \<and>
     ws_unknown_event_kinds (en_world en') =
       ws_unknown_event_kinds (en_world en) + of_nat (length (filter (\<lambda>(_, ev). unknown_kind (kind ev)) evs))"
  using run_events_tally [OF assms(2)] assms(1)
  by (simp add: tally_def unknown_kind_iff process_event_def kind_names Let_def upd_world_def)

theorem unknown_events_counted_witness:
  "\<exists>en. run_events cent_ops 2 demo_history (engine_start (Some demo_info) ro_new None) = Value en \<and>
     ws_total_event_count (en_world en) = 7 \<and> ws_unknown_event_kinds (en_world en) = 1"
proof -
  let ?en = "engine_start (Some demo_info) ro_new None :: int engine"
  obtain en where r: "run_events cent_ops 2 demo_history ?en = Value en"
    using run_events_spec [OF good_start [OF demo_debug_ok], of demo_history cent_ops ro_new None]
    by (auto simp: demo_history_def)
  have k: "unknown_kind (kind (demo_event 200 0 0))" by code_simp
  have z: "fst (tally ?en) = 0 \<and> fst (snd (tally ?en)) = 0"
    by (simp add: engine_start_def Let_def demo_info_def) (simp add: tally_def engine_new_def ws_new_def)
  have f: "length demo_history = 7" "length (filter (\<lambda>(_, ev). unknown_kind (kind ev)) demo_history) = 1" by code_simp+
  from unknown_events_counted [OF k r] r z f show ?thesis by (auto simp: tally_def)
qed

end
