(* ===== verification/Warm_Scan.thy ===== *)
theory Warm_Scan
  imports Engine_Props
begin

text \<open>
  The warm scan of \<^verbatim>\<open>engine/src/reconciler.rs\<close>: a breadth-first walk over the memory of the running
  process, from the globals along typed pointers, which stamps what it reaches.  It works in steps
  with a budget of reads and keeps its queue between them.

  The reader of the memory is a parameter, a read that fails gives nothing.  The counters of the
  statistics are natural numbers: each counts single steps up from zero.
\<close>

record warm_stats =
  wt_reads :: nat
  wt_stamps_applied :: nat
  wt_max_depth_reached :: u32
  wt_read_errors :: nat
  wt_queue_visits :: nat
  wt_enqueued :: nat
  wt_null_ptrs :: nat
  wt_missing_pointee_ti :: nat
  wt_not_heap :: nat
  wt_globals_scanned :: nat
  wt_container_of_stamps :: nat
  wt_schisms :: nat
  wt_queue_cap_hits :: nat

definition WARM_SCAN_QUEUE_CAP :: nat where "WARM_SCAN_QUEUE_CAP = 50000"

type_synonym warm_item = "u64 \<times> type_info \<times> string \<times> u32"

record warm_scanner =
  wm_queue :: "warm_item list"
  wm_visited :: "u64 set"
  wm_stats :: warm_stats
  wm_passes :: u32
  wm_max_depth :: u32
  wm_seeded :: bool

definition ws_stats_zero :: warm_stats where
  "ws_stats_zero = \<lparr>wt_reads = 0, wt_stamps_applied = 0, wt_max_depth_reached = 0, wt_read_errors = 0,
     wt_queue_visits = 0, wt_enqueued = 0, wt_null_ptrs = 0, wt_missing_pointee_ti = 0, wt_not_heap = 0,
     wt_globals_scanned = 0, wt_container_of_stamps = 0, wt_schisms = 0, wt_queue_cap_hits = 0\<rparr>"

definition wm_new :: "u32 \<Rightarrow> warm_scanner" where
  "wm_new max_depth = \<lparr>wm_queue = [], wm_visited = {}, wm_stats = ws_stats_zero, wm_passes = 0,
     wm_max_depth = max_depth, wm_seeded = False\<rparr>"

definition wm_is_idle :: "warm_scanner \<Rightarrow> bool" where
  "wm_is_idle sc \<longleftrightarrow> wm_seeded sc \<and> wm_queue sc = []"

definition tick :: "(warm_stats \<Rightarrow> warm_stats) \<Rightarrow> warm_scanner \<Rightarrow> warm_scanner" where
  "tick g sc = sc\<lparr>wm_stats := g (wm_stats sc)\<rparr>"

abbreviation reads_of :: "warm_scanner \<Rightarrow> nat" where "reads_of sc \<equiv> wt_reads (wm_stats sc)"


subsection \<open>Queueing\<close>

definition push_item :: "warm_item \<Rightarrow> warm_scanner \<Rightarrow> warm_scanner" where
  "push_item it sc = tick (\<lambda>s. s\<lparr>wt_enqueued := wt_enqueued s + 1\<rparr>) (sc\<lparr>wm_queue := wm_queue sc @ [it]\<rparr>)"

definition cap_hit :: "warm_scanner \<Rightarrow> warm_scanner" where
  "cap_hit = tick (\<lambda>s. s\<lparr>wt_queue_cap_hits := wt_queue_cap_hits s + 1\<rparr>)"

definition enqueue_target :: "warm_item \<Rightarrow> warm_scanner \<Rightarrow> warm_scanner" where
  "enqueue_target it sc =
     (if fst it \<notin> wm_visited sc \<and> length (wm_queue sc) < WARM_SCAN_QUEUE_CAP then push_item it sc
      else if WARM_SCAN_QUEUE_CAP \<le> length (wm_queue sc) then cap_hit sc else sc)"

definition container_source :: "string \<Rightarrow> container_of_entry \<Rightarrow> string" where
  "container_source q e = q @ ''->container_of('' @ co_container_type e @ ''.'' @ co_field_name e @ '')''"

text \<open>A pointer to a structure that is a member of others may point into one of them.\<close>

fun enqueue_containers ::
  "heap_oracle \<Rightarrow> registry \<Rightarrow> u64 \<Rightarrow> string \<Rightarrow> u32 \<Rightarrow> container_of_entry list \<Rightarrow> warm_scanner \<Rightarrow> warm_scanner" where
  "enqueue_containers orc reg p q depth [] sc = sc"
| "enqueue_containers orc reg p q depth (e # es) sc =
     (if WARM_SCAN_QUEUE_CAP \<le> length (wm_queue sc) then cap_hit sc
      else
        (let base = p - co_field_offset e in
         enqueue_containers orc reg p q depth es
           (if base \<noteq> 0 \<and> base \<notin> wm_visited sc \<and> is_plausible_ptr orc base
            then (case map_of reg (co_container_type e) of
                    Some ti \<Rightarrow> push_item (base, ti, container_source q e, depth)
                      (tick (\<lambda>s. s\<lparr>wt_container_of_stamps := wt_container_of_stamps s + 1\<rparr>) sc)
                  | None \<Rightarrow> sc)
            else sc)))"


subsection \<open>Reading the pointers of an object\<close>

definition count_read :: "warm_scanner \<Rightarrow> warm_scanner" where
  "count_read = tick (\<lambda>s. s\<lparr>wt_reads := wt_reads s + 1\<rparr>)"

definition read_error :: "warm_scanner \<Rightarrow> warm_scanner" where
  "read_error = tick (\<lambda>s. s\<lparr>wt_read_errors := wt_read_errors s + 1\<rparr>)"

text \<open>The slots of an array of pointers.\<close>

fun read_slots ::
  "read_word \<Rightarrow> heap_oracle \<Rightarrow> nat \<Rightarrow> u64 \<Rightarrow> string \<Rightarrow> type_info \<Rightarrow> u32 \<Rightarrow> nat list \<Rightarrow> warm_scanner \<Rightarrow> warm_scanner" where
  "read_slots rd orc mx p q inner depth [] sc = sc"
| "read_slots rd orc mx p q inner depth (i # is) sc =
     (if mx \<le> reads_of sc then sc
      else
        (case rd (p + of_nat i * 8) of
           None \<Rightarrow> read_error sc
         | Some elem \<Rightarrow>
             read_slots rd orc mx p q inner depth is
               (if elem \<noteq> 0 \<and> is_plausible_ptr orc elem
                then enqueue_target (elem, inner, q @ ''['' @ dec i @ '']'', depth + 1) (count_read sc)
                else count_read sc)))"

definition slot_limit :: "alloc_tracker \<Rightarrow> heap_oracle \<Rightarrow> u64 \<Rightarrow> nat" where
  "slot_limit tr orc p =
     (case alloc_size tr p of Some sz \<Rightarrow> unat (min (sz div 8) 128) | None \<Rightarrow> if is_heap orc p then 16 else 0)"

definition containers_of :: "'f engine \<Rightarrow> string \<Rightarrow> container_of_entry list" where
  "containers_of en n =
     (case en_dwarf en of None \<Rightarrow> []
      | Some info \<Rightarrow> (case di_container_of info n of Some es \<Rightarrow> es | None \<Rightarrow> []))"

definition pointee_type :: "registry \<Rightarrow> field_info \<Rightarrow> type_info option" where
  "pointee_type reg f =
     (case map_of reg (pointee_name (fi_type_info f)) of
        Some ti \<Rightarrow> Some ti
      | None \<Rightarrow> map_option fi_type_info (find (\<lambda>sf. fi_name sf = ''<pointee>'') (ti_fields (fi_type_info f))))"

definition follow_pointee ::
  "u64 \<Rightarrow> u64 \<Rightarrow> field_info \<Rightarrow> string \<Rightarrow> u32 \<Rightarrow> type_info \<Rightarrow> warm_scanner \<times> 'f engine \<Rightarrow> warm_scanner \<times> 'f engine" where
  "follow_pointee faddr p f src depth ti st =
     (case st of (sc, en) \<Rightarrow>
        (let pn = pointee_name (fi_type_info f); q = src @ ''.'' @ fi_name f;
             sc1 = enqueue_containers (en_oracle en) (registry_of en) p q depth (containers_of en pn) sc
         in (enqueue_target (p, ti, q, depth) sc1, emit_topo (emit_cold_link src faddr p pn (fi_name f)) en)))"

definition follow_array ::
  "read_word \<Rightarrow> nat \<Rightarrow> u64 \<Rightarrow> string \<Rightarrow> u32 \<Rightarrow> string \<Rightarrow> warm_scanner \<times> 'f engine \<Rightarrow> warm_scanner \<times> 'f engine" where
  "follow_array rd mx p q depth pn st =
     (case st of (sc, en) \<Rightarrow>
        (case map_of (registry_of en) (case strip_char (CHR ''*'') pn of Some n \<Rightarrow> n | None \<Rightarrow> []) of
           None \<Rightarrow> st
         | Some inner \<Rightarrow>
             (let en1 = (if is_heap (en_oracle en) p
                then upd_stm (\<lambda>s. (register_indirect p inner s)
                       \<lparr>st_indirect_registrations := st_indirect_registrations s + 1\<rparr>) en else en)
              in (read_slots rd (en_oracle en) mx p q inner depth [0..<slot_limit (allocs_of en) (en_oracle en) p] sc, en1))))"

definition scan_pointer ::
  "read_word \<Rightarrow> nat \<Rightarrow> u64 \<Rightarrow> field_info \<Rightarrow> string \<Rightarrow> u32 \<Rightarrow> warm_scanner \<times> 'f engine \<Rightarrow> warm_scanner \<times> 'f engine" where
  "scan_pointer rd mx faddr f src depth st =
     (case st of (sc, en) \<Rightarrow>
        (case rd faddr of
           None \<Rightarrow> (read_error sc, en)
         | Some p \<Rightarrow>
             (let sc1 = count_read sc; pn = pointee_name (fi_type_info f) in
              if p = 0 then (tick (\<lambda>s. s\<lparr>wt_null_ptrs := wt_null_ptrs s + 1\<rparr>) sc1, en)
              else
                (let array = (if prefix ''*'' pn then follow_array rd mx p (src @ ''.'' @ fi_name f) depth pn (sc1, en)
                              else (tick (\<lambda>s. s\<lparr>wt_missing_pointee_ti := wt_missing_pointee_ti s + 1\<rparr>) sc1, en))
                 in case pointee_type (registry_of en) f of
                      Some ti \<Rightarrow> (if 0 < ti_byte_size ti then follow_pointee faddr p f src depth ti (sc1, en) else array)
                    | None \<Rightarrow> array))))"

function scan_ptr_fields ::
  "read_word \<Rightarrow> nat \<Rightarrow> u64 \<Rightarrow> field_info list \<Rightarrow> string \<Rightarrow> u32 \<Rightarrow> warm_scanner \<times> 'f engine \<Rightarrow> warm_scanner \<times> 'f engine" where
  "scan_ptr_fields rd mx base [] src depth st = st"
| "scan_ptr_fields rd mx base (f # fs) src depth st =
     (if mx \<le> reads_of (fst st) then st
      else
        scan_ptr_fields rd mx base fs src depth
          (let faddr = base + fi_byte_offset f; t = fi_type_info f in
           if fi_name f = ''<pointee>'' then st
           else if ti_is_pointer t \<and> fi_byte_size f = 8 then scan_pointer rd mx faddr f src depth st
           else if \<not> ti_is_pointer t \<and> ti_fields t \<noteq> [] \<and> depth \<le> 6
             then scan_ptr_fields rd mx faddr (ti_fields t) (src @ ''.'' @ fi_name f) (depth + 1) st
           else st))"
  by pat_completeness auto

lemma depth_grows: "depth \<le> 6 \<Longrightarrow> 7 - unat (depth + 1) < 7 - unat (depth :: u32)"
proof -
  assume "depth \<le> 6"
  then have "unat depth \<le> 6" by (simp add: word_le_nat_alt)
  moreover from this have "unat (depth + 1) = unat depth + 1" by (simp add: unat_add_lem [THEN iffD1])
  ultimately show ?thesis by simp
qed

termination scan_ptr_fields
  by (relation "measures [\<lambda>(_, _, _, _, _, depth, _). 7 - unat depth, \<lambda>(_, _, _, fs, _). length fs]")
    (auto simp: depth_grows)


subsection \<open>Seeding from the globals\<close>

definition READS_UNBOUNDED :: nat where "READS_UNBOUNDED = 2 ^ 64 - 1"

text \<open>The types of the globals, once their names are materialized, and patched.\<close>

definition deepen_global :: "registry \<Rightarrow> global_var \<Rightarrow> global_var" where
  "deepen_global reg g =
     (case map_of reg (ti_name (gv_type_info g)) of
        Some fresh \<Rightarrow> (if length (ti_fields (gv_type_info g)) < length (ti_fields fresh) then g\<lparr>gv_type_info := fresh\<rparr> else g)
      | None \<Rightarrow> g)"

definition patch_global :: "nat \<Rightarrow> registry \<Rightarrow> global_var \<Rightarrow> global_var option" where
  "patch_global fuel reg g = map_option (\<lambda>t. g\<lparr>gv_type_info := t\<rparr>) (patch_shallow_fields fuel reg (gv_type_info g))"

definition deepen_globals :: "nat \<Rightarrow> dwarf_info \<Rightarrow> dwarf_info option" where
  "deepen_globals fuel info =
     (let info1 = fold ensure_in (map (\<lambda>g. ti_name (gv_type_info g)) (di_globals info)) info;
          reg = di_type_registry info1
      in map_option (\<lambda>gs. info1\<lparr>di_globals := gs\<rparr>) (those (map (patch_global fuel reg \<circ> deepen_global reg) (di_globals info1))))"

definition scan_global :: "read_word \<Rightarrow> u64 \<Rightarrow> global_var \<Rightarrow> warm_scanner \<times> 'f engine \<Rightarrow> warm_scanner \<times> 'f engine" where
  "scan_global rd delta g st =
     scan_ptr_fields rd READS_UNBOUNDED (gv_addr g + delta) (ti_fields (gv_type_info g)) (gv_name g) 1
       (tick (\<lambda>s. s\<lparr>wt_globals_scanned := wt_globals_scanned s + 1\<rparr>) (fst st), snd st)"

definition warm_seed :: "read_word \<Rightarrow> nat \<Rightarrow> u64 \<Rightarrow> warm_scanner \<times> 'f engine \<Rightarrow> (warm_scanner \<times> 'f engine) outcome" where
  "warm_seed rd fuel delta st =
     (case st of (sc, en) \<Rightarrow>
        (case en_dwarf en of None \<Rightarrow> Value st
         | Some info \<Rightarrow>
             (case deepen_globals fuel info of None \<Rightarrow> Panic
              | Some info1 \<Rightarrow>
                  (case fold (scan_global rd delta) (di_globals info1) (sc, en\<lparr>en_dwarf := Some info1\<rparr>) of
                     (sc1, en1) \<Rightarrow> Value (sc1\<lparr>wm_seeded := True, wm_passes := wm_passes sc1 + 1\<rparr>, en1)))))"


subsection \<open>A step\<close>

definition materialize :: "nat \<Rightarrow> type_info \<Rightarrow> dwarf_info \<Rightarrow> (dwarf_info \<times> type_info) option" where
  "materialize fuel ti info =
     (if ti_shallow ti \<or> ti_fields ti = [] then
        (let info1 = ensure_in (ti_name ti) info; reg = di_type_registry info1;
             ti1 = (case map_of reg (ti_name ti) of
                      Some fresh \<Rightarrow> (if length (ti_fields ti) < length (ti_fields fresh) then fresh else ti)
                    | None \<Rightarrow> ti)
         in map_option (Pair info1) (patch_shallow_fields fuel reg ti1))
      else Some (info, ti))"

definition warm_result :: "stamp_result \<Rightarrow> u64 \<Rightarrow> string \<Rightarrow> string \<Rightarrow> warm_scanner \<times> 'f engine \<Rightarrow> warm_scanner \<times> 'f engine" where
  "warm_result res a new_type src st =
     (case st of (sc, en) \<Rightarrow>
        (case res of
           Schism ot os oq \<Rightarrow> (tick (\<lambda>s. s\<lparr>wt_schisms := wt_schisms s + 1\<rparr>) sc, note_change False ot os oq a new_type src 0 en)
         | PoolReuse ot os oq \<Rightarrow> (sc, emit_topo (emit_type_epoch_close 0 a ot os oq 0 ''pool_reuse'') en)
         | _ \<Rightarrow> st))"

definition warm_stamp :: "warm_item \<Rightarrow> warm_scanner \<times> 'f engine \<Rightarrow> warm_scanner \<times> 'f engine \<times> nat" where
  "warm_stamp it st =
     (case it of (a, ti, src, d) \<Rightarrow> (case st of (sc, en) \<Rightarrow>
        (case stamp_type a ti src 0 (stm_of en) of
           (stm1, res) \<Rightarrow>
             (case warm_result res a (ti_name ti) src (sc, upd_stm (\<lambda>_. stm1) en) of
                (sc1, en1) \<Rightarrow>
                  (if took_effect res
                   then (tick (\<lambda>s. s\<lparr>wt_stamps_applied := wt_stamps_applied s + 1\<rparr>) sc1,
                         emit_topo (emit_cold_stamp a (ti_name ti) (ti_byte_size ti) src (length (ti_fields ti)) d)
                           (upd_stm (\<lambda>s. fst (replay_deferred (registry_of en1) (allocs_of en1) s)) en1), 1)
                   else (sc1, en1, 0))))))"

definition warm_visit :: "read_word \<Rightarrow> warm_item \<Rightarrow> warm_scanner \<times> 'f engine \<Rightarrow> warm_scanner \<times> 'f engine \<times> nat" where
  "warm_visit rd it st =
     (case it of (a, ti, src, d) \<Rightarrow> (case st of (sc, en) \<Rightarrow>
        (let sc1 = tick (\<lambda>s. s\<lparr>wt_queue_visits := wt_queue_visits s + 1, wt_max_depth_reached := max (wt_max_depth_reached s) d\<rparr>)
                     (sc\<lparr>wm_visited := insert a (wm_visited sc)\<rparr>);
             st2 = (if is_heap (en_oracle en) a
                    then (sc1, upd_world (\<lambda>w. w\<lparr>ws_heap_allocs := fst (check_size a ti (ws_heap_allocs w))\<rparr>) en)
                    else (tick (\<lambda>s. s\<lparr>wt_not_heap := wt_not_heap s + 1\<rparr>) sc1, en))
         in case warm_stamp it st2 of
              (sc3, en3, n) \<Rightarrow>
                (let en4 = (if list_ex (\<lambda>f. ti_is_pointer (fi_type_info f) \<and> fi_byte_size f = 8) (ti_fields ti)
                            then upd_stm (\<lambda>s. fst (retrospective_scan a (hg_new :: 'f heap_graph) (allocs_of en3)
                                   (registry_of en3) 0 (Some rd) s)) en3 else en3)
                 in case scan_ptr_fields rd READS_UNBOUNDED a (ti_fields ti) src (d + 1) (sc3, en4) of
                      (sc5, en5) \<Rightarrow> (sc5, en5, n)))))"


subsection \<open>What scanning an object does\<close>

text \<open>A type is tame when only types without fields are shallow in it, as the reader of DWARF makes them.\<close>

definition tame :: "type_info \<Rightarrow> bool" where
  "tame t \<longleftrightarrow> list_all (\<lambda>s. ti_shallow s \<longrightarrow> ti_fields s = []) (sub_types t)"

lemma tame_fields: "tame t \<longleftrightarrow> (ti_shallow t \<longrightarrow> ti_fields t = []) \<and> (\<forall>f \<in> set (ti_fields t). tame (fi_type_info f))"
  by (subst tame_def, subst sub_types.simps) (auto simp: tame_def list_all_iff)

definition tame_registry :: "registry \<Rightarrow> bool" where
  "tame_registry reg \<longleftrightarrow> (\<forall>n t. map_of reg n = Some t \<longrightarrow> tame t)"

lemma tick_fields [simp]:
  "wm_queue (tick g sc) = wm_queue sc" "wm_visited (tick g sc) = wm_visited sc" "wm_stats (tick g sc) = g (wm_stats sc)"
  "wm_max_depth (tick g sc) = wm_max_depth sc" "wm_passes (tick g sc) = wm_passes sc" "wm_seeded (tick g sc) = wm_seeded sc"
  by (simp_all add: tick_def)

text \<open>Items are appended, within the bound of the queue; the rest of the scanner only counts.\<close>

definition queued :: "warm_scanner \<Rightarrow> warm_scanner \<Rightarrow> bool" where
  "queued sc sc' \<longleftrightarrow>
     (\<exists>xs. wm_queue sc' = wm_queue sc @ xs \<and> list_all (\<lambda>(_, t, _, _). tame t) xs) \<and>
     (length (wm_queue sc) \<le> WARM_SCAN_QUEUE_CAP \<longrightarrow> length (wm_queue sc') \<le> WARM_SCAN_QUEUE_CAP) \<and>
     reads_of sc \<le> reads_of sc' \<and> wm_visited sc' = wm_visited sc \<and> wm_max_depth sc' = wm_max_depth sc \<and>
     wt_stamps_applied (wm_stats sc') = wt_stamps_applied (wm_stats sc) \<and>
     wt_queue_visits (wm_stats sc') = wt_queue_visits (wm_stats sc)"

lemma queued_refl [simp]: "queued sc sc"
  by (auto simp: queued_def)

lemma queued_trans:
  assumes "queued a b" "queued b c"
  shows "queued a c"
proof -
  obtain xs where xs: "wm_queue b = wm_queue a @ xs" "list_all (\<lambda>(_, t, _, _). tame t) xs" using assms(1) by (auto simp: queued_def)
  obtain ys where ys: "wm_queue c = wm_queue b @ ys" "list_all (\<lambda>(_, t, _, _). tame t) ys" using assms(2) by (auto simp: queued_def)
  have "wm_queue c = wm_queue a @ (xs @ ys) \<and> list_all (\<lambda>(_, t, _, _). tame t) (xs @ ys)" using xs ys by simp
  with assms show ?thesis unfolding queued_def by (intro conjI exI [of _ "xs @ ys"]) auto
qed

lemma queued_counts:
  "queued sc (cap_hit sc)" "queued sc (read_error sc)" "queued sc (count_read sc)"
  "queued sc (tick (\<lambda>s. s\<lparr>wt_null_ptrs := n s\<rparr>) sc)" "queued sc (tick (\<lambda>s. s\<lparr>wt_missing_pointee_ti := n s\<rparr>) sc)"
  "queued sc (tick (\<lambda>s. s\<lparr>wt_container_of_stamps := n s\<rparr>) sc)" "queued sc (tick (\<lambda>s. s\<lparr>wt_globals_scanned := n s\<rparr>) sc)"
  by (simp_all add: queued_def cap_hit_def read_error_def count_read_def)

lemma queued_push: "tame t \<Longrightarrow> length (wm_queue sc) < WARM_SCAN_QUEUE_CAP \<Longrightarrow> queued sc (push_item (a, t, src, d) sc)"
  by (simp add: queued_def push_item_def)

lemma queued_target: "tame t \<Longrightarrow> queued sc (enqueue_target (a, t, src, d) sc)"
  by (simp add: enqueue_target_def queued_push queued_counts)

lemma queued_containers:
  assumes "tame_registry reg"
  shows "queued sc (enqueue_containers orc reg p q depth es sc)"
proof (induction es arbitrary: sc)
  case (Cons e es)
  let ?base = "p - co_field_offset e"
  define sc1 where "sc1 = (if ?base \<noteq> 0 \<and> ?base \<notin> wm_visited sc \<and> is_plausible_ptr orc ?base
            then (case map_of reg (co_container_type e) of
                    Some ti \<Rightarrow> push_item (?base, ti, container_source q e, depth)
                      (tick (\<lambda>s. s\<lparr>wt_container_of_stamps := wt_container_of_stamps s + 1\<rparr>) sc)
                  | None \<Rightarrow> sc)
            else sc)"
  have "queued sc sc1" if "length (wm_queue sc) < WARM_SCAN_QUEUE_CAP"
    using that assms unfolding sc1_def tame_registry_def
    by (auto intro!: queued_trans [OF queued_counts(6) queued_push] split: option.split)
  then show ?case
    using Cons.IH [of sc1] queued_trans [of sc sc1]
    unfolding enqueue_containers.simps Let_def sc1_def [symmetric] by (simp add: queued_counts)
qed simp

lemma queued_slots:
  assumes "tame t"
  shows "queued sc (read_slots rd orc mx p q t depth is sc)"
proof (induction "is" arbitrary: sc)
  case (Cons i "is")
  define sc1 where "sc1 elem = (if elem \<noteq> 0 \<and> is_plausible_ptr orc elem
                then enqueue_target (elem, t, q @ ''['' @ dec i @ '']'', depth + 1) (count_read sc)
                else count_read sc)" for elem
  have "queued sc (sc1 elem)" for elem
    using queued_trans [OF queued_counts(3) queued_target [OF assms]] by (simp add: sc1_def queued_counts)
  then have "queued sc (read_slots rd orc mx p q t depth is (sc1 elem))" for elem
    using Cons.IH queued_trans by blast
  then show ?case
    unfolding read_slots.simps sc1_def [symmetric] by (simp add: queued_counts split: option.split)
qed simp

text \<open>Scanning changes the stream and the indirect registrations; whatever it queues is paid by a read.\<close>

definition scanned :: "nat \<Rightarrow> warm_scanner \<times> 'f engine \<Rightarrow> warm_scanner \<times> 'f engine \<Rightarrow> bool" where
  "scanned fuel st st' \<longleftrightarrow> queued (fst st) (fst st') \<and>
     (wm_queue (fst st') = wm_queue (fst st) \<or> reads_of (fst st) < reads_of (fst st')) \<and>
     quiet fuel (snd st) (snd st') \<and> en_dwarf (snd st') = en_dwarf (snd st)"

lemma scanned_refl: "scanned fuel st st"
  by (simp add: scanned_def quiet_refl)

lemma scanned_trans: "scanned fuel a b \<Longrightarrow> scanned fuel b c \<Longrightarrow> scanned fuel a c"
  unfolding scanned_def
  by (auto intro: queued_trans quiet_trans simp: queued_def)

lemma registry_of_dwarf: "en_dwarf a = en_dwarf b \<Longrightarrow> registry_of a = registry_of b"
  by (simp add: registry_of_def)

lemma count_read_reads [simp]: "reads_of (count_read sc) = Suc (reads_of sc)" "wm_queue (count_read sc) = wm_queue sc"
  by (simp_all add: count_read_def)

lemma scanned_paid:
  assumes "queued (count_read sc) sc'" "quiet fuel en en'" "en_dwarf en' = en_dwarf en"
  shows "scanned fuel (sc, en) (sc', en')"
proof -
  have "Suc (reads_of sc) \<le> reads_of sc'" using assms(1) by (simp add: queued_def)
  with assms queued_trans [OF queued_counts(3) assms(1)] show ?thesis by (simp add: scanned_def)
qed

lemma pointee_tame:
  assumes "tame_registry reg" "tame (fi_type_info f)" "pointee_type reg f = Some t"
  shows "tame t"
proof (cases "map_of reg (pointee_name (fi_type_info f))")
  case None
  with assms(3) obtain sf where "sf \<in> set (ti_fields (fi_type_info f))" "t = fi_type_info sf"
    by (auto simp: pointee_type_def dest: find_mem)
  with assms(2) tame_fields [of "fi_type_info f"] show ?thesis by blast
next
  case (Some u)
  with assms(1,3) show ?thesis by (simp add: pointee_type_def tame_registry_def)
qed

lemma dwarf_simps [simp]:
  "en_dwarf (emit_topo fs en) = en_dwarf en" "en_dwarf (upd_world g en) = en_dwarf en"
  "en_dwarf (note_change reuse ot os oq a nt src sq en) = en_dwarf en"
  by (simp_all add: emit_topo_def upd_world_def note_change_def Let_def split: option.split)

lemma quiet_indirect [quiet]:
  "quiet fuel en (upd_stm (\<lambda>s. (register_indirect p inner s)\<lparr>st_indirect_registrations := n s\<rparr>) en)"
  by (rule quiet_stm) (simp add: st_inv_def register_indirect_def)

lemma follow_array_spec:
  assumes "tame_registry (registry_of en)"
  shows "scanned fuel (sc, en) (follow_array rd mx p q depth pn (count_read sc, en))"
proof (cases "map_of (registry_of en) (case strip_char (CHR ''*'') pn of Some n \<Rightarrow> n | None \<Rightarrow> [])")
  case None
  then show ?thesis by (simp add: follow_array_def scanned_paid quiet_refl)
next
  case (Some inner)
  with assms have "tame inner" by (auto simp: tame_registry_def)
  then show ?thesis
    unfolding follow_array_def split_conv Some option.case Let_def
    by (intro scanned_paid queued_slots) (auto simp: quiet_refl intro: quiet_indirect)
qed

lemma scan_pointer_spec:
  assumes reg: "tame_registry (registry_of en)" and f: "tame (fi_type_info f)"
  shows "scanned fuel (sc, en) (scan_pointer rd mx faddr f src depth (sc, en))"
proof (cases "rd faddr")
  case None
  then show ?thesis by (simp add: scan_pointer_def scanned_def queued_counts quiet_refl) (simp add: read_error_def)
next
  case (Some p)
  define pn where "pn = pointee_name (fi_type_info f)"
  define array where "array = (if prefix ''*'' pn then follow_array rd mx p (src @ ''.'' @ fi_name f) depth pn (count_read sc, en)
                              else (tick (\<lambda>s. s\<lparr>wt_missing_pointee_ti := wt_missing_pointee_ti s + 1\<rparr>) (count_read sc), en))"
  have arr: "scanned fuel (sc, en) array"
    by (auto simp: array_def follow_array_spec [OF reg] intro!: scanned_paid queued_counts quiet_refl)
  have "scanned fuel (sc, en) (follow_pointee faddr p f src depth ti (count_read sc, en))" if "pointee_type (registry_of en) f = Some ti" for ti
    unfolding follow_pointee_def split_conv Let_def
    by (rule scanned_paid) (auto intro: queued_trans queued_containers [OF reg] queued_target [OF pointee_tame [OF reg f that]] quiet_topo)
  moreover have "scanned fuel (sc, en) (tick (\<lambda>s. s\<lparr>wt_null_ptrs := wt_null_ptrs s + 1\<rparr>) (count_read sc), en)"
    by (intro scanned_paid queued_counts quiet_refl refl)
  ultimately show ?thesis
    unfolding scan_pointer_def split_conv Some option.case Let_def pn_def [symmetric] array_def [symmetric]
    using arr by (auto split: option.split)
qed

lemma scan_ptr_fields_spec:
  "tame_registry (registry_of (snd st)) \<Longrightarrow> \<forall>f \<in> set fs. tame (fi_type_info f) \<Longrightarrow>
     scanned fuel st (scan_ptr_fields rd mx base fs src depth st)"
proof (induction rd mx base fs src depth st rule: scan_ptr_fields.induct)
  case (1 rd mx base src depth st)
  show ?case by (simp add: scanned_refl)
next
  case (2 rd mx base f fs src depth st)
  define faddr t where "faddr = base + fi_byte_offset f" and "t = fi_type_info f"
  define st1 where "st1 = (if fi_name f = ''<pointee>'' then st
           else if ti_is_pointer t \<and> fi_byte_size f = 8 then scan_pointer rd mx faddr f src depth st
           else if \<not> ti_is_pointer t \<and> ti_fields t \<noteq> [] \<and> depth \<le> 6
             then scan_ptr_fields rd mx faddr (ti_fields t) (src @ ''.'' @ fi_name f) (depth + 1) st
           else st)"
  have tf: "tame t" "\<forall>g \<in> set (ti_fields t). tame (fi_type_info g)" "\<forall>g \<in> set fs. tame (fi_type_info g)"
    using 2(4) tame_fields [of t] by (auto simp: t_def)
  show ?case
  proof (cases "mx \<le> reads_of (fst st)")
    case True
    then show ?thesis by (simp add: scanned_refl)
  next
    case False
    have sub: "scanned fuel st (scan_ptr_fields rd mx faddr (ti_fields t) (src @ ''.'' @ fi_name f) (depth + 1) st)"
      if "fi_name f \<noteq> ''<pointee>''" "\<not> (ti_is_pointer t \<and> fi_byte_size f = 8)" "\<not> ti_is_pointer t \<and> ti_fields t \<noteq> [] \<and> depth \<le> 6"
      using "2.IH"(1) [OF False faddr_def t_def that 2(3) tf(2)] .
    have s1: "scanned fuel st st1"
    proof -
      have "scanned fuel st (scan_pointer rd mx faddr f src depth st)"
        using scan_pointer_spec [of "snd st" f fuel "fst st" rd mx faddr src depth] 2(3) tf(1) by (simp add: t_def)
      with sub show ?thesis by (auto simp: st1_def scanned_refl)
    qed
    then have "registry_of (snd st1) = registry_of (snd st)" by (intro registry_of_dwarf) (simp add: scanned_def)
    then have "scanned fuel st1 (scan_ptr_fields rd mx base fs src depth st1)"
      using "2.IH"(2) [OF False] 2(3) tf(3) unfolding st1_def faddr_def t_def Let_def by simp
    with s1 False show ?thesis
      unfolding scan_ptr_fields.simps Let_def st1_def faddr_def t_def by (simp only: if_False) (rule scanned_trans)
  qed
qed


subsection \<open>What a visit does\<close>

lemma warm_result_spec:
  assumes "warm_result res a nt src (sc, en) = (sc', en')"
  shows "queued sc sc' \<and> reads_of sc' = reads_of sc \<and> wm_queue sc' = wm_queue sc \<and> quiet fuel en en' \<and> en_dwarf en' = en_dwarf en"
  using assms
  by (cases res) (auto simp: warm_result_def queued_def quiet_refl quiet_change quiet_topo)

definition visited_by :: "nat \<Rightarrow> nat \<Rightarrow> warm_scanner \<times> 'f engine \<Rightarrow> warm_scanner \<times> 'f engine \<Rightarrow> bool" where
  "visited_by fuel n st st' \<longleftrightarrow> wm_queue (fst st') = wm_queue (fst st) \<and> reads_of (fst st') = reads_of (fst st) \<and>
     wm_visited (fst st') = wm_visited (fst st) \<and> wm_max_depth (fst st') = wm_max_depth (fst st) \<and>
     wt_queue_visits (wm_stats (fst st')) = wt_queue_visits (wm_stats (fst st)) \<and>
     wt_stamps_applied (wm_stats (fst st')) = wt_stamps_applied (wm_stats (fst st)) + n \<and> n \<le> 1 \<and>
     quiet fuel (snd st) (snd st') \<and> en_dwarf (snd st') = en_dwarf (snd st)"

lemma warm_stamp_spec:
  assumes "warm_stamp (a, ti, src, d) (sc, en) = (sc', en', n)"
  shows "visited_by fuel n (sc, en) (sc', en')"
proof -
  obtain stm1 res where s: "stamp_type a ti src 0 (stm_of en) = (stm1, res)" by fastforce
  obtain sc1 en1 where r: "warm_result res a (ti_name ti) src (sc, upd_stm (\<lambda>_. stm1) en) = (sc1, en1)" by fastforce
  have q: "quiet fuel en (upd_stm (\<lambda>_. stm1) en)"
    using stamp_type_inv [of "stm_of en" a ti src 0] s by (intro quiet_stm) simp
  note w = warm_result_spec [OF r, of fuel]
  from w have q1: "quiet fuel en en1" "en_dwarf en1 = en_dwarf en" using quiet_trans [OF q] by simp_all
  have rep: "quiet fuel en1 (emit_topo fs (upd_stm (\<lambda>s. fst (replay_deferred reg al s)) en1))" for fs reg al
    by (rule quiet_trans [OF quiet_stm quiet_topo]) (rule st_inv_replay)
  from assms have "if took_effect res
       then sc' = tick (\<lambda>s. s\<lparr>wt_stamps_applied := wt_stamps_applied s + 1\<rparr>) sc1 \<and> n = 1 \<and>
         en' = emit_topo (emit_cold_stamp a (ti_name ti) (ti_byte_size ti) src (length (ti_fields ti)) d)
                 (upd_stm (\<lambda>s. fst (replay_deferred (registry_of en1) (allocs_of en1) s)) en1)
       else sc' = sc1 \<and> n = 0 \<and> en' = en1"
    unfolding warm_stamp_def s r split_conv by (simp split: if_splits)
  with w q1 rep [of "emit_cold_stamp a (ti_name ti) (ti_byte_size ti) src (length (ti_fields ti)) d" "registry_of en1" "allocs_of en1"]
  show ?thesis
    by (auto simp: visited_by_def queued_def split: if_splits intro: quiet_trans)
qed

definition visit_ok :: "nat \<Rightarrow> u64 \<Rightarrow> nat \<Rightarrow> warm_scanner \<times> 'f engine \<Rightarrow> warm_scanner \<times> 'f engine \<Rightarrow> bool" where
  "visit_ok fuel a n st st' \<longleftrightarrow>
     (\<exists>xs. wm_queue (fst st') = wm_queue (fst st) @ xs \<and> list_all (\<lambda>(_, t, _, _). tame t) xs) \<and>
     (length (wm_queue (fst st)) \<le> WARM_SCAN_QUEUE_CAP \<longrightarrow> length (wm_queue (fst st')) \<le> WARM_SCAN_QUEUE_CAP) \<and>
     (wm_queue (fst st') = wm_queue (fst st) \<or> reads_of (fst st) < reads_of (fst st')) \<and> reads_of (fst st) \<le> reads_of (fst st') \<and>
     wm_visited (fst st') = insert a (wm_visited (fst st)) \<and> wm_max_depth (fst st') = wm_max_depth (fst st) \<and>
     wt_queue_visits (wm_stats (fst st')) = wt_queue_visits (wm_stats (fst st)) + 1 \<and>
     wt_stamps_applied (wm_stats (fst st')) = wt_stamps_applied (wm_stats (fst st)) + n \<and> n \<le> 1 \<and>
     quiet fuel (snd st) (snd st') \<and> en_dwarf (snd st') = en_dwarf (snd st)"

lemma visit_steps:
  assumes "visited_by fuel n (sc1, en1) (sc2, en2)" "scanned fuel (sc2, en2) (sc3, en3)" "quiet fuel en en1"
    "en_dwarf en1 = en_dwarf en" "wm_queue sc1 = wm_queue sc" "reads_of sc1 = reads_of sc"
    "wm_visited sc1 = insert a (wm_visited sc)" "wm_max_depth sc1 = wm_max_depth sc"
    "wt_queue_visits (wm_stats sc1) = wt_queue_visits (wm_stats sc) + 1"
    "wt_stamps_applied (wm_stats sc1) = wt_stamps_applied (wm_stats sc)"
  shows "visit_ok fuel a n (sc, en) (sc3, en3)"
proof -
  have "quiet fuel en en3" using assms(1-3) by (auto simp: visited_by_def scanned_def intro: quiet_trans)
  with assms show ?thesis by (simp add: visit_ok_def visited_by_def scanned_def queued_def)
qed

lemma warm_visit_spec:
  assumes v: "warm_visit rd (a, ti, src, d) (sc, en) = (sc', en', n)" and ti: "tame ti" and reg: "tame_registry (registry_of en)"
  shows "visit_ok fuel a n (sc, en) (sc', en')"
proof -
  define sc1 where "sc1 = tick (\<lambda>s. s\<lparr>wt_queue_visits := wt_queue_visits s + 1, wt_max_depth_reached := max (wt_max_depth_reached s) d\<rparr>)
                     (sc\<lparr>wm_visited := insert a (wm_visited sc)\<rparr>)"
  define st2 where "st2 = (if is_heap (en_oracle en) a
                    then (sc1, upd_world (\<lambda>w. w\<lparr>ws_heap_allocs := fst (check_size a ti (ws_heap_allocs w))\<rparr>) en)
                    else (tick (\<lambda>s. s\<lparr>wt_not_heap := wt_not_heap s + 1\<rparr>) sc1, en))"
  obtain sc3 en3 n3 where s: "warm_stamp (a, ti, src, d) st2 = (sc3, en3, n3)" by (metis surj_pair)
  define en4 where "en4 = (if list_ex (\<lambda>f. ti_is_pointer (fi_type_info f) \<and> fi_byte_size f = 8) (ti_fields ti)
                            then upd_stm (\<lambda>s. fst (retrospective_scan a (hg_new :: 'a heap_graph) (allocs_of en3)
                                   (registry_of en3) 0 (Some rd) s)) en3 else en3)"
  have c: "(sc', en') = scan_ptr_fields rd READS_UNBOUNDED a (ti_fields ti) src (d + 1) (sc3, en4) \<and> n = n3"
    using v unfolding warm_visit_def split_conv Let_def sc1_def [symmetric] st2_def [symmetric] s en4_def [symmetric]
    by (simp split: prod.splits)
  obtain sc2 en2 where st2: "st2 = (sc2, en2)" by fastforce
  have vb: "visited_by fuel n3 (sc2, en2) (sc3, en3)" using warm_stamp_spec [OF s [unfolded st2]] .
  have q4: "quiet fuel en3 en4" "en_dwarf en4 = en_dwarf en3"
    unfolding en4_def by (auto simp: quiet_refl intro!: quiet_stm scan_ext_inv retrospective_scan_ext)
  have q2: "quiet fuel en en2" "en_dwarf en2 = en_dwarf en"
    using st2 by (auto simp: st2_def quiet_refl quiet_check_size split: if_splits)
  have vb4: "visited_by fuel n3 (sc2, en2) (sc3, en4)"
    using vb q4 by (auto simp: visited_by_def intro: quiet_trans)
  have "registry_of en4 = registry_of en"
    using vb4 q2(2) by (intro registry_of_dwarf) (simp add: visited_by_def)
  with reg have "tame_registry (registry_of (snd (sc3, en4)))" by simp
  from scan_ptr_fields_spec [OF this] ti tame_fields [of ti]
  have sc: "scanned fuel (sc3, en4) (sc', en')" using c by metis
  show ?thesis
    using st2 c by (intro visit_steps [OF vb4 [folded c [THEN conjunct2]] sc q2]) (auto simp: st2_def sc1_def split: if_splits)
qed


subsection \<open>Steps end\<close>

text \<open>
  The loop of \<open>step\<close>, with the number of stamps so far: it stops when the queue is empty or the budget
  of reads since \<open>start\<close> is used up, and then puts the item back.
\<close>

function warm_loop ::
  "read_word \<Rightarrow> nat \<Rightarrow> nat \<Rightarrow> nat \<Rightarrow> nat \<Rightarrow> warm_scanner \<times> 'f engine \<Rightarrow> (nat \<times> warm_scanner \<times> 'f engine) outcome" where
  "warm_loop rd fuel budget start n st =
     (case st of (sc, en) \<Rightarrow>
        (case wm_queue sc of [] \<Rightarrow> Value (n, sc, en)
         | (a, ti, src, d) # q \<Rightarrow>
             (case en_dwarf en of None \<Rightarrow> Value (n, sc, en)
              | Some info \<Rightarrow>
                  (case materialize fuel ti info of None \<Rightarrow> Panic
                   | Some (info1, ti1) \<Rightarrow>
                       (let en1 = en\<lparr>en_dwarf := Some info1\<rparr>; sc1 = sc\<lparr>wm_queue := q\<rparr> in
                        if budget \<le> reads_of sc - start then Value (n, sc\<lparr>wm_queue := (a, ti1, src, d) # q\<rparr>, en1)
                        else if wm_max_depth sc < d \<or> a \<in> wm_visited sc then warm_loop rd fuel budget start n (sc1, en1)
                        else
                          (case warm_visit rd (a, ti1, src, d) (sc1, en1) of
                             (sc2, en2, k) \<Rightarrow> warm_loop rd fuel budget start (n + k) (sc2, en2)))))))"
  by pat_completeness auto

text \<open>For termination nothing needs to be known of the types: an item is queued after a read.\<close>

definition paid :: "warm_scanner \<Rightarrow> warm_scanner \<Rightarrow> bool" where
  "paid sc sc' \<longleftrightarrow> reads_of sc < reads_of sc' \<or> reads_of sc' = reads_of sc \<and> wm_queue sc' = wm_queue sc"

lemma paid_trans: "paid a b \<Longrightarrow> paid b c \<Longrightarrow> paid a c"
  by (auto simp: paid_def)

lemma paid_refl: "paid sc sc"
  by (simp add: paid_def)

lemma paid_target: "reads_of (enqueue_target it sc) = reads_of sc"
  by (simp add: enqueue_target_def push_item_def cap_hit_def)

lemma paid_containers: "reads_of (enqueue_containers orc reg p q depth es sc) = reads_of sc"
  by (induction es arbitrary: sc) (simp_all add: Let_def push_item_def cap_hit_def split: option.split)

lemma paid_slots: "reads_of sc \<le> reads_of (read_slots rd orc mx p q t depth is sc)"
proof (induction "is" arbitrary: sc)
  case (Cons i "is")
  show ?case
  proof (cases "rd (p + of_nat i * 8)")
    case (Some elem)
    have "reads_of sc \<le> reads_of (read_slots rd orc mx p q t depth is
        (if elem \<noteq> 0 \<and> is_plausible_ptr orc elem
         then enqueue_target (elem, t, q @ ''['' @ dec i @ '']'', depth + 1) (count_read sc) else count_read sc))"
      by (rule order_trans [OF _ Cons.IH]) (simp add: paid_target)
    with Some show ?thesis by simp
  qed (simp add: read_error_def)
qed simp

lemma paid_pointer: "paid (fst st) (fst (scan_pointer rd mx faddr f src depth st))"
proof (cases st)
  case (Pair sc en)
  have "Suc (reads_of sc) \<le> reads_of (fst (follow_array rd mx p q depth pn (count_read sc, en)))" for p q pn
    using paid_slots [of "count_read sc"] by (auto simp: follow_array_def Let_def split: option.split)
  moreover have "reads_of (fst (follow_pointee faddr p f src depth ti (count_read sc, en))) = Suc (reads_of sc)" for p ti
    by (simp add: follow_pointee_def Let_def paid_target paid_containers)
  ultimately show ?thesis
    using Pair by (auto simp: scan_pointer_def paid_def Let_def Suc_le_eq read_error_def split: option.split)
qed

lemma paid_fields: "paid (fst st) (fst (scan_ptr_fields rd mx base fs src depth st))"
proof (induction rd mx base fs src depth st rule: scan_ptr_fields.induct)
  case (2 rd mx base f fs src depth st)
  note IH = 2
  show ?case
  proof (cases "mx \<le> reads_of (fst st)")
    case False
    define st1 where "st1 = (let faddr = base + fi_byte_offset f; t = fi_type_info f in
           if fi_name f = ''<pointee>'' then st
           else if ti_is_pointer t \<and> fi_byte_size f = 8 then scan_pointer rd mx faddr f src depth st
           else if \<not> ti_is_pointer t \<and> ti_fields t \<noteq> [] \<and> depth \<le> 6
             then scan_ptr_fields rd mx faddr (ti_fields t) (src @ ''.'' @ fi_name f) (depth + 1) st
           else st)"
    have "paid (fst st) (fst st1)"
      using IH(1) [OF False refl refl] paid_pointer [of st rd mx "base + fi_byte_offset f" f src depth] paid_refl
      by (simp add: st1_def Let_def)
    with IH(2) [OF False, folded st1_def] show ?thesis
      unfolding scan_ptr_fields.simps st1_def [symmetric] using False by (simp add: paid_trans)
  qed (simp add: paid_def)
qed (simp add: paid_def)

lemma paid_visit:
  assumes "warm_visit rd it (sc, en) = (sc', en', n)"
  shows "paid sc sc'"
proof -
  obtain a ti src d where it: "it = (a, ti, src, d)" by (cases it)
  define sc1 where "sc1 = tick (\<lambda>s. s\<lparr>wt_queue_visits := wt_queue_visits s + 1, wt_max_depth_reached := max (wt_max_depth_reached s) d\<rparr>)
                     (sc\<lparr>wm_visited := insert a (wm_visited sc)\<rparr>)"
  define st2 where "st2 = (if is_heap (en_oracle en) a
                    then (sc1, upd_world (\<lambda>w. w\<lparr>ws_heap_allocs := fst (check_size a ti (ws_heap_allocs w))\<rparr>) en)
                    else (tick (\<lambda>s. s\<lparr>wt_not_heap := wt_not_heap s + 1\<rparr>) sc1, en))"
  obtain sc2 en2 where st2: "st2 = (sc2, en2)" by fastforce
  obtain sc3 en3 n3 where s: "warm_stamp (a, ti, src, d) (sc2, en2) = (sc3, en3, n3)" by (metis surj_pair)
  have "wm_queue sc2 = wm_queue sc" "reads_of sc2 = reads_of sc"
    using st2 by (auto simp: st2_def sc1_def split: if_splits)
  moreover have "wm_queue sc3 = wm_queue sc2" "reads_of sc3 = reads_of sc2"
    using warm_stamp_spec [OF s] by (simp_all add: visited_by_def)
  moreover define en4 where "en4 = (if list_ex (\<lambda>f. ti_is_pointer (fi_type_info f) \<and> fi_byte_size f = 8) (ti_fields ti)
                            then upd_stm (\<lambda>s. fst (retrospective_scan a (hg_new :: 'a heap_graph) (allocs_of en3)
                                   (registry_of en3) 0 (Some rd) s)) en3 else en3)"
  have "(sc', en') = scan_ptr_fields rd READS_UNBOUNDED a (ti_fields ti) src (d + 1) (sc3, en4)"
    using assms unfolding it warm_visit_def split_conv Let_def sc1_def [symmetric] st2_def [symmetric] st2 s en4_def [symmetric]
    by (simp split: prod.splits)
  ultimately show ?thesis
    using paid_fields [of "(sc3, en4)" rd READS_UNBOUNDED a "ti_fields ti" src "d + 1"] by (auto simp: paid_def dest: sym)
qed

termination warm_loop
proof (relation "measures [\<lambda>(_, _, budget, start, _, st). start + budget - reads_of (fst st), \<lambda>(_, _, _, _, _, st). length (wm_queue (fst st))]",
    goal_cases)
  case 1
  show ?case by simp
next
  case 2
  then show ?case by (auto simp: measures_def)
next
  case 3
  then show ?case by (auto simp: measures_def paid_def dest!: paid_visit [OF sym])
qed

declare warm_loop.simps [simp del]

definition warm_step ::
  "read_word \<Rightarrow> nat \<Rightarrow> nat \<Rightarrow> warm_scanner \<times> 'f engine \<Rightarrow> (nat \<times> warm_scanner \<times> 'f engine) outcome" where
  "warm_step rd fuel budget st = warm_loop rd fuel budget (reads_of (fst st)) 0 st"


subsection \<open>What a step does\<close>

definition tame_info :: "dwarf_info \<Rightarrow> bool" where
  "tame_info info \<longleftrightarrow> (\<forall>nms. tame_registry (di_type_registry (fold ensure_in nms info)))"

lemma tame_info_ensure: "tame_info info \<Longrightarrow> tame_info (ensure_in nm info)"
  unfolding tame_info_def by (metis fold_simps(2))

lemma tame_info_registry: "tame_info info \<Longrightarrow> tame_registry (di_type_registry info)"
  unfolding tame_info_def by (metis fold_simps(1))

definition warm_ready :: "warm_scanner \<Rightarrow> dwarf_info option \<Rightarrow> bool" where
  "warm_ready sc dw \<longleftrightarrow> (\<exists>info. dw = Some info \<and> tame_info info) \<and>
     list_all (\<lambda>(_, t, _, _). tame t) (wm_queue sc) \<and> length (wm_queue sc) \<le> WARM_SCAN_QUEUE_CAP \<and> finite (wm_visited sc)"

lemma set_fields_tame:
  "tame t \<Longrightarrow> (\<forall>f \<in> set fs. tame (fi_type_info f)) \<Longrightarrow> (ti_fields t = [] \<Longrightarrow> fs = []) \<Longrightarrow> tame (set_fields t fs)"
  by (subst tame_fields) (auto simp: tame_fields [of t])

lemma patch_tame:
  "tame_registry reg \<Longrightarrow> tame t \<Longrightarrow> patch_shallow_fields n reg t = Some r \<Longrightarrow> tame r"
proof (induction n arbitrary: t r)
  case (Suc n)
  obtain fs where fs: "map_opt (patch_field n reg) (ti_fields t) = Some fs" "r = set_fields t fs"
    using Suc.prems(3) by (auto simp: patch_Suc)
  have sub: "tame (fi_type_info g)" if "patch_field n reg f = Some g" "f \<in> set (ti_fields t)" for f g
  proof -
    have "tame (fi_type_info f)" using that(2) Suc.prems(2) tame_fields [of t] by blast
    with Suc.prems(1) have u: "tame (fi_type_info (upgrade_field reg f))"
      by (auto simp: upgrade_field_def tame_registry_def split: option.split)
    show ?thesis
      using that(1) u Suc.IH [OF Suc.prems(1) u] by (auto simp: patch_field_def Let_def split: if_splits)
  qed
  have len: "length fs = length (ti_fields t)" and pat: "\<And>i. i < length fs \<Longrightarrow> patch_field n reg (ti_fields t ! i) = Some (fs ! i)"
    using fs(1) by (simp_all add: map_opt_Some)
  have "tame (fi_type_info g)" if "g \<in> set fs" for g
  proof -
    from that obtain i where "i < length fs" "g = fs ! i" by (auto simp: in_set_conv_nth)
    with sub [OF pat] len show ?thesis by simp
  qed
  then have "\<forall>g \<in> set fs. tame (fi_type_info g)" by blast
  moreover have "ti_fields t = [] \<Longrightarrow> fs = []" using len by simp
  ultimately show ?case using set_fields_tame [OF Suc.prems(2)] fs(2) by blast
qed simp

lemma materialize_spec:
  assumes "patchable fuel info" "tame_info info" "tame t" "0 < fuel"
  obtains info1 t1 where "materialize fuel t info = Some (info1, t1)" "info1 = info \<or> info1 = ensure_in (ti_name t) info" "tame t1"
proof (cases "ti_shallow t \<or> ti_fields t = []")
  case False
  with assms(3) that show ?thesis by (simp add: materialize_def)
next
  case True
  define info1 where "info1 = ensure_in (ti_name t) info"
  define reg where "reg = di_type_registry info1"
  define t1 where "t1 = (case map_of reg (ti_name t) of
      Some fresh \<Rightarrow> (if length (ti_fields t) < length (ti_fields fresh) then fresh else t) | None \<Rightarrow> t)"
  have reg: "tame_registry reg" unfolding reg_def info1_def using assms(2) by (intro tame_info_registry tame_info_ensure)
  have p: "map_of reg m = Some u \<Longrightarrow> patch_shallow_fields fuel reg u \<noteq> None" for m u
    using assms(1) [unfolded patchable_def, THEN spec, of "[ti_name t]"] by (simp add: reg_def info1_def Let_def)
  have "ti_fields t = []" using True assms(3) tame_fields [of t] by blast
  then have "patch_shallow_fields fuel reg t \<noteq> None" using assms(4) by (cases fuel) (simp_all add: patch_Suc)
  with p have "patch_shallow_fields fuel reg t1 \<noteq> None" by (auto simp: t1_def split: option.split)
  then obtain t2 where t2: "patch_shallow_fields fuel reg t1 = Some t2" by blast
  have "tame t1" using reg assms(3) by (auto simp: t1_def tame_registry_def split: option.split)
  from patch_tame [OF reg this t2] have "tame t2" .
  moreover have "materialize fuel t info = Some (info1, t2)"
    using True t2 unfolding materialize_def Let_def info1_def [symmetric] reg_def [symmetric] t1_def [symmetric] by simp
  ultimately show ?thesis using that info1_def by blast
qed

text \<open>What holds between the beginning of the loop and its end.\<close>

definition step_ok :: "nat \<Rightarrow> nat \<Rightarrow> warm_scanner \<times> 'f engine \<Rightarrow> warm_scanner \<times> 'f engine \<Rightarrow> bool" where
  "step_ok fuel k st st' \<longleftrightarrow>
     warm_ready (fst st') (en_dwarf (snd st')) \<and> wm_max_depth (fst st') = wm_max_depth (fst st) \<and>
     reads_of (fst st) \<le> reads_of (fst st') \<and> wm_visited (fst st) \<subseteq> wm_visited (fst st') \<and>
     (\<forall>(a, t, src, d) \<in> set (wm_queue (fst st)). d \<le> wm_max_depth (fst st) \<longrightarrow>
        a \<in> wm_visited (fst st') \<or> (\<exists>u. (a, u, src, d) \<in> set (wm_queue (fst st')))) \<and>
     wt_queue_visits (wm_stats (fst st')) + card (wm_visited (fst st)) =
       wt_queue_visits (wm_stats (fst st)) + card (wm_visited (fst st')) \<and>
     wt_stamps_applied (wm_stats (fst st')) = wt_stamps_applied (wm_stats (fst st)) + k \<and>
     wt_stamps_applied (wm_stats (fst st')) + wt_queue_visits (wm_stats (fst st)) \<le>
       wt_stamps_applied (wm_stats (fst st)) + wt_queue_visits (wm_stats (fst st')) \<and>
     quiet fuel (snd st) (snd st')"

lemma step_ok_refl:
  "warm_ready (fst st) (en_dwarf (snd st)) \<Longrightarrow> step_ok fuel 0 st st"
  by (auto simp: step_ok_def quiet_refl)

lemma step_ok_trans:
  assumes ab: "step_ok fuel k a b" and bc: "step_ok fuel l b c"
  shows "step_ok fuel (k + l) a c"
proof -
  have "x \<in> wm_visited (fst c) \<or> (\<exists>u. (x, u, src, d) \<in> set (wm_queue (fst c)))"
    if i: "(x, t, src, d) \<in> set (wm_queue (fst a))" "d \<le> wm_max_depth (fst a)" for x t src d
  proof -
    have "x \<in> wm_visited (fst b) \<or> (\<exists>u. (x, u, src, d) \<in> set (wm_queue (fst b)))"
      using ab i unfolding step_ok_def by blast
    moreover have "wm_max_depth (fst b) = wm_max_depth (fst a)" "wm_visited (fst b) \<subseteq> wm_visited (fst c)"
      using ab bc by (simp_all add: step_ok_def)
    ultimately show ?thesis using bc i(2) unfolding step_ok_def by fastforce
  qed
  with ab bc show ?thesis
    unfolding step_ok_def by (auto intro: quiet_trans)
qed

lemma quiet_info: "debug_ok fuel (en_dwarf en) \<Longrightarrow> en_dwarf en = Some info \<Longrightarrow> info1 = info \<or> info1 = ensure_in nm info \<Longrightarrow>
    quiet fuel en (en\<lparr>en_dwarf := Some info1\<rparr>)"
  by (rule quiet_dwarf) (auto intro: debug_ok_ensure)

lemma step_skip:
  assumes "warm_ready sc (en_dwarf en)" "wm_queue sc = (a, ti, src, d) # q" "wm_max_depth sc < d \<or> a \<in> wm_visited sc"
    "quiet fuel en (en\<lparr>en_dwarf := Some info1\<rparr>)" "tame_info info1"
  shows "step_ok fuel 0 (sc, en) (sc\<lparr>wm_queue := q\<rparr>, en\<lparr>en_dwarf := Some info1\<rparr>)"
  using assms by (auto simp: step_ok_def warm_ready_def)

lemma step_stop:
  assumes "warm_ready sc (en_dwarf en)" "wm_queue sc = (a, ti, src, d) # q" "tame ti1"
    "quiet fuel en (en\<lparr>en_dwarf := Some info1\<rparr>)" "tame_info info1"
  shows "step_ok fuel 0 (sc, en) (sc\<lparr>wm_queue := (a, ti1, src, d) # q\<rparr>, en\<lparr>en_dwarf := Some info1\<rparr>)"
  using assms by (auto simp: step_ok_def warm_ready_def)

lemma step_visit:
  assumes r: "warm_ready sc (en_dwarf en)" and q: "wm_queue sc = (a, ti, src, d) # q" and new: "a \<notin> wm_visited sc"
    and qt: "quiet fuel en (en\<lparr>en_dwarf := Some info1\<rparr>)" and t: "tame_info info1"
    and v: "visit_ok fuel a k (sc\<lparr>wm_queue := q\<rparr>, en\<lparr>en_dwarf := Some info1\<rparr>) (sc2, en2)"
  shows "step_ok fuel k (sc, en) (sc2, en2)"
proof -
  obtain xs where xs: "wm_queue sc2 = q @ xs" "list_all (\<lambda>(_, t, _, _). tame t) xs" using v by (auto simp: visit_ok_def)
  have vis: "wm_visited sc2 = insert a (wm_visited sc)" "en_dwarf en2 = Some info1" "wm_max_depth sc2 = wm_max_depth sc"
    "length (wm_queue sc2) \<le> WARM_SCAN_QUEUE_CAP" "quiet fuel (en\<lparr>en_dwarf := Some info1\<rparr>) en2"
    using v r q by (auto simp: visit_ok_def warm_ready_def)
  have "card (wm_visited sc2) = Suc (card (wm_visited sc))" using vis(1) new r by (simp add: warm_ready_def)
  moreover have "warm_ready sc2 (en_dwarf en2)" using r q t xs vis by (simp add: warm_ready_def)
  ultimately show ?thesis
    using v vis xs q quiet_trans [OF qt vis(5)] by (auto simp: step_ok_def visit_ok_def)
qed

lemma warm_loop_spec:
  assumes "warm_ready (fst st) (en_dwarf (snd st))" "debug_ok fuel (en_dwarf (snd st))" "0 < fuel"
  shows "\<exists>k st'. warm_loop rd fuel budget start n st = Value (n + k, st') \<and> step_ok fuel k st st' \<and>
    (wm_queue (fst st') = [] \<or> budget \<le> reads_of (fst st') - start)"
  using assms
proof (induction rd fuel budget start n st rule: warm_loop.induct)
  case (1 rd fuel budget start n st)
  note IH = "1.IH" and prems = "1.prems"
  obtain sc en where st: "st = (sc, en)" by (cases st)
  obtain info where info: "en_dwarf en = Some info" "tame_info info" using prems(1) st by (auto simp: warm_ready_def)
  show ?case
  proof (cases "wm_queue sc")
    case Nil
    then have "warm_loop rd fuel budget start n st = Value (n + 0, st)" by (simp add: st warm_loop.simps)
    with Nil step_ok_refl [OF prems(1)] show ?thesis by (metis fst_conv st)
  next
    case (Cons it q)
    obtain a ti src d where it: "it = (a, ti, src, d)" by (cases it)
    have tame: "tame ti" using prems(1) by (simp add: st warm_ready_def Cons it)
    have "patchable fuel info" using prems(2) info by (simp add: st debug_ok_def)
    from materialize_spec [OF this info(2) tame prems(3)] obtain info1 ti1 where
      m: "materialize fuel ti info = Some (info1, ti1)" "info1 = info \<or> info1 = ensure_in (ti_name ti) info" "tame ti1" by blast
    define en1 sc1 where "en1 = en\<lparr>en_dwarf := Some info1\<rparr>" and "sc1 = sc\<lparr>wm_queue := q\<rparr>"
    have ti1: "tame_info info1" using m(2) info(2) tame_info_ensure by blast
    have r: "warm_ready sc (en_dwarf en)" using prems(1) st by simp
    have qt: "quiet fuel en en1" unfolding en1_def using quiet_info [OF _ info(1) m(2)] prems(2) st by simp
    have d1: "debug_ok fuel (en_dwarf en1)" using m(2) prems(2) info(1) debug_ok_ensure by (auto simp: en1_def st)
    note unf = warm_loop.simps [of rd fuel budget start n st, unfolded st split_conv Cons it list.case info(1) option.case m(1) Let_def,
        folded en1_def sc1_def]
    note qC = Cons [unfolded it]
    consider (stop) "budget \<le> reads_of sc - start"
      | (skip) "\<not> budget \<le> reads_of sc - start" "wm_max_depth sc < d \<or> a \<in> wm_visited sc"
      | (visit) "\<not> budget \<le> reads_of sc - start" "\<not> (wm_max_depth sc < d \<or> a \<in> wm_visited sc)" by blast
    then show ?thesis
    proof cases
      case stop
      from step_stop [OF r qC m(3) qt [unfolded en1_def] ti1] stop show ?thesis
        unfolding st unf en1_def
        by (intro exI [of _ 0] exI [of _ "(sc\<lparr>wm_queue := (a, ti1, src, d) # q\<rparr>, en\<lparr>en_dwarf := Some info1\<rparr>)"]) simp
    next
      case skip
      have s1: "step_ok fuel 0 (sc, en) (sc1, en1)"
        unfolding sc1_def en1_def by (rule step_skip [OF r qC skip(2) qt [unfolded en1_def] ti1])
      then have "warm_ready sc1 (en_dwarf en1)" by (simp add: step_ok_def)
      with IH(1) [OF st [symmetric] Cons it [symmetric] refl refl info(1) m(1) refl en1_def sc1_def skip] d1 prems(3)
      obtain k st' where "warm_loop rd fuel budget start n (sc1, en1) = Value (n + k, st')" "step_ok fuel k (sc1, en1) st'"
        "wm_queue (fst st') = [] \<or> budget \<le> reads_of (fst st') - start" by auto
      with step_ok_trans [OF s1] skip show ?thesis unfolding st unf by auto
    next
      case visit
      obtain sc2 en2 k0 where v: "warm_visit rd (a, ti1, src, d) (sc1, en1) = (sc2, en2, k0)" by (metis surj_pair)
      have "tame_registry (registry_of en1)" using tame_info_registry [OF ti1] by (simp add: registry_of_def en1_def)
      note vo = warm_visit_spec [OF v m(3) this, of fuel]
      have s1: "step_ok fuel k0 (sc, en) (sc2, en2)"
        using step_visit [OF r qC _ qt [unfolded en1_def] ti1 vo [unfolded sc1_def en1_def]] visit(2) by blast
      then have r2: "warm_ready sc2 (en_dwarf en2)" by (simp add: step_ok_def)
      have d2: "debug_ok fuel (en_dwarf en2)" using vo d1 by (simp add: visit_ok_def)
      from IH(2) [OF st [symmetric] Cons it [symmetric] refl refl info(1) m(1) refl en1_def sc1_def visit v [symmetric] refl] r2 d2 prems(3)
      obtain k st' where "warm_loop rd fuel budget start (n + k0) (sc2, en2) = Value (n + k0 + k, st')" "step_ok fuel k (sc2, en2) st'"
        "wm_queue (fst st') = [] \<or> budget \<le> reads_of (fst st') - start" by auto
      with step_ok_trans [OF s1] visit v show ?thesis unfolding st unf by (auto simp: add.assoc)
    qed
  qed
qed

lemma step_ok_good: "step_ok fuel k st st' \<Longrightarrow> good fuel m (snd st) \<Longrightarrow> good fuel m (snd st')"
  by (auto simp: step_ok_def intro: good_quiet)

text \<open>
  C34 (termination).  For every memory and budget a step of the warm scan returns, when the types in
  the queue and in the registry are tame and can be patched within the fuel, and it returns either
  with an empty queue or with its budget of reads used up.  The engine's invariant is kept; the queue
  stays within its cap; every address that was queued at an allowed depth has been visited or is
  still queued; no address is visited twice, so the new visits are as many as the newly visited
  addresses; and the number returned, of stamps that took effect, is at most the number of visits.
\<close>

theorem warm_step_returns:
  assumes "good fuel m en" "warm_ready sc (en_dwarf en)" "0 < fuel"
  shows "\<exists>n sc' en'. warm_step rd fuel budget (sc, en) = Value (n, sc', en') \<and>
     good fuel m en' \<and> warm_ready sc' (en_dwarf en') \<and>
     (wm_queue sc' = [] \<or> budget \<le> reads_of sc' - reads_of sc) \<and>
     (\<forall>(a, t, src, d) \<in> set (wm_queue sc). d \<le> wm_max_depth sc \<longrightarrow>
        a \<in> wm_visited sc' \<or> a \<in> fst ` set (wm_queue sc')) \<and>
     wm_visited sc \<subseteq> wm_visited sc' \<and>
     wt_queue_visits (wm_stats sc') = wt_queue_visits (wm_stats sc) + card (wm_visited sc' - wm_visited sc) \<and>
     wt_stamps_applied (wm_stats sc') = wt_stamps_applied (wm_stats sc) + n \<and> n \<le> card (wm_visited sc' - wm_visited sc)"
proof -
  have "debug_ok fuel (en_dwarf en)" using assms(1) by (simp add: good_def)
  with warm_loop_spec [of "(sc, en)" fuel rd budget "reads_of sc" 0] assms(2,3)
  obtain n sc' en' where r: "warm_loop rd fuel budget (reads_of sc) 0 (sc, en) = Value (n, sc', en')"
    "step_ok fuel n (sc, en) (sc', en')" "wm_queue sc' = [] \<or> budget \<le> reads_of sc' - reads_of sc" by auto
  have ready: "warm_ready sc' (en_dwarf en')" "wm_visited sc \<subseteq> wm_visited sc'" using r(2) by (simp_all add: step_ok_def)
  then have "card (wm_visited sc') = card (wm_visited sc) + card (wm_visited sc' - wm_visited sc)"
    using assms(2) by (simp add: card_Diff_subset card_mono warm_ready_def)
  moreover have "a \<in> wm_visited sc' \<or> a \<in> fst ` set (wm_queue sc')"
    if "(a, t, src, d) \<in> set (wm_queue sc)" "d \<le> wm_max_depth sc" for a t src d
    using r(2) that unfolding step_ok_def by (fastforce simp: image_iff)
  ultimately show ?thesis
    using r ready step_ok_good [OF r(2)] assms(1) by (auto simp: warm_step_def step_ok_def)
qed


text \<open>A list of two nodes in the memory of the process; the first is queued.\<close>

definition two_nodes :: read_word where
  "two_nodes a = (if a = 0x900000 then Some 0x900010 else if a = 0x900010 then Some 0 else None)"

definition demo_scanner :: warm_scanner where
  "demo_scanner = (wm_new 12)\<lparr>wm_queue := [(0x900000, demo_node, ''head'', 2)]\<rparr>"

lemma demo_tame: "tame demo_node" "tame_info demo_info"
proof -
  have "tame (Type_Info n z p False True False [])" for n z p by (subst tame_fields) simp
  moreover have "tame (Type_Info n z p False False False [])" for n z p by (subst tame_fields) simp
  ultimately show t: "tame demo_node" unfolding demo_node_def by (subst tame_fields) simp
  have "di_type_registry (fold ensure_in nms demo_info) = [(''node'', demo_node)]" for nms
    by (simp add: registry_without_file demo_info_def)
  with t show "tame_info demo_info" by (simp add: tame_info_def tame_registry_def)
qed

lemma populate_dwarf: "en_dwarf (populate_globals info delta en) = en_dwarf en"
  by (simp add: populate_globals_def split: prod.split)

lemma demo_start_dwarf: "en_dwarf (engine_start (Some demo_info) ro_new None) = Some demo_info"
  by (simp add: engine_start_def Let_def populate_dwarf) (simp add: engine_new_def)

lemma demo_scanner_queue: "wm_queue demo_scanner = [(0x900000, demo_node, ''head'', 2)]"
  by (simp add: demo_scanner_def)

lemma demo_scanner_rest: "wm_max_depth demo_scanner = 12" "reads_of demo_scanner = 0" "wm_visited demo_scanner = {}"
  by (simp_all add: demo_scanner_def wm_new_def ws_stats_zero_def)

lemma demo_scanner_ready: "warm_ready demo_scanner (Some demo_info)"
  using demo_tame by (simp add: warm_ready_def demo_scanner_queue demo_scanner_rest WARM_SCAN_QUEUE_CAP_def)

theorem warm_step_returns_witness:
  "\<exists>n sc' en'. warm_step two_nodes 2 100 (demo_scanner, engine_start (Some demo_info) ro_new None :: int engine) = Value (n, sc', en') \<and>
     (wm_queue sc' = [] \<or> 100 \<le> reads_of sc')"
proof -
  have g: "good 2 1 (engine_start (Some demo_info) ro_new None :: int engine)" by (rule good_start [OF demo_debug_ok])
  have r: "warm_ready demo_scanner (en_dwarf (engine_start (Some demo_info) ro_new None :: int engine))"
    unfolding demo_start_dwarf by (rule demo_scanner_ready)
  from warm_step_returns [OF g r zero_less_numeral, of two_nodes 100]
  obtain n sc' en' where "warm_step two_nodes 2 100 (demo_scanner, engine_start (Some demo_info) ro_new None :: int engine) = Value (n, sc', en')"
    "wm_queue sc' = [] \<or> 100 \<le> reads_of sc' - reads_of demo_scanner" by (elim exE conjE)
  then show ?thesis unfolding demo_scanner_rest(2) minus_nat.diff_0 by (intro exI conjI)
qed

subsection \<open>Seeding\<close>

lemma ensure_in_globals: "ensure_in nm (info\<lparr>di_globals := gs\<rparr>) = (ensure_in nm info)\<lparr>di_globals := gs\<rparr>"
  by (simp add: ensure_in_def split: prod.split)

lemma fold_ensure_globals: "fold ensure_in nms (info\<lparr>di_globals := gs\<rparr>) = (fold ensure_in nms info)\<lparr>di_globals := gs\<rparr>"
  by (induction nms arbitrary: info) (simp_all add: ensure_in_globals)

lemma globals_keep:
  "patchable fuel (info\<lparr>di_globals := gs\<rparr>) = patchable fuel info" "no_division (info\<lparr>di_globals := gs\<rparr>) = no_division info"
  "tame_info (info\<lparr>di_globals := gs\<rparr>) = tame_info info"
  by (simp_all add: patchable_def no_division_def tame_info_def fold_ensure_globals)

lemma fold_ensure_keeps:
  "debug_ok fuel (Some info) \<Longrightarrow> debug_ok fuel (Some (fold ensure_in nms info))"
  "tame_info info \<Longrightarrow> tame_info (fold ensure_in nms info)"
  "di_globals (fold ensure_in nms info) = di_globals info"
  by (induction nms arbitrary: info) (simp_all add: debug_ok_ensure tame_info_ensure)

lemma those_set: "those (map h xs) = Some ys \<Longrightarrow> y \<in> set ys \<Longrightarrow> \<exists>x \<in> set xs. h x = Some y"
  by (induction xs arbitrary: ys) (auto split: option.splits)

lemma those_some: "\<forall>x \<in> set xs. h x \<noteq> None \<Longrightarrow> \<exists>ys. those (map h xs) = Some ys"
  by (induction xs) auto

text \<open>The globals' types can be patched in every registry that materializing types leads to.\<close>

definition globals_ok :: "nat \<Rightarrow> dwarf_info \<Rightarrow> bool" where
  "globals_ok fuel info \<longleftrightarrow> (\<forall>g \<in> set (di_globals info). tame (gv_type_info g) \<and>
     (\<forall>nms. patch_shallow_fields fuel (di_type_registry (fold ensure_in nms info)) (gv_type_info g) \<noteq> None))"

lemma deepen_global_type:
  "gv_type_info (deepen_global reg g) = gv_type_info g \<or> (\<exists>n. map_of reg n = Some (gv_type_info (deepen_global reg g)))"
  by (auto simp: deepen_global_def split: option.split)

lemma deepen_globals_spec:
  assumes "debug_ok fuel (Some info)" "tame_info info" "globals_ok fuel info"
  obtains info1 where "deepen_globals fuel info = Some info1" "debug_ok fuel (Some info1)" "tame_info info1"
    "\<forall>g \<in> set (di_globals info1). tame (gv_type_info g)"
proof -
  let ?nms = "map (\<lambda>g. ti_name (gv_type_info g)) (di_globals info)"
  define info0 where "info0 = fold ensure_in ?nms info"
  define reg where "reg = di_type_registry info0"
  let ?h = "patch_global fuel reg \<circ> deepen_global reg"
  have k: "debug_ok fuel (Some info0)" "tame_info info0" "di_globals info0 = di_globals info"
    unfolding info0_def using assms(1,2) by (simp_all only: fold_ensure_keeps)
  have tr: "tame_registry reg" unfolding reg_def by (rule tame_info_registry [OF k(2)])
  have pt: "map_of reg n = Some t \<Longrightarrow> patch_shallow_fields fuel reg t \<noteq> None" for n t
    using assms(1) unfolding debug_ok_def option.case patchable_def Let_def reg_def info0_def by blast
  have one: "\<exists>g'. ?h g = Some g' \<and> tame (gv_type_info g')" if "g \<in> set (di_globals info)" for g
  proof -
    have "tame (gv_type_info g)" "patch_shallow_fields fuel reg (gv_type_info g) \<noteq> None"
      using assms(3) that unfolding globals_ok_def reg_def info0_def by blast+
    with deepen_global_type [of reg g] tr pt
    have u: "tame (gv_type_info (deepen_global reg g))" "patch_shallow_fields fuel reg (gv_type_info (deepen_global reg g)) \<noteq> None"
      unfolding tame_registry_def by metis+
    then obtain t where t: "patch_shallow_fields fuel reg (gv_type_info (deepen_global reg g)) = Some t" by blast
    from patch_tame [OF tr u(1) t] t show ?thesis by (simp add: patch_global_def)
  qed
  then have "\<forall>g \<in> set (di_globals info). ?h g \<noteq> None" by fastforce
  then obtain gs where gs: "those (map ?h (di_globals info)) = Some gs" using those_some by blast
  show ?thesis
  proof (rule that [of "info0\<lparr>di_globals := gs\<rparr>"])
    show "deepen_globals fuel info = Some (info0\<lparr>di_globals := gs\<rparr>)"
      unfolding deepen_globals_def Let_def info0_def [symmetric] reg_def [symmetric] k(3) gs by simp
    show "debug_ok fuel (Some (info0\<lparr>di_globals := gs\<rparr>))" "tame_info (info0\<lparr>di_globals := gs\<rparr>)"
      using k(1,2) by (simp_all add: debug_ok_def globals_keep)
    show "\<forall>g \<in> set (di_globals (info0\<lparr>di_globals := gs\<rparr>)). tame (gv_type_info g)"
    proof
      fix g
      assume "g \<in> set (di_globals (info0\<lparr>di_globals := gs\<rparr>))"
      then have "g \<in> set gs" by simp
      with those_set [OF gs] obtain g0 where "g0 \<in> set (di_globals info)" "?h g0 = Some g" by blast
      with one show "tame (gv_type_info g)" by fastforce
    qed
  qed
qed

lemma scan_globals_spec:
  assumes "tame_registry (registry_of (snd st))" "\<forall>g \<in> set gs. tame (gv_type_info g)"
  shows "scanned fuel st (fold (scan_global rd delta) gs st)"
  using assms
proof (induction gs arbitrary: st)
  case Nil
  show ?case by (simp add: scanned_refl)
next
  case (Cons g gs)
  define st0 where "st0 = (tick (\<lambda>s. s\<lparr>wt_globals_scanned := wt_globals_scanned s + 1\<rparr>) (fst st), snd st)"
  have s0: "scanned fuel st st0" by (simp add: st0_def scanned_def quiet_refl queued_counts)
  have "\<forall>f \<in> set (ti_fields (gv_type_info g)). tame (fi_type_info f)"
    using Cons.prems(2) tame_fields [of "gv_type_info g"] by simp
  then have "scanned fuel st0 (scan_global rd delta g st)"
    unfolding scan_global_def st0_def [symmetric] using Cons.prems(1)
    by (intro scan_ptr_fields_spec) (simp_all add: st0_def)
  with s0 have s1: "scanned fuel st (scan_global rd delta g st)" by (rule scanned_trans)
  then have "registry_of (snd (scan_global rd delta g st)) = registry_of (snd st)"
    by (intro registry_of_dwarf) (simp add: scanned_def)
  with Cons have "scanned fuel (scan_global rd delta g st) (fold (scan_global rd delta) gs (scan_global rd delta g st))" by simp
  with s1 show ?case by (simp add: scanned_trans)
qed

text \<open>After seeding the scanner is ready for its steps, and the engine's invariant still holds.\<close>

lemma warm_seed_ready:
  assumes "good fuel m en" "warm_ready sc (en_dwarf en)" "\<And>info. en_dwarf en = Some info \<Longrightarrow> globals_ok fuel info"
  obtains sc' en' where "warm_seed rd fuel delta (sc, en) = Value (sc', en')" "good fuel m en'" "warm_ready sc' (en_dwarf en')"
    "wm_seeded sc'"
proof -
  obtain info where info: "en_dwarf en = Some info" "tame_info info" using assms(2) by (auto simp: warm_ready_def)
  have dbg: "debug_ok fuel (Some info)" using assms(1) info(1) by (simp add: good_def)
  from deepen_globals_spec [OF dbg info(2) assms(3) [OF info(1)]] obtain info1 where
    i: "deepen_globals fuel info = Some info1" "debug_ok fuel (Some info1)" "tame_info info1"
    "\<forall>g \<in> set (di_globals info1). tame (gv_type_info g)" .
  let ?en1 = "en\<lparr>en_dwarf := Some info1\<rparr>"
  have q1: "quiet fuel en ?en1" using dbg info(1) i(2) by (intro quiet_dwarf) simp_all
  obtain sc2 en2 where f: "fold (scan_global rd delta) (di_globals info1) (sc, ?en1) = (sc2, en2)" by fastforce
  have "scanned fuel (sc, ?en1) (sc2, en2)"
    using scan_globals_spec [of "(sc, ?en1)" "di_globals info1" fuel rd delta] f i(4) tame_info_registry [OF i(3)]
    by (simp add: registry_of_def)
  then have s: "queued sc sc2" "quiet fuel ?en1 en2" "en_dwarf en2 = Some info1" by (simp_all add: scanned_def)
  let ?sc = "sc2\<lparr>wm_seeded := True, wm_passes := wm_passes sc2 + 1\<rparr>"
  have "warm_seed rd fuel delta (sc, en) = Value (?sc, en2)"
    unfolding warm_seed_def split_conv info(1) option.case i(1) f ..
  moreover have "good fuel m en2" by (rule good_quiet [OF quiet_trans [OF q1 s(2)] assms(1)])
  moreover have "warm_ready ?sc (en_dwarf en2)" using assms(2) s(1,3) i(3) by (auto simp: warm_ready_def queued_def)
  ultimately show ?thesis using that by simp
qed

end
