(* ===== verification/Recording.thy ===== *)
theory Recording
  imports Ring_Protocol Reconciler
begin

text \<open>
  Recording and replay of events (\<^verbatim>\<open>engine/src/record.rs\<close>).  A file is the list of its bytes; writing
  does not fail, and reading fails only at the end of the file.  The number of events in the header
  is written last, when the recording is finished.
\<close>

definition RECORD_MAGIC :: u64 where "RECORD_MAGIC = 0x52544D4150524300"
definition REC_PROTO_VERSION :: u32 where "REC_PROTO_VERSION = 3"
definition HEADER_SIZE :: nat where "HEADER_SIZE = 24"
definition DISK_EVENT_SIZE :: nat where "DISK_EVENT_SIZE = 32"

record event_recorder =
  er_file :: "u8 list"
  er_count :: u64

definition er_create :: event_recorder where
  "er_create = \<lparr>er_file = to_le_bytes 8 RECORD_MAGIC @ to_le_bytes 4 REC_PROTO_VERSION @
     to_le_bytes 8 (0 :: u64) @ to_le_bytes 4 (0 :: u32), er_count = 0\<rparr>"

definition event_bytes :: "event \<Rightarrow> u8 list" where
  "event_bytes ev = to_le_bytes 8 (e_addr ev) @ to_le_bytes 4 (e_size ev) @ to_le_bytes 2 (e_thread_id ev) @
     to_le_bytes 2 (e_seq ev) @ to_le_bytes 8 (e_value ev) @ to_le_bytes 4 (e_kind_flags ev) @ to_le_bytes 4 (e_rip_lo ev)"

definition er_record :: "event \<Rightarrow> event_recorder \<Rightarrow> event_recorder" where
  "er_record ev r = r\<lparr>er_file := er_file r @ event_bytes ev, er_count := er_count r + 1\<rparr>"

definition snapshot_slot :: "event \<Rightarrow> u64 list \<Rightarrow> nat \<Rightarrow> event" where
  "snapshot_slot h regs i =
     \<lparr>e_addr = regs ! (i * 3), e_size = ucast (regs ! (i * 3 + 1)), e_thread_id = e_thread_id h, e_seq = e_seq h,
      e_value = regs ! (i * 3 + 2), e_kind_flags = e_kind_flags h, e_rip_lo = 0\<rparr>"

definition er_record_snapshot :: "event \<Rightarrow> u64 list \<Rightarrow> event_recorder \<Rightarrow> event_recorder" where
  "er_record_snapshot h regs r = fold (\<lambda>i. er_record (snapshot_slot h regs i)) [0..<6] (er_record h r)"

text \<open>\<open>seek\<close> and \<open>write_all\<close>: the bytes from a position on are overwritten.\<close>

definition write_at :: "nat \<Rightarrow> u8 list \<Rightarrow> u8 list \<Rightarrow> u8 list" where
  "write_at pos bs file = take pos file @ bs @ drop (pos + length bs) file"

definition er_finish :: "event_recorder \<Rightarrow> u8 list \<times> u64" where
  "er_finish r = (write_at 12 (to_le_bytes 8 (er_count r)) (er_file r), er_count r)"

datatype open_error = Short_Header | Bad_Magic u64 | Bad_Version u32

record event_player =
  ep_rest :: "u8 list"
  ep_remaining :: u64

definition slice :: "nat \<Rightarrow> nat \<Rightarrow> 'a list \<Rightarrow> 'a list" where
  "slice i j xs = take (j - i) (drop i xs)"

definition ep_open :: "u8 list \<Rightarrow> open_error + event_player" where
  "ep_open file =
     (if length file < HEADER_SIZE then Inl Short_Header
      else
        (let hdr = take HEADER_SIZE file; magic = from_le_bytes (slice 0 8 hdr);
             proto = from_le_bytes (slice 8 12 hdr)
         in if magic \<noteq> RECORD_MAGIC then Inl (Bad_Magic magic)
            else if proto \<noteq> REC_PROTO_VERSION then Inl (Bad_Version proto)
            else Inr \<lparr>ep_rest = drop HEADER_SIZE file, ep_remaining = from_le_bytes (slice 12 20 hdr)\<rparr>))"

definition event_of_bytes :: "u8 list \<Rightarrow> event" where
  "event_of_bytes buf = \<lparr>e_addr = from_le_bytes (slice 0 8 buf), e_size = from_le_bytes (slice 8 12 buf),
     e_thread_id = from_le_bytes (slice 12 14 buf), e_seq = from_le_bytes (slice 14 16 buf),
     e_value = from_le_bytes (slice 16 24 buf), e_kind_flags = from_le_bytes (slice 24 28 buf),
     e_rip_lo = from_le_bytes (slice 28 32 buf)\<rparr>"

text \<open>A file that ends inside an event ends the replay; what \<open>read_exact\<close> consumed is lost.\<close>

definition next_event :: "event_player \<Rightarrow> event_player \<times> event option" where
  "next_event p =
     (if ep_remaining p = 0 then (p, None)
      else if length (ep_rest p) < DISK_EVENT_SIZE then (p\<lparr>ep_rest := []\<rparr>, None)
      else (p\<lparr>ep_rest := drop DISK_EVENT_SIZE (ep_rest p), ep_remaining := ep_remaining p - 1\<rparr>,
            Some (event_of_bytes (take DISK_EVENT_SIZE (ep_rest p)))))"

primrec read_batch :: "nat \<Rightarrow> event_player \<Rightarrow> event_player \<times> event list" where
  "read_batch 0 p = (p, [])"
| "read_batch (Suc n) p =
     (case next_event p of
        (p', None) \<Rightarrow> (p', [])
      | (p', Some ev) \<Rightarrow> (case read_batch n p' of (p'', evs) \<Rightarrow> (p'', ev # evs)))"


subsection \<open>Round trip\<close>

lemma length_event_bytes [simp]: "length (event_bytes ev) = 32"
  by (simp add: event_bytes_def)

lemma event_of_event_bytes [simp]: "event_of_bytes (event_bytes ev) = ev"
  by (simp add: event_of_bytes_def event_bytes_def slice_def from_to_le_bytes)

definition play_all :: "nat \<Rightarrow> u8 list \<Rightarrow> open_error + event list" where
  "play_all n file = (case ep_open file of Inl e \<Rightarrow> Inl e | Inr p \<Rightarrow> Inr (snd (read_batch n p)))"

lemma er_record_all:
  "er_file (fold er_record evs r) = er_file r @ concat (map event_bytes evs) \<and>
   er_count (fold er_record evs r) = er_count r + of_nat (length evs)"
  by (induction evs arbitrary: r) (simp_all add: er_record_def)

lemma read_batch_bytes:
  assumes "unat m = length evs"
  shows "snd (read_batch n \<lparr>ep_rest = take c (concat (map event_bytes evs)), ep_remaining = m\<rparr>) =
    take (min n (c div 32)) evs"
  using assms
proof (induction n arbitrary: evs m c)
  case (Suc n)
  show ?case
  proof (cases evs)
    case Nil
    with Suc.prems have "m = 0" by (simp add: unat_eq_zero)
    with Nil show ?thesis by (simp add: next_event_def)
  next
    case (Cons e es)
    then have m: "m \<noteq> 0" using Suc.prems by auto
    show ?thesis
    proof (cases "c < 32")
      case True
      with m show ?thesis by (simp add: next_event_def DISK_EVENT_SIZE_def)
    next
      case False
      have "unat (m - 1) = length es" using Suc.prems m Cons by (simp add: unat_minus_one)
      from Suc.IH [OF this, of "c - 32"] have
        "snd (read_batch n \<lparr>ep_rest = take (c - 32) (concat (map event_bytes es)), ep_remaining = m - 1\<rparr>) =
          take (min n ((c - 32) div 32)) es" .
      moreover have "c div 32 = Suc ((c - 32) div 32)" using False by (simp add: le_div_geq)
      ultimately show ?thesis
        using m False Cons by (auto simp: next_event_def DISK_EVENT_SIZE_def split: prod.split)
    qed
  qed
qed simp

lemma header_length: "length (er_file er_create) = 24"
  by (simp add: er_create_def)

lemma header_finish:
  "fst (er_finish (fold er_record evs er_create)) =
     to_le_bytes 8 RECORD_MAGIC @ to_le_bytes 4 REC_PROTO_VERSION @ to_le_bytes 8 (of_nat (length evs) :: u64) @
     to_le_bytes 4 (0 :: u32) @ concat (map event_bytes evs)"
  using er_record_all [of evs er_create] by (simp add: er_finish_def write_at_def er_create_def)

lemma open_header:
  "ep_open (to_le_bytes 8 RECORD_MAGIC @ to_le_bytes 4 REC_PROTO_VERSION @ to_le_bytes 8 k @ to_le_bytes 4 z @ rest) =
     Inr \<lparr>ep_rest = rest, ep_remaining = k\<rparr>" for k :: u64 and z :: u32
  by (simp add: ep_open_def HEADER_SIZE_def slice_def from_to_le_bytes Let_def)

text \<open>
  C33 (roundtrip).  A finished recording of fewer than \<open>2\<close>\<open>^\<close>\<open>64\<close> events replays to exactly these
  events, in order; if the file is cut, to the events that are complete before the cut; and a
  recording that was never finished, whose header still counts no events, replays to nothing.
\<close>

theorem recording_roundtrip:
  assumes "length evs < 2 ^ 64"
  shows "(let r = fold er_record evs er_create; file = fst (er_finish r) in
     snd (er_finish r) = of_nat (length evs) \<and>
     play_all n file = Inr (take n evs) \<and>
     play_all n (take (24 + c) file) = Inr (take (min n (c div 32)) evs) \<and>
     play_all n (er_file r) = Inr [])"
proof -
  have u: "unat (of_nat (length evs) :: u64) = length evs" using assms by (simp add: unat_of_nat take_bit_nat_eq_self)
  have l: "length (concat (map event_bytes evs)) = 32 * length evs" by (induction evs) simp_all
  have full: "snd (read_batch n \<lparr>ep_rest = concat (map event_bytes evs), ep_remaining = of_nat (length evs)\<rparr>) = take n evs"
    using read_batch_bytes [OF u, of n "32 * length evs"] l by (simp add: min_def split: if_splits)
  have none: "snd (read_batch n \<lparr>ep_rest = bs, ep_remaining = 0\<rparr>) = []" for bs
    by (cases n) (simp_all add: next_event_def)
  show ?thesis
    unfolding Let_def header_finish
    using er_record_all [of evs er_create] read_batch_bytes [OF u, of n c] full none
    by (simp add: play_all_def open_header er_finish_def er_create_def)
qed

definition recorded_demo :: "event list" where
  "recorded_demo = [\<lparr>e_addr = 0x7FFF00001234, e_size = 8, e_thread_id = 3, e_seq = 9, e_value = 77, e_kind_flags = 2, e_rip_lo = 5\<rparr>,
     \<lparr>e_addr = 1, e_size = 2, e_thread_id = 3, e_seq = 4, e_value = 5, e_kind_flags = 6, e_rip_lo = 7\<rparr>]"

theorem recording_roundtrip_witness:
  "play_all 5 (fst (er_finish (fold er_record recorded_demo er_create))) = Inr recorded_demo \<and>
   play_all 5 (take (24 + 40) (fst (er_finish (fold er_record recorded_demo er_create)))) = Inr (take 1 recorded_demo)"
proof -
  have "length recorded_demo < 2 ^ 64" "take 5 recorded_demo = recorded_demo" by (simp_all add: recorded_demo_def)
  with recording_roundtrip [of recorded_demo 5 40] show ?thesis by (simp add: Let_def)
qed


subsection \<open>Recorded snapshots\<close>

text \<open>
  A snapshot is recorded from the register file, in the slots of the ring protocol: registers that
  fit are replayed unchanged, the others lose the high half of every third.
\<close>

lemma recorded_snapshot_regs:
  assumes "length regs = 18"
  shows "snapshot_regs (map (snapshot_slot h regs) [0..<6]) =
    map (\<lambda>i. if i mod 3 = 1 then ucast (ucast (regs ! i) :: u32) else regs ! i) [0..<18]"
proof -
  have "[0..<6] = [0, 1, 2, 3, 4, 5 :: nat]" "[0..<18] = [0, 1, 2, 3, 4, 5, 6, 7, 8, 9, 10, 11, 12, 13, 14, 15, 16, 17 :: nat]"
    by (simp_all add: upt_rec)
  then show ?thesis by (simp add: snapshot_regs_def snapshot_slot_def numeral_2_eq_2)
qed

text \<open>What was recorded after a snapshot replays as the same snapshot.\<close>

lemma snapshot_replays:
  assumes "kind h = EVENT_REG_SNAPSHOT" "length regs = 18" "\<And>i. i < 18 \<Longrightarrow> i mod 3 = 1 \<Longrightarrow> ucast (ucast (regs ! i) :: u32) = regs ! i"
    "apply_reg_snapshot (h # map (snapshot_slot h regs) [0..<6]) en = (en', k)"
  shows "k = 7 \<and> lrf_values (wi_reg_file (inner_of en')) = regs"
proof -
  have "kind (snapshot_slot h regs i) = EVENT_REG_SNAPSHOT" for i
    using assms(1) by (simp add: kind_def snapshot_slot_def)
  then have k: "list_all (\<lambda>c. kind c = EVENT_REG_SNAPSHOT) (map (snapshot_slot h regs) [0..<6])"
    by (simp add: list_all_iff)
  have "snapshot_regs (map (snapshot_slot h regs) [0..<6]) = map (\<lambda>i. regs ! i) [0..<18]"
    unfolding recorded_snapshot_regs [OF assms(2)] using assms(3) by (intro map_cong) auto
  also have "\<dots> = regs" using assms(2) by (metis map_nth)
  finally show ?thesis
    using assms(1,4) k
    by (auto simp: apply_reg_snapshot_def Let_def upd_srf_def upd_inner_def upd_world_def update_regs_def lrf_update_def)
qed

end
