(* ===== verification/Proc_Maps.thy ===== *)
theory Proc_Maps
  imports Rust_Text "HOL-Library.Multiset"
begin

text \<open>
  The address maps of processes (\<^verbatim>\<open>engine/src/proc_maps.rs\<close>): parsing a line of \<open>/proc/<pid>/maps\<close>
  and finding the files that two or more processes map.  The text of the maps is a parameter, for
  each process \<open>None\<close> when it cannot be read.  The order in which the source takes the regions out
  of its hash map is unspecified; it is the parameter \<open>ord\<close>.
\<close>

text \<open>\<open>splitn\<close> at white space: at most \<open>n\<close> parts, the last with the rest of the text.\<close>

fun splitn_space :: "nat \<Rightarrow> string \<Rightarrow> string list" where
  "splitn_space 0 s = []"
| "splitn_space (Suc 0) s = [s]"
| "splitn_space (Suc (Suc n)) s =
     (case dropWhile (\<lambda>c. \<not> is_space c) s of
        [] \<Rightarrow> [s]
      | c # t \<Rightarrow> takeWhile (\<lambda>c. \<not> is_space c) s # splitn_space (Suc n) t)"

text \<open>\<open>lines\<close>: the parts between line ends, without a carriage return before them; no empty last line.\<close>

definition chomp :: "string \<Rightarrow> string" where
  "chomp l = (if l \<noteq> [] \<and> last l = creturn then butlast l else l)"

definition text_lines :: "string \<Rightarrow> string list" where
  "text_lines s =
     (let ls = split_char newline s; n = length ls - 1
      in map chomp (take n ls) @ (if last ls = [] then [] else [last ls]))"

record dev_inode =
  di_major :: u32
  di_minor :: u32
  di_inode :: u64

record map_entry =
  me_start :: u64
  me_end :: u64
  me_perms :: string
  me_offset :: u64
  me_dev_inode :: dev_inode
  me_path :: string

definition is_writable :: "map_entry \<Rightarrow> bool" where "is_writable e \<longleftrightarrow> me_perms e ! 1 = CHR ''w''"
definition is_shared :: "map_entry \<Rightarrow> bool" where "is_shared e \<longleftrightarrow> me_perms e ! 3 = CHR ''s''"
definition me_size :: "map_entry \<Rightarrow> u64" where "me_size e = me_end e - me_start e"

definition hex_u64 :: "string \<Rightarrow> u64 option" where "hex_u64 s = map_option of_nat (parse_radix 16 (2 ^ 64) s)"
definition hex_u32 :: "string \<Rightarrow> u32 option" where "hex_u32 s = map_option of_nat (parse_radix 16 (2 ^ 32) s)"

text \<open>A value and what is done with it; the source's operator \<open>?\<close>.\<close>

abbreviation try_opt :: "'a option \<Rightarrow> ('a \<Rightarrow> 'b option) \<Rightarrow> 'b option" where "try_opt \<equiv> Option.bind"

definition part :: "string list \<Rightarrow> nat \<Rightarrow> string option" where
  "part ps i = (if i < length ps then Some (ps ! i) else None)"

definition parse_map_line :: "string \<Rightarrow> map_entry option" where
  "parse_map_line line =
     (let ps = splitn_space 6 line in
      try_opt (part ps 0) (\<lambda>range.
      try_opt (split_once (CHR ''-'') range) (\<lambda>(start_s, end_s).
      try_opt (hex_u64 start_s) (\<lambda>start.
      try_opt (hex_u64 end_s) (\<lambda>fin.
      try_opt (part ps 1) (\<lambda>perms_s.
      if length perms_s < 4 then None
      else
        try_opt (part ps 2) (\<lambda>offset_s.
        try_opt (hex_u64 offset_s) (\<lambda>offset.
        try_opt (part ps 3) (\<lambda>dev_s.
        try_opt (split_once (CHR '':'') dev_s) (\<lambda>(maj_s, min_s).
        try_opt (hex_u32 maj_s) (\<lambda>major.
        try_opt (hex_u32 min_s) (\<lambda>minor.
        try_opt (part ps 4) (\<lambda>inode_s.
        try_opt (parse_u64 (trim inode_s)) (\<lambda>inode.
        Some \<lparr>me_start = start, me_end = fin, me_perms = take 4 perms_s, me_offset = offset,
              me_dev_inode = \<lparr>di_major = major, di_minor = minor, di_inode = of_nat inode\<rparr>,
              me_path = trim (case part ps 5 of Some p \<Rightarrow> p | None \<Rightarrow> [])\<rparr>))))))))))))))"

definition parse_maps :: "string \<Rightarrow> map_entry list" where
  "parse_maps content = List.map_filter parse_map_line (text_lines content)"

type_synonym proc_maps = "u32 \<Rightarrow> string option"

definition read_maps :: "proc_maps \<Rightarrow> u32 \<Rightarrow> map_entry list option" where
  "read_maps pm pid = map_option parse_maps (pm pid)"

type_synonym mapping = "u32 \<times> u64 \<times> u64"

record shared_region =
  sr_dev_inode :: dev_inode
  sr_path :: string
  sr_mappings :: "mapping list"

text \<open>The index of the mappings by file, in the order of the first mapping of each file.\<close>

type_synonym region_index = "(dev_inode \<times> string \<times> mapping list) list"

fun index_mapping :: "u32 \<Rightarrow> map_entry \<Rightarrow> region_index \<Rightarrow> region_index" where
  "index_mapping pid e [] = [(me_dev_inode e, me_path e, [(pid, me_start e, me_end e)])]"
| "index_mapping pid e ((k, p, ms) # ix) =
     (if k = me_dev_inode e then (k, p, ms @ [(pid, me_start e, me_end e)]) # ix
      else (k, p, ms) # index_mapping pid e ix)"

definition index_entry :: "u32 \<Rightarrow> map_entry \<Rightarrow> region_index \<Rightarrow> region_index" where
  "index_entry pid e ix = (if di_inode (me_dev_inode e) = 0 then ix else index_mapping pid e ix)"

definition index_process :: "proc_maps \<Rightarrow> u32 \<Rightarrow> region_index \<Rightarrow> region_index" where
  "index_process pm pid ix = (case read_maps pm pid of None \<Rightarrow> ix | Some es \<Rightarrow> fold (index_entry pid) es ix)"

definition region_of :: "dev_inode \<times> string \<times> mapping list \<Rightarrow> shared_region option" where
  "region_of = (\<lambda>(k, p, ms).
     if 2 \<le> length (remdups (sort (map fst ms))) then Some \<lparr>sr_dev_inode = k, sr_path = p, sr_mappings = ms\<rparr> else None)"

definition detect_shared_regions :: "(region_index \<Rightarrow> region_index) \<Rightarrow> proc_maps \<Rightarrow> u32 list \<Rightarrow> shared_region list" where
  "detect_shared_regions ord pm pids = List.map_filter region_of (ord (fold (index_process pm) pids []))"


subsection \<open>Parsing a line that the kernel wrote\<close>

definition zeros :: "nat \<Rightarrow> string" where "zeros k = replicate k (CHR ''0'')"

text \<open>
  A line as the kernel formats it: fields separated by a space, numbers padded with zeros, and the
  path behind padding of spaces.
\<close>

definition map_line :: "(nat \<Rightarrow> nat) \<Rightarrow> map_entry \<Rightarrow> string" where
  "map_line pad e =
     zeros (pad 0) @ hex (unat (me_start e)) @ ''-'' @ zeros (pad 1) @ hex (unat (me_end e)) @ '' '' @
     me_perms e @ '' '' @ zeros (pad 2) @ hex (unat (me_offset e)) @ '' '' @
     zeros (pad 3) @ hex (unat (di_major (me_dev_inode e))) @ '':'' @
     zeros (pad 4) @ hex (unat (di_minor (me_dev_inode e))) @ '' '' @
     dec (unat (di_inode (me_dev_inode e))) @ '' '' @ replicate (pad 5) (CHR '' '') @ me_path e"

lemma digits_val_zeros: "2 \<le> b \<Longrightarrow> digits_val b 0 (zeros k @ s) = digits_val b 0 s"
  by (induction k) (simp_all add: zeros_def digit_val_def Let_def)

lemma parse_padded:
  assumes "2 \<le> b" "b \<le> 16" "n < bound"
  shows "parse_radix b bound (zeros k @ in_base b n) = Some n"
proof (cases k)
  case 0
  then show ?thesis using parse_in_base [OF assms] by (simp add: zeros_def)
next
  case (Suc j)
  have "digits_val b 0 (zeros k @ in_base b n) = Some n"
    using assms by (simp add: digits_val_zeros digits_val_in_base)
  then show ?thesis using assms(3) Suc by (simp add: parse_radix_def zeros_def)
qed

lemma hex_padded:
  "hex_u64 (zeros k @ hex (unat (x :: u64))) = Some x" "hex_u32 (zeros k @ hex (unat (y :: u32))) = Some y"
proof -
  have "unat x < 2 ^ 64" "unat y < 2 ^ 32" using unat_lt [of x] unat_lt [of y] by simp_all
  then show "hex_u64 (zeros k @ hex (unat x)) = Some x" "hex_u32 (zeros k @ hex (unat y)) = Some y"
    unfolding hex_u64_def hex_u32_def hex_def by (subst parse_padded; simp)+
qed

lemma map_hex_chars:
  assumes "c \<in> set (zeros k @ hex n)"
  shows "\<not> is_space c \<and> c \<noteq> CHR ''-'' \<and> c \<noteq> CHR '':''"
proof -
  have "c = CHR ''0'' \<or> c \<in> set (hex n)" using assms by (auto simp: zeros_def)
  moreover have "x \<notin> set (hex n)" if "is_space x \<or> x = CHR ''-'' \<or> x = CHR '':''" for x
    unfolding hex_def using that by (intro in_base_chars) (auto simp: is_space_def)
  ultimately show ?thesis by (auto simp: is_space_def)
qed

lemma dec_chars: "c \<in> set (dec n) \<Longrightarrow> \<not> is_space c"
  using dec_digits [of c n] by (auto simp: is_dec_digit_def is_space_def)

declare splitn_space.simps [simp del]

lemma splitn_space_part:
  assumes "\<forall>c \<in> set w. \<not> is_space c"
  shows "splitn_space (Suc (Suc n)) (w @ CHR '' '' # t) = w # splitn_space (Suc n) t"
proof -
  have "is_space (CHR '' '')" by (simp add: is_space_def)
  then have "dropWhile (\<lambda>c. \<not> is_space c) (w @ CHR '' '' # t) = CHR '' '' # t"
    "takeWhile (\<lambda>c. \<not> is_space c) (w @ CHR '' '' # t) = w"
    using assms by (simp_all add: dropWhile_append2 takeWhile_append2)
  then show ?thesis by (simp add: splitn_space.simps)
qed

lemma split_once_at: "c \<notin> set u \<Longrightarrow> split_once c (u @ c # v) = Some (u, v)"
proof -
  assume "c \<notin> set u"
  then have "takeWhile (\<lambda>x. x \<noteq> c) (u @ c # v) = u" "dropWhile (\<lambda>x. x \<noteq> c) (u @ c # v) = c # v"
    by (induction u) auto
  then show ?thesis by (simp add: split_once_def)
qed

lemma trim_spaces: "trim (replicate k (CHR '' '') @ s) = trim s"
  by (induction k) (simp_all add: trim_def trim_start_def is_space_def)

lemma trim_dec: "trim (dec n) = dec n"
proof -
  obtain a t u b where "dec n = a # t" "dec n = u @ [b]"
    unfolding dec_def by (metis in_base_nonempty list.exhaust rev_exhaust)
  moreover from this(1) have "a \<in> set (dec n)" by simp
  moreover from \<open>dec n = u @ [b]\<close> have "b \<in> set (dec n)" by simp
  ultimately show ?thesis using dec_chars by (intro trim_id)
qed

lemma parse_dec: "parse_u64 (dec (unat (x :: u64))) = Some (unat x)"
  unfolding parse_u64_def dec_def using unat_lt [of x] by (intro parse_in_base) simp_all

lemma map_line_parsed:
  assumes "length (me_perms e) = 4" "\<forall>c \<in> set (me_perms e). \<not> is_space c" "trim (me_path e) = me_path e"
  shows "parse_map_line (map_line pad e) = Some e"
proof -
  define r o1 d n where "r = (zeros (pad 0) @ hex (unat (me_start e))) @ CHR ''-'' # zeros (pad 1) @ hex (unat (me_end e))"
    and "o1 = zeros (pad 2) @ hex (unat (me_offset e))"
    and "d = (zeros (pad 3) @ hex (unat (di_major (me_dev_inode e)))) @ CHR '':'' # zeros (pad 4) @ hex (unat (di_minor (me_dev_inode e)))"
    and "n = dec (unat (di_inode (me_dev_inode e)))"
  have w: "\<forall>c \<in> set r. \<not> is_space c" "\<forall>c \<in> set o1. \<not> is_space c" "\<forall>c \<in> set d. \<not> is_space c" "\<forall>c \<in> set n. \<not> is_space c"
    using map_hex_chars dec_chars by (fastforce simp: r_def o1_def d_def n_def is_space_def)+
  have "map_line pad e = r @ CHR '' '' # me_perms e @ CHR '' '' # o1 @ CHR '' '' # d @ CHR '' '' # n @ CHR '' '' #
      replicate (pad 5) (CHR '' '') @ me_path e"
    by (simp add: map_line_def r_def o1_def d_def n_def)
  then have ps: "splitn_space 6 (map_line pad e) = [r, me_perms e, o1, d, n, replicate (pad 5) (CHR '' '') @ me_path e]"
    using w assms(2) by (simp add: splitn_space_part eval_nat_numeral splitn_space.simps(1,2))
  have s: "split_once (CHR ''-'') r = Some (zeros (pad 0) @ hex (unat (me_start e)), zeros (pad 1) @ hex (unat (me_end e)))"
    "split_once (CHR '':'') d = Some (zeros (pad 3) @ hex (unat (di_major (me_dev_inode e))), zeros (pad 4) @ hex (unat (di_minor (me_dev_inode e))))"
    unfolding r_def d_def using map_hex_chars by (intro split_once_at; blast)+
  show ?thesis
    unfolding parse_map_line_def ps Let_def
    using assms by (simp add: part_def s hex_padded o1_def n_def trim_dec parse_dec trim_spaces)
qed


subsection \<open>The regions found\<close>

definition entries_of :: "proc_maps \<Rightarrow> u32 \<Rightarrow> map_entry list" where
  "entries_of pm pid = (case read_maps pm pid of Some es \<Rightarrow> es | None \<Rightarrow> [])"

text \<open>All mappings of a file, in the order of the processes and of their maps.\<close>

definition mappings_of :: "proc_maps \<Rightarrow> u32 list \<Rightarrow> dev_inode \<Rightarrow> mapping list" where
  "mappings_of pm pids k =
     concat (map (\<lambda>pid. map (\<lambda>e. (pid, me_start e, me_end e)) (filter (\<lambda>e. me_dev_inode e = k) (entries_of pm pid))) pids)"

definition ix_get :: "region_index \<Rightarrow> dev_inode \<Rightarrow> mapping list" where
  "ix_get ix k = (case map_of ix k of Some (_, ms) \<Rightarrow> ms | None \<Rightarrow> [])"

definition ix_ok :: "region_index \<Rightarrow> bool" where
  "ix_ok ix \<longleftrightarrow> distinct (map fst ix) \<and> list_all (\<lambda>(k, _, ms). ms \<noteq> [] \<and> di_inode k \<noteq> 0) ix"

lemma index_mapping_keys: "fst ` set (index_mapping pid e ix) = insert (me_dev_inode e) (fst ` set ix)"
  by (induction pid e ix rule: index_mapping.induct) auto

lemma index_mapping_ok:
  "ix_ok ix \<Longrightarrow> di_inode (me_dev_inode e) \<noteq> 0 \<Longrightarrow> ix_ok (index_mapping pid e ix)"
  by (induction pid e ix rule: index_mapping.induct) (auto simp: ix_ok_def index_mapping_keys [THEN equalityD1, THEN subsetD] dest!: subsetD [OF equalityD1 [OF index_mapping_keys]])

lemma index_mapping_get:
  "ix_get (index_mapping pid e ix) k = ix_get ix k @ (if me_dev_inode e = k then [(pid, me_start e, me_end e)] else [])"
  by (induction pid e ix rule: index_mapping.induct) (auto simp: ix_get_def split: if_splits)

lemma index_entry_spec:
  "ix_ok ix \<Longrightarrow> ix_ok (index_entry pid e ix) \<and>
     ix_get (index_entry pid e ix) k =
       ix_get ix k @ (if me_dev_inode e = k \<and> di_inode k \<noteq> 0 then [(pid, me_start e, me_end e)] else [])"
  by (auto simp: index_entry_def index_mapping_ok index_mapping_get)

lemma index_entries:
  "ix_ok ix \<Longrightarrow> di_inode k \<noteq> 0 \<Longrightarrow> ix_ok (fold (index_entry pid) es ix) \<and>
     ix_get (fold (index_entry pid) es ix) k =
       ix_get ix k @ map (\<lambda>e. (pid, me_start e, me_end e)) (filter (\<lambda>e. me_dev_inode e = k) es)"
proof (induction es arbitrary: ix)
  case (Cons e es)
  with index_entry_spec [OF Cons.prems(1), of pid e k] show ?case by simp
qed simp

lemma index_processes:
  "ix_ok ix \<Longrightarrow> di_inode k \<noteq> 0 \<Longrightarrow> ix_ok (fold (index_process pm) pids ix) \<and>
     ix_get (fold (index_process pm) pids ix) k = ix_get ix k @ mappings_of pm pids k"
proof (induction pids arbitrary: ix)
  case (Cons pid pids)
  have "ix_ok (index_process pm pid ix) \<and> ix_get (index_process pm pid ix) k =
      ix_get ix k @ map (\<lambda>e. (pid, me_start e, me_end e)) (filter (\<lambda>e. me_dev_inode e = k) (entries_of pm pid))"
    using index_entries [OF Cons.prems] Cons.prems(1) by (simp add: index_process_def entries_of_def split: option.split)
  with Cons.IH [of "index_process pm pid ix"] Cons.prems(2) show ?case by (simp add: mappings_of_def)
qed (simp add: mappings_of_def)

lemma two_pids: "2 \<le> length (remdups (sort (map fst ms))) \<longleftrightarrow> 2 \<le> card (fst ` set ms)"
  by (simp add: length_remdups_card_conv)

lemma region_index_ok: "ix_ok (fold (index_process pm) pids [])"
  using index_processes [of "[]" "\<lparr>di_major = 0, di_minor = 0, di_inode = 1\<rparr>" pm pids] by (simp add: ix_ok_def)

lemma region_index_mem:
  "(\<exists>p. (k, p, ms) \<in> set (fold (index_process pm) pids [])) \<longleftrightarrow> di_inode k \<noteq> 0 \<and> ms \<noteq> [] \<and> ms = mappings_of pm pids k"
proof -
  let ?ix = "fold (index_process pm) pids []"
  have ok: "ix_ok ?ix" by (rule region_index_ok)
  have get: "ix_get ?ix k = mappings_of pm pids k" if "di_inode k \<noteq> 0"
    using index_processes [of "[]" k pm pids] that by (simp add: ix_ok_def ix_get_def)
  show ?thesis
  proof
    assume "\<exists>p. (k, p, ms) \<in> set ?ix"
    then obtain p where m: "(k, p, ms) \<in> set ?ix" by blast
    with ok have "map_of ?ix k = Some (p, ms)" "di_inode k \<noteq> 0" "ms \<noteq> []"
      by (auto simp: ix_ok_def list_all_iff)
    with get show "di_inode k \<noteq> 0 \<and> ms \<noteq> [] \<and> ms = mappings_of pm pids k" by (simp add: ix_get_def)
  next
    assume r: "di_inode k \<noteq> 0 \<and> ms \<noteq> [] \<and> ms = mappings_of pm pids k"
    with get have "ix_get ?ix k = ms" by simp
    with r have "ix_get ?ix k = ms" "ms \<noteq> []" by blast+
    then obtain p where "map_of ?ix k = Some (p, ms)" by (auto simp: ix_get_def split: option.splits)
    then show "\<exists>p. (k, p, ms) \<in> set ?ix" by (auto dest: map_of_SomeD)
  qed
qed

text \<open>The permissions are not looked at: private mappings count as shared.\<close>

lemma private_mapping_counts: "index_entry pid (e\<lparr>me_perms := p\<rparr>) = index_entry pid e"
proof -
  have "index_mapping pid (e\<lparr>me_perms := p\<rparr>) ix = index_mapping pid e ix" for ix
    by (induction pid e ix rule: index_mapping.induct) simp_all
  then show ?thesis by (simp add: index_entry_def fun_eq_iff)
qed

subsection \<open>The maps of the kernel\<close>

definition maps_text :: "(map_entry \<Rightarrow> nat \<Rightarrow> nat) \<Rightarrow> map_entry list \<Rightarrow> string" where
  "maps_text pad es = concat (map (\<lambda>e. map_line (pad e) e @ [newline]) es)"

definition wf_entry :: "map_entry \<Rightarrow> bool" where
  "wf_entry e \<longleftrightarrow> length (me_perms e) = 4 \<and> (\<forall>c \<in> set (me_perms e). \<not> is_space c) \<and>
     trim (me_path e) = me_path e \<and> newline \<notin> set (me_path e)"

lemma split_char_line: "c \<notin> set l \<Longrightarrow> split_char c (l @ c # s) = l # split_char c s"
  by (induction l) auto

lemma split_char_nonempty [simp]: "split_char c s \<noteq> []"
  by (induction s) (auto split: list.split)

lemma text_lines_line:
  assumes "newline \<notin> set l"
  shows "text_lines (l @ newline # s) = chomp l # text_lines s"
proof (cases "split_char newline s")
  case (Cons a ls)
  then show ?thesis
    unfolding text_lines_def split_char_line [OF assms] by (simp add: Let_def)
qed simp

lemma map_line_chars: "wf_entry e \<Longrightarrow> newline \<notin> set (map_line pad e)"
  using map_hex_chars dec_chars
  by (fastforce simp: map_line_def wf_entry_def is_space_def)

lemma trim_no_return: "trim p = p \<Longrightarrow> p \<noteq> [] \<Longrightarrow> last p \<noteq> creturn"
proof
  assume t: "trim p = p" "p \<noteq> []" and l: "last p = creturn"
  have "rev p = dropWhile is_space (rev (trim_start p))" using t(1) by (simp add: trim_def trim_end_def) (metis rev_rev_ident)
  moreover have "rev p = creturn # rev (butlast p)" using t(2) l by (metis append_butlast_last_id rev_eq_Cons_iff rev_rev_ident)
  ultimately have "\<not> is_space creturn" by (metis dropWhile_eq_Cons_conv)
  then show False by (simp add: is_space_def)
qed

lemma chomp_map_line:
  assumes "wf_entry e"
  shows "chomp (map_line pad e) = map_line pad e"
proof -
  have "last (map_line pad e) \<noteq> creturn"
  proof (cases "me_path e = []")
    case True
    then show ?thesis by (cases "pad 5") (auto simp: map_line_def last_replicate simp flip: append_assoc)
  next
    case False
    with assms trim_no_return [of "me_path e"] show ?thesis by (simp add: map_line_def wf_entry_def)
  qed
  then show ?thesis by (simp add: chomp_def)
qed

lemma maps_text_parsed:
  assumes "list_all wf_entry es"
  shows "parse_maps (maps_text pad es) = es"
  using assms
proof (induction es)
  case Nil
  show ?case by (simp add: parse_maps_def maps_text_def text_lines_def)
next
  case (Cons e es)
  have "text_lines (maps_text pad (e # es)) = map_line (pad e) e # text_lines (maps_text pad es)"
    using text_lines_line [OF map_line_chars, of e "pad e" "maps_text pad es"] chomp_map_line [of e "pad e"] Cons.prems
    by (simp add: maps_text_def)
  with Cons map_line_parsed [of e "pad e"] show ?case
    by (simp add: parse_maps_def List.map_filter_simps wf_entry_def)
qed

text \<open>
  Of processes whose maps are as the kernel writes them, the regions found are
  exactly the files that at least two of the given processes map, each once, whatever the order of
  the hash map; the mappings of a region are all the mappings of its file, by process in the order
  given and in the order of its maps.  Processes whose maps cannot be read count for nothing, and
  the permissions of a mapping play no part.
\<close>

theorem shared_regions_exact:
  assumes "\<And>ix. mset (ord ix) = mset ix"
    and "\<And>pid. pm pid = map_option (maps_text pad) (ents pid)"
    and "\<And>pid es. ents pid = Some es \<Longrightarrow> list_all wf_entry es"
  shows "distinct (map sr_dev_inode (detect_shared_regions ord pm pids)) \<and>
    ((\<exists>r \<in> set (detect_shared_regions ord pm pids). sr_dev_inode r = k \<and> sr_mappings r = ms) \<longleftrightarrow>
       di_inode k \<noteq> 0 \<and> 2 \<le> card (fst ` set ms) \<and>
       ms = concat (map (\<lambda>pid. map (\<lambda>e. (pid, me_start e, me_end e))
              (filter (\<lambda>e. me_dev_inode e = k) (case ents pid of Some es \<Rightarrow> es | None \<Rightarrow> []))) pids))"
proof -
  let ?ix = "fold (index_process pm) pids []"
  have st: "set (ord ix) = set ix" for ix using assms(1) [of ix] by (metis set_mset_mset)
  have ents: "entries_of pm pid = (case ents pid of Some es \<Rightarrow> es | None \<Rightarrow> [])" for pid
    using assms(2) [of pid] assms(3) [of pid] maps_text_parsed by (auto simp: entries_of_def read_maps_def split: option.split)
  then have maps: "mappings_of pm pids k = concat (map (\<lambda>pid. map (\<lambda>e. (pid, me_start e, me_end e))
              (filter (\<lambda>e. me_dev_inode e = k) (case ents pid of Some es \<Rightarrow> es | None \<Rightarrow> []))) pids)"
    by (simp add: mappings_of_def)
  have key: "region_of x = Some r \<Longrightarrow> sr_dev_inode r = fst x" for x r
    by (cases x) (auto simp: region_of_def split: if_splits)
  have d: "distinct (map fst xs) \<Longrightarrow> distinct (map sr_dev_inode (List.map_filter region_of xs))
      \<and> sr_dev_inode ` set (List.map_filter region_of xs) \<subseteq> fst ` set xs" for xs
    by (induction xs) (auto simp: List.map_filter_simps key split: option.split dest: key)
  have "distinct (map fst ?ix)" using region_index_ok [of pm pids] by (simp add: ix_ok_def)
  moreover have "mset (map fst (ord ?ix)) = mset (map fst ?ix)" using assms(1) [of ?ix] by simp
  ultimately have "distinct (map fst (ord ?ix))" by (metis mset_eq_imp_distinct_iff)
  with d have dist: "distinct (map sr_dev_inode (detect_shared_regions ord pm pids))" by (simp add: detect_shared_regions_def)
  have "(\<exists>r \<in> set (detect_shared_regions ord pm pids). sr_dev_inode r = k \<and> sr_mappings r = ms) \<longleftrightarrow>
      (\<exists>p. (k, p, ms) \<in> set ?ix) \<and> 2 \<le> card (fst ` set ms)"
    using two_pids [of ms] by (auto simp: detect_shared_regions_def List.map_filter_def st region_of_def image_iff split: if_splits prod.splits)
  also have "\<dots> \<longleftrightarrow> di_inode k \<noteq> 0 \<and> 2 \<le> card (fst ` set ms) \<and> ms = mappings_of pm pids k"
    unfolding region_index_mem by auto
  finally show ?thesis using dist by (simp only: maps simp_thms)
qed

definition libc_entry :: map_entry where
  "libc_entry = \<lparr>me_start = 0x7F0000, me_end = 0x7F2000, me_perms = ''r--p'', me_offset = 0,
     me_dev_inode = \<lparr>di_major = 8, di_minor = 1, di_inode = 42\<rparr>, me_path = ''/lib/c''\<rparr>"

theorem shared_regions_exact_witness:
  "distinct (map sr_dev_inode (detect_shared_regions rev (\<lambda>pid. Some (maps_text (\<lambda>_ _. 3) [libc_entry])) [7, 8])) \<and>
   (\<exists>r \<in> set (detect_shared_regions rev (\<lambda>pid. Some (maps_text (\<lambda>_ _. 3) [libc_entry])) [7, 8]).
      sr_dev_inode r = me_dev_inode libc_entry \<and> sr_mappings r = [(7, 0x7F0000, 0x7F2000), (8, 0x7F0000, 0x7F2000)])"
proof -
  have "wf_entry libc_entry" by (simp add: wf_entry_def libc_entry_def is_space_def trim_def trim_start_def trim_end_def)
  then have w: "list_all wf_entry es" if "Some [libc_entry] = Some es" for es using that by auto
  show ?thesis
    using shared_regions_exact [of rev "\<lambda>pid. Some (maps_text (\<lambda>_ _. 3) [libc_entry])" "\<lambda>_ _. 3" "\<lambda>_. Some [libc_entry]" "[7, 8]"
        "me_dev_inode libc_entry" "[(7, 0x7F0000, 0x7F2000), (8, 0x7F0000, 0x7F2000)]"] w
    by (simp add: libc_entry_def)
qed

end
