(* ===== verification/Child_Tracker.thy ===== *)
theory Child_Tracker
  imports Orchestrator Proc_Maps
begin

text \<open>
  The child processes of the traced program (\<open>SharedIntervalMap\<close>, \<open>namespace_child_tid\<close> and
  \<open>ChildProcessTracker\<close> of \<^verbatim>\<open>engine/src/main.rs\<close>): children that were announced and wait for their
  control segment, the orchestrators of those attached, and the files that processes share.

  What the operating system answers during one call is a value (\<open>os_view\<close>).  \<open>None\<close> is a panic.
  Messages are not modelled.
\<close>

subsection \<open>Intervals of shared memory\<close>

type_synonym interval_map = "(u64 \<times> u64 \<times> nat) list"

text \<open>The order of intervals with the same start is up to the sort, the parameter \<open>srt\<close>.\<close>

type_synonym interval_sort = "interval_map \<Rightarrow> interval_map"

definition region_intervals :: "shared_region list \<Rightarrow> interval_map" where
  "region_intervals rs = concat (map (\<lambda>(ri, r). map (\<lambda>(_, s, e). (s, e, ri)) (sr_mappings r)) (enumerate 0 rs))"

definition sim_rebuild :: "interval_sort \<Rightarrow> shared_region list \<Rightarrow> interval_map" where
  "sim_rebuild srt rs = srt (region_intervals rs)"

definition sim_lookup :: "interval_map \<Rightarrow> u64 \<Rightarrow> nat option" where
  "sim_lookup m a =
     (let idx = length (takeWhile (\<lambda>(s, _, _). s \<le> a) m) in
      if idx = 0 then None
      else (case m ! (idx - 1) of (s, e, ri) \<Rightarrow> if s \<le> a \<and> a < e then Some ri else None))"


subsection \<open>Thread identifiers of children\<close>

definition namespace_child_tid :: "u16 \<Rightarrow> nat \<Rightarrow> bool \<Rightarrow> u16 \<times> bool" where
  "namespace_child_tid raw ci warned =
     (push_bit 8 (of_nat ci + 1) OR (raw AND 0xFF), warned \<or> 0xFF < raw \<or> 0xFE < ci)"


subsection \<open>The tracker\<close>

definition PENDING_PID_TTL_SECS :: nat where "PENDING_PID_TTL_SECS = 30"
definition CHILD_EMPTY_TICK_RETIRE :: u32 where "CHILD_EMPTY_TICK_RETIRE = 150"

text \<open>An \<open>Instant\<close> is a number of nanoseconds.\<close>

record child_tracker =
  ct_pending_pids :: "u32 list"
  ct_pending_since :: "nat list"
  ct_child_orchs :: "ring_orchestrator list"
  ct_child_empty_ticks :: "u32 list"
  ct_shared_regions :: "shared_region list"
  ct_interval_map :: interval_map
  ct_stale :: bool
  ct_root_pid :: "u32 option"
  ct_tid_warned :: bool

definition ct_new :: child_tracker where
  "ct_new = \<lparr>ct_pending_pids = [], ct_pending_since = [], ct_child_orchs = [], ct_child_empty_ticks = [],
     ct_shared_regions = [], ct_interval_map = [], ct_stale = False, ct_root_pid = None, ct_tid_warned = False\<rparr>"

definition set_root_pid :: "u32 \<Rightarrow> child_tracker \<Rightarrow> child_tracker" where
  "set_root_pid pid ct = ct\<lparr>ct_root_pid := Some pid\<rparr>"

definition attached_pid :: "child_tracker \<Rightarrow> u32 \<Rightarrow> bool" where
  "attached_pid ct pid \<longleftrightarrow> list_ex (\<lambda>co. target_pid co = Some pid) (ct_child_orchs ct)"

definition register_fork :: "nat \<Rightarrow> u32 \<Rightarrow> child_tracker \<Rightarrow> child_tracker" where
  "register_fork now pid ct =
     (if pid \<in> set (ct_pending_pids ct) then ct
      else if attached_pid ct pid then ct
      else if Some pid = ct_root_pid ct then ct
      else ct\<lparr>ct_pending_pids := ct_pending_pids ct @ [pid], ct_pending_since := ct_pending_since ct @ [now], ct_stale := True\<rparr>)"

definition is_known_pid :: "child_tracker \<Rightarrow> u32 \<Rightarrow> bool" where
  "is_known_pid ct pid \<longleftrightarrow> Some pid = ct_root_pid ct \<or> attached_pid ct pid"

text \<open>
  What the system shows: the time, the names in \<open>/dev/shm\<close>, the control segment of a process, what
  the tracers wrote meanwhile into segments that are mapped, which processes live, the
  shared-memory objects and the maps; the last two fields are the orders that the source leaves open.
\<close>

record os_view =
  ov_now :: nat
  ov_shm_names :: "string list"
  ov_ctl :: "u32 \<Rightarrow> ctl_header option"
  ov_ctl_now :: "ctl_header \<Rightarrow> ctl_header"
  ov_alive :: "u32 \<Rightarrow> bool"
  ov_open :: open_shm
  ov_maps :: proc_maps
  ov_order :: "region_index \<Rightarrow> region_index"
  ov_sort :: interval_sort

definition enumerate_ctl_pids :: "string list \<Rightarrow> u32 list" where
  "enumerate_ctl_pids names =
     List.map_filter (\<lambda>n. case strip_prefix ''rtmap_ctl_'' n of None \<Rightarrow> None
       | Some rest \<Rightarrow> map_option of_nat (parse_radix 10 (2 ^ 32) rest)) names"

definition scan_pid :: "os_view \<Rightarrow> u32 \<Rightarrow> child_tracker \<Rightarrow> child_tracker" where
  "scan_pid v pid ct =
     (if is_known_pid ct pid \<or> pid \<in> set (ct_pending_pids ct) then ct
      else if \<not> ov_alive v pid then ct
      else (case peek_ctl_identity (ov_ctl v pid) of
              Some (target, parent) \<Rightarrow>
                (if target = pid \<and> is_known_pid ct parent then register_fork (ov_now v) pid ct else ct)
            | None \<Rightarrow> ct))"

definition scan_shm_for_children :: "os_view \<Rightarrow> child_tracker \<Rightarrow> child_tracker" where
  "scan_shm_for_children v ct =
     (if ct_root_pid ct = None then ct else fold (scan_pid v) (enumerate_ctl_pids (ov_shm_names v)) ct)"

text \<open>\<open>swap_remove\<close>: the last element takes the place of the removed one.\<close>

definition swap_remove :: "nat \<Rightarrow> 'a list \<Rightarrow> 'a list option" where
  "swap_remove i xs = (if i < length xs then Some (butlast (xs[i := last xs])) else None)"

definition at_index :: "'a list \<Rightarrow> nat \<Rightarrow> 'a option" where
  "at_index xs i = (if i < length xs then Some (xs ! i) else None)"

lemma length_swap_remove: "swap_remove i xs = Some ys \<Longrightarrow> length xs = Suc (length ys)"
  by (auto simp: swap_remove_def split: if_splits)

definition pending_expired :: "nat \<Rightarrow> nat \<Rightarrow> bool" where
  "pending_expired now t \<longleftrightarrow> PENDING_PID_TTL_SECS * 10 ^ 9 < now - t"

function expire_pending :: "nat \<Rightarrow> nat \<Rightarrow> u32 list \<Rightarrow> nat list \<Rightarrow> (u32 list \<times> nat list) option" where
  "expire_pending now i ps ss =
     (if i < length ps then
        (case at_index ss i of None \<Rightarrow> None
         | Some t \<Rightarrow>
             (if pending_expired now t then
                (case swap_remove i ps of None \<Rightarrow> None
                 | Some ps' \<Rightarrow> (case swap_remove i ss of None \<Rightarrow> None
                                | Some ss' \<Rightarrow> expire_pending now i ps' ss'))
              else expire_pending now (i + 1) ps ss))
      else Some (ps, ss))"
  by pat_completeness auto
termination
  by (relation "measure (\<lambda>(_, i, ps, _). length ps - i)") (auto dest: length_swap_remove)

declare expire_pending.simps [simp del]

text \<open>The orchestrators of the processes whose control segment has appeared.\<close>

function attach_pending :: "os_view \<Rightarrow> nat \<Rightarrow> child_tracker \<Rightarrow> bool \<Rightarrow> (child_tracker \<times> bool) option" where
  "attach_pending v j ct new =
     (if j < length (ct_pending_pids ct) then
        (case try_attach_ctl_pid (ov_ctl v (ct_pending_pids ct ! j)) ro_new of
           (orch, True) \<Rightarrow>
             (case swap_remove j (ct_pending_pids ct) of None \<Rightarrow> None
              | Some ps \<Rightarrow> (case swap_remove j (ct_pending_since ct) of None \<Rightarrow> None
                             | Some ss \<Rightarrow>
                                 attach_pending v j
                                   (ct\<lparr>ct_child_orchs := ct_child_orchs ct @ [orch],
                                      ct_child_empty_ticks := ct_child_empty_ticks ct @ [0],
                                      ct_pending_pids := ps, ct_pending_since := ss\<rparr>) True))
         | (_, False) \<Rightarrow> attach_pending v (j + 1) ct new)
      else Some (ct, new))"
  by pat_completeness auto
termination
  by (relation "measure (\<lambda>(_, j, ct, _). length (ct_pending_pids ct) - j)") (auto dest: length_swap_remove)

declare attach_pending.simps [simp del]

definition pid_gone :: "os_view \<Rightarrow> ring_orchestrator \<Rightarrow> bool" where
  "pid_gone v co = (case target_pid co of Some p \<Rightarrow> \<not> ov_alive v p | None \<Rightarrow> False)"

function retire_children :: "os_view \<Rightarrow> nat \<Rightarrow> child_tracker \<Rightarrow> child_tracker option" where
  "retire_children v k ct =
     (if k < length (ct_child_orchs ct) then
        (let gone = pid_gone v (ct_child_orchs ct ! k) in
         case (if gone then at_index (ct_child_empty_ticks ct) k else Some 0) of None \<Rightarrow> None
         | Some ticks \<Rightarrow>
             (if gone \<and> CHILD_EMPTY_TICK_RETIRE \<le> ticks then
                (case swap_remove k (ct_child_orchs ct) of None \<Rightarrow> None
                 | Some os \<Rightarrow> (case swap_remove k (ct_child_empty_ticks ct) of None \<Rightarrow> None
                                | Some ts \<Rightarrow>
                                    retire_children v k
                                      (ct\<lparr>ct_child_orchs := os, ct_child_empty_ticks := ts, ct_stale := True\<rparr>)))
              else retire_children v (k + 1) ct))
      else Some ct)"
  by pat_completeness auto
termination
  by (relation "measure (\<lambda>(_, k, ct). length (ct_child_orchs ct) - k)") (auto dest: length_swap_remove)

declare retire_children.simps [simp del]

definition reread_ctl :: "os_view \<Rightarrow> ring_orchestrator \<Rightarrow> ring_orchestrator" where
  "reread_ctl v co = co\<lparr>ro_ctl := map_option (ov_ctl_now v) (ro_ctl co)\<rparr>"

definition poll_children :: "os_view \<Rightarrow> child_tracker \<Rightarrow> child_tracker option" where
  "poll_children v ct =
     map_option (\<lambda>os. ct\<lparr>ct_child_orchs := os\<rparr>)
       (those (map (\<lambda>co. poll_new_rings (ov_open v) (reread_ctl v co)) (ct_child_orchs ct)))"

definition all_pids :: "child_tracker \<Rightarrow> u32 list" where
  "all_pids ct = (case ct_root_pid ct of Some r \<Rightarrow> [r] | None \<Rightarrow> []) @ List.map_filter target_pid (ct_child_orchs ct)"

definition refresh_shared_regions :: "os_view \<Rightarrow> child_tracker \<Rightarrow> child_tracker" where
  "refresh_shared_regions v ct =
     (let rs = (if length (all_pids ct) < 2 then [] else detect_shared_regions (ov_order v) (ov_maps v) (all_pids ct))
      in ct\<lparr>ct_shared_regions := rs, ct_interval_map := sim_rebuild (ov_sort v) rs, ct_stale := False\<rparr>)"

definition discover :: "os_view \<Rightarrow> child_tracker \<Rightarrow> child_tracker option" where
  "discover v ct =
     (let ct1 = scan_shm_for_children v ct; had_pending = ct_pending_pids ct1 \<noteq> [] in
      case expire_pending (ov_now v) 0 (ct_pending_pids ct1) (ct_pending_since ct1) of None \<Rightarrow> None
      | Some (ps, ss) \<Rightarrow>
          (case attach_pending v 0 (ct1\<lparr>ct_pending_pids := ps, ct_pending_since := ss\<rparr>) False of None \<Rightarrow> None
           | Some (ct2, new) \<Rightarrow>
               (case retire_children v 0 ct2 of None \<Rightarrow> None
                | Some ct3 \<Rightarrow>
                    (case poll_children v ct3 of None \<Rightarrow> None
                     | Some ct4 \<Rightarrow>
                         Some (if (had_pending \<or> new) \<and> ct_stale ct4 then refresh_shared_regions v ct4 else ct4)))))"

text \<open>The path of the region an address is in; \<open>None\<close> when the index of the region is out of range.\<close>

definition is_shared_addr :: "child_tracker \<Rightarrow> u64 \<Rightarrow> string option option" where
  "is_shared_addr ct a =
     (case sim_lookup (ct_interval_map ct) a of None \<Rightarrow> Some None
      | Some ri \<Rightarrow> map_option (Some \<circ> sr_path) (at_index (ct_shared_regions ct) ri))"

text \<open>The events of child \<open>ci\<close> get its identifiers.\<close>

fun namespace_events :: "nat \<Rightarrow> bool \<Rightarrow> (nat \<times> event) list \<Rightarrow> (nat \<times> event) list \<times> bool" where
  "namespace_events ci warned [] = ([], warned)"
| "namespace_events ci warned ((ri, ev) # evs) =
     (case namespace_child_tid (e_thread_id ev) ci warned of
        (tid, w1) \<Rightarrow> (case namespace_events ci w1 evs of
                        (evs', w2) \<Rightarrow> ((ri, ev\<lparr>e_thread_id := tid\<rparr>) # evs', w2)))"

definition count_empty :: "nat \<Rightarrow> nat \<Rightarrow> u32 list \<Rightarrow> u32 list" where
  "count_empty ci got ticks =
     (if ci < length ticks then ticks[ci := if got = 0 then sat_add (ticks ! ci) 1 else 0] else ticks)"

fun drain_children ::
  "(nat \<Rightarrow> nat \<Rightarrow> observation) \<Rightarrow> nat \<Rightarrow> nat \<Rightarrow> nat \<Rightarrow> ring_orchestrator list \<Rightarrow> u32 list \<Rightarrow> bool
     \<Rightarrow> ring_orchestrator list \<times> u32 list \<times> bool \<times> (nat \<times> event) list" where
  "drain_children obs limit ci so_far [] ticks warned = ([], ticks, warned, [])"
| "drain_children obs limit ci so_far (co # cos) ticks warned =
     (if limit \<le> so_far then (co # cos, ticks, warned, [])
      else
        (case batch_drain (obs ci) (limit - so_far) co of
           (co', evs) \<Rightarrow>
             (case namespace_events ci warned evs of
                (evs1, w1) \<Rightarrow>
                  (case drain_children obs limit (ci + 1) (so_far + length evs) cos (count_empty ci (length evs) ticks) w1 of
                     (cos', ticks', w2, buf) \<Rightarrow> (co' # cos', ticks', w2, evs1 @ buf)))))"

definition ct_batch_drain ::
  "(nat \<Rightarrow> nat \<Rightarrow> observation) \<Rightarrow> nat \<Rightarrow> child_tracker \<Rightarrow> child_tracker \<times> (nat \<times> event) list" where
  "ct_batch_drain obs limit ct =
     (case drain_children obs limit 0 0 (ct_child_orchs ct) (ct_child_empty_ticks ct) (ct_tid_warned ct) of
        (cos, ticks, w, buf) \<Rightarrow>
          (ct\<lparr>ct_child_orchs := cos, ct_child_empty_ticks := ticks, ct_tid_warned := w\<rparr>, buf))"

definition ct_update_backpressure :: "child_tracker \<Rightarrow> child_tracker" where
  "ct_update_backpressure ct = ct\<lparr>ct_child_orchs := map update_backpressure (ct_child_orchs ct)\<rparr>"

definition ct_total_lapped :: "child_tracker \<Rightarrow> u64" where
  "ct_total_lapped ct = sum_list (map total_lapped (ct_child_orchs ct))"

definition child_count :: "child_tracker \<Rightarrow> nat" where
  "child_count ct = length (ct_child_orchs ct)"


subsection \<open>The invariant\<close>

definition ctl_fits :: "ctl_header \<Rightarrow> bool" where
  "ctl_fits h \<longleftrightarrow> unat (c_thread_count h) \<le> length (c_threads h)"

definition child_ok :: "ring_orchestrator \<Rightarrow> bool" where
  "child_ok co \<longleftrightarrow> orch_ok co \<and> (\<exists>h. ro_ctl co = Some h \<and> ctl_fits h \<and> c_target_pid h \<noteq> 0)"

definition imap_ok :: "interval_map \<Rightarrow> shared_region list \<Rightarrow> bool" where
  "imap_ok m rs \<longleftrightarrow> (\<forall>(s, e, ri) \<in> set m. ri < length rs \<and> (\<exists>pid. (pid, s, e) \<in> set (sr_mappings (rs ! ri))))"

text \<open>
  The lists of a tracker are parallel, no process is listed twice, and the index of the shared
  intervals speaks of the regions there are.
\<close>

definition ct_inv :: "child_tracker \<Rightarrow> bool" where
  "ct_inv ct \<longleftrightarrow>
     length (ct_pending_since ct) = length (ct_pending_pids ct) \<and> distinct (ct_pending_pids ct) \<and>
     length (ct_child_empty_ticks ct) = length (ct_child_orchs ct) \<and> list_all child_ok (ct_child_orchs ct) \<and>
     distinct (map target_pid (ct_child_orchs ct)) \<and>
     (\<forall>p. p \<in> set (ct_pending_pids ct) \<longrightarrow> \<not> attached_pid ct p \<and> Some p \<noteq> ct_root_pid ct) \<and>
     (\<forall>p. attached_pid ct p \<longrightarrow> Some p \<noteq> ct_root_pid ct) \<and>
     imap_ok (ct_interval_map ct) (ct_shared_regions ct)"

text \<open>
  What the engine relies on: the segment \<open>/rtmap_ctl_<pid>\<close> is that of process \<open>pid\<close>, a segment
  counts no more threads than it has entries and keeps its process, and the sort sorts.
\<close>

definition view_ok :: "os_view \<Rightarrow> bool" where
  "view_ok v \<longleftrightarrow>
     (\<forall>pid h. ov_ctl v pid = Some h \<longrightarrow> c_target_pid h = pid \<and> pid \<noteq> 0 \<and> ctl_fits h) \<and>
     (\<forall>h. c_target_pid (ov_ctl_now v h) = c_target_pid h \<and> (ctl_fits h \<longrightarrow> ctl_fits (ov_ctl_now v h))) \<and>
     (\<forall>m. set (ov_sort v m) = set m)"

lemma attached_pid_iff: "attached_pid ct p \<longleftrightarrow> Some p \<in> target_pid ` set (ct_child_orchs ct)"
  by (auto simp: attached_pid_def list_ex_iff image_iff) (metis)+

lemma ct_inv_new: "ct_inv (set_root_pid root ct_new)"
  by (simp add: ct_inv_def set_root_pid_def ct_new_def attached_pid_def imap_ok_def)

lemma ct_inv_register: "ct_inv ct \<Longrightarrow> ct_inv (register_fork now pid ct)"
  by (auto simp: register_fork_def ct_inv_def attached_pid_def)

lemma ct_inv_scan: "ct_inv ct \<Longrightarrow> ct_inv (scan_shm_for_children v ct)"
proof -
  have "ct_inv ct \<Longrightarrow> ct_inv (scan_pid v pid ct)" for pid ct
    by (auto simp: scan_pid_def ct_inv_register split: option.split)
  then have "ct_inv ct \<Longrightarrow> ct_inv (fold (scan_pid v) pids ct)" for pids ct
    by (induction pids arbitrary: ct) simp_all
  then show "ct_inv ct \<Longrightarrow> ct_inv (scan_shm_for_children v ct)" by (simp add: scan_shm_for_children_def)
qed

lemma mset_swap_remove:
  assumes "swap_remove i xs = Some ys"
  shows "mset xs = mset (xs ! i # ys)"
proof -
  have i: "i < length xs" and ys: "ys = butlast (xs[i := last xs])"
    using assms by (auto simp: swap_remove_def split: if_splits)
  then obtain bl l where xs: "xs = bl @ [l]" by (metis length_greater_0_conv less_nat_zero_code neq0_conv rev_exhaust)
  show ?thesis
  proof (cases "i < length bl")
    case True
    then have "ys = bl[i := l]" by (simp add: ys xs list_update_append)
    moreover have "mset bl = add_mset (bl ! i) (mset bl - {# bl ! i #})" using True by simp
    ultimately show ?thesis using True by (simp add: xs nth_append mset_update)
  next
    case False
    with i have "i = length bl" by (simp add: xs)
    then show ?thesis by (simp add: ys xs list_update_append nth_append)
  qed
qed

lemma swap_remove_distinct:
  assumes "swap_remove i xs = Some ys" "distinct (map f xs)"
  shows "distinct (map f ys) \<and> f ` set ys = f ` set xs - {f (xs ! i)} \<and> set xs = insert (xs ! i) (set ys)"
proof -
  have m: "mset xs = mset (xs ! i # ys)" by (rule mset_swap_remove [OF assms(1)])
  then have "mset (map f xs) = mset (map f (xs ! i # ys))" by (metis mset_map)
  with assms(2) have "distinct (map f (xs ! i # ys))" using mset_eq_imp_distinct_iff by blast
  moreover have "set xs = insert (xs ! i) (set ys)" using mset_eq_setD [OF m] by simp
  ultimately show ?thesis by auto
qed

lemma swap_remove_set:
  assumes "swap_remove i xs = Some ys" "distinct xs"
  shows "distinct ys" "set ys = set xs - {xs ! i}"
proof -
  have d: "distinct (map id xs)" using assms(2) by simp
  note s = swap_remove_distinct [OF assms(1) d]
  from s [THEN conjunct1] show "distinct ys" by simp
  from s [THEN conjunct2, THEN conjunct1] show "set ys = set xs - {xs ! i}" by simp
qed

lemma expire_steps:
  "\<not> i < length ps \<Longrightarrow> expire_pending now i ps ss = Some (ps, ss)"
  "i < length ps \<Longrightarrow> at_index ss i = Some t \<Longrightarrow> \<not> pending_expired now t \<Longrightarrow>
     expire_pending now i ps ss = expire_pending now (i + 1) ps ss"
  "i < length ps \<Longrightarrow> at_index ss i = Some t \<Longrightarrow> pending_expired now t \<Longrightarrow>
     swap_remove i ps = Some ps' \<Longrightarrow> swap_remove i ss = Some ss' \<Longrightarrow>
     expire_pending now i ps ss = expire_pending now i ps' ss'"
  by (simp_all add: expire_pending.simps [of now i ps ss])

lemma swap_remove_two:
  assumes "length ys = length xs" "i < length xs"
  obtains xs' ys' where "swap_remove i xs = Some xs'" "swap_remove i ys = Some ys'" "length ys' = length xs'"
  by (rule that [of "butlast (xs[i := last xs])" "butlast (ys[i := last ys])"]) (use assms in \<open>simp_all add: swap_remove_def\<close>)

lemma expire_pending_spec:
  assumes "length ss = length ps" "distinct ps"
  shows "\<exists>ps' ss'. expire_pending now i ps ss = Some (ps', ss') \<and> length ss' = length ps' \<and> distinct ps' \<and> set ps' \<subseteq> set ps"
  using assms
proof (induction now i ps ss rule: expire_pending.induct)
  case (1 now i ps ss)
  note IH = "1.IH" and prems = "1.prems"
  show ?case
  proof (cases "i < length ps")
    case i: True
    then have a: "at_index ss i = Some (ss ! i)" using prems(1) by (simp add: at_index_def)
    from swap_remove_two [OF prems(1) i] obtain ps1 ss1 where
      r: "swap_remove i ps = Some ps1" "swap_remove i ss = Some ss1" "length ss1 = length ps1" .
    show ?thesis
    proof (cases "pending_expired now (ss ! i)")
      case True
      have "distinct ps1" "set ps1 \<subseteq> set ps" using swap_remove_set [OF r(1) prems(2)] by blast+
      with IH(1) [OF i a True r(1,2) r(3)] show ?thesis unfolding expire_steps(3) [OF i a True r(1,2)] by blast
    next
      case False
      from IH(2) [OF i a False prems] show ?thesis unfolding expire_steps(2) [OF i a False] .
    qed
  next
    case False
    with prems show ?thesis unfolding expire_steps(1) [OF False] by blast
  qed
qed

lemma attach_new_spec:
  assumes "view_ok v" "try_attach_ctl_pid (ov_ctl v pid) ro_new = (orch, True)"
  shows "child_ok orch \<and> target_pid orch = Some pid"
proof -
  obtain h where h: "ov_ctl v pid = Some h" "orch = ro_new\<lparr>ro_ctl := Some h\<rparr>"
    using assms(2) by (auto simp: try_attach_ctl_pid_def attach_ctl_shm_def ro_new_def split: option.splits if_splits)
  with assms(1) have "c_target_pid h = pid" "pid \<noteq> 0" "ctl_fits h" by (auto simp: view_ok_def)
  with h(2) show ?thesis by (simp add: child_ok_def target_pid_def orch_ok_def ro_new_def)
qed

lemma ct_inv_attach:
  assumes inv: "ct_inv ct" and j: "j < length (ct_pending_pids ct)"
    and r: "swap_remove j (ct_pending_pids ct) = Some ps" "swap_remove j (ct_pending_since ct) = Some ss"
    and orch: "child_ok orch" "target_pid orch = Some (ct_pending_pids ct ! j)"
  shows "ct_inv (ct\<lparr>ct_child_orchs := ct_child_orchs ct @ [orch], ct_child_empty_ticks := ct_child_empty_ticks ct @ [0],
    ct_pending_pids := ps, ct_pending_since := ss\<rparr>)"
proof -
  let ?pid = "ct_pending_pids ct ! j"
  have mem: "?pid \<in> set (ct_pending_pids ct)" using j by simp
  have l: "length ss = length ps"
    using length_swap_remove [OF r(1)] length_swap_remove [OF r(2)] inv by (simp add: ct_inv_def)
  have d: "distinct ps" "set ps = set (ct_pending_pids ct) - {?pid}"
    using swap_remove_set [OF r(1)] inv unfolding ct_inv_def by blast+
  have free: "\<not> attached_pid ct ?pid" "Some ?pid \<noteq> ct_root_pid ct" using inv mem by (auto simp: ct_inv_def)
  then have "target_pid orch \<notin> target_pid ` set (ct_child_orchs ct)" unfolding attached_pid_iff orch(2) by blast
  moreover have "attached_pid (ct\<lparr>ct_child_orchs := ct_child_orchs ct @ [orch], ct_child_empty_ticks := ts,
      ct_pending_pids := ps, ct_pending_since := ss\<rparr>) p \<longleftrightarrow> attached_pid ct p \<or> p = ?pid" for p ts
    using orch(2) by (auto simp: attached_pid_def)
  ultimately show ?thesis using inv l d(1) free orch(1)
    by (auto simp: ct_inv_def d(2))
qed

lemma attach_steps:
  "\<not> j < length (ct_pending_pids ct) \<Longrightarrow> attach_pending v j ct new = Some (ct, new)"
  "j < length (ct_pending_pids ct) \<Longrightarrow> try_attach_ctl_pid (ov_ctl v (ct_pending_pids ct ! j)) ro_new = (orch, False) \<Longrightarrow>
     attach_pending v j ct new = attach_pending v (j + 1) ct new"
  "j < length (ct_pending_pids ct) \<Longrightarrow> try_attach_ctl_pid (ov_ctl v (ct_pending_pids ct ! j)) ro_new = (orch, True) \<Longrightarrow>
     swap_remove j (ct_pending_pids ct) = Some ps \<Longrightarrow> swap_remove j (ct_pending_since ct) = Some ss \<Longrightarrow>
     attach_pending v j ct new = attach_pending v j
       (ct\<lparr>ct_child_orchs := ct_child_orchs ct @ [orch], ct_child_empty_ticks := ct_child_empty_ticks ct @ [0],
          ct_pending_pids := ps, ct_pending_since := ss\<rparr>) True"
  by (simp_all add: attach_pending.simps [of v j ct new])

lemma attach_pending_spec:
  assumes "view_ok v" "ct_inv ct"
  shows "\<exists>ct' b. attach_pending v j ct new = Some (ct', b) \<and> ct_inv ct' \<and> ct_stale ct' = ct_stale ct \<and>
     ct_shared_regions ct' = ct_shared_regions ct"
  using assms
proof (induction v j ct new rule: attach_pending.induct)
  case (1 v j ct new)
  note IH = "1.IH" and prems = "1.prems"
  obtain orch ok where t: "try_attach_ctl_pid (ov_ctl v (ct_pending_pids ct ! j)) ro_new = (orch, ok)" by fastforce
  show ?case
  proof (cases "j < length (ct_pending_pids ct)")
    case j: True
    show ?thesis
    proof (cases ok)
      case True
      then have t: "try_attach_ctl_pid (ov_ctl v (ct_pending_pids ct ! j)) ro_new = (orch, True)" using t by simp
      have "length (ct_pending_since ct) = length (ct_pending_pids ct)" using prems(2) by (simp add: ct_inv_def)
      from swap_remove_two [OF this j] obtain ps ss where
        r: "swap_remove j (ct_pending_pids ct) = Some ps" "swap_remove j (ct_pending_since ct) = Some ss" .
      have "ct_inv (ct\<lparr>ct_child_orchs := ct_child_orchs ct @ [orch], ct_child_empty_ticks := ct_child_empty_ticks ct @ [0],
          ct_pending_pids := ps, ct_pending_since := ss\<rparr>)"
        using attach_new_spec [OF prems(1) t] by (intro ct_inv_attach [OF prems(2) j r]) simp_all
      from IH(1) [OF j t [symmetric] refl r prems(1) this] show ?thesis
        unfolding attach_steps(3) [OF j t r] by simp
    next
      case False
      then have t: "try_attach_ctl_pid (ov_ctl v (ct_pending_pids ct ! j)) ro_new = (orch, False)" using t by simp
      from IH(2) [OF j t [symmetric] refl prems] show ?thesis unfolding attach_steps(2) [OF j t] .
    qed
  next
    case False
    with prems show ?thesis unfolding attach_steps(1) [OF False] by blast
  qed
qed

lemma ct_inv_retire:
  assumes inv: "ct_inv ct"
    and r: "swap_remove k (ct_child_orchs ct) = Some os" "swap_remove k (ct_child_empty_ticks ct) = Some ts"
  shows "ct_inv (ct\<lparr>ct_child_orchs := os, ct_child_empty_ticks := ts, ct_stale := True\<rparr>)"
proof -
  have l: "length ts = length os"
    using length_swap_remove [OF r(1)] length_swap_remove [OF r(2)] inv by (simp add: ct_inv_def)
  have d: "distinct (map target_pid os)" "set os \<subseteq> set (ct_child_orchs ct)"
    using swap_remove_distinct [OF r(1), of target_pid] inv unfolding ct_inv_def by blast+
  have "attached_pid (ct\<lparr>ct_child_orchs := os, ct_child_empty_ticks := ts, ct_stale := True\<rparr>) p \<Longrightarrow> attached_pid ct p" for p
    using d(2) by (auto simp: attached_pid_def list_ex_iff)
  with inv l d show ?thesis by (auto simp: ct_inv_def list_all_iff)
qed

lemma retire_children_spec:
  assumes "ct_inv ct"
  shows "\<exists>ct'. retire_children v k ct = Some ct' \<and> ct_inv ct' \<and> ct_shared_regions ct' = ct_shared_regions ct \<and>
     ct_pending_pids ct' = ct_pending_pids ct"
  using assms
proof (induction v k ct rule: retire_children.induct)
  case (1 v k ct)
  note IH = "1.IH" and prems = "1.prems"
  have lens: "length (ct_child_empty_ticks ct) = length (ct_child_orchs ct)" using prems by (simp add: ct_inv_def)
  show ?case
  proof (cases "k < length (ct_child_orchs ct)")
    case k: True
    define gone where "gone = pid_gone v (ct_child_orchs ct ! k)"
    define ticks where "ticks = (if gone then ct_child_empty_ticks ct ! k else 0)"
    have a: "(if gone then at_index (ct_child_empty_ticks ct) k else Some 0) = Some ticks"
      using k lens by (simp add: at_index_def ticks_def)
    from swap_remove_two [OF lens k] obtain os ts where
      r: "swap_remove k (ct_child_orchs ct) = Some os" "swap_remove k (ct_child_empty_ticks ct) = Some ts" .
    note unf = retire_children.simps [of v k ct, unfolded Let_def gone_def [symmetric] a option.case r if_P [OF k]]
    show ?thesis
    proof (cases "gone \<and> CHILD_EMPTY_TICK_RETIRE \<le> ticks")
      case True
      from IH(1) [OF k gone_def a True r ct_inv_retire [OF prems r]] True show ?thesis unfolding unf by simp
    next
      case False
      from IH(2) [OF k gone_def a False prems] show ?thesis unfolding unf if_not_P [OF False] .
    qed
  next
    case False
    with prems show ?thesis by (simp add: retire_children.simps [of v k ct])
  qed
qed

lemma poll_ctl: "poll_new_rings op ro = Some ro' \<Longrightarrow> ro_ctl ro' = ro_ctl ro"
  by (auto simp: poll_new_rings_def Let_def split: option.splits if_splits)

lemma poll_child_spec:
  assumes "view_ok v" "child_ok co"
  shows "\<exists>co'. poll_new_rings op (reread_ctl v co) = Some co' \<and> child_ok co' \<and> target_pid co' = target_pid co"
proof -
  obtain h where h: "ro_ctl co = Some h" "ctl_fits h" "c_target_pid h \<noteq> 0" and co: "orch_ok co" using assms(2) by (auto simp: child_ok_def)
  let ?h = "ov_ctl_now v h"
  have h': "ctl_fits ?h" "c_target_pid ?h = c_target_pid h" using assms(1) h(2) by (auto simp: view_ok_def)
  have re: "ro_ctl (reread_ctl v co) = Some ?h" "orch_ok (reread_ctl v co)" using h(1) co by (simp_all add: reread_ctl_def orch_ok_def)
  obtain x where "poll_fresh op ?h (unat (c_thread_count ?h)) (ro_known_count (reread_ctl v co)) (ro_rings (reread_ctl v co)) = Some x"
    using poll_fresh_total h'(1) unfolding ctl_fits_def by blast
  then obtain co' where p: "poll_new_rings op (reread_ctl v co) = Some co'"
    using re(1) h'(1) by (cases x) (simp add: poll_new_rings_def ctl_fits_def)
  have "ro_ctl co' = Some ?h" "orch_ok co'" using poll_ctl [OF p] re poll_new_rings_ok [OF re(2) p] by simp_all
  with p h h' show ?thesis by (auto simp: child_ok_def target_pid_def)
qed

lemma those_polls:
  assumes "view_ok v" "list_all child_ok cos"
  shows "\<exists>os. those (map (\<lambda>co. poll_new_rings op (reread_ctl v co)) cos) = Some os \<and> list_all child_ok os \<and>
    map target_pid os = map target_pid cos"
  using assms(2)
proof (induction cos)
  case (Cons co cos)
  from Cons obtain os where "those (map (\<lambda>co. poll_new_rings op (reread_ctl v co)) cos) = Some os" "list_all child_ok os"
    "map target_pid os = map target_pid cos" by auto
  moreover from Cons.prems poll_child_spec [OF assms(1), of co op] obtain co' where
    "poll_new_rings op (reread_ctl v co) = Some co'" "child_ok co'" "target_pid co' = target_pid co" by auto
  ultimately show ?case by auto
qed simp

text \<open>An update of the orchestrators that keeps their processes keeps the invariant.\<close>

lemma ct_inv_orchs:
  assumes "ct_inv ct" "list_all child_ok os" "map target_pid os = map target_pid (ct_child_orchs ct)"
    "length ts = length (ct_child_empty_ticks ct)"
  shows "ct_inv (ct\<lparr>ct_child_orchs := os, ct_child_empty_ticks := ts, ct_tid_warned := w\<rparr>)"
proof -
  have "set (map target_pid os) = set (map target_pid (ct_child_orchs ct))" using assms(3) by simp
  then have "attached_pid (ct\<lparr>ct_child_orchs := os, ct_child_empty_ticks := ts, ct_tid_warned := w\<rparr>) p = attached_pid ct p" for p
    unfolding attached_pid_iff by simp
  moreover have "length os = length (ct_child_orchs ct)" using assms(3) by (metis length_map)
  ultimately show ?thesis using assms by (simp add: ct_inv_def)
qed

lemma poll_children_spec:
  assumes "view_ok v" "ct_inv ct"
  shows "\<exists>ct'. poll_children v ct = Some ct' \<and> ct_inv ct' \<and> ct_shared_regions ct' = ct_shared_regions ct \<and> ct_stale ct' = ct_stale ct"
proof -
  have "list_all child_ok (ct_child_orchs ct)" using assms(2) by (simp add: ct_inv_def)
  from those_polls [OF assms(1) this, of "ov_open v"] obtain os where
    o: "those (map (\<lambda>co. poll_new_rings (ov_open v) (reread_ctl v co)) (ct_child_orchs ct)) = Some os"
      "list_all child_ok os" "map target_pid os = map target_pid (ct_child_orchs ct)" by blast
  have "ct_inv (ct\<lparr>ct_child_orchs := os\<rparr>)"
    using ct_inv_orchs [OF assms(2) o(2,3), of "ct_child_empty_ticks ct" "ct_tid_warned ct"] by simp
  with o(1) show ?thesis by (simp add: poll_children_def)
qed

lemma region_intervals_ok: "imap_ok (region_intervals rs) rs"
  by (fastforce simp: imap_ok_def region_intervals_def in_set_enumerate_eq)

lemma imap_ok_sort: "set m' = set m \<Longrightarrow> imap_ok m rs \<Longrightarrow> imap_ok m' rs"
  by (simp add: imap_ok_def)

lemma ct_inv_refresh:
  assumes "view_ok v" "ct_inv ct"
  shows "ct_inv (refresh_shared_regions v ct)"
proof -
  have "imap_ok (sim_rebuild (ov_sort v) rs) rs" for rs
    using assms(1) imap_ok_sort [OF _ region_intervals_ok] by (simp add: sim_rebuild_def view_ok_def)
  with assms(2) show ?thesis by (simp add: refresh_shared_regions_def Let_def ct_inv_def attached_pid_def)
qed

lemma discover_spec:
  assumes "view_ok v" "ct_inv ct"
  shows "\<exists>ct'. discover v ct = Some ct' \<and> ct_inv ct'"
proof -
  let ?ct1 = "scan_shm_for_children v ct"
  have i1: "ct_inv ?ct1" by (rule ct_inv_scan [OF assms(2)])
  then have "length (ct_pending_since ?ct1) = length (ct_pending_pids ?ct1)" "distinct (ct_pending_pids ?ct1)"
    by (simp_all add: ct_inv_def)
  from expire_pending_spec [OF this, of "ov_now v" 0] obtain ps ss where
    e: "expire_pending (ov_now v) 0 (ct_pending_pids ?ct1) (ct_pending_since ?ct1) = Some (ps, ss)"
      "length ss = length ps" "distinct ps" "set ps \<subseteq> set (ct_pending_pids ?ct1)" by blast
  then have "ct_inv (?ct1\<lparr>ct_pending_pids := ps, ct_pending_since := ss\<rparr>)" using i1 by (auto simp: ct_inv_def attached_pid_def)
  from attach_pending_spec [OF assms(1) this, of 0 False] obtain ct2 new where
    a: "attach_pending v 0 (?ct1\<lparr>ct_pending_pids := ps, ct_pending_since := ss\<rparr>) False = Some (ct2, new)" "ct_inv ct2" by blast
  from retire_children_spec [OF a(2), of v 0] obtain ct3 where r: "retire_children v 0 ct2 = Some ct3" "ct_inv ct3" by blast
  from poll_children_spec [OF assms(1) r(2)] obtain ct4 where p: "poll_children v ct3 = Some ct4" "ct_inv ct4" by blast
  show ?thesis
    using ct_inv_refresh [OF assms(1) p(2)] p(2)
    by (simp add: discover_def Let_def e(1) a(1) r(1) p(1))
qed

lemma batch_drain_ctl: "ro_ctl (fst (batch_drain obs n ro)) = ro_ctl ro"
  by (simp add: batch_drain_def Let_def split: prod.split)

lemma length_count_empty: "length (count_empty ci got ticks) = length ticks"
  by (simp add: count_empty_def)

lemma drain_children_spec:
  assumes "drain_children obs limit ci so_far cos ticks w = (cos', ticks', w', buf)" "list_all child_ok cos"
  shows "list_all child_ok cos' \<and> map target_pid cos' = map target_pid cos \<and> length ticks' = length ticks"
  using assms
proof (induction cos arbitrary: ci so_far ticks w cos' ticks' w' buf)
  case (Cons co cos)
  show ?case
  proof (cases "limit \<le> so_far")
    case True
    with Cons.prems show ?thesis by auto
  next
    case False
    obtain co1 evs where b: "batch_drain (obs ci) (limit - so_far) co = (co1, evs)" by fastforce
    obtain evs1 w1 where n: "namespace_events ci w evs = (evs1, w1)" by fastforce
    obtain cos2 ticks2 w2 buf2 where
      d: "drain_children obs limit (ci + 1) (so_far + length evs) cos (count_empty ci (length evs) ticks) w1 = (cos2, ticks2, w2, buf2)"
      by (metis surj_pair)
    have "orch_ok co1" "ro_ctl co1 = ro_ctl co"
      using batch_drain_ok [of co "obs ci" "limit - so_far"] batch_drain_ctl [of "obs ci" "limit - so_far" co] b Cons.prems(2)
      by (simp_all add: child_ok_def)
    with Cons.prems(2) have "child_ok co1" "target_pid co1 = target_pid co" by (simp_all add: child_ok_def target_pid_def)
    with Cons.IH [OF d] Cons.prems b n d False show ?thesis by (auto simp: length_count_empty)
  qed
qed simp

datatype ct_op = Ct_Fork nat u32 | Ct_Discover os_view | Ct_Drain "nat \<Rightarrow> nat \<Rightarrow> observation" nat | Ct_Backpressure

fun ct_step :: "ct_op \<Rightarrow> child_tracker \<Rightarrow> child_tracker option" where
  "ct_step (Ct_Fork now pid) ct = Some (register_fork now pid ct)"
| "ct_step (Ct_Discover v) ct = discover v ct"
| "ct_step (Ct_Drain obs limit) ct = Some (fst (ct_batch_drain obs limit ct))"
| "ct_step Ct_Backpressure ct = Some (ct_update_backpressure ct)"

fun ct_run :: "ct_op list \<Rightarrow> child_tracker \<Rightarrow> child_tracker option" where
  "ct_run [] ct = Some ct"
| "ct_run (op # ops) ct = (case ct_step op ct of None \<Rightarrow> None | Some ct' \<Rightarrow> ct_run ops ct')"

lemma ct_inv_drain: "ct_inv ct \<Longrightarrow> ct_inv (fst (ct_batch_drain obs limit ct))"
proof -
  assume inv: "ct_inv ct"
  obtain cos ticks w buf where
    d: "drain_children obs limit 0 0 (ct_child_orchs ct) (ct_child_empty_ticks ct) (ct_tid_warned ct) = (cos, ticks, w, buf)"
    by (metis surj_pair)
  have "list_all child_ok (ct_child_orchs ct)" using inv by (simp add: ct_inv_def)
  from drain_children_spec [OF d this] ct_inv_orchs [OF inv, of cos ticks w] d show ?thesis by (simp add: ct_batch_drain_def)
qed

lemma ct_inv_backpressure: "ct_inv ct \<Longrightarrow> ct_inv (ct_update_backpressure ct)"
proof -
  assume inv: "ct_inv ct"
  have c: "child_ok co \<Longrightarrow> child_ok (update_backpressure co)" "target_pid (update_backpressure co) = target_pid co" for co
    using update_backpressure_ok [of co] by (auto simp: child_ok_def update_backpressure_def target_pid_def)
  have "ct_inv (ct\<lparr>ct_child_orchs := map update_backpressure (ct_child_orchs ct),
      ct_child_empty_ticks := ct_child_empty_ticks ct, ct_tid_warned := ct_tid_warned ct\<rparr>)"
    using inv c by (intro ct_inv_orchs) (auto simp: ct_inv_def list_all_iff)
  then show ?thesis by (simp add: ct_update_backpressure_def)
qed

lemma ct_step_spec:
  assumes "ct_inv ct" "\<And>v. op = Ct_Discover v \<Longrightarrow> view_ok v"
  shows "\<exists>ct'. ct_step op ct = Some ct' \<and> ct_inv ct'"
  using assms by (cases op) (simp_all add: ct_inv_register discover_spec ct_inv_drain ct_inv_backpressure)

lemma ct_run_spec:
  assumes "ct_inv ct" "\<forall>v. Ct_Discover v \<in> set ops \<longrightarrow> view_ok v"
  shows "\<exists>ct'. ct_run ops ct = Some ct' \<and> ct_inv ct'"
  using assms
proof (induction ops arbitrary: ct)
  case (Cons op ops)
  from Cons.prems ct_step_spec [of ct op] obtain ct1 where "ct_step op ct = Some ct1" "ct_inv ct1" by auto
  with Cons.IH [of ct1] Cons.prems(2) show ?case by simp
qed simp

lemma sim_lookup_mem:
  assumes "sim_lookup m a = Some ri"
  shows "\<exists>s e. (s, e, ri) \<in> set m \<and> s \<le> a \<and> a < e"
proof -
  let ?n = "length (takeWhile (\<lambda>(s, _, _). s \<le> a) m)"
  have n: "?n \<noteq> 0" and l: "case m ! (?n - 1) of (s, e, r) \<Rightarrow> (if s \<le> a \<and> a < e then Some r else None) = Some ri"
    using assms by (auto simp: sim_lookup_def Let_def split: if_splits)
  have "?n \<le> length m" by (rule length_takeWhile_le)
  moreover have "?n - 1 < ?n" using n by simp
  ultimately have "m ! (?n - 1) \<in> set m" by (intro nth_mem) (rule less_le_trans)
  with l show ?thesis by (cases "m ! (?n - 1)") (auto split: if_splits)
qed

lemma is_shared_addr_spec:
  assumes "ct_inv ct"
  shows "\<exists>r. is_shared_addr ct a = Some r \<and> (\<forall>path. r = Some path \<longrightarrow>
     (\<exists>reg \<in> set (ct_shared_regions ct). sr_path reg = path \<and> (\<exists>pid s e. (pid, s, e) \<in> set (sr_mappings reg) \<and> s \<le> a \<and> a < e)))"
proof (cases "sim_lookup (ct_interval_map ct) a")
  case None
  then show ?thesis by (simp add: is_shared_addr_def)
next
  case (Some ri)
  from sim_lookup_mem [OF this] obtain s e where m: "(s, e, ri) \<in> set (ct_interval_map ct)" "s \<le> a" "a < e" by blast
  with assms obtain pid where "ri < length (ct_shared_regions ct)" "(pid, s, e) \<in> set (sr_mappings (ct_shared_regions ct ! ri))"
    unfolding ct_inv_def imap_ok_def by fast
  moreover from this(1) have "ct_shared_regions ct ! ri \<in> set (ct_shared_regions ct)" by (rule nth_mem)
  ultimately have "\<exists>reg \<in> set (ct_shared_regions ct). sr_path reg = sr_path (ct_shared_regions ct ! ri) \<and>
      (\<exists>pid s e. (pid, s, e) \<in> set (sr_mappings reg) \<and> s \<le> a \<and> a < e)" "ri < length (ct_shared_regions ct)"
    using m(2,3) by blast+
  then show ?thesis using Some
    by (intro exI [of _ "Some (sr_path (ct_shared_regions ct ! ri))"]) (simp add: is_shared_addr_def at_index_def)
qed


text \<open>A child that is announced by a fork, and whose control segment is there at the next discovery.\<close>

definition demo_view :: os_view where
  "demo_view = \<lparr>ov_now = 5, ov_shm_names = [], ov_ctl = (\<lambda>p. if p = 4242 then Some sample_ctl else None),
     ov_ctl_now = (\<lambda>h. h), ov_alive = (\<lambda>_. True), ov_open = sample_open, ov_maps = (\<lambda>_. None),
     ov_order = (\<lambda>ix. ix), ov_sort = sort_key fst\<rparr>"



subsection \<open>Thread identifiers\<close>

lemma namespace_value:
  assumes "ci \<le> 0xFE"
  shows "unat (fst (namespace_child_tid raw ci w)) = 256 * (ci + 1) + unat raw mod 256"
proof -
  have m: "(0xFF :: u16) = mask 8" by (simp add: mask_eq_exp_minus_1)
  have c: "unat (of_nat ci + 1 :: u16) = ci + 1" using assms by (simp add: unat_of_nat unat_word_ariths take_bit_eq_mod)
  have "fst (namespace_child_tid raw ci w) = push_bit 8 (of_nat ci + 1) OR take_bit 8 raw"
    by (simp add: namespace_child_tid_def m flip: take_bit_eq_mask)
  also have "\<dots> = push_bit 8 (of_nat ci + 1) + take_bit 8 raw"
    by (rule disjunctive_add [symmetric]) (simp add: bit_simps)
  finally have "fst (namespace_child_tid raw ci w) = push_bit 8 (of_nat ci + 1) + take_bit 8 raw" .
  moreover have "push_bit 8 (of_nat ci + 1 :: u16) = (of_nat ci + 1) * 256" by (simp add: push_bit_eq_mult)
  moreover have "unat ((of_nat ci + 1 :: u16) * 256) = 256 * (ci + 1)"
    using assms by (simp only: unat_word_ariths(2) c) simp
  moreover have "unat (take_bit 8 raw) = unat raw mod 256" by (simp add: unsigned_take_bit_eq take_bit_eq_mod [of 8 "unat raw"])
  moreover have "256 * (ci + 1) + unat raw mod 256 < 65536" using assms by simp
  ultimately show ?thesis by (simp add: unat_word_ariths)
qed

text \<open>
  C28 (bounds).  The identifiers that threads of children get are their own: as long as the tracker
  has no cause for its warning (identifiers below 256, at most 255 children) two threads share an
  identifier only when they are the same thread of the same child, and none is an identifier that a
  thread of the root process below 256 could have.
\<close>

theorem child_tids_apart:
  assumes "\<not> snd (namespace_child_tid raw ci False)" "\<not> snd (namespace_child_tid raw' ci' False)"
  shows "(fst (namespace_child_tid raw ci w) = fst (namespace_child_tid raw' ci' w') \<longleftrightarrow> raw = raw' \<and> ci = ci') \<and>
     0xFF < fst (namespace_child_tid raw ci w)"
proof -
  have r: "unat raw < 256" "unat raw' < 256" and c: "ci \<le> 0xFE" "ci' \<le> 0xFE"
  proof -
    have "\<not> 0xFF < raw" "\<not> 0xFF < raw'" "\<not> 0xFE < ci" "\<not> 0xFE < ci'" using assms unfolding namespace_child_tid_def snd_conv by blast+
    then show "unat raw < 256" "unat raw' < 256" "ci \<le> 0xFE" "ci' \<le> 0xFE" by (simp_all add: word_less_nat_alt)
  qed
  note v = namespace_value [OF c(1), of raw w] namespace_value [OF c(2), of raw' w']
  have "fst (namespace_child_tid raw ci w) = fst (namespace_child_tid raw' ci' w') \<longleftrightarrow>
      256 * (ci + 1) + unat raw mod 256 = 256 * (ci' + 1) + unat raw' mod 256"
    unfolding v [symmetric] by (rule word_unat_eq_iff)
  also have "\<dots> \<longleftrightarrow> unat raw = unat raw' \<and> ci = ci'"
  proof -
    have q: "(256 * (c + 1) + x) div 256 = c + 1" "(256 * (c + 1) + x) mod 256 = x" if "x < 256" for c x :: nat
      using that by (simp_all only: div_mult_self4 mod_mult_self4 mod_less div_less add_0)
    have "256 * (c1 + 1) + x = 256 * (c2 + 1) + y \<longleftrightarrow> x = y \<and> c1 = c2" if "x < 256" "y < 256" for c1 c2 x y :: nat
      using q [OF that(1), of c1] q [OF that(2), of c2] by (metis add_right_cancel)
    with r show ?thesis by (simp only: mod_less)
  qed
  also have "\<dots> \<longleftrightarrow> raw = raw' \<and> ci = ci'" by (simp only: word_unat_eq_iff)
  finally have same: "fst (namespace_child_tid raw ci w) = fst (namespace_child_tid raw' ci' w') \<longleftrightarrow> raw = raw' \<and> ci = ci'" .
  have "0xFF < fst (namespace_child_tid raw ci w)" unfolding word_less_nat_alt v(1) by simp
  with same show ?thesis by (rule conjI)
qed

theorem child_tids_apart_witness:
  "fst (namespace_child_tid 7 0 False) \<noteq> fst (namespace_child_tid 7 1 False) \<and> 0xFF < fst (namespace_child_tid 7 0 False)"
proof -
  have "\<not> snd (namespace_child_tid 7 0 False)" "\<not> snd (namespace_child_tid 7 1 False)" by (simp_all add: namespace_child_tid_def)
  from child_tids_apart [OF this, of False False] show ?thesis by simp
qed

text \<open>The child with index 255 takes the identifiers of the root process.\<close>

lemma tid_wraps_to_root: "raw \<le> 0xFF \<Longrightarrow> fst (namespace_child_tid raw 255 w) = raw"
proof -
  assume "raw \<le> 0xFF"
  have m: "(0xFF :: u16) = mask 8" by (simp add: mask_eq_exp_minus_1)
  have "take_bit 8 raw = raw" using \<open>raw \<le> 0xFF\<close>
    by (intro word_unat_eq_iff [THEN iffD2]) (simp add: unsigned_take_bit_eq take_bit_eq_mod [of 8 "unat raw"] word_le_nat_alt)
  moreover have "push_bit 8 (of_nat 255 + 1 :: u16) = 0" by (simp add: push_bit_eq_mult)
  ultimately show ?thesis by (simp add: namespace_child_tid_def m flip: take_bit_eq_mask)
qed


subsection \<open>When the shared regions are recomputed\<close>

text \<open>
  A process that is attached after the flag was cleared (by a refresh while it was still pending)
  is not looked at: with nothing registered and nothing retired the regions stay as they were,
  attached or not.
\<close>

lemma late_attach_keeps_regions:
  assumes "view_ok v" "ct_inv ct" "\<not> ct_stale ct" "scan_shm_for_children v ct = ct"
    "\<And>ct'. retire_children v 0 ct' = Some ct'" "discover v ct = Some ct'"
  shows "ct_shared_regions ct' = ct_shared_regions ct"
proof -
  have "length (ct_pending_since ct) = length (ct_pending_pids ct)" "distinct (ct_pending_pids ct)"
    using assms(2) by (simp_all add: ct_inv_def)
  from expire_pending_spec [OF this, of "ov_now v" 0] obtain ps ss where
    e: "expire_pending (ov_now v) 0 (ct_pending_pids ct) (ct_pending_since ct) = Some (ps, ss)"
      "length ss = length ps" "distinct ps" "set ps \<subseteq> set (ct_pending_pids ct)" by blast
  then have "ct_inv (ct\<lparr>ct_pending_pids := ps, ct_pending_since := ss\<rparr>)" using assms(2) by (auto simp: ct_inv_def attached_pid_def)
  from attach_pending_spec [OF assms(1) this, of 0 False] obtain ct2 b where
    a: "attach_pending v 0 (ct\<lparr>ct_pending_pids := ps, ct_pending_since := ss\<rparr>) False = Some (ct2, b)" "ct_inv ct2"
      "\<not> ct_stale ct2" "ct_shared_regions ct2 = ct_shared_regions ct" using assms(3) by auto
  from poll_children_spec [OF assms(1) a(2)] obtain ct4 where
    "poll_children v ct2 = Some ct4" "\<not> ct_stale ct4" "ct_shared_regions ct4 = ct_shared_regions ct" using a by auto
  with assms(4-6) e(1) a(1) show ?thesis by (simp add: discover_def Let_def)
qed

text \<open>Retiring a child alone does not lead to a refresh either.\<close>

lemma retire_keeps_regions:
  assumes "view_ok v" "ct_inv ct" "ct_pending_pids ct = []" "scan_shm_for_children v ct = ct" "discover v ct = Some ct'"
  shows "ct_shared_regions ct' = ct_shared_regions ct"
proof -
  have e: "expire_pending (ov_now v) 0 (ct_pending_pids ct) (ct_pending_since ct) = Some ([], ct_pending_since ct)"
    using assms(3) by (simp add: expire_pending.simps)
  let ?ct = "ct\<lparr>ct_pending_pids := [], ct_pending_since := ct_pending_since ct\<rparr>"
  have a: "attach_pending v 0 ?ct False = Some (?ct, False)" by (simp add: attach_pending.simps)
  have "ct_inv ?ct" using assms(2,3) by (simp add: ct_inv_def attached_pid_def)
  from retire_children_spec [OF this, of v 0] obtain ct3 where
    r: "retire_children v 0 ?ct = Some ct3" "ct_inv ct3" "ct_shared_regions ct3 = ct_shared_regions ct" by auto
  from poll_children_spec [OF assms(1) r(2)] obtain ct4 where
    "poll_children v ct3 = Some ct4" "ct_shared_regions ct4 = ct_shared_regions ct" using r(3) by auto
  with assms(3-5) e a r(1) show ?thesis by (simp add: discover_def Let_def)
qed

text \<open>With intervals inside one another only the one that starts last is looked at.\<close>

lemma nested_interval_missed: "sim_lookup [(0x1000, 0x9000, 0), (0x2000, 0x3000, 1)] 0x5000 = None"
  by (simp add: sim_lookup_def Let_def)

end
