(* ===== verification/Event_Loop.thy ===== *)
theory Event_Loop
  imports Warm_Scan Recording Child_Tracker
begin

text \<open>
  The loops around \<open>process_event\<close> (\<^verbatim>\<open>engine/src/main.rs\<close>): \<open>run_headless\<close>, the loop of the terminal
  interface in \<open>run\<close>, and \<open>run_replay\<close>.  The three handle a batch of events in the same way, up to
  what the mode of the batch says; events of child processes have no sequence check, and a replay
  has neither children nor a recorder.  Messages and rendering are not modelled.

  With each event comes what the engine sees of the process at that moment: its memory, and the time.
\<close>

datatype feed_mode = Live_Root | Live_Child | Replaying

type_synonym feed_item = "(read_word option \<times> nat) \<times> event"

record journal_entry =
  je_seq :: u64
  je_kind :: u8
  je_thread_id :: u16
  je_addr :: u64
  je_size :: u32
  je_value :: u64

record 'f session =
  ss_engine :: "'f engine"
  ss_total :: u64
  ss_journal :: "journal_entry list"
  ss_expected :: "u16 \<times> u8 \<rightharpoonup> u32"
  ss_gaps :: u64
  ss_recorder :: "event_recorder option"
  ss_children :: child_tracker
  ss_finalize :: bool

text \<open>Writes and basic blocks are numbered apart from the other events of a thread.\<close>

definition seq_domain :: "u8 \<Rightarrow> u8" where
  "seq_domain k = (if k = 0 \<or> k = 11 then 0 else 1)"

definition upd_engine :: "('f engine \<Rightarrow> 'f engine) \<Rightarrow> 'f session \<Rightarrow> 'f session" where
  "upd_engine g s = s\<lparr>ss_engine := g (ss_engine s)\<rparr>"

definition check_seq :: "event \<Rightarrow> 'f session \<Rightarrow> 'f session" where
  "check_seq ev s =
     (if is_continuation ev then s
      else
        (let key = (e_thread_id ev, seq_domain (kind ev)); s32 = seq32 ev;
             expd = (case ss_expected s key of Some e \<Rightarrow> e | None \<Rightarrow> s32);
             s1 = (if s32 \<noteq> expd
                   then upd_engine (emit_topo (emit_seq_gap (ss_total s) (e_thread_id ev) expd s32)) (s\<lparr>ss_gaps := ss_gaps s + 1\<rparr>)
                   else s)
         in s1\<lparr>ss_expected := (ss_expected s)(key \<mapsto> s32 + 1)\<rparr>))"

definition world_regs :: "'f engine \<Rightarrow> u64 list" where
  "world_regs en = lrf_values (wi_reg_file (inner_of en))"

text \<open>A register snapshot; the number is that of the slots consumed.\<close>

definition feed_snapshot :: "feed_mode \<Rightarrow> event list \<Rightarrow> 'f session \<Rightarrow> 'f session \<times> nat" where
  "feed_snapshot mode evs s =
     (case apply_reg_snapshot evs (ss_engine s) of
        (en, n) \<Rightarrow>
          (let consumed = max n 1; ev = hd evs; s1 = s\<lparr>ss_engine := en\<rparr>;
               s2 = (if mode = Replaying then s1
                     else s1\<lparr>ss_recorder := map_option (er_record_snapshot ev (world_regs en)) (ss_recorder s1)\<rparr>);
               s3 = (if mode = Live_Root then check_seq ev s2 else s2)
           in (upd_engine (upd_inner inc_insn_counter) (s3\<lparr>ss_total := ss_total s3 + of_nat consumed\<rparr>), consumed)))"

definition note_fork :: "nat \<Rightarrow> event \<Rightarrow> 'f session \<Rightarrow> 'f session" where
  "note_fork now ev s =
     (if kind ev = EVENT_PROCESS_FORK
      then upd_engine (emit_topo (emit_process_fork (ss_total s) (ucast (e_addr ev)) (ucast (e_value ev))))
             (s\<lparr>ss_children := register_fork now (ucast (e_addr ev)) (ss_children s)\<rparr>)
      else s)"

text \<open>\<open>Panic\<close>: the index of a region is out of range.\<close>

definition note_shared_write :: "event \<Rightarrow> 'f session \<Rightarrow> 'f session outcome" where
  "note_shared_write ev s =
     (if kind ev = EVENT_WRITE \<and> 0 < child_count (ss_children s)
      then (case is_shared_addr (ss_children s) (e_addr ev) of
              None \<Rightarrow> Panic
            | Some None \<Rightarrow> Value s
            | Some (Some region) \<Rightarrow>
                Value (upd_engine (emit_topo (emit_cross_process_write (ss_total s) (e_thread_id ev) (e_addr ev) (e_size ev) region)) s))
      else Value s)"

definition note_record :: "event \<Rightarrow> 'f session \<Rightarrow> 'f session" where
  "note_record ev s = s\<lparr>ss_recorder := map_option (er_record ev) (ss_recorder s)\<rparr>"

definition live_effects :: "nat \<Rightarrow> event \<Rightarrow> 'f session \<Rightarrow> 'f session outcome" where
  "live_effects now ev s =
     (case note_shared_write ev (note_fork now ev s) of Panic \<Rightarrow> Panic | Value s' \<Rightarrow> Value (note_record ev s'))"

definition JOURNAL_LEN :: nat where "JOURNAL_LEN = 1000"

definition push_journal :: "journal_entry \<Rightarrow> journal_entry list \<Rightarrow> journal_entry list" where
  "push_journal e js = (let js1 = js @ [e] in if JOURNAL_LEN < length js1 then tl js1 else js1)"

definition note_journal :: "bool \<Rightarrow> event \<Rightarrow> 'f session \<Rightarrow> 'f session" where
  "note_journal interesting ev s =
     (if interesting \<and> \<not> is_continuation ev
      then s\<lparr>ss_journal := push_journal
             \<lparr>je_seq = ss_total s, je_kind = kind ev, je_thread_id = e_thread_id ev, je_addr = e_addr ev,
              je_size = e_size ev, je_value = e_value ev\<rparr> (ss_journal s)\<rparr>
      else s)"

definition note_call :: "event \<Rightarrow> 'f session \<Rightarrow> 'f session" where
  "note_call ev s = (if kind ev = EVENT_CALL then s\<lparr>ss_finalize := True\<rparr> else s)"

definition feed_event :: "'f f32_ops \<Rightarrow> nat \<Rightarrow> feed_mode \<Rightarrow> feed_item \<Rightarrow> 'f session \<Rightarrow> 'f session outcome" where
  "feed_event F fuel mode it s =
     (case it of ((mem, now), ev) \<Rightarrow>
        (let s1 = upd_engine (upd_inner inc_insn_counter) (s\<lparr>ss_total := ss_total s + 1\<rparr>);
             s2 = (if mode = Live_Root then check_seq ev s1 else s1)
         in case process_event F fuel mem ev (ss_engine s2) of Panic \<Rightarrow> Panic
            | Value (en, interesting) \<Rightarrow>
                (case (if mode = Replaying then Value (s2\<lparr>ss_engine := en\<rparr>) else live_effects now ev (s2\<lparr>ss_engine := en\<rparr>)) of
                   Panic \<Rightarrow> Panic
                 | Value s3 \<Rightarrow> Value (note_call ev (note_journal interesting ev s3)))))"

text \<open>
  A batch.  A replay hands the rest of the batch to \<open>apply_reg_snapshot\<close>, the live loops seven slots
  of it at most.
\<close>

function process_batch :: "'f f32_ops \<Rightarrow> nat \<Rightarrow> bool \<Rightarrow> feed_mode \<Rightarrow> feed_item list \<Rightarrow> 'f session \<Rightarrow> 'f session outcome" where
  "process_batch F fuel no_bb mode [] s = Value s"
| "process_batch F fuel no_bb mode (it # its) s =
     (if no_bb \<and> kind (snd it) = EVENT_BB_ENTRY then process_batch F fuel no_bb mode its s
      else if kind (snd it) = EVENT_REG_SNAPSHOT then
        (case feed_snapshot mode (map snd (if mode = Replaying then it # its else take 7 (it # its))) s of
           (s', n) \<Rightarrow> process_batch F fuel no_bb mode (drop (n - 1) its) s')
      else
        (case feed_event F fuel mode it s of Panic \<Rightarrow> Panic | Value s' \<Rightarrow> process_batch F fuel no_bb mode its s'))"
  by pat_completeness auto
termination
  by (relation "measure (\<lambda>(_, _, _, _, its, _). length its)") auto

declare process_batch.simps(2) [simp del]


subsection \<open>A round of the live loops\<close>

text \<open>What the rings show during one pass, of the root process and of its children.\<close>

record tick_view =
  tv_obs :: "nat \<Rightarrow> observation"
  tv_child_obs :: "nat \<Rightarrow> nat \<Rightarrow> observation"
  tv_sees :: "nat \<Rightarrow> read_word option \<times> nat"
  tv_child_sees :: "nat \<Rightarrow> read_word option \<times> nat"

definition with_view :: "(nat \<Rightarrow> read_word option \<times> nat) \<Rightarrow> (nat \<times> event) list \<Rightarrow> feed_item list" where
  "with_view sees evs = map (\<lambda>(k, _, ev). (sees k, ev)) (enumerate 0 evs)"

definition upd_orch :: "(ring_orchestrator \<Rightarrow> ring_orchestrator) \<Rightarrow> 'f session \<Rightarrow> 'f session" where
  "upd_orch g = upd_engine (\<lambda>en. en\<lparr>en_orch := g (en_orch en)\<rparr>)"

definition BATCH_LEN :: nat where "BATCH_LEN = 4096"
definition HEADLESS_BUDGET :: nat where "HEADLESS_BUDGET = 500000"
definition TICK_BUDGET :: nat where "TICK_BUDGET = 200000"

text \<open>
  The loop that drains the rings until they are empty or the budget is used.  The terminal interface
  stops when the root process has nothing (\<open>gate\<close>), the headless loop only when the children have
  nothing either.  The result has the number of events drained.
\<close>

function drain_loop ::
  "'f f32_ops \<Rightarrow> nat \<Rightarrow> bool \<Rightarrow> bool \<Rightarrow> nat \<Rightarrow> (nat \<Rightarrow> tick_view) \<Rightarrow> nat \<Rightarrow> nat \<Rightarrow> 'f session \<Rightarrow> ('f session \<times> nat) outcome" where
  "drain_loop F fuel no_bb gate budget views k seen s =
     (if budget \<le> seen then Value (s, seen)
      else
        (case batch_drain (tv_obs (views k)) BATCH_LEN (en_orch (ss_engine s)) of
           (ro, evs) \<Rightarrow>
             (if gate \<and> evs = [] then Value (upd_orch (\<lambda>_. ro) s, seen)
              else
                (case process_batch F fuel no_bb Live_Root (with_view (tv_sees (views k)) evs) (upd_orch (\<lambda>_. ro) s) of
                   Panic \<Rightarrow> Panic
                 | Value s1 \<Rightarrow>
                     (case ct_batch_drain (tv_child_obs (views k)) BATCH_LEN (ss_children s1) of
                        (ct, cevs) \<Rightarrow>
                          (case process_batch F fuel no_bb Live_Child (with_view (tv_child_sees (views k)) cevs)
                                  (s1\<lparr>ss_children := ct\<rparr>) of
                             Panic \<Rightarrow> Panic
                           | Value s2 \<Rightarrow>
                               (if evs = [] \<and> cevs = [] then Value (s2, seen)
                                else drain_loop F fuel no_bb gate budget views (k + 1)
                                       (seen + length evs + length cevs) s2)))))))"
  by pat_completeness auto
termination
  by (relation "measure (\<lambda>(_, _, _, _, budget, _, _, seen, _). budget - seen)")
    (auto intro!: diff_less_mono2 simp flip: length_greater_0_conv)

declare drain_loop.simps [simp del]

definition finalize_index :: "'f session \<Rightarrow> 'f session" where
  "finalize_index s = (if ss_finalize s then upd_engine (\<lambda>en. en\<lparr>en_index := ai_finalize (en_index en)\<rparr>) s else s)"

definition world_ticks :: "'f f32_ops \<Rightarrow> 'f session \<Rightarrow> 'f session" where
  "world_ticks F s =
     (if ss_total s AND 0xFFF = 0
      then upd_engine (upd_world (\<lambda>w. w\<lparr>ws_cache_heat := heat_tick F (ws_cache_heat w),
                                       ws_cl_tracker := cl_tick (ws_cl_tracker w)\<rparr>)) s
      else s)"

definition heap_gc :: "'f session \<Rightarrow> 'f session" where
  "heap_gc s =
     (if ss_total s AND 0xFFFF = 0
      then upd_engine (\<lambda>en. en\<lparr>en_heap := gc_stale (ss_total s) 500000 (en_heap en)\<rparr>) s else s)"

definition relax_backpressure :: "'f session \<Rightarrow> 'f session" where
  "relax_backpressure s = upd_orch update_backpressure (s\<lparr>ss_children := ct_update_backpressure (ss_children s)\<rparr>)"

record 'f loop_state =
  ls_session :: "'f session"
  ls_lib_done :: bool
  ls_scanner :: "warm_scanner option"
  ls_last_reseed :: u64
  ls_idle :: u32

abbreviation ls_engine :: "'f loop_state \<Rightarrow> 'f engine" where "ls_engine ls \<equiv> ss_engine (ls_session ls)"
abbreviation ls_total :: "'f loop_state \<Rightarrow> u64" where "ls_total ls \<equiv> ss_total (ls_session ls)"

definition set_engine :: "'f engine \<Rightarrow> 'f loop_state \<Rightarrow> 'f loop_state" where
  "set_engine en ls = ls\<lparr>ls_session := (ls_session ls)\<lparr>ss_engine := en\<rparr>\<rparr>"

text \<open>The globals of the libraries, once the tracer has written its table of modules.\<close>

definition lib_globals_step :: "module_table \<Rightarrow> 'f loop_state \<Rightarrow> 'f loop_state" where
  "lib_globals_step tab ls =
     (let en = ls_engine ls in
      if \<not> ls_lib_done ls \<and> en_delta en \<noteq> None then
        (case (en_dwarf en, target_pid (en_orch en)) of
           (Some info, Some pid) \<Rightarrow>
             (if di_lib_globals info = [] then ls\<lparr>ls_lib_done := True\<rparr>
              else (case populate_lib_globals tab info en of
                      (en1, ng, nf) \<Rightarrow>
                        (if 0 < ng \<or> 0 < nf then (set_engine en1 ls)\<lparr>ls_lib_done := True\<rparr> else set_engine en1 ls)))
         | _ \<Rightarrow> ls)
      else ls)"

definition WARM_BUDGET :: nat where "WARM_BUDGET = 2000"
definition WARM_DEPTH :: u32 where "WARM_DEPTH = 12"

definition warm_pass :: "read_word \<Rightarrow> nat \<Rightarrow> u64 \<Rightarrow> warm_scanner \<Rightarrow> 'f loop_state \<Rightarrow> 'f loop_state outcome" where
  "warm_pass rd fuel delta sc ls =
     (case warm_seed rd fuel delta (sc, ls_engine ls) of Panic \<Rightarrow> Panic
      | Value st \<Rightarrow>
          (case warm_step rd fuel WARM_BUDGET st of Panic \<Rightarrow> Panic
           | Value (_, sc2, en2) \<Rightarrow> Value ((set_engine en2 ls)\<lparr>ls_scanner := Some sc2, ls_last_reseed := ls_total ls\<rparr>)))"

text \<open>
  The first warm scan needs the memory of the process; when it cannot be opened the program exits,
  which is the result \<open>None\<close>.
\<close>

definition warm_start :: "read_word option \<Rightarrow> nat \<Rightarrow> 'f loop_state \<Rightarrow> 'f loop_state option outcome" where
  "warm_start mem fuel ls =
     (if ls_lib_done ls \<and> ls_scanner ls = None \<and> 100000 < ls_total ls then
        (case (en_dwarf (ls_engine ls), target_pid (en_orch (ls_engine ls)), en_delta (ls_engine ls)) of
           (Some _, Some _, Some delta) \<Rightarrow>
             (case mem of None \<Rightarrow> Value None
              | Some rd \<Rightarrow>
                  (case warm_pass rd fuel delta (wm_new WARM_DEPTH) ls of Panic \<Rightarrow> Panic | Value ls1 \<Rightarrow> Value (Some ls1)))
         | _ \<Rightarrow> Value (Some ls))
      else Value (Some ls))"

definition warm_reseed :: "read_word \<Rightarrow> nat \<Rightarrow> 'f loop_state \<Rightarrow> 'f loop_state outcome" where
  "warm_reseed rd fuel ls =
     (case ls_scanner ls of None \<Rightarrow> Value ls
      | Some sc \<Rightarrow>
          (if en_delta (ls_engine ls) \<noteq> None \<and> ls_last_reseed ls + 200000 \<le> ls_total ls then
             (let ls1 = ls\<lparr>ls_last_reseed := ls_total ls\<rparr> in
              case (en_dwarf (ls_engine ls), target_pid (en_orch (ls_engine ls)), en_delta (ls_engine ls)) of
                (Some _, Some _, Some delta) \<Rightarrow> warm_pass rd fuel delta sc ls1
              | _ \<Rightarrow> Value ls1)
           else Value ls))"


subsection \<open>The end of the headless loop\<close>

datatype idle_action = Finish | Rescue | Wait

definition idle_decision :: "bool \<Rightarrow> bool \<Rightarrow> u64 \<Rightarrow> 'f loop_state \<Rightarrow> idle_action" where
  "idle_decision server gone min_events ls =
     (let idle_limit = (if server then 200 else 50);
          children = child_count (ss_children (ls_session ls));
          armed = (if server then tripwire_hit (en_orch (ls_engine ls)) \<or> 0 < children else min_events \<le> ls_total ls);
          children_alive = server \<and> 0 < children
      in if gone \<or> (\<not> children_alive \<and> armed \<and> idle_limit \<le> ls_idle ls) then Finish
         else if ls_total ls = 0 \<and> gone then Rescue
         else Wait)"

definition sweep_event :: "'f f32_ops \<Rightarrow> nat \<Rightarrow> bool \<Rightarrow> feed_item \<Rightarrow> 'f session \<Rightarrow> 'f session outcome" where
  "sweep_event F fuel no_bb it s =
     (case it of ((mem, _), ev) \<Rightarrow>
        (if no_bb \<and> kind ev = EVENT_BB_ENTRY then Value s
         else
           (let s1 = upd_engine (upd_inner inc_insn_counter) (s\<lparr>ss_total := ss_total s + 1\<rparr>) in
            case process_event F fuel mem ev (ss_engine s1) of Panic \<Rightarrow> Panic
            | Value (en, _) \<Rightarrow> Value (note_record ev (s1\<lparr>ss_engine := en\<rparr>)))))"

fun sweep_batch :: "'f f32_ops \<Rightarrow> nat \<Rightarrow> bool \<Rightarrow> feed_item list \<Rightarrow> 'f session \<Rightarrow> 'f session outcome" where
  "sweep_batch F fuel no_bb [] s = Value s"
| "sweep_batch F fuel no_bb (it # its) s =
     (case sweep_event F fuel no_bb it s of Panic \<Rightarrow> Panic | Value s' \<Rightarrow> sweep_batch F fuel no_bb its s')"

text \<open>
  The last sweep drains until a pass delivers nothing; a producer that still runs could keep it
  going, so it has a bound on the passes, and \<open>None\<close> when they do not suffice.
\<close>

primrec sweep_rings ::
  "nat \<Rightarrow> 'f f32_ops \<Rightarrow> nat \<Rightarrow> bool \<Rightarrow> (nat \<Rightarrow> tick_view) \<Rightarrow> nat \<Rightarrow> 'f session \<Rightarrow> 'f session outcome option" where
  "sweep_rings 0 F fuel no_bb views k s = None"
| "sweep_rings (Suc n) F fuel no_bb views k s =
     (case batch_drain (tv_obs (views k)) BATCH_LEN (en_orch (ss_engine s)) of
        (ro, evs) \<Rightarrow>
          (if evs = [] then Some (Value (upd_orch (\<lambda>_. ro) s))
           else (case sweep_batch F fuel no_bb (with_view (tv_sees (views k)) evs) (upd_orch (\<lambda>_. ro) s) of
                   Panic \<Rightarrow> Some Panic
                 | Value s1 \<Rightarrow> sweep_rings n F fuel no_bb views (k + 1) s1)))"

definition final_sweep ::
  "open_shm \<Rightarrow> nat \<Rightarrow> 'f f32_ops \<Rightarrow> nat \<Rightarrow> bool \<Rightarrow> (nat \<Rightarrow> tick_view) \<Rightarrow> 'f session \<Rightarrow> 'f session outcome option" where
  "final_sweep op n F fuel no_bb views s =
     (case poll_new_rings op (en_orch (ss_engine s)) of None \<Rightarrow> Some Panic
      | Some ro \<Rightarrow> sweep_rings n F fuel no_bb views 0 (upd_orch (\<lambda>_. ro) s))"


subsection \<open>Discovery\<close>

definition discover_step :: "os_view \<Rightarrow> 'f session \<Rightarrow> 'f session outcome" where
  "discover_step v s =
     (case poll_new_rings (ov_open v) (reread_ctl v (en_orch (ss_engine s))) of None \<Rightarrow> Panic
      | Some ro \<Rightarrow>
          (let ct = ss_children s;
               ct1 = (case (ct_root_pid ct, target_pid ro) of (None, Some pid) \<Rightarrow> set_root_pid pid ct | _ \<Rightarrow> ct)
           in case discover v ct1 of None \<Rightarrow> Panic
              | Some ct2 \<Rightarrow> Value ((upd_orch (\<lambda>_. ro) s)\<lparr>ss_children := ct2\<rparr>)))"


subsection \<open>Replay\<close>

definition session_new :: "'f engine \<Rightarrow> event_recorder option \<Rightarrow> 'f session" where
  "session_new en rec = \<lparr>ss_engine = en, ss_total = 0, ss_journal = [], ss_expected = Map.empty, ss_gaps = 0,
     ss_recorder = rec, ss_children = ct_new, ss_finalize = False\<rparr>"

lemma read_batch_consumes:
  "read_batch n p = (p', evs) \<Longrightarrow> length (ep_rest p') + 32 * length evs \<le> length (ep_rest p)"
proof (induction n arbitrary: p p' evs)
  case (Suc n)
  obtain p1 r where e: "next_event p = (p1, r)" by fastforce
  show ?case
  proof (cases r)
    case None
    with Suc.prems e show ?thesis by (auto simp: next_event_def split: if_splits)
  next
    case (Some ev)
    obtain p2 es where b: "read_batch n p1 = (p2, es)" by fastforce
    from Suc.IH [OF this] Suc.prems e Some b show ?thesis
      by (auto simp: next_event_def DISK_EVENT_SIZE_def split: if_splits)
  qed
qed simp

text \<open>A replay has no process to look at.\<close>

definition replay_items :: "event list \<Rightarrow> feed_item list" where
  "replay_items evs = map (Pair (None, 0)) evs"

function replay_loop :: "'f f32_ops \<Rightarrow> nat \<Rightarrow> bool \<Rightarrow> event_player \<Rightarrow> 'f session \<Rightarrow> 'f session outcome" where
  "replay_loop F fuel no_bb p s =
     (case read_batch BATCH_LEN p of
        (p', evs) \<Rightarrow>
          (if evs = [] then Value s
           else
             (case process_batch F fuel no_bb Replaying (replay_items evs) (s\<lparr>ss_finalize := False\<rparr>) of
                Panic \<Rightarrow> Panic
              | Value s1 \<Rightarrow> replay_loop F fuel no_bb p' (heap_gc (world_ticks F (finalize_index s1))))))"
  by pat_completeness auto
termination
proof (relation "measure (\<lambda>(_, _, _, p, _). length (ep_rest p))", goal_cases)
  case (2 F fuel no_bb p s p' evs s1)
  have "length (ep_rest p') + 32 * length evs \<le> length (ep_rest p)" using read_batch_consumes [of BATCH_LEN p p' evs] 2(1) by simp
  with 2(2) show ?case by (cases evs) auto
qed simp

declare replay_loop.simps [simp del]

definition summary_line :: "'f session \<Rightarrow> 'f session" where
  "summary_line s =
     (let en = ss_engine s in
      upd_engine (emit_topo (emit_summary (ss_total s) (length (wi_nodes (inner_of en))) (length (wi_edges (inner_of en)))
        (length (st_map (stm_of en))) (live_count (allocs_of en)) (length (ws_hazards (en_world en))))) s)"

text \<open>The replay of a file; \<open>None\<close> when it cannot be opened.\<close>

definition run_replay ::
  "'f f32_ops \<Rightarrow> nat \<Rightarrow> bool \<Rightarrow> dwarf_info option \<Rightarrow> topology_stream option \<Rightarrow> u8 list \<Rightarrow> 'f session outcome option" where
  "run_replay F fuel no_bb dw topo file =
     (case ep_open file of Inl _ \<Rightarrow> None
      | Inr p \<Rightarrow>
          Some (case replay_loop F fuel no_bb p (session_new (engine_start dw ro_new topo) None) of
                  Panic \<Rightarrow> Panic | Value s \<Rightarrow> Value (summary_line s)))"

end
