(* ===== verification/Engine_Core.thy ===== *)
theory Engine_Core
  imports Engine_Props
begin

text \<open>
  What the topology stream and the orchestrator have to do with the rest of the engine: nothing.
  \<open>engine_core\<close> is the engine without them.  Every operation of the reconciler (\<^verbatim>\<open>engine/src/reconciler.rs\<close>)
  commutes with it: the stream is written, the filter of priority addresses is filled, and neither
  is read.  The replay of a recording, which has neither the stream nor the rings of the run, rests
  on this.
\<close>

subsection \<open>The engine without stream and orchestrator\<close>

definition engine_core :: "'f engine \<Rightarrow> 'f engine" where
  "engine_core en = en\<lparr>en_topo := None, en_orch := ro_new\<rparr>"

text \<open>The rules move \<open>engine_core\<close> outwards.\<close>

lemma core_parts [simp]:
  "en_world (engine_core en) = en_world en" "en_index (engine_core en) = en_index en"
  "en_dwarf (engine_core en) = en_dwarf en" "en_stacks (engine_core en) = en_stacks en"
  "en_next_frame (engine_core en) = en_next_frame en" "en_delta (engine_core en) = en_delta en"
  "en_returned (engine_core en) = en_returned en" "en_regs (engine_core en) = en_regs en"
  "en_heap (engine_core en) = en_heap en" "en_oracle (engine_core en) = en_oracle en"
  "engine_core (engine_core en) = engine_core en"
  by (simp_all add: engine_core_def)

lemma core_updates [simp]:
  "(engine_core en)\<lparr>en_world := w\<rparr> = engine_core (en\<lparr>en_world := w\<rparr>)"
  "(engine_core en)\<lparr>en_index := idx\<rparr> = engine_core (en\<lparr>en_index := idx\<rparr>)"
  "(engine_core en)\<lparr>en_dwarf := dw\<rparr> = engine_core (en\<lparr>en_dwarf := dw\<rparr>)"
  "(engine_core en)\<lparr>en_stacks := sts\<rparr> = engine_core (en\<lparr>en_stacks := sts\<rparr>)"
  "(engine_core en)\<lparr>en_next_frame := nf\<rparr> = engine_core (en\<lparr>en_next_frame := nf\<rparr>)"
  "(engine_core en)\<lparr>en_delta := dl\<rparr> = engine_core (en\<lparr>en_delta := dl\<rparr>)"
  "(engine_core en)\<lparr>en_returned := rt\<rparr> = engine_core (en\<lparr>en_returned := rt\<rparr>)"
  "(engine_core en)\<lparr>en_regs := rgs\<rparr> = engine_core (en\<lparr>en_regs := rgs\<rparr>)"
  "(engine_core en)\<lparr>en_heap := hg\<rparr> = engine_core (en\<lparr>en_heap := hg\<rparr>)"
  "(engine_core en)\<lparr>en_oracle := orc\<rparr> = engine_core (en\<lparr>en_oracle := orc\<rparr>)"
  by (simp_all add: engine_core_def)

lemma core_drops [simp]:
  "engine_core (en\<lparr>en_topo := t\<rparr>) = engine_core en" "engine_core (en\<lparr>en_orch := ro\<rparr>) = engine_core en"
  "engine_core (emit_topo fs en) = engine_core en" "emit_topo fs (engine_core en) = engine_core en"
  "engine_core (insert_bloom a en) = engine_core en" "insert_bloom a (engine_core en) = engine_core en"
  by (simp_all add: engine_core_def emit_topo_def insert_bloom_def bloom_insert_def ro_new_def)

lemma core_basic [simp]:
  "upd_world g (engine_core en) = engine_core (upd_world g en)"
  "upd_inner h (engine_core en) = engine_core (upd_inner h en)"
  "upd_stm k (engine_core en) = engine_core (upd_stm k en)"
  "upd_srf t r (engine_core en) = engine_core (upd_srf t r en)"
  "srf_of t (engine_core en) = srf_of t en" "elf_pc (engine_core en) a = elf_pc en a"
  "stack_of t (engine_core en) = stack_of t en" "registry_of (engine_core en) = registry_of en"
  by (simp_all add: upd_world_def upd_inner_def upd_stm_def upd_srf_def srf_of_def elf_pc_def stack_of_def registry_of_def)

text \<open>A line or a priority address more leaves the other parts as they are.\<close>

lemma emit_parts [simp]:
  "en_world (emit_topo fs en) = en_world en" "en_index (emit_topo fs en) = en_index en"
  "en_dwarf (emit_topo fs en) = en_dwarf en" "en_regs (emit_topo fs en) = en_regs en"
  "en_heap (emit_topo fs en) = en_heap en" "en_oracle (emit_topo fs en) = en_oracle en"
  "en_stacks (emit_topo fs en) = en_stacks en" "en_delta (emit_topo fs en) = en_delta en"
  by (simp_all add: emit_topo_def)

lemma core_cong:
  assumes "engine_core en = engine_core en'"
  shows "en_world en = en_world en'" "en_index en = en_index en'" "en_dwarf en = en_dwarf en'"
    "en_stacks en = en_stacks en'" "en_next_frame en = en_next_frame en'" "en_delta en = en_delta en'"
    "en_returned en = en_returned en'" "en_regs en = en_regs en'" "en_heap en = en_heap en'"
    "en_oracle en = en_oracle en'"
  using assms by (metis core_parts)+

text \<open>Under an operation that commutes with \<open>engine_core\<close> a line more, or an address, makes no difference.\<close>

lemma core_under:
  assumes "\<And>x. f (engine_core x) = engine_core (f x)"
  shows "engine_core (f (emit_topo fs en)) = engine_core (f en)" "engine_core (f (insert_bloom a en)) = engine_core (f en)"
  using assms by (metis core_drops(3), metis core_drops(5))

lemmas core_under_basic [simp] =
  core_under [where f = "upd_world g" for g, OF core_basic(1)]
  core_under [where f = "upd_inner g" for g, OF core_basic(2)]
  core_under [where f = "upd_stm g" for g, OF core_basic(3)]


subsection \<open>The arms of a write\<close>

lemma core_observe [simp]:
  "write_observe ev (engine_core en) = engine_core (write_observe ev en)"
  "write_cohere ev m (engine_core en) = engine_core (write_cohere ev m en)"
  by (simp_all add: write_observe_def write_cohere_def Let_def cong: if_cong split: option.split)

lemma core_covering_parts [simp]:
  "covering_heat ev p (engine_core en) = engine_core (covering_heat ev p en)"
  "covering_link ev p (engine_core en) = engine_core (covering_link ev p en)"
  "covering_stability ev p (engine_core en) = engine_core (covering_stability ev p en)"
  unfolding covering_heat_def covering_link_def covering_stability_def Let_def
  by (simp, simp split: option.split, simp split: prod.split)

lemma core_covering [simp]: "write_covering ev (engine_core en) = engine_core (write_covering ev en)"
  by (simp add: write_covering_def split: option.split)

lemma core_scan [simp]:
  "scan_from a sq mem reg (engine_core en) = engine_core (scan_from a sq mem reg en)"
  "emit_stamp_of sq a ti src (engine_core en) = engine_core (emit_stamp_of sq a ti src en)"
  "settle_stamp a ti src sq mem (engine_core en) = engine_core (settle_stamp a ti src sq mem en)"
  by (simp_all add: scan_from_def emit_stamp_of_def settle_stamp_def Let_def)

lemmas core_under_settle [simp] =
  core_under [where f = "settle_stamp a ti src sq mem" for a ti src sq mem, OF core_scan(3)]

lemma core_deepen [simp]: "deepen_stamp v sq info (engine_core en) = engine_core (deepen_stamp v sq info en)"
  by (simp add: deepen_stamp_def Let_def split: option.split)

lemma core_follow [simp]: "follow_stamp v sq mem info (engine_core en) = engine_core (follow_stamp v sq mem info en)"
  by (simp add: follow_stamp_def Let_def split: option.split)

lemma core_propagate [simp]: "write_propagate ev mem (engine_core en) = engine_core (write_propagate ev mem en)"
  by (simp add: write_propagate_def Let_def split: option.split prod.split)

lemma core_hazard [simp]: "write_hazard ev (engine_core en) = engine_core (write_hazard ev en)"
  by (simp add: write_hazard_def Let_def split: option.split)

lemma core_heap [simp]: "write_heap F ev mem (engine_core en) = map_outcome engine_core (write_heap F ev mem en)"
  by (simp add: write_heap_def split: outcome.split)

lemma core_find [simp]: "find_node a (engine_core en) = map_prod engine_core id (find_node a en)"
  by (simp add: find_node_def split: prod.split)

lemma core_result [simp]:
  "note_result res a nt src sq (engine_core en) = engine_core (note_result res a nt src sq en)"
  by (simp add: note_result_def note_change_def Let_def split: stamp_result.split option.split)

lemma core_pointee [simp]:
  "stamp_pointee fuel ev mem h (engine_core en) = map_outcome engine_core (stamp_pointee fuel ev mem h en)"
proof (cases "en_dwarf en")
  case (Some info)
  define info1 where "info1 = ensure_in (pointee_name (lr_type_info h)) info"
  show ?thesis
    unfolding stamp_pointee_def core_parts Some option.case Let_def info1_def [symmetric]
    by (simp split: option.split prod.split)
qed (simp add: stamp_pointee_def)

lemma core_pointer [simp]:
  "write_pointer fuel ev mem h (engine_core en) = map_outcome engine_core (write_pointer fuel ev mem h en)"
proof -
  have "upd_inner g (fst (if v = 0 then (engine_core en, None) else find_node v (engine_core en))) =
      engine_core (upd_inner g (fst (if v = 0 then (en, None) else find_node v en)))" for g v
    by simp
  moreover have "snd (if v = 0 then (engine_core en, None) else find_node v (engine_core en)) =
      snd (if v = 0 then (en, None) else find_node v en)" for v
    by simp
  ultimately show ?thesis
    unfolding write_pointer_def Let_def by (simp split: outcome.split)
qed

lemma core_node [simp]:
  "write_node fuel ev mem (engine_core en) = map_outcome (map_prod engine_core id) (write_node fuel ev mem en)"
proof (cases "find_node (e_addr ev) en")
  case (Pair en1 r)
  then show ?thesis
    unfolding write_node_def core_find Pair by (simp add: Let_def split: option.split outcome.split)
qed

lemma core_write [simp]:
  "on_event_write F fuel ev mem (engine_core en) = map_outcome (map_prod engine_core id) (on_event_write F fuel ev mem en)"
  by (simp add: on_event_write_def split: prod.split outcome.split)


subsection \<open>The other arms\<close>

lemma core_call [simp]: "on_event_call ev (engine_core en) = map_outcome engine_core (on_event_call ev en)"
  by (simp add: on_event_call_def enter_function_def Let_def split: option.split outcome.split)

lemma core_return [simp]: "on_event_return ev (engine_core en) = engine_core (on_event_return ev en)"
  by (simp add: on_event_return_def leave_frame_def Let_def split: option.split prod.split)

lemma core_close [simp]:
  "close_typed a sz p sq r n (engine_core en) = engine_core (close_typed a sz p sq r n en)"
  "close_if_typed a sz sq r n (engine_core en) = engine_core (close_if_typed a sz sq r n en)"
  "forget_heap a sz (engine_core en) = engine_core (forget_heap a sz en)"
  "purge_block a sz (engine_core en) = engine_core (purge_block a sz en)"
  by (simp_all add: close_typed_def close_if_typed_def forget_heap_def purge_block_def split: option.split)

lemma core_blooms: "fold (\<lambda>f. insert_bloom (g f)) fs (engine_core en) = engine_core en"
  by (induction fs) simp_all

lemma core_blooms_drop: "engine_core (fold (\<lambda>f. insert_bloom (g f)) fs en) = engine_core en"
  by (induction fs arbitrary: en) simp_all

lemma core_settle_blooms:
  "engine_core (settle_stamp a ti src sq mem (fold (\<lambda>f. insert_bloom (g f)) fs en)) =
     engine_core (settle_stamp a ti src sq mem en)"
  by (metis core_scan(3) core_blooms_drop)

lemma core_birth [simp]:
  "stamp_at_birth fuel ev mem sz pcs info (engine_core en) = map_outcome engine_core (stamp_at_birth fuel ev mem sz pcs info en)"
  by (simp add: stamp_at_birth_def Let_def core_blooms core_settle_blooms split: option.split prod.split)

lemma core_track [simp]: "track_alloc ev sz (engine_core en) = engine_core (track_alloc ev sz en)"
  by (simp add: track_alloc_def Let_def split: option.split)

lemma core_alloc [simp]:
  "on_event_alloc fuel ev mem (engine_core en) = map_outcome engine_core (on_event_alloc fuel ev mem en)"
  by (simp add: on_event_alloc_def Let_def split: option.split)

lemma core_free [simp]: "on_event_free ev (engine_core en) = engine_core (on_event_free ev en)"
  by (simp add: on_event_free_def Let_def split: option.split)

lemma core_read [simp]:
  "on_event_read ev (engine_core en) = engine_core (on_event_read ev en)"
  "on_event_reload ev (engine_core en) = engine_core (on_event_reload ev en)"
  by (simp_all add: on_event_read_def on_event_reload_def Let_def split: option.split)

lemma core_miss [simp]: "on_event_cache_miss F ev (engine_core en) = engine_core (on_event_cache_miss F ev en)"
  by (simp add: on_event_cache_miss_def split: prod.split option.split)

lemma core_populate [simp]: "populate_globals info d (engine_core en) = engine_core (populate_globals info d en)"
  by (simp add: populate_globals_def split: prod.split)

lemma core_module [simp]: "on_event_module_load ev (engine_core en) = engine_core (on_event_module_load ev en)"
  by (simp add: on_event_module_load_def Let_def split: option.split)

lemma core_handled [simp]:
  "handled (engine_core en) = map_outcome (map_prod engine_core id) (handled en)"
  "handled_if (map_outcome engine_core r) = map_outcome (map_prod engine_core id) (handled_if r)"
  by (simp add: handled_def) (cases r; simp)

lemma process_event_core:
  "process_event F fuel mem ev (engine_core en) = map_outcome (map_prod engine_core id) (process_event F fuel mem ev en)"
proof -
  have step: "(if b then x else y) = map_outcome h (if b then x' else y')"
    if "x = map_outcome h x'" "y = map_outcome h y'" for b x y x' y' and h :: "'a engine \<times> bool \<Rightarrow> 'a engine \<times> bool"
    using that by simp
  show ?thesis
    unfolding process_event_def Let_def core_basic by (intro step) simp_all
qed

lemma apply_snapshot_core:
  "apply_reg_snapshot evs (engine_core en) = map_prod engine_core id (apply_reg_snapshot evs en)"
  by (simp add: apply_reg_snapshot_def Let_def)

text \<open>Engines that agree but for the observers still do after the same operation.\<close>

lemma core_cong_upd:
  assumes "engine_core en = engine_core en'"
  shows "engine_core (upd_world g en) = engine_core (upd_world g en')"
    "engine_core (upd_inner h en) = engine_core (upd_inner h en')"
    "engine_core (en\<lparr>en_index := k (en_index en)\<rparr>) = engine_core (en'\<lparr>en_index := k (en_index en')\<rparr>)"
    "engine_core (en\<lparr>en_heap := j (en_heap en)\<rparr>) = engine_core (en'\<lparr>en_heap := j (en_heap en')\<rparr>)"
  using assms core_basic(1,2) core_updates(2,9) core_cong(2,9) [OF assms] by metis+

lemma event_core_cong:
  assumes "engine_core en = engine_core en'" "process_event F fuel mem ev en = Value (e1, b)"
  shows "\<exists>e2. process_event F fuel mem ev en' = Value (e2, b) \<and> engine_core e2 = engine_core e1"
proof -
  have "map_outcome (map_prod engine_core id) (process_event F fuel mem ev en') = Value (engine_core e1, b)"
    using assms(2) process_event_core [of F fuel mem ev en] process_event_core [of F fuel mem ev en'] assms(1) by simp
  then show ?thesis by (cases "process_event F fuel mem ev en'") auto
qed

lemma snapshot_core_cong:
  assumes "engine_core en = engine_core en'" "apply_reg_snapshot evs en = (e1, k)"
  shows "\<exists>e2. apply_reg_snapshot evs en' = (e2, k) \<and> engine_core e2 = engine_core e1"
  using assms apply_snapshot_core [of evs en] apply_snapshot_core [of evs en'] by (cases "apply_reg_snapshot evs en'") simp

lemma run_events_core:
  "run_events F fuel evs (engine_core en) = map_outcome engine_core (run_events F fuel evs en)"
proof (induction evs arbitrary: en)
  case (Cons e evs)
  obtain mem ev where "e = (mem, ev)" by (cases e)
  with Cons.IH show ?case by (simp add: process_event_core split: outcome.split prod.split)
qed simp

lemma start_core:
  "engine_core (engine_start dw ro topo :: 'f engine) = engine_core (engine_start dw ro' topo')"
proof -
  have new: "engine_core (engine_new d ro topo :: 'f engine) = engine_core (engine_new d ro' topo')" for d
    by (simp add: engine_core_def engine_new_def)
  show ?thesis
  proof (cases dw)
    case (Some info)
    define en where "en = (engine_new dw ro topo :: 'f engine)"
    define en' where "en' = (engine_new dw ro' topo' :: 'f engine)"
    have "engine_core (populate_globals info 0 en) = engine_core (populate_globals info 0 en')"
      using new [of dw] core_populate [of info 0 en] core_populate [of info 0 en'] by (simp add: en_def en'_def)
    then have "engine_core ((populate_globals info 0 en)\<lparr>en_heap := h (en_heap (populate_globals info 0 en))\<rparr>) =
        engine_core ((populate_globals info 0 en')\<lparr>en_heap := h (en_heap (populate_globals info 0 en'))\<rparr>)" for h
      by (rule core_cong_upd)
    then show ?thesis by (simp add: engine_start_def Some Let_def en_def en'_def)
  qed (simp add: engine_start_def new)
qed

text \<open>
  C26 (equivalence).  The observers do not disturb: whatever topology stream is written and whatever
  orchestrator the filter of priority addresses is written to, every history of events has the same
  outcome, a panic in the same cases and otherwise the same engine in all its other parts, and every
  event is judged interesting or not alike.
\<close>

theorem observers_do_not_disturb:
  "map_outcome engine_core (run_events F fuel evs (en\<lparr>en_topo := topo, en_orch := ro\<rparr>)) =
     map_outcome engine_core (run_events F fuel evs en) \<and>
   map_outcome snd (process_event F fuel mem ev (en\<lparr>en_topo := topo, en_orch := ro\<rparr>)) =
     map_outcome snd (process_event F fuel mem ev en)"
proof
  have e: "engine_core (en\<lparr>en_topo := topo, en_orch := ro\<rparr>) = engine_core en" by simp
  show "map_outcome engine_core (run_events F fuel evs (en\<lparr>en_topo := topo, en_orch := ro\<rparr>)) =
     map_outcome engine_core (run_events F fuel evs en)"
    unfolding run_events_core [symmetric] e ..
  have "map_outcome snd (map_outcome (map_prod engine_core id) r) = map_outcome snd r" for r :: "('a engine \<times> bool) outcome"
    by (cases r) auto
  then show "map_outcome snd (process_event F fuel mem ev (en\<lparr>en_topo := topo, en_orch := ro\<rparr>)) =
     map_outcome snd (process_event F fuel mem ev en)"
    using process_event_core [of F fuel mem ev] e by metis
qed

end
