(* ===== verification/Loop_Props.thy ===== *)
theory Loop_Props
  imports Event_Loop Engine_Core
begin

text \<open>
  What the loops around the engine do: batches are processed to the end and keep the engine's
  invariant; two batches compose to one unless a register snapshot is cut (what a loop does at the
  end of a batch aside); a replay returns; and the replay of a recording rebuilds the state of the
  run that made it, round for round.
\<close>

subsection \<open>Batches are processed to the end\<close>

definition session_ok :: "nat \<Rightarrow> frame_id \<Rightarrow> 'f session \<Rightarrow> bool" where
  "session_ok fuel n s \<longleftrightarrow> good fuel n (ss_engine s) \<and> ct_inv (ss_children s) \<and> length (ss_journal s) \<le> JOURNAL_LEN"

lemma upd_engine_fields [simp]:
  "ss_engine (upd_engine g s) = g (ss_engine s)" "ss_total (upd_engine g s) = ss_total s"
  "ss_journal (upd_engine g s) = ss_journal s" "ss_recorder (upd_engine g s) = ss_recorder s"
  "ss_children (upd_engine g s) = ss_children s" "ss_finalize (upd_engine g s) = ss_finalize s"
  by (simp_all add: upd_engine_def)

lemma check_seq_fields [simp]:
  "ss_total (check_seq ev s) = ss_total s" "ss_journal (check_seq ev s) = ss_journal s"
  "ss_recorder (check_seq ev s) = ss_recorder s" "ss_children (check_seq ev s) = ss_children s"
  by (simp_all add: check_seq_def Let_def)

lemma check_seq_engine: "\<exists>fs. ss_engine (check_seq ev s) = ss_engine s \<or> ss_engine (check_seq ev s) = emit_topo fs (ss_engine s)"
  by (auto simp: check_seq_def Let_def)

lemma good_topo: "good fuel n en \<Longrightarrow> good fuel n (emit_topo fs en)"
  by (rule good_quiet [OF quiet_topo])

lemma session_ok_check: "session_ok fuel n s \<Longrightarrow> session_ok fuel n (check_seq ev s)"
  using check_seq_engine [of ev s] good_topo by (auto simp: session_ok_def)

lemma session_ok_insn: "session_ok fuel n s \<Longrightarrow> session_ok fuel n (upd_engine (upd_inner inc_insn_counter) s)"
  by (simp add: session_ok_def good_insn)

lemma session_ok_fields [simp]:
  "session_ok fuel n (s\<lparr>ss_total := t\<rparr>) = session_ok fuel n s"
  "session_ok fuel n (s\<lparr>ss_recorder := r\<rparr>) = session_ok fuel n s"
  "session_ok fuel n (s\<lparr>ss_finalize := b\<rparr>) = session_ok fuel n s"
  by (simp_all add: session_ok_def)

lemma good_snapshot:
  assumes "good fuel n en"
  shows "good fuel n (fst (apply_reg_snapshot evs en))"
proof -
  have i: "good fuel n (upd_inner (update_regs regs pc) en)" for regs pc
    using assms by (subst upd_inner_const, intro good_inner)
      (simp_all add: graph_inv_other good_graph, simp add: node_exists_def update_regs_def)
  have q: "quiet fuel e (upd_srf t (rf_apply_snapshot regs s pc) e)" for e :: "'a engine" and t regs s pc
    using rf_wf_apply [of _ "O_snapshot regs s pc"] by (intro quiet_srf) simp
  show ?thesis
    using assms good_quiet [OF q i] by (simp add: apply_reg_snapshot_def Let_def)
qed

lemma feed_snapshot_spec:
  assumes "session_ok fuel n s" "feed_snapshot mode evs s = (s', k)"
  shows "session_ok fuel n s' \<and> ss_total s' = ss_total s + of_nat k \<and> k = max (snd (apply_reg_snapshot evs (ss_engine s))) 1"
proof -
  have "good fuel n (fst (apply_reg_snapshot evs (ss_engine s)))"
    using assms(1) good_snapshot by (auto simp: session_ok_def)
  then have "session_ok fuel n (s\<lparr>ss_engine := fst (apply_reg_snapshot evs (ss_engine s))\<rparr>)"
    using assms(1) by (simp add: session_ok_def)
  then show ?thesis
    using assms(2) by (auto simp: feed_snapshot_def Let_def session_ok_insn session_ok_check split: prod.splits if_splits)
qed

lemma live_effects_spec:
  assumes "session_ok fuel n s"
  shows "\<exists>s'. live_effects now ev s = Value s' \<and> session_ok fuel n s' \<and> ss_total s' = ss_total s"
proof -
  let ?s = "note_fork now ev s"
  have f: "session_ok fuel n ?s" "ss_total ?s = ss_total s"
    using assms by (simp_all add: note_fork_def session_ok_def good_topo ct_inv_register)
  obtain r where r: "is_shared_addr (ss_children ?s) (e_addr ev) = Some r"
    using is_shared_addr_spec [of "ss_children ?s" "e_addr ev"] f(1) by (auto simp: session_ok_def)
  have "\<exists>s'. note_shared_write ev ?s = Value s' \<and> session_ok fuel n s' \<and> ss_total s' = ss_total s"
    using f by (cases r) (simp_all add: note_shared_write_def r session_ok_def good_topo)
  then show ?thesis by (auto simp: live_effects_def note_record_def)
qed

lemma push_journal_length: "length js \<le> JOURNAL_LEN \<Longrightarrow> length (push_journal e js) \<le> JOURNAL_LEN"
  by (simp add: push_journal_def Let_def)

lemma session_ok_notes:
  assumes "session_ok fuel n s"
  shows "session_ok fuel n (note_call ev (note_journal b ev s)) \<and> ss_total (note_call ev (note_journal b ev s)) = ss_total s"
  using assms push_journal_length by (simp add: note_call_def note_journal_def session_ok_def)

lemma feed_event_spec:
  assumes "session_ok fuel n s" "unat n + 1 < 2 ^ 64"
  shows "\<exists>s' n'. feed_event F fuel mode it s = Value s' \<and> session_ok fuel n' s' \<and> unat n' \<le> unat n + 1 \<and> ss_total s' = ss_total s + 1"
proof -
  obtain mem now ev where it: "it = ((mem, now), ev)" by (metis surj_pair)
  define s1 where "s1 = upd_engine (upd_inner inc_insn_counter) (s\<lparr>ss_total := ss_total s + 1\<rparr>)"
  define s2 where "s2 = (if mode = Live_Root then check_seq ev s1 else s1)"
  have "session_ok fuel n s1" "ss_total s1 = ss_total s + 1" using assms(1) by (simp_all add: s1_def session_ok_insn)
  then have s2: "session_ok fuel n s2" "ss_total s2 = ss_total s + 1" by (simp_all add: s2_def session_ok_check)
  then have "good fuel n (ss_engine s2)" by (simp add: session_ok_def)
  from process_event_spec [OF this assms(2), of F mem ev] obtain en b n' where
    p: "process_event F fuel mem ev (ss_engine s2) = Value (en, b)" "good fuel n' en" "unat n' \<le> unat n + 1" by blast
  then have s3: "session_ok fuel n' (s2\<lparr>ss_engine := en\<rparr>)" using s2 by (simp add: session_ok_def)
  obtain s4 where s4: "(if mode = Replaying then Value (s2\<lparr>ss_engine := en\<rparr>) else live_effects now ev (s2\<lparr>ss_engine := en\<rparr>)) = Value s4"
    "session_ok fuel n' s4" "ss_total s4 = ss_total s + 1"
    using live_effects_spec [OF s3, of now ev] s3 s2(2) by (cases "mode = Replaying") auto
  have "feed_event F fuel mode it s = Value (note_call ev (note_journal b ev s4))"
    unfolding feed_event_def it split_conv Let_def s1_def [symmetric] s2_def [symmetric] p(1) outcome.case s4(1) ..
  with session_ok_notes [OF s4(2), of ev b] s4(3) p(3) show ?thesis by auto
qed

text \<open>The events that count: basic blocks do not when they are switched off.\<close>

definition counted :: "bool \<Rightarrow> feed_item \<Rightarrow> bool" where
  "counted no_bb it \<longleftrightarrow> \<not> (no_bb \<and> kind (snd it) = EVENT_BB_ENTRY)"

lemma apply_count:
  "snd (apply_reg_snapshot (e # evs) en) = k \<Longrightarrow> max k 1 \<noteq> 1 \<Longrightarrow>
     k = 7 \<and> 6 \<le> length evs \<and> list_all (\<lambda>c. kind c = EVENT_REG_SNAPSHOT) (take 6 evs)"
  by (auto simp: apply_reg_snapshot_def Let_def split: if_splits)

lemma count_snapshot:
  assumes "6 \<le> length its" "list_all (\<lambda>c. kind c = EVENT_REG_SNAPSHOT) (take 6 (map snd its))"
  shows "length (filter (counted no_bb) its) = 6 + length (filter (counted no_bb) (drop 6 its))"
proof -
  have "filter (counted no_bb) (take 6 its) = take 6 its"
    using assms(2) by (intro filter_True) (auto simp: counted_def kind_names list_all_iff take_map)
  then have "length (filter (counted no_bb) (take 6 its)) = 6" using assms(1) by simp
  moreover have "filter (counted no_bb) its = filter (counted no_bb) (take 6 its) @ filter (counted no_bb) (drop 6 its)"
    by (metis append_take_drop_id filter_append)
  ultimately show ?thesis by simp
qed

lemma take_take_six: "take 6 (tl (take 7 (x # xs))) = take 6 xs"
  by simp

lemma process_batch_spec:
  assumes "session_ok fuel n s" "unat n + length its < 2 ^ 64"
  shows "\<exists>s' n'. process_batch F fuel no_bb mode its s = Value s' \<and> session_ok fuel n' s' \<and>
     unat n' \<le> unat n + length its \<and> ss_total s' = ss_total s + of_nat (length (filter (counted no_bb) its))"
  using assms
proof (induction its arbitrary: s n rule: length_induct)
  case (1 its)
  note IH = "1.IH" and prems = "1.prems"
  show ?case
  proof (cases its)
    case Nil
    with prems show ?thesis by auto
  next
    case (Cons it rest)
    have IHr: "\<exists>s' n'. process_batch F fuel no_bb mode xs s0 = Value s' \<and> session_ok fuel n' s' \<and>
        unat n' \<le> unat n0 + length xs \<and> ss_total s' = ss_total s0 + of_nat (length (filter (counted no_bb) xs))"
      if "length xs \<le> length rest" "session_ok fuel n0 s0" "unat n0 + length xs < 2 ^ 64" for xs s0 n0
      using IH that Cons by simp
    consider (bb) "no_bb \<and> kind (snd it) = EVENT_BB_ENTRY" | (snap) "\<not> (no_bb \<and> kind (snd it) = EVENT_BB_ENTRY)" "kind (snd it) = EVENT_REG_SNAPSHOT"
      | (other) "\<not> (no_bb \<and> kind (snd it) = EVENT_BB_ENTRY)" "kind (snd it) \<noteq> EVENT_REG_SNAPSHOT" by blast
    then show ?thesis
    proof cases
      case bb
      then have "\<not> counted no_bb it" by (simp add: counted_def)
      moreover have "unat n + length rest < 2 ^ 64" using prems(2) by (simp add: Cons)
      from IHr [OF le_refl prems(1) this] obtain s' n' where
        "process_batch F fuel no_bb mode rest s = Value s'" "session_ok fuel n' s'" "unat n' \<le> unat n + length rest"
        "ss_total s' = ss_total s + of_nat (length (filter (counted no_bb) rest))" by blast
      ultimately show ?thesis using bb
        by (intro exI [of _ s'] exI [of _ n']) (simp add: Cons process_batch.simps(2))
    next
      case snap
      define evs where "evs = map snd (if mode = Replaying then it # rest else take 7 (it # rest))"
      obtain s1 k where f: "feed_snapshot mode evs s = (s1, k)" by fastforce
      from feed_snapshot_spec [OF prems(1) f] have
        s1: "session_ok fuel n s1" "ss_total s1 = ss_total s + of_nat k" "k = max (snd (apply_reg_snapshot evs (ss_engine s))) 1" by simp_all
      have run: "process_batch F fuel no_bb mode its s = process_batch F fuel no_bb mode (drop (k - 1) rest) s1"
        unfolding Cons process_batch.simps(2) if_not_P [OF snap(1)] if_P [OF snap(2)] evs_def [symmetric] f split_conv ..
      have c: "counted no_bb it" using snap by (simp add: counted_def)
      have cnt: "k + length (filter (counted no_bb) (drop (k - 1) rest)) = Suc (length (filter (counted no_bb) rest))"
      proof (cases "k = 1")
        case False
        define tl' where "tl' = (if mode = Replaying then map snd rest else take 6 (map snd rest))"
        have e: "evs = snd it # tl'" by (simp add: evs_def tl'_def take_map)
        have "k = 7 \<and> 6 \<le> length tl' \<and> list_all (\<lambda>c. kind c = EVENT_REG_SNAPSHOT) (take 6 tl')"
          using apply_count [of "snd it" tl' "ss_engine s" "snd (apply_reg_snapshot evs (ss_engine s))"] s1(3) False by (auto simp: e)
        then have "k = 7" "6 \<le> length rest" "list_all (\<lambda>c. kind c = EVENT_REG_SNAPSHOT) (take 6 (map snd rest))"
          by (auto simp: tl'_def split: if_splits)
        with count_snapshot [OF this(2,3), of no_bb] show ?thesis by simp
      qed simp
      have "length (drop (k - 1) rest) \<le> length rest" "unat n + length (drop (k - 1) rest) < 2 ^ 64"
        using prems(2) by (simp_all add: Cons)
      from IHr [OF this(1) s1(1) this(2)] obtain s' n' where
        r: "process_batch F fuel no_bb mode (drop (k - 1) rest) s1 = Value s'" "session_ok fuel n' s'"
          "unat n' \<le> unat n + length (drop (k - 1) rest)"
          "ss_total s' = ss_total s1 + of_nat (length (filter (counted no_bb) (drop (k - 1) rest)))" by blast
      have "ss_total s' = ss_total s + of_nat (k + length (filter (counted no_bb) (drop (k - 1) rest)))"
        using r(4) s1(2) by simp
      then have "ss_total s' = ss_total s + of_nat (length (filter (counted no_bb) its))" unfolding cnt using c by (simp add: Cons)
      moreover have "unat n' \<le> unat n + length its" using r(3) by (simp add: Cons)
      ultimately show ?thesis using r(1,2) run by auto
    next
      case other
      have "unat n + 1 < 2 ^ 64" using prems(2) by (simp add: Cons)
      from feed_event_spec [OF prems(1) this, of F mode it] obtain s1 n1 where
        f: "feed_event F fuel mode it s = Value s1" "session_ok fuel n1 s1" "unat n1 \<le> unat n + 1" "ss_total s1 = ss_total s + 1" by blast
      have "unat n1 + length rest < 2 ^ 64" using f(3) prems(2) by (simp add: Cons)
      from IHr [OF le_refl f(2) this] obtain s' n' where
        "process_batch F fuel no_bb mode rest s1 = Value s'" "session_ok fuel n' s'" "unat n' \<le> unat n1 + length rest"
        "ss_total s' = ss_total s1 + of_nat (length (filter (counted no_bb) rest))" by blast
      moreover have "counted no_bb it" using other(1) by (simp add: counted_def)
      ultimately show ?thesis using f(3,4)
        unfolding Cons process_batch.simps(2) if_not_P [OF other(1)] if_not_P [OF other(2)] f(1) outcome.case
        by (intro exI [of _ s'] exI [of _ n']) simp
    qed
  qed
qed


subsection \<open>How a stream is cut into batches\<close>

text \<open>No register snapshot is cut: behind each header there are its six slots.\<close>

function whole_runs :: "feed_item list \<Rightarrow> bool" where
  "whole_runs [] \<longleftrightarrow> True"
| "whole_runs (it # its) \<longleftrightarrow>
     (if kind (snd it) = EVENT_REG_SNAPSHOT
      then 6 \<le> length its \<and> list_all (\<lambda>c. kind (snd c) = EVENT_REG_SNAPSHOT) (take 6 its) \<and> whole_runs (drop 6 its)
      else whole_runs its)"
  by pat_completeness auto
termination
  by (relation "measure length") auto

declare whole_runs.simps(2) [simp del]

lemma apply_take7: "apply_reg_snapshot (take 7 evs) en = apply_reg_snapshot evs en"
proof (cases evs)
  case (Cons e es)
  then show ?thesis by (simp add: apply_reg_snapshot_def)
qed simp

lemma feed_snapshot_take7: "feed_snapshot mode (take 7 evs) s = feed_snapshot mode evs s"
  unfolding feed_snapshot_def apply_take7 by (cases evs) simp_all

text \<open>The slots handed to \<open>apply_reg_snapshot\<close> in the three modes do not make a difference.\<close>

lemma process_batch_cons:
  "process_batch F fuel no_bb mode (it # its) s =
     (if no_bb \<and> kind (snd it) = EVENT_BB_ENTRY then process_batch F fuel no_bb mode its s
      else if kind (snd it) = EVENT_REG_SNAPSHOT then
        (case feed_snapshot mode (take 7 (snd it # map snd its)) s of
           (s', n) \<Rightarrow> process_batch F fuel no_bb mode (drop (n - 1) its) s')
      else
        (case feed_event F fuel mode it s of Panic \<Rightarrow> Panic | Value s' \<Rightarrow> process_batch F fuel no_bb mode its s'))"
proof -
  have "feed_snapshot mode (map snd (if mode = Replaying then it # its else take 7 (it # its))) s =
      feed_snapshot mode (take 7 (snd it # map snd its)) s"
    unfolding feed_snapshot_take7 using take_map [of 7 snd "it # its"] feed_snapshot_take7 [of mode "map snd (it # its)" s]
    by (cases "mode = Replaying") (simp_all only: if_True if_False list.map simp_thms)
  then show ?thesis by (simp add: process_batch.simps(2))
qed

lemma whole_snapshot:
  assumes "kind (snd it) = EVENT_REG_SNAPSHOT" "6 \<le> length its" "list_all (\<lambda>c. kind (snd c) = EVENT_REG_SNAPSHOT) (take 6 its)"
  shows "\<exists>s'. feed_snapshot mode (take 7 (snd it # map snd its)) s = (s', 7)"
proof -
  have "list_all (\<lambda>c. kind c = EVENT_REG_SNAPSHOT) (take 6 (map snd its))"
    using assms(3) by (simp add: take_map list_all_iff)
  then have "snd (apply_reg_snapshot (take 7 (snd it # map snd its)) en) = 7" for en
    unfolding apply_take7 using assms(1,2) by (simp add: apply_reg_snapshot_def Let_def)
  from this [of "ss_engine s"] obtain en where "apply_reg_snapshot (take 7 (snd it # map snd its)) (ss_engine s) = (en, 7)"
    by (metis prod.collapse)
  then show ?thesis unfolding feed_snapshot_def Let_def by simp
qed

lemma demo_kinds:
  "kind (demo_event 7 0x10000 0x20000) = 7" "kind (demo_event 9 0x900000 16) = 9" "kind (demo_event 2 0x11000 0x7000) = 2"
  "kind (demo_event 0 0x14000 0x900000) = 0" "kind (demo_event 3 0 0) = 3" "kind (demo_event 10 0x900000 0) = 10"
  "kind (demo_event 200 0 0) = 200" "kind (demo_event 5 0x10 0x20) = 5"
  by code_simp+

text \<open>
  Two batches one after the other have the effect of one batch, panics included, when the first
  ends between two runs.  What a loop does between two of its rounds is not part of this.
\<close>

lemma batch_boundaries:
  assumes "whole_runs xs"
  shows "process_batch F fuel no_bb mode (xs @ ys) s =
    (case process_batch F fuel no_bb mode xs s of Panic \<Rightarrow> Panic | Value s' \<Rightarrow> process_batch F fuel no_bb mode ys s')"
  using assms
proof (induction xs arbitrary: s rule: length_induct)
  case (1 xs)
  show ?case
  proof (cases xs)
    case (Cons it its)
    have IH: "whole_runs zs \<Longrightarrow> length zs \<le> length its \<Longrightarrow> process_batch F fuel no_bb mode (zs @ ys) s0 =
        (case process_batch F fuel no_bb mode zs s0 of Panic \<Rightarrow> Panic | Value s' \<Rightarrow> process_batch F fuel no_bb mode ys s')" for zs s0
      using "1.IH" Cons by simp
    consider (bb) "no_bb \<and> kind (snd it) = EVENT_BB_ENTRY" "kind (snd it) \<noteq> EVENT_REG_SNAPSHOT"
      | (snap) "\<not> (no_bb \<and> kind (snd it) = EVENT_BB_ENTRY)" "kind (snd it) = EVENT_REG_SNAPSHOT"
      | (other) "\<not> (no_bb \<and> kind (snd it) = EVENT_BB_ENTRY)" "kind (snd it) \<noteq> EVENT_REG_SNAPSHOT"
      by (auto simp: kind_names)
    then show ?thesis
    proof cases
      case bb
      with "1.prems" have "whole_runs its" by (simp add: Cons whole_runs.simps(2))
      from IH [OF this] bb show ?thesis by (simp add: Cons process_batch_cons)
    next
      case snap
      with "1.prems" have w: "6 \<le> length its" "list_all (\<lambda>c. kind (snd c) = EVENT_REG_SNAPSHOT) (take 6 its)" "whole_runs (drop 6 its)"
        by (simp_all add: Cons whole_runs.simps(2))
      from whole_snapshot [OF snap(2) w(1,2), of mode s] obtain s1 where
        f: "feed_snapshot mode (take 7 (snd it # map snd its)) s = (s1, 7)" by blast
      have "take 7 (snd it # map snd (its @ ys)) = take 7 (snd it # map snd its)" using w(1) by simp
      with f have f': "feed_snapshot mode (take 7 (snd it # map snd (its @ ys))) s = (s1, 7)" by (simp only:)
      have "drop 6 (its @ ys) = drop 6 its @ ys" using w(1) by simp
      with IH [OF w(3)] show ?thesis
        unfolding Cons append_Cons process_batch_cons if_not_P [OF snap(1)] if_P [OF snap(2)] f f' split_conv by simp
    next
      case other
      with "1.prems" have "whole_runs its" by (simp add: Cons whole_runs.simps(2))
      from IH [OF this] show ?thesis
        unfolding Cons append_Cons process_batch_cons if_not_P [OF other(1)] if_not_P [OF other(2)]
        by (cases "feed_event F fuel mode it s") simp_all
    qed
  qed simp
qed


subsection \<open>Replaying a recorded run\<close>

text \<open>The events that a live batch records: of a snapshot its header and the slots made from the registers.\<close>

function recorded :: "bool \<Rightarrow> feed_item list \<Rightarrow> event list" where
  "recorded no_bb [] = []"
| "recorded no_bb (it # its) =
     (if no_bb \<and> kind (snd it) = EVENT_BB_ENTRY then recorded no_bb its
      else if kind (snd it) = EVENT_REG_SNAPSHOT then
        snd it # map (snapshot_slot (snd it) (snapshot_regs (take 6 (map snd its)))) [0..<6] @ recorded no_bb (drop 6 its)
      else snd it # recorded no_bb its)"
  by pat_completeness auto
termination
  by (relation "measure (\<lambda>(_, its). length its)") auto

declare recorded.simps(2) [simp del]

lemma snapshot_slot_kind: "kind (snapshot_slot h regs i) = kind h"
  by (simp add: kind_def snapshot_slot_def)

text \<open>A recorded snapshot has the effect of the one it was made from.\<close>

lemma length_snapshot_regs: "length (snapshot_regs cs) = 3 * length cs"
  by (induction cs) (simp_all add: snapshot_regs_def)

lemma six_slots:
  assumes "length cs = 6"
  shows "snapshot_regs (map (snapshot_slot h (snapshot_regs cs)) [0..<6]) = snapshot_regs cs"
proof -
  obtain c0 c1 c2 c3 c4 c5 where c: "cs = [c0, c1, c2, c3, c4, c5]"
    using assms by (auto simp: numeral_eq_Suc length_Suc_conv)
  have u: "(ucast (ucast (x :: u32) :: u64) :: u32) = x" for x
    by (rule bit_word_eqI) (simp add: bit_simps)
  have "[0..<6] = [0, 1, 2, 3, 4, 5 :: nat]" by (simp add: upt_rec)
  then show ?thesis by (simp add: c snapshot_regs_def snapshot_slot_def u numeral_2_eq_2)
qed

lemma apply_recorded:
  assumes "kind h = EVENT_REG_SNAPSHOT" "length cs = 6" "list_all (\<lambda>c. kind c = EVENT_REG_SNAPSHOT) cs"
  shows "apply_reg_snapshot (h # map (snapshot_slot h (snapshot_regs cs)) [0..<6]) en = apply_reg_snapshot (h # cs) en"
    and "apply_reg_snapshot (h # cs) en = (en', k) \<Longrightarrow> k = 7 \<and> world_regs en' = snapshot_regs cs"
proof -
  have k: "list_all (\<lambda>c. kind c = EVENT_REG_SNAPSHOT) (map (snapshot_slot h (snapshot_regs cs)) [0..<6])"
    using assms(1) by (simp add: list_all_iff snapshot_slot_kind)
  have t: "take 6 (map (snapshot_slot h (snapshot_regs cs)) [0..<6]) = map (snapshot_slot h (snapshot_regs cs)) [0..<6]" "take 6 cs = cs"
    using assms(2) by simp_all
  show "apply_reg_snapshot (h # map (snapshot_slot h (snapshot_regs cs)) [0..<6]) en = apply_reg_snapshot (h # cs) en"
    unfolding apply_reg_snapshot_def list.sel t Let_def six_slots [OF assms(2)] using assms k by simp
  show "apply_reg_snapshot (h # cs) en = (en', k) \<Longrightarrow> k = 7 \<and> world_regs en' = snapshot_regs cs"
    using assms t(2) by (auto simp: apply_reg_snapshot_def Let_def world_regs_def upd_srf_def upd_inner_def upd_world_def update_regs_def lrf_update_def)
qed

text \<open>
  The checks and notes of a live run change the topology stream and the bookkeeping of the session,
  and nothing that a replay rebuilds.
\<close>

lemma core_upd [simp]:
  "engine_core (ss_engine (upd_engine (emit_topo fs) s)) = engine_core (ss_engine s)"
  "engine_core (ss_engine (upd_orch g s)) = engine_core (ss_engine s)"
  by (simp_all add: upd_orch_def)

lemma check_seq_core:
  "engine_core (ss_engine (check_seq ev s)) = engine_core (ss_engine s) \<and> ss_finalize (check_seq ev s) = ss_finalize s"
  by (simp add: check_seq_def Let_def)

lemma live_effects_core:
  assumes "live_effects now ev s = Value s'"
  shows "engine_core (ss_engine s') = engine_core (ss_engine s) \<and> ss_total s' = ss_total s \<and> ss_journal s' = ss_journal s \<and>
    ss_finalize s' = ss_finalize s \<and> ss_recorder s' = map_option (er_record ev) (ss_recorder s)"
proof -
  have f: "engine_core (ss_engine (note_fork now ev s)) = engine_core (ss_engine s)" "ss_total (note_fork now ev s) = ss_total s"
    "ss_journal (note_fork now ev s) = ss_journal s" "ss_recorder (note_fork now ev s) = ss_recorder s"
    "ss_finalize (note_fork now ev s) = ss_finalize s"
    by (simp_all add: note_fork_def)
  obtain s1 where s1: "note_shared_write ev (note_fork now ev s) = Value s1" "s' = note_record ev s1"
    using assms by (auto simp: live_effects_def split: outcome.splits)
  have "engine_core (ss_engine s1) = engine_core (ss_engine s) \<and> ss_total s1 = ss_total s \<and> ss_journal s1 = ss_journal s \<and>
      ss_finalize s1 = ss_finalize s \<and> ss_recorder s1 = ss_recorder s"
    using s1(1) f by (auto simp: note_shared_write_def split: if_splits option.splits)
  with s1(2) show ?thesis by (simp add: note_record_def)
qed

text \<open>Two sessions that agree on what a replay rebuilds.\<close>

definition same_run :: "'f session \<Rightarrow> 'f session \<Rightarrow> bool" where
  "same_run s s0 \<longleftrightarrow> engine_core (ss_engine s0) = engine_core (ss_engine s) \<and> ss_total s0 = ss_total s \<and>
     ss_journal s0 = ss_journal s \<and> ss_finalize s0 = ss_finalize s"

lemma feed_event_replays:
  assumes "mode \<noteq> Replaying" "feed_event F fuel mode ((None, now), ev) s = Value s'" "same_run s s0"
  shows "\<exists>s1. feed_event F fuel Replaying ((None, 0), ev) s0 = Value s1 \<and> same_run s' s1 \<and>
    ss_recorder s' = map_option (er_record ev) (ss_recorder s)"
proof -
  define t where "t = upd_engine (upd_inner inc_insn_counter) (s\<lparr>ss_total := ss_total s + 1\<rparr>)"
  define t0 where "t0 = upd_engine (upd_inner inc_insn_counter) (s0\<lparr>ss_total := ss_total s0 + 1\<rparr>)"
  define t2 where "t2 = (if mode = Live_Root then check_seq ev t else t)"
  have t: "ss_total t = ss_total s + 1" "ss_journal t = ss_journal s" "ss_recorder t = ss_recorder s" "ss_finalize t = ss_finalize s"
    by (simp_all add: t_def)
  have t2: "engine_core (ss_engine t2) = engine_core (ss_engine t)" "ss_total t2 = ss_total t" "ss_journal t2 = ss_journal t"
    "ss_recorder t2 = ss_recorder s" "ss_finalize t2 = ss_finalize t"
    using check_seq_core [of ev t] by (simp_all add: t2_def t(3))
  have t0: "engine_core (ss_engine t0) = engine_core (ss_engine t)" "ss_total t0 = ss_total t" "ss_journal t0 = ss_journal t"
    "ss_finalize t0 = ss_finalize t"
    using assms(3) core_cong_upd(2) [of "ss_engine s0" "ss_engine s"]
    by (simp_all add: same_run_def t_def t0_def)
  obtain en b s3 where p: "process_event F fuel None ev (ss_engine t2) = Value (en, b)"
    "live_effects now ev (t2\<lparr>ss_engine := en\<rparr>) = Value s3" "s' = note_call ev (note_journal b ev s3)"
    using assms(1,2) by (auto simp: feed_event_def Let_def t_def [symmetric] t2_def [symmetric] split: outcome.splits prod.splits)
  from event_core_cong [OF _ p(1), of "ss_engine t0"] t0(1) t2(1) obtain en0 where
    en0: "process_event F fuel None ev (ss_engine t0) = Value (en0, b)" "engine_core en0 = engine_core en" by auto
  have l: "engine_core (ss_engine s3) = engine_core en" "ss_total s3 = ss_total t" "ss_journal s3 = ss_journal t"
    "ss_finalize s3 = ss_finalize t" "ss_recorder s3 = map_option (er_record ev) (ss_recorder s)"
    using live_effects_core [OF p(2)] t2 by simp_all
  have "feed_event F fuel Replaying ((None, 0), ev) s0 = Value (note_call ev (note_journal b ev (t0\<lparr>ss_engine := en0\<rparr>)))"
    using en0(1) by (simp add: feed_event_def Let_def t0_def [symmetric])
  moreover have "same_run s' (note_call ev (note_journal b ev (t0\<lparr>ss_engine := en0\<rparr>)))"
    using t0 en0(2) l by (simp add: same_run_def p(3) note_call_def note_journal_def)
  moreover have "ss_recorder s' = map_option (er_record ev) (ss_recorder s)"
    using l by (simp add: p(3) note_call_def note_journal_def)
  ultimately show ?thesis by blast
qed

lemma feed_snapshot_live:
  assumes "mode \<noteq> Replaying" "apply_reg_snapshot (h # cs) (ss_engine s) = (en, 7)" "feed_snapshot mode (h # cs) s = (s', k)"
  shows "k = 7 \<and> engine_core (ss_engine s') = engine_core (upd_inner inc_insn_counter en) \<and> ss_total s' = ss_total s + 7 \<and>
    ss_journal s' = ss_journal s \<and> ss_finalize s' = ss_finalize s \<and>
    ss_recorder s' = map_option (er_record_snapshot h (world_regs en)) (ss_recorder s)"
proof -
  define s2 where "s2 = s\<lparr>ss_engine := en, ss_recorder := map_option (er_record_snapshot h (world_regs en)) (ss_recorder s)\<rparr>"
  define s3 where "s3 = (if mode = Live_Root then check_seq h s2 else s2)"
  have e2: "ss_engine s2 = en" "ss_total s2 = ss_total s" "ss_journal s2 = ss_journal s" "ss_finalize s2 = ss_finalize s"
    "ss_recorder s2 = map_option (er_record_snapshot h (world_regs en)) (ss_recorder s)"
    by (simp_all add: s2_def)
  have e3: "engine_core (ss_engine s3) = engine_core en" "ss_total s3 = ss_total s2" "ss_journal s3 = ss_journal s2"
    "ss_recorder s3 = ss_recorder s2" "ss_finalize s3 = ss_finalize s2"
    using check_seq_core [of h s2] e2(1) by (simp_all add: s3_def)
  have "feed_snapshot mode (h # cs) s = (upd_engine (upd_inner inc_insn_counter) (s3\<lparr>ss_total := ss_total s3 + of_nat (max 7 1)\<rparr>), max 7 1)"
    unfolding feed_snapshot_def assms(2) split_conv Let_def list.sel(1) if_not_P [OF assms(1)] s3_def s2_def by simp
  with assms(3) have s': "s' = upd_engine (upd_inner inc_insn_counter) (s3\<lparr>ss_total := ss_total s3 + 7\<rparr>)" "k = 7" by simp_all
  show ?thesis using s' e2 e3 core_cong_upd(2) [OF e3(1)] by simp
qed

lemma feed_snapshot_replaying:
  assumes "apply_reg_snapshot (h # cs) (ss_engine s) = (en, 7)"
  shows "feed_snapshot Replaying (h # cs) s =
    (upd_engine (upd_inner inc_insn_counter) (s\<lparr>ss_engine := en, ss_total := ss_total s + 7\<rparr>), 7)"
  by (simp add: feed_snapshot_def assms Let_def)

definition recorded_snapshot :: "event \<Rightarrow> event list \<Rightarrow> event list" where
  "recorded_snapshot h cs = h # map (snapshot_slot h (snapshot_regs cs)) [0..<6]"

lemma er_record_recorded:
  "er_record_snapshot h (snapshot_regs cs) = fold er_record (recorded_snapshot h cs)"
  by (rule ext) (simp only: er_record_snapshot_def recorded_snapshot_def fold.simps comp_apply fold_map comp_def)

lemma feed_snapshot_replays:
  assumes "mode \<noteq> Replaying" "kind h = EVENT_REG_SNAPSHOT" "length cs = 6" "list_all (\<lambda>c. kind c = EVENT_REG_SNAPSHOT) cs"
    "feed_snapshot mode (h # cs) s = (s', k)" "same_run s s0"
  shows "\<exists>s1. feed_snapshot Replaying (recorded_snapshot h cs) s0 = (s1, 7) \<and> same_run s' s1 \<and>
    k = 7 \<and> ss_recorder s' = map_option (fold er_record (recorded_snapshot h cs)) (ss_recorder s)"
proof -
  obtain en j where a: "apply_reg_snapshot (h # cs) (ss_engine s) = (en, j)" by fastforce
  note r = apply_recorded(2) [OF assms(2-4) a]
  have a7: "apply_reg_snapshot (h # cs) (ss_engine s) = (en, 7)" and w: "world_regs en = snapshot_regs cs"
    using a r by simp_all
  note l = feed_snapshot_live [OF assms(1) a7 assms(5), unfolded w er_record_recorded]
  have e0: "engine_core (ss_engine s) = engine_core (ss_engine s0)" "ss_total s0 = ss_total s" "ss_journal s0 = ss_journal s"
    "ss_finalize s0 = ss_finalize s"
    using assms(6) by (simp_all add: same_run_def)
  from snapshot_core_cong [OF e0(1) a7] obtain en0 where
    en0: "apply_reg_snapshot (h # cs) (ss_engine s0) = (en0, 7)" "engine_core en0 = engine_core en" by blast
  have "apply_reg_snapshot (recorded_snapshot h cs) (ss_engine s0) = (en0, 7)"
    unfolding recorded_snapshot_def apply_recorded(1) [OF assms(2-4)] by (rule en0(1))
  from feed_snapshot_replaying [OF this [unfolded recorded_snapshot_def], folded recorded_snapshot_def]
  have f: "feed_snapshot Replaying (recorded_snapshot h cs) s0 =
      (upd_engine (upd_inner inc_insn_counter) (s0\<lparr>ss_engine := en0, ss_total := ss_total s0 + 7\<rparr>), 7)" .
  have "same_run s' (upd_engine (upd_inner inc_insn_counter) (s0\<lparr>ss_engine := en0, ss_total := ss_total s0 + 7\<rparr>))"
    using l e0 core_cong_upd(2) [OF en0(2)] by (simp add: same_run_def)
  then show ?thesis using f l by blast
qed

lemma replay_items_simps [simp]:
  "replay_items [] = []" "replay_items (e # es) = ((None, 0), e) # replay_items es" "map snd (replay_items es) = es"
  "replay_items (es @ es') = replay_items es @ replay_items es'" "length (replay_items es) = length es"
  "drop k (replay_items es) = replay_items (drop k es)"
  by (simp_all add: replay_items_def comp_def drop_map)

lemma process_batch_replays:
  assumes "mode \<noteq> Replaying" "process_batch F fuel no_bb mode its s = Value s'" "whole_runs its"
    "list_all (\<lambda>it. fst (fst it) = None) its" "same_run s s0"
  shows "\<exists>s1. process_batch F fuel no_bb Replaying (replay_items (recorded no_bb its)) s0 = Value s1 \<and> same_run s' s1 \<and>
    ss_recorder s' = map_option (fold er_record (recorded no_bb its)) (ss_recorder s)"
  using assms(2-5)
proof (induction its arbitrary: s s0 rule: length_induct)
  case (1 its)
  note prems = "1.prems"
  show ?case
  proof (cases its)
    case Nil
    with prems show ?thesis by (simp add: recorded.simps(1) option.map_ident)
  next
    case (Cons it rest)
    have IH: "\<exists>s1. process_batch F fuel no_bb Replaying (replay_items (recorded no_bb xs)) t0 = Value s1 \<and> same_run s' s1 \<and>
        ss_recorder s' = map_option (fold er_record (recorded no_bb xs)) (ss_recorder t)"
      if "length xs \<le> length rest" "process_batch F fuel no_bb mode xs t = Value s'" "whole_runs xs"
        "list_all (\<lambda>it. fst (fst it) = None) xs" "same_run t t0" for xs t t0
      using "1.IH" that Cons by simp
    have mem: "list_all (\<lambda>it. fst (fst it) = None) rest" "fst (fst it) = None" using prems(3) by (simp_all add: Cons)
    consider (bb) "no_bb \<and> kind (snd it) = EVENT_BB_ENTRY" "kind (snd it) \<noteq> EVENT_REG_SNAPSHOT"
      | (snap) "\<not> (no_bb \<and> kind (snd it) = EVENT_BB_ENTRY)" "kind (snd it) = EVENT_REG_SNAPSHOT"
      | (other) "\<not> (no_bb \<and> kind (snd it) = EVENT_BB_ENTRY)" "kind (snd it) \<noteq> EVENT_REG_SNAPSHOT"
      by (auto simp: kind_names)
    then show ?thesis
    proof cases
      case bb
      have "process_batch F fuel no_bb mode rest s = Value s'" "whole_runs rest"
        using prems(1,2) bb by (simp_all add: Cons process_batch_cons whole_runs.simps(2))
      from IH [OF le_refl this mem(1) prems(4)] bb show ?thesis by (simp add: Cons recorded.simps(2))
    next
      case snap
      define cs where "cs = take 6 (map snd rest)"
      have w: "6 \<le> length rest" "list_all (\<lambda>c. kind (snd c) = EVENT_REG_SNAPSHOT) (take 6 rest)" "whole_runs (drop 6 rest)"
        using prems(2) snap(2) by (simp_all add: Cons whole_runs.simps(2))
      have cs: "length cs = 6" "list_all (\<lambda>c. kind c = EVENT_REG_SNAPSHOT) cs"
        using w(1,2) by (simp_all add: cs_def take_map list_all_iff)
      have t7: "take 7 (snd it # map snd rest) = snd it # cs" by (simp add: cs_def)
      obtain s1 k where f: "feed_snapshot mode (snd it # cs) s = (s1, k)" by fastforce
      from feed_snapshot_replays [OF assms(1) snap(2) cs f prems(4)] obtain t1 where
        r: "feed_snapshot Replaying (recorded_snapshot (snd it) cs) s0 = (t1, 7)" "same_run s1 t1" "k = 7"
          "ss_recorder s1 = map_option (fold er_record (recorded_snapshot (snd it) cs)) (ss_recorder s)" by blast
      have run: "process_batch F fuel no_bb mode (drop 6 rest) s1 = Value s'"
        using prems(1) unfolding Cons process_batch_cons if_not_P [OF snap(1)] if_P [OF snap(2)] t7 f split_conv r(3) by simp
      have rec: "recorded no_bb its = recorded_snapshot (snd it) cs @ recorded no_bb (drop 6 rest)"
        unfolding Cons recorded.simps(2) if_not_P [OF snap(1)] if_P [OF snap(2)] recorded_snapshot_def cs_def by simp
      have "list_all (\<lambda>it. fst (fst it) = None) (drop 6 rest)" using mem(1) by (auto simp: list_all_iff dest: in_set_dropD)
      from IH [OF _ run w(3) this r(2)] obtain s2 where
        h: "process_batch F fuel no_bb Replaying (replay_items (recorded no_bb (drop 6 rest))) t1 = Value s2" "same_run s' s2"
          "ss_recorder s' = map_option (fold er_record (recorded no_bb (drop 6 rest))) (ss_recorder s1)" by fastforce
      define ms where "ms = map (snapshot_slot (snd it) (snapshot_regs cs)) [0..<6]"
      have rs: "recorded_snapshot (snd it) cs = snd it # ms" "length ms = 6" by (simp_all add: recorded_snapshot_def ms_def)
      have items: "replay_items (recorded no_bb its) = ((None, 0), snd it) # replay_items (ms @ recorded no_bb (drop 6 rest))"
        by (simp add: rec rs(1))
      have head: "take 7 (snd it # map snd (replay_items (ms @ recorded no_bb (drop 6 rest)))) = snd it # ms"
        unfolding replay_items_simps(3) using rs(2) by simp
      have tail: "drop (7 - 1) (replay_items (ms @ recorded no_bb (drop 6 rest))) = replay_items (recorded no_bb (drop 6 rest))"
        using rs(2) by (simp del: replay_items_simps(4))
      have "process_batch F fuel no_bb Replaying (replay_items (recorded no_bb its)) s0 = Value s2"
        unfolding items process_batch_cons snd_conv head if_not_P [OF snap(1)] if_P [OF snap(2)] r(1) [unfolded rs(1)] split_conv tail
        by (rule h(1))
      with h(2,3) r(4) rec show ?thesis by (simp add: option.map_comp comp_def)
    next
      case other
      have w: "whole_runs rest" using prems(2) other(2) by (simp add: Cons whole_runs.simps(2))
      obtain now where it: "it = ((None, now), snd it)" using mem(2) by (metis prod.collapse)
      obtain s1 where f: "feed_event F fuel mode ((None, now), snd it) s = Value s1" "process_batch F fuel no_bb mode rest s1 = Value s'"
        using prems(1) it unfolding Cons process_batch_cons if_not_P [OF other(1)] if_not_P [OF other(2)]
        by (cases "feed_event F fuel mode it s") auto
      from feed_event_replays [OF assms(1) f(1) prems(4)] obtain t1 where
        r: "feed_event F fuel Replaying ((None, 0), snd it) s0 = Value t1" "same_run s1 t1"
          "ss_recorder s1 = map_option (er_record (snd it)) (ss_recorder s)" by blast
      from IH [OF le_refl f(2) w mem(1) r(2)] obtain s2 where
        h: "process_batch F fuel no_bb Replaying (replay_items (recorded no_bb rest)) t1 = Value s2" "same_run s' s2"
          "ss_recorder s' = map_option (fold er_record (recorded no_bb rest)) (ss_recorder s1)" by blast
      have rec: "recorded no_bb its = snd it # recorded no_bb rest"
        unfolding Cons recorded.simps(2) if_not_P [OF other(1)] if_not_P [OF other(2)] ..
      have "process_batch F fuel no_bb Replaying (replay_items (recorded no_bb its)) s0 = Value s2"
        unfolding rec replay_items_simps(2) process_batch_cons snd_conv if_not_P [OF other(1)] if_not_P [OF other(2)] r(1) outcome.case
        by (rule h(1))
      with h(2,3) r(3) rec show ?thesis by (simp add: option.map_comp comp_def)
    qed
  qed
qed

lemma play_recording:
  assumes "length evs < 2 ^ 64" "length evs \<le> n"
  shows "play_all n (fst (er_finish (fold er_record evs er_create))) = Inr evs"
proof -
  have u: "unat (of_nat (length evs) :: u64) = length evs" using assms(1) by (simp add: unat_of_nat take_bit_nat_eq_self)
  have "length (concat (map event_bytes evs)) = 32 * length evs" by (induction evs) simp_all
  with read_batch_bytes [OF u, of n "32 * length evs"] assms(2) show ?thesis
    by (simp add: play_all_def header_finish open_header)
qed

definition demo_run :: "feed_item list" where
  "demo_run = replay_items (map snd demo_history @ replicate 7 (demo_event 5 0x10 0x20))"

lemma seven: "replicate 7 x = [x, x, x, x, x, x, x]"
  by (simp add: numeral_eq_Suc)

lemma demo_run_whole: "whole_runs demo_run"
  by (simp add: demo_run_def demo_history_def seven whole_runs.simps(2) demo_kinds EVENT_REG_SNAPSHOT_def)

lemma session_ok_start:
  assumes "debug_ok fuel dw"
  shows "session_ok fuel 1 (session_new (engine_start dw ro topo) rec)"
  using good_start [OF assms] ct_inv_new [of 0]
  by (simp add: session_ok_def session_new_def ct_inv_def set_root_pid_def ct_new_def attached_pid_def)


subsection \<open>A replay returns\<close>

definition file_events :: "event_player \<Rightarrow> event list" where
  "file_events p = snd (read_batch (length (ep_rest p)) p)"

lemma next_event_none: "next_event p = (p', None) \<Longrightarrow> next_event p' = (p', None)"
  by (auto simp: next_event_def DISK_EVENT_SIZE_def split: if_splits)

lemma read_batch_none: "next_event p = (p, None) \<Longrightarrow> read_batch n p = (p, [])"
  by (cases n) simp_all

lemma read_batch_append:
  "read_batch n p = (p', evs) \<Longrightarrow> read_batch (n + m) p = (case read_batch m p' of (p'', es) \<Rightarrow> (p'', evs @ es))"
proof (induction n arbitrary: p p' evs)
  case (Suc n)
  obtain p1 r where e: "next_event p = (p1, r)" by fastforce
  show ?case
  proof (cases r)
    case None
    with Suc.prems e read_batch_none [OF next_event_none] show ?thesis by auto
  next
    case (Some ev)
    obtain p2 es where b: "read_batch n p1 = (p2, es)" by fastforce
    with Suc.IH [OF b] Suc.prems e Some show ?thesis by (auto split: prod.splits)
  qed
qed simp

lemma read_batch_stable: "length (ep_rest p) \<le> n \<Longrightarrow> snd (read_batch (Suc n) p) = snd (read_batch n p)"
proof (induction n arbitrary: p)
  case 0
  then show ?case by (simp add: next_event_def DISK_EVENT_SIZE_def)
next
  case (Suc n)
  obtain p1 r where e: "next_event p = (p1, r)" by fastforce
  show ?case
  proof (cases r)
    case (Some ev)
    then have "length (ep_rest p1) \<le> n"
      using e Suc.prems by (auto simp: next_event_def DISK_EVENT_SIZE_def split: if_splits)
    from Suc.IH [OF this] have "snd (read_batch (Suc n) p1) = snd (read_batch n p1)" .
    moreover have "snd (read_batch (Suc k) p) = ev # snd (read_batch k p1)" for k
      using e Some by (simp split: prod.split)
    ultimately show ?thesis by metis
  next
    case None
    have "snd (read_batch (Suc k) p) = []" for k using e None by simp
    then show ?thesis by metis
  qed
qed

lemma read_batch_enough: "length (ep_rest p) \<le> n \<Longrightarrow> snd (read_batch n p) = file_events p"
  by (induction n rule: nat_induct_at_least) (simp_all add: file_events_def read_batch_stable del: read_batch.simps)

lemma file_events_batch:
  assumes "read_batch n p = (p', evs)"
  shows "file_events p = evs @ file_events p'"
proof -
  have "length (ep_rest p') \<le> length (ep_rest p)" using read_batch_consumes [OF assms] by simp
  then have "snd (read_batch (length (ep_rest p)) p') = file_events p'" "snd (read_batch (n + length (ep_rest p)) p) = file_events p"
    by (simp_all add: read_batch_enough)
  with read_batch_append [OF assms, of "length (ep_rest p)"] show ?thesis by (simp split: prod.splits)
qed

lemma file_events_empty:
  assumes "read_batch BATCH_LEN p = (p', [])"
  shows "file_events p = []"
proof -
  obtain p1 r where e: "next_event p = (p1, r)" by fastforce
  have "r = None" using assms e by (cases r) (simp_all add: BATCH_LEN_def eval_nat_numeral split: prod.splits)
  then have "snd (read_batch k p) = []" for k using e by (cases k) simp_all
  then show ?thesis by (simp add: file_events_def)
qed

lemma good_finalize: "good fuel n en \<Longrightarrow> good fuel n (en\<lparr>en_index := ai_finalize (en_index en)\<rparr>)"
  using index_inv_finalize [of "en_index en" "inner_of en"]
    frames_inv_cong [of "ai_finalize (en_index en)" "en_index en" "inner_of en" "inner_of en"]
  by (auto simp: good_def engine_inv_def parts_inv_def graph_part_def)

lemma session_ok_finalize: "session_ok fuel n s \<Longrightarrow> session_ok fuel n (finalize_index s)"
  by (simp add: finalize_index_def session_ok_def good_finalize)

lemma quiet_ticks:
  "quiet fuel en (upd_world (\<lambda>w. w\<lparr>ws_cache_heat := heat_tick F (ws_cache_heat w), ws_cl_tracker := cl_tick (ws_cl_tracker w)\<rparr>) en)"
  by (simp add: quiet_def upd_world_def parts_inv_def skel_def cl_inv_tick)

lemma session_ok_ticks: "session_ok fuel n s \<Longrightarrow> session_ok fuel n (world_ticks F s)"
  using good_quiet [OF quiet_ticks, of fuel n "ss_engine s" F] by (simp add: world_ticks_def session_ok_def)

lemma session_ok_gc: "session_ok fuel n s \<Longrightarrow> session_ok fuel n (heap_gc s)"
  using good_quiet [OF quiet_heap, of "ss_engine s" "gc_stale (ss_total s) 500000 (en_heap (ss_engine s))"]
    gc_stale_spec [of "en_heap (ss_engine s)"] by (simp add: heap_gc_def session_ok_def)

lemma round_end_total: "ss_total (heap_gc (world_ticks F (finalize_index s))) = ss_total s"
  by (simp add: heap_gc_def world_ticks_def finalize_index_def)

lemma replay_loop_spec:
  assumes "session_ok fuel n s" "unat n + length (ep_rest p) < 2 ^ 64"
  shows "\<exists>s' n'. replay_loop F fuel no_bb p s = Value s' \<and> session_ok fuel n' s' \<and>
    ss_total s' = ss_total s + of_nat (length (filter (counted no_bb) (replay_items (file_events p))))"
  using assms
proof (induction "length (ep_rest p)" arbitrary: p s n rule: less_induct)
  case less
  obtain p' evs where b: "read_batch BATCH_LEN p = (p', evs)" by fastforce
  have f: "file_events p = evs @ file_events p'" by (rule file_events_batch [OF b])
  show ?case
  proof (cases "evs = []")
    case True
    with b have "file_events p = []" by (auto intro: file_events_empty)
    with True less.prems(1) show ?thesis by (subst replay_loop.simps) (auto simp: b)
  next
    case False
    have c: "length (ep_rest p') + 32 * length evs \<le> length (ep_rest p)" "0 < length evs"
      using read_batch_consumes [OF b] False by simp_all
    have "session_ok fuel n (s\<lparr>ss_finalize := False\<rparr>)" using less.prems(1) by simp
    moreover have "unat n + length (replay_items evs) < 2 ^ 64" using less.prems(2) c by simp
    ultimately obtain s1 n1 where
      r: "process_batch F fuel no_bb Replaying (replay_items evs) (s\<lparr>ss_finalize := False\<rparr>) = Value s1" "session_ok fuel n1 s1"
        "unat n1 \<le> unat n + length evs" "ss_total s1 = ss_total s + of_nat (length (filter (counted no_bb) (replay_items evs)))"
      using process_batch_spec [of fuel n "s\<lparr>ss_finalize := False\<rparr>" "replay_items evs" F no_bb Replaying] by auto
    define s2 where "s2 = heap_gc (world_ticks F (finalize_index s1))"
    have s2: "session_ok fuel n1 s2" "ss_total s2 = ss_total s1"
      using r(2) by (simp_all add: s2_def session_ok_finalize session_ok_ticks session_ok_gc round_end_total)
    have "length (ep_rest p') < length (ep_rest p)" "unat n1 + length (ep_rest p') < 2 ^ 64"
      using c r(3) less.prems(2) by linarith+
    from less.hyps [OF this(1) s2(1) this(2)] obtain s' n' where
      h: "replay_loop F fuel no_bb p' s2 = Value s'" "session_ok fuel n' s'"
        "ss_total s' = ss_total s2 + of_nat (length (filter (counted no_bb) (replay_items (file_events p'))))" by blast
    have "replay_loop F fuel no_bb p s = Value s'"
      by (subst replay_loop.simps) (simp add: b False r(1) s2_def [symmetric] h(1))
    with h(2,3) s2(2) r(4) f show ?thesis by auto
  qed
qed

text \<open>
  C25 (termination).  The replay of any file returns, without a panic, when no location program of the
  debug information divides.  It fails when the header is not that of a recording; otherwise it ends
  in a state that satisfies the invariant of the engine, has counted exactly the events that are
  complete in the file, except basic blocks when these are switched off, and has at most a thousand
  entries in the journal.
\<close>

theorem replay_returns:
  assumes "debug_ok fuel dw" "length file + 1 < 2 ^ 64"
  shows "case ep_open file of
      Inl e \<Rightarrow> run_replay F fuel no_bb dw topo file = None
    | Inr p \<Rightarrow> \<exists>s. run_replay F fuel no_bb dw topo file = Some (Value s) \<and> engine_inv (ss_engine s) \<and>
        ss_total s = of_nat (length (filter (counted no_bb) (replay_items (file_events p)))) \<and> length (ss_journal s) \<le> 1000"
proof (cases "ep_open file")
  case (Inl e)
  then show ?thesis by (simp add: run_replay_def)
next
  case (Inr p)
  define s0 :: "'a session" where "s0 = session_new (engine_start dw ro_new topo) None"
  have "session_ok fuel 1 s0" unfolding s0_def by (rule session_ok_start [OF assms(1)])
  moreover have "unat (1 :: u64) + length (ep_rest p) < 2 ^ 64"
    using assms(2) Inr by (auto simp: ep_open_def Let_def split: if_splits)
  ultimately obtain s n where r: "replay_loop F fuel no_bb p s0 = Value s" "session_ok fuel n s"
    "ss_total s = ss_total s0 + of_nat (length (filter (counted no_bb) (replay_items (file_events p))))"
    using replay_loop_spec [of fuel 1 s0 p F no_bb] by blast
  have "session_ok fuel n (summary_line s)" "ss_total (summary_line s) = ss_total s"
    using r(2) by (simp_all add: summary_line_def Let_def session_ok_def good_topo)
  moreover have "run_replay F fuel no_bb dw topo file = Some (Value (summary_line s))"
    using r(1) by (simp add: run_replay_def Inr s0_def)
  ultimately show ?thesis
    using r(3) Inr by (simp add: session_ok_def good_def JOURNAL_LEN_def s0_def session_new_def)
qed

theorem replay_returns_witness:
  "\<exists>s. run_replay cent_ops 2 False (Some demo_info) None (fst (er_finish (fold er_record (map snd demo_history) er_create))) = Some (Value s) \<and>
     engine_inv (ss_engine s) \<and> ss_total s = 7"
proof -
  let ?evs = "map snd demo_history"
  let ?file = "fst (er_finish (fold er_record ?evs er_create))"
  let ?p = "\<lparr>ep_rest = concat (map event_bytes ?evs), ep_remaining = of_nat (length ?evs)\<rparr>"
  have l: "length ?evs = 7" by (simp add: demo_history_def)
  have r: "length (ep_rest ?p) = 224" by (simp add: demo_history_def)
  have o: "ep_open ?file = Inr ?p" by (simp only: header_finish open_header)
  have "length ?file + 1 < 2 ^ 64" using r by (simp add: header_finish)
  from replay_returns [OF demo_debug_ok this, of cent_ops False None, unfolded o sum.case] obtain s where
    s: "run_replay cent_ops 2 False (Some demo_info) None ?file = Some (Value s)" "engine_inv (ss_engine s)"
      "ss_total s = of_nat (length (filter (counted False) (replay_items (file_events ?p))))" by blast
  have "play_all 224 ?file = Inr ?evs" using play_recording [of ?evs 224] l by simp
  then have "file_events ?p = ?evs" unfolding file_events_def r by (simp only: play_all_def o sum.case) simp
  with s l show ?thesis by (auto simp: counted_def)
qed


subsection \<open>A recorded run, round by round\<close>

text \<open>
  A round of the terminal interface's loop: the rings are drained in batches, of the root process
  and of the children, and at the end the index is finalized, the heat decays and stale objects are
  collected as in a replay.  What the poll, the drain and the discovery make of the orchestrator
  and of the children before a batch is given with it.
\<close>

type_synonym live_step = "ring_orchestrator \<times> child_tracker \<times> feed_mode \<times> feed_item list"

fun live_batches :: "'f f32_ops \<Rightarrow> nat \<Rightarrow> bool \<Rightarrow> live_step list \<Rightarrow> 'f session \<Rightarrow> 'f session outcome" where
  "live_batches F fuel no_bb [] s = Value s"
| "live_batches F fuel no_bb ((ro, ct, mode, its) # steps) s =
     (case process_batch F fuel no_bb mode its ((upd_orch (\<lambda>_. ro) s)\<lparr>ss_children := ct\<rparr>) of
        Panic \<Rightarrow> Panic | Value s1 \<Rightarrow> live_batches F fuel no_bb steps s1)"

definition round_end :: "'f f32_ops \<Rightarrow> 'f session \<Rightarrow> 'f session" where
  "round_end F s = heap_gc (world_ticks F (finalize_index s))"

fun live_rounds :: "'f f32_ops \<Rightarrow> nat \<Rightarrow> bool \<Rightarrow> live_step list list \<Rightarrow> 'f session \<Rightarrow> 'f session outcome" where
  "live_rounds F fuel no_bb [] s = Value s"
| "live_rounds F fuel no_bb (r # rs) s =
     (case live_batches F fuel no_bb r (s\<lparr>ss_finalize := False\<rparr>) of
        Panic \<Rightarrow> Panic | Value s1 \<Rightarrow> live_rounds F fuel no_bb rs (round_end F s1))"

lemma live_batches_append:
  "live_batches F fuel no_bb (xs @ ys) s =
     (case live_batches F fuel no_bb xs s of Panic \<Rightarrow> Panic | Value s1 \<Rightarrow> live_batches F fuel no_bb ys s1)"
  by (induction xs arbitrary: s) (auto split: outcome.split)

text \<open>The loop that drains the rings is such a sequence of batches, and counts their events.\<close>

lemma length_with_view: "length (with_view sees evs) = length evs"
  by (simp add: with_view_def)

lemma upd_orch_same: "(upd_orch g s)\<lparr>ss_children := ss_children s\<rparr> = upd_orch g s"
  by (simp add: upd_orch_def upd_engine_def)

lemma upd_orch_id: "upd_orch (\<lambda>_. en_orch (ss_engine s)) s = s"
  by (simp add: upd_orch_def upd_engine_def)

lemma drain_loop_batches:
  assumes "drain_loop F fuel no_bb gate budget views k seen s = Value (s', n)"
  shows "\<exists>steps. live_batches F fuel no_bb steps s = Value s' \<and>
    n = seen + sum_list (map (\<lambda>(_, _, _, its). length its) steps) \<and>
    list_all (\<lambda>(_, _, mode, _). mode \<noteq> Replaying) steps"
  using assms
proof (induction "budget - seen" arbitrary: k seen s rule: less_induct)
  case less
  show ?case
  proof (cases "budget \<le> seen")
    case True
    with less.prems have "s' = s" "n = seen" by (subst (asm) drain_loop.simps; simp)+
    then show ?thesis by (intro exI [of _ "[]"]) simp
  next
    case False
    obtain ro evs where d: "batch_drain (tv_obs (views k)) BATCH_LEN (en_orch (ss_engine s)) = (ro, evs)" by fastforce
    note unf = less.prems [unfolded drain_loop.simps [of F fuel no_bb gate budget views k seen s] if_not_P [OF False] d split_conv]
    show ?thesis
    proof (cases "gate \<and> evs = []")
      case True
      with unf have "s' = upd_orch (\<lambda>_. ro) s" "n = seen" by simp_all
      then show ?thesis
        by (intro exI [of _ "[(ro, ss_children s, Live_Root, [])]"]) (simp add: upd_orch_same)
    next
      case go: False
      define its where "its = with_view (tv_sees (views k)) evs"
      obtain s1 where s1: "process_batch F fuel no_bb Live_Root its (upd_orch (\<lambda>_. ro) s) = Value s1"
        using unf [unfolded if_not_P [OF go] its_def [symmetric]]
        by (cases "process_batch F fuel no_bb Live_Root its (upd_orch (\<lambda>_. ro) s)") simp_all
      obtain ct cevs where c: "ct_batch_drain (tv_child_obs (views k)) BATCH_LEN (ss_children s1) = (ct, cevs)" by fastforce
      define cits where "cits = with_view (tv_child_sees (views k)) cevs"
      note unf2 = unf [unfolded if_not_P [OF go] its_def [symmetric] s1 outcome.case c split_conv cits_def [symmetric]]
      obtain s2 where s2: "process_batch F fuel no_bb Live_Child cits (s1\<lparr>ss_children := ct\<rparr>) = Value s2"
        using unf2 by (cases "process_batch F fuel no_bb Live_Child cits (s1\<lparr>ss_children := ct\<rparr>)") simp_all
      note unf3 = unf2 [unfolded s2 outcome.case]
      let ?two = "[(ro, ss_children s, Live_Root, its), (en_orch (ss_engine s1), ct, Live_Child, cits)]"
      have two: "live_batches F fuel no_bb ?two s = Value s2"
        using s1 s2 by (simp add: upd_orch_same upd_orch_id)
      have len: "length its = length evs" "length cits = length cevs"
        by (simp_all add: its_def cits_def length_with_view)
      show ?thesis
      proof (cases "evs = [] \<and> cevs = []")
        case True
        with unf3 have "s' = s2" "n = seen" by simp_all
        with two len True show ?thesis by (intro exI [of _ ?two]) simp
      next
        case more: False
        then have "0 < length evs + length cevs" by auto
        with False have "budget - (seen + length evs + length cevs) < budget - seen" by linarith
        from less.hyps [OF this] unf3 more obtain steps where
          st: "live_batches F fuel no_bb steps s2 = Value s'"
            "n = seen + length evs + length cevs + sum_list (map (\<lambda>(_, _, _, its). length its) steps)"
            "list_all (\<lambda>(_, _, mode, _). mode \<noteq> Replaying) steps" by auto
        have "live_batches F fuel no_bb (?two @ steps) s = Value s'"
          unfolding live_batches_append two by (simp add: st(1))
        with st(2,3) len show ?thesis by (intro exI [of _ "?two @ steps"]) simp
      qed
    qed
  qed
qed

text \<open>What a round records, and when a round is fit to be replayed.\<close>

definition round_events :: "bool \<Rightarrow> live_step list \<Rightarrow> event list" where
  "round_events no_bb steps = concat (map (\<lambda>(_, _, _, its). recorded no_bb its) steps)"

definition step_replayable :: "live_step \<Rightarrow> bool" where
  "step_replayable st =
     (case st of (_, _, mode, its) \<Rightarrow>
        mode \<noteq> Replaying \<and> whole_runs its \<and> list_all (\<lambda>it. fst (fst it) = None) its)"

text \<open>The replay reads batches of \<open>BATCH_LEN\<close>: every round but the last fills one, the last does not exceed one.\<close>

fun fills_batches :: "event list list \<Rightarrow> bool" where
  "fills_batches [] \<longleftrightarrow> True"
| "fills_batches (es # rest) \<longleftrightarrow>
     es \<noteq> [] \<and> length es \<le> BATCH_LEN \<and> (rest \<noteq> [] \<longrightarrow> length es = BATCH_LEN) \<and> fills_batches rest"

text \<open>What is recorded of a batch of whole runs is a batch of whole runs.\<close>

lemma whole_runs_snapshot:
  assumes "kind h = EVENT_REG_SNAPSHOT" "length ms = 6" "list_all (\<lambda>c. kind c = EVENT_REG_SNAPSHOT) ms"
  shows "whole_runs (replay_items (h # ms @ rest)) = whole_runs (replay_items rest)"
proof -
  have "take 6 (replay_items (ms @ rest)) = replay_items ms" "drop 6 (replay_items (ms @ rest)) = replay_items rest"
    using assms(2) by simp_all
  then show ?thesis
    using assms by (simp add: whole_runs.simps(2) list_all_iff replay_items_def)
qed

lemma recorded_whole: "whole_runs its \<Longrightarrow> whole_runs (replay_items (recorded no_bb its))"
proof (induction its rule: length_induct)
  case (1 its)
  show ?case
  proof (cases its)
    case (Cons it rest)
    have IH: "whole_runs (replay_items (recorded no_bb xs))" if "length xs \<le> length rest" "whole_runs xs" for xs
      using "1.IH" that Cons by simp
    show ?thesis
    proof (cases "kind (snd it) = EVENT_REG_SNAPSHOT")
      case True
      define ms where "ms = map (snapshot_slot (snd it) (snapshot_regs (take 6 (map snd rest)))) [0..<6]"
      have ms: "length ms = 6" "list_all (\<lambda>c. kind c = EVENT_REG_SNAPSHOT) ms"
        using True by (simp_all add: ms_def list_all_iff snapshot_slot_kind)
      have nb: "\<not> (no_bb \<and> kind (snd it) = EVENT_BB_ENTRY)" using True by (simp add: kind_names)
      have "recorded no_bb its = snd it # ms @ recorded no_bb (drop 6 rest)"
        unfolding Cons recorded.simps(2) if_not_P [OF nb] if_P [OF True] ms_def ..
      moreover have "whole_runs (drop 6 rest)" using "1.prems" True by (simp add: Cons whole_runs.simps(2))
      ultimately show ?thesis using whole_runs_snapshot [OF True ms] IH [of "drop 6 rest"] by simp
    next
      case False
      with "1.prems" have "whole_runs rest" by (simp add: Cons whole_runs.simps(2))
      with IH [of rest] False show ?thesis by (cases no_bb) (simp_all add: Cons recorded.simps(2) whole_runs.simps(2))
    qed
  qed (simp add: replay_items_def)
qed

lemma live_batches_replays:
  assumes "live_batches F fuel no_bb steps s = Value s'" "list_all step_replayable steps" "same_run s s0"
  shows "\<exists>s1. process_batch F fuel no_bb Replaying (replay_items (round_events no_bb steps)) s0 = Value s1 \<and> same_run s' s1 \<and>
    ss_recorder s' = map_option (fold er_record (round_events no_bb steps)) (ss_recorder s)"
  using assms
proof (induction steps arbitrary: s s0)
  case Nil
  then show ?case by (simp add: round_events_def option.map_ident)
next
  case (Cons st steps)
  obtain ro ct mode its where st: "st = (ro, ct, mode, its)" by (cases st)
  define t where "t = (upd_orch (\<lambda>_. ro) s)\<lparr>ss_children := ct\<rparr>"
  have t: "same_run t s0" "ss_recorder t = ss_recorder s"
    using Cons.prems(3) by (simp_all add: t_def same_run_def upd_orch_def)
  have ok: "mode \<noteq> Replaying" "whole_runs its" "list_all (\<lambda>it. fst (fst it) = None) its" "list_all step_replayable steps"
    using Cons.prems(2) [unfolded st list.pred_inject(2)] by (simp_all add: step_replayable_def [of "(ro, ct, mode, its)"])
  obtain s1 where s1: "process_batch F fuel no_bb mode its t = Value s1" "live_batches F fuel no_bb steps s1 = Value s'"
    using Cons.prems(1) by (cases "process_batch F fuel no_bb mode its t") (simp_all add: st t_def)
  from process_batch_replays [OF ok(1) s1(1) ok(2,3) t(1)] obtain u where
    u: "process_batch F fuel no_bb Replaying (replay_items (recorded no_bb its)) s0 = Value u" "same_run s1 u"
      "ss_recorder s1 = map_option (fold er_record (recorded no_bb its)) (ss_recorder s)" by (auto simp: t(2))
  from Cons.IH [OF s1(2) ok(4) u(2)] obtain v where
    v: "process_batch F fuel no_bb Replaying (replay_items (round_events no_bb steps)) u = Value v" "same_run s' v"
      "ss_recorder s' = map_option (fold er_record (round_events no_bb steps)) (ss_recorder s1)" by blast
  have ev: "round_events no_bb (st # steps) = recorded no_bb its @ round_events no_bb steps"
    by (simp add: round_events_def st)
  have "process_batch F fuel no_bb Replaying (replay_items (round_events no_bb (st # steps))) s0 = Value v"
    unfolding ev replay_items_simps(4) batch_boundaries [OF recorded_whole [OF ok(2)]] u(1) outcome.case by (rule v(1))
  with v(2,3) u(3) show ?case by (simp add: ev option.map_comp comp_def)
qed

lemma same_run_engine:
  assumes "same_run s s0" "\<And>a b. engine_core a = engine_core b \<Longrightarrow> engine_core (g a) = engine_core (g b)"
  shows "same_run (upd_engine g s) (upd_engine g s0)"
  using assms(1) assms(2) [of "ss_engine s0" "ss_engine s"] by (simp add: same_run_def)

lemma same_run_finalize: "same_run s s0 \<Longrightarrow> same_run (finalize_index s) (finalize_index s0)"
  using same_run_engine [OF _ core_cong_upd(3) [where k = ai_finalize], of s s0]
  by (cases "ss_finalize s") (simp_all add: finalize_index_def same_run_def)

lemma same_run_ticks: "same_run s s0 \<Longrightarrow> same_run (world_ticks F s) (world_ticks F s0)"
proof -
  assume r: "same_run s s0"
  then have "ss_total s0 = ss_total s" by (simp add: same_run_def)
  moreover have "same_run (upd_engine (upd_world g) s) (upd_engine (upd_world g) s0)" for g
    by (rule same_run_engine [OF r]) (rule core_cong_upd)
  ultimately show ?thesis using r by (simp add: world_ticks_def)
qed

lemma same_run_gc: "same_run s s0 \<Longrightarrow> same_run (heap_gc s) (heap_gc s0)"
proof -
  assume r: "same_run s s0"
  then have "ss_total s0 = ss_total s" by (simp add: same_run_def)
  moreover have "same_run (upd_engine (\<lambda>en. en\<lparr>en_heap := j (en_heap en)\<rparr>) s) (upd_engine (\<lambda>en. en\<lparr>en_heap := j (en_heap en)\<rparr>) s0)" for j
    by (rule same_run_engine [OF r]) (rule core_cong_upd)
  ultimately show ?thesis using r by (simp add: heap_gc_def)
qed

lemma round_end_same: "same_run s s0 \<Longrightarrow> same_run (round_end F s) (round_end F s0)"
  unfolding round_end_def by (intro same_run_gc same_run_ticks same_run_finalize)

lemma round_end_recorder: "ss_recorder (round_end F s) = ss_recorder s"
  by (simp add: round_end_def heap_gc_def world_ticks_def finalize_index_def)

text \<open>The player of a list of events, and the batches it delivers.\<close>

definition player_of :: "event list \<Rightarrow> event_player" where
  "player_of evs = \<lparr>ep_rest = concat (map event_bytes evs), ep_remaining = of_nat (length evs)\<rparr>"

lemma next_event_player:
  assumes "length (e # evs) < 2 ^ 64"
  shows "next_event (player_of (e # evs)) = (player_of evs, Some e)"
proof -
  have "unat (of_nat (Suc (length evs)) :: u64) = Suc (length evs)"
    using assms by (simp add: unat_of_nat take_bit_nat_eq_self del: of_nat_Suc)
  then have "(of_nat (Suc (length evs)) :: u64) \<noteq> 0" by (metis unat_0 nat.distinct(1))
  then show ?thesis by (simp add: next_event_def player_of_def DISK_EVENT_SIZE_def)
qed

lemma read_batch_player:
  assumes "length (xs @ ys) < 2 ^ 64" "length xs \<le> n" "ys \<noteq> [] \<longrightarrow> length xs = n"
  shows "read_batch n (player_of (xs @ ys)) = (player_of ys, xs)"
  using assms
proof (induction n arbitrary: xs)
  case (Suc n)
  show ?case
  proof (cases xs)
    case Nil
    with Suc.prems have "ys = []" by auto
    then show ?thesis using Nil by (simp add: next_event_def player_of_def)
  next
    case (Cons e es)
    have "read_batch n (player_of (es @ ys)) = (player_of ys, es)"
      using Suc.prems by (intro Suc.IH) (simp_all add: Cons)
    then show ?thesis
      using next_event_player [of e "es @ ys"] Suc.prems(1) by (simp add: Cons)
  qed
qed simp

lemma replay_loop_rounds:
  assumes "live_rounds F fuel no_bb rounds s = Value s'" "list_all (list_all step_replayable) rounds"
    "fills_batches (map (round_events no_bb) rounds)" "length (concat (map (round_events no_bb) rounds)) < 2 ^ 64"
    "same_run s s0"
  shows "\<exists>s1. replay_loop F fuel no_bb (player_of (concat (map (round_events no_bb) rounds))) s0 = Value s1 \<and>
    same_run s' s1 \<and> ss_recorder s' = map_option (fold er_record (concat (map (round_events no_bb) rounds))) (ss_recorder s)"
  using assms
proof (induction rounds arbitrary: s s0)
  case Nil
  have "read_batch BATCH_LEN (player_of []) = (player_of [], [])" using read_batch_player [of "[]" "[]"] by simp
  with Nil show ?case by (subst replay_loop.simps) (simp add: option.map_id id_def option.map_ident)
next
  case (Cons r rs)
  let ?es = "round_events no_bb r" and ?rest = "concat (map (round_events no_bb) rs)"
  obtain s1 where s1: "live_batches F fuel no_bb r (s\<lparr>ss_finalize := False\<rparr>) = Value s1"
    "live_rounds F fuel no_bb rs (round_end F s1) = Value s'"
    using Cons.prems(1) by (cases "live_batches F fuel no_bb r (s\<lparr>ss_finalize := False\<rparr>)") simp_all
  have es: "?es \<noteq> []" "length ?es \<le> BATCH_LEN" "rs \<noteq> [] \<longrightarrow> length ?es = BATCH_LEN"
    "fills_batches (map (round_events no_bb) rs)" using Cons.prems(3) by simp_all
  have "same_run (s\<lparr>ss_finalize := False\<rparr>) (s0\<lparr>ss_finalize := False\<rparr>)" using Cons.prems(5) by (simp add: same_run_def)
  from live_batches_replays [OF s1(1) _ this] Cons.prems(2) obtain u where
    u: "process_batch F fuel no_bb Replaying (replay_items ?es) (s0\<lparr>ss_finalize := False\<rparr>) = Value u" "same_run s1 u"
      "ss_recorder s1 = map_option (fold er_record ?es) (ss_recorder s)" by auto
  have "?rest \<noteq> [] \<longrightarrow> length ?es = BATCH_LEN" using es(3) by auto
  from read_batch_player [OF _ es(2) this] Cons.prems(4)
  have rd: "read_batch BATCH_LEN (player_of (?es @ ?rest)) = (player_of ?rest, ?es)" by simp
  have "length ?rest < 2 ^ 64" using Cons.prems(4) by simp
  from Cons.IH [OF s1(2) _ es(4) this round_end_same [OF u(2)]] Cons.prems(2) obtain v where
    v: "replay_loop F fuel no_bb (player_of ?rest) (round_end F u) = Value v" "same_run s' v"
      "ss_recorder s' = map_option (fold er_record ?rest) (ss_recorder (round_end F s1))" by auto
  have "replay_loop F fuel no_bb (player_of (?es @ ?rest)) s0 = Value v"
    by (subst replay_loop.simps) (simp add: rd es(1) u(1) v(1) round_end_def [symmetric])
  with v(2,3) u(3) show ?case by (simp add: round_end_recorder option.map_comp comp_def)
qed

lemma open_recording:
  "ep_open (fst (er_finish (fold er_record evs er_create))) = Inr (player_of evs)"
  by (simp only: header_finish open_header player_of_def)

text \<open>
  C24 (roundtrip).  The recording of a live run replays to the run.  The run goes round by round,
  with events of the root process and of the children, with or without a topology stream, whatever
  the orchestrator and the tracker of the children do between the batches, and with the end of each
  round as the loop of the terminal interface has it (the headless loop does not collect stale heap
  objects, \<open>heap_gc\<close>); the program's memory was not read, the library globals were not registered and no
  warm scan was made.  If its register snapshots are complete and its rounds are the replay's batches
  (each but the last records exactly 4096 slots, the last at most as many; fewer than \<open>2^64\<close> slots in
  all), then \<^verbatim>\<open>rtmap replay\<close> of the finished file returns with the engine of the run, its number of events and its journal; only the
  topology stream and the orchestrator may differ.
\<close>

theorem replay_reproduces_run:
  assumes "live_rounds F fuel no_bb rounds (session_new (engine_start dw ro topo) (Some er_create)) = Value s"
    "list_all (list_all step_replayable) rounds" "fills_batches (map (round_events no_bb) rounds)"
    "length (concat (map (round_events no_bb) rounds)) < 2 ^ 64"
  shows "\<exists>rc s1. ss_recorder s = Some rc \<and>
    run_replay F fuel no_bb dw topo' (fst (er_finish rc)) = Some (Value s1) \<and>
    engine_core (ss_engine s1) = engine_core (ss_engine s) \<and> ss_total s1 = ss_total s \<and> ss_journal s1 = ss_journal s"
proof -
  let ?evs = "concat (map (round_events no_bb) rounds)"
  have "same_run (session_new (engine_start dw ro topo) (Some er_create)) (session_new (engine_start dw ro_new topo') None)"
    using start_core by (simp add: same_run_def session_new_def)
  from replay_loop_rounds [OF assms this] obtain s1 where
    s1: "replay_loop F fuel no_bb (player_of ?evs) (session_new (engine_start dw ro_new topo') None) = Value s1" "same_run s s1"
      "ss_recorder s = Some (fold er_record ?evs er_create)" by (auto simp: session_new_def)
  then have "run_replay F fuel no_bb dw topo' (fst (er_finish (fold er_record ?evs er_create))) = Some (Value (summary_line s1))"
    by (simp add: run_replay_def open_recording)
  moreover have "same_run s (summary_line s1)" using s1(2) by (simp add: same_run_def summary_line_def Let_def)
  ultimately show ?thesis using s1(3) by (auto simp: same_run_def)
qed

text \<open>A run of one round, with a stream: seven events of the root and then a register snapshot.\<close>

theorem replay_reproduces_run_witness:
  "\<exists>s rc s1. live_rounds cent_ops 2 False [[(ro_new, ct_new, Live_Root, demo_run)]]
       (session_new (engine_start (Some demo_info) ro_new (Some topo_new)) (Some er_create)) = Value s \<and>
     ss_recorder s = Some rc \<and> run_replay cent_ops 2 False (Some demo_info) None (fst (er_finish rc)) = Some (Value s1) \<and>
     engine_core (ss_engine s1) = engine_core (ss_engine s)"
proof -
  let ?s = "session_new (engine_start (Some demo_info) ro_new (Some topo_new) :: int engine) (Some er_create)"
  let ?t = "((upd_orch (\<lambda>_. ro_new) ?s)\<lparr>ss_children := ct_new, ss_finalize := False\<rparr>)"
  have l: "length demo_run = 14" by (simp add: demo_run_def demo_history_def)
  have "?t = ?s"
    by (simp add: upd_orch_def upd_engine_def session_new_def engine_start_def engine_new_def populate_globals_def Let_def demo_info_def
        split: prod.split)
  then have t: "(upd_orch (\<lambda>_. ro_new) (?s\<lparr>ss_finalize := False\<rparr>))\<lparr>ss_children := ct_new\<rparr> = ?s"
    by (simp add: upd_orch_def upd_engine_def session_new_def)
  obtain s where s: "process_batch cent_ops 2 False Live_Root demo_run ?s = Value s"
    using process_batch_spec [OF session_ok_start [OF demo_debug_ok], of demo_run cent_ops False Live_Root ro_new "Some topo_new" "Some er_create"] l by auto
  have run: "live_rounds cent_ops 2 False [[(ro_new, ct_new, Live_Root, demo_run)]] ?s = Value (round_end cent_ops s)"
    by (simp add: t s)
  have m: "list_all (\<lambda>it. fst (fst it) = None) demo_run" by (simp add: demo_run_def replay_items_def list_all_iff)
  have r: "length (recorded False demo_run) = 14"
    by (simp add: demo_run_def demo_history_def seven recorded.simps(2) demo_kinds EVENT_REG_SNAPSHOT_def)
  have ok: "list_all (list_all step_replayable) [[(ro_new, ct_new, Live_Root, demo_run)]]"
    using m demo_run_whole by (simp add: step_replayable_def)
  have "recorded False demo_run \<noteq> []" using r by auto
  then have "fills_batches (map (round_events False) [[(ro_new, ct_new, Live_Root, demo_run)]])"
    "length (concat (map (round_events False) [[(ro_new, ct_new, Live_Root, demo_run)]])) < 2 ^ 64"
    using r by (simp_all add: round_events_def BATCH_LEN_def)
  from replay_reproduces_run [OF run ok this, of None] run show ?thesis by blast
qed


subsection \<open>The loops\<close>

text \<open>The branch for a tracer that exits before any event is never taken: an exit ends the loop before it.\<close>

lemma rescue_unreachable: "idle_decision server gone min_events ls \<noteq> Rescue"
  by (simp add: idle_decision_def Let_def)

text \<open>The loop of the terminal interface leaves the children alone while the root process is idle.\<close>

lemma gated_starves_children:
  assumes "seen < budget" "batch_drain (tv_obs (views k)) BATCH_LEN (en_orch (ss_engine s)) = (ro, [])"
  shows "drain_loop F fuel no_bb True budget views k seen s = Value (upd_orch (\<lambda>_. ro) s, seen)"
  using assms by (subst drain_loop.simps) simp

text \<open>A corrupt snapshot changes no register, and yet its header and the old registers are recorded.\<close>

lemma corrupt_snapshot_recorded:
  assumes "kind h = EVENT_REG_SNAPSHOT" "length cs < 6"
  shows "feed_snapshot Live_Child (h # cs) s = (s', k) \<Longrightarrow>
    k = 1 \<and> ss_engine s' = upd_inner inc_insn_counter (ss_engine s) \<and>
    ss_recorder s' = map_option (er_record_snapshot h (world_regs (ss_engine s))) (ss_recorder s)"
  using assms by (auto simp: feed_snapshot_def apply_reg_snapshot_def Let_def)

end
