(* ===== verification/Text_Format.thy ===== *)
theory Text_Format
  imports Proc_Maps
begin

text \<open>More of Rust's string library: lower case, and the widths and prefixes of \<open>format!\<close>, for ASCII.\<close>

definition to_lower :: "string \<Rightarrow> string" where
  "to_lower s = map (\<lambda>c. let n = of_char c :: nat in if 65 \<le> n \<and> n \<le> 90 then char_of (n + 32) else c) s"

text \<open>\<open>{:#x}\<close>, \<open>{:#06x}\<close>, and the widths of \<open>{:<n}\<close> and \<open>{:>n}\<close>.\<close>

definition alt_hex :: "u64 \<Rightarrow> string" where "alt_hex w = ''0x'' @ hex (unat w)"

definition alt_hex6 :: "u64 \<Rightarrow> string" where
  "alt_hex6 w = ''0x'' @ replicate (4 - length (hex (unat w))) (CHR ''0'') @ hex (unat w)"

definition pad_right :: "nat \<Rightarrow> string \<Rightarrow> string" where "pad_right n s = s @ replicate (n - length s) (CHR '' '')"
definition pad_left :: "nat \<Rightarrow> string \<Rightarrow> string" where "pad_left n s = replicate (n - length s) (CHR '' '') @ s"

text \<open>The index of the first occurrence of an element.\<close>

primrec position :: "'a \<Rightarrow> 'a list \<Rightarrow> nat option" where
  "position x [] = None"
| "position x (y # ys) = (if y = x then Some 0 else map_option Suc (position x ys))"

text \<open>The part before the last occurrence of a character, and the part after it.\<close>

definition rsplit_once :: "char \<Rightarrow> string \<Rightarrow> (string \<times> string) option" where
  "rsplit_once c s =
     (if c \<in> set s then Some (rev (tl (dropWhile (\<lambda>x. x \<noteq> c) (rev s))), rev (takeWhile (\<lambda>x. x \<noteq> c) (rev s))) else None)"

lemma rsplit_once_at:
  assumes "c \<notin> set b"
  shows "rsplit_once c (a @ c # b) = Some (a, b)"
proof -
  have "\<forall>x \<in> set (rev b). x \<noteq> c" using assms by auto
  then have "takeWhile (\<lambda>x. x \<noteq> c) (rev b @ c # rev a) = rev b" "dropWhile (\<lambda>x. x \<noteq> c) (rev b @ c # rev a) = c # rev a"
    by (simp_all add: takeWhile_append dropWhile_append)
  then show ?thesis by (simp add: rsplit_once_def)
qed

lemma rsplit_once_iff: "rsplit_once c s = Some (a, b) \<longleftrightarrow> s = a @ c # b \<and> c \<notin> set b"
proof
  assume r: "rsplit_once c s = Some (a, b)"
  then have "c \<in> set s" by (simp add: rsplit_once_def split: if_splits)
  then obtain ys zs where s: "s = ys @ c # zs" "c \<notin> set zs" using split_list_last by fast
  with r rsplit_once_at [OF s(2), of ys] show "s = a @ c # b \<and> c \<notin> set b" by simp
qed (auto simp: rsplit_once_at)

lemma text_lines_all:
  assumes "\<forall>l \<in> set ls. newline \<notin> set l"
  shows "text_lines (concat (map (\<lambda>l. l @ [newline]) ls)) = map chomp ls"
  using assms
proof (induction ls)
  case Nil
  show ?case by (simp add: text_lines_def)
next
  case (Cons l ls)
  then show ?case using text_lines_line [of l "concat (map (\<lambda>l. l @ [newline]) ls)"] by simp
qed

lemma trim_ends:
  assumes "trim s = s" "s \<noteq> []"
  shows "\<not> is_space (hd s)" "\<not> is_space (last s)"
proof -
  have st: "trim_start s = s"
  proof (rule ccontr)
    assume n: "trim_start s \<noteq> s"
    have "length (trim s) \<le> length (trim_start s)"
      using length_dropWhile_le [of is_space "rev (trim_start s)"] by (simp add: trim_def trim_end_def)
    moreover have "trim_start s = s \<or> length (trim_start s) < length s"
      by (cases s) (auto simp: trim_start_def le_imp_less_Suc length_dropWhile_le)
    ultimately show False using assms(1) n by simp
  qed
  then show "\<not> is_space (hd s)" using hd_dropWhile [of is_space s] assms(2) by (simp add: trim_start_def)
  have "trim_end s = s" using assms(1) st by (simp add: trim_def)
  then have "dropWhile is_space (rev s) = rev s" unfolding trim_end_def by (metis rev_rev_ident)
  then have "\<not> is_space (hd (rev s))"
    using assms(2) by (metis hd_dropWhile rev_is_Nil_conv)
  then show "\<not> is_space (last s)" using assms(2) by (simp add: hd_rev)
qed

lemma trim_idI: "s \<noteq> [] \<Longrightarrow> \<not> is_space (hd s) \<Longrightarrow> \<not> is_space (last s) \<Longrightarrow> trim s = s"
  by (rule trim_id [of s "hd s" "tl s" "butlast s" "last s"]) simp_all

end
