(* ===== verification/Config.thy ===== *)
theory Config
  imports Proc_Maps Text_Format "HOL-Library.AList"
begin

text \<open>
  The configuration files (\<^verbatim>\<open>engine/src/config.rs\<close>): the flat format, the global configuration and
  the profiles of a project, how they are merged, and the files that \<open>rtmap setup\<close> and \<open>rtmap init\<close>
  write.  A \<open>HashMap\<close> is an association list.  What files there are, with their contents, and the
  variables of the environment are parameters.
\<close>

type_synonym flat_map = "(string \<times> string) list"

record config =
  cf_dynamorio_home :: "string option"
  cf_tracer_path :: "string option"
  cf_drrun_path :: "string option"
  cf_default_topology :: "bool option"
  cf_default_heatmap :: "bool option"
  cf_default_coverage :: "bool option"
  cf_default_no_bb :: "bool option"
  cf_default_min_events :: "u64 option"
  cf_include :: "string option"

record target_profile =
  tp_tripwire :: "string option"
  tp_args :: "string list"
  tp_topology :: "string option"
  tp_heatmap :: "string option"
  tp_coverage :: "string option"
  tp_no_bb :: "bool option"
  tp_min_events :: "u64 option"

type_synonym project_config = "(string \<times> target_profile) list"

definition config_default :: config where
  "config_default = \<lparr>cf_dynamorio_home = None, cf_tracer_path = None, cf_drrun_path = None, cf_default_topology = None,
     cf_default_heatmap = None, cf_default_coverage = None, cf_default_no_bb = None, cf_default_min_events = None, cf_include = None\<rparr>"

definition profile_default :: target_profile where
  "profile_default = \<lparr>tp_tripwire = None, tp_args = [], tp_topology = None, tp_heatmap = None, tp_coverage = None,
     tp_no_bb = None, tp_min_events = None\<rparr>"

definition flat_line :: "string \<Rightarrow> flat_map \<Rightarrow> flat_map" where
  "flat_line l m =
     (let line = trim l in
      if line = [] \<or> prefix ''#'' line then m
      else (case split_once (CHR ''='') line of None \<Rightarrow> m | Some (k, v) \<Rightarrow> AList.update (trim k) (trim v) m))"

definition parse_flat_config :: "string \<Rightarrow> flat_map" where
  "parse_flat_config contents = fold flat_line (text_lines contents) []"

text \<open>\<open>shell_split\<close>: words so far, the current word, and whether a quote is open or an escape pending.\<close>

primrec split_words :: "string \<Rightarrow> string list \<Rightarrow> string \<Rightarrow> bool \<Rightarrow> bool \<Rightarrow> bool \<Rightarrow> string list" where
  "split_words [] args cur sq dq esc_next = (if cur = [] then args else args @ [cur])"
| "split_words (ch # s) args cur sq dq esc_next =
     (if esc_next then split_words s args (cur @ [ch]) sq dq False
      else if ch = bslash \<and> \<not> sq then split_words s args cur sq dq True
      else if ch = CHR 0x27 \<and> \<not> dq then split_words s args cur (\<not> sq) dq False
      else if ch = quote_char \<and> \<not> sq then split_words s args cur sq (\<not> dq) False
      else if (ch = CHR '' '' \<or> ch = tab_char) \<and> \<not> sq \<and> \<not> dq
      then split_words s (if cur = [] then args else args @ [cur]) [] sq dq False
      else split_words s args (cur @ [ch]) sq dq False)"

definition shell_split :: "string \<Rightarrow> string list" where
  "shell_split s = split_words s [] [] False False False"

definition parse_bool :: "string \<Rightarrow> bool option" where
  "parse_bool s =
     (if to_lower s \<in> set [''true'', ''1'', ''yes'', ''on''] then Some True
      else if to_lower s \<in> set [''false'', ''0'', ''no'', ''off''] then Some False else None)"

definition parse_count :: "string \<Rightarrow> u64 option" where
  "parse_count s = map_option of_nat (parse_u64 s)"

definition config_from_map :: "flat_map \<Rightarrow> config" where
  "config_from_map m =
     \<lparr>cf_dynamorio_home = map_of m ''paths.dynamorio_home'', cf_tracer_path = map_of m ''paths.tracer'',
      cf_drrun_path = map_of m ''paths.drrun'', cf_default_topology = Option.bind (map_of m ''defaults.topology'') parse_bool,
      cf_default_heatmap = Option.bind (map_of m ''defaults.heatmap'') parse_bool,
      cf_default_coverage = Option.bind (map_of m ''defaults.coverage'') parse_bool,
      cf_default_no_bb = Option.bind (map_of m ''defaults.no_bb'') parse_bool,
      cf_default_min_events = Option.bind (map_of m ''defaults.min_events'') parse_count, cf_include = map_of m ''include''\<rparr>"

definition set_field :: "string \<Rightarrow> string \<Rightarrow> target_profile \<Rightarrow> target_profile" where
  "set_field field val p =
     (if field = ''tripwire'' then p\<lparr>tp_tripwire := Some val\<rparr>
      else if field = ''args'' then p\<lparr>tp_args := shell_split val\<rparr>
      else if field = ''topology'' then p\<lparr>tp_topology := Some val\<rparr>
      else if field = ''heatmap'' then p\<lparr>tp_heatmap := Some val\<rparr>
      else if field = ''coverage'' then p\<lparr>tp_coverage := Some val\<rparr>
      else if field = ''no_bb'' then p\<lparr>tp_no_bb := parse_bool val\<rparr>
      else if field = ''min_events'' then p\<lparr>tp_min_events := parse_count val\<rparr> else p)"

definition profile_entry :: "string \<times> string \<Rightarrow> project_config \<Rightarrow> project_config" where
  "profile_entry kv targets =
     (case kv of (key, val) \<Rightarrow>
        (case strip_prefix ''target.'' key of None \<Rightarrow> targets
         | Some rest \<Rightarrow>
             (case rsplit_once (CHR ''.'') rest of None \<Rightarrow> targets
              | Some (name, field) \<Rightarrow>
                  AList.update name (set_field field val (case map_of targets name of None \<Rightarrow> profile_default | Some p \<Rightarrow> p)) targets)))"

text \<open>The order in which the entries of the map are visited is the argument \<open>ord\<close>.\<close>

definition project_config_from_map :: "(flat_map \<Rightarrow> flat_map) \<Rightarrow> flat_map \<Rightarrow> project_config" where
  "project_config_from_map ord m = fold profile_entry (ord m) []"

definition or_else :: "'a option \<Rightarrow> 'a option \<Rightarrow> 'a option" where
  "or_else x y = (case x of None \<Rightarrow> y | Some v \<Rightarrow> Some v)"

definition merge_config :: "config \<Rightarrow> config \<Rightarrow> config" where
  "merge_config base overlay =
     \<lparr>cf_dynamorio_home = or_else (cf_dynamorio_home overlay) (cf_dynamorio_home base),
      cf_tracer_path = or_else (cf_tracer_path overlay) (cf_tracer_path base),
      cf_drrun_path = or_else (cf_drrun_path overlay) (cf_drrun_path base),
      cf_default_topology = or_else (cf_default_topology overlay) (cf_default_topology base),
      cf_default_heatmap = or_else (cf_default_heatmap overlay) (cf_default_heatmap base),
      cf_default_coverage = or_else (cf_default_coverage overlay) (cf_default_coverage base),
      cf_default_no_bb = or_else (cf_default_no_bb overlay) (cf_default_no_bb base),
      cf_default_min_events = or_else (cf_default_min_events overlay) (cf_default_min_events base),
      cf_include = or_else (cf_include overlay) (cf_include base)\<rparr>"


subsection \<open>Files\<close>

text \<open>The contents of the files that can be read.  An included file does not include others.\<close>

type_synonym file_system = "string \<Rightarrow> string option"

definition load_config_from_path :: "file_system \<Rightarrow> string \<Rightarrow> config" where
  "load_config_from_path fs path =
     (case fs path of None \<Rightarrow> config_default
      | Some contents \<Rightarrow>
          (let cfg = config_from_map (parse_flat_config contents) in
           case cf_include cfg of None \<Rightarrow> cfg
           | Some inc \<Rightarrow>
               (case fs inc of None \<Rightarrow> cfg
                | Some inc_contents \<Rightarrow> merge_config (config_from_map (parse_flat_config inc_contents)) cfg)))"

record environment =
  ev_xdg_config_home :: "string option"
  ev_home :: "string option"

definition path_join :: "string \<Rightarrow> string \<Rightarrow> string" where
  "path_join p q = (if p = [] \<or> last p = CHR ''/'' then p @ q else p @ ''/'' @ q)"

definition global_config_dir :: "environment \<Rightarrow> string" where
  "global_config_dir env =
     (case ev_xdg_config_home env of Some xdg \<Rightarrow> path_join xdg ''rtmap''
      | None \<Rightarrow> (case ev_home env of Some h \<Rightarrow> path_join h ''.config/rtmap'' | None \<Rightarrow> ''/etc/rtmap''))"

definition global_config_path :: "environment \<Rightarrow> string" where
  "global_config_path env =
     (case ev_xdg_config_home env of Some xdg \<Rightarrow> path_join xdg ''rtmap/config''
      | None \<Rightarrow> (case ev_home env of Some h \<Rightarrow> path_join h ''.config/rtmap/config'' | None \<Rightarrow> ''/etc/rtmap/config''))"

definition load_global_config :: "environment \<Rightarrow> file_system \<Rightarrow> config" where
  "load_global_config env fs = load_config_from_path fs (global_config_path env)"

text \<open>A directory is the list of its components; the search goes up to the root, the empty list.\<close>

definition project_file :: "string list \<Rightarrow> string" where
  "project_file dir = concat (map (\<lambda>c. CHR ''/'' # c) dir) @ ''/.rtmap''"

function find_project_config :: "(string \<Rightarrow> bool) \<Rightarrow> string list \<Rightarrow> string option" where
  "find_project_config is_file dir =
     (if is_file (project_file dir) then Some (project_file dir)
      else if dir = [] then None else find_project_config is_file (butlast dir))"
  by pat_completeness auto
termination
  by (relation "measure (\<lambda>(_, dir). length dir)") auto

declare find_project_config.simps [simp del]

definition load_project_config ::
  "(flat_map \<Rightarrow> flat_map) \<Rightarrow> (string \<Rightarrow> bool) \<Rightarrow> file_system \<Rightarrow> string list \<Rightarrow> config \<times> project_config" where
  "load_project_config ord is_file fs cwd =
     (case Option.bind (find_project_config is_file cwd) fs of None \<Rightarrow> (config_default, [])
      | Some contents \<Rightarrow> (let m = parse_flat_config contents in (config_from_map m, project_config_from_map ord m)))"

definition resolve_config ::
  "(flat_map \<Rightarrow> flat_map) \<Rightarrow> environment \<Rightarrow> (string \<Rightarrow> bool) \<Rightarrow> file_system \<Rightarrow> string list \<Rightarrow> config \<times> project_config" where
  "resolve_config ord env is_file fs cwd =
     (case load_project_config ord is_file fs cwd of
        (proj_cfg, targets) \<Rightarrow> (merge_config (load_global_config env fs) proj_cfg, targets))"

text \<open>\<open>Path::file_name\<close>: the last component that is not empty or a single dot.\<close>

definition file_name :: "string \<Rightarrow> string option" where
  "file_name path =
     (let cs = filter (\<lambda>c. c \<noteq> [] \<and> c \<noteq> ''.'') (split_char (CHR ''/'') path)
      in if cs = [] \<or> last cs = ''..'' then None else Some (last cs))"

definition resolve_target_profile :: "project_config \<Rightarrow> string \<Rightarrow> target_profile option" where
  "resolve_target_profile proj target =
     (case map_of proj target of Some p \<Rightarrow> Some p
      | None \<Rightarrow> map_of proj (case file_name target of None \<Rightarrow> target | Some b \<Rightarrow> b))"


subsection \<open>The files that are written\<close>

definition ticks :: "string \<Rightarrow> string" where "ticks s = [CHR 0x27] @ s @ [CHR 0x27]"

definition as_lines :: "string list \<Rightarrow> string" where
  "as_lines ls = concat (map (\<lambda>l. l @ [newline]) ls)"

definition generate_global_config :: "string option \<Rightarrow> string option \<Rightarrow> string" where
  "generate_global_config dr_home tracer = as_lines (
    [''# rtmap global configuration'', ''# Generated by '' @ ticks ''rtmap setup'' @ ''. Edit freely.'', ''#'',
     ''# Resolution order: CLI flag > env var > .rtmap (project) > this file > auto-detect'', ''#'', ''# Paths'', ''# -----'',
     ''# Path to DynamoRIO installation directory (contains bin64/drrun).'',
     (case dr_home of Some dr \<Rightarrow> ''paths.dynamorio_home = '' @ dr
      | None \<Rightarrow> ''# paths.dynamorio_home = /opt/DynamoRIO-Linux-11.90.20092''),
     [], ''# Explicit path to drrun binary. Overrides dynamorio_home.'',
     ''# paths.drrun = /opt/DynamoRIO-Linux-11.90.20092/bin64/drrun'', [],
     ''# Explicit path to librtmap_tracer.so. Auto-detected relative to rtmap binary if unset.'',
     (case tracer of Some t \<Rightarrow> ''paths.tracer = '' @ t | None \<Rightarrow> ''# paths.tracer = /home/you/rtmap/build/librtmap_tracer.so''),
     [], ''# Include another config file (single level, no recursion).'',
     ''# Useful for Docker/CI: ship /etc/rtmap/site.conf with paths baked in.'', ''# include = /etc/rtmap/site.conf'', [],
     ''# Defaults'', ''# --------'', ''# Always emit topology JSONL alongside output.'', ''# defaults.topology = true'', [],
     ''# Always emit field write heatmap.'', ''# defaults.heatmap = false'', [],
     ''# Emit basic-block coverage map.'', ''# defaults.coverage = false'', [],
     ''# Skip BB_ENTRY events to reduce ring buffer volume.'', ''# defaults.no_bb = false'', [],
     ''# Minimum events before taking a snapshot (headless mode).'', ''# defaults.min_events = 1''])"

definition generate_project_config :: "string \<Rightarrow> string option \<Rightarrow> string" where
  "generate_project_config name tripwire = as_lines (
    [''# rtmap project configuration'', ''# Generated by '' @ ticks ''rtmap init'' @ ''. Edit freely.'', ''#'',
     ''# Target profiles: define per-binary defaults.'',
     ''# When you run '' @ ticks ''rtmap <target>'' @ '', these settings are applied automatically.'',
     ''# CLI args after '' @ ticks ''--'' @ '' fully replace target.*.args (no merge).'', ''#'',
     ''# Profile for: '' @ name, [],
     ''# Tripwire symbol: instrumentation begins when this function is entered.'',
     ''# Skips init-phase noise (config parsing, static setup).'',
     (case tripwire of Some tw \<Rightarrow> ''target.'' @ name @ ''.tripwire = '' @ tw
      | None \<Rightarrow> ''# target.'' @ name @ ''.tripwire = main''),
     [], ''# target args: override on CLI with: rtmap run '' @ name @ '' -- --custom-flag'',
     ''# target.'' @ name @ ''.args ='', [],
     ''target.'' @ name @ ''.topology = '' @ name @ ''.topo.jsonl'',
     ''target.'' @ name @ ''.heatmap = '' @ name @ ''.heatmap.tsv'', [],
     ''# target.'' @ name @ ''.no_bb = false''])"


subsection \<open>Reading the lines\<close>

lemma trim_comment: "\<exists>t. trim (CHR ''#'' # l) = CHR ''#'' # t"
proof -
  have "trim_start (CHR ''#'' # l) = CHR ''#'' # l" by (simp add: trim_start_def is_space_def)
  moreover have "dropWhile is_space (rev l @ [CHR ''#'']) = dropWhile is_space (rev l) @ [CHR ''#'']"
    by (induction "rev l") (auto simp: is_space_def dropWhile_append)
  ultimately show ?thesis by (simp add: trim_def trim_end_def)
qed

lemma flat_comment: "flat_line (CHR ''#'' # l) m = m"
  using trim_comment [of l] by (auto simp: flat_line_def)

lemma flat_blank: "flat_line [] m = m"
  by (simp add: flat_line_def trim_def trim_start_def trim_end_def)

text \<open>A line with a key and a value.\<close>

lemma flat_pair:
  assumes "trim k = k" "k \<noteq> []" "CHR ''='' \<notin> set k" "hd k \<noteq> CHR ''#''" "trim v = v" "v \<noteq> []"
  shows "flat_line (k @ '' = '' @ v) m = AList.update k v m"
proof -
  have t: "trim (k @ '' = '' @ v) = k @ '' = '' @ v"
    using trim_ends [OF assms(1,2)] trim_ends [OF assms(5,6)] assms(2,6) by (intro trim_idI) simp_all
  have "split_once (CHR ''='') ((k @ '' '') @ CHR ''='' # CHR '' '' # v) = Some (k @ '' '', CHR '' '' # v)"
    using assms(3) by (intro split_once_at) simp
  moreover have "trim (k @ '' '') = k"
  proof -
    have "trim_start (k @ '' '') = k @ '' ''" using trim_ends(1) [OF assms(1,2)] assms(2) by (cases k) (simp_all add: trim_start_def)
    moreover have "trim_end (k @ '' '') = k"
      using trim_ends(2) [OF assms(1,2)] assms(2) by (cases k rule: rev_cases) (simp_all add: trim_end_def is_space_def)
    ultimately show ?thesis by (simp add: trim_def)
  qed
  moreover have "trim (CHR '' '' # v) = v" using trim_spaces [of 1 v] assms(5) by simp
  moreover have "\<not> prefix ''#'' (k @ '' = '' @ v)" using assms(2,4) by (cases k) auto
  moreover have "k @ '' = '' @ v = (k @ '' '') @ CHR ''='' # CHR '' '' # v" by simp
  ultimately show ?thesis using assms(6) unfolding flat_line_def t Let_def by simp
qed

lemma trim_chomp: "trim (chomp l) = trim l"
proof (cases l rule: rev_cases)
  case (snoc u c)
  have cr: "is_space creturn" by (simp add: is_space_def)
  have "trim (u @ [creturn]) = trim u"
  proof (cases "\<forall>x \<in> set u. is_space x")
    case True
    then have "dropWhile is_space (u @ [creturn]) = []" "dropWhile is_space u = []" using cr by simp_all
    then show ?thesis by (simp only: trim_def trim_start_def)
  next
    case False
    then obtain x where "x \<in> set u" "\<not> is_space x" by blast
    then have "dropWhile is_space (u @ [creturn]) = dropWhile is_space u @ [creturn]" by (rule dropWhile_append1)
    then show ?thesis using cr by (simp add: trim_def trim_start_def trim_end_def)
  qed
  with snoc show ?thesis by (simp add: chomp_def)
qed (simp add: chomp_def)

lemma flat_chomp: "flat_line (chomp l) m = flat_line l m"
  by (simp add: flat_line_def trim_chomp)

lemma parse_as_lines:
  assumes "\<forall>l \<in> set ls. newline \<notin> set l"
  shows "parse_flat_config (as_lines ls) = fold flat_line ls []"
proof -
  have "fold flat_line (map chomp ls) m = fold flat_line ls m" for m
    by (induction ls arbitrary: m) (simp_all add: flat_chomp)
  then show ?thesis unfolding parse_flat_config_def as_lines_def text_lines_all [OF assms] .
qed

definition plain_value :: "string \<Rightarrow> bool" where
  "plain_value v \<longleftrightarrow> v \<noteq> [] \<and> trim v = v \<and> newline \<notin> set v"

lemma setup_config_parsed:
  assumes "\<forall>v \<in> set_option dr_home \<union> set_option tracer. plain_value v"
  shows "config_from_map (parse_flat_config (generate_global_config dr_home tracer)) =
    config_default\<lparr>cf_dynamorio_home := dr_home, cf_tracer_path := tracer\<rparr>"
proof -
  have k: "trim ''paths.dynamorio_home'' = ''paths.dynamorio_home''" "trim ''paths.tracer'' = ''paths.tracer''"
    by (intro trim_idI; simp add: is_space_def)+
  have p: "flat_line (''paths.dynamorio_home = '' @ v) m = AList.update ''paths.dynamorio_home'' v m"
    "flat_line (''paths.tracer = '' @ v) m = AList.update ''paths.tracer'' v m" if "plain_value v" for v m
    using flat_pair [OF k(1), of v m] flat_pair [OF k(2), of v m] that by (simp_all add: plain_value_def)
  have n: "newline \<notin> set v" if "v \<in> set_option dr_home \<union> set_option tracer" for v using assms that by (simp add: plain_value_def)
  show ?thesis
    unfolding generate_global_config_def
    apply (subst parse_as_lines)
    subgoal using n by (auto simp: ticks_def split: option.splits)
    subgoal using assms
      by (cases dr_home; cases tracer) (simp_all add: flat_comment flat_blank p [unfolded append.simps] config_from_map_def config_default_def)
    done
qed


subsection \<open>The search for DynamoRIO\<close>

text \<open>Of a directory the names in it, of a path whether it is a directory or exists, and when it was modified.\<close>

record disk =
  dk_read_dir :: "string \<Rightarrow> string list option"
  dk_is_dir :: "string \<Rightarrow> bool"
  dk_exists :: "string \<Rightarrow> bool"
  dk_modified :: "string \<Rightarrow> int option"

definition drrun_in :: "string \<Rightarrow> string" where "drrun_in home = path_join home ''bin64/drrun''"

definition installation :: "disk \<Rightarrow> string \<Rightarrow> bool" where
  "installation dk p \<longleftrightarrow> dk_is_dir dk p \<and> dk_exists dk (drrun_in p)"

definition dated :: "disk \<Rightarrow> string \<Rightarrow> string \<times> int" where
  "dated dk p = (p, case dk_modified dk p of None \<Rightarrow> 0 | Some t \<Rightarrow> t)"

definition dr_patterns :: "string \<Rightarrow> string list" where
  "dr_patterns home = [home @ ''/DynamoRIO-Linux-*'', home @ ''/dynamorio*'', home @ ''/.local/share/dynamorio'', ''/opt/dynamorio'',
     ''/opt/DynamoRIO*'', ''/usr/local/share/dynamorio'']"

definition trim_stars :: "string \<Rightarrow> string" where "trim_stars s = rev (dropWhile (\<lambda>c. c = CHR ''*'') (rev s))"

definition found_by :: "disk \<Rightarrow> string \<Rightarrow> (string \<times> int) list" where
  "found_by dk pattern =
     (if CHR ''*'' \<in> set pattern
      then (case rsplit_once (CHR ''/'') pattern of None \<Rightarrow> []
            | Some (dir, pre) \<Rightarrow>
                (case dk_read_dir dk dir of None \<Rightarrow> []
                 | Some ns \<Rightarrow> map (dated dk) (filter (installation dk) (map (path_join dir) (filter (prefix (trim_stars pre)) ns)))))
      else if installation dk pattern then [dated dk pattern] else [])"

definition discover_dynamorio :: "environment \<Rightarrow> disk \<Rightarrow> string option" where
  "discover_dynamorio env dk =
     (let found = concat (map (found_by dk) (dr_patterns (case ev_home env of None \<Rightarrow> [] | Some h \<Rightarrow> h)))
      in case sort_key (\<lambda>e. - snd e) found of [] \<Rightarrow> None | (p, _) # _ \<Rightarrow> Some p)"

text \<open>What is found is an installation; none of the places that were searched has a newer one.\<close>

lemma discovered_is_newest:
  assumes "discover_dynamorio env dk = Some p"
  shows "installation dk p \<and>
    (\<forall>pat \<in> set (dr_patterns (case ev_home env of None \<Rightarrow> [] | Some h \<Rightarrow> h)). \<forall>e \<in> set (found_by dk pat). snd e \<le> snd (dated dk p))"
proof -
  define found where "found = concat (map (found_by dk) (dr_patterns (case ev_home env of None \<Rightarrow> [] | Some h \<Rightarrow> h)))"
  have f: "e = dated dk (fst e) \<and> installation dk (fst e)" if "e \<in> set found" for e
    using that by (auto simp: found_def found_by_def dated_def split: if_splits option.splits)
  obtain e es where e: "sort_key (\<lambda>e. - snd e) found = e # es" "p = fst e"
    using assms unfolding discover_dynamorio_def found_def [symmetric] by (auto split: list.splits)
  then have i: "set found = insert e (set es)" by (metis list.set(2) set_sort)
  have "sorted (map (\<lambda>e. - snd e) (sort_key (\<lambda>e. - snd e) found))" by simp
  then have "\<forall>d \<in> set found. snd d \<le> snd e" unfolding i e(1) by auto
  moreover have "e = dated dk p" "installation dk p" using f [of e] i e(2) by auto
  ultimately show ?thesis by (auto simp: found_def)
qed


subsection \<open>Profiles\<close>

definition profile_key :: "string \<Rightarrow> string \<Rightarrow> string" where
  "profile_key name field = ''target.'' @ name @ ''.'' @ field"

text \<open>The entry of a key, if it is one of a profile: the name may have dots in it, the field has none.\<close>

definition key_parts :: "string \<Rightarrow> (string \<times> string) option" where
  "key_parts key = Option.bind (strip_prefix ''target.'' key) (rsplit_once (CHR ''.''))"

lemma key_parts_iff: "key_parts key = Some (name, field) \<longleftrightarrow> key = profile_key name field \<and> CHR ''.'' \<notin> set field"
proof -
  have "strip_prefix ''target.'' key = Some rest \<longleftrightarrow> key = ''target.'' @ rest" for rest
    by (auto simp: strip_prefix_def prefix_def)
  then show ?thesis
    by (auto simp: key_parts_def profile_key_def bind_eq_Some_conv rsplit_once_iff)
qed

lemma profile_entry_parts:
  "profile_entry (key, val) ts = (case key_parts key of None \<Rightarrow> ts
     | Some (name, field) \<Rightarrow>
         AList.update name (set_field field val (case map_of ts name of None \<Rightarrow> profile_default | Some p \<Rightarrow> p)) ts)"
  by (auto simp: profile_entry_def key_parts_def split: option.split)

text \<open>The profile that a map describes for a name.\<close>

definition profile_of :: "flat_map \<Rightarrow> string \<Rightarrow> target_profile option" where
  "profile_of m name =
     (if list_ex (\<lambda>(k, _). case key_parts k of None \<Rightarrow> False | Some (n, _) \<Rightarrow> n = name) m
      then (let get = (\<lambda>field. map_of m (profile_key name field)) in
            Some \<lparr>tp_tripwire = get ''tripwire'', tp_args = (case get ''args'' of None \<Rightarrow> [] | Some v \<Rightarrow> shell_split v),
                  tp_topology = get ''topology'', tp_heatmap = get ''heatmap'', tp_coverage = get ''coverage'',
                  tp_no_bb = Option.bind (get ''no_bb'') parse_bool, tp_min_events = Option.bind (get ''min_events'') parse_count\<rparr>)
      else None)"

lemma profile_key_inj: "CHR ''.'' \<notin> set f \<Longrightarrow> CHR ''.'' \<notin> set f' \<Longrightarrow> profile_key n f = profile_key n' f' \<longleftrightarrow> n = n' \<and> f = f'"
  using key_parts_iff [of "profile_key n f" n f] key_parts_iff [of "profile_key n f" n' f'] by auto

lemma profile_of_snoc:
  assumes "key \<notin> fst ` set m"
  shows "profile_of (m @ [(key, val)]) name =
    (case key_parts key of Some (n, field) \<Rightarrow>
       (if n = name then Some (set_field field val (case profile_of m name of None \<Rightarrow> profile_default | Some p \<Rightarrow> p)) else profile_of m name)
     | None \<Rightarrow> profile_of m name)"
proof -
  have none: "map_of m key = None" using assms by (simp add: map_of_eq_None_iff)
  have g: "map_of (m @ [(key, val)]) k = (if k = key then Some val else map_of m k)" for k
    by (cases "k = key"; cases "map_of m k") (simp_all add: map_add_def none)
  have p: "(case profile_of m name of None \<Rightarrow> profile_default | Some p \<Rightarrow> p) =
      (let get = (\<lambda>field. map_of m (profile_key name field)) in
       if list_ex (\<lambda>(k, _). case key_parts k of None \<Rightarrow> False | Some (n, _) \<Rightarrow> n = name) m
       then \<lparr>tp_tripwire = get ''tripwire'', tp_args = (case get ''args'' of None \<Rightarrow> [] | Some v \<Rightarrow> shell_split v),
             tp_topology = get ''topology'', tp_heatmap = get ''heatmap'', tp_coverage = get ''coverage'',
             tp_no_bb = Option.bind (get ''no_bb'') parse_bool, tp_min_events = Option.bind (get ''min_events'') parse_count\<rparr>
       else profile_default)"
    by (simp add: profile_of_def Let_def)
  have absent: "map_of m (profile_key name f) = None"
    if "\<not> list_ex (\<lambda>(k, _). case key_parts k of None \<Rightarrow> False | Some (n, _) \<Rightarrow> n = name) m" "CHR ''.'' \<notin> set f" for f
  proof (rule ccontr)
    assume "map_of m (profile_key name f) \<noteq> None"
    then obtain v where "(profile_key name f, v) \<in> set m" by (auto dest: map_of_SomeD)
    moreover have "key_parts (profile_key name f) = Some (name, f)" using that(2) key_parts_iff by blast
    ultimately show False using that(1) by (fastforce simp: list_ex_iff)
  qed
  show ?thesis
  proof (cases "key_parts key")
    case None
    then have "key \<noteq> profile_key name f" if "CHR ''.'' \<notin> set f" for f using key_parts_iff [of key name f] that by auto
    then have "map_of (m @ [(key, val)]) (profile_key name f) = map_of m (profile_key name f)" if "CHR ''.'' \<notin> set f" for f
      using that by (metis g)
    with None show ?thesis by (simp add: profile_of_def del: map_of_append)
  next
    case (Some nf)
    obtain n field where nf: "nf = (n, field)" by fastforce
    with Some have key: "key = profile_key n field" "CHR ''.'' \<notin> set field" using key_parts_iff [of key n field] by simp_all
    then have k: "profile_key name f = key \<longleftrightarrow> n = name \<and> field = f" if "CHR ''.'' \<notin> set f" for f
      using profile_key_inj [OF that key(2), of name n] by auto
    show ?thesis
    proof (cases "n = name")
      case False
      then show ?thesis using Some nf by (simp add: profile_of_def g k del: map_of_append)
    next
      case True
      have "map_of m (profile_key name field) = None" using none key(1) True by simp
      then show ?thesis
        using Some nf True absent
        by (simp add: p profile_of_def g k Let_def set_field_def profile_default_def del: map_of_append)
    qed
  qed
qed

text \<open>
  However the entries of the map are visited, the profiles read from it are those that its keys
  describe: a name has a profile exactly if there is a key for it, and each of the fields of the
  profile is the value of its key.
\<close>

lemma project_profiles:
  assumes "distinct (map fst m)" "mset (ord m) = mset m"
  shows "map_of (project_config_from_map ord m) name = profile_of m name"
proof -
  have "distinct (map fst es) \<Longrightarrow> map_of (fold profile_entry es []) name = profile_of es name" for es
  proof (induction es rule: rev_induct)
    case (snoc e es)
    obtain key val where e: "e = (key, val)" by fastforce
    with snoc show ?case
      by (auto simp: profile_of_snoc profile_entry_parts update_conv split: option.split prod.split)
  qed (simp add: profile_of_def)
  moreover have d: "distinct (map fst (ord m))"
    using assms by (metis mset_map mset_eq_imp_distinct_iff)
  moreover have "map_of (ord m) = map_of m"
    using d assms(1) mset_eq_setD [OF assms(2)] by (intro map_of_inject_set [THEN iffD2])
  then have "profile_of (ord m) name = profile_of m name"
    using mset_eq_setD [OF assms(2)] by (simp add: profile_of_def list_ex_iff)
  ultimately show ?thesis by (simp add: project_config_from_map_def)
qed

lemma parsed_keys_distinct: "distinct (map fst (parse_flat_config contents))"
proof -
  have "distinct (map fst m) \<Longrightarrow> distinct (map fst (fold flat_line ls m))" for ls m
  proof (induction ls arbitrary: m)
    case (Cons l ls)
    then have "distinct (map fst (flat_line l m))"
      by (auto simp: flat_line_def Let_def distinct_update split: option.split)
    then show ?case using Cons.IH by simp
  qed simp
  then show ?thesis by (simp add: parse_flat_config_def)
qed

lemma flat_profile_key:
  assumes "CHR ''='' \<notin> set name" "CHR ''='' \<notin> set f" "f \<noteq> []" "\<not> is_space (last f)" "trim v = v" "v \<noteq> []"
  shows "flat_line (''target.'' @ name @ ''.'' @ f @ '' = '' @ v) m = AList.update (profile_key name f) v m"
proof -
  have "trim (profile_key name f) = profile_key name f"
    using assms(3,4) by (intro trim_idI) (simp_all add: profile_key_def is_space_def)
  then show ?thesis
    using flat_pair [of "profile_key name f" v m] assms by (simp add: profile_key_def)
qed

lemma plain_append: "plain_value name \<Longrightarrow> suf \<noteq> [] \<Longrightarrow> \<not> is_space (last suf) \<Longrightarrow> trim (name @ suf) = name @ suf"
  using trim_ends [of name] by (intro trim_idI) (simp_all add: plain_value_def)

definition init_entries :: "string \<Rightarrow> string option \<Rightarrow> flat_map" where
  "init_entries name tripwire =
     (case tripwire of None \<Rightarrow> [] | Some tw \<Rightarrow> [(profile_key name ''tripwire'', tw)]) @
     [(profile_key name ''topology'', name @ ''.topo.jsonl''), (profile_key name ''heatmap'', name @ ''.heatmap.tsv'')]"

lemma init_config_parsed:
  assumes "plain_value name" "CHR ''='' \<notin> set name" "\<forall>tw \<in> set_option tripwire. plain_value tw"
  shows "parse_flat_config (generate_project_config name tripwire) = init_entries name tripwire"
proof -
  have nl: "newline \<notin> set name" "\<forall>tw \<in> set_option tripwire. newline \<notin> set tw" using assms by (simp_all add: plain_value_def)
  have p: "flat_line (''target.'' @ name @ ''.topology = '' @ name @ ''.topo.jsonl'') m =
      AList.update (profile_key name ''topology'') (name @ ''.topo.jsonl'') m"
    "flat_line (''target.'' @ name @ ''.heatmap = '' @ name @ ''.heatmap.tsv'') m =
      AList.update (profile_key name ''heatmap'') (name @ ''.heatmap.tsv'') m" for m
    using flat_profile_key [OF assms(2), of "''topology''" "name @ ''.topo.jsonl''" m]
      flat_profile_key [OF assms(2), of "''heatmap''" "name @ ''.heatmap.tsv''" m] plain_append [OF assms(1)]
    by (simp_all add: is_space_def)
  have t: "flat_line (''target.'' @ name @ ''.tripwire = '' @ tw) m = AList.update (profile_key name ''tripwire'') tw m"
    if "tripwire = Some tw" for tw m
    using flat_profile_key [OF assms(2), of "''tripwire''" tw m] assms(3) that by (simp add: is_space_def plain_value_def)
  show ?thesis
    unfolding generate_project_config_def
    apply (subst parse_as_lines)
    subgoal using nl by (auto simp: ticks_def split: option.splits)
    subgoal
      by (cases tripwire)
        (simp_all add: flat_comment flat_blank p [unfolded append.simps] t [unfolded append.simps] init_entries_def profile_key_inj)
    done
qed



text \<open>A quoted empty argument is not an argument.\<close>

lemma shell_split_empty_quoted: "shell_split [CHR ''-'', CHR ''e'', CHR '' '', CHR 0x27, CHR 0x27] = [''-e'']"
  by (simp add: shell_split_def)

text \<open>Every character of an argument escaped is read back as that argument.\<close>

lemma split_escaped:
  "split_words (concat (map (\<lambda>c. [bslash, c]) w) @ s) args cur False dq False = split_words s args (cur @ w) False dq False"
  by (induction w arbitrary: cur) simp_all

lemma shell_split_escaped:
  "w \<noteq> [] \<Longrightarrow> shell_split (concat (map (\<lambda>c. [bslash, c]) w)) = [w]"
  using split_escaped [of w "[]" "[]" "[]" False] by (simp add: shell_split_def)

end
