(* ===== verification/Layout_Lint.thy ===== *)
theory Layout_Lint
  imports Dwarf_Expr Proc_Maps Topology Text_Format "HOL-Library.AList"
begin

text \<open>
  The layout lint (\<^verbatim>\<open>engine/src/lint.rs\<close>): the fields of a structure on its cache lines, the warnings
  about lines that are shared, and the difference of two versions of a structure.

  A \<open>HashMap\<close> is an association list; where the source iterates over one, the order is an argument.
  Names are ASCII.  The command line and printing are not modelled.  A cache-line size of zero makes
  the source divide by zero, the value \<open>Panic\<close>.
\<close>

definition DEFAULT_CACHELINE :: u64 where "DEFAULT_CACHELINE = 64"

text \<open>The dash of the messages, in UTF-8.\<close>

definition dash :: string where "dash = [CHR 0xE2, CHR 0x80, CHR 0x94]"


subsection \<open>Annotations\<close>

type_synonym annotations = "(string \<times> string) list"

datatype annotation_error = Unreadable | Bad_Line nat string

fun parse_annotations :: "nat \<Rightarrow> string list \<Rightarrow> annotations \<Rightarrow> annotation_error + annotations" where
  "parse_annotations i [] m = Inr m"
| "parse_annotations i (l # ls) m =
     (let line = trim l in
      if line = [] \<or> prefix ''#'' line then parse_annotations (i + 1) ls m
      else (case split_once (CHR ''='') line of
              None \<Rightarrow> Inl (Bad_Line (i + 1) line)
            | Some (f, g) \<Rightarrow> parse_annotations (i + 1) ls (AList.update (trim f) (trim g) m)))"

definition from_file :: "string option \<Rightarrow> annotation_error + annotations" where
  "from_file file = (case file of None \<Rightarrow> Inl Unreadable | Some contents \<Rightarrow> parse_annotations 0 (text_lines contents) [])"

definition leaf_name :: "string \<Rightarrow> string" where
  "leaf_name s = rev (takeWhile (\<lambda>c. c \<noteq> CHR ''.'') (rev s))"

definition group_for :: "annotations \<Rightarrow> string \<Rightarrow> string option" where
  "group_for m field = (case map_of m field of Some g \<Rightarrow> Some g | None \<Rightarrow> map_of m (leaf_name field))"

definition has_annotations :: "annotations \<Rightarrow> bool" where
  "has_annotations m \<longleftrightarrow> m \<noteq> []"


subsection \<open>Fields on cache lines\<close>

record field_layout =
  fl_name :: string
  fl_offset :: u64
  fl_size :: u64
  fl_type_name :: string
  fl_cl_start :: u64
  fl_cl_end :: u64
  fl_is_pointer :: bool
  fl_is_volatile :: bool
  fl_is_atomic :: bool
  fl_has_alignment :: bool

definition cachelines :: "field_layout \<Rightarrow> u64 list" where
  "cachelines l = map of_nat [unat (fl_cl_start l)..<Suc (unat (fl_cl_end l))]"

definition is_write_hot :: "field_layout \<Rightarrow> bool" where
  "is_write_hot l \<longleftrightarrow> fl_is_volatile l \<or> fl_is_atomic l"

definition dotted :: "string \<Rightarrow> string \<Rightarrow> string" where
  "dotted pre name = (if pre = [] then name else pre @ ''.'' @ name)"

definition leaf_layout :: "u64 \<Rightarrow> string \<Rightarrow> u64 \<Rightarrow> field_info \<Rightarrow> field_layout" where
  "leaf_layout cl path off f =
     \<lparr>fl_name = path, fl_offset = off, fl_size = fi_byte_size f, fl_type_name = ti_name (fi_type_info f),
      fl_cl_start = off div cl, fl_cl_end = (off + max (fi_byte_size f) 1 - 1) div cl,
      fl_is_pointer = ti_is_pointer (fi_type_info f), fl_is_volatile = ti_is_volatile (fi_type_info f),
      fl_is_atomic = ti_is_atomic (fi_type_info f), fl_has_alignment = 0 < fi_alignment f \<and> cl \<le> fi_alignment f\<rparr>"

lemma size_type_fields: "size_list size (ti_fields ti) < size ti"
  by (cases ti) simp

function flatten_fields :: "u64 \<Rightarrow> field_info list \<Rightarrow> u64 \<Rightarrow> string \<Rightarrow> nat \<Rightarrow> field_layout list" where
  "flatten_fields cl [] base pre depth = []"
| "flatten_fields cl (f # fs) base pre depth =
     (if 8 < depth then []
      else
        (let off = base + fi_byte_offset f; path = dotted pre (fi_name f); ti = fi_type_info f in
         (if ti_fields ti = [] \<or> ti_is_pointer ti then [leaf_layout cl path off f]
          else flatten_fields cl (ti_fields ti) off path (depth + 1)) @
         flatten_fields cl fs base pre depth))"
  by pat_completeness auto
termination
proof (relation "measure (\<lambda>(_, fs, _). size_list size fs)", goal_cases)
  case (2 cl f fs base pre depth off path ti)
  have "size (fi_type_info f) < size f" by (cases f) simp
  with size_type_fields [of "fi_type_info f"] 2(4) show ?case by simp
qed simp_all

declare flatten_fields.simps(2) [simp del]

definition layouts_of :: "u64 \<Rightarrow> type_info \<Rightarrow> field_layout list" where
  "layouts_of cl ti = sort_key fl_offset (flatten_fields cl (ti_fields ti) 0 [] 0)"

definition push_line :: "field_layout \<Rightarrow> u64 \<Rightarrow> (u64, field_layout list) btree_map \<Rightarrow> (u64, field_layout list) btree_map" where
  "push_line l k m = bt_insert k ((case bt_get m k of None \<Rightarrow> [] | Some ls \<Rightarrow> ls) @ [l]) m"

definition cl_fields :: "field_layout list \<Rightarrow> (u64, field_layout list) btree_map" where
  "cl_fields ls = fold (\<lambda>l. fold (push_line l) (cachelines l)) ls []"


subsection \<open>Warnings\<close>

datatype severity = Warning | Info

record diagnostic =
  dg_severity :: severity
  dg_cacheline :: u64
  dg_message :: string
  dg_fields :: "string list"

definition names :: "field_layout list \<Rightarrow> string list" where "names ls = map fl_name ls"

text \<open>The bytes of a line, as the messages show them.\<close>

definition line_bytes :: "u64 \<Rightarrow> u64 \<Rightarrow> string" where
  "line_bytes cs k = alt_hex (k * cs) @ ''-'' @ alt_hex ((k + 1) * cs - 1)"

definition cl_label :: "u64 \<Rightarrow> u64 \<Rightarrow> string" where
  "cl_label cs k = ''CL'' @ dec (unat k) @ '' ('' @ line_bytes cs k @ ''): ''"

type_synonym group_order = "(string \<times> string list) list \<Rightarrow> (string \<times> string list) list"

definition groups_on :: "annotations \<Rightarrow> field_layout list \<Rightarrow> (string \<times> string list) list" where
  "groups_on ann fs =
     fold (\<lambda>f m. case group_for ann (fl_name f) of None \<Rightarrow> m
                 | Some g \<Rightarrow> AList.update g ((case map_of m g of None \<Rightarrow> [] | Some xs \<Rightarrow> xs) @ [fl_name f]) m) fs []"

definition group_message :: "group_order \<Rightarrow> u64 \<Rightarrow> u64 \<Rightarrow> (string \<times> string list) list \<Rightarrow> string" where
  "group_message ord cs k gs =
     ''cacheline '' @ dec (unat k) @ '' (bytes '' @ line_bytes cs k @ ''): '' @ dec (length gs) @ '' writer groups collide'' @
     concat (map (\<lambda>(g, xs). newline # ''    group '' @ [CHR 0x27] @ g @ [CHR 0x27] @ '': '' @ join '', '' xs) (ord gs))"

definition lock_kw :: "string list" where "lock_kw = [''lock'', ''rwlock'', ''mutex'', ''atomic'', ''spinlock'']"

definition is_lock_name :: "string \<Rightarrow> bool" where
  "is_lock_name name \<longleftrightarrow> list_ex (\<lambda>kw. sublist kw (to_lower name)) lock_kw"

definition shared_message :: "u64 \<Rightarrow> u64 \<Rightarrow> string \<Rightarrow> field_layout list \<Rightarrow> string \<Rightarrow> field_layout list \<Rightarrow> string \<Rightarrow> string" where
  "shared_message cs k what xs mid ys end_text =
     cl_label cs k @ what @ ''['' @ join '', '' (names xs) @ ''] '' @ mid @ '' ['' @ join '', '' (names ys) @ '']'' @ end_text"

definition scalar :: "field_layout \<Rightarrow> bool" where "scalar f \<longleftrightarrow> \<not> fl_is_pointer f \<and> fl_size f \<le> 8"

text \<open>The verdict on one line: the three tiers of the source, in their order.\<close>

definition intent_diagnostic :: "u64 \<Rightarrow> u64 \<Rightarrow> field_layout list \<Rightarrow> diagnostic option" where
  "intent_diagnostic cs k fs =
     (let hot = filter is_write_hot fs; cold = filter (\<lambda>f. \<not> is_write_hot f) fs;
          aligned = filter fl_has_alignment fs; unaligned = filter (\<lambda>f. \<not> fl_has_alignment f) fs;
          locks = filter (\<lambda>f. is_lock_name (fl_name f)) fs; others = filter (\<lambda>f. \<not> is_lock_name (fl_name f)) fs;
          scalars = filter scalar fs; ptrs = filter fl_is_pointer fs;
          diag = (\<lambda>sev msg. Some \<lparr>dg_severity = sev, dg_cacheline = k, dg_message = msg, dg_fields = names fs\<rparr>)
      in if hot \<noteq> [] \<and> cold \<noteq> [] then diag Warning (shared_message cs k ''volatile/atomic '' hot ''shares line with'' cold [])
         else if aligned \<noteq> [] \<and> unaligned \<noteq> []
         then diag Warning (shared_message cs k ''aligned field(s) '' aligned ''share line with'' unaligned
                              ('' '' @ dash @ '' isolation intent violated''))
         else if locks \<noteq> [] \<and> others \<noteq> [] then diag Warning (shared_message cs k ''lock/atomic '' locks ''shares line with'' others [])
         else if ptrs \<noteq> [] \<and> scalars \<noteq> [] \<and> length scalars < length fs
         then diag Info (shared_message cs k ''scalar '' scalars ''adjacent to pointer'' ptrs
                           ('' '' @ dash @ '' potential write/read contention''))
         else None)"

definition line_diagnostic :: "group_order \<Rightarrow> u64 \<Rightarrow> annotations \<Rightarrow> u64 \<times> field_layout list \<Rightarrow> diagnostic option" where
  "line_diagnostic ord cs ann kf =
     (case kf of (k, fs) \<Rightarrow>
        (if length fs < 2 then None
         else if has_annotations ann then
           (let gs = groups_on ann fs in
            if 1 < length gs
            then Some \<lparr>dg_severity = Warning, dg_cacheline = k, dg_message = group_message ord cs k gs, dg_fields = names fs\<rparr>
            else None)
         else intent_diagnostic cs k fs))"

definition push_offset :: "field_layout \<Rightarrow> (u64, field_layout list) btree_map \<Rightarrow> (u64, field_layout list) btree_map" where
  "push_offset f m = push_line f (fl_offset f) m"

definition check_union_overlaps :: "field_layout list \<Rightarrow> u64 \<Rightarrow> diagnostic list" where
  "check_union_overlaps layouts cs =
     List.map_filter (\<lambda>(off, fs).
        let hot = filter is_write_hot fs; cold = filter (\<lambda>f. \<not> is_write_hot f) fs in
        if length fs < 2 then None
        else if hot \<noteq> [] \<and> cold \<noteq> []
        then Some \<lparr>dg_severity = Warning, dg_cacheline = off div cs,
               dg_message = ''union at offset '' @ alt_hex off @ '': volatile/atomic ['' @ join '', '' (names hot) @
                 ''] overlaps with ['' @ join '', '' (names cold) @ ''] '' @ dash @ '' type-confused contention'',
               dg_fields = names fs\<rparr>
        else None) (fold push_offset layouts [])"

definition div_ceil :: "u64 \<Rightarrow> u64 \<Rightarrow> u64" where
  "div_ceil a b = a div b + (if a mod b = 0 then 0 else 1)"

fun format_rows :: "u64 \<Rightarrow> annotations \<Rightarrow> u64 option \<Rightarrow> field_layout list \<Rightarrow> string" where
  "format_rows cs ann cur [] = []"
| "format_rows cs ann cur (f # fs) =
     (let k = fl_offset f div cs in
      (if cur \<noteq> Some k then ''  --- cacheline '' @ dec (unat k) @ '' ('' @ alt_hex (k * cs) @ '') ---'' @ [newline] else []) @
      ''    '' @ pad_right 40 (fl_name f) @ '' '' @ alt_hex6 (fl_offset f) @ ''  CL'' @ dec (unat k) @ ''+'' @
      pad_right 3 (dec (unat (fl_offset f mod cs))) @ ''  '' @ pad_left 4 (dec (unat (fl_size f))) @ ''B  '' @
      fl_type_name f @ (case group_for ann (fl_name f) of None \<Rightarrow> [] | Some g \<Rightarrow> ''  ['' @ g @ '']'') @ [newline] @
      format_rows cs ann (Some k) fs)"

definition format_layout :: "type_info \<Rightarrow> field_layout list \<Rightarrow> u64 \<Rightarrow> annotations \<Rightarrow> string" where
  "format_layout ti ls cs ann =
     ''struct '' @ ti_name ti @ '' ('' @ dec (unat (ti_byte_size ti)) @ '' bytes, '' @
     dec (unat (div_ceil (ti_byte_size ti) cs)) @ '' cachelines at '' @ dec (unat cs) @ ''B/line)'' @ [newline] @
     format_rows cs ann None ls"

definition analyze_struct :: "group_order \<Rightarrow> type_info \<Rightarrow> u64 \<Rightarrow> annotations \<Rightarrow> diagnostic list outcome" where
  "analyze_struct ord ti cs ann =
     (if cs = 0 then Panic
      else
        (let ls = layouts_of cs ti in
         Value (List.map_filter (line_diagnostic ord cs ann) (cl_fields ls) @ check_union_overlaps ls cs @
           [\<lparr>dg_severity = Info, dg_cacheline = 0, dg_message = format_layout ti ls cs ann, dg_fields = []\<rparr>])))"



subsection \<open>Two versions of a structure\<close>

text \<open>A map from names to fields, in which a later field of the same name replaces an earlier one.\<close>

definition field_map :: "type_info \<Rightarrow> string \<Rightarrow> field_info option" where
  "field_map ti = map_of (rev (map (\<lambda>f. (fi_name f, f)) (ti_fields ti)))"

definition field_keys :: "(string list \<Rightarrow> string list) \<Rightarrow> type_info \<Rightarrow> string list" where
  "field_keys ord ti = ord (remdups (map fi_name (ti_fields ti)))"

definition moved_diagnostic :: "type_info \<Rightarrow> type_info \<Rightarrow> string \<Rightarrow> u64 \<Rightarrow> string \<Rightarrow> diagnostic option" where
  "moved_diagnostic old new sname cs name =
     (case (field_map old name, field_map new name) of
        (Some fo, Some fn) \<Rightarrow>
          (let old_cl = fi_byte_offset fo div cs; new_cl = fi_byte_offset fn div cs in
           if old_cl \<noteq> new_cl
           then Some \<lparr>dg_severity = Warning, dg_cacheline = new_cl,
                  dg_message = sname @ ''.'' @ name @ '' moved CL'' @ dec (unat old_cl) @ '' ('' @ alt_hex (fi_byte_offset fo) @
                    '') -> CL'' @ dec (unat new_cl) @ '' ('' @ alt_hex (fi_byte_offset fn) @ '')'',
                  dg_fields = [name]\<rparr>
           else None)
      | _ \<Rightarrow> None)"

definition added_diagnostic :: "type_info \<Rightarrow> type_info \<Rightarrow> string \<Rightarrow> u64 \<Rightarrow> string \<Rightarrow> diagnostic option" where
  "added_diagnostic old new sname cs name =
     (case (field_map old name, field_map new name) of
        (None, Some f) \<Rightarrow>
          Some \<lparr>dg_severity = Info, dg_cacheline = fi_byte_offset f div cs,
            dg_message = sname @ ''.'' @ name @ '' added at '' @ alt_hex (fi_byte_offset f) @
              '' (CL'' @ dec (unat (fi_byte_offset f div cs)) @ '')'',
            dg_fields = [name]\<rparr>
      | _ \<Rightarrow> None)"

definition removed_diagnostic :: "type_info \<Rightarrow> string \<Rightarrow> string \<Rightarrow> diagnostic option" where
  "removed_diagnostic new sname name =
     (if field_map new name = None
      then Some \<lparr>dg_severity = Info, dg_cacheline = 0, dg_message = sname @ ''.'' @ name @ '' removed'', dg_fields = [name]\<rparr>
      else None)"

definition size_diagnostic :: "type_info \<Rightarrow> type_info \<Rightarrow> string \<Rightarrow> u64 \<Rightarrow> diagnostic list" where
  "size_diagnostic old new sname cs =
     (if ti_byte_size old \<noteq> ti_byte_size new
      then (let old_cls = div_ceil (ti_byte_size old) cs; new_cls = div_ceil (ti_byte_size new) cs in
            [\<lparr>dg_severity = (if old_cls < new_cls then Warning else Info), dg_cacheline = 0,
              dg_message = sname @ '' size: '' @ dec (unat (ti_byte_size old)) @ '' -> '' @ dec (unat (ti_byte_size new)) @
                '' bytes ('' @ dec (unat old_cls) @ '' -> '' @ dec (unat new_cls) @ '' CLs)'',
              dg_fields = []\<rparr>])
      else [])"

text \<open>Each division by the line size is for a field of the new version or for a change of size.\<close>

definition diff_structs ::
  "(string list \<Rightarrow> string list) \<Rightarrow> type_info \<Rightarrow> type_info \<Rightarrow> string \<Rightarrow> u64 \<Rightarrow> diagnostic list outcome" where
  "diff_structs ord old new sname cs =
     (if cs = 0 \<and> (ti_fields new \<noteq> [] \<or> ti_byte_size old \<noteq> ti_byte_size new) then Panic
      else Value (List.map_filter (moved_diagnostic old new sname cs) (field_keys ord new) @
                  List.map_filter (added_diagnostic old new sname cs) (field_keys ord new) @
                  List.map_filter (removed_diagnostic new sname) (field_keys ord old) @ size_diagnostic old new sname cs))"


subsection \<open>A run of the lint\<close>

definition count_warnings :: "diagnostic list \<Rightarrow> nat" where
  "count_warnings ds = length (filter (\<lambda>d. dg_severity d = Warning) ds)"

text \<open>
  The diagnostics that are printed for each of the structures, and the exit status; the structures
  that are clean are skipped when all are checked.
\<close>

fun check_structs ::
  "group_order \<Rightarrow> bool \<Rightarrow> u64 \<Rightarrow> annotations \<Rightarrow> (string \<times> type_info) list \<Rightarrow> ((string \<times> diagnostic list) list \<times> nat) outcome" where
  "check_structs ord all cs ann [] = Value ([], 0)"
| "check_structs ord all cs ann ((name, ti) # sts) =
     (case analyze_struct ord ti cs ann of Panic \<Rightarrow> Panic
      | Value ds \<Rightarrow>
          (case check_structs ord all cs ann sts of Panic \<Rightarrow> Panic
           | Value (out, n) \<Rightarrow>
               (let w = count_warnings ds in
                Value (if all \<and> w = 0 then out else (name, ds) # out, w + n))))"

definition exit_status :: "nat \<Rightarrow> nat" where
  "exit_status warnings = (if 0 < warnings then 1 else 0)"

definition diagnostic_json :: "bool \<Rightarrow> diagnostic \<Rightarrow> string" where
  "diagnostic_json comma d =
     (let msg = replace_all [newline] [bslash, CHR ''n'']
                  (replace_all [quote_char] [bslash, quote_char] (replace_all [bslash] [bslash, bslash] (dg_message d)))
      in ''  {'' @ quoted ''severity'' @ '':'' @ quoted (case dg_severity d of Warning \<Rightarrow> ''warning'' | Info \<Rightarrow> ''info'') @
         '','' @ quoted ''cacheline'' @ '':'' @ dec (unat (dg_cacheline d)) @
         '','' @ quoted ''message'' @ '':'' @ quoted msg @
         '','' @ quoted ''fields'' @ '':['' @ join '','' (map quoted (dg_fields d)) @ '']}'' @ (if comma then '','' else []))"

fun diagnostics_rows :: "diagnostic list \<Rightarrow> string list" where
  "diagnostics_rows [] = []"
| "diagnostics_rows (d # ds) = diagnostic_json (ds \<noteq> []) d # diagnostics_rows ds"

definition print_diagnostics_json :: "diagnostic list \<Rightarrow> string list" where
  "print_diagnostics_json ds = [''[''] @ diagnostics_rows ds @ ['']'']"



subsection \<open>What the warnings mean\<close>

text \<open>A field lies inside the structure it is part of, at every level.\<close>

function nested :: "nat \<Rightarrow> field_info list \<Rightarrow> bool" where
  "nested n [] \<longleftrightarrow> True"
| "nested n (f # fs) \<longleftrightarrow>
     unat (fi_byte_offset f) + unat (fi_byte_size f) \<le> n \<and>
     (ti_fields (fi_type_info f) = [] \<or> ti_is_pointer (fi_type_info f) \<or>
      nested (unat (fi_byte_size f)) (ti_fields (fi_type_info f))) \<and> nested n fs"
  by pat_completeness auto
termination
proof (relation "measure (\<lambda>(_, fs). size_list size fs)", goal_cases)
  case (2 n f fs)
  have "size (fi_type_info f) < size f" by (cases f) simp
  with size_type_fields [of "fi_type_info f"] show ?case by simp
qed simp_all

text \<open>A field has a byte on a cache line; a field without size counts as one byte.\<close>

definition on_line :: "u64 \<Rightarrow> field_layout \<Rightarrow> u64 \<Rightarrow> bool" where
  "on_line cs f k \<longleftrightarrow>
     (\<exists>b. unat (fl_offset f) \<le> b \<and> b < unat (fl_offset f) + max 1 (unat (fl_size f)) \<and> b div unat cs = unat k)"

definition clash :: "annotations \<Rightarrow> field_layout \<Rightarrow> field_layout \<Rightarrow> bool" where
  "clash ann f g \<longleftrightarrow>
     (if has_annotations ann
      then (case (group_for ann (fl_name f), group_for ann (fl_name g)) of (Some a, Some b) \<Rightarrow> a \<noteq> b | _ \<Rightarrow> False)
      else is_write_hot f \<and> \<not> is_write_hot g \<or> fl_has_alignment f \<and> \<not> fl_has_alignment g \<or>
           is_lock_name (fl_name f) \<and> \<not> is_lock_name (fl_name g))"

definition wf_layout :: "u64 \<Rightarrow> field_layout \<Rightarrow> bool" where
  "wf_layout cs l \<longleftrightarrow> unat (fl_cl_start l) = unat (fl_offset l) div unat cs \<and>
     unat (fl_cl_end l) = (unat (fl_offset l) + max 1 (unat (fl_size l)) - 1) div unat cs"

lemma flatten_bounds:
  assumes "nested n fs" "unat base + n < 2 ^ 64" "l \<in> set (flatten_fields cs fs base pre depth)"
  shows "wf_layout cs l \<and> unat base \<le> unat (fl_offset l) \<and> unat (fl_offset l) + unat (fl_size l) \<le> unat base + n"
  using assms
proof (induction cs fs base pre depth arbitrary: n rule: flatten_fields.induct)
  case (2 cs f fs base pre depth)
  have f: "unat (fi_byte_offset f) + unat (fi_byte_size f) \<le> n" "nested n fs"
    and sub: "ti_fields (fi_type_info f) = [] \<or> ti_is_pointer (fi_type_info f) \<or> nested (unat (fi_byte_size f)) (ti_fields (fi_type_info f))"
    using "2.prems"(1) by simp_all
  have d: "\<not> 8 < depth" using "2.prems"(3) by (auto simp: flatten_fields.simps(2))
  have off: "unat (base + fi_byte_offset f) = unat base + unat (fi_byte_offset f)"
    using f(1) "2.prems"(2) by (simp add: unat_add_small)
  from "2.prems"(3) d consider
    (leaf) "l = leaf_layout cs (dotted pre (fi_name f)) (base + fi_byte_offset f) f"
  | (deep) "\<not> (ti_fields (fi_type_info f) = [] \<or> ti_is_pointer (fi_type_info f))"
      "l \<in> set (flatten_fields cs (ti_fields (fi_type_info f)) (base + fi_byte_offset f) (dotted pre (fi_name f)) (depth + 1))"
  | (rest) "l \<in> set (flatten_fields cs fs base pre depth)"
    by (auto simp: flatten_fields.simps(2) Let_def split: if_splits)
  then show ?case
  proof cases
    case leaf
    have m: "unat (max (fi_byte_size f) 1) = max 1 (unat (fi_byte_size f))"
      by (simp add: max_def word_le_nat_alt)
    have y: "unat (max (fi_byte_size f) 1 - 1) = unat (max (fi_byte_size f) 1) - 1"
      using m by (subst unat_sub) (simp_all add: word_le_nat_alt)
    have "unat (base + fi_byte_offset f) + unat (max (fi_byte_size f) 1 - 1) < 2 ^ 64"
      using f(1) "2.prems"(2) unfolding off m y by linarith
    then have "unat ((base + fi_byte_offset f) + (max (fi_byte_size f) 1 - 1)) =
        unat (base + fi_byte_offset f) + unat (max (fi_byte_size f) 1 - 1)" by (intro unat_add_small) simp
    then have e: "unat (base + fi_byte_offset f + max (fi_byte_size f) 1 - 1) =
        unat (base + fi_byte_offset f) + max 1 (unat (fi_byte_size f)) - 1"
      unfolding y m by (simp add: algebra_simps)
    show ?thesis
      using f(1) unfolding leaf wf_layout_def leaf_layout_def field_layout.simps unat_div e off by simp
  next
    case deep
    have "unat (base + fi_byte_offset f) + unat (fi_byte_size f) < 2 ^ 64" using off f(1) "2.prems"(2) by simp
    from "2.IH"(1) [OF d refl refl refl deep(1) _ this deep(2)] sub deep(1) off f(1) show ?thesis by auto
  next
    case rest
    from "2.IH"(2) [OF d refl refl refl f(2) "2.prems"(2) rest] show ?thesis .
  qed
qed simp

lemma cachelines_distinct: "distinct (cachelines l)"
proof -
  have "inj_on (of_nat :: nat \<Rightarrow> u64) {unat (fl_cl_start l)..<Suc (unat (fl_cl_end l))}"
  proof (rule inj_onI)
    fix x y assume "x \<in> {unat (fl_cl_start l)..<Suc (unat (fl_cl_end l))}" "y \<in> {unat (fl_cl_start l)..<Suc (unat (fl_cl_end l))}"
      and e: "of_nat x = (of_nat y :: u64)"
    then have "x < 2 ^ 64" "y < 2 ^ 64" using unat_lt [of "fl_cl_end l"] by auto
    with e show "x = y" by (simp add: word_of_nat_eq_iff take_bit_nat_eq_self)
  qed
  then show ?thesis by (simp add: cachelines_def distinct_map del: upt_Suc)
qed

lemma cachelines_iff: "k \<in> set (cachelines l) \<longleftrightarrow> unat (fl_cl_start l) \<le> unat k \<and> unat k \<le> unat (fl_cl_end l)"
proof
  assume "k \<in> set (cachelines l)"
  then obtain n where n: "unat (fl_cl_start l) \<le> n" "n < Suc (unat (fl_cl_end l))" "k = of_nat n" by (auto simp: cachelines_def)
  then have "n < 2 ^ 64" using unat_lt [of "fl_cl_end l"] by simp
  with n show "unat (fl_cl_start l) \<le> unat k \<and> unat k \<le> unat (fl_cl_end l)" by (simp add: unat_of_nat take_bit_nat_eq_self)
next
  assume "unat (fl_cl_start l) \<le> unat k \<and> unat k \<le> unat (fl_cl_end l)"
  then show "k \<in> set (cachelines l)"
    unfolding cachelines_def by (auto intro!: image_eqI [of k of_nat "unat k"] simp del: upt_Suc)
qed

lemma cachelines_on_line:
  assumes "wf_layout cs l" "cs \<noteq> 0"
  shows "k \<in> set (cachelines l) \<longleftrightarrow> on_line cs l k"
proof -
  define a c e where "a = unat (fl_offset l)" and "c = unat cs" and "e = a + max 1 (unat (fl_size l))"
  have c: "0 < c" using assms(2) by (simp add: c_def unat_gt_0)
  have "a div c \<le> m \<and> m \<le> (e - 1) div c \<longleftrightarrow> (\<exists>b. a \<le> b \<and> b < e \<and> b div c = m)" for m
  proof
    assume m: "a div c \<le> m \<and> m \<le> (e - 1) div c"
    show "\<exists>b. a \<le> b \<and> b < e \<and> b div c = m"
    proof (cases "a div c = m")
      case True
      then show ?thesis by (intro exI [of _ a]) (simp add: e_def)
    next
      case False
      with m have "a div c < m" by simp
      then have "a < m * c" using c by (simp add: div_less_iff_less_mult)
      moreover have "m * c \<le> e - 1" using m c by (simp add: less_eq_div_iff_mult_less_eq)
      moreover have "0 < e" by (auto simp: e_def less_max_iff_disj)
      ultimately show ?thesis using c by (intro exI [of _ "m * c"]) simp
    qed
  qed (auto intro: div_le_mono)
  then show ?thesis
    using assms(1) unfolding cachelines_iff on_line_def wf_layout_def a_def c_def e_def by simp
qed


subsubsection \<open>The fields of a line\<close>

definition opt_list :: "'a list option \<Rightarrow> 'a list" where "opt_list x = (case x of None \<Rightarrow> [] | Some xs \<Rightarrow> xs)"

lemma push_line_get:
  assumes "bt_inv m"
  shows "bt_inv (push_line l k m)" "opt_list (bt_get (push_line l k m) k') = opt_list (bt_get m k') @ (if k' = k then [l] else [])"
    "bt_get (push_line l k m) k' = Some [] \<Longrightarrow> bt_get m k' = Some []"
  using assms by (auto simp: push_line_def bt_inv_insert get_bt_insert opt_list_def split: option.splits if_splits)

lemma push_lines_get:
  assumes "bt_inv m" "distinct ks"
  shows "bt_inv (fold (push_line l) ks m) \<and>
    opt_list (bt_get (fold (push_line l) ks m) k) = opt_list (bt_get m k) @ (if k \<in> set ks then [l] else []) \<and>
    (bt_get (fold (push_line l) ks m) k = Some [] \<longrightarrow> bt_get m k = Some [])"
  using assms
proof (induction ks arbitrary: m)
  case (Cons j ks)
  note p = push_line_get [OF Cons.prems(1), of l j]
  from Cons.IH [OF p(1)] Cons.prems(2) p(2,3) [of k] show ?case by auto
qed simp

text \<open>A map from keys to the layouts that have them, in their order.\<close>

lemma group_lines:
  assumes "bt_inv m" "\<And>l. distinct (keys l)"
  shows "bt_inv (fold (\<lambda>l. fold (push_line l) (keys l)) ls m) \<and>
    opt_list (bt_get (fold (\<lambda>l. fold (push_line l) (keys l)) ls m) k) = opt_list (bt_get m k) @ filter (\<lambda>l. k \<in> set (keys l)) ls \<and>
    (bt_get (fold (\<lambda>l. fold (push_line l) (keys l)) ls m) k = Some [] \<longrightarrow> bt_get m k = Some [])"
  using assms(1)
proof (induction ls arbitrary: m)
  case (Cons l ls)
  note p = push_lines_get [OF Cons.prems assms(2) [of l], of l]
  from Cons.IH [of "fold (push_line l) (keys l) m"] p show ?case by auto
qed simp

lemma in_groups:
  assumes "\<And>l. distinct (keys l)"
  shows "(k, fs) \<in> set (fold (\<lambda>l. fold (push_line l) (keys l)) ls []) \<longleftrightarrow> fs = filter (\<lambda>l. k \<in> set (keys l)) ls \<and> fs \<noteq> []"
proof -
  let ?m = "fold (\<lambda>l. fold (push_line l) (keys l)) ls []"
  note g = group_lines [of "[]" keys ls k, OF bt_inv_Nil assms]
  have "(k, fs) \<in> set ?m \<longleftrightarrow> bt_get ?m k = Some fs" using g by (simp add: get_in_set)
  also have "\<dots> \<longleftrightarrow> fs = filter (\<lambda>l. k \<in> set (keys l)) ls \<and> fs \<noteq> []"
    using g by (cases "bt_get ?m k") (auto simp: opt_list_def)
  finally show ?thesis .
qed

lemma in_cl_fields: "(k, fs) \<in> set (cl_fields ls) \<longleftrightarrow> fs = filter (\<lambda>l. k \<in> set (cachelines l)) ls \<and> fs \<noteq> []"
  unfolding cl_fields_def by (rule in_groups) (rule cachelines_distinct)

lemma in_offsets: "(k, fs) \<in> set (fold push_offset ls []) \<longleftrightarrow> fs = filter (\<lambda>l. k = fl_offset l) ls \<and> fs \<noteq> []"
proof -
  have "fold push_offset ls [] = fold (\<lambda>l. fold (push_line l) [fl_offset l]) ls []"
    by (intro fold_cong) (simp_all add: push_offset_def [abs_def])
  then show ?thesis using in_groups [of "\<lambda>l. [fl_offset l]" k fs ls] by simp
qed


subsubsection \<open>The verdict on a line\<close>

lemma groups_on_keys:
  "distinct (map fst (groups_on ann fs)) \<and> fst ` set (groups_on ann fs) = {g. \<exists>f \<in> set fs. group_for ann (fl_name f) = Some g}"
proof -
  define step where "step = (\<lambda>(f :: field_layout) m. case group_for ann (fl_name f) of None \<Rightarrow> m
      | Some g \<Rightarrow> AList.update g ((case map_of m g of None \<Rightarrow> [] | Some xs \<Rightarrow> xs) @ [fl_name f]) m)"
  have "distinct (map fst m) \<Longrightarrow> distinct (map fst (fold step fs m)) \<and>
      fst ` set (fold step fs m) = fst ` set m \<union> {g. \<exists>f \<in> set fs. group_for ann (fl_name f) = Some g}" for m
  proof (induction fs arbitrary: m)
    case (Cons f fs)
    have "distinct (map fst (step f m))" "fst ` set (step f m) = fst ` set m \<union> {g. group_for ann (fl_name f) = Some g}"
      using Cons.prems by (auto simp: step_def distinct_update dom_update split: option.splits)
    with Cons.IH [of "step f m"] show ?case by auto
  qed simp
  from this [of "[]"] show ?thesis by (simp add: groups_on_def step_def)
qed

lemma two_keys:
  assumes "distinct (map fst gs)"
  shows "1 < length gs \<longleftrightarrow> (\<exists>a \<in> fst ` set gs. \<exists>b \<in> fst ` set gs. a \<noteq> b)"
proof -
  have c: "card (fst ` set gs) = length gs" using distinct_card [OF assms] by simp
  show ?thesis
  proof
    assume "1 < length gs"
    then obtain x y zs where "gs = x # y # zs" by (cases gs; cases "tl gs") auto
    with assms show "\<exists>a \<in> fst ` set gs. \<exists>b \<in> fst ` set gs. a \<noteq> b" by auto
  next
    assume "\<exists>a \<in> fst ` set gs. \<exists>b \<in> fst ` set gs. a \<noteq> b"
    then obtain a b where "{a, b} \<subseteq> fst ` set gs" "a \<noteq> b" by blast
    then have "card {a, b} \<le> card (fst ` set gs)" by (intro card_mono) simp_all
    with \<open>a \<noteq> b\<close> c show "1 < length gs" by simp
  qed
qed

lemma two_elements: "f \<in> set fs \<Longrightarrow> g \<in> set fs \<Longrightarrow> f \<noteq> g \<Longrightarrow> 2 \<le> length fs"
  by (cases fs; cases "tl fs") auto

definition warns :: "diagnostic option \<Rightarrow> u64 \<Rightarrow> bool" where
  "warns d k \<longleftrightarrow> (\<exists>x. d = Some x \<and> dg_severity x = Warning \<and> dg_cacheline x = k)"

lemma line_diagnostic_warns:
  "warns (line_diagnostic ord cs ann (k, fs)) j \<longleftrightarrow> j = k \<and> (\<exists>f \<in> set fs. \<exists>g \<in> set fs. clash ann f g)"
proof (cases "length fs < 2")
  case True
  have "\<not> clash ann f g" if "f \<in> set fs" "g \<in> set fs" for f g
    using two_elements [OF that] True by (cases "f = g") (auto simp: clash_def split: option.splits)
  with True show ?thesis by (auto simp: warns_def line_diagnostic_def)
next
  case False
  show ?thesis
  proof (cases "has_annotations ann")
    case True
    have c: "clash ann f g \<longleftrightarrow> (\<exists>a b. group_for ann (fl_name f) = Some a \<and> group_for ann (fl_name g) = Some b \<and> a \<noteq> b)" for f g
      using True by (auto simp: clash_def split: option.splits)
    have "1 < length (groups_on ann fs) \<longleftrightarrow> (\<exists>f \<in> set fs. \<exists>g \<in> set fs. clash ann f g)"
      unfolding two_keys [OF conjunct1 [OF groups_on_keys]] conjunct2 [OF groups_on_keys]
      unfolding c by blast
    with False True show ?thesis by (auto simp: warns_def line_diagnostic_def Let_def)
  next
    case False': False
    have e: "filter P fs \<noteq> [] \<and> filter (\<lambda>f. \<not> P f) fs \<noteq> [] \<longleftrightarrow> (\<exists>f \<in> set fs. \<exists>g \<in> set fs. P f \<and> \<not> P g)" for P
      by (auto simp: filter_empty_conv)
    have "(\<exists>f \<in> set fs. \<exists>g \<in> set fs. clash ann f g) \<longleftrightarrow>
        (\<exists>f \<in> set fs. \<exists>g \<in> set fs. is_write_hot f \<and> \<not> is_write_hot g) \<or>
        (\<exists>f \<in> set fs. \<exists>g \<in> set fs. fl_has_alignment f \<and> \<not> fl_has_alignment g) \<or>
        (\<exists>f \<in> set fs. \<exists>g \<in> set fs. is_lock_name (fl_name f) \<and> \<not> is_lock_name (fl_name g))"
      using False' by (auto simp: clash_def)
    with False False' show ?thesis
      unfolding line_diagnostic_def intent_diagnostic_def Let_def split_conv e by (auto simp: warns_def)
  qed
qed

lemma map_filter_warns:
  "(\<exists>d \<in> set (List.map_filter g xs). dg_severity d = Warning \<and> dg_cacheline d = k) \<longleftrightarrow> (\<exists>x \<in> set xs. warns (g x) k)"
  by (fastforce simp: List.map_filter_def warns_def)


lemma union_warns:
  "(\<exists>d \<in> set (check_union_overlaps ls cs). dg_severity d = Warning \<and> dg_cacheline d = k) \<longleftrightarrow>
   (\<exists>f \<in> set ls. \<exists>g \<in> set ls. fl_offset f = fl_offset g \<and> is_write_hot f \<and> \<not> is_write_hot g \<and> k = fl_offset f div cs)"
  (is "?L \<longleftrightarrow> ?R")
proof
  assume ?L
  then obtain off fs where m: "(off, fs) \<in> set (fold push_offset ls [])" "k = off div cs"
      "filter is_write_hot fs \<noteq> []" "filter (\<lambda>f. \<not> is_write_hot f) fs \<noteq> []"
    unfolding check_union_overlaps_def map_filter_warns by (auto simp: warns_def Let_def split: if_splits)
  then obtain f g where fg: "f \<in> set fs" "is_write_hot f" "g \<in> set fs" "\<not> is_write_hot g" by (auto simp: filter_empty_conv)
  then have "f \<in> set ls" "g \<in> set ls" "off = fl_offset f" "off = fl_offset g" using m(1) unfolding in_offsets by auto
  with fg m(2) show ?R by metis
next
  assume ?R
  then obtain f g where fg: "f \<in> set ls" "g \<in> set ls" "fl_offset f = fl_offset g" "is_write_hot f" "\<not> is_write_hot g" "k = fl_offset f div cs"
    by blast
  define fs where "fs = filter (\<lambda>l. fl_offset f = fl_offset l) ls"
  have fs: "f \<in> set fs" "g \<in> set fs" using fg by (simp_all add: fs_def)
  then have m: "(fl_offset f, fs) \<in> set (fold push_offset ls [])" unfolding in_offsets fs_def by (auto simp: filter_empty_conv)
  have "2 \<le> length fs" using two_elements [OF fs] fg(4,5) by blast
  moreover have "filter is_write_hot fs \<noteq> []" "filter (\<lambda>f. \<not> is_write_hot f) fs \<noteq> []"
    using fs fg(4,5) by (auto simp: filter_empty_conv)
  ultimately show ?L
    unfolding check_union_overlaps_def map_filter_warns using fg(6)
    by (intro bexI [OF _ m]) (simp add: warns_def Let_def)
qed

text \<open>
  C35 (functional).  For a structure whose fields lie inside it at every level and any line size but
  zero, the lint does not panic, each of the fields it looks at lies inside the structure, and it
  warns about a line exactly if two fields that have bytes there clash: if they are annotated with
  different groups, or, without annotations, if one of them but not the other is volatile or atomic,
  is aligned to a line, or has the name of a lock; besides, it warns if two fields at the same offset
  on the line differ in being volatile or atomic.
\<close>

theorem lint_warns_exactly:
  assumes "cs \<noteq> 0" "nested (unat (ti_byte_size ti)) (ti_fields ti)"
  shows "\<exists>ds. analyze_struct ord ti cs ann = Value ds \<and>
    (\<forall>f \<in> set (flatten_fields cs (ti_fields ti) 0 [] 0). unat (fl_offset f) + unat (fl_size f) \<le> unat (ti_byte_size ti)) \<and>
    (\<forall>k. (\<exists>d \<in> set ds. dg_severity d = Warning \<and> dg_cacheline d = k) \<longleftrightarrow>
      (\<exists>f \<in> set (flatten_fields cs (ti_fields ti) 0 [] 0). \<exists>g \<in> set (flatten_fields cs (ti_fields ti) 0 [] 0).
         on_line cs f k \<and> on_line cs g k \<and> clash ann f g \<or>
         fl_offset f = fl_offset g \<and> k = fl_offset f div cs \<and> is_write_hot f \<and> \<not> is_write_hot g))"
proof -
  define ls where "ls = layouts_of cs ti"
  define ms where "ms = flatten_fields cs (ti_fields ti) 0 [] 0"
  define info where "info = \<lparr>dg_severity = Info, dg_cacheline = 0, dg_message = format_layout ti ls cs ann, dg_fields = []\<rparr>"
  define ds where "ds = List.map_filter (line_diagnostic ord cs ann) (cl_fields ls) @ check_union_overlaps ls cs @ [info]"
  have "unat (0 :: u64) + unat (ti_byte_size ti) < 2 ^ 64" using unat_lt [of "ti_byte_size ti"] by simp
  note b = flatten_bounds [OF assms(2) this, of _ cs "[]" 0, folded ms_def]
  have set: "set ls = set ms" by (simp add: ls_def layouts_of_def ms_def)
  have "(\<exists>x \<in> set (cl_fields ls). warns (line_diagnostic ord cs ann x) k) \<longleftrightarrow>
      (\<exists>f \<in> set ms. \<exists>g \<in> set ms. on_line cs f k \<and> on_line cs g k \<and> clash ann f g)" (is "?L \<longleftrightarrow> ?R") for k
  proof -
    have "?L \<longleftrightarrow> (\<exists>fs. (k, fs) \<in> set (cl_fields ls) \<and> (\<exists>f \<in> set fs. \<exists>g \<in> set fs. clash ann f g))"
      using line_diagnostic_warns by fastforce
    also have "\<dots> \<longleftrightarrow> (\<exists>f \<in> set ls. \<exists>g \<in> set ls. k \<in> set (cachelines f) \<and> k \<in> set (cachelines g) \<and> clash ann f g)"
      unfolding in_cl_fields by (auto simp: filter_empty_conv)
    also have "\<dots> \<longleftrightarrow> ?R" unfolding set using b cachelines_on_line [OF _ assms(1)] by blast
    finally show ?thesis .
  qed
  then have "(\<exists>d \<in> set ds. dg_severity d = Warning \<and> dg_cacheline d = k) \<longleftrightarrow>
      (\<exists>f \<in> set ms. \<exists>g \<in> set ms. on_line cs f k \<and> on_line cs g k \<and> clash ann f g) \<or>
      (\<exists>f \<in> set ms. \<exists>g \<in> set ms. fl_offset f = fl_offset g \<and> is_write_hot f \<and> \<not> is_write_hot g \<and> k = fl_offset f div cs)" for k
    unfolding ds_def set_append bex_Un map_filter_warns union_warns set by (simp add: info_def)
  moreover have "analyze_struct ord ti cs ann = Value ds"
    using assms(1) by (simp add: analyze_struct_def Let_def ds_def ls_def info_def)
  ultimately show ?thesis unfolding ms_def [symmetric] using b by auto
qed

text \<open>A counter that is written often, in a structure within a structure, next to a field that is not.\<close>

definition demo_struct :: type_info where
  "demo_struct =
     (let u = \<lambda>v. Type_Info ''u32'' 4 False v False False []
      in Type_Info ''outer'' 16 False False False False
           [Field_Info ''size'' 0 4 (u False) 0,
            Field_Info ''stats'' 8 8 (Type_Info ''stats'' 8 False False False False
              [Field_Info ''hits'' 0 4 (u True) 0, Field_Info ''clock'' 4 4 (u False) 0]) 0])"

theorem lint_warns_exactly_witness:
  "\<exists>ds. analyze_struct id demo_struct 64 [] = Value ds \<and> (\<exists>d \<in> set ds. dg_severity d = Warning \<and> dg_cacheline d = 0)"
proof -
  have c64: "(64 :: u64) \<noteq> 0" by simp
  have n: "nested (unat (ti_byte_size demo_struct)) (ti_fields demo_struct)" by (simp add: demo_struct_def)
  define f g where "f = leaf_layout 64 ''stats.hits'' 8 (Field_Info ''hits'' 0 4 (Type_Info ''u32'' 4 False True False False []) 0)"
    and "g = leaf_layout 64 ''size'' 0 (Field_Info ''size'' 0 4 (Type_Info ''u32'' 4 False False False False []) 0)"
  have "f \<in> set (flatten_fields 64 (ti_fields demo_struct) 0 [] 0)" "g \<in> set (flatten_fields 64 (ti_fields demo_struct) 0 [] 0)"
    by (simp_all add: demo_struct_def Let_def flatten_fields.simps(2) dotted_def f_def g_def)
  moreover have "on_line 64 f 0 \<and> on_line 64 g 0 \<and> clash [] f g"
    by (auto simp: on_line_def f_def g_def leaf_layout_def clash_def has_annotations_def is_write_hot_def intro: exI [of _ 8] exI [of _ 0])
  ultimately show ?thesis
    using lint_warns_exactly [OF c64 n, of id "[]"] by (elim exE conjE) (drule spec [where x = 0], blast)
qed

text \<open>
  Fields that are all written often share a line without a warning, though they are the ones that
  contend for it; and a name counts as that of a lock wherever the letters occur in it.
\<close>

lemma hot_line_unreported:
  assumes "\<forall>f \<in> set fs. is_write_hot f \<and> \<not> fl_is_pointer f \<and> \<not> fl_has_alignment f \<and> \<not> is_lock_name (fl_name f)"
  shows "line_diagnostic ord cs [] (k, fs) = None"
  using assms by (auto simp: line_diagnostic_def has_annotations_def intent_diagnostic_def Let_def filter_empty_conv)

lemma clock_is_a_lock: "is_lock_name ''clock''" "is_lock_name ''block_size''"
  by (simp_all add: is_lock_name_def lock_kw_def to_lower_def sublist_Cons_right)


subsection \<open>The difference of two versions\<close>

lemma set_map_filter_iff: "d \<in> set (List.map_filter g xs) \<longleftrightarrow> (\<exists>x \<in> set xs. g x = Some d)"
  by (induction xs) (auto simp: List.map_filter_simps split: option.split)

lemma moved_None:
  "moved_diagnostic old new sname cs name = None \<longleftrightarrow>
     (\<forall>fo fn. field_map old name = Some fo \<and> field_map new name = Some fn \<longrightarrow> fi_byte_offset fo div cs = fi_byte_offset fn div cs)"
  by (auto simp: moved_diagnostic_def Let_def split: option.split)

lemma moved_severity: "moved_diagnostic old new sname cs name = Some d \<Longrightarrow> dg_severity d = Warning"
  by (auto simp: moved_diagnostic_def Let_def split: option.splits if_splits)

lemma added_severity: "added_diagnostic old new sname cs name = Some d \<Longrightarrow> dg_severity d = Info"
  by (auto simp: added_diagnostic_def split: option.splits)

lemma removed_severity: "removed_diagnostic new sname name = Some d \<Longrightarrow> dg_severity d = Info"
  by (auto simp: removed_diagnostic_def split: if_splits)

text \<open>A difference is a warning exactly if a field is on another line or there are more lines.\<close>

lemma diff_structs_warns:
  assumes "cs \<noteq> 0" "\<And>xs. set (ord xs) = set xs"
  shows "\<exists>ds. diff_structs ord old new sname cs = Value ds \<and>
    (count_warnings ds = 0 \<longleftrightarrow>
      (\<forall>name fo fn. field_map old name = Some fo \<and> field_map new name = Some fn \<longrightarrow>
         fi_byte_offset fo div cs = fi_byte_offset fn div cs) \<and>
      \<not> div_ceil (ti_byte_size old) cs < div_ceil (ti_byte_size new) cs)"
proof -
  define m a r where "m = List.map_filter (moved_diagnostic old new sname cs) (field_keys ord new)"
    and "a = List.map_filter (added_diagnostic old new sname cs) (field_keys ord new)"
    and "r = List.map_filter (removed_diagnostic new sname) (field_keys ord old)"
  have keys: "name \<in> set (field_keys ord new)" if "field_map new name = Some fn" for name fn
    using map_of_SomeD [OF that [unfolded field_map_def]] assms(2) by (auto simp: field_keys_def)
  have none: "count_warnings ds = 0 \<longleftrightarrow> (\<forall>d \<in> set ds. dg_severity d \<noteq> Warning)" for ds
    by (simp add: count_warnings_def filter_empty_conv)
  have m: "(\<forall>d \<in> set m. dg_severity d \<noteq> Warning) \<longleftrightarrow>
      (\<forall>name fo fn. field_map old name = Some fo \<and> field_map new name = Some fn \<longrightarrow> fi_byte_offset fo div cs = fi_byte_offset fn div cs)"
  proof -
    have "(\<forall>d \<in> set m. dg_severity d \<noteq> Warning) \<longleftrightarrow> (\<forall>name \<in> set (field_keys ord new). moved_diagnostic old new sname cs name = None)"
      unfolding Ball_def m_def set_map_filter_iff by (metis moved_severity not_None_eq option.distinct(1))
    then show ?thesis unfolding moved_None using keys by blast
  qed
  have "dg_severity d \<noteq> Warning" if "d \<in> set a \<union> set r" for d
    using that added_severity removed_severity unfolding a_def r_def set_map_filter_iff Un_iff by (metis severity.distinct(1))
  moreover have "(\<forall>d \<in> set (size_diagnostic old new sname cs). dg_severity d \<noteq> Warning) \<longleftrightarrow>
      \<not> div_ceil (ti_byte_size old) cs < div_ceil (ti_byte_size new) cs"
    by (auto simp: size_diagnostic_def Let_def)
  ultimately have "count_warnings (m @ a @ r @ size_diagnostic old new sname cs) = 0 \<longleftrightarrow>
      (\<forall>d \<in> set m. dg_severity d \<noteq> Warning) \<and> \<not> div_ceil (ti_byte_size old) cs < div_ceil (ti_byte_size new) cs"
    unfolding none by auto
  then show ?thesis unfolding m using assms(1) by (simp add: diff_structs_def m_def a_def r_def)
qed

end
