(* ===== verification/Lint_Heat.thy ===== *)
theory Lint_Heat
  imports Layout_Lint Field_Heatmap "HOL-Library.List_Lexorder" "HOL-Library.Product_Lexorder"
begin

text \<open>
  The lint's comparison of its warnings with the writes that the engine observed
  (\<open>divergence_report\<close> of \<^verbatim>\<open>engine/src/lint.rs\<close>), and the file in which the engine exports these
  (\<open>FieldHeatmap::export_tsv\<close> of \<^verbatim>\<open>engine/src/world.rs\<close>).  Of the report the verdicts are modelled,
  not the printing.
\<close>

subsection \<open>Observed writes\<close>

record heat_entry =
  ht_type :: string
  ht_field :: string
  ht_offset :: u64
  ht_thread :: u16
  ht_writes :: u64

definition parse_or_zero :: "nat \<Rightarrow> string \<Rightarrow> nat" where
  "parse_or_zero bound s = (case parse_radix 10 bound s of None \<Rightarrow> 0 | Some n \<Rightarrow> n)"

definition parse_heat_line :: "string \<Rightarrow> heat_entry option" where
  "parse_heat_line line =
     (let cols = split_char tab_char line in
      if length cols < 5 then None
      else Some \<lparr>ht_type = cols ! 0, ht_field = cols ! 1, ht_offset = of_nat (parse_or_zero (2 ^ 64) (cols ! 2)),
                ht_thread = of_nat (parse_or_zero (2 ^ 16) (cols ! 3)), ht_writes = of_nat (parse_or_zero (2 ^ 64) (cols ! 4))\<rparr>)"

definition parse_heatmap :: "string option \<Rightarrow> heat_entry list option" where
  "parse_heatmap file =
     (case file of None \<Rightarrow> None
      | Some contents \<Rightarrow>
          (case text_lines contents of [] \<Rightarrow> Some []
           | l # ls \<Rightarrow> Some (List.map_filter parse_heat_line (if prefix ''type'' l then ls else l # ls))))"

type_synonym observed_field = "(u16 \<times> u64) list"

definition is_multi_writer :: "observed_field \<Rightarrow> bool" where
  "is_multi_writer ts \<longleftrightarrow> 1 < length ts"

text \<open>\<open>*m.entry(t).or_insert(0) += w\<close>\<close>

definition add_writes :: "u16 \<Rightarrow> u64 \<Rightarrow> observed_field \<Rightarrow> observed_field" where
  "add_writes t w m = AList.update t ((case map_of m t of None \<Rightarrow> 0 | Some n \<Rightarrow> n) + w) m"

type_synonym observed = "((string \<times> u64) \<times> observed_field) list"

definition observe :: "string \<Rightarrow> heat_entry \<Rightarrow> observed \<Rightarrow> observed" where
  "observe sname e m =
     (if ht_type e \<noteq> sname then m
      else (let k = (ht_field e, ht_offset e); old = (case map_of m k of None \<Rightarrow> [] | Some ts \<Rightarrow> ts)
            in AList.update k (add_writes (ht_thread e) (ht_writes e) old) m))"

datatype divergence_class = Confirmed | Silent_Killer | False_Alarm

definition lint_flagged :: "field_layout list \<Rightarrow> bool" where
  "lint_flagged fs \<longleftrightarrow> list_ex (\<lambda>f. is_write_hot f \<or> fl_has_alignment f \<or> is_lock_name (fl_name f)) fs"

definition line_writers :: "observed \<Rightarrow> field_layout list \<Rightarrow> observed_field" where
  "line_writers obs fs =
     fold (\<lambda>f m. case map_of obs (fl_name f, fl_offset f) of None \<Rightarrow> m
                 | Some ts \<Rightarrow> fold (\<lambda>(t, w). add_writes t w) ts m) fs []"

definition line_class :: "observed \<Rightarrow> field_layout list \<Rightarrow> divergence_class option" where
  "line_class obs fs =
     (if length fs < 2 then None
      else (case (lint_flagged fs, 1 < length (line_writers obs fs)) of
              (True, True) \<Rightarrow> Some Confirmed | (False, True) \<Rightarrow> Some Silent_Killer
            | (True, False) \<Rightarrow> Some False_Alarm | (False, False) \<Rightarrow> None))"

record divergence =
  dv_lines :: "(u64 \<times> divergence_class) list"
  dv_orphans :: "((string \<times> u64) \<times> observed_field) list"
  dv_confirmed :: u32
  dv_silent :: u32
  dv_false_alarm :: u32

definition count_class :: "divergence_class \<Rightarrow> (u64 \<times> divergence_class) list \<Rightarrow> u32" where
  "count_class c ls = of_nat (length (filter (\<lambda>l. snd l = c) ls))"

definition orphan :: "u64 \<Rightarrow> (u64, field_layout list) btree_map \<Rightarrow> (string \<times> u64) \<times> observed_field \<Rightarrow> bool" where
  "orphan cs lines e =
     (case e of ((_, off), ts) \<Rightarrow> is_multi_writer ts \<and>
        (case bt_get lines (off div cs) of None \<Rightarrow> True | Some fs \<Rightarrow> \<not> 2 \<le> length fs))"

definition divergence_report ::
  "(observed \<Rightarrow> observed) \<Rightarrow> type_info \<Rightarrow> string \<Rightarrow> u64 \<Rightarrow> heat_entry list \<Rightarrow> divergence outcome" where
  "divergence_report ord ti sname cs heat =
     (if cs = 0 then Panic
      else
        (let lines = cl_fields (layouts_of cs ti); obs = fold (observe sname) heat [];
             ds = List.map_filter (\<lambda>(k, fs). map_option (Pair k) (line_class obs fs)) lines
         in Value \<lparr>dv_lines = ds, dv_orphans = filter (orphan cs lines) (ord obs), dv_confirmed = count_class Confirmed ds,
                  dv_silent = count_class Silent_Killer ds, dv_false_alarm = count_class False_Alarm ds\<rparr>))"


subsection \<open>The export of the heat map\<close>

definition export_order :: "heat_key \<times> u64 \<Rightarrow> nat list \<times> u64 \<times> u16" where
  "export_order e = (map of_char (hk_type_name (fst e)), hk_offset (fst e), hk_thread (fst e))"

definition export_line :: "heat_key \<times> u64 \<Rightarrow> string" where
  "export_line e =
     (case e of (k, c) \<Rightarrow> hk_type_name k @ [tab_char] @ hk_field_name k @ [tab_char] @ dec (unat (hk_offset k)) @ [tab_char] @
        dec (unat (hk_thread k)) @ [tab_char] @ dec (unat c))"

definition export_rows :: "(compact_key \<times> u64) iteration \<Rightarrow> field_heatmap \<Rightarrow> (heat_key \<times> u64) list" where
  "export_rows it h = sort_key export_order (map (\<lambda>(k, c). (fh_resolve h k, c)) (it (fh_counts h)))"

definition export_header :: string where
  "export_header = ''type'' @ [tab_char] @ ''field'' @ [tab_char] @ ''offset'' @ [tab_char] @ ''thread'' @ [tab_char] @ ''writes''"

definition export_tsv :: "(compact_key \<times> u64) iteration \<Rightarrow> field_heatmap \<Rightarrow> string" where
  "export_tsv it h = concat (map (\<lambda>l. l @ [newline]) (export_header # map export_line (export_rows it h)))"


subsection \<open>What was observed\<close>

lemma fold_add_writes_keys:
  "fst ` set (fold (\<lambda>(t, w). add_writes t w) ts m) = fst ` set ts \<union> fst ` set m"
  "distinct (map fst m) \<Longrightarrow> distinct (map fst (fold (\<lambda>(t, w). add_writes t w) ts m))"
proof -
  show "fst ` set (fold (\<lambda>(t, w). add_writes t w) ts m) = fst ` set ts \<union> fst ` set m"
  proof (induction ts arbitrary: m)
    case (Cons p ts)
    then show ?case by (cases p) (simp add: add_writes_def dom_update)
  qed simp
  show "distinct (map fst m) \<Longrightarrow> distinct (map fst (fold (\<lambda>(t, w). add_writes t w) ts m))"
    by (induction ts arbitrary: m) (auto simp: add_writes_def distinct_update)
qed

definition threads_of :: "observed \<Rightarrow> string \<times> u64 \<Rightarrow> u16 set" where
  "threads_of obs k = (case map_of obs k of None \<Rightarrow> {} | Some ts \<Rightarrow> fst ` set ts)"

lemma threads_of_observe:
  "threads_of (fold (observe sname) heat m) k =
     threads_of m k \<union> {ht_thread e | e. e \<in> set heat \<and> ht_type e = sname \<and> (ht_field e, ht_offset e) = k}"
proof (induction heat arbitrary: m)
  case (Cons e heat)
  have "threads_of (observe sname e m) k =
      threads_of m k \<union> (if ht_type e = sname \<and> (ht_field e, ht_offset e) = k then {ht_thread e} else {})"
    by (auto simp: observe_def threads_of_def Let_def update_conv add_writes_def dom_update split: option.splits)
  with Cons.IH [of "observe sname e m"] show ?case by auto
qed simp

lemma line_writers_keys:
  "distinct (map fst (line_writers obs fs)) \<and>
   fst ` set (line_writers obs fs) = (\<Union>f \<in> set fs. threads_of obs (fl_name f, fl_offset f))"
proof -
  define step where "step = (\<lambda>(f :: field_layout) m. case map_of obs (fl_name f, fl_offset f) of None \<Rightarrow> m
      | Some ts \<Rightarrow> fold (\<lambda>(t, w). add_writes t w) ts m)"
  have "distinct (map fst m) \<Longrightarrow> distinct (map fst (fold step fs m)) \<and>
      fst ` set (fold step fs m) = fst ` set m \<union> (\<Union>f \<in> set fs. threads_of obs (fl_name f, fl_offset f))" for m
  proof (induction fs arbitrary: m)
    case (Cons f fs)
    have "distinct (map fst (step f m))" "fst ` set (step f m) = fst ` set m \<union> threads_of obs (fl_name f, fl_offset f)"
      using Cons.prems fold_add_writes_keys by (auto simp: step_def threads_of_def split: option.split)
    with Cons.IH [of "step f m"] show ?case by auto
  qed simp
  from this [of "[]"] show ?thesis by (simp add: line_writers_def step_def)
qed

text \<open>Two threads wrote fields of the line, under their names and offsets.\<close>

definition wrote :: "string \<Rightarrow> field_layout list \<Rightarrow> heat_entry \<Rightarrow> bool" where
  "wrote sname fs e \<longleftrightarrow> ht_type e = sname \<and> (\<exists>f \<in> set fs. fl_name f = ht_field e \<and> fl_offset f = ht_offset e)"

lemma contended_iff:
  "1 < length (line_writers (fold (observe sname) heat []) fs) \<longleftrightarrow>
     (\<exists>a \<in> set heat. \<exists>b \<in> set heat. wrote sname fs a \<and> wrote sname fs b \<and> ht_thread a \<noteq> ht_thread b)"
proof -
  have "(\<Union>f \<in> set fs. threads_of (fold (observe sname) heat []) (fl_name f, fl_offset f)) =
      {ht_thread e | e. e \<in> set heat \<and> wrote sname fs e}"
    unfolding threads_of_observe wrote_def by (fastforce simp: threads_of_def)
  then show ?thesis
    unfolding two_keys [OF conjunct1 [OF line_writers_keys]] conjunct2 [OF line_writers_keys] by auto
qed

lemma map_filter_pairs:
  "(k, c) \<in> set (List.map_filter (\<lambda>(k, fs). map_option (Pair k) (h fs)) xs) \<longleftrightarrow> (\<exists>fs. (k, fs) \<in> set xs \<and> h fs = Some c)"
proof (induction xs)
  case (Cons x xs)
  obtain j fs where "x = (j, fs)" by fastforce
  with Cons.IH show ?case by (cases "h fs") (auto simp: List.map_filter_simps)
qed (simp add: List.map_filter_simps)

lemma line_class_iff:
  "line_class obs fs = Some c \<longleftrightarrow>
     2 \<le> length fs \<and> (c = Confirmed \<and> lint_flagged fs \<and> 1 < length (line_writers obs fs) \<or>
        c = Silent_Killer \<and> \<not> lint_flagged fs \<and> 1 < length (line_writers obs fs) \<or>
        c = False_Alarm \<and> lint_flagged fs \<and> \<not> 1 < length (line_writers obs fs))"
  by (cases "lint_flagged fs"; cases "1 < length (line_writers obs fs)"; cases c) (simp_all add: line_class_def)

text \<open>
  The report has a line for each cache line with two fields or more that the lint would look at or
  that two threads wrote, with the verdict of the two questions, and its counters count them.
\<close>

lemma divergence_exact:
  assumes "divergence_report ord ti sname cs heat = Value r"
  shows "(k, c) \<in> set (dv_lines r) \<longleftrightarrow>
    (let fs = filter (\<lambda>l. k \<in> set (cachelines l)) (layouts_of cs ti);
         seen = (\<exists>a \<in> set heat. \<exists>b \<in> set heat. wrote sname fs a \<and> wrote sname fs b \<and> ht_thread a \<noteq> ht_thread b)
     in 2 \<le> length fs \<and> (c = Confirmed \<and> lint_flagged fs \<and> seen \<or> c = Silent_Killer \<and> \<not> lint_flagged fs \<and> seen \<or>
                           c = False_Alarm \<and> lint_flagged fs \<and> \<not> seen))" (is ?lines)
    and "dv_silent r = of_nat (length (filter (\<lambda>l. snd l = Silent_Killer) (dv_lines r)))" (is ?silent)
proof -
  define obs where "obs = fold (observe sname) heat []"
  have r: "dv_lines r = List.map_filter (\<lambda>(k, fs). map_option (Pair k) (line_class obs fs)) (cl_fields (layouts_of cs ti))"
    "dv_silent r = count_class Silent_Killer (dv_lines r)"
    using assms by (auto simp: divergence_report_def Let_def obs_def split: if_splits)
  have "(k, c) \<in> set (dv_lines r) \<longleftrightarrow> (\<exists>fs. (k, fs) \<in> set (cl_fields (layouts_of cs ti)) \<and> line_class obs fs = Some c)"
    unfolding r(1) by (rule map_filter_pairs)
  also have "\<dots> \<longleftrightarrow> line_class obs (filter (\<lambda>l. k \<in> set (cachelines l)) (layouts_of cs ti)) = Some c"
    unfolding in_cl_fields using line_class_iff [of obs "[]" c] by auto
  finally show ?lines
    unfolding Let_def obs_def line_class_iff contended_iff .
  show ?silent by (simp add: r(2) count_class_def)
qed

text \<open>
  The engine counts the writes to the direct fields of a structure, under their own names; the lint
  looks for the fields it flattened, by their paths.  Writes to a structure within a structure are
  never found.
\<close>

lemma nested_never_observed:
  assumes "\<forall>e \<in> set heat. CHR ''.'' \<notin> set (ht_field e)" "\<forall>f \<in> set fs. CHR ''.'' \<in> set (fl_name f)"
  shows "line_writers (fold (observe sname) heat []) fs = []"
proof -
  have "fst ` set (line_writers (fold (observe sname) heat []) fs) = {}"
    unfolding conjunct2 [OF line_writers_keys] threads_of_observe using assms by (fastforce simp: threads_of_def)
  then show ?thesis by simp
qed


subsection \<open>The file of the heat map\<close>

definition heat_entry_of :: "heat_key \<times> u64 \<Rightarrow> heat_entry" where
  "heat_entry_of e = \<lparr>ht_type = hk_type_name (fst e), ht_field = hk_field_name (fst e), ht_offset = hk_offset (fst e),
     ht_thread = hk_thread (fst e), ht_writes = snd e\<rparr>"

definition plain_name :: "string \<Rightarrow> bool" where
  "plain_name s \<longleftrightarrow> tab_char \<notin> set s \<and> newline \<notin> set s"

lemma dec_plain: "plain_name (dec n)" "creturn \<notin> set (dec n)"
  using dec_digits [of tab_char n] dec_digits [of newline n] dec_digits [of creturn n]
  by (auto simp: plain_name_def is_dec_digit_def)

lemma parse_or_zero_dec: "n < bound \<Longrightarrow> parse_or_zero bound (dec n) = n"
  by (simp add: parse_or_zero_def dec_def parse_in_base)

lemma split_char_absent: "c \<notin> set s \<Longrightarrow> split_char c s = [s]"
  by (induction s) auto

lemma parse_export_line:
  assumes "plain_name (hk_type_name k)" "plain_name (hk_field_name k)"
  shows "parse_heat_line (export_line (k, c)) = Some (heat_entry_of (k, c))"
proof -
  have d: "tab_char \<notin> set (dec n)" for n using dec_plain(1) by (simp add: plain_name_def)
  have "split_char tab_char (export_line (k, c)) =
      [hk_type_name k, hk_field_name k, dec (unat (hk_offset k)), dec (unat (hk_thread k)), dec (unat c)]"
    using assms d by (simp add: export_line_def plain_name_def split_char_line split_char_absent)
  then show ?thesis
    using unat_lt [of "hk_offset k"] unat_lt [of "hk_thread k"] unat_lt [of c]
    by (simp add: parse_heat_line_def heat_entry_of_def parse_or_zero_dec)
qed

lemma chomp_export: "chomp (export_line e) = export_line e"
proof -
  obtain k c where e: "e = (k, c)" by fastforce
  have n: "dec (unat c) \<noteq> []" by (simp add: dec_def)
  then have "last (export_line e) = last (dec (unat c))" by (simp add: export_line_def e)
  with n dec_plain(2) [of "unat c"] have "last (export_line e) \<noteq> creturn" by (metis last_in_set)
  then show ?thesis by (simp add: chomp_def)
qed

text \<open>
  C36 (roundtrip).  What the lint reads from the file that the engine exports are exactly the counts
  of the heat map, in the order of the file, as long as no name has a tab or a line end in it.
\<close>

theorem heatmap_file_roundtrip:
  assumes "\<forall>e \<in> set (export_rows it h). plain_name (hk_type_name (fst e)) \<and> plain_name (hk_field_name (fst e))"
  shows "parse_heatmap (Some (export_tsv it h)) = Some (map heat_entry_of (export_rows it h))"
proof -
  let ?ls = "export_header # map export_line (export_rows it h)"
  have nl: "\<forall>l \<in> set ?ls. newline \<notin> set l"
    using assms dec_plain(1) by (fastforce simp: export_line_def export_header_def plain_name_def)
  have t: "text_lines (export_tsv it h) = export_header # map export_line (export_rows it h)"
    unfolding export_tsv_def text_lines_all [OF nl] by (simp add: chomp_export) (simp add: chomp_def export_header_def)
  have "List.map_filter parse_heat_line (map export_line es) = map heat_entry_of es"
    if "\<forall>e \<in> set es. plain_name (hk_type_name (fst e)) \<and> plain_name (hk_field_name (fst e))" for es
    using that by (induction es) (auto simp: List.map_filter_simps parse_export_line)
  from this [OF assms] show ?thesis by (simp add: parse_heatmap_def t) (simp add: export_header_def)
qed

theorem heatmap_file_roundtrip_witness:
  "parse_heatmap (Some (export_tsv id (fh_record 3 ''node'' ''next'' 8 fh_new))) =
     Some [\<lparr>ht_type = ''node'', ht_field = ''next'', ht_offset = 8, ht_thread = 3, ht_writes = 1\<rparr>]"
proof -
  have "export_rows id (fh_record 3 ''node'' ''next'' 8 fh_new) =
      [(\<lparr>hk_thread = 3, hk_type_name = ''node'', hk_field_name = ''next'', hk_offset = 8\<rparr>, 1)]"
    by (simp add: export_rows_def fh_record_def fh_key_def fh_intern_def fh_new_def bump_def fh_resolve_def id_str_def)
  with heatmap_file_roundtrip [of id "fh_record 3 ''node'' ''next'' 8 fh_new"] show ?thesis
    by (simp add: plain_name_def heat_entry_of_def)
qed

end
