(* ===== verification/Command_Line.thy ===== *)
theory Command_Line
  imports Config Lint_Heat
begin

text \<open>
  The command line of rtmap (\<^verbatim>\<open>engine/src/main.rs\<close>): the options, the commands, how the profile of a
  program and the defaults of the configuration complete them, the arguments with which the tracer
  is started, and the commands \<open>setup\<close> and \<open>init\<close>.  A command either ends the process with a status
  or proceeds with a value.  Which files exist, the environment and the symbols of an executable are
  parameters.
\<close>

datatype 'a attempt = Exits nat | Proceeds 'a

fun and_then :: "'a attempt \<Rightarrow> ('a \<Rightarrow> 'b attempt) \<Rightarrow> 'b attempt" where
  "and_then (Exits n) f = Exits n"
| "and_then (Proceeds x) f = f x"


subsection \<open>Options\<close>

type_synonym args = "string list"

definition take_flag_value :: "string \<Rightarrow> args \<Rightarrow> (string option \<times> args) attempt" where
  "take_flag_value flag args =
     (case position flag args of None \<Rightarrow> Proceeds (None, args)
      | Some pos \<Rightarrow>
          if pos + 1 < length args then Proceeds (Some (args ! (pos + 1)), take pos args @ drop (pos + 2) args) else Exits 1)"

definition take_flag :: "string \<Rightarrow> args \<Rightarrow> bool \<times> args" where
  "take_flag flag args = (flag \<in> set args, remove1 flag args)"

text \<open>The value of the first of several spellings of an option that is there.\<close>

primrec take_either :: "string list \<Rightarrow> args \<Rightarrow> (string option \<times> args) attempt" where
  "take_either [] args = Proceeds (None, args)"
| "take_either (f # fs) args =
     and_then (take_flag_value f args) (\<lambda>(v, args1). case v of None \<Rightarrow> take_either fs args1 | Some x \<Rightarrow> Proceeds (Some x, args1))"

lemma position_less: "position x xs = Some i \<Longrightarrow> i < length xs"
  by (induction xs arbitrary: i) (auto split: if_splits)

lemma take_flag_value_shorter:
  "take_flag_value flag args = Proceeds (Some v, args1) \<Longrightarrow> length args1 < length args"
  using position_less [of flag args] by (auto simp: take_flag_value_def split: option.splits if_splits)

definition alloc_spec :: "string \<Rightarrow> string \<times> u32" where
  "alloc_spec spec =
     (case split_once (CHR '':'') spec of Some (s, a) \<Rightarrow> (s, of_nat (parse_or_zero (2 ^ 32) a)) | None \<Rightarrow> (spec, 0))"

function alloc_fns :: "args \<Rightarrow> (string \<times> u32) list \<Rightarrow> ((string \<times> u32) list \<times> args) attempt" where
  "alloc_fns args fns =
     (case take_flag_value ''--alloc-fn'' args of
        Exits n \<Rightarrow> Exits n
      | Proceeds (None, args1) \<Rightarrow> Proceeds (fns, args1)
      | Proceeds (Some spec, args1) \<Rightarrow> alloc_fns args1 (if fst (alloc_spec spec) = [] then fns else fns @ [alloc_spec spec]))"
  by pat_completeness auto
termination
  by (relation "measure (\<lambda>(args, _). length args)") (auto dest: take_flag_value_shorter)

declare alloc_fns.simps [simp del]

record run_config =
  rn_once :: bool
  rn_server_mode :: bool
  rn_record_path :: "string option"
  rn_topo_path :: "string option"
  rn_heatmap_path :: "string option"
  rn_coverage_path :: "string option"
  rn_no_bb :: bool
  rn_tripwire_symbol :: "string option"
  rn_alloc_fns :: "(string \<times> u32) list"
  rn_min_events :: "u64 option"

definition parse_common_flags :: "args \<Rightarrow> (run_config \<times> args) attempt" where
  "parse_common_flags args =
     (let (live, args1) = take_flag ''--live'' args; args2 = snd (take_flag ''--once'' args1);
          (no_bb, args3) = take_flag ''--no-bb'' args2
      in and_then (take_flag_value ''--tripwire'' args3) (\<lambda>(tripwire, args4).
         and_then (alloc_fns args4 []) (\<lambda>(fns, args5).
         and_then (take_either [''--record'', ''-o'', ''--output''] args5) (\<lambda>(rec_path, args6).
         and_then (take_either [''--topology'', ''--export-topology''] args6) (\<lambda>(topo, args7).
         and_then (take_either [''--heatmap'', ''--export-heatmap''] args7) (\<lambda>(heat, args8).
         and_then (take_flag_value ''--coverage'' args8) (\<lambda>(cov, args9).
         and_then (take_flag_value ''--min-events'' args9) (\<lambda>(least, args10).
           Proceeds (\<lparr>rn_once = \<not> live, rn_server_mode = tripwire \<noteq> None, rn_record_path = rec_path, rn_topo_path = topo,
             rn_heatmap_path = heat, rn_coverage_path = cov, rn_no_bb = no_bb, rn_tripwire_symbol = tripwire,
             rn_alloc_fns = fns, rn_min_events = Option.bind least parse_count\<rparr>, args10)))))))))"


subsection \<open>Commands\<close>

record launching =
  la_target :: string
  la_args :: args
  la_run :: run_config
  la_config :: config

record replaying =
  ry_trace :: string
  ry_elf :: "string option"
  ry_topo :: "string option"
  ry_no_bb :: bool

datatype action =
  Do_Setup
| Do_Init args
| Do_Launch launching
| Do_Replay replaying
| Do_Attach "string option" run_config

definition with_dr_home :: "string option \<Rightarrow> config \<Rightarrow> config" where
  "with_dr_home dr cfg =
     (case dr of None \<Rightarrow> cfg
      | Some d \<Rightarrow> cfg\<lparr>cf_drrun_path := Some (d @ ''/bin64/drrun''), cf_dynamorio_home := Some d\<rparr>)"

definition dashed :: "string \<Rightarrow> bool" where "dashed a \<longleftrightarrow> prefix ''-'' a"

text \<open>The target, which is the first argument without a dash, and the arguments behind it.\<close>

definition split_target :: "args \<Rightarrow> (string \<times> args) option" where
  "split_target args = (case dropWhile dashed args of [] \<Rightarrow> None | t # rest \<Rightarrow> Some (t, rest))"

definition remove_plain :: "args \<Rightarrow> string option \<times> args" where
  "remove_plain args =
     (case dropWhile dashed args of [] \<Rightarrow> (None, args) | a # rest \<Rightarrow> (Some a, takeWhile dashed args @ rest))"

definition file_stem :: "string \<Rightarrow> string option" where
  "file_stem path =
     map_option (\<lambda>n. case rsplit_once (CHR ''.'') n of None \<Rightarrow> n | Some (b, _) \<Rightarrow> if b = [] then n else b) (file_name path)"

definition apply_profile :: "target_profile \<Rightarrow> run_config \<Rightarrow> run_config" where
  "apply_profile prof cfg =
     cfg\<lparr>rn_server_mode := rn_server_mode cfg \<or> rn_tripwire_symbol cfg = None \<and> tp_tripwire prof \<noteq> None,
         rn_tripwire_symbol := or_else (rn_tripwire_symbol cfg) (tp_tripwire prof),
         rn_topo_path := or_else (rn_topo_path cfg) (tp_topology prof),
         rn_heatmap_path := or_else (rn_heatmap_path cfg) (tp_heatmap prof),
         rn_coverage_path := or_else (rn_coverage_path cfg) (tp_coverage prof),
         rn_min_events := or_else (rn_min_events cfg) (tp_min_events prof)\<rparr>"

definition default_output :: "bool option \<Rightarrow> string \<Rightarrow> string \<Rightarrow> string option \<Rightarrow> string option" where
  "default_output wanted target ext path =
     (if path = None \<and> wanted = Some True then Some ((case file_stem target of None \<Rightarrow> ''rtmap'' | Some b \<Rightarrow> b) @ ext) else path)"

definition apply_defaults :: "config \<Rightarrow> string \<Rightarrow> run_config \<Rightarrow> run_config" where
  "apply_defaults rc target cfg =
     cfg\<lparr>rn_topo_path := default_output (cf_default_topology rc) target ''.topo.jsonl'' (rn_topo_path cfg),
         rn_heatmap_path := default_output (cf_default_heatmap rc) target ''.heatmap.tsv'' (rn_heatmap_path cfg),
         rn_min_events := or_else (rn_min_events cfg) (cf_default_min_events rc)\<rparr>"

text \<open>The arguments of the target and the configuration of the run: behind a \<open>--\<close> the arguments are the
  target's and the profile is left aside.\<close>

definition target_setup :: "project_config \<Rightarrow> string \<Rightarrow> args \<Rightarrow> run_config \<Rightarrow> args \<times> run_config" where
  "target_setup proj target rest cfg =
     (if ''--'' \<in> set rest then (tl (dropWhile (\<lambda>a. a \<noteq> ''--'') rest), cfg)
      else (case resolve_target_profile proj target of None \<Rightarrow> (rest, cfg)
            | Some prof \<Rightarrow> (if tp_args prof \<noteq> [] then tp_args prof else rest, apply_profile prof cfg)))"

definition cmd_run :: "config \<times> project_config \<Rightarrow> args \<Rightarrow> action attempt" where
  "cmd_run conf args =
     and_then (take_flag_value ''--dr-home'' args) (\<lambda>(dr, args1).
     and_then (parse_common_flags args1) (\<lambda>(cfg, args2).
       (case split_target args2 of None \<Rightarrow> Exits 1
        | Some (target, rest) \<Rightarrow>
            (let rc = with_dr_home dr (fst conf); (targs, cfg1) = target_setup (snd conf) target rest cfg
             in Proceeds (Do_Launch \<lparr>la_target = target, la_args = targs, la_run = apply_defaults rc target cfg1, la_config = rc\<rparr>)))))"

definition launch_recording :: "config \<Rightarrow> run_config \<Rightarrow> args \<Rightarrow> action attempt" where
  "launch_recording rc cfg args =
     (case split_target args of None \<Rightarrow> Exits 1
      | Some (target, rest) \<Rightarrow> Proceeds (Do_Launch \<lparr>la_target = target, la_args = rest, la_run = cfg, la_config = rc\<rparr>))"

definition cmd_record :: "config \<times> project_config \<Rightarrow> args \<Rightarrow> action attempt" where
  "cmd_record conf args =
     and_then (take_flag_value ''--dr-home'' args) (\<lambda>(dr, args1).
     and_then (parse_common_flags args1) (\<lambda>(cfg, args2).
       if rn_record_path cfg = None then Exits 1 else launch_recording (with_dr_home dr (fst conf)) cfg args2))"

definition cmd_record_compat :: "config \<times> project_config \<Rightarrow> args \<Rightarrow> action attempt" where
  "cmd_record_compat conf args =
     and_then (take_flag_value ''--record'' args) (\<lambda>(path, args1).
     and_then (take_flag_value ''--dr-home'' args1) (\<lambda>(dr, args2).
     and_then (parse_common_flags args2) (\<lambda>(cfg, args3).
       launch_recording (with_dr_home dr (fst conf)) (cfg\<lparr>rn_record_path := path\<rparr>) args3)))"

text \<open>\<open>dwarf\<close>: whether the option with the path of the debug information is understood.\<close>

definition replay_action :: "bool \<Rightarrow> string option \<Rightarrow> args \<Rightarrow> action attempt" where
  "replay_action dwarf trace args =
     (let args1 = snd (take_flag ''--once'' args); (no_bb, args2) = take_flag ''--no-bb'' args1 in
      and_then (take_either [''--topology'', ''--export-topology''] args2) (\<lambda>(topo, args3).
      and_then (if dwarf then take_flag_value ''--dwarf'' args3 else Proceeds (None, args3)) (\<lambda>(dw, args4).
        (case (case trace of Some t \<Rightarrow> (Some t, args4) | None \<Rightarrow> remove_plain args4) of
           (None, _) \<Rightarrow> Exits 1
         | (Some t, args5) \<Rightarrow>
             Proceeds (Do_Replay \<lparr>ry_trace = t, ry_elf = or_else dw (fst (remove_plain args5)), ry_topo = topo, ry_no_bb = no_bb\<rparr>)))))"

definition cmd_replay :: "args \<Rightarrow> action attempt" where
  "cmd_replay args = replay_action True None args"

definition cmd_replay_compat :: "args \<Rightarrow> action attempt" where
  "cmd_replay_compat args = and_then (take_flag_value ''--replay'' args) (\<lambda>(path, args1). replay_action False path args1)"

definition cmd_attach :: "args \<Rightarrow> action attempt" where
  "cmd_attach args =
     and_then (parse_common_flags args) (\<lambda>(cfg, args1).
     and_then (take_flag_value ''--dwarf'' args1) (\<lambda>(dw, args2).
       Proceeds (Do_Attach (or_else dw (fst (remove_plain args2))) cfg)))"

definition main_action :: "config \<times> project_config \<Rightarrow> args \<Rightarrow> action attempt" where
  "main_action conf args =
     (if args = [] then Exits 1
      else if ''--help'' \<in> set args \<or> ''-h'' \<in> set args then Exits 0
      else if ''--version'' \<in> set args \<or> ''-V'' \<in> set args then Exits 0
      else if hd args = ''setup'' then Proceeds Do_Setup
      else if hd args = ''init'' then Proceeds (Do_Init (tl args))
      else if hd args = ''record'' then cmd_record conf (tl args)
      else if hd args = ''replay'' then cmd_replay (tl args)
      else if hd args = ''attach'' then cmd_attach (tl args)
      else if hd args = ''run'' then cmd_run conf (tl args)
      else if hd args = ''help'' then Exits 0
      else if ''--replay'' \<in> set args then cmd_replay_compat args
      else if ''--consumer-only'' \<in> set args then cmd_attach (remove1 ''--consumer-only'' args)
      else if ''--record'' \<in> set args then cmd_record_compat conf args
      else cmd_run conf args)"


subsection \<open>The programs that are run\<close>

record tool_env =
  te_rtmap_drrun :: "string option"
  te_rtmap_tracer :: "string option"
  te_dynamorio_home :: "string option"
  te_which_drrun :: "string option"
  te_discovered :: "string option"
  te_beside_exe :: "string list"

text \<open>
  \<open>te_which_drrun\<close> is the output of \<open>which drrun\<close> when it succeeds, \<open>te_beside_exe\<close> the canonical paths, of
  those that have one, of the three places beside the executable.
\<close>

primrec first_existing :: "(string \<Rightarrow> bool) \<Rightarrow> string option list \<Rightarrow> string option" where
  "first_existing ex [] = None"
| "first_existing ex (p # ps) = (case p of None \<Rightarrow> first_existing ex ps | Some f \<Rightarrow> if ex f then Some f else first_existing ex ps)"

definition find_drrun :: "(string \<Rightarrow> bool) \<Rightarrow> tool_env \<Rightarrow> config \<Rightarrow> string option" where
  "find_drrun ex te cfg =
     or_else (first_existing ex [cf_drrun_path cfg, te_rtmap_drrun te, map_option drrun_in (te_dynamorio_home te),
                                 map_option drrun_in (cf_dynamorio_home cfg)])
       (case map_option trim (te_which_drrun te) of
          None \<Rightarrow> first_existing ex [map_option drrun_in (te_discovered te)]
        | Some s \<Rightarrow> if s \<noteq> [] then Some s else first_existing ex [map_option drrun_in (te_discovered te)])"

definition find_tracer :: "(string \<Rightarrow> bool) \<Rightarrow> tool_env \<Rightarrow> config \<Rightarrow> string option" where
  "find_tracer ex te cfg = first_existing ex ([cf_tracer_path cfg, te_rtmap_tracer te] @ map Some (te_beside_exe te))"

record elf_symbol =
  es_name :: "string option"
  es_text :: bool
  es_address :: u64
  es_size :: u64

record elf_image =
  ei_segments :: "(u64 \<times> u64) list"
  ei_symbols :: "elf_symbol list"
  ei_dynamic :: "elf_symbol list"

text \<open>A segment is its size and its address.\<close>

definition base_vaddr :: "elf_image \<Rightarrow> u64" where
  "base_vaddr img = (case map snd (filter (\<lambda>(n, _). 0 < n) (ei_segments img)) of [] \<Rightarrow> 0 | a # as \<Rightarrow> fold min as a)"

definition resolve_elf_symbol_offset :: "elf_image option \<Rightarrow> string \<Rightarrow> u64 option" where
  "resolve_elf_symbol_offset img name =
     (case img of None \<Rightarrow> None
      | Some e \<Rightarrow>
          (case find (\<lambda>s. es_name s = Some name \<and> es_text s \<and> 0 < es_address s) (ei_symbols e @ ei_dynamic e) of
             None \<Rightarrow> None | Some s \<Rightarrow> Some (es_address s - base_vaddr e)))"

text \<open>The arguments of \<open>drrun\<close>: the offset of the tripwire is always before those of the allocators.\<close>

definition tracer_args :: "elf_image option \<Rightarrow> string \<Rightarrow> launching \<Rightarrow> args" where
  "tracer_args img tracer l =
     (let trip = Option.bind (rn_tripwire_symbol (la_run l)) (resolve_elf_symbol_offset img);
          specs = List.map_filter (\<lambda>(sym, a). map_option (\<lambda>off. hex (unat off) @ '':'' @ dec (unat a))
                    (resolve_elf_symbol_offset img sym)) (rn_alloc_fns (la_run l))
      in [''-c'', tracer] @ (case trip of Some off \<Rightarrow> [hex (unat off)] | None \<Rightarrow> if specs \<noteq> [] then [''0''] else []) @
         specs @ [''--'', la_target l] @ la_args l)"

definition launch :: "(string \<Rightarrow> bool) \<Rightarrow> tool_env \<Rightarrow> elf_image option \<Rightarrow> launching \<Rightarrow> (string \<times> args) attempt" where
  "launch ex te img l =
     (case find_drrun ex te (la_config l) of None \<Rightarrow> Exits 1
      | Some drrun \<Rightarrow>
          (case find_tracer ex te (la_config l) of None \<Rightarrow> Exits 1 | Some tracer \<Rightarrow> Proceeds (drrun, tracer_args img tracer l)))"

definition shm_of_pid :: "u32 \<Rightarrow> string list" where
  "shm_of_pid pid = (''/rtmap_ctl_'' @ dec (unat pid)) #
     map (\<lambda>i. ''/rtmap_ring_'' @ dec (unat pid) @ ''_'' @ dec i) [0..<256]"

definition shm_of_all :: "string list" where
  "shm_of_all = ''/rtmap_ctl'' # map (\<lambda>i. ''/rtmap_ring_'' @ dec i) [0..<256]"

definition bb_coverage :: "(u32 \<times> u64) list \<Rightarrow> string list" where
  "bb_coverage hits =
     (''rip_offset'' @ [tab_char] @ ''hits'') #
     map (\<lambda>(rip, n). ''0x'' @ hex (unat rip) @ [tab_char] @ dec (unat n)) (sort_key fst hits)"


subsection \<open>\<open>setup\<close> and \<open>init\<close>\<close>

text \<open>The contents of the configuration file that is written, its path, and the status.\<close>

definition cmd_setup :: "environment \<Rightarrow> (string \<Rightarrow> bool) \<Rightarrow> tool_env \<Rightarrow> (string \<times> string) \<times> nat" where
  "cmd_setup env ex te =
     (let dr = (case te_dynamorio_home te of Some h \<Rightarrow> if ex (drrun_in h) then Some h else None | None \<Rightarrow> te_discovered te);
          tracer = find_tracer ex te (config_default\<lparr>cf_dynamorio_home := dr\<rparr>)
      in ((path_join (global_config_dir env) ''config'', generate_global_config dr tracer),
          if dr \<noteq> None \<and> tracer \<noteq> None then 0 else 1))"

definition loop_patterns :: "(string \<times> u32) list" where
  "loop_patterns = [(''Main'', 15), (''main_loop'', 20), (''event_loop'', 20), (''Loop'', 10), (''Cycle'', 12), (''Run'', 8),
     (''run_server'', 18), (''Process'', 6), (''process_events'', 18), (''dispatch'', 10), (''serve'', 8)]"

definition pattern_score :: "string \<Rightarrow> u32" where
  "pattern_score name =
     fold (\<lambda>(pat, w) s. if sublist pat name then s + w + (if suffix pat name then 10 else 0) else s) loop_patterns 0"

definition loop_score :: "string \<Rightarrow> u64 \<Rightarrow> u32" where
  "loop_score name sz =
     (let s = pattern_score name;
          s1 = (if length name \<le> 12 \<and> 0 < s then s + 8 else if length name \<le> 20 \<and> 0 < s then s + 3 else s);
          s2 = (if 10000 < sz then (if s1 < 5 then 0 else s1 - 5) else s1)
      in if 50 < sz \<and> sz < 2000 then s2 + 3 else s2)"

definition never_tripwire :: "string \<Rightarrow> bool" where
  "never_tripwire name \<longleftrightarrow> name = ''main'' \<or> name = ''_start'' \<or>
     list_ex (\<lambda>w. sublist w name) [''init'', ''Init'', ''Setup'', ''Config'', ''config''] \<or> prefix ''RM_'' name \<or> prefix ''__'' name"

definition text_symbol :: "elf_symbol \<Rightarrow> (string \<times> u64) option" where
  "text_symbol s =
     (case es_name s of None \<Rightarrow> None
      | Some name \<Rightarrow> if es_text s \<and> 0 < es_size s \<and> name \<noteq> [] \<and> \<not> prefix ''_'' name \<and> \<not> prefix ''.'' name
                     then Some (name, es_size s) else None)"

definition tripwire_candidates :: "elf_image \<Rightarrow> (string \<times> u32) list" where
  "tripwire_candidates e =
     List.map_filter (\<lambda>(name, sz). if \<not> never_tripwire name \<and> 0 < loop_score name sz then Some (name, loop_score name sz) else None)
       (List.map_filter text_symbol (ei_symbols e @ ei_dynamic e))"

definition detect_tripwire_symbol :: "elf_image option \<Rightarrow> string option" where
  "detect_tripwire_symbol img =
     (case img of None \<Rightarrow> None
      | Some e \<Rightarrow> (case sort_key (\<lambda>c. - int (unat (snd c))) (tripwire_candidates e) of [] \<Rightarrow> None | c # _ \<Rightarrow> Some (fst c)))"

text \<open>What becomes of the project file; \<open>existing\<close> is its contents, if there is one (empty when it cannot be read).\<close>

definition cmd_init :: "(string \<Rightarrow> bool) \<Rightarrow> elf_image option \<Rightarrow> string option \<Rightarrow> args \<Rightarrow> string attempt" where
  "cmd_init ex img existing args =
     (case args of [] \<Rightarrow> Exits 1
      | target # _ \<Rightarrow>
          if \<not> ex target then Exits 1
          else
            (let name = (case file_name target of None \<Rightarrow> target | Some n \<Rightarrow> n); trip = detect_tripwire_symbol img in
             (case existing of None \<Rightarrow> Proceeds (generate_project_config name trip)
              | Some old \<Rightarrow>
                  if sublist (''target.'' @ name @ ''.tripwire'') old then Proceeds old
                  else Proceeds (old @ [newline] @ as_lines ([''# Profile for: '' @ name] @
                         (case trip of None \<Rightarrow> [] | Some tw \<Rightarrow> [''target.'' @ name @ ''.tripwire = '' @ tw]) @
                         [''# target.'' @ name @ ''.args = '']))))) "


subsection \<open>Reading a command line back\<close>

lemma take_flag_value_none: "flag \<notin> set args \<Longrightarrow> take_flag_value flag args = Proceeds (None, args)"
proof -
  have "flag \<notin> set args \<Longrightarrow> position flag args = None" by (induction args) auto
  then show "flag \<notin> set args \<Longrightarrow> take_flag_value flag args = Proceeds (None, args)" by (simp add: take_flag_value_def)
qed

lemma take_flag_value_hd: "take_flag_value flag (flag # v # args) = Proceeds (Some v, args)"
  by (simp add: take_flag_value_def)

lemma take_flag_none: "flag \<notin> set args \<Longrightarrow> take_flag flag args = (False, args)"
  by (simp add: take_flag_def remove1_idem)

lemma take_either_none: "set fs \<inter> set args = {} \<Longrightarrow> take_either fs args = Proceeds (None, args)"
  by (induction fs) (simp_all add: take_flag_value_none)

text \<open>An option that may be written.\<close>

definition opt :: "string \<Rightarrow> string option \<Rightarrow> args" where
  "opt flag v = (case v of None \<Rightarrow> [] | Some x \<Rightarrow> [flag, x])"

definition flagged :: "bool \<Rightarrow> string \<Rightarrow> args" where
  "flagged b flag = (if b then [flag] else [])"

lemma take_flag_value_opt: "flag \<notin> set rest \<Longrightarrow> take_flag_value flag (opt flag v @ rest) = Proceeds (v, rest)"
  by (cases v) (simp_all add: opt_def take_flag_value_none take_flag_value_hd)

lemma take_flag_flagged: "flag \<notin> set rest \<Longrightarrow> take_flag flag (flagged b flag @ rest) = (b, rest)"
  by (cases b) (simp_all add: flagged_def take_flag_def remove1_idem)

lemma take_either_opt:
  assumes "f \<in> set fs" "set fs \<inter> set rest = {}" "\<forall>x \<in> set_option v. x \<notin> set fs"
  shows "take_either fs (opt f v @ rest) = Proceeds (v, rest)"
proof (cases v)
  case None
  with assms(2) show ?thesis by (simp add: opt_def take_either_none)
next
  case (Some x)
  have "f \<in> set fs \<Longrightarrow> set fs \<inter> set rest = {} \<Longrightarrow> x \<notin> set fs \<Longrightarrow> take_either fs (f # x # rest) = Proceeds (Some x, rest)"
  proof (induction fs)
    case (Cons g fs)
    then show ?case
    proof (cases "g = f")
      case False
      with Cons.prems have "g \<notin> set (f # x # rest)" by auto
      with False Cons show ?thesis by (simp add: take_flag_value_none)
    qed (simp add: take_flag_value_hd)
  qed simp
  with assms Some show ?thesis by (simp add: opt_def)
qed

definition alloc_opts :: "(string \<times> u32) list \<Rightarrow> args" where
  "alloc_opts fns = concat (map (\<lambda>(s, a). [''--alloc-fn'', s @ '':'' @ dec (unat a)]) fns)"

lemma alloc_fns_opts:
  assumes "''--alloc-fn'' \<notin> set rest" "\<forall>(s, a) \<in> set fns. s \<noteq> [] \<and> CHR '':'' \<notin> set s"
  shows "alloc_fns (alloc_opts fns @ rest) acc = Proceeds (acc @ fns, rest)"
  using assms(2)
proof (induction fns arbitrary: acc)
  case Nil
  then show ?case using assms(1) by (subst alloc_fns.simps) (simp add: alloc_opts_def take_flag_value_none)
next
  case (Cons f fns)
  obtain s a where f: "f = (s, a)" by fastforce
  with Cons.prems have s: "s \<noteq> []" "CHR '':'' \<notin> set s" by auto
  have "split_once (CHR '':'') (s @ CHR '':'' # dec (unat a)) = Some (s, dec (unat a))"
    using s(2) by (intro split_once_at)
  moreover have "unat a < 2 ^ 32" using unat_lt [of a] by simp
  ultimately have sp: "alloc_spec (s @ CHR '':'' # dec (unat a)) = (s, a)"
    by (simp add: alloc_spec_def parse_or_zero_dec)
  have "alloc_opts (f # fns) @ rest = ''--alloc-fn'' # (s @ CHR '':'' # dec (unat a)) # (alloc_opts fns @ rest)"
    by (simp add: alloc_opts_def f)
  then show ?case
    using Cons s(1) by (subst alloc_fns.simps) (simp add: take_flag_value_hd sp f)
qed

definition write_options :: "run_config \<Rightarrow> args" where
  "write_options c =
     flagged (\<not> rn_once c) ''--live'' @ flagged (rn_no_bb c) ''--no-bb'' @ opt ''--tripwire'' (rn_tripwire_symbol c) @
     alloc_opts (rn_alloc_fns c) @ opt ''-o'' (rn_record_path c) @ opt ''--topology'' (rn_topo_path c) @
     opt ''--heatmap'' (rn_heatmap_path c) @ opt ''--coverage'' (rn_coverage_path c) @
     opt ''--min-events'' (map_option (\<lambda>n. dec (unat n)) (rn_min_events c))"

definition option_names :: "string list" where
  "option_names = [''--help'', ''-h'', ''--version'', ''-V'', ''--live'', ''--once'', ''--no-bb'', ''--tripwire'', ''--alloc-fn'',
     ''--record'', ''-o'', ''--output'', ''--topology'', ''--export-topology'', ''--heatmap'', ''--export-heatmap'', ''--coverage'',
     ''--min-events'', ''--dr-home'', ''--replay'', ''--consumer-only'']"

definition command_words :: "string list" where
  "command_words = [''setup'', ''init'', ''record'', ''replay'', ''attach'', ''run'', ''help'']"

definition option_values :: "run_config \<Rightarrow> string set" where
  "option_values c = set_option (rn_tripwire_symbol c) \<union> set_option (rn_record_path c) \<union> set_option (rn_topo_path c) \<union>
     set_option (rn_heatmap_path c) \<union> set_option (rn_coverage_path c)"

text \<open>The options that an option and its value put on the command line.\<close>

lemma set_opt: "\<forall>x \<in> set_option v. x \<notin> set option_names \<Longrightarrow> set (opt f v) \<inter> set option_names \<subseteq> {f}"
  by (cases v) (auto simp: opt_def)

lemma set_flagged: "set (flagged b f) \<subseteq> {f}"
  by (cases b) (simp_all add: flagged_def)

lemma undashed_not_option: "\<not> dashed w \<Longrightarrow> w \<notin> set option_names"
  unfolding option_names_def dashed_def by auto

lemma set_alloc_opts:
  assumes "\<forall>(s, a) \<in> set fns. s \<noteq> [] \<and> CHR '':'' \<notin> set s"
  shows "set (alloc_opts fns) \<inter> set option_names \<subseteq> {''--alloc-fn''}"
proof
  fix w
  assume w: "w \<in> set (alloc_opts fns) \<inter> set option_names"
  have "CHR '':'' \<notin> set x" if "x \<in> set option_names" for x using that unfolding option_names_def by auto
  with w show "w \<in> {''--alloc-fn''}" by (fastforce simp: alloc_opts_def)
qed

lemma dec_undashed: "\<not> dashed (dec n)"
proof
  assume "dashed (dec n)"
  then have "CHR ''-'' \<in> set (dec n)" by (auto simp: dashed_def prefix_def)
  then have "is_dec_digit (CHR ''-'')" by (rule dec_digits)
  then show False by (simp add: is_dec_digit_def)
qed

text \<open>The options of a configuration are read back, and what follows them is left alone.\<close>

lemma parse_written:
  assumes v: "\<forall>w \<in> option_values c. w \<notin> set option_names" and r: "\<forall>w \<in> set rest. w \<notin> set option_names"
    and f: "\<forall>(s, a) \<in> set (rn_alloc_fns c). s \<noteq> [] \<and> CHR '':'' \<notin> set s"
    and m: "rn_server_mode c \<longleftrightarrow> rn_tripwire_symbol c \<noteq> None"
  shows "parse_common_flags (write_options c @ rest) = Proceeds (c, rest)"
proof -
  let ?N = "set option_names"
  define r1 where "r1 = opt ''--min-events'' (map_option (\<lambda>n. dec (unat n)) (rn_min_events c)) @ rest"
  define r2 where "r2 = opt ''--coverage'' (rn_coverage_path c) @ r1"
  define r3 where "r3 = opt ''--heatmap'' (rn_heatmap_path c) @ r2"
  define r4 where "r4 = opt ''--topology'' (rn_topo_path c) @ r3"
  define r5 where "r5 = opt ''-o'' (rn_record_path c) @ r4"
  define r6 where "r6 = alloc_opts (rn_alloc_fns c) @ r5"
  define r7 where "r7 = opt ''--tripwire'' (rn_tripwire_symbol c) @ r6"
  define r8 where "r8 = flagged (rn_no_bb c) ''--no-bb'' @ r7"
  have vs: "\<forall>x \<in> set_option (rn_tripwire_symbol c). x \<notin> ?N" "\<forall>x \<in> set_option (rn_record_path c). x \<notin> ?N"
    "\<forall>x \<in> set_option (rn_topo_path c). x \<notin> ?N" "\<forall>x \<in> set_option (rn_heatmap_path c). x \<notin> ?N"
    "\<forall>x \<in> set_option (rn_coverage_path c). x \<notin> ?N"
    using v by (simp_all add: option_values_def)
  have me: "\<forall>x \<in> set_option (map_option (\<lambda>n. dec (unat n)) (rn_min_events c)). x \<notin> ?N"
    using undashed_not_option dec_undashed by (cases "rn_min_events c") auto
  have s1: "set r1 \<inter> ?N \<subseteq> {''--min-events''}" using set_opt [OF me] r unfolding r1_def by fastforce
  have s2: "set r2 \<inter> ?N \<subseteq> {''--coverage'', ''--min-events''}" using set_opt [OF vs(5)] s1 unfolding r2_def by fastforce
  have s3: "set r3 \<inter> ?N \<subseteq> {''--heatmap'', ''--coverage'', ''--min-events''}"
    using set_opt [OF vs(4)] s2 unfolding r3_def by fastforce
  have s4: "set r4 \<inter> ?N \<subseteq> {''--topology'', ''--heatmap'', ''--coverage'', ''--min-events''}"
    using set_opt [OF vs(3)] s3 unfolding r4_def by fastforce
  have s5: "set r5 \<inter> ?N \<subseteq> {''-o'', ''--topology'', ''--heatmap'', ''--coverage'', ''--min-events''}"
    using set_opt [OF vs(2)] s4 unfolding r5_def by fastforce
  have s6: "set r6 \<inter> ?N \<subseteq> {''--alloc-fn'', ''-o'', ''--topology'', ''--heatmap'', ''--coverage'', ''--min-events''}"
    using set_alloc_opts [OF f] s5 unfolding r6_def by fastforce
  have s7: "set r7 \<inter> ?N \<subseteq> {''--tripwire'', ''--alloc-fn'', ''-o'', ''--topology'', ''--heatmap'', ''--coverage'', ''--min-events''}"
    using set_opt [OF vs(1)] s6 unfolding r7_def by fastforce
  have s8: "set r8 \<inter> ?N \<subseteq> {''--no-bb'', ''--tripwire'', ''--alloc-fn'', ''-o'', ''--topology'', ''--heatmap'', ''--coverage'', ''--min-events''}"
    using set_flagged [of "rn_no_bb c" "''--no-bb''"] s7 unfolding r8_def by fastforce
  have out: "x \<notin> set r" if "set r \<inter> ?N \<subseteq> X" "x \<in> ?N" "x \<notin> X" for x r X using that by blast
  have N: "{''--live'', ''--once'', ''--no-bb'', ''--tripwire'', ''--alloc-fn'', ''--record'', ''-o'', ''--output'', ''--topology'',
      ''--export-topology'', ''--heatmap'', ''--export-heatmap'', ''--coverage'', ''--min-events''} \<subseteq> ?N"
    unfolding option_names_def by simp
  have t1: "take_flag ''--live'' (write_options c @ rest) = (\<not> rn_once c, r8)"
    using take_flag_flagged [OF out [OF s8, of "''--live''"], of "\<not> rn_once c"] N
    by (simp add: write_options_def r8_def r7_def r6_def r5_def r4_def r3_def r2_def r1_def)
  have t2: "take_flag ''--once'' r8 = (False, r8)" using N by (intro take_flag_none out [OF s8]) simp_all
  have t3: "take_flag ''--no-bb'' r8 = (rn_no_bb c, r7)"
    unfolding r8_def using N by (intro take_flag_flagged out [OF s7]) simp_all
  have t4: "take_flag_value ''--tripwire'' r7 = Proceeds (rn_tripwire_symbol c, r6)"
    unfolding r7_def using N by (intro take_flag_value_opt out [OF s6]) simp_all
  have t5: "alloc_fns r6 [] = Proceeds (rn_alloc_fns c, r5)"
    unfolding r6_def using N by (subst alloc_fns_opts [OF out [OF s5] f]) simp_all
  have either: "take_either fs (opt g x @ r) = Proceeds (x, r)"
    if "g \<in> set fs" "set fs \<subseteq> ?N" "set r \<inter> ?N \<subseteq> X" "set fs \<inter> X = {}" "\<forall>y \<in> set_option x. y \<notin> ?N" for fs g x r X
    using that by (intro take_either_opt) auto
  have t6: "take_either [''--record'', ''-o'', ''--output''] r5 = Proceeds (rn_record_path c, r4)"
    unfolding r5_def using N by (intro either [OF _ _ s4 _ vs(2)]) simp_all
  have t7: "take_either [''--topology'', ''--export-topology''] r4 = Proceeds (rn_topo_path c, r3)"
    unfolding r4_def using N by (intro either [OF _ _ s3 _ vs(3)]) simp_all
  have t8: "take_either [''--heatmap'', ''--export-heatmap''] r3 = Proceeds (rn_heatmap_path c, r2)"
    unfolding r3_def using N by (intro either [OF _ _ s2 _ vs(4)]) simp_all
  have t9: "take_flag_value ''--coverage'' r2 = Proceeds (rn_coverage_path c, r1)"
    unfolding r2_def using N by (intro take_flag_value_opt out [OF s1]) simp_all
  have "''--min-events'' \<notin> set rest" using r N by auto
  then have t10: "take_flag_value ''--min-events'' r1 = Proceeds (map_option (\<lambda>n. dec (unat n)) (rn_min_events c), rest)"
    unfolding r1_def by (rule take_flag_value_opt)
  have mv: "Option.bind (map_option (\<lambda>n. dec (unat n)) (rn_min_events c)) parse_count = rn_min_events c"
    by (cases "rn_min_events c") (simp_all add: parse_count_def parse_dec)
  show ?thesis
    unfolding parse_common_flags_def t1 Let_def split_conv t2 snd_conv t3 t4 and_then.simps t5 t6 t7 t8 t9 t10 mv
    using m by simp
qed

definition written_names :: "string set" where
  "written_names = {''--live'', ''--no-bb'', ''--tripwire'', ''--alloc-fn'', ''-o'', ''--topology'', ''--heatmap'', ''--coverage'', ''--min-events''}"

lemma set_write_options:
  assumes "\<forall>w \<in> option_values c. w \<notin> set option_names" "\<forall>(s, a) \<in> set (rn_alloc_fns c). s \<noteq> [] \<and> CHR '':'' \<notin> set s"
  shows "set (write_options c) \<inter> set option_names \<subseteq> written_names"
proof -
  have me: "\<forall>x \<in> set_option (map_option (\<lambda>n. dec (unat n)) (rn_min_events c)). x \<notin> set option_names"
    using undashed_not_option dec_undashed by (cases "rn_min_events c") auto
  have "set (opt f x) \<inter> set option_names \<subseteq> written_names" if "f \<in> written_names" "\<forall>y \<in> set_option x. y \<notin> set option_names" for f x
    using set_opt [OF that(2)] that(1) by fast
  moreover have "set (flagged b f) \<subseteq> written_names" if "f \<in> written_names" for b f
    using set_flagged [of b f] that by fast
  moreover have "set (alloc_opts (rn_alloc_fns c)) \<inter> set option_names \<subseteq> written_names"
    using set_alloc_opts [OF assms(2)] by (auto simp: written_names_def)
  ultimately show ?thesis
    using assms(1) me unfolding write_options_def option_values_def
    by (simp add: Int_Un_distrib2 written_names_def le_infI1)
qed

lemma hd_concat: "concat xss = w # ws \<Longrightarrow> \<forall>xs \<in> set xss. xs \<noteq> [] \<longrightarrow> P (hd xs) \<Longrightarrow> P w"
  by (induction xss) (auto simp: append_eq_Cons_conv)

lemma hd_write_options: assumes "write_options c = w # ws" shows "dashed w"
proof (rule hd_concat [where P = dashed])
  show "concat [flagged (\<not> rn_once c) ''--live'', flagged (rn_no_bb c) ''--no-bb'',
      opt ''--tripwire'' (rn_tripwire_symbol c), alloc_opts (rn_alloc_fns c), opt ''-o'' (rn_record_path c),
      opt ''--topology'' (rn_topo_path c), opt ''--heatmap'' (rn_heatmap_path c), opt ''--coverage'' (rn_coverage_path c),
      opt ''--min-events'' (map_option (\<lambda>n. dec (unat n)) (rn_min_events c))] = w # ws"
    using assms by (simp add: write_options_def)
  have o: "opt f v \<noteq> [] \<longrightarrow> dashed (hd (opt f v))" if "dashed f" for f v using that by (cases v) (simp_all add: opt_def)
  have b: "flagged x f \<noteq> [] \<longrightarrow> dashed (hd (flagged x f))" if "dashed f" for f x using that by (simp add: flagged_def)
  have a: "alloc_opts fns \<noteq> [] \<longrightarrow> dashed (hd (alloc_opts fns))" for fns
    by (cases fns) (auto simp: alloc_opts_def dashed_def)
  have d: "\<forall>f \<in> written_names. dashed f" by (simp add: written_names_def dashed_def)
  show "\<forall>xs \<in> set [flagged (\<not> rn_once c) ''--live'', flagged (rn_no_bb c) ''--no-bb'',
      opt ''--tripwire'' (rn_tripwire_symbol c), alloc_opts (rn_alloc_fns c), opt ''-o'' (rn_record_path c),
      opt ''--topology'' (rn_topo_path c), opt ''--heatmap'' (rn_heatmap_path c), opt ''--coverage'' (rn_coverage_path c),
      opt ''--min-events'' (map_option (\<lambda>n. dec (unat n)) (rn_min_events c))]. xs \<noteq> [] \<longrightarrow> dashed (hd xs)"
    using d unfolding written_names_def list.set ball_simps by (intro conjI TrueI o b a) simp_all
qed

lemma written_option: "written_names \<subseteq> set option_names"
  unfolding written_names_def option_names_def by simp

text \<open>A command line of options is a run.\<close>

lemma main_action_run:
  assumes "args \<noteq> []" "hd args \<notin> set command_words" "set args \<inter> set option_names \<subseteq> written_names"
  shows "main_action conf args = cmd_run conf args"
proof -
  have "x \<notin> set args" if "x \<in> set option_names" "x \<notin> written_names" for x using assms(3) that by blast
  then have "''--help'' \<notin> set args" "''-h'' \<notin> set args" "''--version'' \<notin> set args" "''-V'' \<notin> set args"
    "''--replay'' \<notin> set args" "''--consumer-only'' \<notin> set args" "''--record'' \<notin> set args"
    by (simp_all add: option_names_def written_names_def)
  with assms(1,2) show ?thesis by (simp add: main_action_def command_words_def)
qed

text \<open>
  C39 (roundtrip).  A configuration of a run can be written on the command line and arrives, under
  these conditions: no value of it and no argument of the program is spelled as an option of rtmap
  (the options are looked for everywhere, behind the \<open>--\<close> too, see \<open>help_behind_separator\<close> and
  \<open>option_behind_separator\<close>); the program's name does not begin with a dash and is no command of rtmap;
  the names of the allocation functions are not empty and have no colon; and the server mode is on
  exactly if there is a tripwire symbol, as the option for the tripwire sets both.  Then, with the
  options before the program and the program's own arguments behind a \<open>--\<close>, the program is launched
  with exactly those arguments and that configuration, completed only by the defaults of the
  configuration files; the profile of the program has no part in it.
\<close>

theorem command_line_roundtrip:
  assumes "\<not> dashed target" "target \<notin> set command_words"
    and "\<forall>w \<in> option_values c \<union> set targs. w \<notin> set option_names"
    and "\<forall>(s, a) \<in> set (rn_alloc_fns c). s \<noteq> [] \<and> CHR '':'' \<notin> set s"
    and "rn_server_mode c \<longleftrightarrow> rn_tripwire_symbol c \<noteq> None"
  shows "main_action (rc, proj) (write_options c @ target # ''--'' # targs) =
    Proceeds (Do_Launch \<lparr>la_target = target, la_args = targs, la_run = apply_defaults rc target c, la_config = rc\<rparr>)"
proof -
  let ?rest = "target # ''--'' # targs"
  let ?args = "write_options c @ ?rest"
  have r: "\<forall>w \<in> set ?rest. w \<notin> set option_names"
    using assms(3) undashed_not_option [OF assms(1)] by (auto simp: option_names_def)
  have v: "\<forall>w \<in> option_values c. w \<notin> set option_names" using assms(3) by blast
  have n: "set ?args \<inter> set option_names \<subseteq> written_names"
    using set_write_options [OF v assms(4)] r by auto
  have "hd ?args \<notin> set command_words"
  proof (cases "write_options c")
    case (Cons w ws)
    then have "dashed (hd ?args)" using hd_write_options by simp
    then show ?thesis by (auto simp: dashed_def command_words_def)
  qed (use assms(2) in simp)
  with n have run: "main_action (rc, proj) ?args = cmd_run (rc, proj) ?args" by (intro main_action_run) simp_all
  have "''--dr-home'' \<in> set option_names" "''--dr-home'' \<notin> written_names" by (simp_all add: option_names_def written_names_def)
  with n have "''--dr-home'' \<notin> set ?args" by blast
  then have dr: "take_flag_value ''--dr-home'' ?args = Proceeds (None, ?args)" by (rule take_flag_value_none)
  have t: "split_target ?rest = Some (target, ''--'' # targs)" using assms(1) by (simp add: split_target_def)
  show ?thesis
    unfolding run cmd_run_def dr and_then.simps split_conv parse_written [OF v r assms(4,5)] t option.case Let_def
    by (simp add: with_dr_home_def target_setup_def)
qed

definition demo_run :: run_config where
  "demo_run = \<lparr>rn_once = False, rn_server_mode = True, rn_record_path = Some ''run.bin'', rn_topo_path = None,
     rn_heatmap_path = None, rn_coverage_path = None, rn_no_bb = False, rn_tripwire_symbol = Some ''aeMain'',
     rn_alloc_fns = [(''zmalloc'', 1)], rn_min_events = None\<rparr>"

theorem command_line_roundtrip_witness:
  "main_action (config_default, []) (write_options demo_run @ ''./server'' # ''--'' # [''--port'', ''6399'']) =
    Proceeds (Do_Launch \<lparr>la_target = ''./server'', la_args = [''--port'', ''6399''],
      la_run = apply_defaults config_default ''./server'' demo_run, la_config = config_default\<rparr>)"
  by (rule command_line_roundtrip)
    (simp_all add: dashed_def command_words_def option_values_def option_names_def demo_run_def)

text \<open>
  The hypothesis is needed: the options of rtmap are looked for everywhere, behind the \<open>--\<close> too.
\<close>

lemma help_behind_separator:
  "main_action conf [''./client'', ''--'', ''-h'', ''127.0.0.1''] = Exits 0"
  by (simp add: main_action_def)

lemma option_behind_separator:
  "main_action (config_default, []) [''./server'', ''--'', ''-o'', ''log.txt''] =
    Proceeds (Do_Launch \<lparr>la_target = ''./server'', la_args = [],
      la_run = \<lparr>rn_once = True, rn_server_mode = False, rn_record_path = Some ''log.txt'', rn_topo_path = None, rn_heatmap_path = None,
        rn_coverage_path = None, rn_no_bb = False, rn_tripwire_symbol = None, rn_alloc_fns = [], rn_min_events = None\<rparr>,
      la_config = config_default\<rparr>)"
  by (simp add: main_action_def cmd_run_def take_flag_value_def take_flag_def parse_common_flags_def alloc_fns.simps split_target_def
      dashed_def target_setup_def with_dr_home_def apply_defaults_def default_output_def config_default_def or_else_def numeral_2_eq_2)

text \<open>The tripwire found is a candidate, and none has a higher score.\<close>

lemma detected_is_best:
  assumes "detect_tripwire_symbol (Some e) = Some name"
  shows "\<exists>s. (name, s) \<in> set (tripwire_candidates e) \<and> (\<forall>c \<in> set (tripwire_candidates e). snd c \<le> s)"
proof -
  let ?k = "\<lambda>c. - int (unat (snd c))"
  let ?xs = "sort_key ?k (tripwire_candidates e)"
  obtain c cs where c: "?xs = c # cs" "fst c = name" using assms by (auto simp: detect_tripwire_symbol_def split: list.splits)
  have "sorted (map ?k ?xs)" by simp
  then have "\<forall>d \<in> set cs. ?k c \<le> ?k d" unfolding c(1) by auto
  moreover have "set (tripwire_candidates e) = insert c (set cs)" using c(1) by (metis list.set(2) set_sort)
  ultimately show ?thesis using c(2) by (intro exI [of _ "snd c"]) (auto simp: word_le_def)
qed

text \<open>What \<open>setup\<close> writes is what the next run reads.\<close>

lemma setup_read_back:
  assumes "cmd_setup env ex te = ((path, contents), 0)" "fs path = Some contents" "path = global_config_path env"
    and "\<forall>v \<in> set_option (te_dynamorio_home te) \<union> set_option (te_discovered te) \<union> set_option (find_tracer ex te config_default). plain_value v"
  shows "\<exists>dr tracer. load_global_config env fs = config_default\<lparr>cf_dynamorio_home := Some dr, cf_tracer_path := Some tracer\<rparr>"
proof -
  define dr where "dr = (case te_dynamorio_home te of Some h \<Rightarrow> if ex (drrun_in h) then Some h else None | None \<Rightarrow> te_discovered te)"
  define tracer where "tracer = find_tracer ex te (config_default\<lparr>cf_dynamorio_home := dr\<rparr>)"
  have t: "tracer = find_tracer ex te config_default" by (simp add: tracer_def find_tracer_def config_default_def)
  have w: "contents = generate_global_config dr tracer" "dr \<noteq> None" "tracer \<noteq> None"
    using assms(1) unfolding cmd_setup_def dr_def tracer_def by (auto simp: Let_def split: if_splits)
  have "\<forall>v \<in> set_option dr \<union> set_option tracer. plain_value v"
    using assms(4) unfolding t dr_def by (auto split: option.splits if_splits)
  from setup_config_parsed [OF this] w assms(2,3) show ?thesis
    by (auto simp: load_global_config_def load_config_from_path_def config_default_def Let_def)
qed

end
