(* ===== verification/Terminal.thy ===== *)
theory Terminal
  imports Event_Loop Snapshots Text_Format "HOL-Library.Product_Lexorder"
begin

text \<open>
  The terminal interface (\<^verbatim>\<open>engine/src/tui.rs\<close>, and the rendering step of \<open>run\<close> in \<^verbatim>\<open>main.rs\<close>): its
  state, what each key does to it, the lines of the memory map and of the journal with their texts,
  and what a redraw does to the state.  The layout of the panels, the colours and the other panels,
  which only show values, are not modelled.  A key with a character has an ASCII character; a line is
  the concatenation of its spans, in the bytes of its UTF-8 encoding, and padding counts bytes.
\<close>

subsection \<open>State\<close>

datatype panel = Memory | Events | Registers

record event_filter =
  ef_thread_id :: "u16 option"
  ef_hide_reads :: bool
  ef_writes_only :: bool

definition ef_new :: event_filter where
  "ef_new = \<lparr>ef_thread_id = None, ef_hide_reads = False, ef_writes_only = False\<rparr>"

definition ef_is_active :: "event_filter \<Rightarrow> bool" where
  "ef_is_active f \<longleftrightarrow> ef_thread_id f \<noteq> None \<or> ef_hide_reads f \<or> ef_writes_only f"

definition ef_matches :: "event_filter \<Rightarrow> journal_entry \<Rightarrow> bool" where
  "ef_matches f e \<longleftrightarrow>
     \<not> (case ef_thread_id f of None \<Rightarrow> False | Some tid \<Rightarrow> je_thread_id e \<noteq> tid) \<and>
     \<not> (ef_writes_only f \<and> je_kind e \<noteq> 0) \<and> \<not> (ef_hide_reads f \<and> je_kind e = 1)"

record app_state =
  as_mem_scroll :: nat
  as_evt_scroll :: nat
  as_focus :: panel
  as_quit :: bool
  as_paused :: bool
  as_time_travel_idx :: "nat option"
  as_snap_count :: nat
  as_filter :: event_filter
  as_search_mode :: bool
  as_search_query :: string
  as_search_matches :: "nat list"
  as_search_idx :: nat

definition app_new :: app_state where
  "app_new = \<lparr>as_mem_scroll = 0, as_evt_scroll = 0, as_focus = Memory, as_quit = False, as_paused = False,
     as_time_travel_idx = None, as_snap_count = 0, as_filter = ef_new, as_search_mode = False, as_search_query = [],
     as_search_matches = [], as_search_idx = 0\<rparr>"


subsection \<open>Keys\<close>

text \<open>A character comes with whether Control is held.\<close>

datatype key =
  K_Esc | K_Enter | K_Backspace | K_Tab | K_Left | K_Right | K_End | K_Up | K_Down | K_Page_Up | K_Page_Down | K_Home
| K_Char char bool | K_Other

definition search_key :: "key \<Rightarrow> app_state \<Rightarrow> app_state" where
  "search_key k s =
     (case k of
        K_Esc \<Rightarrow> s\<lparr>as_search_mode := False, as_search_query := [], as_search_matches := []\<rparr>
      | K_Enter \<Rightarrow>
          (case as_search_matches s of [] \<Rightarrow> s\<lparr>as_search_mode := False\<rparr>
           | line # _ \<Rightarrow> s\<lparr>as_search_mode := False, as_mem_scroll := line, as_search_idx := 0, as_focus := Memory\<rparr>)
      | K_Backspace \<Rightarrow> s\<lparr>as_search_query := butlast (as_search_query s)\<rparr>
      | K_Char c _ \<Rightarrow> s\<lparr>as_search_query := as_search_query s @ [c]\<rparr>
      | _ \<Rightarrow> s)"

definition next_focus :: "panel \<Rightarrow> panel" where
  "next_focus p = (case p of Memory \<Rightarrow> Events | Events \<Rightarrow> Registers | Registers \<Rightarrow> Memory)"

definition time_back :: "app_state \<Rightarrow> app_state" where
  "time_back s =
     (case as_time_travel_idx s of
        Some idx \<Rightarrow> if 0 < idx then s\<lparr>as_time_travel_idx := Some (idx - 1)\<rparr> else s
      | None \<Rightarrow> if 0 < as_snap_count s - 1 then s\<lparr>as_time_travel_idx := Some (as_snap_count s - 1 - 1), as_paused := True\<rparr> else s)"

definition time_forward :: "app_state \<Rightarrow> app_state" where
  "time_forward s =
     (case as_time_travel_idx s of None \<Rightarrow> s
      | Some idx \<Rightarrow> s\<lparr>as_time_travel_idx := (if as_snap_count s - 1 \<le> idx then None else Some (idx + 1))\<rparr>)"

definition scroll :: "(nat \<Rightarrow> nat) \<Rightarrow> app_state \<Rightarrow> app_state" where
  "scroll f s =
     (case as_focus s of Memory \<Rightarrow> s\<lparr>as_mem_scroll := f (as_mem_scroll s)\<rparr> | Events \<Rightarrow> s\<lparr>as_evt_scroll := f (as_evt_scroll s)\<rparr>
      | Registers \<Rightarrow> s)"

definition filter_key :: "char \<Rightarrow> event_filter \<Rightarrow> event_filter" where
  "filter_key c f =
     (if c = CHR ''w'' then
        (let w = \<not> ef_writes_only f in f\<lparr>ef_writes_only := w, ef_hide_reads := (if w then False else ef_hide_reads f)\<rparr>)
      else if c = CHR ''r'' then
        (let r = \<not> ef_hide_reads f in f\<lparr>ef_hide_reads := r, ef_writes_only := (if r then False else ef_writes_only f)\<rparr>)
      else if is_dec_digit c then
        (let tid = of_nat (of_char c - 48) in f\<lparr>ef_thread_id := (if ef_thread_id f = Some tid then None else Some tid)\<rparr>)
      else if c = CHR ''x'' then ef_new else f)"

definition goto_match :: "nat \<Rightarrow> app_state \<Rightarrow> app_state outcome" where
  "goto_match i s =
     (if i < length (as_search_matches s)
      then Value (s\<lparr>as_search_idx := i, as_mem_scroll := as_search_matches s ! i, as_focus := Memory\<rparr>) else Panic)"

definition char_key :: "char \<Rightarrow> bool \<Rightarrow> app_state \<Rightarrow> app_state outcome" where
  "char_key c ctrl s =
     (if c = CHR ''q'' \<or> c = CHR ''c'' \<and> ctrl then Value (s\<lparr>as_quit := True\<rparr>)
      else if c = CHR '' '' then Value (s\<lparr>as_paused := \<not> as_paused s\<rparr>)
      else if c = CHR ''h'' then Value (time_back s)
      else if c = CHR ''l'' then Value (time_forward s)
      else if c = CHR ''k'' then Value (scroll (\<lambda>n. n - 1) s)
      else if c = CHR ''j'' then Value (scroll (\<lambda>n. n + 1) s)
      else if as_focus s = Events \<and> (c \<in> {CHR ''w'', CHR ''r'', CHR ''x''} \<or> is_dec_digit c)
      then Value (s\<lparr>as_filter := filter_key c (as_filter s)\<rparr>)
      else if c = CHR ''/'' then Value (s\<lparr>as_search_mode := True, as_search_query := [], as_search_matches := [], as_search_idx := 0\<rparr>)
      else if c = CHR ''n'' \<and> as_search_matches s \<noteq> []
      then goto_match ((as_search_idx s + 1) mod length (as_search_matches s)) s
      else if c = CHR ''N'' \<and> as_search_matches s \<noteq> []
      then goto_match (if as_search_idx s = 0 then length (as_search_matches s) - 1 else as_search_idx s - 1) s
      else Value s)"

definition handle_key :: "key \<Rightarrow> app_state \<Rightarrow> app_state outcome" where
  "handle_key k s =
     (if as_search_mode s then Value (search_key k s)
      else
        (case k of
           K_Char c ctrl \<Rightarrow> char_key c ctrl s
         | K_Tab \<Rightarrow> Value (s\<lparr>as_focus := next_focus (as_focus s)\<rparr>)
         | K_Left \<Rightarrow> Value (time_back s)
         | K_Right \<Rightarrow> Value (time_forward s)
         | K_End \<Rightarrow> Value (s\<lparr>as_time_travel_idx := None\<rparr>)
         | K_Up \<Rightarrow> Value (scroll (\<lambda>n. n - 1) s)
         | K_Down \<Rightarrow> Value (scroll (\<lambda>n. n + 1) s)
         | K_Page_Up \<Rightarrow> Value (scroll (\<lambda>n. n - 20) s)
         | K_Page_Down \<Rightarrow> Value (scroll (\<lambda>n. n + 20) s)
         | K_Home \<Rightarrow> Value (scroll (\<lambda>n. 0) s)
         | _ \<Rightarrow> Value s))"

text \<open>\<open>handle_input\<close>: the keys that have arrived since the last call.\<close>

primrec handle_input :: "key list \<Rightarrow> app_state \<Rightarrow> app_state outcome" where
  "handle_input [] s = Value s"
| "handle_input (k # ks) s = (case handle_key k s of Panic \<Rightarrow> Panic | Value s1 \<Rightarrow> handle_input ks s1)"


subsection \<open>The memory map\<close>

definition bar :: string where "bar = [CHR 0xE2, CHR 0x94, CHR 0x80, CHR 0xE2, CHR 0x94, CHR 0x80]"
definition arrow :: string where "arrow = '' '' @ [CHR 0xE2, CHR 0x86, CHR 0x92] @ '' ''"

definition is_local :: "node_id \<Rightarrow> bool" where
  "is_local nid = (case nid of N_Local _ _ \<Rightarrow> True | _ \<Rightarrow> False)"

definition is_field :: "node_id \<Rightarrow> bool" where
  "is_field nid = (case nid of N_Field _ _ \<Rightarrow> True | _ \<Rightarrow> False)"

definition same_local :: "node_id \<times> node \<Rightarrow> node_id \<times> node \<Rightarrow> bool" where
  "same_local a b \<longleftrightarrow> is_local (fst a) \<and> is_local (fst b) \<and> nd_addr (snd a) = nd_addr (snd b) \<and> nd_name (snd a) = nd_name (snd b)"

text \<open>\<open>dedup_by\<close>: an element is dropped if it is the same local as the last one kept.\<close>

fun dedup_locals :: "(node_id \<times> node) list \<Rightarrow> (node_id \<times> node) list" where
  "dedup_locals (a # b # ns) = (if same_local b a then dedup_locals (a # ns) else a # dedup_locals (b # ns))"
| "dedup_locals ns = ns"

text \<open>By address, and at the same address the one written last first.\<close>

definition shown_nodes :: "world_inner \<Rightarrow> (node_id \<times> node) list" where
  "shown_nodes w =
     dedup_locals (sort_key (\<lambda>(_, n). (nd_addr n, - 1 - nd_last_write_insn n)) (filter (\<lambda>(_, n). 0 < nd_size n) (wi_nodes w)))"

definition name_priority :: "node_id \<Rightarrow> nat" where
  "name_priority nid = (case nid of N_Field _ _ \<Rightarrow> 0 | N_Global _ \<Rightarrow> 1 | N_Local _ _ \<Rightarrow> 2)"

definition addr_names :: "world_inner \<Rightarrow> u64 \<Rightarrow> string option" where
  "addr_names w = map_of (rev (map (\<lambda>(_, n). (nd_addr n, nd_name n)) (sort_key (name_priority \<circ> fst) (wi_nodes w))))"

definition resolve_ptr_target :: "u64 \<Rightarrow> world_inner \<Rightarrow> string option" where
  "resolve_ptr_target v w = (if v = 0 then None else addr_names w v)"

definition pointer_text :: "world_inner \<Rightarrow> bool \<Rightarrow> u64 \<Rightarrow> string" where
  "pointer_text w is_ptr v =
     (if is_ptr \<and> v \<noteq> 0 then arrow @ (case resolve_ptr_target v w of Some name \<Rightarrow> name | None \<Rightarrow> alt_hex v) else [])"

definition value_text :: "u64 \<Rightarrow> string" where "value_text v = '' 0x'' @ pad_right 16 (hex (unat v))"

definition row_text :: "nat \<Rightarrow> u64 \<Rightarrow> u64 \<Rightarrow> string \<Rightarrow> string" where
  "row_text indent a n name =
     replicate indent (CHR '' '') @ pad_left 12 (hex (unat a)) @ '' '' @ pad_left 3 (dec (unat n)) @ ''B '' @ pad_right 18 name"

definition cacheline_text :: "cl_tracker \<Rightarrow> u64 \<Rightarrow> string" where
  "cacheline_text ct a =
     ''  '' @ bar @ '' CL '' @ alt_hex (a div 64 * 64) @ '' '' @ bar @
     (if 1 < contention_score a ct then ''  FALSE_SHARE T='' @ dec (contention_score a ct) else [])"

definition shown_field :: "field_info \<Rightarrow> bool" where
  "shown_field f \<longleftrightarrow> fi_byte_size f \<noteq> 0 \<and> fi_name f \<noteq> ''<pointee>''"

definition field_text :: "world_inner \<Rightarrow> u32 \<Rightarrow> node \<Rightarrow> nat \<times> field_info \<Rightarrow> string" where
  "field_text w gi n e =
     (case e of (i, f) \<Rightarrow>
        (let v = (case bt_get (wi_nodes w) (N_Field gi (of_nat i)) of None \<Rightarrow> 0 | Some fn \<Rightarrow> nd_raw_value fn)
         in row_text 4 (nd_addr n + fi_byte_offset f) (fi_byte_size f) (fi_name f) @ pad_right 12 (ti_name (fi_type_info f)) @
            value_text v @ pointer_text w (ti_is_pointer (fi_type_info f)) v))"

definition node_texts :: "world_inner \<Rightarrow> node_id \<times> node \<Rightarrow> string list" where
  "node_texts w e =
     (case e of (nid, n) \<Rightarrow>
        (row_text 2 (nd_addr n) (nd_size n) (nd_name n) @ pad_right 12 (ti_name (nd_type_info n)) @ value_text (nd_raw_value n) @
           pointer_text w (ti_is_pointer (nd_type_info n)) (nd_raw_value n)) #
        (case nid of
           N_Global gi \<Rightarrow>
             if ti_is_pointer (nd_type_info n) then []
             else map (field_text w gi n) (filter (shown_field \<circ> snd) (enumerate 0 (ti_fields (nd_type_info n))))
         | _ \<Rightarrow> []))"

fun nodes_texts :: "cl_tracker \<Rightarrow> world_inner \<Rightarrow> u64 \<Rightarrow> (node_id \<times> node) list \<Rightarrow> string list" where
  "nodes_texts ct w last_cl [] = []"
| "nodes_texts ct w last_cl (e # es) =
     (if is_field (fst e) then nodes_texts ct w last_cl es
      else (let a = nd_addr (snd e) in
            (if a div 64 \<noteq> last_cl then [cacheline_text ct a] else []) @ node_texts w e @ nodes_texts ct w (a div 64) es))"

definition projection_texts :: "shadow_type_map \<Rightarrow> u64 \<times> type_projection \<Rightarrow> string list" where
  "projection_texts stm e =
     (case e of (base, p) \<Rightarrow>
        (row_text 2 base (ti_byte_size (tp_type_info p)) (ti_name (tp_type_info p)) @ ''via '' @ tp_source_name p) #
        map (\<lambda>f. row_text 4 (base + fi_byte_offset f) (fi_byte_size f) (fi_name f) @ pad_right 12 (ti_name (fi_type_info f)) @
               (if ti_is_pointer (fi_type_info f)
                then (case bt_get (st_map stm) (base + fi_byte_offset f) of None \<Rightarrow> []
                      | Some t \<Rightarrow> arrow @ ti_name (tp_type_info t) @ '' ('' @ alt_hex (tp_base_addr t) @ '')'')
                else []))
          (filter shown_field (ti_fields (tp_type_info p))))"

definition build_mem_lines :: "world_inner \<Rightarrow> cl_tracker \<Rightarrow> shadow_type_map \<Rightarrow> string list" where
  "build_mem_lines w ct stm =
     nodes_texts ct w (- 1) (shown_nodes w) @
     (if st_map stm = [] then []
      else (''  '' @ bar @ '' HEAP TYPES ('' @ dec (length (st_map stm)) @ '' projections) '' @ bar) #
           concat (map (projection_texts stm) (st_map stm)))"


subsection \<open>The journal and the redraw\<close>

definition kind_text :: "u8 \<Rightarrow> string" where
  "kind_text k = (case map_of [(0, ''W   ''), (1, ''R   ''), (2, ''CALL''), (3, ''RET ''), (4, ''OVF ''), (5, ''REG ''), (6, ''CMIS''),
     (7, ''MLOAD''), (8, ''TCAL''), (12, ''RLOD'')] k of Some s \<Rightarrow> s | None \<Rightarrow> ''?   '')"

definition event_text :: "journal_entry \<Rightarrow> string" where
  "event_text e = pad_left 8 (dec (unat (je_seq e))) @ '' '' @ kind_text (je_kind e) @ '' T'' @ pad_right 2 (dec (unat (je_thread_id e))) @
     '' '' @ pad_left 12 (hex (unat (je_addr e))) @ '' '' @ pad_left 4 (dec (unat (je_size e))) @ '' '' @ pad_left 16 (hex (unat (je_value e)))"

definition build_event_lines :: "journal_entry list \<Rightarrow> event_filter \<Rightarrow> string list" where
  "build_event_lines journal f = map event_text (filter (ef_matches f) journal)"

definition matching_lines :: "string \<Rightarrow> string list \<Rightarrow> nat list" where
  "matching_lines q lines = map fst (filter (\<lambda>(_, l). sublist (to_lower q) (to_lower l)) (enumerate 0 lines))"

definition update_search :: "string list \<Rightarrow> app_state \<Rightarrow> app_state" where
  "update_search lines s =
     (if as_search_query s \<noteq> [] then
        (let ms = matching_lines (as_search_query s) lines; i = (if length ms \<le> as_search_idx s then 0 else as_search_idx s)
         in s\<lparr>as_search_matches := ms, as_search_idx := i,
              as_mem_scroll := (if as_search_mode s \<and> i < length ms then ms ! i else as_mem_scroll s)\<rparr>)
      else s\<lparr>as_search_matches := []\<rparr>)"

definition clamp_scrolls :: "nat \<Rightarrow> nat \<Rightarrow> app_state \<Rightarrow> app_state" where
  "clamp_scrolls mem_len evt_len s =
     s\<lparr>as_mem_scroll := min (as_mem_scroll s) (mem_len - 1), as_evt_scroll := min (as_evt_scroll s) (evt_len - 1)\<rparr>"

text \<open>\<open>height\<close>: the lines that the events panel has room for.\<close>

definition follow_events :: "nat \<Rightarrow> nat \<Rightarrow> app_state \<Rightarrow> app_state" where
  "follow_events height evt_len s =
     (if as_focus s \<noteq> Events \<and> height < evt_len then s\<lparr>as_evt_scroll := evt_len - height\<rparr> else s)"

definition draw ::
  "world_inner \<Rightarrow> cl_tracker \<Rightarrow> shadow_type_map \<Rightarrow> journal_entry list \<Rightarrow> nat \<Rightarrow> nat \<Rightarrow> app_state \<Rightarrow> app_state" where
  "draw w ct stm journal snap_total height s =
     (let s1 = s\<lparr>as_snap_count := snap_total\<rparr>; mem = build_mem_lines w ct stm;
          evts = build_event_lines journal (as_filter s1)
      in follow_events height (length evts) (clamp_scrolls (length mem) (length evts) (update_search mem s1)))"

text \<open>The rendering step of the loop: the world is copied to the history, paused or not, and what is
  shown is the snapshot at the index of the time travel, or else the world.\<close>

definition display_snap :: "app_state \<Rightarrow> world_inner \<Rightarrow> snapshot_ring \<Rightarrow> world_inner outcome" where
  "display_snap s live r =
     (case as_time_travel_idx s of None \<Rightarrow> Value live
      | Some idx \<Rightarrow>
          (case sr_slot idx r of Panic \<Rightarrow> Panic | Value None \<Rightarrow> Value live | Value (Some e) \<Rightarrow> Value (sn_snap e)))"

definition render ::
  "world_inner \<Rightarrow> cl_tracker \<Rightarrow> shadow_type_map \<Rightarrow> journal_entry list \<Rightarrow> u64 \<Rightarrow> u64 \<Rightarrow> nat \<Rightarrow> app_state \<times> snapshot_ring \<Rightarrow>
    (app_state \<times> snapshot_ring) outcome" where
  "render live ct stm journal tk seq height sr =
     (case sr of (s, r) \<Rightarrow>
        (case sr_push live tk seq r of Panic \<Rightarrow> Panic
         | Value r1 \<Rightarrow>
             (case display_snap s live r1 of Panic \<Rightarrow> Panic
              | Value w \<Rightarrow> Value (draw w ct stm journal (sr_len r1) height s, r1))))"


subsection \<open>Sessions\<close>

text \<open>A session: keys arrive and the screen is redrawn, in any order.\<close>

datatype ui_step =
  Keys "key list"
| Redraw world_inner cl_tracker shadow_type_map "journal_entry list" u64 u64 nat

definition ui_step :: "ui_step \<Rightarrow> app_state \<times> snapshot_ring \<Rightarrow> (app_state \<times> snapshot_ring) outcome" where
  "ui_step st sr =
     (case st of
        Keys ks \<Rightarrow> (case handle_input ks (fst sr) of Panic \<Rightarrow> Panic | Value s \<Rightarrow> Value (s, snd sr))
      | Redraw w ct stm journal tk sq height \<Rightarrow> render w ct stm journal tk sq height sr)"

primrec run_ui :: "ui_step list \<Rightarrow> app_state \<times> snapshot_ring \<Rightarrow> (app_state \<times> snapshot_ring) outcome" where
  "run_ui [] sr = Value sr"
| "run_ui (st # sts) sr = (case ui_step st sr of Panic \<Rightarrow> Panic | Value sr1 \<Rightarrow> run_ui sts sr1)"

definition HISTORY :: nat where "HISTORY = 512"

definition redrawn :: "ui_step \<Rightarrow> world_inner option" where
  "redrawn st = (case st of Keys _ \<Rightarrow> None | Redraw w _ _ _ _ _ _ \<Rightarrow> Some w)"

definition app_ok :: "nat \<Rightarrow> app_state \<Rightarrow> bool" where
  "app_ok n s \<longleftrightarrow> (as_search_matches s = [] \<or> as_search_idx s < length (as_search_matches s)) \<and>
     (\<forall>i. as_time_travel_idx s = Some i \<longrightarrow> i < as_snap_count s) \<and> as_snap_count s \<le> n"

lemma search_key_ok: "app_ok n s \<Longrightarrow> app_ok n (search_key k s)"
  by (auto simp: app_ok_def search_key_def split: key.split list.split)

lemma time_back_ok: "app_ok n s \<Longrightarrow> app_ok n (time_back s)"
  by (auto simp: app_ok_def time_back_def split: option.split)

lemma time_forward_ok: "app_ok n s \<Longrightarrow> app_ok n (time_forward s)"
  by (auto simp: app_ok_def time_forward_def split: option.split)

lemma scroll_ok: "app_ok n s \<Longrightarrow> app_ok n (scroll f s)"
  by (auto simp: app_ok_def scroll_def split: panel.split)

lemma goto_match_ok:
  assumes "app_ok n s" "i < length (as_search_matches s)"
  shows "\<exists>s'. goto_match i s = Value s' \<and> app_ok n s'"
  using assms by (simp add: goto_match_def app_ok_def)

lemma ok_if:
  "\<lbrakk>P \<Longrightarrow> \<exists>x. a = Value x \<and> Q x; \<not> P \<Longrightarrow> \<exists>x. b = Value x \<and> Q x\<rbrakk> \<Longrightarrow> \<exists>x. (if P then a else b) = Value x \<and> Q x"
  by simp

lemma ok_value: "Q y \<Longrightarrow> \<exists>x. Value y = Value x \<and> Q x"
  by simp

lemma char_key_ok:
  assumes "app_ok n s"
  shows "\<exists>s'. char_key c ctrl s = Value s' \<and> app_ok n s'"
proof -
  have m: "as_search_matches s \<noteq> [] \<Longrightarrow> as_search_idx s < length (as_search_matches s)" using assms by (auto simp: app_ok_def)
  have b: "app_ok n (s\<lparr>as_quit := x\<rparr>)" "app_ok n (s\<lparr>as_paused := x\<rparr>)" "app_ok n (s\<lparr>as_filter := y\<rparr>)" for x y
    using assms by (simp_all add: app_ok_def)
  have nxt: "\<exists>s'. goto_match ((as_search_idx s + 1) mod length (as_search_matches s)) s = Value s' \<and> app_ok n s'"
    if "as_search_matches s \<noteq> []" using that by (intro goto_match_ok [OF assms]) simp
  have prv: "\<exists>s'. goto_match (if as_search_idx s = 0 then length (as_search_matches s) - 1 else as_search_idx s - 1) s = Value s' \<and> app_ok n s'"
    if "as_search_matches s \<noteq> []" using that m by (intro goto_match_ok [OF assms]) auto
  have sl: "app_ok n (s\<lparr>as_search_mode := True, as_search_query := [], as_search_matches := [], as_search_idx := 0\<rparr>)"
    using assms by (simp add: app_ok_def)
  show ?thesis
    unfolding char_key_def
    apply (intro ok_if)
    subgoal by (rule ok_value) (rule b)
    subgoal by (rule ok_value) (rule b)
    subgoal by (rule ok_value) (rule time_back_ok [OF assms])
    subgoal by (rule ok_value) (rule time_forward_ok [OF assms])
    subgoal by (rule ok_value) (rule scroll_ok [OF assms])
    subgoal by (rule ok_value) (rule scroll_ok [OF assms])
    subgoal by (rule ok_value) (rule b)
    subgoal by (rule ok_value) (rule sl)
    subgoal by (erule conjE) (rule nxt)
    subgoal by (erule conjE) (rule prv)
    subgoal by (rule ok_value) (rule assms)
    done
qed

lemma handle_key_ok:
  assumes "app_ok n s"
  shows "\<exists>s'. handle_key k s = Value s' \<and> app_ok n s'"
proof (cases "as_search_mode s")
  case True
  then show ?thesis using search_key_ok [OF assms] by (simp add: handle_key_def)
next
  case False
  have "app_ok n (s\<lparr>as_focus := f\<rparr>)" "app_ok n (s\<lparr>as_time_travel_idx := None\<rparr>)" for f using assms by (simp_all add: app_ok_def)
  with False show ?thesis
    using char_key_ok [OF assms] time_back_ok [OF assms] time_forward_ok [OF assms] scroll_ok [OF assms] assms
    by (cases k) (simp_all add: handle_key_def)
qed

lemma handle_input_ok: "app_ok n s \<Longrightarrow> \<exists>s'. handle_input ks s = Value s' \<and> app_ok n s'"
proof (induction ks arbitrary: s)
  case (Cons k ks)
  with handle_key_ok [of n s k] show ?case by auto
qed simp

lemma draw_ok:
  assumes "app_ok n s" "n \<le> m"
  shows "app_ok m (draw w ct stm journal m height s)"
proof -
  have "app_ok m (s\<lparr>as_snap_count := m\<rparr>)" using assms by (auto simp: app_ok_def)
  then have "app_ok m (update_search mem (s\<lparr>as_snap_count := m\<rparr>))" for mem
    by (auto simp: app_ok_def update_search_def Let_def)
  then show ?thesis by (simp add: draw_def Let_def app_ok_def follow_events_def clamp_scrolls_def)
qed

text \<open>After a redraw the scroll position is on a line, and the matches are the lines with the query in them.\<close>

lemma draw_in_range:
  "as_mem_scroll (draw w ct stm journal m height s) \<le> length (build_mem_lines w ct stm) - 1"
  "as_search_matches (draw w ct stm journal m height s) =
     (if as_search_query s = [] then [] else matching_lines (as_search_query s) (build_mem_lines w ct stm))"
  by (simp_all add: draw_def Let_def follow_events_def clamp_scrolls_def update_search_def)

lemma matching_lines_exact:
  "set (matching_lines q lines) = {i. i < length lines \<and> sublist (to_lower q) (to_lower (lines ! i))}"
  by (auto simp: matching_lines_def in_set_enumerate_eq image_iff)

definition ring_holds :: "world_inner list \<Rightarrow> snapshot_ring \<Rightarrow> bool" where
  "ring_holds hist r \<longleftrightarrow> sr_inv r \<and> sr_cap r = HISTORY \<and> map sn_snap (sr_items r) = last_n HISTORY hist"

lemma map_last_n: "map f (last_n n xs) = last_n n (map f xs)"
  by (simp add: last_n_def drop_map)

lemma ring_holds_push:
  assumes "ring_holds hist r"
  shows "\<exists>r'. sr_push w tk sq r = Value r' \<and> ring_holds (hist @ [w]) r' \<and> sr_len r' = length (sr_items r') \<and>
    length (sr_items r) \<le> length (sr_items r')"
proof -
  have r: "sr_inv r" "sr_cap r = HISTORY" and i: "map sn_snap (sr_items r) = last_n HISTORY hist"
    using assms by (simp_all add: ring_holds_def)
  define r' where "r' = sr_put (snap_of w tk sq) r"
  have "sr_push w tk sq r = Value r'" using r(2) by (simp add: sr_push_def HISTORY_def r'_def)
  moreover have inv: "sr_inv r'" unfolding r'_def by (rule snaps.inv_push [OF r(1)])
  moreover have it: "sr_items r' = last_n HISTORY (sr_items r @ [snap_of w tk sq])"
    using snaps.items_push [OF r(1)] r(2) by (simp add: r'_def)
  then have "map sn_snap (sr_items r') = last_n HISTORY (hist @ [w])"
    using last_n_append [of HISTORY hist "[w]"] i by (simp add: map_last_n snap_of_def)
  moreover have "sr_cap r' = HISTORY" using snaps.cap_push [OF r(1)] r(2) by (simp add: r'_def)
  moreover have "sr_len r' = length (sr_items r')" using inv by (simp add: sr_inv_def sr_items_def circ_items_length)
  moreover have "length (sr_items r) \<le> length (sr_items r')" using snaps.items_cap [OF r(1)] r(2) unfolding it by simp
  ultimately show ?thesis by (auto simp: ring_holds_def)
qed

lemma display_at:
  assumes "app_ok (length (sr_items r)) s" "ring_holds hist r"
  shows "display_snap s live r = Value (case as_time_travel_idx s of None \<Rightarrow> live | Some i \<Rightarrow> last_n HISTORY hist ! i) \<and>
    (\<forall>i. as_time_travel_idx s = Some i \<longrightarrow> i < length (last_n HISTORY hist))"
proof (cases "as_time_travel_idx s")
  case (Some i)
  with assms(1) have i: "i < length (sr_items r)" by (auto simp: app_ok_def)
  have r: "sr_inv r" and it: "map sn_snap (sr_items r) = last_n HISTORY hist" using assms(2) by (simp_all add: ring_holds_def)
  have "length (sr_items r) = length (last_n HISTORY hist)" unfolding it [symmetric] by simp
  moreover have "sn_snap (sr_items r ! i) = last_n HISTORY hist ! i" unfolding it [symmetric] using i by simp
  ultimately show ?thesis using Some i by (simp add: display_snap_def sr_slot_items [OF r])
qed (simp add: display_snap_def)

lemma run_ui_ok:
  assumes "app_ok (length (sr_items r)) s" "ring_holds hist r"
  shows "\<exists>s' r'. run_ui steps (s, r) = Value (s', r') \<and> app_ok (length (sr_items r')) s' \<and>
    ring_holds (hist @ List.map_filter redrawn steps) r'"
  using assms
proof (induction steps arbitrary: s r hist)
  case (Cons st steps)
  show ?case
  proof (cases st)
    case (Keys ks)
    obtain s1 where "handle_input ks s = Value s1" "app_ok (length (sr_items r)) s1" using handle_input_ok [OF Cons.prems(1)] by blast
    with Cons.IH [of r s1 hist] Cons.prems(2) Keys show ?thesis by (simp add: ui_step_def redrawn_def List.map_filter_def)
  next
    case (Redraw w ct stm journal tk sq height)
    obtain r1 where r1: "sr_push w tk sq r = Value r1" "ring_holds (hist @ [w]) r1" "sr_len r1 = length (sr_items r1)"
        "length (sr_items r) \<le> length (sr_items r1)"
      using ring_holds_push [OF Cons.prems(2)] by blast
    have "app_ok (length (sr_items r1)) s" using Cons.prems(1) r1(4) by (auto simp: app_ok_def)
    then obtain v where "display_snap s w r1 = Value v" using display_at [OF _ r1(2)] by blast
    with r1(1,3) have "ui_step st (s, r) = Value (draw v ct stm journal (length (sr_items r1)) height s, r1)"
      by (simp add: Redraw ui_step_def render_def)
    moreover have "app_ok (length (sr_items r1)) (draw v ct stm journal (length (sr_items r1)) height s)"
      by (rule draw_ok [OF Cons.prems(1) r1(4)])
    ultimately show ?thesis
      using Cons.IH [of r1 "draw v ct stm journal (length (sr_items r1)) height s" "hist @ [w]"] r1(2)
      by (simp add: Redraw redrawn_def List.map_filter_def)
  qed
qed (simp add: List.map_filter_def)

lemma session_start: "app_ok (length (sr_items (sr_new HISTORY))) app_new" "ring_holds [] (sr_new HISTORY)"
  using sr_inv_new [of HISTORY]
  by (simp_all add: app_ok_def app_new_def ring_holds_def HISTORY_def sr_new_def sr_items_def circ_items_def last_n_def)

text \<open>
  C40 (safety).  No session with the terminal panics, whatever the keys and whenever the screen is
  redrawn between them: the search never leaves the list of its matches, and the index of the time
  travel is always that of a snapshot that exists.  What is shown at an index is the snapshot that
  many redraws after the oldest of the last 512; without an index it is the world as it is.
\<close>

theorem terminal_session_safe:
  "\<exists>s r. run_ui steps (app_new, sr_new HISTORY) = Value (s, r) \<and>
     (as_search_matches s = [] \<or> as_search_idx s < length (as_search_matches s)) \<and>
     (let shown = last_n 512 (List.map_filter redrawn steps) in
      case as_time_travel_idx s of
        None \<Rightarrow> display_snap s live r = Value live
      | Some i \<Rightarrow> i < length shown \<and> display_snap s live r = Value (shown ! i))"
proof -
  obtain s r where r: "run_ui steps (app_new, sr_new HISTORY) = Value (s, r)" "app_ok (length (sr_items r)) s"
      "ring_holds (List.map_filter redrawn steps) r"
    using run_ui_ok [OF session_start, of steps] by auto
  with display_at [OF r(2,3), of live] show ?thesis
    by (intro exI [of _ s] exI [of _ r]) (auto simp: app_ok_def HISTORY_def Let_def split: option.split)
qed

text \<open>
  The world is copied to the history at every redraw, paused or not: after 512 redraws without an
  event every snapshot that can be reached is the paused state, and the history is gone.
\<close>

lemma paused_history_lost:
  assumes "List.map_filter redrawn steps = hist @ replicate 512 w"
  shows "\<exists>s r. run_ui steps (app_new, sr_new HISTORY) = Value (s, r) \<and> display_snap s w r = Value w"
proof -
  obtain s r where r: "run_ui steps (app_new, sr_new HISTORY) = Value (s, r)" "app_ok (length (sr_items r)) s"
      "ring_holds (hist @ replicate 512 w) r"
    using run_ui_ok [OF session_start, of steps] assms by auto
  have "last_n HISTORY (hist @ replicate 512 w) = replicate 512 w" by (simp add: last_n_def HISTORY_def)
  with display_at [OF r(2,3), of w] r(1) show ?thesis by (auto split: option.splits)
qed

text \<open>
  The matches are computed by the redraw: when the query and Enter arrive between two redraws,
  nothing is found to jump to, and the redraw that finds the matches does not jump either.
\<close>

lemma quick_search_stays:
  assumes "handle_input [K_Char (CHR ''/'') False, K_Char c False, K_Enter] s = Value s1" "\<not> as_search_mode s"
  shows "as_mem_scroll (update_search lines s1) = as_mem_scroll s"
  using assms by (auto simp: handle_key_def char_key_def search_key_def update_search_def Let_def is_dec_digit_def)

end
