(* ===== verification/Topo_Diff.thy ===== *)
theory Topo_Diff
  imports Loop_Props Text_Format "HOL-Library.List_Lexorder" "HOL-Library.Char_ord" "HOL-Library.Product_Lexorder"
begin

text \<open>
  The comparison of two recordings (\<^verbatim>\<open>engine/src/diff.rs\<close>): the replay of a recording to checkpoints,
  the difference of two checkpoints, and the lines of the report.  A checkpoint has nothing that
  depends on where the loader put the program.  A \<open>BTreeSet\<close> is the list of its elements in their
  order.  Arguments and the messages on standard error are not modelled.
\<close>

definition btree_set :: "('a \<Rightarrow> 'k::linorder) \<Rightarrow> 'a list \<Rightarrow> 'a list" where
  "btree_set key xs = sort_key key (remdups xs)"

definition set_difference :: "'a list \<Rightarrow> 'a list \<Rightarrow> 'a list" where
  "set_difference xs ys = filter (\<lambda>x. x \<notin> set ys) xs"

record canonical_stamp =
  cs_source :: string
  cs_type_name :: string
  cs_type_size :: u64
  cs_field_count :: nat

record canonical_hazard =
  ch_kind :: string
  ch_write_size :: u32
  ch_type_name :: "string option"
  ch_field_name :: "string option"
  ch_pc :: u64

record hazard_reg_context =
  hc_pc :: u64
  hc_rax :: u64
  hc_rdi :: u64
  hc_rsi :: u64
  hc_rdx :: u64
  hc_rsp :: u64

text \<open>The derived orders: field by field; of an option the absent value comes first.\<close>

definition stamp_key :: "canonical_stamp \<Rightarrow> string \<times> string \<times> u64 \<times> nat" where
  "stamp_key s = (cs_source s, cs_type_name s, cs_type_size s, cs_field_count s)"

definition option_key :: "string option \<Rightarrow> nat \<times> string" where
  "option_key x = (case x of None \<Rightarrow> (0, []) | Some s \<Rightarrow> (1, s))"

definition hazard_key :: "canonical_hazard \<Rightarrow> string \<times> u32 \<times> (nat \<times> string) \<times> (nat \<times> string) \<times> u64" where
  "hazard_key h = (ch_kind h, ch_write_size h, option_key (ch_type_name h), option_key (ch_field_name h), ch_pc h)"

record topology_checkpoint =
  cp_seq :: u64
  cp_stamps :: "canonical_stamp list"
  cp_type_histogram :: "(string, u64) btree_map"
  cp_alloc_histogram :: "(u64, u64) btree_map"
  cp_hazards :: "canonical_hazard list"
  cp_hazard_regs :: "hazard_reg_context option list"
  cp_stamp_count :: nat
  cp_alloc_count :: nat
  cp_hazard_count :: nat
  cp_heap_objects :: nat
  cp_heap_typed :: nat
  cp_heap_rescores :: u64
  cp_heap_contradictions :: u64
  cp_heap_type_histogram :: "(string, u64) btree_map"

definition count_key :: "'k::linorder \<Rightarrow> ('k, u64) btree_map \<Rightarrow> ('k, u64) btree_map" where
  "count_key k m = bt_insert k ((case bt_get m k of None \<Rightarrow> 0 | Some n \<Rightarrow> n) + 1) m"

definition histogram :: "'k::linorder list \<Rightarrow> ('k, u64) btree_map" where
  "histogram ks = fold count_key ks []"

definition stamp_of :: "type_projection \<Rightarrow> canonical_stamp" where
  "stamp_of p = \<lparr>cs_source = tp_source_name p, cs_type_name = ti_name (tp_type_info p),
     cs_type_size = ti_byte_size (tp_type_info p), cs_field_count = length (ti_fields (tp_type_info p))\<rparr>"

definition canonical_of :: "heap_hazard \<Rightarrow> canonical_hazard" where
  "canonical_of h = \<lparr>ch_kind = (case hz_kind h of OutOfBounds \<Rightarrow> ''OOB'' | HeapHole \<Rightarrow> ''HOLE''), ch_write_size = hz_write_size h,
     ch_type_name = hz_type_name h, ch_field_name = hz_field_name h, ch_pc = hz_pc h\<rparr>"

definition context_of :: "heap_hazard \<Rightarrow> hazard_reg_context option" where
  "context_of h = map_option (\<lambda>r. \<lparr>hc_pc = hz_pc h, hc_rax = r ! 0, hc_rdi = r ! 5, hc_rsi = r ! 4, hc_rdx = r ! 3, hc_rsp = r ! 7\<rparr>)
     (hz_reg_snapshot h)"

definition take_checkpoint :: "u64 \<Rightarrow> 'f engine \<Rightarrow> topology_checkpoint" where
  "take_checkpoint seq en =
     (let stamps = btree_set stamp_key (map (stamp_of \<circ> snd) (st_map (stm_of en)));
          hazards = ws_hazards (en_world en); objs = map snd (hg_objects (en_heap en));
          typed = List.map_filter hb_inferred_type objs
      in \<lparr>cp_seq = seq, cp_stamps = stamps, cp_type_histogram = histogram (map cs_type_name stamps),
          cp_alloc_histogram = histogram (map (fst \<circ> snd) (at_allocs (allocs_of en))),
          cp_hazards = map canonical_of hazards, cp_hazard_regs = map context_of hazards, cp_stamp_count = length stamps,
          cp_alloc_count = live_count (allocs_of en), cp_hazard_count = length hazards, cp_heap_objects = length objs,
          cp_heap_typed = length typed, cp_heap_rescores = hg_rescores (en_heap en),
          cp_heap_contradictions = hg_contradictions (en_heap en), cp_heap_type_histogram = histogram typed\<rparr>)"


subsection \<open>Replay to checkpoints\<close>

record 'f diff_state =
  df_engine :: "'f engine"
  df_seq :: u64
  df_next :: u64
  df_finalize :: bool
  df_checkpoints :: "topology_checkpoint list"

definition diff_finalize :: "'f diff_state \<Rightarrow> 'f diff_state" where
  "diff_finalize s =
     (if df_finalize s then s\<lparr>df_engine := (df_engine s)\<lparr>en_index := ai_finalize (en_index (df_engine s))\<rparr>, df_finalize := False\<rparr>
      else s)"

definition push_checkpoint :: "'f diff_state \<Rightarrow> 'f diff_state" where
  "push_checkpoint s = s\<lparr>df_checkpoints := df_checkpoints s @ [take_checkpoint (df_seq s) (df_engine s)]\<rparr>"

definition maybe_checkpoint :: "u64 \<Rightarrow> 'f diff_state \<Rightarrow> 'f diff_state" where
  "maybe_checkpoint interval s =
     (if df_next s \<le> df_seq s then (let s1 = push_checkpoint (diff_finalize s) in s1\<lparr>df_next := df_next s1 + interval\<rparr>) else s)"

definition diff_event :: "'f f32_ops \<Rightarrow> nat \<Rightarrow> u64 \<Rightarrow> event \<Rightarrow> 'f diff_state \<Rightarrow> 'f diff_state outcome" where
  "diff_event F fuel interval ev s =
     (case process_event F fuel None ev (df_engine s) of Panic \<Rightarrow> Panic
      | Value (en, _) \<Rightarrow>
          Value (maybe_checkpoint interval
            (s\<lparr>df_engine := en, df_seq := df_seq s + 1, df_finalize := df_finalize s \<or> kind ev = EVENT_CALL\<rparr>)))"

function diff_batch :: "'f f32_ops \<Rightarrow> nat \<Rightarrow> u64 \<Rightarrow> event list \<Rightarrow> 'f diff_state \<Rightarrow> 'f diff_state outcome" where
  "diff_batch F fuel interval [] s = Value s"
| "diff_batch F fuel interval (ev # evs) s =
     (if kind ev = EVENT_REG_SNAPSHOT then
        (case apply_reg_snapshot (ev # evs) (df_engine s) of
           (en, n) \<Rightarrow>
             (let consumed = max n 1 in
              diff_batch F fuel interval (drop (consumed - 1) evs)
                (s\<lparr>df_engine := en, df_seq := df_seq s + 1 + (of_nat consumed - 1)\<rparr>)))
      else
        (case diff_event F fuel interval ev s of Panic \<Rightarrow> Panic | Value s1 \<Rightarrow> diff_batch F fuel interval evs s1))"
  by pat_completeness auto
termination
  by (relation "measure (\<lambda>(_, _, _, evs, _). length evs)") auto

declare diff_batch.simps(2) [simp del]

function diff_loop :: "'f f32_ops \<Rightarrow> nat \<Rightarrow> u64 \<Rightarrow> event_player \<Rightarrow> 'f diff_state \<Rightarrow> 'f diff_state outcome" where
  "diff_loop F fuel interval p s =
     (case read_batch BATCH_LEN p of
        (p', evs) \<Rightarrow>
          (if evs = [] then Value s
           else (case diff_batch F fuel interval evs s of Panic \<Rightarrow> Panic | Value s1 \<Rightarrow> diff_loop F fuel interval p' s1)))"
  by pat_completeness auto
termination
proof (relation "measure (\<lambda>(_, _, _, p, _). length (ep_rest p))", goal_cases)
  case (2 F fuel interval p s p' evs s1)
  have "length (ep_rest p') + 32 * length evs \<le> length (ep_rest p)" using read_batch_consumes [of BATCH_LEN p p' evs] 2(1) by simp
  with 2(2) show ?case by (cases evs) auto
qed simp

declare diff_loop.simps [simp del]

text \<open>Frames are numbered from zero here.\<close>

definition diff_start :: "dwarf_info option \<Rightarrow> u64 \<Rightarrow> 'f diff_state" where
  "diff_start dw interval =
     \<lparr>df_engine = (engine_start dw ro_new None)\<lparr>en_next_frame := 0\<rparr>, df_seq = 0, df_next = interval, df_finalize = False,
      df_checkpoints = []\<rparr>"

text \<open>
  The debug information is shared by the two replays: the types that the first has materialized are
  there for the second.  \<open>None\<close> when the file cannot be opened.
\<close>

definition replay_to_checkpoints ::
  "'f f32_ops \<Rightarrow> nat \<Rightarrow> dwarf_info option \<Rightarrow> u64 \<Rightarrow> u8 list \<Rightarrow> (topology_checkpoint list \<times> dwarf_info option) outcome option" where
  "replay_to_checkpoints F fuel dw interval file =
     (case ep_open file of Inl _ \<Rightarrow> None
      | Inr p \<Rightarrow>
          Some (case diff_loop F fuel interval p (diff_start dw interval) of Panic \<Rightarrow> Panic
                | Value s \<Rightarrow> (let s1 = push_checkpoint (diff_finalize s) in Value (df_checkpoints s1, en_dwarf (df_engine s1)))))"


subsection \<open>Differences\<close>

record checkpoint_diff =
  cd_seq_a :: u64
  cd_seq_b :: u64
  cd_stamps_only_a :: "canonical_stamp list"
  cd_stamps_only_b :: "canonical_stamp list"
  cd_hazards_only_a :: "(canonical_hazard \<times> hazard_reg_context option) list"
  cd_hazards_only_b :: "(canonical_hazard \<times> hazard_reg_context option) list"
  cd_alloc_count_a :: nat
  cd_alloc_count_b :: nat
  cd_stamp_count_a :: nat
  cd_stamp_count_b :: nat
  cd_identical :: bool

text \<open>The registers at the first hazard of a kind: \<open>position\<close>, \<open>get\<close> and \<open>flatten\<close>.\<close>

definition hazard_context :: "topology_checkpoint \<Rightarrow> canonical_hazard \<Rightarrow> hazard_reg_context option" where
  "hazard_context c h =
     (case position h (cp_hazards c) of None \<Rightarrow> None
      | Some i \<Rightarrow> if i < length (cp_hazard_regs c) then cp_hazard_regs c ! i else None)"

definition hazards_only :: "topology_checkpoint \<Rightarrow> topology_checkpoint \<Rightarrow> (canonical_hazard \<times> hazard_reg_context option) list" where
  "hazards_only a b =
     map (\<lambda>h. (h, hazard_context a h)) (set_difference (btree_set hazard_key (cp_hazards a)) (btree_set hazard_key (cp_hazards b)))"

definition masked :: "canonical_stamp list option \<Rightarrow> canonical_stamp list \<Rightarrow> canonical_stamp list" where
  "masked common xs = (case common of None \<Rightarrow> xs | Some m \<Rightarrow> set_difference xs m)"

definition diff_checkpoints :: "topology_checkpoint \<Rightarrow> topology_checkpoint \<Rightarrow> canonical_stamp list option \<Rightarrow> checkpoint_diff" where
  "diff_checkpoints a b common =
     (let sa = masked common (set_difference (cp_stamps a) (cp_stamps b)); sb = masked common (set_difference (cp_stamps b) (cp_stamps a));
          ha = hazards_only a b; hb = hazards_only b a
      in \<lparr>cd_seq_a = cp_seq a, cd_seq_b = cp_seq b, cd_stamps_only_a = sa, cd_stamps_only_b = sb, cd_hazards_only_a = ha,
          cd_hazards_only_b = hb, cd_alloc_count_a = cp_alloc_count a, cd_alloc_count_b = cp_alloc_count b,
          cd_stamp_count_a = cp_stamp_count a, cd_stamp_count_b = cp_stamp_count b,
          cd_identical = (sa = [] \<and> sb = [] \<and> ha = [] \<and> hb = [])\<rparr>)"

text \<open>The stamps of both final checkpoints, if there are any.\<close>

definition common_mask :: "topology_checkpoint list \<Rightarrow> topology_checkpoint list \<Rightarrow> canonical_stamp list option" where
  "common_mask as bs =
     (if as = [] \<or> bs = [] then None
      else (let m = filter (\<lambda>x. x \<in> set (cp_stamps (last bs))) (cp_stamps (last as)) in if m = [] then None else Some m))"

definition diff_all :: "topology_checkpoint list \<Rightarrow> topology_checkpoint list \<Rightarrow> checkpoint_diff list" where
  "diff_all as bs =
     (let pairs = min (length as) (length bs) in
      map (\<lambda>i. diff_checkpoints (as ! i) (bs ! i) (if i = pairs - 1 then None else common_mask as bs)) [0..<pairs])"

text \<open>A run of \<open>rtmap-diff\<close>; \<open>None\<close> when a recording cannot be opened.\<close>

definition run_diff ::
  "'f f32_ops \<Rightarrow> nat \<Rightarrow> dwarf_info option \<Rightarrow> u64 \<Rightarrow> u8 list \<Rightarrow> u8 list \<Rightarrow> checkpoint_diff list outcome option" where
  "run_diff F fuel dw interval baseline subject =
     (case replay_to_checkpoints F fuel dw interval baseline of None \<Rightarrow> None | Some Panic \<Rightarrow> Some Panic
      | Some (Value (as, dw1)) \<Rightarrow>
          (case replay_to_checkpoints F fuel dw1 interval subject of None \<Rightarrow> None | Some Panic \<Rightarrow> Some Panic
           | Some (Value (bs, _)) \<Rightarrow> Some (Value (diff_all as bs))))"

definition first_divergence :: "checkpoint_diff list \<Rightarrow> checkpoint_diff option" where
  "first_divergence ds = find (\<lambda>d. \<not> cd_identical d) ds"

text \<open>The names whose counts differ.\<close>

definition histogram_delta :: "(string, u64) btree_map \<Rightarrow> (string, u64) btree_map \<Rightarrow> (string \<times> u64 \<times> u64) list" where
  "histogram_delta a b =
     (let count = (\<lambda>m k. case bt_get m k of None \<Rightarrow> 0 | Some n \<Rightarrow> n) in
      filter (\<lambda>(_, ca, cb). ca \<noteq> cb) (map (\<lambda>k. (k, count a k, count b k)) (btree_set id (map fst a @ map fst b))))"


subsection \<open>The report\<close>

definition diff_head :: "checkpoint_diff \<Rightarrow> string \<Rightarrow> jfields" where
  "diff_head d status = [(''checkpoint_a'', J_num (unat (cd_seq_a d))), (''checkpoint_b'', J_num (unat (cd_seq_b d))), (''status'', J_raw status)]"

definition stamp_line :: "checkpoint_diff \<Rightarrow> string \<Rightarrow> canonical_stamp \<Rightarrow> string" where
  "stamp_line d side s = json_line (diff_head d ''diverged'' @ [(''side'', J_raw side), (''source'', J_raw (cs_source s)),
     (''type'', J_raw (cs_type_name s)), (''type_size'', J_num (unat (cs_type_size s))), (''fields'', J_num (cs_field_count s))])"

definition or_unknown :: "string option \<Rightarrow> string" where "or_unknown x = (case x of None \<Rightarrow> ''?'' | Some s \<Rightarrow> s)"

definition context_fields :: "hazard_reg_context option \<Rightarrow> jfields" where
  "context_fields ctx =
     (case ctx of None \<Rightarrow> []
      | Some r \<Rightarrow> [(''pc'', J_hex (hc_pc r)), (''rax'', J_hex (hc_rax r)), (''rdi'', J_hex (hc_rdi r)), (''rsi'', J_hex (hc_rsi r)),
                   (''rdx'', J_hex (hc_rdx r)), (''rsp'', J_hex (hc_rsp r))])"

definition hazard_diff_line :: "checkpoint_diff \<Rightarrow> string \<Rightarrow> canonical_hazard \<times> hazard_reg_context option \<Rightarrow> string" where
  "hazard_diff_line d side hc =
     (case hc of (h, ctx) \<Rightarrow>
        json_line (diff_head d ''diverged'' @ [(''side'', J_raw side), (''hazard'', J_raw (ch_kind h)),
          (''write_size'', J_num (unat (ch_write_size h))), (''type'', J_raw (or_unknown (ch_type_name h))),
          (''field'', J_raw (or_unknown (ch_field_name h)))] @ context_fields ctx))"

definition emit_diff_jsonl :: "checkpoint_diff \<Rightarrow> string list" where
  "emit_diff_jsonl d =
     (if cd_identical d
      then [json_line (diff_head d ''identical'' @ [(''stamps_a'', J_num (cd_stamp_count_a d)), (''stamps_b'', J_num (cd_stamp_count_b d)),
              (''allocs_a'', J_num (cd_alloc_count_a d)), (''allocs_b'', J_num (cd_alloc_count_b d))])]
      else map (stamp_line d ''baseline_only'') (cd_stamps_only_a d) @ map (stamp_line d ''subject_only'') (cd_stamps_only_b d) @
           map (hazard_diff_line d ''baseline_only'') (cd_hazards_only_a d) @
           map (hazard_diff_line d ''subject_only'') (cd_hazards_only_b d))"


subsection \<open>A replay to checkpoints returns\<close>

definition diff_ok :: "nat \<Rightarrow> frame_id \<Rightarrow> 'f diff_state \<Rightarrow> bool" where
  "diff_ok fuel n s \<longleftrightarrow> good fuel n (df_engine s) \<and> sorted (map cp_seq (df_checkpoints s)) \<and>
     (\<forall>c \<in> set (df_checkpoints s). cp_seq c \<le> df_seq s)"

lemma diff_ok_finalize: "diff_ok fuel n s \<Longrightarrow> diff_ok fuel n (diff_finalize s)"
  by (simp add: diff_ok_def diff_finalize_def good_finalize)

lemma diff_finalize_fields [simp]:
  "df_seq (diff_finalize s) = df_seq s" "df_checkpoints (diff_finalize s) = df_checkpoints s"
  "en_dwarf (df_engine (diff_finalize s)) = en_dwarf (df_engine s)"
  by (simp_all add: diff_finalize_def)

lemma push_checkpoint_fields [simp]:
  "df_seq (push_checkpoint s) = df_seq s" "df_engine (push_checkpoint s) = df_engine s"
  "df_checkpoints (push_checkpoint s) = df_checkpoints s @ [take_checkpoint (df_seq s) (df_engine s)]"
  by (simp_all add: push_checkpoint_def)

lemma cp_seq_take [simp]: "cp_seq (take_checkpoint sq en) = sq"
  by (simp add: take_checkpoint_def Let_def)

lemma diff_ok_push: "diff_ok fuel n s \<Longrightarrow> diff_ok fuel n (push_checkpoint s)"
  by (auto simp: diff_ok_def sorted_append)

lemma diff_ok_maybe: "diff_ok fuel n s \<Longrightarrow> diff_ok fuel n (maybe_checkpoint interval s)"
  using diff_ok_push [OF diff_ok_finalize] by (auto simp: maybe_checkpoint_def Let_def diff_ok_def)

lemma maybe_seq [simp]: "df_seq (maybe_checkpoint interval s) = df_seq s"
  by (simp add: maybe_checkpoint_def Let_def)

lemma later_ok:
  "diff_ok fuel n s \<Longrightarrow> good fuel n' en \<Longrightarrow> df_seq s \<le> t \<Longrightarrow> diff_ok fuel n' (s\<lparr>df_engine := en, df_seq := t, df_finalize := b\<rparr>)"
  by (auto simp: diff_ok_def)

lemma seq_later: "unat (s :: u64) + k < 2 ^ 64 \<Longrightarrow> unat (s + of_nat k) = unat s + k \<and> s \<le> s + of_nat k"
  by (simp add: unat_word_ariths word_le_nat_alt unat_of_nat take_bit_nat_eq_self)

lemma diff_batch_spec:
  assumes "diff_ok fuel n s" "unat n + length evs < 2 ^ 64" "unat (df_seq s) + length evs < 2 ^ 64"
  shows "\<exists>s' n'. diff_batch F fuel interval evs s = Value s' \<and> diff_ok fuel n' s' \<and> unat n' \<le> unat n + length evs \<and>
    df_seq s' = df_seq s + of_nat (length evs)"
  using assms
proof (induction evs arbitrary: s n rule: length_induct)
  case (1 evs)
  show ?case
  proof (cases evs)
    case Nil
    with "1.prems" show ?thesis by auto
  next
    case (Cons ev rest)
    have IH: "\<exists>s' n'. diff_batch F fuel interval xs s0 = Value s' \<and> diff_ok fuel n' s' \<and> unat n' \<le> unat n0 + length xs \<and>
        df_seq s' = df_seq s0 + of_nat (length xs)"
      if "length xs \<le> length rest" "diff_ok fuel n0 s0" "unat n0 + length xs < 2 ^ 64" "unat (df_seq s0) + length xs < 2 ^ 64" for xs s0 n0
      using "1.IH" that Cons by simp
    show ?thesis
    proof (cases "kind ev = EVENT_REG_SNAPSHOT")
      case True
      obtain en k where a: "apply_reg_snapshot (ev # rest) (df_engine s) = (en, k)" by fastforce
      define c where "c = max k 1"
      define t where "t = s\<lparr>df_engine := en, df_seq := df_seq s + of_nat c\<rparr>"
      have run: "diff_batch F fuel interval evs s = diff_batch F fuel interval (drop (c - 1) rest) t"
        by (simp add: Cons diff_batch.simps(2) True a Let_def c_def t_def)
      have c: "c = 1 \<or> c = 7 \<and> 6 \<le> length rest"
        using apply_count [of ev rest "df_engine s" k] a by (auto simp: c_def)
      then have l: "c + length (drop (c - 1) rest) = length evs" using Cons by auto
      have q: "unat (df_seq s + of_nat c) = unat (df_seq s) + c \<and> df_seq s \<le> df_seq s + of_nat c"
        using "1.prems"(3) l by (intro seq_later) linarith
      have "good fuel n en" using good_snapshot [of fuel n "df_engine s" "ev # rest"] "1.prems"(1) a by (simp add: diff_ok_def)
      then have t: "diff_ok fuel n t"
        using later_ok [OF "1.prems"(1), of n en "df_seq s + of_nat c" "df_finalize s"] q by (simp add: t_def)
      have "length (drop (c - 1) rest) \<le> length rest" "unat n + length (drop (c - 1) rest) < 2 ^ 64"
        "unat (df_seq t) + length (drop (c - 1) rest) < 2 ^ 64"
        using "1.prems"(2,3) Cons l q by (simp_all add: t_def)
      from IH [OF this(1) t this(2,3)] obtain s' n' where
        "diff_batch F fuel interval (drop (c - 1) rest) t = Value s'" "diff_ok fuel n' s'"
        "unat n' \<le> unat n + length (drop (c - 1) rest)" "df_seq s' = df_seq s + of_nat c + of_nat (length (drop (c - 1) rest))"
        by (auto simp: t_def)
      moreover from this(4) have "df_seq s' = df_seq s + of_nat (length evs)"
        unfolding l [symmetric] of_nat_add by (simp only: add.assoc)
      ultimately show ?thesis using run Cons by (intro exI [of _ s'] exI [of _ n']) (simp add: Cons)
    next
      case False
      have "good fuel n (df_engine s)" "unat n + 1 < 2 ^ 64" using "1.prems" Cons by (simp_all add: diff_ok_def)
      from process_event_spec [OF this, of F None ev] obtain en b n1 where
        p: "process_event F fuel None ev (df_engine s) = Value (en, b)" "good fuel n1 en" "unat n1 \<le> unat n + 1" by blast
      define t where "t = maybe_checkpoint interval
        (s\<lparr>df_engine := en, df_seq := df_seq s + 1, df_finalize := df_finalize s \<or> kind ev = EVENT_CALL\<rparr>)"
      have q: "unat (df_seq s + 1) = unat (df_seq s) + 1 \<and> df_seq s \<le> df_seq s + 1"
        using seq_later [of "df_seq s" 1] "1.prems"(3) Cons by simp
      have t: "diff_ok fuel n1 t" "df_seq t = df_seq s + 1"
        unfolding t_def using diff_ok_maybe [OF later_ok [OF "1.prems"(1) p(2)]] q by simp_all
      have run: "diff_batch F fuel interval evs s = diff_batch F fuel interval rest t"
        by (simp add: Cons diff_batch.simps(2) False diff_event_def p(1) t_def)
      have "unat n1 + length rest < 2 ^ 64" "unat (df_seq t) + length rest < 2 ^ 64"
        using "1.prems"(2,3) Cons p(3) q t(2) by simp_all
      from IH [OF le_refl t(1) this] obtain s' n' where
        "diff_batch F fuel interval rest t = Value s'" "diff_ok fuel n' s'" "unat n' \<le> unat n1 + length rest"
        "df_seq s' = df_seq s + 1 + of_nat (length rest)" by (auto simp: t(2))
      with run p(3) show ?thesis by (intro exI [of _ s'] exI [of _ n']) (simp add: Cons)
    qed
  qed
qed


lemma diff_loop_spec:
  assumes "diff_ok fuel n s" "unat n + length (ep_rest p) < 2 ^ 64" "unat (df_seq s) + length (ep_rest p) < 2 ^ 64"
  shows "\<exists>s' n'. diff_loop F fuel interval p s = Value s' \<and> diff_ok fuel n' s' \<and>
    df_seq s' = df_seq s + of_nat (length (file_events p))"
  using assms
proof (induction "length (ep_rest p)" arbitrary: p s n rule: less_induct)
  case less
  obtain p' evs where b: "read_batch BATCH_LEN p = (p', evs)" by fastforce
  show ?case
  proof (cases "evs = []")
    case True
    with b have "file_events p = []" by (auto intro: file_events_empty)
    with True less.prems(1) show ?thesis by (subst diff_loop.simps) (auto simp: b)
  next
    case False
    have c: "length (ep_rest p') + 32 * length evs \<le> length (ep_rest p)" "0 < length evs"
      using read_batch_consumes [OF b] False by simp_all
    have room: "unat n + length evs < 2 ^ 64" "unat (df_seq s) + length evs < 2 ^ 64" using c less.prems(2,3) by linarith+
    from diff_batch_spec [OF less.prems(1) room, of F interval] obtain s1 n1 where
      r: "diff_batch F fuel interval evs s = Value s1" "diff_ok fuel n1 s1" "unat n1 \<le> unat n + length evs"
        "df_seq s1 = df_seq s + of_nat (length evs)" by blast
    have "unat (df_seq s1) = unat (df_seq s) + length evs" unfolding r(4) using seq_later [OF room(2)] by simp
    then have "length (ep_rest p') < length (ep_rest p)" "unat n1 + length (ep_rest p') < 2 ^ 64"
      "unat (df_seq s1) + length (ep_rest p') < 2 ^ 64"
      using c r(3) less.prems(2,3) by linarith+
    from less.hyps [OF this(1) r(2) this(2,3)] obtain s' n' where
      h: "diff_loop F fuel interval p' s1 = Value s'" "diff_ok fuel n' s'"
        "df_seq s' = df_seq s1 + of_nat (length (file_events p'))" by blast
    have "diff_loop F fuel interval p s = Value s'"
      by (subst diff_loop.simps) (simp add: b False r(1) h(1))
    with h(2,3) r(4) show ?thesis by (auto simp: file_events_batch [OF b])
  qed
qed

lemma diff_ok_start:
  assumes "debug_ok fuel dw"
  shows "diff_ok fuel 0 (diff_start dw interval :: 'a diff_state)"
proof -
  let ?en = "engine_start dw ro_new None :: 'a engine"
  have g: "good fuel 1 ?en" by (rule good_start [OF assms])
  have s: "en_stacks ?en = Map.empty" "en_returned ?en = []"
    by (simp_all add: engine_start_def engine_new_def populate_globals_def Let_def split: option.split prod.split)
  have "frames_inv (en_index ?en) (inner_of ?en) (en_stacks ?en) 1 (en_returned ?en)"
    using g unfolding good_def engine_inv_def graph_part_def by metis
  then have "frames_inv (en_index ?en) (inner_of ?en) (en_stacks ?en) 0 (en_returned ?en)"
    unfolding s by (simp add: frames_inv_def live_frames_def frame_ids_def)
  with g have "good fuel 0 (?en\<lparr>en_next_frame := 0\<rparr>)"
    by (simp add: good_def engine_inv_def parts_inv_def graph_part_def)
  then show ?thesis by (simp add: diff_ok_def diff_start_def)
qed

lemma replay_to_checkpoints_spec:
  assumes "debug_ok fuel dw" "length file + 1 < 2 ^ 64" "ep_open file = Inr p"
  shows "\<exists>cs dw'. replay_to_checkpoints F fuel dw interval file = Some (Value (cs, dw')) \<and> debug_ok fuel dw' \<and> cs \<noteq> [] \<and>
    cp_seq (last cs) = of_nat (length (file_events p)) \<and> sorted (map cp_seq cs)"
proof -
  have l: "length (ep_rest p) < 2 ^ 64" using assms(2,3) by (auto simp: ep_open_def Let_def split: if_splits)
  from diff_loop_spec [OF diff_ok_start [OF assms(1), of interval], of p F interval] obtain s n where
    r: "diff_loop F fuel interval p (diff_start dw interval) = Value s" "diff_ok fuel n s"
      "df_seq s = of_nat (length (file_events p))"
    using l by (auto simp: diff_start_def)
  have "diff_ok fuel n (push_checkpoint (diff_finalize s))" by (rule diff_ok_push [OF diff_ok_finalize [OF r(2)]])
  with r show ?thesis
    by (auto simp: replay_to_checkpoints_def assms(3) Let_def diff_ok_def good_def)
qed


subsection \<open>What the report says\<close>

lemma set_set_difference [simp]: "set (set_difference xs ys) = set xs - set ys"
  by (auto simp: set_difference_def)

lemma set_btree_set [simp]: "set (btree_set key xs) = set xs"
  by (simp add: btree_set_def)

lemma set_hazards_only: "fst ` set (hazards_only a b) = set (cp_hazards a) - set (cp_hazards b)"
  by (simp add: hazards_only_def image_image)

text \<open>What the report leaves out: except at the end, the stamps that both recordings end with.\<close>

definition hidden :: "topology_checkpoint list \<Rightarrow> topology_checkpoint list \<Rightarrow> bool \<Rightarrow> canonical_stamp set" where
  "hidden as bs final = (if final then {} else set (cp_stamps (last as)) \<inter> set (cp_stamps (last bs)))"

lemma masked_hidden:
  assumes "as \<noteq> []" "bs \<noteq> []"
  shows "set (masked (if final then None else common_mask as bs) xs) = set xs - hidden as bs final"
  using assms by (auto simp: masked_def hidden_def common_mask_def Let_def filter_empty_conv split: if_splits)

text \<open>
  C37 (functional).  Whatever two recordings hold, their comparison returns, without a panic, when no
  location program of the debug information divides.  The last checkpoint of each has counted all its
  complete events.  The i-th difference lists exactly the stamps and the hazards that only one of the
  two i-th checkpoints has, except that before the last difference the stamps that both recordings
  end with are left out; and it is marked identical exactly if there is nothing to list.
\<close>

theorem diff_reports_exactly:
  assumes "debug_ok fuel dw" "length fa + 1 < 2 ^ 64" "length fb + 1 < 2 ^ 64" "ep_open fa = Inr pa" "ep_open fb = Inr pb"
  shows "\<exists>as bs dw1 dw2 ds. replay_to_checkpoints F fuel dw interval fa = Some (Value (as, dw1)) \<and>
    replay_to_checkpoints F fuel dw1 interval fb = Some (Value (bs, dw2)) \<and>
    run_diff F fuel dw interval fa fb = Some (Value ds) \<and> length ds = min (length as) (length bs) \<and> ds \<noteq> [] \<and>
    cp_seq (last as) = of_nat (length (file_events pa)) \<and> cp_seq (last bs) = of_nat (length (file_events pb)) \<and>
    (\<forall>i < length ds. let a = as ! i; b = bs ! i; d = ds ! i; hide = hidden as bs (i = length ds - 1) in
       set (cd_stamps_only_a d) = set (cp_stamps a) - set (cp_stamps b) - hide \<and>
       set (cd_stamps_only_b d) = set (cp_stamps b) - set (cp_stamps a) - hide \<and>
       fst ` set (cd_hazards_only_a d) = set (cp_hazards a) - set (cp_hazards b) \<and>
       fst ` set (cd_hazards_only_b d) = set (cp_hazards b) - set (cp_hazards a) \<and>
       (cd_identical d \<longleftrightarrow> cd_stamps_only_a d = [] \<and> cd_stamps_only_b d = [] \<and>
          set (cp_hazards a) = set (cp_hazards b)))"
proof -
  from replay_to_checkpoints_spec [OF assms(1,2,4), of F interval] obtain as dw1 where
    a: "replay_to_checkpoints F fuel dw interval fa = Some (Value (as, dw1))" "debug_ok fuel dw1" "as \<noteq> []"
      "cp_seq (last as) = of_nat (length (file_events pa))" by blast
  from replay_to_checkpoints_spec [OF a(2) assms(3,5), of F interval] obtain bs dw2 where
    b: "replay_to_checkpoints F fuel dw1 interval fb = Some (Value (bs, dw2))" "bs \<noteq> []"
      "cp_seq (last bs) = of_nat (length (file_events pb))" by blast
  let ?ds = "diff_all as bs"
  have l: "length ?ds = min (length as) (length bs)" by (simp add: diff_all_def Let_def)
  have "0 < length as" "0 < length bs" using a(3) b(2) by simp_all
  then have ne: "?ds \<noteq> []" unfolding length_greater_0_conv [symmetric] l by simp
  have d: "?ds ! i = diff_checkpoints (as ! i) (bs ! i) (if i = length ?ds - 1 then None else common_mask as bs)" if "i < length ?ds" for i
    using that by (simp add: diff_all_def Let_def)
  have h: "hazards_only x y = [] \<and> hazards_only y x = [] \<longleftrightarrow> set (cp_hazards x) = set (cp_hazards y)" for x y
    using set_hazards_only [of x y] set_hazards_only [of y x] by auto
  have "let a = as ! i; b = bs ! i; d = ?ds ! i; hide = hidden as bs (i = length ?ds - 1) in
       set (cd_stamps_only_a d) = set (cp_stamps a) - set (cp_stamps b) - hide \<and>
       set (cd_stamps_only_b d) = set (cp_stamps b) - set (cp_stamps a) - hide \<and>
       fst ` set (cd_hazards_only_a d) = set (cp_hazards a) - set (cp_hazards b) \<and>
       fst ` set (cd_hazards_only_b d) = set (cp_hazards b) - set (cp_hazards a) \<and>
       (cd_identical d \<longleftrightarrow> cd_stamps_only_a d = [] \<and> cd_stamps_only_b d = [] \<and>
          set (cp_hazards a) = set (cp_hazards b))" if "i < length ?ds" for i
    unfolding Let_def d [OF that] h [symmetric]
    by (simp add: diff_checkpoints_def Let_def masked_hidden [OF a(3) b(2)] set_hazards_only)
  moreover have "run_diff F fuel dw interval fa fb = Some (Value ?ds)" by (simp add: run_diff_def a(1) b(1))
  ultimately show ?thesis using a b l ne by blast
qed

theorem diff_reports_exactly_witness:
  "\<exists>ds. run_diff cent_ops 2 (Some demo_info) 2 (fst (er_finish (fold er_record (map snd demo_history) er_create)))
      (fst (er_finish er_create)) = Some (Value ds) \<and> ds \<noteq> []"
proof -
  let ?fa = "fst (er_finish (fold er_record (map snd demo_history) er_create))" and ?fb = "fst (er_finish er_create)"
  have fb: "fst (er_finish (fold er_record [] er_create)) = ?fb" by simp
  have o: "ep_open ?fa = Inr \<lparr>ep_rest = concat (map event_bytes (map snd demo_history)), ep_remaining = of_nat (length (map snd demo_history))\<rparr>"
    "ep_open ?fb = Inr \<lparr>ep_rest = concat (map event_bytes []), ep_remaining = of_nat (length ([] :: event list))\<rparr>"
    unfolding fb [symmetric] header_finish open_header by simp_all
  have "length ?fa + 1 < 2 ^ 64" "length ?fb + 1 < 2 ^ 64"
    unfolding fb [symmetric] header_finish by (simp_all add: demo_history_def)
  from diff_reports_exactly [OF demo_debug_ok this o, of cent_ops 2] show ?thesis by blast
qed

text \<open>A recording compared with itself shows no difference, if its replay adds no types to the debug information.\<close>

lemma self_diff_identical:
  assumes "replay_to_checkpoints F fuel dw interval file = Some (Value (cs, dw))"
  shows "\<exists>ds. run_diff F fuel dw interval file file = Some (Value ds) \<and> length ds = length cs \<and> (\<forall>d \<in> set ds. cd_identical d)"
proof -
  have h: "hazards_only c c = []" for c
    using set_hazards_only [of c c] by simp
  have "masked m (set_difference xs xs) = []" for m xs
    by (simp add: masked_def set_difference_def split: option.split)
  then have "cd_identical (diff_checkpoints c c m)" for c m by (simp add: diff_checkpoints_def Let_def h)
  then show ?thesis using assms by (auto simp: run_diff_def diff_all_def Let_def)
qed

end
