(* ===== verification/Tool_Main.thy ===== *)
theory Tool_Main
  imports Lint_Heat Topo_Diff
begin

text \<open>
  The command lines of the other two programs, \<open>rtmap-diff\<close> (\<open>parse_args\<close> of \<^verbatim>\<open>engine/src/diff.rs\<close>) and
  \<open>rtmap-lint\<close> (\<open>main\<close> of \<^verbatim>\<open>engine/src/lint.rs\<close>).  The contents of files, the registry of types that the
  DWARF reader makes of an executable and the order in which a hash map is walked are parameters.  A
  program ends with a status; of what the lint prints the diagnostics are modelled, not the messages.
\<close>

subsection \<open>\<open>rtmap-diff\<close>\<close>

record diff_args =
  da_baseline :: "string option"
  da_subject :: "string option"
  da_dwarf_path :: "string option"
  da_interval :: u64
  da_output :: "string option"

definition diff_args_new :: diff_args where
  "diff_args_new = \<lparr>da_baseline = None, da_subject = None, da_dwarf_path = None, da_interval = 100000, da_output = None\<rparr>"

datatype 'a parsed = Ends nat | Parsed 'a

definition set_diff_arg :: "string \<Rightarrow> string \<Rightarrow> diff_args \<Rightarrow> diff_args" where
  "set_diff_arg a v d =
     (if a \<in> {''--baseline'', ''-a''} then d\<lparr>da_baseline := Some v\<rparr>
      else if a \<in> {''--subject'', ''-b''} then d\<lparr>da_subject := Some v\<rparr>
      else if a \<in> {''--dwarf'', ''-d''} then d\<lparr>da_dwarf_path := Some v\<rparr>
      else if a \<in> {''--interval'', ''-n''} then d\<lparr>da_interval := (case parse_u64 v of None \<Rightarrow> 100000 | Some n \<Rightarrow> of_nat n)\<rparr>
      else d\<lparr>da_output := Some v\<rparr>)"

definition diff_options :: "string list" where
  "diff_options = [''--baseline'', ''-a'', ''--subject'', ''-b'', ''--dwarf'', ''-d'', ''--interval'', ''-n'', ''--output'', ''-o'']"

text \<open>The value of an option is read by its index: an option at the end panics.\<close>

fun diff_arg_loop :: "string list \<Rightarrow> diff_args \<Rightarrow> diff_args parsed outcome" where
  "diff_arg_loop [] d = Value (Parsed d)"
| "diff_arg_loop (a # as) d =
     (if a \<in> set diff_options then (case as of [] \<Rightarrow> Panic | v # as' \<Rightarrow> diff_arg_loop as' (set_diff_arg a v d))
      else if a \<in> {''--help'', ''-h''} then Value (Ends 0) else Value (Ends 1))"

definition parse_diff_args :: "string list \<Rightarrow> diff_args parsed outcome" where
  "parse_diff_args args =
     (case diff_arg_loop args diff_args_new of Panic \<Rightarrow> Panic | Value (Ends n) \<Rightarrow> Value (Ends n)
      | Value (Parsed d) \<Rightarrow> Value (if da_baseline d = None \<or> da_subject d = None then Ends 1 else Parsed d))"

text \<open>
  What the diff reports, or the status with which it ends.  A debug file that cannot be parsed is
  ignored; a recording that cannot be read fails like an empty one, when it is opened.
\<close>

definition read_recording :: "(string \<Rightarrow> u8 list option) \<Rightarrow> string option \<Rightarrow> u8 list" where
  "read_recording read path = (case Option.bind path read of None \<Rightarrow> [] | Some file \<Rightarrow> file)"

definition diff_main ::
  "'f f32_ops \<Rightarrow> nat \<Rightarrow> (string \<Rightarrow> dwarf_info option) \<Rightarrow> (string \<Rightarrow> u8 list option) \<Rightarrow> string list \<Rightarrow> checkpoint_diff list parsed outcome" where
  "diff_main F fuel parse_elf read args =
     (case parse_diff_args args of Panic \<Rightarrow> Panic | Value (Ends n) \<Rightarrow> Value (Ends n)
      | Value (Parsed d) \<Rightarrow>
          (case run_diff F fuel (Option.bind (da_dwarf_path d) parse_elf) (da_interval d)
                  (read_recording read (da_baseline d)) (read_recording read (da_subject d)) of
             None \<Rightarrow> Value (Ends 1) | Some Panic \<Rightarrow> Panic | Some (Value ds) \<Rightarrow> Value (Parsed ds)))"

lemma missing_value_panics: "parse_diff_args [''--baseline'', ''a.bin'', ''--subject''] = Panic"
  by (simp add: parse_diff_args_def diff_options_def)

text \<open>Every setting can be given, in the order of the structure, and arrives.\<close>

definition diff_line :: "diff_args \<Rightarrow> string list" where
  "diff_line d = concat (map (\<lambda>(opt, v). case v of None \<Rightarrow> [] | Some x \<Rightarrow> [opt, x])
     [(''-a'', da_baseline d), (''-b'', da_subject d), (''-d'', da_dwarf_path d), (''-n'', Some (dec (unat (da_interval d)))), (''-o'', da_output d)])"

lemma diff_line_parsed:
  assumes "da_baseline d \<noteq> None" "da_subject d \<noteq> None"
  shows "parse_diff_args (diff_line d) = Value (Parsed d)"
  using assms
  by (cases "da_dwarf_path d"; cases "da_output d")
    (auto simp: parse_diff_args_def diff_line_def diff_options_def set_diff_arg_def diff_args_new_def parse_dec)


subsection \<open>\<open>rtmap-lint\<close>\<close>

record lint_args =
  li_binary :: "string option"
  li_binary2 :: "string option"
  li_struct :: "string option"
  li_cl_size :: u64
  li_annotations :: "string option"
  li_heatmap :: "string option"
  li_diff :: bool
  li_json :: bool
  li_list :: bool
  li_all :: bool

definition lint_args_new :: lint_args where
  "lint_args_new = \<lparr>li_binary = None, li_binary2 = None, li_struct = None, li_cl_size = DEFAULT_CACHELINE, li_annotations = None,
     li_heatmap = None, li_diff = False, li_json = False, li_list = False, li_all = False\<rparr>"

definition set_lint_value :: "string \<Rightarrow> string \<Rightarrow> lint_args \<Rightarrow> lint_args option" where
  "set_lint_value a v l =
     (if a = ''--struct'' then Some (l\<lparr>li_struct := Some v\<rparr>)
      else if a = ''--cacheline'' then map_option (\<lambda>n. l\<lparr>li_cl_size := of_nat n\<rparr>) (parse_u64 v)
      else if a = ''--annotations'' then Some (l\<lparr>li_annotations := Some v\<rparr>)
      else Some (l\<lparr>li_heatmap := Some v\<rparr>))"

definition set_lint_flag :: "string \<Rightarrow> lint_args \<Rightarrow> lint_args" where
  "set_lint_flag a l =
     (if a = ''--diff'' then l\<lparr>li_diff := True\<rparr> else if a = ''--json'' then l\<lparr>li_json := True\<rparr>
      else if a = ''--list'' then l\<lparr>li_list := True\<rparr> else l\<lparr>li_all := True\<rparr>)"

fun lint_arg_loop :: "string list \<Rightarrow> lint_args \<Rightarrow> lint_args parsed" where
  "lint_arg_loop [] l = Parsed l"
| "lint_arg_loop (a # as) l =
     (if a \<in> {''--struct'', ''--cacheline'', ''--annotations'', ''--heatmap''} then
        (case as of [] \<Rightarrow> Ends 1
         | v # as' \<Rightarrow> (case set_lint_value a v l of None \<Rightarrow> Ends 1 | Some l' \<Rightarrow> lint_arg_loop as' l'))
      else if a \<in> {''--diff'', ''--json'', ''--list'', ''--all''} then lint_arg_loop as (set_lint_flag a l)
      else if prefix ''-'' a then Ends 1
      else if li_binary l = None then lint_arg_loop as (l\<lparr>li_binary := Some a\<rparr>)
      else if li_binary2 l = None then lint_arg_loop as (l\<lparr>li_binary2 := Some a\<rparr>)
      else Ends 1)"

definition structs_of :: "registry \<Rightarrow> registry" where
  "structs_of reg = filter (\<lambda>(_, ti). ti_fields ti \<noteq> [] \<and> 0 < ti_byte_size ti) reg"

datatype lint_result =
  Listed "(string \<times> u64 \<times> nat \<times> u64) list"
| Diffed "diagnostic list"
| Diverged divergence
| Checked "(string \<times> diagnostic list) list"

definition list_structs :: "u64 \<Rightarrow> registry \<Rightarrow> lint_result outcome" where
  "list_structs cs reg =
     (let ts = sort_key (to_lower \<circ> fst) (structs_of reg) in
      if cs = 0 \<and> ts \<noteq> [] then Panic
      else Value (Listed (map (\<lambda>(name, ti). (name, ti_byte_size ti, length (ti_fields ti), div_ceil (ti_byte_size ti) cs)) ts)))"

text \<open>A result comes with the status.\<close>

definition lint_diff ::
  "(string list \<Rightarrow> string list) \<Rightarrow> (string \<Rightarrow> registry option) \<Rightarrow> lint_args \<Rightarrow> registry \<Rightarrow> (lint_result option \<times> nat) outcome" where
  "lint_diff ord parse_elf l reg =
     (case (Option.bind (li_binary2 l) parse_elf, li_struct l) of
        (Some reg2, Some sname) \<Rightarrow>
          (case (map_of reg sname, map_of reg2 sname) of
             (Some old, Some new) \<Rightarrow>
               (case diff_structs ord old new sname (li_cl_size l) of Panic \<Rightarrow> Panic
                | Value ds \<Rightarrow> Value (Some (Diffed ds), exit_status (count_warnings ds)))
           | _ \<Rightarrow> Value (None, 1))
      | _ \<Rightarrow> Value (None, 1))"

definition lint_divergence ::
  "(observed \<Rightarrow> observed) \<Rightarrow> (string \<Rightarrow> string option) \<Rightarrow> lint_args \<Rightarrow> string \<Rightarrow> registry \<Rightarrow> (lint_result option \<times> nat) outcome" where
  "lint_divergence ord read l hp reg =
     (case li_struct l of None \<Rightarrow> Value (None, 1)
      | Some sname \<Rightarrow>
          (case (map_of reg sname, parse_heatmap (read hp)) of
             (Some ti, Some heat) \<Rightarrow>
               (case divergence_report ord ti sname (li_cl_size l) heat of Panic \<Rightarrow> Panic | Value d \<Rightarrow> Value (Some (Diverged d), 0))
           | _ \<Rightarrow> Value (None, 1)))"

definition structs_to_check :: "lint_args \<Rightarrow> registry \<Rightarrow> registry option" where
  "structs_to_check l reg =
     (if li_all l then Some (structs_of reg)
      else (case li_struct l of None \<Rightarrow> None
            | Some sname \<Rightarrow> if sname = [] then None else map_option (\<lambda>ti. [(sname, ti)]) (map_of reg sname)))"

text \<open>The names that are suggested for one that is not there.\<close>

definition suggestions :: "string \<Rightarrow> registry \<Rightarrow> string list" where
  "suggestions sname reg = filter (\<lambda>k. sublist (to_lower sname) (to_lower k)) (map fst reg)"

definition lint_check ::
  "group_order \<Rightarrow> (string \<Rightarrow> string option) \<Rightarrow> lint_args \<Rightarrow> registry \<Rightarrow> (lint_result option \<times> nat) outcome" where
  "lint_check ord read l reg =
     (case (case li_annotations l of None \<Rightarrow> Inr [] | Some path \<Rightarrow> from_file (read path)) of
        Inl _ \<Rightarrow> Value (None, 1)
      | Inr ann \<Rightarrow>
          (case structs_to_check l reg of None \<Rightarrow> Value (None, 1)
           | Some sts \<Rightarrow>
               (case check_structs ord (li_all l) (li_cl_size l) ann sts of Panic \<Rightarrow> Panic
                | Value (out, n) \<Rightarrow> Value (Some (Checked out), exit_status n))))"

definition lint_main ::
  "group_order \<Rightarrow> (string list \<Rightarrow> string list) \<Rightarrow> (observed \<Rightarrow> observed) \<Rightarrow> (string \<Rightarrow> registry option) \<Rightarrow> (string \<Rightarrow> string option) \<Rightarrow>
    string list \<Rightarrow> (lint_result option \<times> nat) outcome" where
  "lint_main gord sord oord parse_elf read args =
     (if args = [] then Value (None, 1)
      else (case lint_arg_loop args lint_args_new of Ends n \<Rightarrow> Value (None, n)
            | Parsed l \<Rightarrow>
                (case Option.bind (li_binary l) parse_elf of None \<Rightarrow> Value (None, 1)
                 | Some reg \<Rightarrow>
                     (if li_list l then (case list_structs (li_cl_size l) reg of Panic \<Rightarrow> Panic | Value r \<Rightarrow> Value (Some r, 0))
                      else if li_diff l then lint_diff sord parse_elf l reg
                      else (case li_heatmap l of Some hp \<Rightarrow> lint_divergence oord read l hp reg
                            | None \<Rightarrow> lint_check gord read l reg)))))"

text \<open>With a line size that is not zero the lint does not panic, and a check fails exactly if it warns.\<close>

lemma check_structs_total:
  assumes "cs \<noteq> 0"
  shows "\<exists>out. check_structs ord all cs ann sts = Value (out, \<Sum>(_, ti) \<leftarrow> sts. case analyze_struct ord ti cs ann of Panic \<Rightarrow> 0 | Value ds \<Rightarrow> count_warnings ds)"
  by (induction sts) (auto simp: analyze_struct_def assms Let_def split: outcome.split)

lemma lint_total:
  assumes "lint_arg_loop args lint_args_new = Parsed l" "li_cl_size l \<noteq> 0"
  shows "lint_main gord sord oord parse_elf read args \<noteq> Panic"
proof -
  have "lint_check gord read l reg \<noteq> Panic" for reg
  proof -
    have "check_structs gord (li_all l) (li_cl_size l) ann sts \<noteq> Panic" for ann sts
      using check_structs_total [OF assms(2), of gord "li_all l" ann sts] by auto
    then show ?thesis by (auto simp: lint_check_def split: option.split sum.split outcome.split)
  qed
  moreover have "lint_diff sord parse_elf l reg \<noteq> Panic" for reg
    using assms(2) by (auto simp: lint_diff_def diff_structs_def split: option.split)
  moreover have "lint_divergence oord read l hp reg \<noteq> Panic" for hp reg
    using assms(2) by (auto simp: lint_divergence_def divergence_report_def Let_def split: option.split)
  moreover have "list_structs (li_cl_size l) reg \<noteq> Panic" for reg using assms(2) by (simp add: list_structs_def Let_def)
  ultimately show ?thesis using assms(1) by (auto simp: lint_main_def split: option.split outcome.split)
qed

text \<open>The line size is not checked: with zero the first struct panics.\<close>

lemma zero_line_panics:
  "lint_main gord sord oord (\<lambda>_. Some [(''s'', demo_struct)]) read [''a.out'', ''--struct'', ''s'', ''--cacheline'', ''0''] = Panic"
proof -
  have "parse_u64 ''0'' = Some 0" by (simp add: parse_u64_def parse_radix_def digit_val_def)
  then show ?thesis
    by (simp add: lint_main_def lint_args_new_def set_lint_value_def lint_check_def structs_to_check_def analyze_struct_def)
qed

end
