(* ===== verification/Spec2Isabelle.thy ===== *)
theory Spec2Isabelle
  imports Snapshots Topo_Check Engine_Props Loop_Props Command_Line Terminal Tool_Main
begin

text \<open>
  \<^bold>\<open>A verification development for rtmap.\<close>  rtmap instruments a running process; the tracer writes
  32-byte events into shared-memory rings, and the engine (\<^verbatim>\<open>src/engine/src\<close>) consumes them,
  relates them to the debug information and keeps a model of the process: its registers, its stack,
  its allocations, the types of its objects and the pointers between them.

  \<^bold>\<open>The theories and the code.\<close>
  \<^item> \<open>Rtmap_Prelude\<close>: machine integer types, \<open>outcome\<close> (a value or a panic), ordered maps and sets as
    sorted association lists (Rust's \<open>BTreeMap\<close>), hash maps as functions, lemmas all parts share.
  \<^item> \<open>Ring_Protocol\<close>, \<open>Ring\<close>, \<open>Orchestrator\<close> (\<^verbatim>\<open>ring.rs\<close>): the layouts and their ABI hash, the
    Bloom filter, one ring's consumer, the orchestrator of all rings with its backpressure.
  \<^item> \<open>Dwarf_Types\<close>, \<open>Dwarf_Expr\<close>, \<open>Dwarf_Info\<close> (\<^verbatim>\<open>dwarf.rs\<close>): the type descriptions, location
    expressions and their stack machine, the registry of types, the allocation-site oracle.
  \<^item> \<open>Shadow_Regs\<close> (\<^verbatim>\<open>shadow_regs.rs\<close>): the shadow register file and its coherence, the reassembly
    of variables in pieces.
  \<^item> \<open>Addr_Index\<close> (\<^verbatim>\<open>index.rs\<close>): from addresses to names, with a cache of recent answers.
  \<^item> \<open>Alloc_Tracker\<close>, \<open>Shadow_Types\<close>, \<open>Write_Checks\<close>, \<open>Type_Epochs\<close>, \<open>World_State\<close>, \<open>Shadow_Stack\<close>,
    \<open>Cache_Lines\<close>, \<open>Field_Heatmap\<close>, \<open>Snapshots\<close> (\<^verbatim>\<open>world.rs\<close>): one theory for each structure of the
    world state; \<open>Retro_Scan\<close>: the retrospective scan of an object's pointers; \<open>World_Full\<close>: the record
    of all of them.
  \<^item> \<open>Heap_Oracle\<close>, \<open>Heap_Graph\<close> (\<^verbatim>\<open>heap_graph.rs\<close>): which addresses are heap, and the objects
    inferred from clusters of writes.
  \<^item> \<open>Rust_Text\<close>, \<open>Topology\<close>, \<open>Topo_Check\<close> (the string library, \<^verbatim>\<open>topology.rs\<close>, \<^verbatim>\<open>check.rs\<close>): the
    stream of topology events and the checker that reads it back.
  \<^item> \<open>Reconciler\<close>, \<open>Event_Arms\<close> (\<^verbatim>\<open>reconciler.rs\<close>, and the initial state of \<^verbatim>\<open>main.rs\<close>): the state of
    the engine, a record of the parts above (the source passes them as separate arguments), register
    snapshots, the registration of the globals of the program and of its libraries, calls and
    returns (\<open>Reconciler\<close>); \<open>process_event\<close> with one definition for each arm of its match, in the
    order of the source (\<open>Event_Arms\<close>).
  \<^item> \<open>Engine_Graph\<close>, \<open>Engine_Inv\<close>, \<open>Engine_Props\<close>: the invariant of the whole engine and the
    properties of histories of events; \<open>Engine_Core\<close>: the engine without its topology stream and its
    orchestrator, which no event reads.
  \<^item> \<open>Warm_Scan\<close> (\<^verbatim>\<open>reconciler.rs\<close>, \<open>WarmScanner\<close>): the scan of the memory of a process to which rtmap is
    attached, seeded from its globals and then run in steps with a budget of reads.
  \<^item> \<open>Recording\<close> (\<^verbatim>\<open>record.rs\<close>): the file of recorded events, and its replay.
  \<^item> \<open>Proc_Maps\<close> (\<^verbatim>\<open>proc_maps.rs\<close>): the maps of processes, and the regions that several of them share.
  \<^item> \<open>Child_Tracker\<close> (\<^verbatim>\<open>main.rs\<close>): the child processes of the traced program, from their announcement to
    their retirement, and the identifiers of their threads.
  \<^item> \<open>Event_Loop\<close>, \<open>Loop_Props\<close> (\<^verbatim>\<open>main.rs\<close>): the loops of \<open>run_headless\<close>, \<open>run\<close> and \<open>run_replay\<close>: batches
    of events, and one definition for each step of a round; how batches compose, that replays return,
    and that the replay of a recording rebuilds the run, round for round.
  \<^item> \<open>Terminal\<close> (\<^verbatim>\<open>tui.rs\<close>, and the rendering step of \<open>run\<close>): the state of the terminal interface, its
    keys, the lines of the memory map and of the journal, the search and the time travel.
  \<^item> \<open>Text_Format\<close>: more of the string library, used by the following theories.
  \<^item> \<open>Layout_Lint\<close>, \<open>Lint_Heat\<close> (\<^verbatim>\<open>lint.rs\<close>, and \<open>export_tsv\<close> of \<^verbatim>\<open>world.rs\<close>): the layout of a struct on
    cache lines and the diagnostics of the lint; their comparison with the writes observed.
  \<^item> \<open>Topo_Diff\<close> (\<^verbatim>\<open>diff.rs\<close>): the comparison of two recordings at checkpoints.
  \<^item> \<open>Config\<close> (\<^verbatim>\<open>config.rs\<close>): the configuration files, the profiles of programs, and what \<open>setup\<close> and
    \<open>init\<close> write; the search for DynamoRIO.
  \<^item> \<open>Command_Line\<close> (\<^verbatim>\<open>main.rs\<close>), \<open>Tool_Main\<close> (\<open>main\<close> of \<^verbatim>\<open>diff.rs\<close> and \<^verbatim>\<open>lint.rs\<close>): the command lines of the
    three programs, how the configuration completes them, and what is run.

  \<^bold>\<open>How the parts interact.\<close>  The orchestrator hands batches of events to the engine, which calls
  \<open>apply_reg_snapshot\<close> for a run of slots with a register snapshot and \<open>process_event\<close> for the others.
  An event first updates the shadow registers and the stack (calls, returns, reloads) and then the
  world: a write is looked up in the address index, checked against its allocation and the type that
  covers it, propagates types along pointers (\<open>Shadow_Types\<close>, \<open>Retro_Scan\<close>), and moves edges of the
  pointer graph; allocations and frees update the tracker and purge what was known of the block.
  What is seen is written to the topology stream, which the checker reads; the field heatmap goes to a
  file that the lint reads; recordings are read by the replay and by the diff.

  \<^bold>\<open>What the lemmas show.\<close>  Each component has its invariant, preserved by each operation, and the
  result of its operations on every branch; most have a reference: a stack machine against the
  expression it was compiled from, the tracker against a map, the snapshot ring and the epoch log
  against the list of what was put into them, the stream against the graph of its events, a
  recording against its events, the warnings of the lint against the clashes of fields that share a
  line, the report of the diff against the two checkpoints, a command line against the configuration
  written on it, a profile against the file written for it.  Where the code does less than one would
  expect the properties say so: the return leaves the stack pointer of the callee
  (\<open>Shadow_Regs\<close>), a module loaded below an earlier one is lost to the oracle
  (\<open>Heap_Oracle\<close>), names are cut at their first quote by the checker (\<open>Topo_Check\<close>),
  the options of rtmap are found behind the separator (\<open>Command_Line\<close>).  The engine's invariant \<open>good\<close> (\<open>Engine_Inv\<close>) is the conjunction of
  the components' invariants with the relations between them: node numbers agree between index and
  graph, nodes of frames are of live frames, the frames of returned functions are known.  An operation
  that touches only parts with invariants of their own is \<open>quiet\<close>, and quietness composes; so each arm of
  \<open>process_event\<close> needs a lemma only for what it does to frames.  From it follows that no history of
  events panics.

  \<^bold>\<open>Modelling.\<close>  Machine integers are words of their width.  Additions that the source leaves to
  Rust's \<open>+\<close> wrap, as in the release build.  A panic that depends on data (division of \<open>i64::MIN\<close>,
  indexing, exhausted recursion) is the value \<open>Panic\<close> (in \<open>poll_new_rings\<close>, \<open>None\<close>: it is reached when the
  tracer announces more threads than its table holds, as it does for a moment when the table is full).  Hash maps are functions where their order
  does not matter; where the source iterates over one the order is a parameter or the result does
  not depend on it.  The following are parameters, since they are not in \<^verbatim>\<open>src\<close>: what
  the DWARF reader returns (\<open>dwarf_info\<close>, with \<open>dwarf_entries\<close> for the entries from which types are
  completed later), the arithmetic of \<open>f32\<close> (\<open>f32_ops\<close>), the memory of the process (\<open>read_word\<close>),
  and the table of loaded libraries.

  \<^bold>\<open>Bounds and fuel.\<close>  Recursion in \<open>patch_shallow_fields\<close> follows types by name and need not end:
  it has fuel, and \<open>patch_shallow_fields_total\<close> shows that on a registry ranked by containment the rank
  suffices; \<open>Dwarf_Info\<close> has a cyclic registry on which no fuel does.  The properties of the engine
  assume that its types can be patched (\<open>debug_ok\<close>).  The retrospective scan has the source's own
  bounds; the replay of deferred writes has its eight passes.  The loop of the warm scan ends because
  an item is queued only after a read, and the reads of a step are bounded by its budget.  The walk of
  the checker ends because it visits no address twice.  Frame numbers are 64-bit: the properties of
  histories assume fewer than \<open>2^64 - 1\<close> events.  Batches and replays recurse on what is left of them;
  the last sweep of the rings could go on as long as a producer runs, and has a number of passes.
  A replay rebuilds a run whose rounds are its own batches of 4096 slots: it finalizes the index, ages
  the world and collects stale objects at the end of each batch, as the run does at the end of a round.

  \<^bold>\<open>Not modelled.\<close>  Reading DWARF (most of \<^verbatim>\<open>dwarf.rs\<close> walks the data structures of \<open>gimli\<close> and
  \<open>object\<close>); messages on standard error, help texts and the final text report of \<^verbatim>\<open>main.rs\<close>; the
  layout and colours of the terminal interface and the panels that only show values; starting and
  reaping the tracer, and signals; the one-shot \<open>warm_scan\<close> that the program does not call.  Concurrency is modelled in \<open>Ring\<close>, where the producer runs between the
  consumer's reads of the head; other shared-memory races are not.
\<close>

end
